(* ===== verification/Prelude.thy ===== *)
theory Prelude
  imports Main "HOL-Library.Word" "HOL-Library.Multiset"
begin

text \<open>
  The prelude of the development: C++ integer conversions with their wrap-around, results of
  operations that may fail an assertion or leave the process, the ordered associative
  containers of the C++ standard library (std::map and std::set as sorted association lists,
  behind an interface locale), and the vector operations (subvec, copy into) the components
  share.
\<close>

named_theorems layout_simps \<open>lengths and contents of subvecs and copies\<close>
named_theorems om_simps \<open>lookups in ordered maps\<close>

section \<open>Machine integers\<close>

text \<open>
  The program mixes 32 bit signed integers and 64 bit unsigned sizes on a platform where
  sizeof(size_t) = 8 (common/utils.cxx asserts it). Values are mathematical integers and
  every narrowing conversion is written out.
\<close>

definition int32 :: "int \<Rightarrow> int" where
  "int32 x = (x + 2 ^ 31) mod 2 ^ 32 - 2 ^ 31"

definition size64 :: "int \<Rightarrow> nat" where
  "size64 x = nat (x mod 2 ^ 64)"

definition size_minus :: "nat \<Rightarrow> nat \<Rightarrow> nat" where
  "size_minus a b = size64 (int a - int b)"

definition cdiv :: "int \<Rightarrow> int \<Rightarrow> int" where
  "cdiv a b = sgn a * sgn b * (\<bar>a\<bar> div \<bar>b\<bar>)"

lemma int32_id: "- (2 ^ 31) \<le> x \<Longrightarrow> x < 2 ^ 31 \<Longrightarrow> int32 x = x"
  by (simp add: int32_def)

lemma int32_range: "- (2 ^ 31) \<le> int32 x \<and> int32 x < 2 ^ 31"
  by (simp add: int32_def)

lemma size64_id: "0 \<le> x \<Longrightarrow> x < 2 ^ 64 \<Longrightarrow> size64 x = nat x"
  by (simp add: size64_def)

lemma size64_of_nat [simp]: "n < 2 ^ 64 \<Longrightarrow> size64 (int n) = n"
  by (simp add: size64_def nat_mod_distrib)

lemma size64_add [simp]: "a + b < 2 ^ 64 \<Longrightarrow> size64 (int a + int b) = a + b"
  using size64_of_nat [of "a + b"] by simp

lemma size_minus_le: "b \<le> a \<Longrightarrow> a < 2 ^ 64 \<Longrightarrow> size_minus a b = a - b"
  by (simp add: size_minus_def flip: of_nat_diff)

lemma size_minus_underflow: "size_minus 0 1 = 2 ^ 64 - 1"
  by (simp add: size_minus_def size64_def)

lemma cdiv_nonneg: "0 \<le> a \<Longrightarrow> 0 < b \<Longrightarrow> cdiv a b = a div b"
  by (cases "a = 0") (auto simp: cdiv_def sgn_if)

section \<open>Results\<close>

text \<open>
  An operation ends normally (\<open>Inr\<close>), on a failed assert, with exit of the process, with
  MPI_Abort, by throwing (a failed file operation, a vector too long, an index out of range), with the signal that MERR
  raises, or with undefined behaviour (an access outside an array).
\<close>

datatype err =
    Assertion_failed
  | Exit int
  | Aborted
  | Io_exception
  | Length_error
  | Out_of_range
  | Interrupted
  | Blocked
  | Undefined_behaviour
  | Invalid_argument

type_synonym 'a res = "err + 'a"

definition and_then :: "'e + 'a \<Rightarrow> ('a \<Rightarrow> 'e + 'b) \<Rightarrow> 'e + 'b" where
  "and_then m f = (case m of Inl e \<Rightarrow> Inl e | Inr x \<Rightarrow> f x)"

definition assert_then :: "bool \<Rightarrow> 'a res \<Rightarrow> 'a res" where
  "assert_then b m = (if b then m else Inl Assertion_failed)"

text \<open>MERR interrupts rank 0; the other ranks continue.\<close>

definition merr :: "int \<Rightarrow> 'b res \<Rightarrow> 'b res" where
  "merr rank k = (if rank = 0 then Inl Interrupted else k)"

lemma and_then_simps [simp]:
  "and_then (Inl e) f = Inl e"
  "and_then (Inr x) f = f x"
  by (simp_all add: and_then_def)

lemma and_then_Inr_iff: "and_then m f = Inr y \<longleftrightarrow> (\<exists>x. m = Inr x \<and> f x = Inr y)"
  by (cases m) auto

lemma assert_then_Inr_iff [simp]: "assert_then b m = Inr x \<longleftrightarrow> b \<and> m = Inr x"
  by (simp add: assert_then_def)

lemma assert_then_True [simp]: "assert_then True m = m"
  and assert_then_False [simp]: "assert_then False m = Inl Assertion_failed"
  by (simp_all add: assert_then_def)

text \<open>For evaluation: only the first computation is rewritten before it has a value.\<close>

lemma and_then_weak_cong: "m = m' \<Longrightarrow> and_then m f = and_then m' f"
  by simp

lemma and_then_cong [fundef_cong]:
  "m = m' \<Longrightarrow> (\<And>x. m' = Inr x \<Longrightarrow> f x = f' x) \<Longrightarrow> and_then m f = and_then m' f'"
  by (cases m') auto

section \<open>Ordered maps and sets\<close>

text \<open>
  std::map keeps its entries sorted by key; iteration visits them in that order. The model
  is the association list of the entries in iteration order.
\<close>

type_synonym ('k, 'v) om = "('k \<times> 'v) list"

definition om_wf :: "('k::linorder, 'v) om \<Rightarrow> bool" where
  "om_wf m \<longleftrightarrow> sorted_wrt (<) (map fst m)"

fun om_emplace :: "'k::linorder \<Rightarrow> 'v \<Rightarrow> ('k, 'v) om \<Rightarrow> ('k, 'v) om" where
  "om_emplace k v [] = [(k, v)]"
| "om_emplace k v ((k', v') # m) =
     (if k < k' then (k, v) # (k', v') # m
      else if k = k' then (k', v') # m
      else (k', v') # om_emplace k v m)"

fun om_assign :: "'k::linorder \<Rightarrow> 'v \<Rightarrow> ('k, 'v) om \<Rightarrow> ('k, 'v) om" where
  "om_assign k v [] = [(k, v)]"
| "om_assign k v ((k', v') # m) =
     (if k < k' then (k, v) # (k', v') # m
      else if k = k' then (k, v) # m
      else (k', v') # om_assign k v m)"

definition om_erase :: "'k \<Rightarrow> ('k, 'v) om \<Rightarrow> ('k, 'v) om" where
  "om_erase k m = filter (\<lambda>p. fst p \<noteq> k) m"

lemma om_wf_Nil [simp]: "om_wf []"
  by (simp add: om_wf_def)

lemma om_wf_Cons: "om_wf (p # m) \<longleftrightarrow> (\<forall>q \<in> set m. fst p < fst q) \<and> om_wf m"
  by (auto simp: om_wf_def)

lemma map_of_om_emplace [om_simps]:
  "om_wf m \<Longrightarrow> map_of (om_emplace k v m) =
     (case map_of m k of None \<Rightarrow> (map_of m)(k \<mapsto> v) | Some _ \<Rightarrow> map_of m)"
proof (induction k v m rule: om_emplace.induct)
  case (2 k v k' v' m)
  have "k < k' \<Longrightarrow> map_of m k = None"
    using "2.prems" by (force simp: om_wf_Cons map_of_eq_None_iff)
  with 2 show ?case
    by (auto simp: om_wf_Cons fun_eq_iff split: option.splits)
qed simp

lemma map_of_om_assign [om_simps]: "om_wf m \<Longrightarrow> map_of (om_assign k v m) = (map_of m)(k \<mapsto> v)"
  by (induction k v m rule: om_assign.induct) (auto simp: om_wf_Cons fun_eq_iff)

lemma map_of_om_erase [om_simps]: "map_of (om_erase k m) = (map_of m)(k := None)"
  by (induction m) (auto simp: om_erase_def fun_eq_iff)

lemma fst_set_om_emplace [simp]: "fst ` set (om_emplace k v m) = insert k (fst ` set m)"
  by (induction k v m rule: om_emplace.induct) auto

lemma fst_set_om_assign [simp]: "fst ` set (om_assign k v m) = insert k (fst ` set m)"
  by (induction k v m rule: om_assign.induct) auto

lemma om_wf_emplace: "om_wf m \<Longrightarrow> om_wf (om_emplace k v m)"
proof (induction k v m rule: om_emplace.induct)
  case (2 k v k' v' m)
  have "\<forall>q \<in> set (om_emplace k v m). fst q = k \<or> fst q \<in> fst ` set m"
    using fst_set_om_emplace [of k v m] by (metis imageI insertE)
  with 2 show ?case by (fastforce simp: om_wf_Cons)
qed (simp add: om_wf_def)

lemma om_wf_assign: "om_wf m \<Longrightarrow> om_wf (om_assign k v m)"
proof (induction k v m rule: om_assign.induct)
  case (2 k v k' v' m)
  have "\<forall>q \<in> set (om_assign k v m). fst q = k \<or> fst q \<in> fst ` set m"
    using fst_set_om_assign [of k v m] by (metis imageI insertE)
  with 2 show ?case by (fastforce simp: om_wf_Cons)
qed (simp add: om_wf_def)

lemma om_wf_erase: "om_wf m \<Longrightarrow> om_wf (om_erase k m)"
  by (induction m) (auto simp: om_wf_Cons om_erase_def)

text \<open>The interface the components use, and the laws it promises.\<close>

locale ordered_map =
  fixes lookup :: "'m \<Rightarrow> 'k::linorder \<Rightarrow> 'v option"
    and emplace :: "'k \<Rightarrow> 'v \<Rightarrow> 'm \<Rightarrow> 'm"
    and assign :: "'k \<Rightarrow> 'v \<Rightarrow> 'm \<Rightarrow> 'm"
    and erase :: "'k \<Rightarrow> 'm \<Rightarrow> 'm"
    and empty :: 'm
    and invar :: "'m \<Rightarrow> bool"
  assumes lookup_empty: "lookup empty k = None"
    and lookup_emplace:
      "invar m \<Longrightarrow> lookup (emplace k v m) k' =
        (if k' = k \<and> lookup m k = None then Some v else lookup m k')"
    and lookup_assign: "invar m \<Longrightarrow> lookup (assign k v m) k' = (if k' = k then Some v else lookup m k')"
    and lookup_erase: "invar m \<Longrightarrow> lookup (erase k m) k' = (if k' = k then None else lookup m k')"
    and invar_empty: "invar empty"
    and invar_emplace: "invar m \<Longrightarrow> invar (emplace k v m)"
    and invar_assign: "invar m \<Longrightarrow> invar (assign k v m)"
    and invar_erase: "invar m \<Longrightarrow> invar (erase k m)"
begin

lemma emplace_present: "invar m \<Longrightarrow> lookup m k = Some w \<Longrightarrow> lookup (emplace k v m) = lookup m"
  by (rule ext) (simp add: lookup_emplace)

lemma emplace_absent:
  "invar m \<Longrightarrow> lookup m k = None \<Longrightarrow> lookup (emplace k v m) = (lookup m)(k \<mapsto> v)"
  by (rule ext) (simp add: lookup_emplace)

lemma erase_emplace:
  "invar m \<Longrightarrow> lookup m k = None \<Longrightarrow> lookup (erase k (emplace k v m)) = lookup m"
  by (rule ext) (simp add: lookup_erase lookup_emplace invar_emplace)

lemma assign_assign: "invar m \<Longrightarrow> lookup (assign k w (assign k v m)) = lookup (assign k w m)"
  by (rule ext) (simp add: lookup_assign invar_assign)

end

interpretation om: ordered_map "\<lambda>m k. map_of m k" om_emplace om_assign om_erase "[]" om_wf
  by unfold_locales
    (auto simp: map_of_om_emplace map_of_om_assign map_of_om_erase om_wf_emplace om_wf_assign
      om_wf_erase split: option.splits)

section \<open>Vectors\<close>

definition subvec :: "nat \<Rightarrow> nat \<Rightarrow> 'a list \<Rightarrow> 'a list" where
  "subvec off n xs = take n (drop off xs)"

text \<open>std::copy of \<open>src\<close> to the position \<open>off\<close> of a vector it fits in.\<close>

definition copy_into :: "nat \<Rightarrow> 'a list \<Rightarrow> 'a list \<Rightarrow> 'a list" where
  "copy_into off src dst = take off dst @ src @ drop (off + length src) dst"

text \<open>The resize of a std::vector.\<close>

definition resize :: "nat \<Rightarrow> 'a \<Rightarrow> 'a list \<Rightarrow> 'a list" where
  "resize n d xs = take n xs @ replicate (n - length xs) d"

type_synonym byte = "8 word"

lemma length_resize [simp]: "length (resize n d xs) = n"
  by (simp add: resize_def)

lemma length_subvec [layout_simps]: "off + n \<le> length xs \<Longrightarrow> length (subvec off n xs) = n"
  by (simp add: subvec_def)

lemma length_copy_into [layout_simps]:
  "off + length src \<le> length dst \<Longrightarrow> length (copy_into off src dst) = length dst"
  by (simp add: copy_into_def)

lemma nth_subvec [layout_simps]: "off + n \<le> length xs \<Longrightarrow> i < n \<Longrightarrow> subvec off n xs ! i = xs ! (off + i)"
  by (simp add: subvec_def)

lemma nth_copy_into [layout_simps]:
  "off + length src \<le> length dst \<Longrightarrow> i < length dst \<Longrightarrow>
     copy_into off src dst ! i =
       (if off \<le> i \<and> i < off + length src then src ! (i - off) else dst ! i)"
  by (auto simp: copy_into_def nth_append min_def)

lemma in_set_concat_map: "x \<in> set (f p) \<Longrightarrow> p \<in> set ps \<Longrightarrow> x \<in> set (concat (map f ps))"
  by auto

lemma distinct_concat_map_disjoint:
  "distinct (concat (map f ps)) \<Longrightarrow> p \<in> set ps \<Longrightarrow> q \<in> set ps \<Longrightarrow> p \<noteq> q \<Longrightarrow>
     set (f p) \<inter> set (f q) = {}"
  by (induction ps) auto

lemma subvec_copy_into:
  "off + length src \<le> length dst \<Longrightarrow> subvec off (length src) (copy_into off src dst) = src"
  by (simp add: subvec_def copy_into_def)

lemma subvec_copy_into_disjoint:
  assumes "off + length src \<le> length dst" "o' + n \<le> length dst"
    and "o' + n \<le> off \<or> off + length src \<le> o'"
  shows "subvec o' n (copy_into off src dst) = subvec o' n dst"
  using assms by (intro nth_equalityI) (auto simp: layout_simps)

lemma copy_into_subvec_id: "off + n \<le> length xs \<Longrightarrow> copy_into off (subvec off n xs) xs = xs"
  by (intro nth_equalityI) (auto simp: layout_simps)

lemma subvec_all [simp]: "subvec 0 (length xs) xs = xs"
  by (simp add: subvec_def)

lemma subvec_0 [simp]: "subvec off 0 xs = []"
  by (simp add: subvec_def)

lemma sum_list_take_mono: "i \<le> j \<Longrightarrow> sum_list (take i xs) \<le> (sum_list (take j xs) :: nat)"
proof -
  assume "i \<le> j"
  then have "take j xs = take i xs @ take (j - i) (drop i xs)"
    by (metis le_add_diff_inverse take_add)
  then show ?thesis by simp
qed

lemma sum_list_take_le: "sum_list (take i xs) \<le> (sum_list xs :: nat)"
  by (metis append_take_drop_id le_add1 sum_list_append)

lemma sum_list_take_Suc:
  "i < length xs \<Longrightarrow> sum_list (take (Suc i) xs) = sum_list (take i xs) + (xs ! i :: nat)"
  by (simp add: take_Suc_conv_app_nth)

end
