(* ===== verification/Part.thy ===== *)
theory Part
  imports Prelude
begin

text \<open>
  The N-to-M redistribution of the state vector (common/Part.h, common/Part.cxx): how many
  bytes every server rank stores, and the list of parts by which the ranks of a runner and
  the ranks of the server exchange the vector. The specification side is the layout of a
  distributed vector: the list of (rank, offset) pairs of its bytes in global order.
\<close>

section \<open>The code\<close>

record part =
  rank_runner :: int
  local_offset_runner :: nat
  rank_server :: int
  local_offset_server :: nat
  send_count :: nat

text \<open>One entry of the array filled by calculate_local_vect_sizes_server.\<close>

definition local_vect_size_server_entry :: "int \<Rightarrow> int \<Rightarrow> int \<Rightarrow> nat \<Rightarrow> nat" where
  "local_vect_size_server_entry comm_size_server global_elements bytes_per_element i =
     (let share = size64 (cdiv global_elements comm_size_server);
          n_rest = size64 (global_elements - int share * comm_size_server);
          elements = (if i < n_rest then size64 (int share + 1) else share)
      in size64 (int elements * bytes_per_element))"

definition calculate_local_vect_sizes_server :: "int \<Rightarrow> nat \<Rightarrow> int \<Rightarrow> nat list res" where
  "calculate_local_vect_sizes_server comm_size_server global_vect_size bytes_per_element =
     (if size64 bytes_per_element = 0 then Inl Undefined_behaviour
      else
        let global_elements = int32 (int (global_vect_size div size64 bytes_per_element))
        in Inr (map (local_vect_size_server_entry comm_size_server global_elements bytes_per_element)
                  [0..<nat comm_size_server]))"

definition sum_vec :: "nat list \<Rightarrow> nat" where
  "sum_vec xs = size64 (int (sum_list xs))"

record n_to_m_state =
  ns_parts :: "part list"
  index_in_runner :: nat
  index_in_server :: nat

definition index_ok :: "int \<Rightarrow> 'a list \<Rightarrow> bool" where
  "index_ok i xs \<longleftrightarrow> 0 \<le> i \<and> nat i < length xs"

text \<open>The two border checks of the loop body and its counters.\<close>

definition cross_runner_border :: "nat list \<Rightarrow> n_to_m_state \<Rightarrow> (bool \<times> n_to_m_state) res" where
  "cross_runner_border rs st =
     (let l = last (ns_parts st) in
      if \<not> index_ok (rank_runner l) rs then Inl Undefined_behaviour
      else if index_in_runner st > size_minus (rs ! nat (rank_runner l)) 1
      then Inr (True, st\<lparr>ns_parts := ns_parts st @
             [l\<lparr>rank_runner := rank_runner l + 1, local_offset_runner := 0,
                local_offset_server := index_in_server st, send_count := 0\<rparr>],
             index_in_runner := 0\<rparr>)
      else Inr (False, st))"

definition cross_server_border :: "nat list \<Rightarrow> bool \<Rightarrow> n_to_m_state \<Rightarrow> n_to_m_state res" where
  "cross_server_border ss added_part st =
     (let l = last (ns_parts st) in
      if \<not> index_ok (rank_server l) ss then Inl Undefined_behaviour
      else if index_in_server st > size_minus (ss ! nat (rank_server l)) 1
      then
        let ps = (if added_part then butlast (ns_parts st) else ns_parts st)
        in Inr (st\<lparr>ns_parts := ps @
             [l\<lparr>rank_server := rank_server l + 1, local_offset_server := 0,
                local_offset_runner := index_in_runner st, send_count := 0\<rparr>],
             index_in_server := 0\<rparr>)
      else Inr st)"

definition count_byte :: "n_to_m_state \<Rightarrow> n_to_m_state" where
  "count_byte st =
     (let l = last (ns_parts st) in
      st\<lparr>ns_parts := butlast (ns_parts st) @ [l\<lparr>send_count := send_count l + 1\<rparr>],
         index_in_runner := index_in_runner st + 1,
         index_in_server := index_in_server st + 1\<rparr>)"

definition n_to_m_step :: "nat list \<Rightarrow> nat list \<Rightarrow> n_to_m_state \<Rightarrow> n_to_m_state res" where
  "n_to_m_step rs ss st =
     and_then (cross_runner_border rs st) (\<lambda>(added_part, st).
     and_then (cross_server_border ss added_part st) (\<lambda>st.
     Inr (count_byte st)))"

primrec n_to_m_loop :: "nat \<Rightarrow> nat list \<Rightarrow> nat list \<Rightarrow> n_to_m_state \<Rightarrow> n_to_m_state res" where
  "n_to_m_loop 0 rs ss st = Inr st"
| "n_to_m_loop (Suc n) rs ss st = and_then (n_to_m_step rs ss st) (n_to_m_loop n rs ss)"

lemma n_to_m_loop_numeral:
  "n_to_m_loop (numeral n) rs ss st =
     and_then (n_to_m_step rs ss st) (n_to_m_loop (pred_numeral n) rs ss)"
  by (simp add: numeral_eq_Suc)

definition first_part :: part where
  "first_part = \<lparr>rank_runner = 0, local_offset_runner = 0, rank_server = 0,
     local_offset_server = 0, send_count = 0\<rparr>"

definition calculate_n_to_m :: "int \<Rightarrow> nat list \<Rightarrow> int \<Rightarrow> part list res" where
  "calculate_n_to_m comm_size_server local_vect_sizes_runner bytes_per_element =
     (let global_vect_size = sum_vec local_vect_sizes_runner in
      if global_vect_size = 0 then Inr []
      else
        and_then (calculate_local_vect_sizes_server comm_size_server global_vect_size
                    bytes_per_element) (\<lambda>local_vect_sizes_server.
        and_then (n_to_m_loop global_vect_size local_vect_sizes_runner local_vect_sizes_server
                    \<lparr>ns_parts = [first_part], index_in_runner = 0, index_in_server = 0\<rparr>) (\<lambda>st.
        Inr (ns_parts st))))"

text \<open>Evaluation of the redistribution at concrete sizes.\<close>

lemmas n_to_m_eval = calculate_n_to_m_def sum_vec_def size64_def size_minus_def
  calculate_local_vect_sizes_server_def local_vect_size_server_entry_def int32_def cdiv_def
  n_to_m_loop_numeral n_to_m_step_def cross_runner_border_def cross_server_border_def
  count_byte_def index_ok_def first_part_def

section \<open>The specification: layouts\<close>

text \<open>The bytes of a vector distributed over ranks, in global order.\<close>

definition layout :: "nat list \<Rightarrow> (nat \<times> nat) list" where
  "layout sizes = concat (map (\<lambda>r. map (Pair r) [0..<sizes ! r]) [0..<length sizes])"

definition runner_bytes :: "part \<Rightarrow> (nat \<times> nat) list" where
  "runner_bytes p = map (\<lambda>k. (nat (rank_runner p), local_offset_runner p + k)) [0..<send_count p]"

definition server_bytes :: "part \<Rightarrow> (nat \<times> nat) list" where
  "server_bytes p = map (\<lambda>k. (nat (rank_server p), local_offset_server p + k)) [0..<send_count p]"

text \<open>The even split of the elements over the server ranks.\<close>

definition even_split :: "nat \<Rightarrow> nat \<Rightarrow> nat \<Rightarrow> nat list" where
  "even_split c elements bpe =
     map (\<lambda>i. (elements div c + (if i < elements mod c then 1 else 0)) * bpe) [0..<c]"

definition part_before :: "part \<Rightarrow> part \<Rightarrow> bool" where
  "part_before p q \<longleftrightarrow> rank_runner p \<le> rank_runner q \<and> rank_server p \<le> rank_server q \<and>
     (rank_runner p < rank_runner q \<or> rank_server p < rank_server q)"

section \<open>Layout lemmas\<close>

lemma layout_snoc: "layout (xs @ [n]) = layout xs @ map (Pair (length xs)) [0..<n]"
proof -
  have "map (\<lambda>r. map (Pair r) [0..<(xs @ [n]) ! r]) [0..<length xs] =
        map (\<lambda>r. map (Pair r) [0..<xs ! r]) [0..<length xs]"
    by (rule map_cong) (auto simp: nth_append)
  then have "concat (map (\<lambda>r. map (Pair r) [0..<(xs @ [n]) ! r]) [0..<length xs]) = layout xs"
    by (simp only: layout_def)
  then show ?thesis by (simp add: layout_def)
qed

lemma length_layout: "length (layout xs) = sum_list xs"
proof (induction xs rule: rev_induct)
  case Nil
  show ?case by (simp add: layout_def)
next
  case (snoc x xs)
  then show ?case by (simp add: layout_snoc)
qed

lemma layout_nth: "r < length xs \<Longrightarrow> k < xs ! r \<Longrightarrow> layout xs ! (sum_list (take r xs) + k) = (r, k)"
proof (induction xs arbitrary: r rule: rev_induct)
  case Nil
  then show ?case by simp
next
  case (snoc x xs)
  show ?case
  proof (cases "r < length xs")
    case True
    with snoc.prems have k: "k < xs ! r" by (simp add: nth_append)
    have "sum_list (take (Suc r) xs) \<le> sum_list xs"
      by (rule sum_list_take_le)
    with True k have "sum_list (take r xs) + k < length (layout xs)"
      by (simp add: sum_list_take_Suc length_layout)
    with True k show ?thesis
      using snoc.IH [of r] by (simp add: layout_snoc nth_append)
  next
    case False
    with snoc.prems have "r = length xs" by simp
    with snoc.prems show ?thesis
      by (simp add: layout_snoc nth_append length_layout)
  qed
qed

lemma distinct_layout: "distinct (layout xs)"
proof (induction xs rule: rev_induct)
  case Nil
  show ?case by (simp add: layout_def)
next
  case (snoc x xs)
  have "\<forall>p \<in> set (layout xs). fst p < length xs"
    by (auto simp: layout_def)
  with snoc show ?case by (auto simp: layout_snoc distinct_map inj_on_def)
qed

lemma set_layout: "set (layout xs) = {(r, k). r < length xs \<and> k < xs ! r}"
  by (auto simp: layout_def)

section \<open>The even split\<close>

lemma sum_list_extra: "sum_list (map (\<lambda>i. q + (if i < m then 1 else 0)) [0..<c]) = c * q + min m (c::nat)"
  by (induction c) (auto simp: min_def)

lemma even_split_sum: "0 < c \<Longrightarrow> sum_list (even_split c e b) = e * b"
proof -
  assume "0 < c"
  have "sum_list (even_split c e b) =
        sum_list (map (\<lambda>i. e div c + (if i < e mod c then 1 else 0)) [0..<c]) * b"
    by (simp add: even_split_def sum_list_mult_const)
  also have "\<dots> = (c * (e div c) + min (e mod c) c) * b"
    by (simp only: sum_list_extra)
  also have "\<dots> = e * b"
    using \<open>0 < c\<close> by (simp add: min_absorb1 less_imp_le)
  finally show ?thesis .
qed

lemma length_even_split [simp]: "length (even_split c e b) = c"
  by (simp add: even_split_def)

lemma even_split_nth:
  "i < c \<Longrightarrow> even_split c e b ! i = (e div c + (if i < e mod c then 1 else 0)) * b"
  by (simp add: even_split_def)

lemma even_split_zero_tail:
  assumes "i \<le> j" "j < c" "even_split c e b ! i = 0"
  shows "even_split c e b ! j = 0"
  using assms by (auto simp: even_split_nth split: if_splits)

lemma local_vect_size_server_entry_eq:
  assumes c: "0 < c" and e: "e < 2 ^ 31" and b: "0 < b" and g: "e * b < 2 ^ 64"
    and i: "i < c"
  shows "local_vect_size_server_entry (int c) (int e) (int b) i =
           (e div c + (if i < e mod c then 1 else 0)) * b"
proof -
  let ?x = "if i < e mod c then 1 else 0 :: nat"
  have le: "e div c \<le> e" by (rule div_le_dividend)
  have "e = c * (e div c) + e mod c" by simp
  moreover have "e div c \<le> c * (e div c)" using c by simp
  ultimately have bound: "e div c + ?x \<le> e" by (cases "i < e mod c"; simp only: if_True if_False; linarith)
  have q: "cdiv (int e) (int c) = int (e div c)"
    using c by (simp add: cdiv_nonneg zdiv_int)
  have share: "size64 (int (e div c)) = e div c"
    by (rule size64_of_nat, rule le_less_trans [OF le]) (use e in simp)
  have "int e - int (e div c) * int c = int (e mod c)"
    by (simp add: zmod_int zdiv_int minus_div_mult_eq_mod)
  moreover have "e mod c < 2 ^ 64"
    by (rule le_less_trans [OF mod_less_eq_dividend]) (use e in simp)
  ultimately have rest: "size64 (int e - int (e div c) * int c) = e mod c"
    by (simp only: size64_of_nat)
  have "e div c + 1 < 2 ^ 64"
    by (rule le_less_trans [OF add_le_mono1 [OF le]]) (use e in simp)
  then have succ: "size64 (int (e div c) + 1) = e div c + 1"
    using size64_of_nat [of "e div c + 1"] by (simp add: add.commute)
  have elems: "(if i < e mod c then size64 (int (e div c) + 1) else e div c) = e div c + ?x"
    by (simp add: succ)
  have "(e div c + ?x) * b \<le> e * b" using bound by (rule mult_le_mono1)
  then have "size64 (int (e div c + ?x) * int b) = (e div c + ?x) * b"
    using g size64_of_nat [of "(e div c + ?x) * b"] by (simp only: of_nat_mult)
  then show ?thesis
    by (simp only: local_vect_size_server_entry_def Let_def q share rest elems)
qed

lemma calculate_local_vect_sizes_server_eq:
  assumes "0 < c" "0 < b" "b < 2 ^ 31" "e < 2 ^ 31" "e * b < 2 ^ 64"
  shows "calculate_local_vect_sizes_server (int c) (e * b) (int b) = Inr (even_split c e b)"
proof -
  have b: "size64 (int b) = b" using assms by (intro size64_of_nat) simp
  have e: "int32 (int e) = int e" using assms by (intro int32_id) auto
  have "map (local_vect_size_server_entry (int c) (int e) (int b)) [0..<c] = even_split c e b"
    unfolding even_split_def
    by (rule map_cong [OF refl], rule local_vect_size_server_entry_eq) (use assms in auto)
  then show ?thesis
    using assms by (simp add: calculate_local_vect_sizes_server_def Let_def b e)
qed


section \<open>The loop of calculate\_n\_to\_m\<close>

text \<open>A rank after an empty one is empty too: true of every even split.\<close>

definition zero_tail :: "nat list \<Rightarrow> bool" where
  "zero_tail ss \<longleftrightarrow> (\<forall>j k. j \<le> k \<longrightarrow> k < length ss \<longrightarrow> ss ! j = 0 \<longrightarrow> ss ! k = 0)"

definition runner_pos_ok :: "nat list \<Rightarrow> nat \<Rightarrow> part \<Rightarrow> nat \<Rightarrow> bool" where
  "runner_pos_ok rs i l ir \<longleftrightarrow>
     index_ok (rank_runner l) rs \<and> sum_list (take (nat (rank_runner l)) rs) + ir = i \<and>
     ir \<le> rs ! nat (rank_runner l) \<and> ir = local_offset_runner l + send_count l"

definition server_pos_ok :: "nat list \<Rightarrow> nat \<Rightarrow> part \<Rightarrow> nat \<Rightarrow> bool" where
  "server_pos_ok ss i l is \<longleftrightarrow>
     index_ok (rank_server l) ss \<and> sum_list (take (nat (rank_server l)) ss) + is = i \<and>
     is \<le> ss ! nat (rank_server l) \<and> is = local_offset_server l + send_count l \<and>
     0 < ss ! nat (rank_server l)"

definition parts_ok :: "nat list \<Rightarrow> nat list \<Rightarrow> nat \<Rightarrow> part list \<Rightarrow> bool" where
  "parts_ok rs ss i ps \<longleftrightarrow>
     concat (map runner_bytes ps) = take i (layout rs) \<and>
     concat (map server_bytes ps) = take i (layout ss) \<and>
     (\<forall>p \<in> set (butlast ps). 0 < send_count p) \<and>
     sorted_wrt part_before ps"

definition ntm_inv :: "nat list \<Rightarrow> nat list \<Rightarrow> nat \<Rightarrow> n_to_m_state \<Rightarrow> bool" where
  "ntm_inv rs ss i st \<longleftrightarrow>
     ns_parts st \<noteq> [] \<and> parts_ok rs ss i (ns_parts st) \<and>
     runner_pos_ok rs i (last (ns_parts st)) (index_in_runner st) \<and>
     server_pos_ok ss i (last (ns_parts st)) (index_in_server st)"

definition last_counted :: "nat \<Rightarrow> n_to_m_state \<Rightarrow> bool" where
  "last_counted i st \<longleftrightarrow> (0 < i \<longrightarrow> 0 < send_count (last (ns_parts st)))"

definition sizes_ok :: "nat list \<Rightarrow> nat list \<Rightarrow> bool" where
  "sizes_ok rs ss \<longleftrightarrow> sum_list rs = sum_list ss \<and> sum_list rs < 2 ^ 64 \<and>
     (\<forall>n \<in> set rs. 0 < n) \<and> zero_tail ss"

lemma empty_part_bytes [simp]:
  "send_count p = 0 \<Longrightarrow> runner_bytes p = []"
  "send_count p = 0 \<Longrightarrow> server_bytes p = []"
  by (simp_all add: runner_bytes_def server_bytes_def)

lemma part_before_trans: "part_before p q \<Longrightarrow> part_before q r \<Longrightarrow> part_before p r"
  by (auto simp: part_before_def)

lemma nth_le_sum_list: "i < length xs \<Longrightarrow> (xs ! i :: nat) \<le> sum_list xs"
  by (simp add: member_le_sum_list)

lemma rank_not_last:
  assumes "k < length xs" "sum_list (take k xs) + xs ! k < sum_list (xs :: nat list)"
  shows "Suc k < length xs"
proof (rule ccontr)
  assume "\<not> Suc k < length xs"
  with assms(1) have "take (Suc k) xs = xs" by simp
  with assms show False by (simp flip: sum_list_take_Suc)
qed

lemma next_server_nonempty:
  assumes "zero_tail ss" "Suc k < length ss" "sum_list (take (Suc k) ss) < sum_list ss"
  shows "0 < ss ! Suc k"
proof (rule ccontr)
  assume "\<not> 0 < ss ! Suc k"
  then have z: "\<forall>j. Suc k \<le> j \<longrightarrow> j < length ss \<longrightarrow> ss ! j = 0"
    using assms(1) by (auto simp: zero_tail_def)
  have "\<forall>n \<in> set (drop (Suc k) ss). n = 0"
    using z by (auto simp: in_set_conv_nth)
  then have "sum_list (drop (Suc k) ss) = 0" by simp
  then have "sum_list ss = sum_list (take (Suc k) ss)"
    by (metis append_take_drop_id sum_list_append add.right_neutral)
  with assms(3) show False by simp
qed

lemma snoc_before:
  assumes "sorted_wrt part_before (ps @ [l])" "part_before l l'"
  shows "sorted_wrt part_before (ps @ [l, l'])"
  using assms part_before_trans by (fastforce simp: sorted_wrt_append)

lemma replace_last_before:
  assumes "sorted_wrt part_before (ps @ [l])"
    and "rank_runner l \<le> rank_runner l'" "rank_server l \<le> rank_server l'"
  shows "sorted_wrt part_before (ps @ [l'])"
  using assms by (fastforce simp: sorted_wrt_append part_before_def)

lemma cross_runner_border_ok:
  assumes inv: "ntm_inv rs ss i st" and cnt: "last_counted i st"
    and ok: "sizes_ok rs ss" and i: "i < sum_list rs"
  obtains b st' where "cross_runner_border rs st = Inr (b, st')" "ntm_inv rs ss i st'"
    "index_in_runner st' < rs ! nat (rank_runner (last (ns_parts st')))"
    "\<forall>p \<in> set (butlast (ns_parts st')). 0 < send_count p"
    "b \<longrightarrow> send_count (last (ns_parts st')) = 0" "\<not> b \<longrightarrow> last_counted i st'"
proof -
  from inv obtain ps l where p: "ns_parts st = ps @ [l]"
    by (metis ntm_inv_def rev_exhaust)
  let ?r = "nat (rank_runner l)"
  have r: "index_ok (rank_runner l) rs" "?r < length rs" "0 \<le> rank_runner l"
    and pos: "sum_list (take ?r rs) + index_in_runner st = i" "index_in_runner st \<le> rs ! ?r"
      "index_in_runner st = local_offset_runner l + send_count l"
    using inv p by (auto simp: ntm_inv_def runner_pos_ok_def index_ok_def)
  have pos_r: "0 < rs ! ?r" and sm: "size_minus (rs ! ?r) 1 = rs ! ?r - 1"
    using ok r nth_le_sum_list [of ?r rs] by (auto simp: sizes_ok_def intro!: size_minus_le Suc_leI)
  show thesis
  proof (cases "index_in_runner st = rs ! ?r")
    case False
    with pos have "index_in_runner st < rs ! ?r" by simp
    moreover have "cross_runner_border rs st = Inr (False, st)"
      using r p sm calculation by (simp add: cross_runner_border_def)
    ultimately show thesis
      using that inv cnt p by (auto simp: ntm_inv_def parts_ok_def)
  next
    case True
    let ?l = "l\<lparr>rank_runner := rank_runner l + 1, local_offset_runner := 0,
       local_offset_server := index_in_server st, send_count := 0\<rparr>"
    let ?st = "st\<lparr>ns_parts := ns_parts st @ [?l], index_in_runner := 0\<rparr>"
    have "sum_list (take ?r rs) + rs ! ?r < sum_list rs" using pos True i by simp
    then have r1: "Suc ?r < length rs" using r rank_not_last by blast
    have r2: "nat (rank_runner l + 1) = Suc ?r" using r by simp
    have "0 < send_count l" using cnt p pos True pos_r by (auto simp: last_counted_def)
    moreover have "part_before l ?l" by (simp add: part_before_def)
    ultimately have "ntm_inv rs ss i ?st"
      using inv p r r1 r2 pos True snoc_before [of ps l ?l]
      by (auto simp: ntm_inv_def parts_ok_def runner_pos_ok_def server_pos_ok_def index_ok_def
          sum_list_take_Suc butlast_append)
    moreover have "cross_runner_border rs st = Inr (True, ?st)"
      using r p sm True pos_r by (simp add: cross_runner_border_def)
    moreover have "0 < rs ! Suc ?r" using ok r1 by (auto simp: sizes_ok_def)
    ultimately show thesis
      using that [of True ?st] r2 inv p \<open>0 < send_count l\<close>
      by (auto simp: ntm_inv_def parts_ok_def butlast_append)
  qed
qed

lemma cross_server_border_ok:
  assumes inv: "ntm_inv rs ss i st"
    and strict: "index_in_runner st < rs ! nat (rank_runner (last (ns_parts st)))"
    and b: "b \<longrightarrow> send_count (last (ns_parts st)) = 0" "\<not> b \<longrightarrow> last_counted i st"
    and ok: "sizes_ok rs ss" and i: "i < sum_list rs"
  obtains st' where "cross_server_border ss b st = Inr st'" "ntm_inv rs ss i st'"
    "index_in_runner st' < rs ! nat (rank_runner (last (ns_parts st')))"
    "index_in_server st' < ss ! nat (rank_server (last (ns_parts st')))"
proof -
  from inv obtain ps l where p: "ns_parts st = ps @ [l]"
    by (metis ntm_inv_def rev_exhaust)
  let ?s = "nat (rank_server l)"
  have s: "index_ok (rank_server l) ss" "?s < length ss" "0 \<le> rank_server l"
    and pos: "sum_list (take ?s ss) + index_in_server st = i" "index_in_server st \<le> ss ! ?s"
      "0 < ss ! ?s" "index_in_server st = local_offset_server l + send_count l"
    and sorted: "sorted_wrt part_before (ps @ [l])"
    using inv p by (auto simp: ntm_inv_def parts_ok_def server_pos_ok_def index_ok_def)
  have sm: "size_minus (ss ! ?s) 1 = ss ! ?s - 1"
    using ok s pos nth_le_sum_list [of ?s ss] by (auto simp: sizes_ok_def intro!: size_minus_le)
  show thesis
  proof (cases "index_in_server st = ss ! ?s")
    case False
    with pos have lt: "index_in_server st < ss ! ?s" by simp
    then have "cross_server_border ss b st = Inr st"
      using s p sm by (simp add: cross_server_border_def)
    then show thesis using that inv strict p lt by simp
  next
    case True
    let ?l = "l\<lparr>rank_server := rank_server l + 1, local_offset_server := 0,
       local_offset_runner := index_in_runner st, send_count := 0\<rparr>"
    let ?ps = "if b then ps else ps @ [l]"
    let ?st = "st\<lparr>ns_parts := ?ps @ [?l], index_in_server := 0\<rparr>"
    have lt: "sum_list (take ?s ss) + ss ! ?s < sum_list ss"
      using pos True i ok by (simp add: sizes_ok_def)
    then have s1: "Suc ?s < length ss" using s rank_not_last by blast
    have s2: "nat (rank_server l + 1) = Suc ?s" using s by simp
    have s3: "0 < ss ! Suc ?s"
      using ok s1 lt by (intro next_server_nonempty) (auto simp: sizes_ok_def sum_list_take_Suc)
    have cnt: "\<not> b \<Longrightarrow> 0 < send_count l"
      using b p pos True by (auto simp: last_counted_def)
    have bef: "sorted_wrt part_before (?ps @ [?l])"
      using snoc_before [OF sorted, of ?l] replace_last_before [OF sorted, of ?l]
      by (auto simp: part_before_def)
    have "b \<Longrightarrow> send_count l = 0" using b p by simp
    then have "parts_ok rs ss i (?ps @ [?l])"
      using inv p bef cnt by (auto simp: ntm_inv_def parts_ok_def butlast_append)
    then have "ntm_inv rs ss i ?st"
      using inv p s s1 s2 s3 pos True
      by (auto simp: ntm_inv_def runner_pos_ok_def server_pos_ok_def index_ok_def sum_list_take_Suc)
    moreover have "cross_server_border ss b st = Inr ?st"
      using s p sm True pos by (simp add: cross_server_border_def)
    ultimately show thesis
      using that [of ?st] s2 s3 strict p by auto
  qed
qed

lemma count_byte_ok:
  assumes inv: "ntm_inv rs ss i st"
    and "index_in_runner st < rs ! nat (rank_runner (last (ns_parts st)))"
    and "index_in_server st < ss ! nat (rank_server (last (ns_parts st)))"
    and ok: "sizes_ok rs ss" and i: "i < sum_list rs"
  shows "ntm_inv rs ss (Suc i) (count_byte st)" and "last_counted (Suc i) (count_byte st)"
proof -
  from inv obtain ps l where p: "ns_parts st = ps @ [l]"
    by (metis ntm_inv_def rev_exhaust)
  let ?l = "l\<lparr>send_count := send_count l + 1\<rparr>"
  have c: "ns_parts (count_byte st) = ps @ [?l]"
    using p by (simp add: count_byte_def)
  have at: "sum_list (take (nat (rank_runner l)) rs) + index_in_runner st = i"
      "sum_list (take (nat (rank_server l)) ss) + index_in_server st = i"
      "nat (rank_runner l) < length rs" "nat (rank_server l) < length ss"
    using inv p by (auto simp: ntm_inv_def runner_pos_ok_def server_pos_ok_def index_ok_def)
  have "layout rs ! i = (nat (rank_runner l), index_in_runner st)"
    and "layout ss ! i = (nat (rank_server l), index_in_server st)"
    using assms(2,3) p layout_nth [OF at(3), of "index_in_runner st"]
      layout_nth [OF at(4), of "index_in_server st"] by (simp_all add: at)
  moreover have "runner_bytes ?l = runner_bytes l @ [(nat (rank_runner l), index_in_runner st)]"
    and "server_bytes ?l = server_bytes l @ [(nat (rank_server l), index_in_server st)]"
    using inv p by (auto simp: ntm_inv_def runner_pos_ok_def server_pos_ok_def runner_bytes_def
        server_bytes_def)
  moreover have "take (Suc i) (layout rs) = take i (layout rs) @ [layout rs ! i]"
    and "take (Suc i) (layout ss) = take i (layout ss) @ [layout ss ! i]"
    using i ok by (auto simp: length_layout sizes_ok_def intro!: take_Suc_conv_app_nth)
  moreover have "sorted_wrt part_before (ps @ [?l])"
    by (rule replace_last_before [of ps l]) (use inv p in \<open>auto simp: ntm_inv_def parts_ok_def\<close>)
  ultimately have "parts_ok rs ss (Suc i) (ps @ [?l])"
    using inv p by (simp add: ntm_inv_def parts_ok_def)
  then show "ntm_inv rs ss (Suc i) (count_byte st)"
    using assms p c
    by (auto simp: ntm_inv_def runner_pos_ok_def server_pos_ok_def count_byte_def)
  show "last_counted (Suc i) (count_byte st)"
    using c by (simp add: last_counted_def)
qed

lemma n_to_m_step_ok:
  assumes "ntm_inv rs ss i st" "last_counted i st" "sizes_ok rs ss" "i < sum_list rs"
  obtains st' where "n_to_m_step rs ss st = Inr st'" "ntm_inv rs ss (Suc i) st'"
    "last_counted (Suc i) st'"
proof -
  obtain b st1 where 1: "cross_runner_border rs st = Inr (b, st1)" "ntm_inv rs ss i st1"
      "index_in_runner st1 < rs ! nat (rank_runner (last (ns_parts st1)))"
      "b \<longrightarrow> send_count (last (ns_parts st1)) = 0" "\<not> b \<longrightarrow> last_counted i st1"
    using cross_runner_border_ok [OF assms] by metis
  obtain st2 where 2: "cross_server_border ss b st1 = Inr st2" "ntm_inv rs ss i st2"
      "index_in_runner st2 < rs ! nat (rank_runner (last (ns_parts st2)))"
      "index_in_server st2 < ss ! nat (rank_server (last (ns_parts st2)))"
    using cross_server_border_ok [OF 1(2-5) assms(3,4)] by metis
  show thesis
    using that [of "count_byte st2"] 1(1) 2(1) count_byte_ok [OF 2(2-4) assms(3,4)]
    by (simp add: n_to_m_step_def)
qed

lemma n_to_m_loop_ok:
  "ntm_inv rs ss i st \<Longrightarrow> last_counted i st \<Longrightarrow> sizes_ok rs ss \<Longrightarrow> i + n \<le> sum_list rs \<Longrightarrow>
     \<exists>st'. n_to_m_loop n rs ss st = Inr st' \<and> ntm_inv rs ss (i + n) st' \<and> last_counted (i + n) st'"
proof (induction n arbitrary: i st)
  case 0
  then show ?case by simp
next
  case (Suc n)
  then obtain st1 where "n_to_m_step rs ss st = Inr st1" "ntm_inv rs ss (Suc i) st1"
      "last_counted (Suc i) st1"
    using n_to_m_step_ok [of rs ss i st] by auto
  with Suc.IH [of "Suc i" st1] Suc.prems show ?case by simp
qed

text \<open>
  The correctness of the function: the parts, in their order, enumerate the bytes of the
  runner's layout and of the server's layout.
\<close>

definition n_to_m_args :: "nat \<Rightarrow> nat list \<Rightarrow> nat \<Rightarrow> bool" where
  "n_to_m_args c rs b \<longleftrightarrow> 0 < c \<and> 0 < b \<and> b < 2 ^ 31 \<and> rs \<noteq> [] \<and> (\<forall>n \<in> set rs. 0 < n) \<and>
     b dvd sum_list rs \<and> sum_list rs < 2 ^ 64 \<and> sum_list rs div b < 2 ^ 31"

lemma n_to_m_args_elements:
  "n_to_m_args c rs b \<Longrightarrow> sum_list rs div b * b = sum_list rs"
  by (simp add: n_to_m_args_def)

lemma n_to_m_args_sizes_ok:
  assumes "n_to_m_args c rs b"
  shows "sizes_ok rs (even_split c (sum_list rs div b) b)"
  using assms even_split_zero_tail
  by (auto simp: n_to_m_args_def sizes_ok_def even_split_sum zero_tail_def)

lemma n_to_m_args_sum_pos: "n_to_m_args c rs b \<Longrightarrow> 0 < sum_list rs"
  by (auto simp: n_to_m_args_def neq_Nil_conv)

lemma ntm_inv_init:
  assumes "sizes_ok rs ss" "0 < sum_list rs"
  shows "ntm_inv rs ss 0 \<lparr>ns_parts = [first_part], index_in_runner = 0, index_in_server = 0\<rparr>"
proof -
  have r: "0 < length rs" using assms(2) by auto
  have "ss \<noteq> []"
    using assms by (auto simp: sizes_ok_def simp del: sum_list_eq_0_iff)
  then have s: "0 < length ss" by simp
  have "0 < ss ! 0"
  proof (rule ccontr)
    assume "\<not> 0 < ss ! 0"
    with assms(1) have "\<forall>k < length ss. ss ! k = 0"
      unfolding sizes_ok_def zero_tail_def by (metis le0 neq0_conv)
    then have "\<forall>n \<in> set ss. n = 0" by (auto simp: in_set_conv_nth)
    then have "sum_list ss = 0" by simp
    with assms show False unfolding sizes_ok_def by linarith
  qed
  with r s show ?thesis
    by (simp add: ntm_inv_def parts_ok_def runner_pos_ok_def server_pos_ok_def index_ok_def
        first_part_def runner_bytes_def server_bytes_def)
qed

lemma calculate_n_to_m_inv:
  assumes args: "n_to_m_args c rs b"
  obtains st where "calculate_n_to_m (int c) rs (int b) = Inr (ns_parts st)"
    "ntm_inv rs (even_split c (sum_list rs div b) b) (sum_list rs) st"
    "last_counted (sum_list rs) st"
    "n_to_m_loop (sum_list rs) rs (even_split c (sum_list rs div b) b)
       \<lparr>ns_parts = [first_part], index_in_runner = 0, index_in_server = 0\<rparr> = Inr st"
proof -
  let ?ss = "even_split c (sum_list rs div b) b"
  let ?init = "\<lparr>ns_parts = [first_part], index_in_runner = 0, index_in_server = 0\<rparr>"
  have ok: "sizes_ok rs ?ss" and pos: "0 < sum_list rs"
    using args n_to_m_args_sizes_ok n_to_m_args_sum_pos by auto
  have sum: "sum_vec rs = sum_list rs"
    using args by (simp add: sum_vec_def n_to_m_args_def)
  have sizes: "calculate_local_vect_sizes_server (int c) (sum_list rs) (int b) = Inr ?ss"
    using calculate_local_vect_sizes_server_eq [of c b "sum_list rs div b"] args
      n_to_m_args_elements [OF args] by (auto simp: n_to_m_args_def)
  obtain st where st: "n_to_m_loop (sum_list rs) rs ?ss ?init = Inr st"
      "ntm_inv rs ?ss (sum_list rs) st" "last_counted (sum_list rs) st"
    using n_to_m_loop_ok [OF ntm_inv_init [OF ok pos] _ ok, of "sum_list rs"]
    by (auto simp: last_counted_def)
  show thesis
    using that [of st] st pos sum sizes
    by (simp add: calculate_n_to_m_def Let_def del: sum_list_eq_0_iff)
qed


section \<open>Elements are never split\<close>

definition parts_aligned :: "nat \<Rightarrow> part list \<Rightarrow> bool" where
  "parts_aligned b ps \<longleftrightarrow>
     (\<forall>p \<in> set ps. b dvd local_offset_runner p \<and> b dvd local_offset_server p) \<and>
     (\<forall>p \<in> set (butlast ps). b dvd send_count p)"

definition sizes_aligned :: "nat \<Rightarrow> nat list \<Rightarrow> bool" where
  "sizes_aligned b xs \<longleftrightarrow> (\<forall>n \<in> set xs. b dvd n)"

lemma dvd_sum_list: "(\<And>n. n \<in> set xs \<Longrightarrow> b dvd n) \<Longrightarrow> (b::nat) dvd sum_list xs"
  by (induction xs) auto

lemma sizes_aligned_take: "sizes_aligned b xs \<Longrightarrow> b dvd sum_list (take k xs)"
  unfolding sizes_aligned_def by (rule dvd_sum_list) (blast dest: in_set_takeD)

lemma sizes_aligned_nth: "sizes_aligned b xs \<Longrightarrow> k < length xs \<Longrightarrow> b dvd xs ! k"
  by (simp add: sizes_aligned_def)

lemma sizes_aligned_even_split: "sizes_aligned b (even_split c e b)"
  by (auto simp: sizes_aligned_def even_split_def)

lemma parts_aligned_snoc:
  assumes "parts_aligned b ps" "ps \<noteq> []" "b dvd send_count (last ps)"
    and "b dvd local_offset_runner l" "b dvd local_offset_server l"
  shows "parts_aligned b (ps @ [l])"
  using assms by (cases ps rule: rev_cases) (auto simp: parts_aligned_def butlast_append)

lemma parts_aligned_replace:
  assumes "parts_aligned b ps" "b dvd local_offset_runner l" "b dvd local_offset_server l"
  shows "parts_aligned b (butlast ps @ [l])"
  using assms by (auto simp: parts_aligned_def dest: in_set_butlastD)

lemma aligned_cross_runner:
  assumes inv: "ntm_inv rs ss i st" and al: "sizes_aligned b rs" "sizes_aligned b ss"
    and p: "parts_aligned b (ns_parts st)" and ok: "sizes_ok rs ss"
    and st': "cross_runner_border rs st = Inr (added, st')"
  shows "parts_aligned b (ns_parts st')"
proof -
  let ?l = "last (ns_parts st)"
  let ?r = "nat (rank_runner ?l)" and ?s = "nat (rank_server ?l)"
  have at: "sum_list (take ?r rs) + index_in_runner st = i" "index_in_runner st \<le> rs ! ?r"
      "sum_list (take ?s ss) + index_in_server st = i" "?r < length rs" "ns_parts st \<noteq> []"
      "index_in_runner st = local_offset_runner ?l + send_count ?l"
    using inv by (auto simp: ntm_inv_def runner_pos_ok_def server_pos_ok_def index_ok_def)
  have sm: "size_minus (rs ! ?r) 1 = rs ! ?r - 1" "0 < rs ! ?r"
    using ok at(4) nth_le_sum_list [of ?r rs] by (auto simp: sizes_ok_def intro!: size_minus_le Suc_leI)
  show ?thesis
  proof (cases "index_in_runner st = rs ! ?r")
    case True
    have d: "b dvd index_in_runner st" using True al(1) at(4) by (simp add: sizes_aligned_nth)
    have "b dvd i"
      unfolding at(1) [symmetric] by (rule dvd_add [OF sizes_aligned_take [OF al(1)] d])
    then have "b dvd index_in_server st"
      unfolding at(3) [symmetric] using dvd_add_right_iff [OF sizes_aligned_take [OF al(2)]] by blast
    moreover have "b dvd local_offset_runner ?l"
      using p at(5) by (simp add: parts_aligned_def)
    then have "b dvd send_count ?l"
      using d at(6) dvd_add_right_iff by metis
    ultimately show ?thesis
      using p st' at(5) True sm
      by (auto simp: cross_runner_border_def Let_def split: if_splits intro!: parts_aligned_snoc)
  next
    case False
    with at(2) sm st' p show ?thesis
      by (auto simp: cross_runner_border_def Let_def split: if_splits)
  qed
qed

lemma aligned_cross_server:
  assumes inv: "ntm_inv rs ss i st" and al: "sizes_aligned b rs" "sizes_aligned b ss"
    and p: "parts_aligned b (ns_parts st)" and ok: "sizes_ok rs ss"
    and st': "cross_server_border ss added st = Inr st'"
  shows "parts_aligned b (ns_parts st')"
proof -
  let ?l = "last (ns_parts st)"
  let ?r = "nat (rank_runner ?l)" and ?s = "nat (rank_server ?l)"
  have at: "sum_list (take ?s ss) + index_in_server st = i" "index_in_server st \<le> ss ! ?s"
      "sum_list (take ?r rs) + index_in_runner st = i" "?s < length ss" "ns_parts st \<noteq> []"
      "index_in_server st = local_offset_server ?l + send_count ?l" "0 < ss ! ?s"
    using inv by (auto simp: ntm_inv_def runner_pos_ok_def server_pos_ok_def index_ok_def)
  have sm: "size_minus (ss ! ?s) 1 = ss ! ?s - 1"
    using ok at(4,7) nth_le_sum_list [of ?s ss] by (auto simp: sizes_ok_def intro!: size_minus_le)
  show ?thesis
  proof (cases "index_in_server st = ss ! ?s")
    case True
    have d: "b dvd index_in_server st" using True al(2) at(4) by (simp add: sizes_aligned_nth)
    have "b dvd i"
      unfolding at(1) [symmetric] by (rule dvd_add [OF sizes_aligned_take [OF al(2)] d])
    then have "b dvd index_in_runner st"
      unfolding at(3) [symmetric] using dvd_add_right_iff [OF sizes_aligned_take [OF al(1)]] by blast
    moreover have "b dvd local_offset_server ?l"
      using p at(5) by (simp add: parts_aligned_def)
    then have "b dvd send_count ?l"
      using d at(6) dvd_add_right_iff by metis
    ultimately show ?thesis
      using p st' at(5,7) True sm
      by (auto simp: cross_server_border_def Let_def split: if_splits
          intro!: parts_aligned_snoc parts_aligned_replace)
  next
    case False
    with at(2,7) sm st' p show ?thesis
      by (auto simp: cross_server_border_def Let_def split: if_splits)
  qed
qed

lemma aligned_count_byte: "parts_aligned b (ns_parts st) \<Longrightarrow> ns_parts st \<noteq> [] \<Longrightarrow>
    parts_aligned b (ns_parts (count_byte st))"
  by (auto simp: parts_aligned_def count_byte_def Let_def dest: in_set_butlastD)

lemma n_to_m_loop_aligned:
  "ntm_inv rs ss i st \<Longrightarrow> last_counted i st \<Longrightarrow> sizes_ok rs ss \<Longrightarrow> i + n \<le> sum_list rs \<Longrightarrow>
     sizes_aligned b rs \<Longrightarrow> sizes_aligned b ss \<Longrightarrow> parts_aligned b (ns_parts st) \<Longrightarrow>
     n_to_m_loop n rs ss st = Inr st' \<Longrightarrow> parts_aligned b (ns_parts st')"
proof (induction n arbitrary: i st)
  case 0
  then show ?case by simp
next
  case (Suc n)
  have i: "i < sum_list rs" using Suc.prems(4) by simp
  obtain a st1 where 1: "cross_runner_border rs st = Inr (a, st1)" "ntm_inv rs ss i st1"
      "index_in_runner st1 < rs ! nat (rank_runner (last (ns_parts st1)))"
      "a \<longrightarrow> send_count (last (ns_parts st1)) = 0" "\<not> a \<longrightarrow> last_counted i st1"
    using cross_runner_border_ok [OF Suc.prems(1-3) i] by metis
  obtain st2 where 2: "cross_server_border ss a st1 = Inr st2" "ntm_inv rs ss i st2"
      "index_in_runner st2 < rs ! nat (rank_runner (last (ns_parts st2)))"
      "index_in_server st2 < ss ! nat (rank_server (last (ns_parts st2)))"
    using cross_server_border_ok [OF 1(2-5) Suc.prems(3) i] by metis
  have "parts_aligned b (ns_parts st1)"
    using aligned_cross_runner [OF Suc.prems(1,5,6,7,3) 1(1)] .
  then have "parts_aligned b (ns_parts st2)"
    using aligned_cross_server [OF 1(2) Suc.prems(5,6) _ Suc.prems(3) 2(1)] by blast
  then have "parts_aligned b (ns_parts (count_byte st2))"
    using 2(2) by (intro aligned_count_byte) (auto simp: ntm_inv_def)
  with Suc.IH [of "Suc i" "count_byte st2"] count_byte_ok [OF 2(2-4) Suc.prems(3) i] Suc.prems 1 2
  show ?case by (auto simp: n_to_m_step_def)
qed

section \<open>Properties of the redistribution\<close>

lemma part_before_distinct:
  "sorted_wrt part_before ps \<Longrightarrow> distinct (map (\<lambda>p. (rank_runner p, rank_server p)) ps)"
  by (induction ps) (auto simp: part_before_def)

lemma part_before_unique:
  assumes "sorted_wrt part_before ps" "p \<in> set ps" "q \<in> set ps"
    and "rank_runner p = rank_runner q" "rank_server p = rank_server q"
  shows "p = q"
  using part_before_distinct [OF assms(1)] assms(2-5)
  by (auto simp: distinct_map inj_on_def)

text \<open>
  What a list of parts promises of two distributed vectors: it enumerates the bytes of both in
  order, no part is empty, and the ranks only grow along the list.
\<close>

definition covering :: "nat list \<Rightarrow> nat list \<Rightarrow> part list \<Rightarrow> bool" where
  "covering rs ss ps \<longleftrightarrow>
     concat (map runner_bytes ps) = layout rs \<and> concat (map server_bytes ps) = layout ss \<and>
     (\<forall>p \<in> set ps. 0 < send_count p \<and> 0 \<le> rank_runner p \<and> 0 \<le> rank_server p) \<and>
     sorted_wrt part_before ps"

definition ranks_nonneg :: "part list \<Rightarrow> bool" where
  "ranks_nonneg ps \<longleftrightarrow> (\<forall>p \<in> set ps. 0 \<le> rank_runner p \<and> 0 \<le> rank_server p)"

lemma n_to_m_step_ranks_nonneg:
  assumes "ranks_nonneg (ns_parts st)" "n_to_m_step rs ss st = Inr st'" "ns_parts st \<noteq> []"
  shows "ranks_nonneg (ns_parts st') \<and> ns_parts st' \<noteq> []"
proof -
  obtain ps l where "ns_parts st = ps @ [l]"
    using assms(3) by (cases "ns_parts st" rule: rev_cases) auto
  with assms show ?thesis
    by (auto simp: n_to_m_step_def and_then_Inr_iff cross_runner_border_def cross_server_border_def
        count_byte_def Let_def ranks_nonneg_def butlast_append split: if_splits)
qed

lemma n_to_m_loop_ranks_nonneg:
  "ranks_nonneg (ns_parts st) \<Longrightarrow> ns_parts st \<noteq> [] \<Longrightarrow> n_to_m_loop n rs ss st = Inr st' \<Longrightarrow>
     ranks_nonneg (ns_parts st')"
proof (induction n arbitrary: st)
  case (Suc n)
  then obtain st1 where "n_to_m_step rs ss st = Inr st1" "n_to_m_loop n rs ss st1 = Inr st'"
    by (auto simp: and_then_Inr_iff)
  with Suc n_to_m_step_ranks_nonneg show ?case by blast
qed simp

lemma calculate_n_to_m_covering:
  assumes "n_to_m_args c rs b"
  shows "\<exists>ps. calculate_n_to_m (int c) rs (int b) = Inr ps \<and>
     covering rs (even_split c (sum_list rs div b) b) ps"
proof -
  let ?ss = "even_split c (sum_list rs div b) b"
  obtain st where st: "calculate_n_to_m (int c) rs (int b) = Inr (ns_parts st)"
      "ntm_inv rs ?ss (sum_list rs) st" "last_counted (sum_list rs) st"
      "n_to_m_loop (sum_list rs) rs ?ss
         \<lparr>ns_parts = [first_part], index_in_runner = 0, index_in_server = 0\<rparr> = Inr st"
    by (rule calculate_n_to_m_inv [OF assms])
  have "ranks_nonneg (ns_parts st)"
    using n_to_m_loop_ranks_nonneg [OF _ _ st(4)] by (simp add: ranks_nonneg_def first_part_def)
  have eq: "sum_list ?ss = sum_list rs"
    using n_to_m_args_sizes_ok [OF assms] by (simp add: sizes_ok_def)
  have ne: "ns_parts st \<noteq> []" using st(2) by (simp add: ntm_inv_def)
  have "\<forall>p \<in> set (butlast (ns_parts st)). 0 < send_count p"
      "0 < send_count (last (ns_parts st))"
    using st(2,3) n_to_m_args_sum_pos [OF assms]
    by (auto simp: ntm_inv_def parts_ok_def last_counted_def simp del: sum_list_eq_0_iff)
  then have "\<forall>p \<in> set (ns_parts st). 0 < send_count p"
    using ne by (cases "ns_parts st" rule: rev_cases) auto
  with st eq \<open>ranks_nonneg (ns_parts st)\<close> show ?thesis
    by (auto simp: ntm_inv_def parts_ok_def length_layout covering_def ranks_nonneg_def)
qed

section \<open>Consequences of a covering\<close>

lemma covering_server_bounds:
  assumes "covering rs ss ps" "p \<in> set ps"
  shows "nat (rank_server p) < length ss \<and>
     local_offset_server p + send_count p \<le> ss ! nat (rank_server p)"
proof -
  have pos: "0 < send_count p" using assms by (auto simp: covering_def)
  then have "(nat (rank_server p), local_offset_server p + (send_count p - 1)) \<in> set (server_bytes p)"
    unfolding server_bytes_def set_map by (intro image_eqI [of _ _ "send_count p - 1"]) auto
  then have "(nat (rank_server p), local_offset_server p + (send_count p - 1))
      \<in> set (concat (map server_bytes ps))"
    using assms(2) by (rule in_set_concat_map)
  then have "(nat (rank_server p), local_offset_server p + (send_count p - 1)) \<in> set (layout ss)"
    using assms(1) unfolding covering_def by (elim conjE) metis
  with pos show ?thesis by (auto simp: set_layout)
qed

lemma covering_runner_bounds:
  assumes "covering rs ss ps" "p \<in> set ps"
  shows "nat (rank_runner p) < length rs \<and>
     local_offset_runner p + send_count p \<le> rs ! nat (rank_runner p)"
proof -
  have pos: "0 < send_count p" using assms by (auto simp: covering_def)
  then have "(nat (rank_runner p), local_offset_runner p + (send_count p - 1)) \<in> set (runner_bytes p)"
    unfolding runner_bytes_def set_map by (intro image_eqI [of _ _ "send_count p - 1"]) auto
  then have "(nat (rank_runner p), local_offset_runner p + (send_count p - 1))
      \<in> set (concat (map runner_bytes ps))"
    using assms(2) by (rule in_set_concat_map)
  then have "(nat (rank_runner p), local_offset_runner p + (send_count p - 1)) \<in> set (layout rs)"
    using assms(1) unfolding covering_def by (elim conjE) metis
  with pos show ?thesis by (auto simp: set_layout)
qed

lemma covering_unique:
  "covering rs ss ps \<Longrightarrow> p \<in> set ps \<Longrightarrow> q \<in> set ps \<Longrightarrow> rank_runner p = rank_runner q \<Longrightarrow>
     rank_server p = rank_server q \<Longrightarrow> p = q"
  by (auto simp: covering_def dest: part_before_unique)

text \<open>The parts of a server rank share out its vector.\<close>

definition stored_bytes :: "int \<Rightarrow> part list \<Rightarrow> nat" where
  "stored_bytes r ps = sum_list (map send_count (filter (\<lambda>p. rank_server p = r) ps))"

lemma stored_bytes_simps [simp]:
  "stored_bytes r [] = 0"
  "stored_bytes r (p # ps) = (if rank_server p = r then send_count p else 0) + stored_bytes r ps"
  by (simp_all add: stored_bytes_def)

lemma stored_bytes_filter:
  "ranks_nonneg ps \<Longrightarrow>
     stored_bytes (int s) ps = length (filter (\<lambda>b. fst b = s) (concat (map server_bytes ps)))"
proof (induction ps)
  case (Cons p ps)
  have "length (filter (\<lambda>b. fst b = s) (server_bytes p)) =
      (if rank_server p = int s then send_count p else 0)"
    using Cons.prems
    by (cases "nat (rank_server p) = s") (auto simp: server_bytes_def filter_map comp_def ranks_nonneg_def)
  with Cons show ?case by (simp add: ranks_nonneg_def)
qed simp

lemma length_filter_layout:
  assumes "s < length ss"
  shows "length (filter (\<lambda>b. fst b = s) (layout ss)) = ss ! s"
proof -
  have "set (filter (\<lambda>b. fst b = s) (layout ss)) = Pair s ` {0..<ss ! s}"
    using assms by (auto simp: set_layout)
  then have "card (set (filter (\<lambda>b. fst b = s) (layout ss))) = ss ! s"
    by (simp add: card_image inj_on_def)
  moreover have "distinct (filter (\<lambda>b. fst b = s) (layout ss))"
    using distinct_layout by (rule distinct_filter)
  ultimately show ?thesis by (metis distinct_card)
qed

lemma covering_stored_bytes:
  "covering rs ss ps \<Longrightarrow> s < length ss \<Longrightarrow> stored_bytes (int s) ps = ss ! s"
  by (simp add: stored_bytes_filter length_filter_layout covering_def ranks_nonneg_def)

lemma covering_served:
  assumes "covering rs ss ps" "s < length ss" "0 < ss ! s"
  shows "\<exists>p \<in> set ps. rank_server p = int s"
proof (rule ccontr)
  assume "\<not> ?thesis"
  then have "stored_bytes (int s) ps = 0" by (simp add: stored_bytes_def)
  with covering_stored_bytes [OF assms(1,2)] assms(3) show False by linarith
qed

lemma covering_disjoint:
  assumes "covering rs ss ps" "p \<in> set ps" "q \<in> set ps" "p \<noteq> q" "rank_server p = rank_server q"
  shows "local_offset_server p + send_count p \<le> local_offset_server q \<or>
     local_offset_server q + send_count q \<le> local_offset_server p"
proof (rule ccontr)
  assume "\<not> ?thesis"
  then obtain k where k: "k \<in> {local_offset_server p ..< local_offset_server p + send_count p}"
      "k \<in> {local_offset_server q ..< local_offset_server q + send_count q}"
    by (metis atLeastLessThan_iff linorder_le_cases linorder_not_less order_refl le_add1
        add_0_right nat_add_left_cancel_less covering_def assms(1-3))
  have in_bytes: "(nat (rank_server x), y) \<in> set (server_bytes x)"
    if "y \<in> {local_offset_server x ..< local_offset_server x + send_count x}" for x y
    using that by (auto simp: server_bytes_def image_iff intro!: bexI [of _ "y - local_offset_server x"])
  have dist: "distinct (concat (map server_bytes ps))"
    using assms(1) distinct_layout by (simp add: covering_def)
  have "set (server_bytes p) \<inter> set (server_bytes q) = {}"
    using distinct_concat_map_disjoint [OF dist assms(2-4)] .
  moreover have "(nat (rank_server p), k) \<in> set (server_bytes p) \<inter> set (server_bytes q)"
    using in_bytes [OF k(1)] in_bytes [OF k(2)] assms(5) by simp
  ultimately show False by simp
qed

text \<open>
  C27. For every number of server ranks and every list of positive runner sizes whose sum is a
  multiple of the element size and small enough for the conversions of the code, the parts
  enumerate, in their order, every byte of the runner's vector and every byte of the server's
  vector exactly once: the k-th byte of the runner's layout is paired with the k-th byte of
  the server's layout. No part is empty, and no two parts join the same pair of ranks.
\<close>

theorem n_to_m_parts_cover:
  assumes "n_to_m_args c rs b"
  shows "\<exists>ps. calculate_n_to_m (int c) rs (int b) = Inr ps \<and>
     concat (map runner_bytes ps) = layout rs \<and>
     concat (map server_bytes ps) = layout (even_split c (sum_list rs div b) b) \<and>
     (\<forall>p \<in> set ps. 0 < send_count p) \<and>
     distinct (map (\<lambda>p. (rank_runner p, rank_server p)) ps)"
  using calculate_n_to_m_covering [OF assms] part_before_distinct by (auto simp: covering_def)

theorem n_to_m_parts_cover_witness:
  "\<exists>ps. calculate_n_to_m (int 2) [4, 8] (int 4) = Inr ps \<and>
     concat (map runner_bytes ps) = layout [4, 8] \<and>
     concat (map server_bytes ps) = layout (even_split 2 (sum_list [4, 8] div 4) 4) \<and>
     (\<forall>p \<in> set ps. 0 < send_count p) \<and>
     distinct (map (\<lambda>p. (rank_runner p, rank_server p)) ps)"
  by (rule n_to_m_parts_cover) (simp add: n_to_m_args_def)

text \<open>
  The server ranks get an even share: the sizes computed sum up to the size of the vector,
  every one is a whole number of elements, and two ranks differ by one element at most.
\<close>

theorem server_sizes_balanced:
  assumes "0 < c" "0 < b" "b < 2 ^ 31" "e < 2 ^ 31" "e * b < 2 ^ 64"
  shows "\<exists>ss. calculate_local_vect_sizes_server (int c) (e * b) (int b) = Inr ss \<and>
     length ss = c \<and> sum_list ss = e * b \<and> (\<forall>n \<in> set ss. b dvd n) \<and>
     (\<forall>m \<in> set ss. \<forall>n \<in> set ss. n \<le> m + b)"
proof -
  have "\<forall>m \<in> set (even_split c e b). \<forall>n \<in> set (even_split c e b). n \<le> m + b"
    by (auto simp: even_split_def algebra_simps)
  then show ?thesis
    using calculate_local_vect_sizes_server_eq [OF assms] even_split_sum [OF assms(1)]
      sizes_aligned_even_split by (auto simp: sizes_aligned_def)
qed

theorem server_sizes_balanced_witness:
  "\<exists>ss. calculate_local_vect_sizes_server (int 3) (7 * 8) (int 8) = Inr ss \<and>
     length ss = 3 \<and> sum_list ss = 7 * 8 \<and> (\<forall>n \<in> set ss. 8 dvd n) \<and>
     (\<forall>m \<in> set ss. \<forall>n \<in> set ss. n \<le> m + 8)"
  by (rule server_sizes_balanced) simp_all

text \<open>
  When every runner rank holds whole elements, no part splits an element: the offsets and
  the length of every part are multiples of the element size, as the comment at
  calculate\_n\_to\_m promises.
\<close>

theorem n_to_m_never_splits_elements:
  assumes args: "n_to_m_args c rs b" and al: "\<forall>n \<in> set rs. b dvd n"
  shows "\<exists>ps. calculate_n_to_m (int c) rs (int b) = Inr ps \<and>
     (\<forall>p \<in> set ps. b dvd local_offset_runner p \<and> b dvd local_offset_server p \<and> b dvd send_count p)"
proof -
  let ?ss = "even_split c (sum_list rs div b) b"
  let ?init = "\<lparr>ns_parts = [first_part], index_in_runner = 0, index_in_server = 0\<rparr>"
  obtain st where st: "calculate_n_to_m (int c) rs (int b) = Inr (ns_parts st)"
      "ntm_inv rs ?ss (sum_list rs) st" "n_to_m_loop (sum_list rs) rs ?ss ?init = Inr st"
    by (rule calculate_n_to_m_inv [OF args])
  have ok: "sizes_ok rs ?ss" and al': "sizes_aligned b rs" "sizes_aligned b ?ss"
    using args al n_to_m_args_sizes_ok sizes_aligned_even_split by (auto simp: sizes_aligned_def)
  have "parts_aligned b (ns_parts ?init)"
    by (simp add: parts_aligned_def first_part_def)
  then have aligned: "parts_aligned b (ns_parts st)"
    using n_to_m_loop_aligned [OF ntm_inv_init [OF ok n_to_m_args_sum_pos [OF args]] _ ok _ al'
        _ st(3)] by (simp add: last_counted_def)
  let ?l = "last (ns_parts st)"
  let ?r = "nat (rank_runner ?l)"
  have at: "sum_list (take ?r rs) + index_in_runner st = sum_list rs" "index_in_runner st \<le> rs ! ?r"
      "?r < length rs" "ns_parts st \<noteq> []"
      "index_in_runner st = local_offset_runner ?l + send_count ?l"
    using st(2) by (auto simp: ntm_inv_def runner_pos_ok_def index_ok_def)
  have "sum_list (take ?r rs) + rs ! ?r \<le> sum_list rs"
    using sum_list_take_le [of "Suc ?r" rs] at(3) by (simp add: sum_list_take_Suc)
  then have "index_in_runner st = rs ! ?r" using at by linarith
  then have "b dvd local_offset_runner ?l + send_count ?l"
    using al'(1) at(3,5) sizes_aligned_nth by metis
  moreover have "b dvd local_offset_runner ?l"
    using aligned at(4) by (simp add: parts_aligned_def)
  ultimately have "b dvd send_count ?l" using dvd_add_right_iff by blast
  then have "\<forall>p \<in> set (butlast (ns_parts st) @ [?l]). b dvd send_count p"
    using aligned by (auto simp: parts_aligned_def)
  then show ?thesis
    using st(1) aligned at(4) by (auto simp: parts_aligned_def)
qed

theorem n_to_m_never_splits_elements_witness:
  "\<exists>ps. calculate_n_to_m (int 2) [4, 8] (int 4) = Inr ps \<and>
     (\<forall>p \<in> set ps. 4 dvd local_offset_runner p \<and> 4 dvd local_offset_server p \<and> 4 dvd send_count p)"
  by (rule n_to_m_never_splits_elements) (simp_all add: n_to_m_args_def)

text \<open>
  A runner rank without assimilated state is not handled: its size minus one wraps to the
  largest size\_t, its border is never crossed again, and all the bytes of the ranks behind it
  are attributed to the empty rank. The header of the API leaves open whether a rank may hold no
  assimilated state; the redistribution does not support it.
\<close>

theorem n_to_m_empty_rank:
  "calculate_n_to_m 1 [1, 0, 2] 1 =
     Inr [\<lparr>rank_runner = 0, local_offset_runner = 0, rank_server = 0, local_offset_server = 0,
           send_count = 1\<rparr>,
          \<lparr>rank_runner = 1, local_offset_runner = 0, rank_server = 0, local_offset_server = 1,
           send_count = 2\<rparr>]"
  by (simp add: n_to_m_eval cong: and_then_weak_cong let_weak_cong)

end
