(* ===== verification/Field.thy ===== *)
theory Field
  imports Part
begin

text \<open>
  The state vectors a server rank stores (server/EnsembleMember, server/Field): the ensemble
  members with their analysis, background and hidden states, the parts of the rank, and the
  store of a part that a runner rank sent.
\<close>

section \<open>EnsembleMember\<close>

record ensemble_member =
  state_analysis :: "byte list"
  state_background :: "byte list"
  state_hidden :: "byte list"

definition empty_member :: ensemble_member where
  "empty_member = \<lparr>state_analysis = [], state_background = [], state_hidden = []\<rparr>"

text \<open>The sizes arrive as int: a size of 2\^31 bytes or more becomes negative, and the vector throws.\<close>

definition set_local_vect_size :: "nat \<Rightarrow> nat \<Rightarrow> ensemble_member \<Rightarrow> ensemble_member res" where
  "set_local_vect_size lvs lvs_hidden em =
     (let n = int32 (int lvs); h = int32 (int lvs_hidden) in
      if n < 0 \<or> h < 0 then Inl Length_error
      else Inr \<lparr>state_analysis = resize (nat n) 0 (state_analysis em),
                 state_background = resize (nat n) 0 (state_background em),
                 state_hidden = resize (nat h) 0 (state_hidden em)\<rparr>)"

text \<open>
  The pointer to the values is \<open>None\<close> for a null pointer; reading beyond the values it points
  to is undefined.
\<close>

definition copy_part :: "part \<Rightarrow> byte list option \<Rightarrow> byte list \<Rightarrow> byte list res" where
  "copy_part p values dst =
     assert_then (values \<noteq> None \<or> send_count p = 0)
      (assert_then (size64 (int (send_count p) + int (local_offset_server p)) \<le> length dst)
        (let src = (case values of None \<Rightarrow> [] | Some v \<Rightarrow> v) in
         if length src < send_count p \<or> length dst < local_offset_server p + send_count p
         then Inl Undefined_behaviour
         else Inr (copy_into (local_offset_server p) (take (send_count p) src) dst)))"

definition store_background_state_part ::
  "part \<Rightarrow> byte list option \<Rightarrow> part \<Rightarrow> byte list option \<Rightarrow> ensemble_member \<Rightarrow> ensemble_member res"
where
  "store_background_state_part p values hidden_part values_hidden em =
     and_then (copy_part p values (state_background em)) (\<lambda>background.
     and_then (copy_part hidden_part values_hidden (state_hidden em)) (\<lambda>hidden.
     Inr (em\<lparr>state_background := background, state_hidden := hidden\<rparr>)))"

section \<open>Field\<close>

record field =
  field_name :: string
  ensemble_members :: "ensemble_member list"
  local_vect_size :: nat
  local_vect_sizes_runner :: "nat list"
  parts :: "part list"
  local_vect_size_hidden :: nat
  local_vect_sizes_runner_hidden :: "nat list"
  parts_hidden :: "part list"
  connected_runner_ranks :: "int list"
  local_index_map :: "(int \<times> int) list"
  local_index_map_hidden :: "(int \<times> int) list"
  bytes_per_element :: int
  bytes_per_element_hidden :: int

definition new_field :: "string \<Rightarrow> int \<Rightarrow> nat \<Rightarrow> int \<Rightarrow> int \<Rightarrow> field res" where
  "new_field name simu_comm_size ensemble_size bpe bpe_hidden =
     (if simu_comm_size < 0 then Inl Length_error
      else Inr \<lparr>field_name = name, ensemble_members = replicate ensemble_size empty_member,
        local_vect_size = 0, local_vect_sizes_runner = replicate (nat simu_comm_size) 0, parts = [],
        local_vect_size_hidden = 0,
        local_vect_sizes_runner_hidden = replicate (nat simu_comm_size) 0, parts_hidden = [],
        connected_runner_ranks = [], local_index_map = [], local_index_map_hidden = [],
        bytes_per_element = bpe, bytes_per_element_hidden = bpe_hidden\<rparr>)"

definition add_part :: "int \<Rightarrow> part \<Rightarrow> part list \<Rightarrow> field \<Rightarrow> field res" where
  "add_part comm_rank p hs f =
     (if rank_server p = comm_rank then
        let f = f\<lparr>local_vect_size := size64 (int (local_vect_size f) + int (send_count p)),
                  connected_runner_ranks :=
                    insort_insert (rank_runner p) (connected_runner_ranks f)\<rparr>
        in (case hs of
              [] \<Rightarrow> Inr f
            | h # _ \<Rightarrow> assert_then (rank_server h = comm_rank)
                (Inr (f\<lparr>local_vect_size_hidden :=
                          size64 (int (local_vect_size_hidden f) + int (send_count h))\<rparr>)))
      else Inr f)"

fun add_parts :: "int \<Rightarrow> part list \<Rightarrow> part list \<Rightarrow> field \<Rightarrow> field res" where
  "add_parts comm_rank [] hs f = Inr f"
| "add_parts comm_rank (p # ps) hs f =
     and_then (add_part comm_rank p hs f) (add_parts comm_rank ps (tl hs))"

fun resize_members :: "nat \<Rightarrow> nat \<Rightarrow> ensemble_member list \<Rightarrow> ensemble_member list res" where
  "resize_members n h [] = Inr []"
| "resize_members n h (em # ems) =
     and_then (set_local_vect_size n h em) (\<lambda>em'.
     and_then (resize_members n h ems) (\<lambda>ems'. Inr (em' # ems')))"

definition calculate_parts :: "int \<Rightarrow> int \<Rightarrow> field \<Rightarrow> field res" where
  "calculate_parts comm_rank server_comm_size f =
     and_then (calculate_n_to_m server_comm_size (local_vect_sizes_runner f) (bytes_per_element f)) (\<lambda>ps.
     and_then (calculate_n_to_m server_comm_size (local_vect_sizes_runner_hidden f)
                (bytes_per_element_hidden f)) (\<lambda>hs.
     assert_then (length hs = 0 \<or> length hs = length ps)
      (and_then (add_parts comm_rank ps hs (f\<lparr>parts := ps, parts_hidden := hs\<rparr>)) (\<lambda>f.
       and_then (resize_members (local_vect_size f) (local_vect_size_hidden f) (ensemble_members f)) (\<lambda>ems.
       assert_then (connected_runner_ranks f \<noteq> [])
        (if size64 (bytes_per_element f) = 0 \<or> size64 (bytes_per_element_hidden f) = 0
         then Inl Undefined_behaviour
         else Inr (f\<lparr>ensemble_members := ems,
                local_index_map :=
                  resize (local_vect_size f div size64 (bytes_per_element f)) (0, 0) (local_index_map f),
                local_index_map_hidden :=
                  resize (local_vect_size_hidden f div size64 (bytes_per_element_hidden f)) (0, 0)
                    (local_index_map_hidden f)\<rparr>)))))))"

definition part_of :: "int \<Rightarrow> int \<Rightarrow> part list \<Rightarrow> part res" where
  "part_of comm_rank simu_rank ps =
     (case find (\<lambda>p. rank_server p = comm_rank \<and> rank_runner p = simu_rank) ps of
        Some p \<Rightarrow> Inr p
      | None \<Rightarrow> Inl Assertion_failed)"

definition getPart :: "int \<Rightarrow> int \<Rightarrow> field \<Rightarrow> part res" where
  "getPart comm_rank simu_rank f =
     assert_then (parts f \<noteq> []) (part_of comm_rank simu_rank (parts f))"

definition null_part :: part where
  "null_part = \<lparr>rank_runner = -1, local_offset_runner = 0, rank_server = -1,
     local_offset_server = 0, send_count = 0\<rparr>"

definition getPartHidden :: "int \<Rightarrow> int \<Rightarrow> field \<Rightarrow> part res" where
  "getPartHidden comm_rank simu_rank f =
     (if parts_hidden f = [] then Inr null_part
      else part_of comm_rank simu_rank (parts_hidden f))"

definition globalVectSize :: "field \<Rightarrow> nat" where
  "globalVectSize f = sum_vec (local_vect_sizes_runner f)"

definition globalVectSizeHidden :: "field \<Rightarrow> nat" where
  "globalVectSizeHidden f = sum_vec (local_vect_sizes_runner_hidden f)"

section \<open>Copying parts\<close>

lemma copy_part_Some [simp]:
  assumes "length v = send_count p" "local_offset_server p + send_count p \<le> length dst"
    and "length dst < 2 ^ 64"
  shows "copy_part p (Some v) dst = Inr (copy_into (local_offset_server p) v dst)"
  using assms by (simp add: copy_part_def add.commute)

lemma copy_part_null [simp]: "copy_part null_part None dst = Inr dst"
  by (simp add: copy_part_def null_part_def copy_into_def size64_def)

section \<open>calculate\_parts\<close>

definition parallel_parts :: "part list \<Rightarrow> part list \<Rightarrow> bool" where
  "parallel_parts ps hs \<longleftrightarrow> hs = [] \<or> map rank_server hs = map rank_server ps"

lemma add_parts_ok:
  "parallel_parts ps hs \<Longrightarrow>
   local_vect_size f + stored_bytes r ps < 2 ^ 64 \<Longrightarrow>
   local_vect_size_hidden f + stored_bytes r hs < 2 ^ 64 \<Longrightarrow>
     add_parts r ps hs f = Inr (f\<lparr>local_vect_size := local_vect_size f + stored_bytes r ps,
       local_vect_size_hidden := local_vect_size_hidden f + stored_bytes r hs,
       connected_runner_ranks :=
         fold insort_insert (map rank_runner (filter (\<lambda>p. rank_server p = r) ps))
           (connected_runner_ranks f)\<rparr>)"
proof (induction ps arbitrary: hs f)
  case Nil
  then show ?case by (auto simp: parallel_parts_def)
next
  case (Cons p ps)
  have par: "parallel_parts ps (tl hs)" using Cons.prems(1) by (auto simp: parallel_parts_def)
  show ?case
  proof (cases hs)
    case Nil
    then show ?thesis
      using Cons.IH [OF par] Cons.prems(2,3)
      by (auto simp: add_part_def ac_simps)
  next
    case (Cons h hs')
    then have "rank_server h = rank_server p"
      using \<open>parallel_parts (p # ps) hs\<close> by (simp add: parallel_parts_def)
    then show ?thesis
      using Cons.IH [OF par] Cons.prems(2,3) Cons
      by (auto simp: add_part_def ac_simps)
  qed
qed

lemma resize_members_ok:
  "n < 2 ^ 31 \<Longrightarrow> h < 2 ^ 31 \<Longrightarrow>
     \<exists>ems'. resize_members n h ems = Inr ems' \<and> length ems' = length ems \<and>
       (\<forall>em \<in> set ems'. length (state_analysis em) = n \<and> length (state_background em) = n \<and>
          length (state_hidden em) = h)"
  by (induction ems) (auto simp: set_local_vect_size_def int32_id)

lemma set_fold_insort_insert: "set (fold insort_insert xs ys) = set xs \<union> set ys"
  by (induction xs arbitrary: ys) (auto simp: set_insort_insert)

lemma fold_insort_insert_sorted:
  "sorted ys \<Longrightarrow> distinct ys \<Longrightarrow>
     sorted (fold insort_insert xs ys) \<and> distinct (fold insort_insert xs ys)"
  by (induction xs arbitrary: ys) (auto simp: sorted_insort_insert distinct_insort_insert)

text \<open>
  What the server relies on when it looks up the part of a connected runner rank: there is one,
  it lies within the stored vector, and the parts of two runner ranks do not overlap.
\<close>

definition parts_usable :: "int list \<Rightarrow> nat \<Rightarrow> (int \<Rightarrow> part res) \<Rightarrow> bool" where
  "parts_usable ranks n get \<longleftrightarrow>
     (\<forall>i \<in> set ranks. \<exists>p. get i = Inr p \<and> local_offset_server p + send_count p \<le> n) \<and>
     (\<forall>i \<in> set ranks. \<forall>j \<in> set ranks. \<forall>p q. i \<noteq> j \<longrightarrow> get i = Inr p \<longrightarrow> get j = Inr q \<longrightarrow>
        local_offset_server p + send_count p \<le> local_offset_server q \<or>
        local_offset_server q + send_count q \<le> local_offset_server p)"

definition members_sized :: "field \<Rightarrow> bool" where
  "members_sized f \<longleftrightarrow> (\<forall>em \<in> set (ensemble_members f).
     length (state_analysis em) = local_vect_size f \<and>
     length (state_background em) = local_vect_size f \<and>
     length (state_hidden em) = local_vect_size_hidden f)"

definition field_ready :: "int \<Rightarrow> field \<Rightarrow> bool" where
  "field_ready r f \<longleftrightarrow> connected_runner_ranks f \<noteq> [] \<and>
     sorted (connected_runner_ranks f) \<and> distinct (connected_runner_ranks f) \<and>
     local_vect_size f < 2 ^ 31 \<and> local_vect_size_hidden f < 2 ^ 31 \<and> members_sized f \<and>
     parts_usable (connected_runner_ranks f) (local_vect_size f) (\<lambda>i. getPart r i f) \<and>
     parts_usable (connected_runner_ranks f) (local_vect_size_hidden f) (\<lambda>i. getPartHidden r i f) \<and>
     (\<forall>i p. getPart r i f = Inr p \<longrightarrow> i \<in> set (connected_runner_ranks f))"

lemma part_of_covering:
  assumes "covering rs ss ps"
  shows "part_of r i ps = Inr p \<longleftrightarrow> p \<in> set ps \<and> rank_server p = r \<and> rank_runner p = i"
proof
  show "part_of r i ps = Inr p \<Longrightarrow> p \<in> set ps \<and> rank_server p = r \<and> rank_runner p = i"
    by (auto simp: part_of_def find_Some_iff in_set_conv_nth split: option.splits)
  assume p: "p \<in> set ps \<and> rank_server p = r \<and> rank_runner p = i"
  show "part_of r i ps = Inr p"
  proof (cases "find (\<lambda>p. rank_server p = r \<and> rank_runner p = i) ps")
    case None
    with p show ?thesis by (auto simp: find_None_iff)
  next
    case (Some q)
    then have "q \<in> set ps" "rank_server q = r" "rank_runner q = i"
      by (auto simp: find_Some_iff in_set_conv_nth)
    with p covering_unique [OF assms] have "q = p" by metis
    with Some show ?thesis by (simp add: part_of_def)
  qed
qed

lemma parts_usable_covering:
  assumes cov: "covering rs ss ps" and s: "s < length ss"
    and ranks: "set ranks \<subseteq> rank_runner ` {p \<in> set ps. rank_server p = int s}"
  shows "parts_usable ranks (ss ! s) (\<lambda>i. part_of (int s) i ps)"
  unfolding parts_usable_def part_of_covering [OF cov]
  using ranks covering_server_bounds [OF cov] covering_disjoint [OF cov] by fastforce

definition same_parts :: "part list \<Rightarrow> part list \<Rightarrow> bool" where
  "same_parts ps hs \<longleftrightarrow> hs = [] \<or>
     map (\<lambda>p. (rank_runner p, rank_server p)) hs = map (\<lambda>p. (rank_runner p, rank_server p)) ps"

lemma same_parts_parallel: "same_parts ps hs \<Longrightarrow> parallel_parts ps hs"
proof (cases "hs = []")
  case False
  assume "same_parts ps hs"
  with False have "map snd (map (\<lambda>p. (rank_runner p, rank_server p)) hs) =
      map snd (map (\<lambda>p. (rank_runner p, rank_server p)) ps)"
    by (simp add: same_parts_def)
  then show ?thesis by (simp add: parallel_parts_def comp_def)
qed (simp add: parallel_parts_def)

lemma same_parts_ranks:
  assumes "same_parts ps hs" "hs \<noteq> []"
  shows "{rank_runner p |p. p \<in> set hs \<and> rank_server p = r} = {rank_runner p |p. p \<in> set ps \<and> rank_server p = r}"
proof -
  have "(\<lambda>p. (rank_runner p, rank_server p)) ` set hs = (\<lambda>p. (rank_runner p, rank_server p)) ` set ps"
    using assms unfolding same_parts_def by (metis list.set_map)
  then show ?thesis by (auto simp: set_eq_iff image_iff) metis+
qed

lemma even_split_less: "s < c \<Longrightarrow> even_split c e b ! s \<le> e * b"
  using nth_le_sum_list [of s "even_split c e b"] even_split_sum [of c e b] by simp

text \<open>The calls of calculate\_parts that are meant to succeed.\<close>

definition calculate_parts_pre ::
  "nat \<Rightarrow> nat \<Rightarrow> nat \<Rightarrow> nat \<Rightarrow> part list \<Rightarrow> part list \<Rightarrow> field \<Rightarrow> bool" where
  "calculate_parts_pre c s b bh ps hs f \<longleftrightarrow>
     bytes_per_element f = int b \<and> bytes_per_element_hidden f = int bh \<and> 0 < bh \<and> bh < 2 ^ 31 \<and>
     calculate_n_to_m (int c) (local_vect_sizes_runner f) (int b) = Inr ps \<and>
     calculate_n_to_m (int c) (local_vect_sizes_runner_hidden f) (int bh) = Inr hs \<and>
     n_to_m_args c (local_vect_sizes_runner f) b \<and>
     (hs \<noteq> [] \<longrightarrow> n_to_m_args c (local_vect_sizes_runner_hidden f) bh) \<and> same_parts ps hs \<and> s < c \<and>
     0 < even_split c (sum_list (local_vect_sizes_runner f) div b) b ! s \<and>
     even_split c (sum_list (local_vect_sizes_runner f) div b) b ! s < 2 ^ 31 \<and>
     even_split c (sum_list (local_vect_sizes_runner_hidden f) div bh) bh ! s < 2 ^ 31 \<and>
     local_vect_size f = 0 \<and> local_vect_size_hidden f = 0 \<and> connected_runner_ranks f = []"

lemma calculate_parts_ok:
  assumes pre: "calculate_parts_pre c s b bh ps hs f"
  shows "\<exists>f'. calculate_parts (int s) (int c) f = Inr f' \<and> field_ready (int s) f' \<and>
     local_vect_size f' = even_split c (sum_list (local_vect_sizes_runner f) div b) b ! s \<and>
     set (connected_runner_ranks f') = rank_runner ` {p \<in> set ps. rank_server p = int s} \<and>
     length (ensemble_members f') = length (ensemble_members f) \<and> parts f' = ps \<and> parts_hidden f' = hs \<and>
     (hs \<noteq> [] \<longrightarrow> local_vect_size_hidden f' =
        even_split c (sum_list (local_vect_sizes_runner_hidden f) div bh) bh ! s) \<and>
     (hs = [] \<longrightarrow> local_vect_size_hidden f' = 0)"
proof -
  let ?rs = "local_vect_sizes_runner f" and ?rh = "local_vect_sizes_runner_hidden f"
  let ?ss = "even_split c (sum_list ?rs div b) b" and ?sh = "even_split c (sum_list ?rh div bh) bh"
  let ?ranks = "map rank_runner (filter (\<lambda>p. rank_server p = int s) ps)"
  have cov: "covering ?rs ?ss ps" and b: "0 < b" "b < 2 ^ 31"
    using calculate_n_to_m_covering [of c ?rs b] pre by (auto simp: calculate_parts_pre_def n_to_m_args_def)
  have covh: "covering ?rh ?sh hs" if "hs \<noteq> []"
    using calculate_n_to_m_covering [of c ?rh bh] pre that by (auto simp: calculate_parts_pre_def)
  have n: "stored_bytes (int s) ps = ?ss ! s"
    using covering_stored_bytes [OF cov] pre by (simp add: calculate_parts_pre_def)
  have h: "stored_bytes (int s) hs < 2 ^ 31"
      "hs \<noteq> [] \<Longrightarrow> stored_bytes (int s) hs = ?sh ! s"
    using covering_stored_bytes [OF covh] pre by (cases "hs = []"; simp add: calculate_parts_pre_def)+
  obtain ems where ems: "resize_members (?ss ! s) (stored_bytes (int s) hs) (ensemble_members f) = Inr ems"
      "length ems = length (ensemble_members f)"
      "\<forall>em \<in> set ems. length (state_analysis em) = ?ss ! s \<and> length (state_background em) = ?ss ! s \<and>
         length (state_hidden em) = stored_bytes (int s) hs"
    using resize_members_ok [OF _ h(1), of "?ss ! s" "ensemble_members f"] pre
    by (auto simp: calculate_parts_pre_def)
  let ?csr = "fold insort_insert ?ranks []"
  have csr: "set ?csr = rank_runner ` {p \<in> set ps. rank_server p = int s}" "sorted ?csr" "distinct ?csr"
    using fold_insort_insert_sorted [of "[]" ?ranks] by (auto simp: set_fold_insort_insert)
  have csr_ne: "?csr \<noteq> []"
    using covering_served [OF cov, of s] pre csr(1) by (force simp: calculate_parts_pre_def)
  have lens: "length hs = 0 \<or> length hs = length ps"
    using pre by (auto simp: calculate_parts_pre_def same_parts_def dest: map_eq_imp_length_eq)
  have ps_ne: "ps \<noteq> []" using csr_ne by auto
  have usable: "parts_usable ?csr (?ss ! s) (\<lambda>i. part_of (int s) i ps)"
    by (rule parts_usable_covering [OF cov]) (use pre csr in \<open>auto simp: calculate_parts_pre_def\<close>)
  have usable_h: "parts_usable ?csr (stored_bytes (int s) hs) (\<lambda>i. part_of (int s) i hs)" if ne: "hs \<noteq> []"
  proof -
    have "rank_runner ` {p \<in> set hs. rank_server p = int s} = rank_runner ` {p \<in> set ps. rank_server p = int s}"
      using same_parts_ranks [OF _ ne, of ps "int s"] pre by (auto simp: calculate_parts_pre_def setcompr_eq_image)
    then show ?thesis
      unfolding h(2) [OF ne]
      by (intro parts_usable_covering [OF covh [OF ne]]) (use pre csr in \<open>auto simp: calculate_parts_pre_def\<close>)
  qed
  have null: "parts_usable ?csr 0 (\<lambda>i. Inr null_part)"
    by (simp add: parts_usable_def null_part_def)
  have b64: "size64 (int b) \<noteq> 0" "size64 (int bh) \<noteq> 0"
    using pre b by (auto simp: calculate_parts_pre_def)
  have adds: "add_parts (int s) ps hs (f\<lparr>parts := ps, parts_hidden := hs\<rparr>) =
      Inr (f\<lparr>parts := ps, parts_hidden := hs, local_vect_size := ?ss ! s,
        local_vect_size_hidden := stored_bytes (int s) hs, connected_runner_ranks := ?csr\<rparr>)"
    using add_parts_ok [of ps hs "f\<lparr>parts := ps, parts_hidden := hs\<rparr>" "int s"] pre h(1) n
      same_parts_parallel by (auto simp: calculate_parts_pre_def)
  let ?f = "f\<lparr>parts := ps, parts_hidden := hs, local_vect_size := ?ss ! s,
      local_vect_size_hidden := stored_bytes (int s) hs, connected_runner_ranks := ?csr,
      ensemble_members := ems,
      local_index_map := resize (?ss ! s div size64 (int b)) (0, 0) (local_index_map f),
      local_index_map_hidden :=
        resize (stored_bytes (int s) hs div size64 (int bh)) (0, 0) (local_index_map_hidden f)\<rparr>"
  have "calculate_parts (int s) (int c) f = Inr ?f"
    using pre lens csr_ne b64 ems(1) by (simp add: calculate_parts_def adds calculate_parts_pre_def)
  moreover have "\<forall>i p. part_of (int s) i ps = Inr p \<longrightarrow> i \<in> set ?csr"
    unfolding csr(1) part_of_covering [OF cov] by blast
  moreover from this have "field_ready (int s) ?f"
    using pre ems csr(2,3) csr_ne usable usable_h null h(1) ps_ne
    by (cases "hs = []")
      (simp_all add: calculate_parts_pre_def field_ready_def members_sized_def getPart_def getPartHidden_def)
  ultimately show ?thesis
    using csr(1) ems(2) h(2) by (simp add: stored_bytes_def)
qed

text \<open>
  C37. calculate\_parts establishes what the server later relies on. When every runner rank holds
  state, the hidden state is absent or cut into the same parts, and the share of the rank is
  positive and below the int range its size passes through, calculate\_parts succeeds: the local
  size is the share of the even split, every member has vectors of that size, every connected
  runner rank has a part inside them and two parts do not overlap.
\<close>

theorem calculate_parts_ready:
  assumes "calculate_parts_pre c s b bh ps hs f"
  shows "\<exists>f'. calculate_parts (int s) (int c) f = Inr f' \<and> field_ready (int s) f' \<and>
     local_vect_size f' = even_split c (sum_list (local_vect_sizes_runner f) div b) b ! s \<and>
     set (connected_runner_ranks f') = rank_runner ` {p \<in> set ps. rank_server p = int s} \<and>
     length (ensemble_members f') = length (ensemble_members f)"
  using calculate_parts_ok [OF assms] by blast

definition example_field :: field where
  "example_field = \<lparr>field_name = ''state'', ensemble_members = replicate 2 empty_member,
     local_vect_size = 0, local_vect_sizes_runner = [1, 2], parts = [],
     local_vect_size_hidden = 0, local_vect_sizes_runner_hidden = [0, 0], parts_hidden = [],
     connected_runner_ranks = [], local_index_map = [], local_index_map_hidden = [],
     bytes_per_element = 1, bytes_per_element_hidden = 1\<rparr>"

lemma example_field_new:
  "new_field ''state'' 2 2 1 1 =
     Inr (example_field\<lparr>local_vect_sizes_runner := [0, 0]\<rparr>)"
  by (simp add: new_field_def example_field_def numeral_2_eq_2)

definition example_parts :: "part list" where
  "example_parts =
     [\<lparr>rank_runner = 0, local_offset_runner = 0, rank_server = 0, local_offset_server = 0, send_count = 1\<rparr>,
      \<lparr>rank_runner = 1, local_offset_runner = 0, rank_server = 0, local_offset_server = 1, send_count = 1\<rparr>,
      \<lparr>rank_runner = 1, local_offset_runner = 1, rank_server = 1, local_offset_server = 0, send_count = 1\<rparr>]"

lemma example_field_pre: "calculate_parts_pre 2 0 1 1 example_parts [] example_field"
proof -
  have "calculate_n_to_m 2 [1, 2] 1 = Inr example_parts" "calculate_n_to_m 2 [0, 0] 1 = Inr []"
    by (simp_all add: example_parts_def n_to_m_eval cong: and_then_weak_cong let_weak_cong)
  then show ?thesis
    by (simp add: calculate_parts_pre_def example_field_def n_to_m_args_def same_parts_def even_split_def)
qed

theorem calculate_parts_ready_witness:
  "\<exists>f'. calculate_parts (int 0) (int 2) example_field = Inr f' \<and> field_ready (int 0) f' \<and>
     local_vect_size f' = even_split 2 (sum_list (local_vect_sizes_runner example_field) div 1) 1 ! 0 \<and>
     set (connected_runner_ranks f') = rank_runner ` {p \<in> set example_parts. rank_server p = int 0} \<and>
     length (ensemble_members f') = length (ensemble_members example_field)"
  by (rule calculate_parts_ready [OF example_field_pre])

section \<open>Storing a part\<close>

lemma member_lengths:
  "field_ready r f \<Longrightarrow> em \<in> set (ensemble_members f) \<Longrightarrow>
     length (state_background em) = local_vect_size f \<and> length (state_analysis em) = local_vect_size f \<and>
     length (state_hidden em) = local_vect_size_hidden f"
  by (auto simp: field_ready_def members_sized_def)

lemma usable_part:
  "parts_usable ranks n get \<Longrightarrow> i \<in> set ranks \<Longrightarrow> get i = Inr p \<Longrightarrow>
     local_offset_server p + send_count p \<le> n"
  by (force simp: parts_usable_def)

lemma usable_disjoint:
  "parts_usable ranks n get \<Longrightarrow> i \<in> set ranks \<Longrightarrow> j \<in> set ranks \<Longrightarrow> i \<noteq> j \<Longrightarrow>
     get i = Inr p \<Longrightarrow> get j = Inr q \<Longrightarrow>
     local_offset_server q + send_count q \<le> local_offset_server p \<or>
     local_offset_server p + send_count p \<le> local_offset_server q"
  unfolding parts_usable_def by blast

text \<open>The pointer handle\_data\_response passes for the hidden values.\<close>

definition hidden_values :: "part \<Rightarrow> byte list \<Rightarrow> byte list option" where
  "hidden_values h v = (if send_count h > 0 then Some v else None)"

lemma store_part_ok:
  assumes f: "field_ready r f" "em \<in> set (ensemble_members f)" "i \<in> set (connected_runner_ranks f)"
    and p: "getPart r i f = Inr p" "length v = send_count p"
    and h: "getPartHidden r i f = Inr h" "length vh = send_count h"
  shows "store_background_state_part p (Some v) h (hidden_values h vh) em =
     Inr (em\<lparr>state_background := copy_into (local_offset_server p) v (state_background em),
             state_hidden := copy_into (local_offset_server h) vh (state_hidden em)\<rparr>)"
proof -
  have p': "local_offset_server p + send_count p \<le> length (state_background em)"
      "length (state_background em) < 2 ^ 64"
    using f p member_lengths [OF f(1,2)] usable_part [of _ _ "\<lambda>i. getPart r i f" i p]
    by (auto simp: field_ready_def)
  have h': "local_offset_server h + send_count h \<le> length (state_hidden em)"
      "length (state_hidden em) < 2 ^ 64"
    using f h member_lengths [OF f(1,2)] usable_part [of _ _ "\<lambda>i. getPartHidden r i f" i h]
    by (auto simp: field_ready_def)
  have "copy_part h (hidden_values h vh) (state_hidden em) =
      Inr (copy_into (local_offset_server h) vh (state_hidden em))"
    using h h' by (cases "send_count h = 0") (auto simp: hidden_values_def copy_part_def copy_into_def)
  with p(2) p' show ?thesis by (simp add: store_background_state_part_def)
qed

text \<open>
  Storing the part a runner rank sent never fails on a field prepared by calculate\_parts:
  afterwards the member holds the bytes sent at the place of the part, the parts of the other
  runner ranks and the analysis state are as before.
\<close>

theorem store_part_framed:
  assumes f: "field_ready r f" "em \<in> set (ensemble_members f)" "i \<in> set (connected_runner_ranks f)"
    and p: "getPart r i f = Inr p" "length v = send_count p"
    and h: "getPartHidden r i f = Inr h" "length vh = send_count h"
    and q: "j \<in> set (connected_runner_ranks f)" "j \<noteq> i" "getPart r j f = Inr q"
  shows "\<exists>em'. store_background_state_part p (Some v) h (hidden_values h vh) em = Inr em' \<and>
     subvec (local_offset_server p) (send_count p) (state_background em') = v \<and>
     subvec (local_offset_server h) (send_count h) (state_hidden em') = vh \<and>
     subvec (local_offset_server q) (send_count q) (state_background em') =
       subvec (local_offset_server q) (send_count q) (state_background em) \<and>
     state_analysis em' = state_analysis em"
proof -
  have len: "length (state_background em) = local_vect_size f"
      "length (state_hidden em) = local_vect_size_hidden f"
    using member_lengths [OF f(1,2)] by auto
  have us: "parts_usable (connected_runner_ranks f) (local_vect_size f) (\<lambda>i. getPart r i f)"
      "parts_usable (connected_runner_ranks f) (local_vect_size_hidden f) (\<lambda>i. getPartHidden r i f)"
    using f(1) by (auto simp: field_ready_def)
  have "subvec (local_offset_server p) (length v) (copy_into (local_offset_server p) v (state_background em)) = v"
    by (rule subvec_copy_into) (use usable_part [OF us(1) f(3) p(1)] p(2) len in simp)
  moreover have "subvec (local_offset_server h) (length vh) (copy_into (local_offset_server h) vh (state_hidden em)) = vh"
    by (rule subvec_copy_into) (use usable_part [OF us(2) f(3) h(1)] h(2) len in simp)
  moreover have "subvec (local_offset_server q) (send_count q) (copy_into (local_offset_server p) v (state_background em)) =
      subvec (local_offset_server q) (send_count q) (state_background em)"
    by (rule subvec_copy_into_disjoint)
      (use usable_part [OF us(1) f(3) p(1)] usable_part [OF us(1) q(1,3)] p(2) len
        usable_disjoint [OF us(1) f(3) q(1) q(2)[symmetric] p(1) q(3)] in auto)
  ultimately show ?thesis
    using store_part_ok [OF f p h] p(2) h(2) by simp
qed

text \<open>A prepared field on server rank 0 of two.\<close>

definition example_ready :: field where
  "example_ready = example_field\<lparr>parts := example_parts, local_vect_size := 2,
     connected_runner_ranks := [0, 1], local_index_map := [(0, 0), (0, 0)],
     ensemble_members := replicate 2
       \<lparr>state_analysis = [0, 0], state_background = [0, 0], state_hidden = []\<rparr>\<rparr>"

lemma example_calculate_parts: "calculate_parts 0 2 example_field = Inr example_ready"
proof -
  have "calculate_n_to_m 2 [1, 2] 1 = Inr example_parts" "calculate_n_to_m 2 [0, 0] 1 = Inr []"
    by (simp_all add: example_parts_def n_to_m_eval cong: and_then_weak_cong let_weak_cong)
  then show ?thesis
    by (simp add: calculate_parts_def example_field_def example_ready_def example_parts_def add_part_def
        numeral_2_eq_2 empty_member_def set_local_vect_size_def resize_def insort_insert_key_def size64_def int32_def
        cong: and_then_weak_cong let_weak_cong)
qed

lemma example_ready_field: "field_ready 0 example_ready"
  using calculate_parts_ok [OF example_field_pre] example_calculate_parts by simp

theorem store_part_framed_witness:
  "\<exists>em'. store_background_state_part (example_parts ! 1) (Some [7]) null_part (hidden_values null_part [])
        (ensemble_members example_ready ! 0) = Inr em' \<and>
     subvec (local_offset_server (example_parts ! 1)) (send_count (example_parts ! 1)) (state_background em') = [7] \<and>
     subvec (local_offset_server null_part) (send_count null_part) (state_hidden em') = [] \<and>
     subvec (local_offset_server (example_parts ! 0)) (send_count (example_parts ! 0)) (state_background em') =
       subvec (local_offset_server (example_parts ! 0)) (send_count (example_parts ! 0))
         (state_background (ensemble_members example_ready ! 0)) \<and>
     state_analysis em' = state_analysis (ensemble_members example_ready ! 0)"
  by (rule store_part_framed [OF example_ready_field, of _ 1 _ _ _ _ 0])
    (simp_all add: example_ready_def example_field_def example_parts_def getPart_def getPartHidden_def
      part_of_def null_part_def)

section \<open>The shape of a field\<close>

text \<open>Only the contents of the members change once the parts are calculated.\<close>

definition member_shape :: "ensemble_member \<Rightarrow> nat \<times> nat \<times> nat" where
  "member_shape em = (length (state_analysis em), length (state_background em), length (state_hidden em))"

definition same_shape :: "field \<Rightarrow> field \<Rightarrow> bool" where
  "same_shape f f' \<longleftrightarrow> f' = f\<lparr>ensemble_members := ensemble_members f'\<rparr> \<and>
     map member_shape (ensemble_members f') = map member_shape (ensemble_members f)"

lemma same_shape_refl [simp]: "same_shape f f"
  by (simp add: same_shape_def)

lemma same_shape_members:
  "map member_shape ems = map member_shape (ensemble_members f) \<Longrightarrow>
     same_shape f (f\<lparr>ensemble_members := ems\<rparr>)"
  by (simp add: same_shape_def)

lemma same_shape_iff: "same_shape f f' \<longleftrightarrow> (\<exists>ems. f' = f\<lparr>ensemble_members := ems\<rparr> \<and>
     map member_shape ems = map member_shape (ensemble_members f))"
  unfolding same_shape_def by (metis field.select_convs(2) field.surjective field.update_convs(2))

lemma same_shape_trans:
  assumes "same_shape f f'" "same_shape f' f''"
  shows "same_shape f f''"
proof -
  obtain ems ems' where "f' = f\<lparr>ensemble_members := ems\<rparr>" "f'' = f'\<lparr>ensemble_members := ems'\<rparr>"
      "map member_shape ems' = map member_shape (ensemble_members f')"
      "map member_shape ems = map member_shape (ensemble_members f)"
    using assms unfolding same_shape_iff by blast
  then show ?thesis by (simp add: same_shape_members)
qed

lemma same_shape_fields:
  assumes "same_shape f f'"
  shows "connected_runner_ranks f' = connected_runner_ranks f"
    "length (ensemble_members f') = length (ensemble_members f)"
    "field_ready r f' = field_ready r f"
proof -
  obtain ems where f': "f' = f\<lparr>ensemble_members := ems\<rparr>" and
      sh: "map member_shape ems = map member_shape (ensemble_members f)"
    using assms by (auto simp: same_shape_def)
  show "connected_runner_ranks f' = connected_runner_ranks f" by (simp add: f')
  show "length (ensemble_members f') = length (ensemble_members f)"
    using map_eq_imp_length_eq [OF sh] by (simp add: f')
  have "members_sized f' = (set (map member_shape ems) \<subseteq>
      {(local_vect_size f, local_vect_size f, local_vect_size_hidden f)})"
    by (auto simp: members_sized_def f' member_shape_def)
  also have "\<dots> = members_sized f"
    unfolding sh by (auto simp: members_sized_def member_shape_def)
  finally show "field_ready r f' = field_ready r f"
    by (simp add: field_ready_def f' getPart_def getPartHidden_def cong: if_cong)
qed

lemma copy_part_length: "copy_part p v dst = Inr dst' \<Longrightarrow> length dst' = length dst"
  by (auto simp: copy_part_def Let_def length_copy_into split: if_splits option.splits)

lemma store_background_shape:
  "store_background_state_part p v h vh em = Inr em' \<Longrightarrow> member_shape em' = member_shape em"
  by (auto simp: store_background_state_part_def and_then_Inr_iff member_shape_def dest!: copy_part_length)

lemma map_list_update_id: "map f (xs[i := x]) = map f xs \<longleftrightarrow> (i < length xs \<longrightarrow> f x = f (xs ! i))"
  by (metis length_map list_update_beyond list_update_id map_update nth_list_update_eq nth_map linorder_not_le)

end
