(* ===== verification/Timing.thy ===== *)
theory Timing
  imports Prelude
begin

text \<open>
  Timing events (common/TimingEvent.h): the numbering of the event types, the list of events a
  process records, the check whether a report is due, and the matching of enter and leave
  events that writes the region trace.
\<close>

definition TimingEventType :: "(string \<times> int) list" where
  "TimingEventType =
    [(''ADD_RUNNER'', 0), (''REMOVE_RUNNER'', 1), (''START_ITERATION'', 2),
    (''STOP_ITERATION'', 3), (''START_FILTER_UPDATE'', 4), (''STOP_FILTER_UPDATE'', 5),
    (''START_IDLE_RUNNER'', 6), (''STOP_IDLE_RUNNER'', 7), (''START_PROPAGATE_STATE'', 8),
    (''STOP_PROPAGATE_STATE'', 9), (''NSTEPS'', 10), (''INIT'', 11), (''START_INIT'', 12),
    (''STOP_INIT'', 13), (''START_JOB_REQUEST'', 16), (''STOP_JOB_REQUEST'', 17),
    (''START_CHECK_LOCAL'', 20), (''STOP_CHECK_LOCAL'', 21), (''START_WAIT_HEAD'', 22),
    (''STOP_WAIT_HEAD'', 23), (''START_CALC_WEIGHT'', 26), (''STOP_CALC_WEIGHT'', 27),
    (''START_LOAD_OBS'', 28), (''STOP_LOAD_OBS'', 29), (''START_PUSH_WEIGHT_TO_HEAD'', 30),
    (''STOP_PUSH_WEIGHT_TO_HEAD'', 31), (''START_STORE'', 80), (''STOP_STORE'', 81),
    (''START_IDLE_FTI_HEAD'', 34), (''STOP_IDLE_FTI_HEAD'', 35),
    (''START_PUSH_STATE_TO_PFS'', 36), (''STOP_PUSH_STATE_TO_PFS'', 37),
    (''START_PREFETCH'', 38), (''STOP_PREFETCH'', 39), (''START_PREFETCH_REQ'', 40),
    (''STOP_PREFETCH_REQ'', 41), (''START_PUSH_WEIGHT_TO_SERVER'', 92),
    (''STOP_PUSH_WEIGHT_TO_SERVER'', 93), (''START_REQ_RUNNER'', 42),
    (''STOP_REQ_RUNNER'', 43), (''START_REQ_RUNNER_LIST'', 84), (''STOP_REQ_RUNNER_LIST'', 85),
    (''START_REQ_STATE_FROM_RUNNER'', 86), (''STOP_REQ_STATE_FROM_RUNNER'', 87),
    (''START_COPY_STATE_FROM_RUNNER'', 44), (''STOP_COPY_STATE_FROM_RUNNER'', 45),
    (''START_HANDLE_AVAIL_REQ'', 88), (''STOP_HANDLE_AVAIL_REQ'', 89),
    (''START_HANDLE_STATE_REQ'', 90), (''STOP_HANDLE_STATE_REQ'', 91),
    (''START_COPY_STATE_TO_RUNNER'', 82), (''STOP_COPY_STATE_TO_RUNNER'', 83),
    (''START_COPY_STATE_FROM_PFS'', 46), (''STOP_COPY_STATE_FROM_PFS'', 47),
    (''START_DELETE'', 48), (''STOP_DELETE'', 49), (''START_DELETE_REQ'', 50),
    (''STOP_DELETE_REQ'', 51), (''START_DELETE_LOCAL'', 52), (''STOP_DELETE_LOCAL'', 53),
    (''START_DELETE_PFS'', 54), (''STOP_DELETE_PFS'', 55), (''PEER_HIT'', 56),
    (''PEER_MISS'', 57), (''PFS_PULL'', 58), (''LOCAL_HIT'', 59), (''LOCAL_MISS'', 60),
    (''LOCAL_DELETE'', 61), (''PFS_DELETE'', 62), (''DIRTY_LOAD'', 94), (''START_LOAD'', 18),
    (''STOP_LOAD'', 19), (''START_FTI_LOAD'', 95), (''STOP_FTI_LOAD'', 96),
    (''START_M_LOAD_USER'', 97), (''STOP_M_LOAD_USER'', 98), (''START_MODEL_MESSAGE'', 99),
    (''STOP_MODEL_MESSAGE'', 100), (''STATE_LOCAL_CREATE'', 101), (''STATE_LOCAL_DELETE'', 102)]"

definition event_code :: "string \<Rightarrow> int" where
  "event_code name = (case map_of TimingEventType name of Some c \<Rightarrow> c | None \<Rightarrow> -1)"

section \<open>Recording\<close>

record timing_event =
  event_type :: int
  event_time :: int
  parameter :: int

record timing =
  events :: "timing_event list"
  report_time :: int
  wrote :: bool
  timing_to_fifo_testing :: bool
  fifo :: "(int \<times> int) list"

text \<open>MELISSA\_DA\_TIMING\_REPORT is ignored when it lies in the past.\<close>

definition new_timing :: "int \<Rightarrow> int option \<Rightarrow> bool \<Rightarrow> timing" where
  "new_timing now report fifo_file =
     \<lparr>events = [\<lparr>event_type = event_code ''INIT'', event_time = now, parameter = 0\<rparr>],
      report_time = (case report of None \<Rightarrow> 0 | Some t \<Rightarrow> if t < now then 0 else t),
      wrote = False, timing_to_fifo_testing = fifo_file,
      fifo = (if fifo_file then [(event_code ''INIT'', 0)] else [])\<rparr>"

definition trigger_event :: "int \<Rightarrow> int \<Rightarrow> int \<Rightarrow> timing \<Rightarrow> timing" where
  "trigger_event now ty param t =
     t\<lparr>events := events t @ [\<lparr>event_type = ty, event_time = now, parameter = param\<rparr>],
       fifo := (if timing_to_fifo_testing t then fifo t @ [(ty, param)] else fifo t)\<rparr>"

definition is_time_to_write :: "int \<Rightarrow> timing \<Rightarrow> bool \<times> timing" where
  "is_time_to_write now t =
     (if wrote t then (False, t)
      else if report_time t \<noteq> 0 \<and> report_time t \<le> now then (True, t\<lparr>wrote := True\<rparr>)
      else (False, t))"

section \<open>The region trace\<close>

record event_type_translation =
  enter_type :: int
  leave_type :: int
  region_name :: string

record region =
  region_start :: int
  region_end :: int
  region :: string
  parameter_open :: int
  parameter_close :: int

text \<open>
  The open event a leave event closes: the last one pushed of the region's type whose parameter
  agrees. The result is the event and the stack without it.
\<close>

fun pop_open :: "(timing_event \<Rightarrow> bool) \<Rightarrow> timing_event list \<Rightarrow>
    (timing_event \<times> timing_event list) option" where
  "pop_open P [] = None"
| "pop_open P (e # es) =
     (case pop_open P es of
        Some (x, es') \<Rightarrow> Some (x, e # es')
      | None \<Rightarrow> if P e then Some (e, es) else None)"

definition closes :: "bool \<Rightarrow> event_type_translation \<Rightarrow> timing_event \<Rightarrow> timing_event \<Rightarrow> bool" where
  "closes close_different_parameter ett evt oevt \<longleftrightarrow>
     event_type oevt = enter_type ett \<and>
     (close_different_parameter \<or> parameter oevt = parameter evt \<or> parameter evt = -1)"

fun match_event :: "bool \<Rightarrow> event_type_translation list \<Rightarrow> timing_event \<Rightarrow> timing_event list \<Rightarrow>
    timing_event list \<times> region list" where
  "match_event cdp [] evt open_events = (open_events, [])"
| "match_event cdp (ett # etts) evt open_events =
     (if event_type evt = enter_type ett then (open_events @ [evt], [])
      else if event_type evt = leave_type ett then
        (case pop_open (closes cdp ett evt) open_events of
           Some (oevt, open_events') \<Rightarrow>
             (open_events',
              [\<lparr>region_start = event_time oevt, region_end = event_time evt,
                region = region_name ett, parameter_open = parameter oevt,
                parameter_close = parameter evt\<rparr>])
         | None \<Rightarrow> match_event cdp etts evt open_events)
      else match_event cdp etts evt open_events)"

fun match_events :: "bool \<Rightarrow> event_type_translation list \<Rightarrow> timing_event list \<Rightarrow>
    timing_event list \<Rightarrow> timing_event list \<times> region list" where
  "match_events cdp etts [] open_events = (open_events, [])"
| "match_events cdp etts (evt # evts) open_events =
     (let (open', rs) = match_event cdp etts evt open_events;
          (open'', rs') = match_events cdp etts evts open'
      in (open'', rs @ rs'))"

definition write_region_csv :: "bool \<Rightarrow> event_type_translation list \<Rightarrow> timing \<Rightarrow> region list" where
  "write_region_csv cdp etts t = snd (match_events cdp etts (events t) [])"

text \<open>The regions the server reports.\<close>

definition server_regions :: "event_type_translation list" where
  "server_regions =
     [\<lparr>enter_type = event_code ''START_ITERATION'', leave_type = event_code ''STOP_ITERATION'',
       region_name = ''Iteration''\<rparr>,
      \<lparr>enter_type = event_code ''START_FILTER_UPDATE'', leave_type = event_code ''STOP_FILTER_UPDATE'',
       region_name = ''Filter Update''\<rparr>,
      \<lparr>enter_type = event_code ''START_IDLE_RUNNER'', leave_type = event_code ''STOP_IDLE_RUNNER'',
       region_name = ''Runner idle''\<rparr>,
      \<lparr>enter_type = event_code ''START_PROPAGATE_STATE'', leave_type = event_code ''STOP_PROPAGATE_STATE'',
       region_name = ''State propagation''\<rparr>]"

end
