(* ===== verification/ServerState.thy ===== *)
theory ServerState
  imports Field Timing
begin

text \<open>
  The state of one server rank (the globals of server/server.cxx), its messages and the effects
  it has: frames sent on the ZeroMQ sockets, MPI messages to other ranks, notifications of the
  launcher, timing events. A handler is a function from the state of the rank to its result; an
  assert or an exit keeps the state in which it happened, so that what was sent before is
  visible. The clock is read from the state: all calls of time() of one handler see the same
  second.
\<close>

section \<open>Tasks\<close>

datatype task = Task (task_state_id: int) (task_runner_id: int)

text \<open>The operator< of the code: tasks are ordered by state, then by runner.\<close>

definition task_less :: "task \<Rightarrow> task \<Rightarrow> bool" where
  "task_less lhs rhs \<longleftrightarrow> task_state_id lhs < task_state_id rhs \<or>
     (task_state_id lhs = task_state_id rhs \<and> task_runner_id lhs < task_runner_id rhs)"

instantiation task :: linorder
begin

definition less_task :: "task \<Rightarrow> task \<Rightarrow> bool" where
  "less_task = task_less"

definition less_eq_task :: "task \<Rightarrow> task \<Rightarrow> bool" where
  "less_eq_task lhs rhs \<longleftrightarrow> lhs = rhs \<or> lhs < rhs"

instance
  by intro_classes (auto simp: less_eq_task_def less_task_def task_less_def intro: task.expand)

end

record new_task =
  nt_runner_id :: int
  nt_state_id :: int
  nt_due_date :: int
  nt_task_id :: int

record sub_task =
  runner_id :: int
  runner_rank :: int
  state_id :: int
  due_date :: int

definition SubTask :: "new_task \<Rightarrow> int \<Rightarrow> sub_task" where
  "SubTask new_task rrank = \<lparr>runner_id = nt_runner_id new_task, runner_rank = rrank,
     state_id = nt_state_id new_task, due_date = nt_due_date new_task\<rparr>"

definition task_of :: "sub_task \<Rightarrow> task" where
  "task_of st = Task (state_id st) (runner_id st)"

section \<open>Messages and effects\<close>

datatype frame =
    Bytes "byte list"
  | Ints "int list"
  | Sizes "nat list"
  | Index_map "(int \<times> int) list"
  | Header "int list" string
  | Names "string list"

definition empty_frame :: frame where
  "empty_frame = Bytes []"

datatype mpi_message =
    New_task new_task
  | Kill_request int int
  | Rank_finished int
  | All_finished

text \<open>The MPI tags of the messages.\<close>

primrec mpi_tag :: "mpi_message \<Rightarrow> int" where
  "mpi_tag (New_task _) = 42"
| "mpi_tag (Kill_request _ _) = 43"
| "mpi_tag (Rank_finished _) = 44"
| "mpi_tag All_finished = 45"

datatype runner_status = RUNNING | TIMEOUT

text \<open>
  A frame is sent with or without ZMQ\_SNDMORE. Launcher\_name, with the rank, is the first
  message to the launcher, Launcher\_stop that of the destructor of its connection.
\<close>

datatype action =
    Data_send frame bool
  | Config_send frame bool
  | Mpi_send int mpi_message
  | Launcher_notify int runner_status
  | Launcher_name int
  | Launcher_hello
  | Launcher_stop
  | Trigger string int

text \<open>ZeroMQ groups frames into messages: a frame sent without the flag ends its message.\<close>

fun multipart :: "frame list \<Rightarrow> (frame \<times> bool) list \<Rightarrow> frame list list" where
  "multipart acc [] = (if acc = [] then [] else [acc])"
| "multipart acc ((f, snd_more) # fs) =
     (if snd_more then multipart (acc @ [f]) fs else (acc @ [f]) # multipart [] fs)"

datatype phase = PHASE_INIT | PHASE_SIMULATION | PHASE_FINAL

type_synonym identity = "byte list"

text \<open>Message types of the data connection.\<close>

definition CHANGE_STATE :: int where "CHANGE_STATE = 0"
definition KEEP_STATE :: int where "KEEP_STATE = 1"
definition END_RUNNER :: int where "END_RUNNER = 2"
definition KILL_RUNNER :: int where "KILL_RUNNER = 4"

definition MAX_FAIL_COUNT :: int where
  "MAX_FAIL_COUNT = 5"

section \<open>The state of a rank\<close>

text \<open>
  \<open>'a\<close> is the state of the chosen assimilator. The sets of the code are sorted lists without
  duplicates, its maps ordered maps; an entry of \<open>idle_runners\<close> holds the identities of the
  connected ranks of a runner, \<open>None\<close> once the connection was answered. The last group models
  the environment: the frames waiting on the data socket, the MPI messages waiting by sender.
\<close>

record 'a server =
  comm_rank :: int
  comm_size :: int
  ENSEMBLE_SIZE :: int
  MAX_RUNNER_TIMEOUT :: int
  report_timing :: bool
  phase :: phase
  now :: int
  highest_received_task_id :: int
  highest_sent_task_id :: int
  task_id :: int
  launcher_notified_about_runner :: "(int, bool) om"
  IDENTITY_SIZE :: nat
  assimilation_cycles :: int
  current_step :: int
  current_nsteps :: int
  killed :: "task list"
  idle_runners :: "(int, (int, identity option) om) om"
  unscheduled_tasks :: "int list"
  failcount :: "int list"
  finished_ranks :: int
  scheduled_sub_tasks :: "sub_task list"
  running_sub_tasks :: "sub_task list"
  finished_sub_tasks :: "sub_task list"
  the_field :: field
  has_field :: bool
  register_field_flag :: bool
  global_index_map :: "(int \<times> int) list"
  global_index_map_hidden :: "(int \<times> int) list"
  the_assimilator :: 'a
  due_date_launcher :: int
  next_message_date_to_launcher :: int
  last_seconds_checks :: int
  data_socket :: "(frame \<times> bool) list"
  new_task_inbox :: "new_task list"
  kill_inbox :: "int \<Rightarrow> (int \<times> int) list"
  rank_finished_inbox :: "int \<Rightarrow> int list"
  all_finished_inbox :: nat
  out :: "action list"

type_synonym ('a, 'b) sres = "(err \<times> 'a server) + 'b"

definition fail_with :: "err \<Rightarrow> 'a server \<Rightarrow> ('a, 'b) sres" where
  "fail_with e s = Inl (e, s)"

definition ensure :: "bool \<Rightarrow> 'a server \<Rightarrow> ('a, 'b) sres \<Rightarrow> ('a, 'b) sres" where
  "ensure b s m = (if b then m else fail_with Assertion_failed s)"

definition lift :: "'a server \<Rightarrow> 'b res \<Rightarrow> ('a, 'b) sres" where
  "lift s m = (case m of Inl e \<Rightarrow> Inl (e, s) | Inr x \<Rightarrow> Inr x)"

definition emits :: "action list \<Rightarrow> 'a server \<Rightarrow> 'a server" where
  "emits as s = s\<lparr>out := out s @ as\<rparr>"

definition emit :: "action \<Rightarrow> 'a server \<Rightarrow> 'a server" where
  "emit a s = emits [a] s"

text \<open>M\_TRIGGER: only rank 0 is timed.\<close>

definition trigger :: "string \<Rightarrow> int \<Rightarrow> 'a server \<Rightarrow> 'a server" where
  "trigger ev p s = emits (if report_timing s \<and> comm_rank s = 0 then [Trigger ev p] else []) s"

lemma emits_fields [simp]:
  "comm_rank (emits as s) = comm_rank s"
  "comm_size (emits as s) = comm_size s"
  "ENSEMBLE_SIZE (emits as s) = ENSEMBLE_SIZE s"
  "MAX_RUNNER_TIMEOUT (emits as s) = MAX_RUNNER_TIMEOUT s"
  "report_timing (emits as s) = report_timing s"
  "phase (emits as s) = phase s"
  "now (emits as s) = now s"
  "highest_received_task_id (emits as s) = highest_received_task_id s"
  "highest_sent_task_id (emits as s) = highest_sent_task_id s"
  "task_id (emits as s) = task_id s"
  "launcher_notified_about_runner (emits as s) = launcher_notified_about_runner s"
  "IDENTITY_SIZE (emits as s) = IDENTITY_SIZE s"
  "assimilation_cycles (emits as s) = assimilation_cycles s"
  "current_step (emits as s) = current_step s"
  "current_nsteps (emits as s) = current_nsteps s"
  "killed (emits as s) = killed s"
  "idle_runners (emits as s) = idle_runners s"
  "unscheduled_tasks (emits as s) = unscheduled_tasks s"
  "failcount (emits as s) = failcount s"
  "finished_ranks (emits as s) = finished_ranks s"
  "scheduled_sub_tasks (emits as s) = scheduled_sub_tasks s"
  "running_sub_tasks (emits as s) = running_sub_tasks s"
  "finished_sub_tasks (emits as s) = finished_sub_tasks s"
  "the_field (emits as s) = the_field s"
  "has_field (emits as s) = has_field s"
  "register_field_flag (emits as s) = register_field_flag s"
  "global_index_map (emits as s) = global_index_map s"
  "global_index_map_hidden (emits as s) = global_index_map_hidden s"
  "the_assimilator (emits as s) = the_assimilator s"
  "due_date_launcher (emits as s) = due_date_launcher s"
  "next_message_date_to_launcher (emits as s) = next_message_date_to_launcher s"
  "last_seconds_checks (emits as s) = last_seconds_checks s"
  "data_socket (emits as s) = data_socket s"
  "new_task_inbox (emits as s) = new_task_inbox s"
  "kill_inbox (emits as s) = kill_inbox s"
  "rank_finished_inbox (emits as s) = rank_finished_inbox s"
  "all_finished_inbox (emits as s) = all_finished_inbox s"
  "out (emits as s) = out s @ as"
  by (simp_all add: emits_def)

lemma emits_emits [simp]: "emits bs (emits as s) = emits (as @ bs) s"
  and emits_Nil [simp]: "emits [] s = s"
  by (simp_all add: emits_def)

text \<open>Effects are recorded last: every update of the state commutes with them.\<close>

lemma emits_update:
  "(emits as s)\<lparr>idle_runners := i\<rparr> = emits as (s\<lparr>idle_runners := i\<rparr>)"
  "(emits as s)\<lparr>running_sub_tasks := l\<rparr> = emits as (s\<lparr>running_sub_tasks := l\<rparr>)"
  "(emits as s)\<lparr>scheduled_sub_tasks := l\<rparr> = emits as (s\<lparr>scheduled_sub_tasks := l\<rparr>)"
  "(emits as s)\<lparr>finished_sub_tasks := l\<rparr> = emits as (s\<lparr>finished_sub_tasks := l\<rparr>)"
  "(emits as s)\<lparr>killed := k\<rparr> = emits as (s\<lparr>killed := k\<rparr>)"
  "(emits as s)\<lparr>unscheduled_tasks := u\<rparr> = emits as (s\<lparr>unscheduled_tasks := u\<rparr>)"
  by (simp_all add: emits_def)

lemma emit_emits: "emit a s = emits [a] s"
  by (simp add: emit_def)

lemma trigger_emits: "\<exists>as. trigger ev p s = emits as s"
  unfolding trigger_def by blast

lemma trigger_fields [simp]:
  "comm_rank (trigger ev p s) = comm_rank s"
  "comm_size (trigger ev p s) = comm_size s"
  "ENSEMBLE_SIZE (trigger ev p s) = ENSEMBLE_SIZE s"
  "MAX_RUNNER_TIMEOUT (trigger ev p s) = MAX_RUNNER_TIMEOUT s"
  "report_timing (trigger ev p s) = report_timing s"
  "phase (trigger ev p s) = phase s"
  "now (trigger ev p s) = now s"
  "highest_received_task_id (trigger ev p s) = highest_received_task_id s"
  "highest_sent_task_id (trigger ev p s) = highest_sent_task_id s"
  "task_id (trigger ev p s) = task_id s"
  "launcher_notified_about_runner (trigger ev p s) = launcher_notified_about_runner s"
  "IDENTITY_SIZE (trigger ev p s) = IDENTITY_SIZE s"
  "assimilation_cycles (trigger ev p s) = assimilation_cycles s"
  "current_step (trigger ev p s) = current_step s"
  "current_nsteps (trigger ev p s) = current_nsteps s"
  "killed (trigger ev p s) = killed s"
  "idle_runners (trigger ev p s) = idle_runners s"
  "unscheduled_tasks (trigger ev p s) = unscheduled_tasks s"
  "failcount (trigger ev p s) = failcount s"
  "finished_ranks (trigger ev p s) = finished_ranks s"
  "scheduled_sub_tasks (trigger ev p s) = scheduled_sub_tasks s"
  "running_sub_tasks (trigger ev p s) = running_sub_tasks s"
  "finished_sub_tasks (trigger ev p s) = finished_sub_tasks s"
  "the_field (trigger ev p s) = the_field s"
  "has_field (trigger ev p s) = has_field s"
  "register_field_flag (trigger ev p s) = register_field_flag s"
  "global_index_map (trigger ev p s) = global_index_map s"
  "global_index_map_hidden (trigger ev p s) = global_index_map_hidden s"
  "the_assimilator (trigger ev p s) = the_assimilator s"
  "due_date_launcher (trigger ev p s) = due_date_launcher s"
  "next_message_date_to_launcher (trigger ev p s) = next_message_date_to_launcher s"
  "last_seconds_checks (trigger ev p s) = last_seconds_checks s"
  "data_socket (trigger ev p s) = data_socket s"
  "new_task_inbox (trigger ev p s) = new_task_inbox s"
  "kill_inbox (trigger ev p s) = kill_inbox s"
  "rank_finished_inbox (trigger ev p s) = rank_finished_inbox s"
  "all_finished_inbox (trigger ev p s) = all_finished_inbox s"
  by (simp_all add: trigger_def)

definition get_due_date :: "'a server \<Rightarrow> int" where
  "get_due_date s = int32 (now s + MAX_RUNNER_TIMEOUT s)"

lemma ensure_Inr_iff [simp]: "ensure b s m = Inr x \<longleftrightarrow> b \<and> m = Inr x"
  by (simp add: ensure_def fail_with_def)

lemma ensure_True [simp]: "ensure True s m = m"
  and ensure_False [simp]: "ensure False s m = Inl (Assertion_failed, s)"
  by (simp_all add: ensure_def fail_with_def)

lemma lift_Inr_iff [simp]: "lift s m = Inr x \<longleftrightarrow> m = Inr x"
  by (simp add: lift_def split: sum.splits)

lemma lift_simps [simp]:
  "lift s (Inr x) = Inr x"
  "lift s (Inl e) = Inl (e, s)"
  by (simp_all add: lift_def)

lemma fail_with_neq_Inr [simp]: "fail_with e s \<noteq> Inr x"
  by (simp add: fail_with_def)

section \<open>Runner connections\<close>

text \<open>The frames launch\_sub\_task answers a runner rank with.\<close>

definition launch_header_frames :: "identity \<Rightarrow> int list \<Rightarrow> action list" where
  "launch_header_frames ident header =
     [Data_send (Bytes ident) True, Data_send empty_frame True, Data_send (Ints header) True]"

definition launch_data_frames :: "byte list \<Rightarrow> byte list option \<Rightarrow> action list" where
  "launch_data_frames values hidden =
     (case hidden of
        None \<Rightarrow> [Data_send (Bytes values) False]
      | Some h \<Rightarrow> [Data_send (Bytes values) True, Data_send (Bytes h) False])"

definition at :: "'b list \<Rightarrow> int \<Rightarrow> 'b res" where
  "at xs i = (if 0 \<le> i \<and> nat i < length xs then Inr (xs ! nat i) else Inl Out_of_range)"

definition read_vec :: "part \<Rightarrow> byte list \<Rightarrow> byte list res" where
  "read_vec p xs =
     (if length xs < local_offset_server p + send_count p then Inl Undefined_behaviour
      else Inr (subvec (local_offset_server p) (send_count p) xs))"

definition read_hidden :: "part \<Rightarrow> byte list \<Rightarrow> byte list option res" where
  "read_hidden h xs =
     (if send_count h > 0 then and_then (read_vec h xs) (\<lambda>x. Inr (Some x)) else Inr None)"

definition launch_sub_task :: "identity option \<Rightarrow> int \<Rightarrow> int \<Rightarrow> 'a server \<Rightarrow> ('a, 'a server) sres" where
  "launch_sub_task ident rrank sid s =
     ensure (ident \<noteq> None) s
      (let s = emits (launch_header_frames (the ident)
                       [sid, current_step s, CHANGE_STATE, current_nsteps s]) s in
       and_then (lift s (getPart (comm_rank s) rrank (the_field s))) (\<lambda>p.
       and_then (lift s (at (ensemble_members (the_field s)) sid)) (\<lambda>em.
       and_then (lift s (read_vec p (state_analysis em))) (\<lambda>values.
       let s = (if rrank = 0 then trigger ''START_PROPAGATE_STATE'' sid s else s) in
       and_then (lift s (getPartHidden (comm_rank s) rrank (the_field s))) (\<lambda>h.
       and_then (lift s (read_hidden h (state_hidden em))) (\<lambda>hidden.
       Inr (emits (launch_data_frames values hidden) s)))))))"

definition stop_frames :: "identity \<Rightarrow> int \<Rightarrow> int \<Rightarrow> action list" where
  "stop_frames ident step end_flag =
     [Data_send (Bytes ident) False, Data_send empty_frame True,
      Data_send (Ints [-1, step, end_flag, 0]) False]"

definition stop_connection :: "int \<Rightarrow> identity option \<Rightarrow> 'a server \<Rightarrow> 'a server" where
  "stop_connection end_flag ident s =
     (case ident of
        None \<Rightarrow> s
      | Some i \<Rightarrow> emits (stop_frames i (current_step s) end_flag) s)"

text \<open>Runner::stop answers every connected rank and forgets the identities.\<close>

definition stop_runner :: "int \<Rightarrow> (int, identity option) om \<Rightarrow> 'a server \<Rightarrow> 'a server" where
  "stop_runner end_flag conns s = fold (\<lambda>(_, ident). stop_connection end_flag ident) conns s"

definition stopped :: "(int, identity option) om \<Rightarrow> (int, identity option) om" where
  "stopped conns = map (\<lambda>(r, _). (r, None)) conns"

text \<open>
  Erasing a runner from \<open>idle_runners\<close> destroys it: the destructor sends KILL\_RUNNER to the
  ranks that are still connected.
\<close>

definition erase_idle_runner :: "int \<Rightarrow> 'a server \<Rightarrow> 'a server" where
  "erase_idle_runner r s =
     (case map_of (idle_runners s) r of
        None \<Rightarrow> s
      | Some conns \<Rightarrow> stop_runner KILL_RUNNER conns (s\<lparr>idle_runners := om_erase r (idle_runners s)\<rparr>))"

definition completely_idle :: "'a server \<Rightarrow> (int, identity option) om \<Rightarrow> bool" where
  "completely_idle s conns \<longleftrightarrow> length conns = length (connected_runner_ranks (the_field s))"

definition get_completely_idle_runner :: "'a server \<Rightarrow> int option" where
  "get_completely_idle_runner s =
     map_option fst (find (\<lambda>(_, conns). completely_idle s conns) (idle_runners s))"

section \<open>What the connection operations change\<close>

text \<open>Launching and stopping only send.\<close>

lemma launch_sub_task_emits:
  assumes "launch_sub_task ident r sid s = Inr s'"
  shows "\<exists>as. s' = emits as s"
  using assms by (auto simp: launch_sub_task_def and_then_Inr_iff Let_def trigger_def)

lemma launch_sub_task_fields:
  "launch_sub_task ident r sid s = Inr s' \<Longrightarrow> idle_runners s' = idle_runners s"
  by (auto dest!: launch_sub_task_emits)

lemma stop_connection_emits: "\<exists>as. stop_connection flag ident s = emits as s"
  by (cases ident) (auto simp: stop_connection_def intro: exI [of _ "[]"])

lemma fold_emits:
  assumes "\<And>x s. \<exists>as. f x s = emits as s"
  shows "\<exists>as. fold f xs s = emits as s"
proof (induction xs arbitrary: s)
  case Nil
  show ?case by (rule exI [of _ "[]"]) simp
next
  case (Cons x xs)
  from assms obtain as where as: "f x s = emits as s" by blast
  from Cons.IH obtain bs where "fold f xs (emits as s) = emits bs (emits as s)" by blast
  with as show ?case by auto
qed

text \<open>The frames that stopping a runner sends.\<close>

definition conn_frames :: "int \<Rightarrow> int \<Rightarrow> identity option \<Rightarrow> action list" where
  "conn_frames step flag ident = (case ident of None \<Rightarrow> [] | Some i \<Rightarrow> stop_frames i step flag)"

definition stop_all_frames :: "int \<Rightarrow> int \<Rightarrow> (int, identity option) om \<Rightarrow> action list" where
  "stop_all_frames step flag conns = concat (map (\<lambda>(_, ident). conn_frames step flag ident) conns)"

lemma stop_connection_eq: "stop_connection flag ident s = emits (conn_frames (current_step s) flag ident) s"
  by (simp add: stop_connection_def conn_frames_def split: option.splits)

lemma stop_runner_eq: "stop_runner flag conns s = emits (stop_all_frames (current_step s) flag conns) s"
proof (induction conns arbitrary: s)
  case Nil
  then show ?case by (simp add: stop_runner_def stop_all_frames_def)
next
  case (Cons c conns)
  then show ?case
    by (simp add: stop_runner_def stop_all_frames_def split_def stop_connection_eq)
qed

definition kill_frames :: "int \<Rightarrow> int \<Rightarrow> (int, (int, identity option) om) om \<Rightarrow> action list" where
  "kill_frames r step idle =
     (case map_of idle r of None \<Rightarrow> [] | Some conns \<Rightarrow> stop_all_frames step KILL_RUNNER conns)"

lemma erase_idle_runner_eq:
  "erase_idle_runner r s = emits (kill_frames r (current_step s) (idle_runners s))
     (s\<lparr>idle_runners := om_erase r (idle_runners s)\<rparr>)"
proof (cases "map_of (idle_runners s) r")
  case None
  then have "om_erase r (idle_runners s) = idle_runners s"
    by (auto simp: om_erase_def filter_id_conv map_of_eq_None_iff)
  with None show ?thesis by (simp add: erase_idle_runner_def kill_frames_def)
next
  case (Some conns)
  then show ?thesis by (simp add: erase_idle_runner_def kill_frames_def stop_runner_eq)
qed

end
