(* ===== verification/Scheduler.thy ===== *)
theory Scheduler
  imports ServerState
begin

text \<open>
  The task scheduler of the server (server/server.cxx): sub tasks are scheduled on runners,
  launched on their connected ranks, killed when their due date passes and scheduled again.
\<close>

section \<open>Launching sub tasks\<close>

text \<open>The connections left after the rank of the sub task was answered.\<close>

definition idle_after :: "sub_task \<Rightarrow> (int, identity option) om \<Rightarrow> (int, (int, identity option) om) om \<Rightarrow>
    (int, (int, identity option) om) om" where
  "idle_after st conns idle =
     (if om_erase (runner_rank st) conns = [] then om_erase (runner_id st) idle
      else om_assign (runner_id st) (om_erase (runner_rank st) conns) idle)"

text \<open>The result says whether the sub task could be sent on a connection.\<close>

definition try_launch_subtask :: "sub_task \<Rightarrow> 'a server \<Rightarrow> ('a, bool \<times> 'a server) sres" where
  "try_launch_subtask st s =
     (case map_of (idle_runners s) (runner_id st) of
        None \<Rightarrow> Inr (False, s)
      | Some conns \<Rightarrow>
          (case map_of conns (runner_rank st) of
             None \<Rightarrow> Inr (False, s)
           | Some ident \<Rightarrow>
               and_then (launch_sub_task ident (runner_rank st) (state_id st) s) (\<lambda>s.
               let s = s\<lparr>idle_runners := idle_after st conns (idle_runners s)\<rparr> in
               Inr (True, if runner_rank st = 0
                          then trigger ''STOP_IDLE_RUNNER'' (runner_id st) s else s))))"

fun add_sub_tasks_loop :: "new_task \<Rightarrow> int list \<Rightarrow> 'a server \<Rightarrow> ('a, 'a server) sres" where
  "add_sub_tasks_loop nt [] s = Inr s"
| "add_sub_tasks_loop nt (r # rs) s =
     and_then (try_launch_subtask (SubTask nt r) s) (\<lambda>(launched, s).
     add_sub_tasks_loop nt rs
       (if launched then s\<lparr>running_sub_tasks := running_sub_tasks s @ [SubTask nt r]\<rparr>
        else s\<lparr>scheduled_sub_tasks := scheduled_sub_tasks s @ [SubTask nt r]\<rparr>))"

definition add_sub_tasks :: "new_task \<Rightarrow> 'a server \<Rightarrow> ('a, 'a server) sres" where
  "add_sub_tasks nt s =
     ensure (nt_state_id nt \<in> set (unscheduled_tasks s)) s
      (let s = s\<lparr>unscheduled_tasks := filter (\<lambda>i. i \<noteq> nt_state_id nt) (unscheduled_tasks s)\<rparr> in
       ensure (connected_runner_ranks (the_field s) \<noteq> []) s
        (add_sub_tasks_loop nt (connected_runner_ranks (the_field s)) s))"

text \<open>Rank 0 gives the first unscheduled state to a runner and tells every other rank.\<close>

definition schedule_new_task :: "int \<Rightarrow> 'a server \<Rightarrow> ('a, bool \<times> 'a server) sres" where
  "schedule_new_task r s =
     ensure (comm_rank s = 0) s
      (case unscheduled_tasks s of
         [] \<Rightarrow> Inr (False, s)
       | sid # _ \<Rightarrow>
           let s = s\<lparr>task_id := task_id s + 1\<rparr>;
               nt = \<lparr>nt_runner_id = r, nt_state_id = sid, nt_due_date = get_due_date s,
                     nt_task_id = task_id s\<rparr>;
               s = s\<lparr>finished_ranks := 0\<rparr>
           in and_then (add_sub_tasks nt s) (\<lambda>s.
              Inr (True, emits (map (\<lambda>k. Mpi_send k (New_task nt)) [1..comm_size s - 1]) s)))"

section \<open>Killing tasks\<close>

definition remove_task :: "task \<Rightarrow> sub_task list \<Rightarrow> sub_task list" where
  "remove_task t sts = filter (\<lambda>st. \<not> (state_id st = task_state_id t \<and> runner_id st = task_runner_id t)) sts"

definition kill_task :: "task \<Rightarrow> 'a server \<Rightarrow> 'a server" where
  "kill_task t s =
     (let s = s\<lparr>unscheduled_tasks := insort_insert (task_state_id t) (unscheduled_tasks s)\<rparr>;
          s = erase_idle_runner (task_runner_id t) s
      in s\<lparr>killed := insort_insert t (killed s),
           running_sub_tasks := remove_task t (running_sub_tasks s),
           finished_sub_tasks := remove_task t (finished_sub_tasks s),
           scheduled_sub_tasks := remove_task t (scheduled_sub_tasks s)\<rparr>)"

text \<open>
  The predicate check\_schedule\_new\_tasks removes sub tasks with: a sub task of the state that
  is scheduled anew shows that its runner was killed.
\<close>

definition outdated :: "int \<Rightarrow> sub_task \<Rightarrow> 'a server \<Rightarrow> 'a server" where
  "outdated sid st s =
     (if state_id st \<noteq> sid \<or> task_of st \<in> set (killed s) then s
      else
        let s = s\<lparr>killed := insort_insert (task_of st) (killed s),
                  unscheduled_tasks := insort_insert (state_id st) (unscheduled_tasks s)\<rparr>;
            s = erase_idle_runner (runner_id st) s
        in s\<lparr>killed := insort_insert (task_of st) (killed s)\<rparr>)"

definition keep_other_states :: "int \<Rightarrow> sub_task list \<Rightarrow> sub_task list" where
  "keep_other_states sid sts = filter (\<lambda>st. state_id st \<noteq> sid) sts"

definition forget_state :: "int \<Rightarrow> 'a server \<Rightarrow> 'a server" where
  "forget_state sid s =
     (let s = (fold (outdated sid) (scheduled_sub_tasks s) s)
                \<lparr>scheduled_sub_tasks := keep_other_states sid (scheduled_sub_tasks s)\<rparr>;
          s = (fold (outdated sid) (running_sub_tasks s) s)
                \<lparr>running_sub_tasks := keep_other_states sid (running_sub_tasks s)\<rparr>
      in (fold (outdated sid) (finished_sub_tasks s) s)
           \<lparr>finished_sub_tasks := keep_other_states sid (finished_sub_tasks s)\<rparr>)"

definition check_schedule_new_tasks :: "'a server \<Rightarrow> ('a, 'a server) sres" where
  "check_schedule_new_tasks s =
     ensure (comm_rank s \<noteq> 0) s
      (case new_task_inbox s of
         [] \<Rightarrow> Inr s
       | nt # rest \<Rightarrow>
           add_sub_tasks nt (forget_state (nt_state_id nt)
             (s\<lparr>new_task_inbox := rest,
                highest_received_task_id := max (nt_task_id nt) (highest_received_task_id s)\<rparr>)))"

section \<open>Ending runners, time steps\<close>

definition stop_all_runners :: "int \<Rightarrow> 'a server \<Rightarrow> 'a server" where
  "stop_all_runners flag s =
     (fold (\<lambda>(_, conns). stop_runner flag conns) (idle_runners s) s)
       \<lparr>idle_runners := map (\<lambda>(r, conns). (r, stopped conns)) (idle_runners s)\<rparr>"

definition end_all_runners :: "'a server \<Rightarrow> 'a server" where
  "end_all_runners s = stop_all_runners END_RUNNER s"

definition kill_all_runners :: "'a server \<Rightarrow> 'a server" where
  "kill_all_runners s = stop_all_runners KILL_RUNNER s"

definition trigger_idle :: "string \<Rightarrow> 'a server \<Rightarrow> 'a server" where
  "trigger_idle ev s = fold (\<lambda>(r, _). trigger ev r) (idle_runners s) s"

definition all_finished_size :: "'a server \<Rightarrow> bool" where
  "all_finished_size s \<longleftrightarrow> int (length (finished_sub_tasks s)) =
     ENSEMBLE_SIZE s * int (length (connected_runner_ranks (the_field s)))"

definition init_new_timestep :: "'a server \<Rightarrow> ('a, 'a server) sres" where
  "init_new_timestep s =
     ensure (assimilation_cycles s = 0 \<or> all_finished_size s) s
      (ensure (scheduled_sub_tasks s = []) s
       (ensure (running_sub_tasks s = []) s
        (let s = s\<lparr>finished_sub_tasks := [], highest_received_task_id := 0,
                   highest_sent_task_id := 0, task_id := 1,
                   current_step := current_step s + current_nsteps s\<rparr>;
             s = trigger ''START_ITERATION'' (current_step s) s;
             s = trigger_idle ''START_IDLE_RUNNER'' s
         in ensure (unscheduled_tasks s = []) s
             (Inr (s\<lparr>unscheduled_tasks := [0..ENSEMBLE_SIZE s - 1],
                     failcount := map (\<lambda>_. 0) (failcount s)\<rparr>)))))"

section \<open>Due dates\<close>

text \<open>A state that failed too often ends the server; the launcher is told by the destructor.\<close>

definition fail_state :: "int \<Rightarrow> 'a server \<Rightarrow> ('a, 'a server) sres" where
  "fail_state sid s =
     ensure (comm_rank s = 0) s
      (and_then (lift s (at (failcount s) sid)) (\<lambda>n.
       let s = s\<lparr>failcount := (failcount s)[nat sid := n + 1]\<rparr> in
       if n + 1 > MAX_FAIL_COUNT then fail_with (Exit 1) (emit Launcher_stop s)
       else Inr s))"

definition reset_due_dates :: "'a server \<Rightarrow> 'a server" where
  "reset_due_dates s =
     s\<lparr>scheduled_sub_tasks := map (\<lambda>st. st\<lparr>due_date := get_due_date s\<rparr>) (scheduled_sub_tasks s)\<rparr>"

definition overdue :: "'a server \<Rightarrow> task list" where
  "overdue s = fold (insort_insert \<circ> task_of)
     (filter (\<lambda>st. now s > due_date st) (scheduled_sub_tasks s @ running_sub_tasks s)) []"

text \<open>
  The runner that is completely idle is looked for, but the first entry of \<open>idle_runners\<close> is
  scheduled on.
\<close>

definition reschedule_directly :: "'a server \<Rightarrow> ('a, 'a server) sres" where
  "reschedule_directly s =
     (case get_completely_idle_runner s of
        None \<Rightarrow> Inr s
      | Some _ \<Rightarrow> and_then (schedule_new_task (fst (hd (idle_runners s))) s) (\<lambda>(_, s). Inr s))"

definition due_date_passed :: "task \<Rightarrow> 'a server \<Rightarrow> ('a, 'a server) sres" where
  "due_date_passed t s =
     (let s = kill_task t s in
      if comm_rank s = 0 then
        let s = trigger ''REMOVE_RUNNER'' (task_runner_id t) s;
            s = emit (Launcher_notify (task_runner_id t) TIMEOUT) s
        in and_then (fail_state (task_state_id t) s) reschedule_directly
      else Inr (emit (Mpi_send 0 (Kill_request (task_state_id t) (task_runner_id t))) s))"

fun due_dates_loop :: "task list \<Rightarrow> 'a server \<Rightarrow> ('a, 'a server) sres" where
  "due_dates_loop [] s = Inr s"
| "due_dates_loop (t # ts) s = and_then (due_date_passed t s) (due_dates_loop ts)"

definition check_due_dates :: "'a server \<Rightarrow> ('a, 'a server) sres" where
  "check_due_dates s = due_dates_loop (overdue s) s"

text \<open>The launcher is notified in the block that is only compiled with REPORT\_TIMING.\<close>

definition handle_kill_request :: "task \<Rightarrow> 'a server \<Rightarrow> ('a, 'a server) sres" where
  "handle_kill_request t s =
     (let s = (if report_timing s \<and> task_runner_id t \<notin> task_runner_id ` set (killed s)
               then emit (Launcher_notify (task_runner_id t) TIMEOUT)
                      (trigger ''REMOVE_RUNNER'' (task_runner_id t) s)
               else s)
      in if t \<in> set (killed s) then Inr s
         else and_then (fail_state (task_state_id t) (s\<lparr>killed := insort_insert t (killed s)\<rparr>)) (\<lambda>s.
              reschedule_directly (kill_task t s)))"

fun kill_requests_loop :: "int list \<Rightarrow> 'a server \<Rightarrow> ('a, 'a server) sres" where
  "kill_requests_loop [] s = Inr s"
| "kill_requests_loop (detector # ds) s =
     (case kill_inbox s detector of
        [] \<Rightarrow> kill_requests_loop ds s
      | (sid, r) # rest \<Rightarrow>
          and_then (handle_kill_request (Task sid r)
                     (s\<lparr>kill_inbox := (kill_inbox s)(detector := rest)\<rparr>))
            (kill_requests_loop ds))"

definition check_kill_requests :: "'a server \<Rightarrow> ('a, 'a server) sres" where
  "check_kill_requests s =
     ensure (comm_rank s = 0) s (kill_requests_loop [1..comm_size s - 1] s)"

section \<open>What launching changes\<close>

lemma try_launch_subtask_cases:
  assumes "try_launch_subtask st s = Inr (b, s')"
  obtains (kept) "\<not> b" "s' = s"
  | (launched) conns ident s1 as where "b" "map_of (idle_runners s) (runner_id st) = Some conns"
      "map_of conns (runner_rank st) = Some ident"
      "launch_sub_task ident (runner_rank st) (state_id st) s = Inr s1"
      "s' = emits as (s1\<lparr>idle_runners := idle_after st conns (idle_runners s)\<rparr>)"
proof (cases "map_of (idle_runners s) (runner_id st)")
  case None
  with assms kept show ?thesis by (simp add: try_launch_subtask_def)
next
  case (Some conns)
  show ?thesis
  proof (cases "map_of conns (runner_rank st)")
    case None
    with Some assms kept show ?thesis by (simp add: try_launch_subtask_def)
  next
    case (Some ident)
    let ?after = "\<lambda>s1. s1\<lparr>idle_runners := idle_after st conns (idle_runners s1)\<rparr>"
    from Some \<open>map_of (idle_runners s) (runner_id st) = Some conns\<close> assms
    have "and_then (launch_sub_task ident (runner_rank st) (state_id st) s) (\<lambda>s1. Inr (True,
        if runner_rank st = 0 then trigger ''STOP_IDLE_RUNNER'' (runner_id st) (?after s1)
        else ?after s1)) = Inr (b, s')"
      by (simp add: try_launch_subtask_def Let_def)
    then obtain s1 where l: "launch_sub_task ident (runner_rank st) (state_id st) s = Inr s1" and b: b
        and s': "s' = (if runner_rank st = 0 then trigger ''STOP_IDLE_RUNNER'' (runner_id st) (?after s1)
          else ?after s1)"
      unfolding and_then_Inr_iff by blast
    obtain as where as: "s' = emits as (?after s1)"
    proof (cases "runner_rank st = 0")
      case True
      with s' trigger_emits that show thesis by (metis (no_types))
    next
      case False
      with s' that [of "[]"] show thesis by simp
    qed
    then show ?thesis
      using launched [OF b \<open>map_of (idle_runners s) (runner_id st) = Some conns\<close> Some l]
        launch_sub_task_fields [OF l] by simp
  qed
qed

lemma try_launch_subtask_emits:
  assumes "try_launch_subtask st s = Inr (b, s')"
  shows "\<exists>as idle. s' = emits as (s\<lparr>idle_runners := idle\<rparr>)"
  using assms
proof (cases rule: try_launch_subtask_cases)
  case kept
  then have "s' = emits [] (s\<lparr>idle_runners := idle_runners s\<rparr>)" by simp
  then show ?thesis by blast
next
  case (launched conns ident s1 as)
  from launched(4) obtain bs where "s1 = emits bs s" by (auto dest: launch_sub_task_emits)
  with launched(5) have "s' = emits (bs @ as) (s\<lparr>idle_runners := idle_after st conns (idle_runners s)\<rparr>)"
    by (simp add: emits_update)
  then show ?thesis by blast
qed

end
