(* ===== verification/Assimilator.thy ===== *)
theory Assimilator
  imports Field
begin

text \<open>
  The assimilators (server/Assimilator.h and its subclasses). The server reaches them through
  the virtual methods on\_init\_state, do\_update\_step and getNSteps; the locale states what it
  relies on. Arithmetic on doubles and the PDAF library, which are not part of the program, are
  parameters. Python assimilators are in a theory of their own.
\<close>

record 'a assimilator_ops =
  on_init_state :: "int \<Rightarrow> part \<Rightarrow> byte list option \<Rightarrow> part \<Rightarrow> byte list option \<Rightarrow> 'a \<Rightarrow> field \<Rightarrow>
    ('a \<times> field) res"
  do_update_step :: "int \<Rightarrow> 'a \<Rightarrow> field \<Rightarrow> (int \<times> 'a \<times> field) res"
  getNSteps :: "'a \<Rightarrow> int"

text \<open>The contract: an assimilator changes the contents of the members and nothing else.\<close>

locale assimilator =
  fixes ops :: "'a assimilator_ops"
  assumes init_shape:
      "on_init_state ops r p v h vh a f = Inr (a', f') \<Longrightarrow> same_shape f f'"
    and update_shape: "do_update_step ops step a f = Inr (n, a', f') \<Longrightarrow> same_shape f f'"
begin

lemma init_field_ready:
  "on_init_state ops r p v h vh a f = Inr (a', f') \<Longrightarrow> field_ready c f \<Longrightarrow> field_ready c f'"
  using init_shape same_shape_fields(3) by blast

lemma update_field_ready:
  "do_update_step ops step a f = Inr (n, a', f') \<Longrightarrow> field_ready c f \<Longrightarrow> field_ready c f'"
  using update_shape same_shape_fields(3) by blast

end

text \<open>The default on\_init\_state does nothing.\<close>

definition ignore_init_state :: "int \<Rightarrow> part \<Rightarrow> byte list option \<Rightarrow> part \<Rightarrow> byte list option \<Rightarrow> 'a \<Rightarrow>
    field \<Rightarrow> ('a \<times> field) res" where
  "ignore_init_state r p v h vh a f = Inr (a, f)"

datatype assimilator_type =
    ASSIMILATOR_DUMMY
  | ASSIMILATOR_PDAF
  | ASSIMILATOR_EMPTY
  | ASSIMILATOR_CHECK_STATELESS
  | ASSIMILATOR_PRINT_INDEX_MAP
  | ASSIMILATOR_WRF
  | ASSIMILATOR_PYTHON

record stepper =
  nsteps :: int
  total_steps :: int

definition next_nsteps :: "int \<Rightarrow> stepper \<Rightarrow> int" where
  "next_nsteps current_step a = (if current_step \<ge> total_steps a then -1 else nsteps a)"

definition update_members :: "(ensemble_member list \<Rightarrow> ensemble_member list) \<Rightarrow> field \<Rightarrow> field" where
  "update_members g f = f\<lparr>ensemble_members := g (ensemble_members f)\<rparr>"

section \<open>EmptyAssimilator, PrintIndexMapAssimilator\<close>

definition zero_analysis :: "ensemble_member \<Rightarrow> ensemble_member" where
  "zero_analysis em = em\<lparr>state_analysis := replicate (length (state_analysis em)) 0\<rparr>"

definition new_EmptyAssimilator :: "int \<Rightarrow> field \<Rightarrow> stepper \<times> field" where
  "new_EmptyAssimilator steps f = (\<lparr>nsteps = 1, total_steps = steps\<rparr>, update_members (map zero_analysis) f)"

definition empty_do_update_step :: "int \<Rightarrow> stepper \<Rightarrow> field \<Rightarrow> (int \<times> stepper \<times> field) res" where
  "empty_do_update_step current_step a f = Inr (next_nsteps current_step a, a, f)"

definition empty_ops :: "stepper assimilator_ops" where
  "empty_ops = \<lparr>on_init_state = ignore_init_state, do_update_step = empty_do_update_step, getNSteps = nsteps\<rparr>"

interpretation empty: assimilator empty_ops
  by unfold_locales (auto simp: empty_ops_def ignore_init_state_def empty_do_update_step_def)

text \<open>The displacements gather\_and\_print computes for MPI\_Gatherv, and the map rank 0 prints.\<close>

fun displacements :: "nat \<Rightarrow> nat list \<Rightarrow> nat list" where
  "displacements last_displ [] = []"
| "displacements last_displ (n # ns) = last_displ # displacements (last_displ + n) ns"

definition gather_and_print :: "(int \<times> int) list list \<Rightarrow> (int \<times> int) list" where
  "gather_and_print local_index_maps =
     (let sizes = map length local_index_maps;
          global_index_map = replicate (sum_list sizes) (0, 0)
      in fold (\<lambda>(displ, m) g. copy_into displ m g)
           (zip (displacements 0 sizes) local_index_maps) global_index_map)"

definition print_do_update_step :: "int \<Rightarrow> stepper \<Rightarrow> field \<Rightarrow> (int \<times> stepper \<times> field) res" where
  "print_do_update_step current_step a f = Inr (-1, a, f)"

definition print_ops :: "stepper assimilator_ops" where
  "print_ops = \<lparr>on_init_state = ignore_init_state, do_update_step = print_do_update_step, getNSteps = nsteps\<rparr>"

interpretation print: assimilator print_ops
  by unfold_locales (auto simp: print_ops_def ignore_init_state_def print_do_update_step_def)

section \<open>DummyAssimilator\<close>

text \<open>Doubles are 64 bit patterns, little endian in the state vector.\<close>

definition double_at :: "byte list \<Rightarrow> nat \<Rightarrow> 64 word" where
  "double_at xs i = word_of_int (horner_sum uint 256 (subvec (8 * i) 8 xs))"

definition double_bytes :: "64 word \<Rightarrow> byte list" where
  "double_bytes d = map (\<lambda>k. ucast (drop_bit (8 * k) d)) [0..<8]"

lemma length_double_bytes [simp]: "length (double_bytes d) = 8"
  by (simp add: double_bytes_def)

definition dummy_analysis ::
  "(64 word \<Rightarrow> 64 word \<Rightarrow> 64 word) \<Rightarrow> (int \<Rightarrow> 64 word) \<Rightarrow> int \<Rightarrow> byte list \<Rightarrow> byte list \<Rightarrow> byte list \<Rightarrow> byte list"
where
  "dummy_analysis dadd dint sid bg neighbor an =
     concat (map (\<lambda>i. double_bytes (dadd (dadd (double_at bg i) (dint sid)) (double_at neighbor i)))
               [0..<length an div 8]) @ drop (8 * (length an div 8)) an"

fun dummy_members ::
  "(64 word \<Rightarrow> 64 word \<Rightarrow> 64 word) \<Rightarrow> (int \<Rightarrow> 64 word) \<Rightarrow> int \<Rightarrow> byte list \<Rightarrow> ensemble_member list \<Rightarrow>
     ensemble_member list res"
where
  "dummy_members dadd dint sid neighbor [] = Inr []"
| "dummy_members dadd dint sid neighbor (em # ems) =
     assert_then (length (state_analysis em) = length (state_background em))
      (if length neighbor < 8 * (length (state_analysis em) div 8) then Inl Undefined_behaviour
       else
         and_then (dummy_members dadd dint (sid + 1) (state_background em) ems) (\<lambda>ems'.
         Inr (em\<lparr>state_analysis := dummy_analysis dadd dint sid (state_background em) neighbor
                                    (state_analysis em)\<rparr> # ems')))"

definition dummy_do_update_step ::
  "(64 word \<Rightarrow> 64 word \<Rightarrow> 64 word) \<Rightarrow> (int \<Rightarrow> 64 word) \<Rightarrow> int \<Rightarrow> stepper \<Rightarrow> field \<Rightarrow> (int \<times> stepper \<times> field) res"
where
  "dummy_do_update_step dadd dint current_step a f =
     and_then (dummy_members dadd dint 0 (state_background (last (ensemble_members f))) (ensemble_members f))
      (\<lambda>ems. Inr (next_nsteps current_step a, a, f\<lparr>ensemble_members := ems\<rparr>))"

definition zero_doubles :: "ensemble_member \<Rightarrow> ensemble_member" where
  "zero_doubles em = em\<lparr>state_analysis := replicate (8 * (length (state_analysis em) div 8)) 0 @
     drop (8 * (length (state_analysis em) div 8)) (state_analysis em)\<rparr>"

definition new_DummyAssimilator :: "int \<Rightarrow> field \<Rightarrow> stepper \<times> field" where
  "new_DummyAssimilator steps f = (\<lparr>nsteps = 1, total_steps = steps\<rparr>, update_members (map zero_doubles) f)"

definition dummy_ops :: "(64 word \<Rightarrow> 64 word \<Rightarrow> 64 word) \<Rightarrow> (int \<Rightarrow> 64 word) \<Rightarrow> stepper assimilator_ops" where
  "dummy_ops dadd dint = \<lparr>on_init_state = ignore_init_state,
     do_update_step = dummy_do_update_step dadd dint, getNSteps = nsteps\<rparr>"

lemma length_concat_doubles: "length (concat (map (\<lambda>i. double_bytes (g i)) xs)) = 8 * length xs"
  by (induction xs) auto

lemma length_dummy_analysis: "length (dummy_analysis dadd dint sid bg nb an) = length an"
  by (simp add: dummy_analysis_def length_concat_doubles)

lemma dummy_members_shape:
  "dummy_members dadd dint sid nb ems = Inr ems' \<Longrightarrow> map member_shape ems' = map member_shape ems"
  by (induction dadd dint sid nb ems arbitrary: ems' rule: dummy_members.induct)
    (auto simp: and_then_Inr_iff member_shape_def length_dummy_analysis split: if_splits)

interpretation dummy: assimilator "dummy_ops dadd dint" for dadd dint
  by unfold_locales
    (auto simp: dummy_ops_def ignore_init_state_def dummy_do_update_step_def and_then_Inr_iff
      intro!: same_shape_members dest: dummy_members_shape)

section \<open>Writes through pointers\<close>

text \<open>std::copy of the first n values behind a pointer to an offset of a vector.\<close>

definition write_at :: "nat \<Rightarrow> nat \<Rightarrow> byte list option \<Rightarrow> byte list \<Rightarrow> byte list res" where
  "write_at off n values dst =
     (let src = (case values of None \<Rightarrow> [] | Some v \<Rightarrow> v) in
      if length src < n \<or> length dst < off + n then Inl Undefined_behaviour
      else Inr (copy_into off (take n src) dst))"

lemma write_at_length: "write_at off n v dst = Inr dst' \<Longrightarrow> length dst' = length dst"
  by (auto simp: write_at_def Let_def length_copy_into split: if_splits option.splits)

text \<open>std::copy of a whole vector to the start of another.\<close>

definition copy_vec :: "byte list \<Rightarrow> byte list \<Rightarrow> byte list res" where
  "copy_vec src dst = write_at 0 (length src) (Some src) dst"

lemma copy_vec_same: "length src = length dst \<Longrightarrow> copy_vec src dst = Inr src"
  by (simp add: copy_vec_def write_at_def copy_into_def)

section \<open>WrfAssimilator\<close>

definition new_WrfAssimilator :: "int \<Rightarrow> field \<Rightarrow> stepper \<times> field" where
  "new_WrfAssimilator steps f = (\<lparr>nsteps = 1, total_steps = steps\<rparr>, f)"

fun map_members :: "(ensemble_member \<Rightarrow> ensemble_member res) \<Rightarrow> ensemble_member list \<Rightarrow> ensemble_member list res"
where
  "map_members g [] = Inr []"
| "map_members g (em # ems) =
     and_then (g em) (\<lambda>em'. and_then (map_members g ems) (\<lambda>ems'. Inr (em' # ems')))"

definition background_to_analysis :: "ensemble_member \<Rightarrow> ensemble_member res" where
  "background_to_analysis em =
     and_then (copy_vec (state_background em) (state_analysis em)) (\<lambda>an.
     Inr (em\<lparr>state_analysis := an\<rparr>))"

definition wrf_do_update_step :: "int \<Rightarrow> stepper \<Rightarrow> field \<Rightarrow> (int \<times> stepper \<times> field) res" where
  "wrf_do_update_step current_step a f =
     and_then (map_members background_to_analysis (ensemble_members f)) (\<lambda>ems.
     Inr (next_nsteps current_step a, a, f\<lparr>ensemble_members := ems\<rparr>))"

definition wrf_init_member :: "part \<Rightarrow> byte list option \<Rightarrow> part \<Rightarrow> byte list option \<Rightarrow>
    ensemble_member \<Rightarrow> ensemble_member res" where
  "wrf_init_member p v h vh em =
     and_then (store_background_state_part p v h vh em) (\<lambda>em.
     assert_then (size64 (int (send_count p) + int (local_offset_server p)) \<le> length (state_background em))
      (and_then (write_at (local_offset_server p) (send_count p) v (state_analysis em)) (\<lambda>an.
       and_then (write_at (local_offset_server h) (send_count h) vh (state_hidden em)) (\<lambda>hid.
       Inr (em\<lparr>state_analysis := an, state_hidden := hid\<rparr>)))))"

definition wrf_on_init_state :: "int \<Rightarrow> part \<Rightarrow> byte list option \<Rightarrow> part \<Rightarrow> byte list option \<Rightarrow> stepper \<Rightarrow>
    field \<Rightarrow> (stepper \<times> field) res" where
  "wrf_on_init_state r p v h vh a f =
     assert_then (size64 r < length (ensemble_members f))
      (assert_then (r = 0)
       (and_then (map_members (wrf_init_member p v h vh) (ensemble_members f)) (\<lambda>ems.
        Inr (a, f\<lparr>ensemble_members := ems\<rparr>))))"

definition wrf_ops :: "stepper assimilator_ops" where
  "wrf_ops = \<lparr>on_init_state = wrf_on_init_state, do_update_step = wrf_do_update_step, getNSteps = nsteps\<rparr>"

lemma map_members_shape:
  assumes "\<And>em em'. g em = Inr em' \<Longrightarrow> member_shape em' = member_shape em"
  shows "map_members g ems = Inr ems' \<Longrightarrow> map member_shape ems' = map member_shape ems"
  by (induction ems arbitrary: ems') (auto simp: and_then_Inr_iff assms)

lemma background_to_analysis_shape:
  "background_to_analysis em = Inr em' \<Longrightarrow> member_shape em' = member_shape em"
  by (auto simp: background_to_analysis_def and_then_Inr_iff member_shape_def copy_vec_def dest!: write_at_length)

lemma wrf_init_member_shape: "wrf_init_member p v h vh em = Inr em' \<Longrightarrow> member_shape em' = member_shape em"
  by (auto simp: wrf_init_member_def and_then_Inr_iff member_shape_def
      dest!: write_at_length store_background_shape [unfolded member_shape_def])

interpretation wrf: assimilator wrf_ops
proof
  fix r p v h vh a f a' f'
  assume "on_init_state wrf_ops r p v h vh a f = Inr (a', f')"
  then show "same_shape f f'"
    by (auto simp: wrf_ops_def wrf_on_init_state_def and_then_Inr_iff intro!: same_shape_members
        map_members_shape wrf_init_member_shape)
next
  fix step a f n a' f'
  assume "do_update_step wrf_ops step a f = Inr (n, a', f')"
  then show "same_shape f f'"
    by (auto simp: wrf_ops_def wrf_do_update_step_def and_then_Inr_iff intro!: same_shape_members
        map_members_shape background_to_analysis_shape)
qed

section \<open>CheckStatelessAssimilator\<close>

text \<open>
  The verdict records what print\_result prints. The comparison is the one of BINARY\_MODE, which
  the file defines.
\<close>

record check_stateless =
  cs_nsteps :: int
  init_states :: "byte list list"
  correct_states :: "byte list list"
  init_states_hidden :: "byte list list"
  correct_states_hidden :: "byte list list"
  isFirst :: bool
  verdict :: "bool option"

definition new_CheckStatelessAssimilator :: "field \<Rightarrow> check_stateless" where
  "new_CheckStatelessAssimilator f =
     (let an = map (\<lambda>em. replicate (length (state_analysis em)) 0) (ensemble_members f);
          hid = map (\<lambda>em. replicate (length (state_hidden em)) 0) (ensemble_members f)
      in \<lparr>cs_nsteps = 1, init_states = an, correct_states = an, init_states_hidden = hid,
          correct_states_hidden = hid, isFirst = True, verdict = None\<rparr>)"

text \<open>The first update step: store the results, start again from the initial states.\<close>

fun first_check :: "(byte list \<times> byte list \<times> byte list \<times> byte list) list \<Rightarrow> ensemble_member list \<Rightarrow>
    (byte list \<times> byte list \<times> ensemble_member) list res" where
  "first_check stores [] = Inr []"
| "first_check [] (em # ems) = Inl Undefined_behaviour"
| "first_check ((cor, cor_hidden, ini, ini_hidden) # stores) (em # ems) =
     and_then (copy_vec (state_background em) cor) (\<lambda>cor'.
     and_then (copy_vec (state_hidden em) cor_hidden) (\<lambda>cor_hidden'.
     and_then (copy_vec ini (state_analysis em)) (\<lambda>an.
     and_then (copy_vec ini_hidden (state_hidden em)) (\<lambda>hid.
     and_then (first_check stores ems) (\<lambda>rest.
     Inr ((cor', cor_hidden', em\<lparr>state_analysis := an, state_hidden := hid\<rparr>) # rest))))))"

text \<open>The comparison of the later update steps, byte by byte; \<open>Inr False\<close> when they differ.\<close>

fun compare_member :: "byte list \<Rightarrow> byte list \<Rightarrow> bool res" where
  "compare_member [] bg = Inr True"
| "compare_member (c # cs) [] = Inl Out_of_range"
| "compare_member (c # cs) (b # bs) = (if c \<noteq> b then Inr False else compare_member cs bs)"

fun compare_members :: "byte list list \<Rightarrow> ensemble_member list \<Rightarrow> bool res" where
  "compare_members cors [] = Inr True"
| "compare_members [] (em # ems) = Inl Out_of_range"
| "compare_members (cor # cors) (em # ems) =
     and_then (compare_member cor (state_background em)) (\<lambda>same.
     if same then compare_members cors ems else Inr False)"

definition check_do_update_step :: "int \<Rightarrow> check_stateless \<Rightarrow> field \<Rightarrow> (int \<times> check_stateless \<times> field) res" where
  "check_do_update_step current_step a f =
     (if isFirst a then
        and_then (first_check (zip (correct_states a) (zip (correct_states_hidden a)
                   (zip (init_states a) (init_states_hidden a)))) (ensemble_members f)) (\<lambda>res.
        Inr (1, a\<lparr>correct_states := map fst res, correct_states_hidden := map (fst \<circ> snd) res,
                  isFirst := False\<rparr>,
             f\<lparr>ensemble_members := map (snd \<circ> snd) res\<rparr>))
      else
        and_then (compare_members (correct_states a) (ensemble_members f)) (\<lambda>good.
        Inr (-1, a\<lparr>verdict := Some good\<rparr>, f)))"

definition store_init_state_part :: "nat \<Rightarrow> part \<Rightarrow> byte list option \<Rightarrow> part \<Rightarrow> byte list option \<Rightarrow>
    check_stateless \<Rightarrow> ensemble_member \<Rightarrow> (check_stateless \<times> ensemble_member) res" where
  "store_init_state_part i p v h vh a em =
     assert_then (size64 (int (send_count p) + int (local_offset_server p)) \<le> length (state_background em))
      (if length (init_states a) \<le> i \<or> length (init_states_hidden a) \<le> i then Inl Undefined_behaviour
       else
       and_then (write_at (local_offset_server p) (send_count p) v (init_states a ! i)) (\<lambda>ini.
       and_then (write_at (local_offset_server p) (send_count p) v (state_analysis em)) (\<lambda>an.
       and_then (write_at (local_offset_server h) (send_count h) vh (init_states_hidden a ! i)) (\<lambda>ini_hidden.
       and_then (write_at (local_offset_server h) (send_count h) vh (state_hidden em)) (\<lambda>hid.
       Inr (a\<lparr>init_states := (init_states a)[i := ini],
              init_states_hidden := (init_states_hidden a)[i := ini_hidden]\<rparr>,
            em\<lparr>state_analysis := an, state_hidden := hid\<rparr>))))))"

definition check_on_init_state :: "int \<Rightarrow> part \<Rightarrow> byte list option \<Rightarrow> part \<Rightarrow> byte list option \<Rightarrow>
    check_stateless \<Rightarrow> field \<Rightarrow> (check_stateless \<times> field) res" where
  "check_on_init_state r p v h vh a f =
     assert_then (size64 r < length (ensemble_members f))
      (and_then (store_background_state_part p v h vh (ensemble_members f ! size64 r)) (\<lambda>em.
       and_then (store_init_state_part (size64 r) p v h vh a em) (\<lambda>(a, em).
       Inr (a, f\<lparr>ensemble_members := (ensemble_members f)[size64 r := em]\<rparr>))))"

definition check_ops :: "check_stateless assimilator_ops" where
  "check_ops = \<lparr>on_init_state = check_on_init_state, do_update_step = check_do_update_step,
     getNSteps = cs_nsteps\<rparr>"

lemma copy_vec_length: "copy_vec src dst = Inr dst' \<Longrightarrow> length dst' = length dst"
  by (simp add: copy_vec_def write_at_length)

lemma first_check_shape:
  "first_check stores ems = Inr res \<Longrightarrow> map member_shape (map (snd \<circ> snd) res) = map member_shape ems"
  by (induction stores ems arbitrary: res rule: first_check.induct)
    (fastforce simp: and_then_Inr_iff member_shape_def dest: copy_vec_length)+

lemma store_init_state_part_shape:
  "store_init_state_part i p v h vh a em = Inr (a', em') \<Longrightarrow> member_shape em' = member_shape em"
  by (auto simp: store_init_state_part_def and_then_Inr_iff member_shape_def dest!: write_at_length
      split: if_splits)

interpretation check: assimilator check_ops
proof
  fix r p v h vh a f a' f'
  assume "on_init_state check_ops r p v h vh a f = Inr (a', f')"
  then obtain em em' where i: "size64 r < length (ensemble_members f)"
      and st: "store_background_state_part p v h vh (ensemble_members f ! size64 r) = Inr em"
        "store_init_state_part (size64 r) p v h vh a em = Inr (a', em')"
      and f': "f' = f\<lparr>ensemble_members := (ensemble_members f)[size64 r := em']\<rparr>"
    by (auto simp: check_ops_def check_on_init_state_def and_then_Inr_iff)
  have "member_shape em' = member_shape (ensemble_members f ! size64 r)"
    using store_background_shape [OF st(1)] store_init_state_part_shape [OF st(2)] by simp
  then show "same_shape f f'"
    unfolding f' by (intro same_shape_members) (simp add: map_list_update_id)
next
  fix step a f n a' f'
  assume "do_update_step check_ops step a f = Inr (n, a', f')"
  then show "same_shape f f'"
    by (auto simp: check_ops_def check_do_update_step_def and_then_Inr_iff split: if_splits
        intro!: same_shape_members first_check_shape)
qed

section \<open>PDAFAssimilator\<close>

text \<open>
  The wrapper around the Fortran library PDAF is a parameter with a state of its own:
  get\_state gives the number of steps, whether to exit, a status and the doubles it writes;
  put\_state gives a status.
\<close>

record 'p pdaf =
  pdaf_set_current_step :: "int \<Rightarrow> 'p \<Rightarrow> 'p"
  pdaf_get_state :: "'p \<Rightarrow> int \<times> int \<times> int \<times> byte list \<times> 'p"
  pdaf_put_state :: "byte list \<Rightarrow> 'p \<Rightarrow> int \<times> 'p"

record 'p pdaf_assimilator =
  pd_nsteps :: int
  pd_state :: 'p

text \<open>The library writes local\_vect\_size/8 doubles into the analysis state.\<close>

definition fill_analysis :: "nat \<Rightarrow> byte list \<Rightarrow> ensemble_member \<Rightarrow> ensemble_member res" where
  "fill_analysis n written em =
     and_then (write_at 0 (8 * n) (Some (resize (8 * n) 0 written)) (state_analysis em)) (\<lambda>an.
     Inr (em\<lparr>state_analysis := an\<rparr>))"

fun getAllEnsembleMembers :: "'p pdaf \<Rightarrow> nat \<Rightarrow> int \<Rightarrow> 'p \<Rightarrow> ensemble_member list \<Rightarrow>
    (int \<times> 'p \<times> ensemble_member list) res" where
  "getAllEnsembleMembers pd n ns p [] = Inr (ns, p, [])"
| "getAllEnsembleMembers pd n ns p (em # ems) =
     (case pdaf_get_state pd p of (nnsteps, doexit, status, written, p) \<Rightarrow>
        and_then (fill_analysis n written em) (\<lambda>em'.
        assert_then (ns = nnsteps \<or> ns = -1)
         (if doexit = 1 \<or> status \<noteq> 0 then Inr (-1, p, em' # ems)
          else
            and_then (getAllEnsembleMembers pd n nnsteps p ems) (\<lambda>(ns, p, ems').
            Inr (ns, p, em' # ems')))))"

fun put_all_members :: "'p pdaf \<Rightarrow> nat \<Rightarrow> 'p \<Rightarrow> ensemble_member list \<Rightarrow> 'p res" where
  "put_all_members pd n p [] = Inr p"
| "put_all_members pd n p (em # ems) =
     (case pdaf_put_state pd (take (8 * n) (state_background em)) p of (status, p) \<Rightarrow>
        if status \<noteq> 0 then Inl Interrupted else put_all_members pd n p ems)"

definition pdaf_do_update_step :: "'p pdaf \<Rightarrow> int \<Rightarrow> 'p pdaf_assimilator \<Rightarrow> field \<Rightarrow>
    (int \<times> 'p pdaf_assimilator \<times> field) res" where
  "pdaf_do_update_step pd current_step a f =
     (let n = local_vect_size f div 8;
          p = pdaf_set_current_step pd current_step (pd_state a) in
      and_then (put_all_members pd n p (ensemble_members f)) (\<lambda>p.
      and_then (getAllEnsembleMembers pd n (-1) p (ensemble_members f)) (\<lambda>(ns, p, ems).
      Inr (ns, \<lparr>pd_nsteps = ns, pd_state = p\<rparr>, f\<lparr>ensemble_members := ems\<rparr>))))"

definition pdaf_ops :: "'p pdaf \<Rightarrow> 'p pdaf_assimilator assimilator_ops" where
  "pdaf_ops pd = \<lparr>on_init_state = ignore_init_state, do_update_step = pdaf_do_update_step pd,
     getNSteps = pd_nsteps\<rparr>"

lemma fill_analysis_shape: "fill_analysis n w em = Inr em' \<Longrightarrow> member_shape em' = member_shape em"
  by (auto simp: fill_analysis_def and_then_Inr_iff member_shape_def dest!: write_at_length)

lemma getAllEnsembleMembers_shape:
  "getAllEnsembleMembers pd n ns p ems = Inr (ns', p', ems') \<Longrightarrow> map member_shape ems' = map member_shape ems"
  by (induction pd n ns p ems arbitrary: ns' p' ems' rule: getAllEnsembleMembers.induct)
    (fastforce simp: and_then_Inr_iff split: prod.splits if_splits dest: fill_analysis_shape)+

interpretation pdaf: assimilator "pdaf_ops pd" for pd
  by unfold_locales
    (auto simp: pdaf_ops_def ignore_init_state_def pdaf_do_update_step_def and_then_Inr_iff Let_def
      intro!: same_shape_members dest: getAllEnsembleMembers_shape)

end
