(* ===== verification/ServerLoop.thy ===== *)
theory ServerLoop
  imports Scheduler Assimilator
begin

text \<open>
  The message handlers and the main loop of the server (server/server.cxx): the response to a
  runner rank that sends its state, the synchronisation before the update step, registration of
  runners and of the field, and one iteration of the main loop. The assimilator is reached
  through its virtual methods.
\<close>

section \<open>The launcher connection\<close>

definition LAUNCHER_TIMEOUT :: int where "LAUNCHER_TIMEOUT = 60"
definition LAUNCHER_PING_INTERVAL :: int where "LAUNCHER_PING_INTERVAL = 8"

definition updateLauncherDueDate :: "'a server \<Rightarrow> 'a server" where
  "updateLauncherDueDate s = s\<lparr>due_date_launcher := now s + LAUNCHER_TIMEOUT\<rparr>"

definition checkLauncherDueDate :: "'a server \<Rightarrow> bool" where
  "checkLauncherDueDate s \<longleftrightarrow> now s < due_date_launcher s"

definition updateLauncherNextMessageDate :: "'a server \<Rightarrow> 'a server" where
  "updateLauncherNextMessageDate s =
     s\<lparr>next_message_date_to_launcher := now s + LAUNCHER_PING_INTERVAL\<rparr>"

definition receiveText :: "'a server \<Rightarrow> 'a server" where
  "receiveText s = updateLauncherDueDate s"

definition ping :: "'a server \<Rightarrow> 'a server" where
  "ping s = (if now s > next_message_date_to_launcher s
             then updateLauncherNextMessageDate (emit Launcher_hello s) else s)"

definition notify :: "int \<Rightarrow> runner_status \<Rightarrow> 'a server \<Rightarrow> 'a server" where
  "notify r status s = emit (Launcher_notify r status) s"

section \<open>Receiving a state\<close>

definition recv :: "'a server \<Rightarrow> ('a, frame \<times> bool \<times> 'a server) sres" where
  "recv s = (case data_socket s of
     [] \<Rightarrow> fail_with Blocked s
   | (f, snd_more) # fs \<Rightarrow> Inr (f, snd_more, s\<lparr>data_socket := fs\<rparr>))"

definition frame_bytes :: "frame \<Rightarrow> byte list res" where
  "frame_bytes f = (case f of Bytes b \<Rightarrow> Inr b | _ \<Rightarrow> Inl Undefined_behaviour)"

record response =
  rp_identity :: identity
  rp_runner_id :: int
  rp_runner_rank :: int
  rp_state_id :: int
  rp_timestep :: int
  rp_field_name :: string
  rp_data :: "byte list"
  rp_more :: bool

text \<open>
  The four frames every response has, and whether more follow; a frame of another size than the
  header's is refused.
\<close>

definition recv_four :: "'a server \<Rightarrow> ('a, (frame \<times> frame \<times> frame \<times> bool) \<times> 'a server) sres" where
  "recv_four s =
     and_then (recv s) (\<lambda>(identity_msg, more1, s). ensure more1 s
     (and_then (recv s) (\<lambda>(empty_msg, more2, s). ensure more2 s
     (and_then (recv s) (\<lambda>(header_msg, more3, s). ensure more3 s
     (and_then (recv s) (\<lambda>(data_msg, more4, s).
      Inr ((identity_msg, header_msg, data_msg, more4), s))))))))"

definition header_fields :: "frame \<Rightarrow> ((int \<times> int \<times> int \<times> int) \<times> string) option" where
  "header_fields f = (case f of Header [r, rr, sid, t] name \<Rightarrow> Some ((r, rr, sid, t), name) | _ \<Rightarrow> None)"

definition recv_response :: "'a server \<Rightarrow> ('a, response \<times> 'a server) sres" where
  "recv_response s =
     and_then (recv_four s) (\<lambda>((identity_msg, header_msg, data_msg, more4), s).
     and_then (lift s (frame_bytes identity_msg)) (\<lambda>ident.
     ensure (IDENTITY_SIZE s = 0 \<or> IDENTITY_SIZE s = length ident) s
     (let s = s\<lparr>IDENTITY_SIZE := length ident\<rparr> in
      (case header_fields header_msg of
         None \<Rightarrow> fail_with Assertion_failed s
       | Some ((r, rr, sid, t), name) \<Rightarrow>
           and_then (lift s (frame_bytes data_msg)) (\<lambda>data.
           Inr (\<lparr>rp_identity = ident, rp_runner_id = r, rp_runner_rank = rr, rp_state_id = sid,
                 rp_timestep = t, rp_field_name = name, rp_data = data, rp_more = more4\<rparr>, s))))))"

definition notify_launcher_about :: "int \<Rightarrow> 'a server \<Rightarrow> ('a, 'a server) sres" where
  "notify_launcher_about r s =
     (if comm_rank s \<noteq> 0 then Inr s
      else case map_of (launcher_notified_about_runner s) r of
        None \<Rightarrow> fail_with Interrupted s
      | Some True \<Rightarrow> Inr s
      | Some False \<Rightarrow>
          let s = notify r RUNNING s;
              s = s\<lparr>launcher_notified_about_runner :=
                    om_assign r True (launcher_notified_about_runner s)\<rparr>
          in Inr (trigger ''ADD_RUNNER'' r s))"

definition is_sub_task :: "response \<Rightarrow> sub_task \<Rightarrow> bool" where
  "is_sub_task rp st \<longleftrightarrow> runner_id st = rp_runner_id rp \<and> state_id st = rp_state_id rp \<and>
     runner_rank st = rp_runner_rank rp"

definition finish_sub_task :: "response \<Rightarrow> 'a server \<Rightarrow> ('a, 'a server) sres" where
  "finish_sub_task rp s =
     (case find (is_sub_task rp) (running_sub_tasks s) of
        None \<Rightarrow> ensure (rp_timestep rp = 0) s (Inr s)
      | Some st \<Rightarrow> Inr (s\<lparr>finished_sub_tasks := finished_sub_tasks s @ [st],
                        running_sub_tasks := remove1 st (running_sub_tasks s)\<rparr>))"

definition recv_hidden :: "part \<Rightarrow> response \<Rightarrow> 'a server \<Rightarrow> ('a, byte list option \<times> 'a server) sres" where
  "recv_hidden h rp s =
     (if send_count h > 0 then
        ensure (rp_more rp) s
         (and_then (recv s) (\<lambda>(msg, _, s).
          and_then (lift s (frame_bytes msg)) (\<lambda>v.
          ensure (length v = send_count h) s (Inr (Some v, s)))))
      else Inr (None, s))"

definition store_state :: "int \<Rightarrow> part \<Rightarrow> byte list \<Rightarrow> part \<Rightarrow> byte list option \<Rightarrow> field \<Rightarrow> field res" where
  "store_state sid p values h values_hidden f =
     (if sid < 0 \<or> length (ensemble_members f) \<le> nat sid then Inl Undefined_behaviour
      else
        and_then (store_background_state_part p (Some values) h values_hidden
                   (ensemble_members f ! nat sid)) (\<lambda>em.
        Inr (f\<lparr>ensemble_members := (ensemble_members f)[nat sid := em]\<rparr>)))"

definition store_response ::
  "'a assimilator_ops \<Rightarrow> response \<Rightarrow> part \<Rightarrow> part \<Rightarrow> byte list option \<Rightarrow> 'a server \<Rightarrow> ('a, 'a server) sres" where
  "store_response ops rp p h values_hidden s =
     (if rp_timestep rp = current_step s then
        let s = (if rp_runner_rank rp = 0 then trigger ''STOP_PROPAGATE_STATE'' (rp_state_id rp) s else s)
        in and_then (lift s (store_state (rp_state_id rp) p (rp_data rp) h values_hidden (the_field s))) (\<lambda>f.
           Inr (s\<lparr>the_field := f\<rparr>))
      else if rp_state_id rp = -1 then
        and_then (lift s (on_init_state ops (rp_runner_id rp) p (Some (rp_data rp)) h values_hidden
                           (the_assimilator s) (the_field s))) (\<lambda>(a, f).
        Inr (s\<lparr>the_assimilator := a, the_field := f\<rparr>))
      else Inr s)"

definition save_connection :: "response \<Rightarrow> 'a server \<Rightarrow> 'a server" where
  "save_connection rp s =
     (let s = s\<lparr>idle_runners := om_emplace (rp_runner_id rp) [] (idle_runners s)\<rparr>;
          s = (if rp_runner_rank rp = 0 then trigger ''START_IDLE_RUNNER'' (rp_runner_id rp) s else s);
          conns = the (map_of (idle_runners s) (rp_runner_id rp))
      in s\<lparr>idle_runners := om_assign (rp_runner_id rp)
             (om_emplace (rp_runner_rank rp) (Some (rp_identity rp)) conns) (idle_runners s)\<rparr>)"

text \<open>Answer with a sub task scheduled on this rank, or keep the connection.\<close>

definition is_next_task :: "response \<Rightarrow> sub_task \<Rightarrow> bool" where
  "is_next_task rp st \<longleftrightarrow> runner_id st = rp_runner_id rp \<and> runner_rank st = rp_runner_rank rp"

definition answer_response :: "response \<Rightarrow> 'a server \<Rightarrow> ('a, 'a server) sres" where
  "answer_response rp s =
     (case find (is_next_task rp) (scheduled_sub_tasks s) of
        Some st \<Rightarrow>
          and_then (launch_sub_task (Some (rp_identity rp)) (rp_runner_rank rp) (state_id st) s) (\<lambda>s.
          Inr (s\<lparr>running_sub_tasks := running_sub_tasks s @ [st],
                 scheduled_sub_tasks := remove1 st (scheduled_sub_tasks s)\<rparr>))
      | None \<Rightarrow>
          let s = save_connection rp s in
          if comm_rank s = 0 \<and>
             completely_idle s (the (map_of (idle_runners s) (rp_runner_id rp)))
          then and_then (schedule_new_task (rp_runner_id rp) s) (\<lambda>(_, s). Inr s)
          else Inr s)"

definition process_response :: "'a assimilator_ops \<Rightarrow> response \<Rightarrow> 'a server \<Rightarrow> ('a, 'a server) sres" where
  "process_response ops rp s =
     and_then (finish_sub_task rp s) (\<lambda>s.
     ensure (rp_timestep rp = 0 \<or> rp_timestep rp = current_step s) s
     (ensure (field_name (the_field s) = rp_field_name rp) s
     (and_then (lift s (getPart (comm_rank s) (rp_runner_rank rp) (the_field s))) (\<lambda>p.
      ensure (length (rp_data rp) = send_count p) s
      (and_then (lift s (getPartHidden (comm_rank s) (rp_runner_rank rp) (the_field s))) (\<lambda>h.
      and_then (recv_hidden h rp s) (\<lambda>(values_hidden, s).
      and_then (store_response ops rp p h values_hidden s) (\<lambda>s.
      answer_response rp s)))))))) "

definition handle_data_response :: "'a assimilator_ops \<Rightarrow> 'a server \<Rightarrow> ('a, 'a server) sres" where
  "handle_data_response ops s =
     and_then (recv_response s) (\<lambda>(rp, s).
     and_then (notify_launcher_about (rp_runner_id rp) s) (\<lambda>s.
     if rp_runner_id rp \<in> task_runner_id ` set (killed s)
     then Inr (stop_connection KILL_RUNNER (Some (rp_identity rp)) s)
     else process_response ops rp s))"

section \<open>The update step\<close>

lemma try_launch_subtask_lists:
  "try_launch_subtask st s = Inr (b, s') \<Longrightarrow>
     unscheduled_tasks s' = unscheduled_tasks s \<and> the_field s' = the_field s \<and>
     comm_rank s' = comm_rank s \<and> ENSEMBLE_SIZE s' = ENSEMBLE_SIZE s \<and> killed s' = killed s \<and>
     scheduled_sub_tasks s' = scheduled_sub_tasks s \<and> running_sub_tasks s' = running_sub_tasks s \<and>
     finished_sub_tasks s' = finished_sub_tasks s"
  by (auto dest!: try_launch_subtask_emits)

lemma add_sub_tasks_loop_unscheduled:
  "add_sub_tasks_loop nt rs s = Inr s' \<Longrightarrow> unscheduled_tasks s' = unscheduled_tasks s"
proof (induction rs arbitrary: s)
  case (Cons r rs)
  then show ?case
    by (auto simp: and_then_Inr_iff split: if_splits dest!: try_launch_subtask_lists Cons.IH)
qed simp

lemma schedule_new_task_decreases:
  assumes "schedule_new_task r s = Inr (b, s')" "unscheduled_tasks s \<noteq> []"
  shows "length (unscheduled_tasks s') < length (unscheduled_tasks s)"
proof -
  obtain sid rest where u: "unscheduled_tasks s = sid # rest" using assms(2) by (cases "unscheduled_tasks s") auto
  have "length (filter (\<lambda>i. i \<noteq> sid) rest) < Suc (length rest)"
    by (simp add: le_imp_less_Suc)
  with assms(1) u show ?thesis
    by (auto simp: schedule_new_task_def Let_def add_sub_tasks_def and_then_Inr_iff emits_def
        dest!: add_sub_tasks_loop_unscheduled)
qed

text \<open>After the update step rank 0 schedules the states on the runners that are idle.\<close>

function (sequential) reschedule :: "'a server \<Rightarrow> ('a, 'a server) sres" where
  "reschedule s =
     (case get_completely_idle_runner s of
        None \<Rightarrow> Inr s
      | Some r \<Rightarrow>
          if unscheduled_tasks s = [] then Inr s
          else and_then (schedule_new_task r s) (\<lambda>(_, s'). reschedule s'))"
  by pat_completeness auto

termination
  by (relation "measure (\<lambda>s. length (unscheduled_tasks s))") (auto dest: schedule_new_task_decreases)

declare reschedule.simps [simp del]

section \<open>Finishing a time step\<close>

definition would_finish :: "'a server \<Rightarrow> bool" where
  "would_finish s \<longleftrightarrow> unscheduled_tasks s = [] \<and> scheduled_sub_tasks s = [] \<and>
     running_sub_tasks s = [] \<and> all_finished_size s"

definition probe_rank_finished :: "int \<Rightarrow> 'a server \<Rightarrow> 'a server" where
  "probe_rank_finished rank s =
     (case rank_finished_inbox s rank of
        [] \<Rightarrow> s
      | highest # rest \<Rightarrow>
          let s = s\<lparr>rank_finished_inbox := (rank_finished_inbox s)(rank := rest)\<rparr>
          in if highest = task_id s then s\<lparr>finished_ranks := finished_ranks s + 1\<rparr> else s)"

text \<open>Rank 0 finishes when every other rank reported to have finished the latest task.\<close>

definition synchronize_finish :: "'a server \<Rightarrow> bool \<times> 'a server" where
  "synchronize_finish s =
     (if comm_rank s = 0 then
        let s = fold probe_rank_finished [1..comm_size s - 1] s in
        if finished_ranks s = comm_size s - 1
        then (True, emits (map (\<lambda>r. Mpi_send r All_finished) [1..comm_size s - 1]) s)
        else (False, s)
      else
        let s = (if highest_sent_task_id s < highest_received_task_id s
                 then emits [Mpi_send 0 (Rank_finished (highest_received_task_id s))]
                        (s\<lparr>highest_sent_task_id := highest_received_task_id s\<rparr>)
                 else s)
        in case all_finished_inbox s of
             0 \<Rightarrow> (False, s)
           | Suc n \<Rightarrow> (True, s\<lparr>all_finished_inbox := n\<rparr>))"

text \<open>
  The analysis: the assimilator's update step, the number of steps that rank 0 broadcasts (it
  crashes the server when the launcher did not answer), and the end of the runners.
\<close>

definition run_analysis :: "'a assimilator_ops \<Rightarrow> int \<Rightarrow> 'a server \<Rightarrow> ('a, 'a server) sres" where
  "run_analysis ops bcast s =
     (let launcher_ok = (comm_rank s \<noteq> 0 \<or> checkLauncherDueDate s);
          s = trigger ''START_FILTER_UPDATE'' (current_step s) s
      in and_then (lift s (do_update_step ops (current_step s) (the_assimilator s) (the_field s))) (\<lambda>(n, a, f).
      let s = s\<lparr>current_nsteps := n, the_assimilator := a, the_field := f\<rparr>;
          s = trigger ''STOP_FILTER_UPDATE'' (current_step s) s;
          s = (if comm_rank s = 0
               then (if launcher_ok then s else s\<lparr>current_nsteps := -2\<rparr>)
               else s\<lparr>current_nsteps := bcast\<rparr>);
          s = s\<lparr>assimilation_cycles := (assimilation_cycles s + 1) mod 2 ^ 32\<rparr>;
          s = trigger_idle ''STOP_IDLE_RUNNER'' s
      in Inr (trigger ''STOP_ITERATION'' (current_step s) s)))"

definition update_step :: "'a assimilator_ops \<Rightarrow> int \<Rightarrow> 'a server \<Rightarrow> ('a, bool \<times> 'a server) sres" where
  "update_step ops bcast s =
     and_then (run_analysis ops bcast s) (\<lambda>s.
     if current_nsteps s = -1 then Inr (True, end_all_runners s)
     else if current_nsteps s = -2 then fail_with (Exit 1) (kill_all_runners s)
     else
       and_then (init_new_timestep s) (\<lambda>s.
       if comm_rank s = 0 then and_then (reschedule s) (\<lambda>s. Inr (False, s)) else Inr (False, s)))"

definition check_finished :: "'a assimilator_ops \<Rightarrow> int \<Rightarrow> 'a server \<Rightarrow> ('a, bool \<times> 'a server) sres" where
  "check_finished ops bcast s =
     (if \<not> would_finish s then Inr (False, s)
      else case synchronize_finish s of
        (finished, s) \<Rightarrow> if finished then update_step ops bcast s else Inr (False, s))"

section \<open>One iteration in the simulation phase\<close>

definition check_dates_and_requests :: "'a server \<Rightarrow> ('a, 'a server) sres" where
  "check_dates_and_requests s =
     (if last_seconds_checks s < now s then
        and_then (check_due_dates (s\<lparr>last_seconds_checks := now s\<rparr>)) (\<lambda>s.
        if comm_rank s = 0 then check_kill_requests s else Inr s)
      else Inr s)"

text \<open>The assert at the end of the loop body: every sub task is somewhere.\<close>

definition tasks_conserved :: "'a server \<Rightarrow> bool" where
  "tasks_conserved s \<longleftrightarrow>
     int (length (unscheduled_tasks s) * length (connected_runner_ranks (the_field s)) +
          length (scheduled_sub_tasks s) + length (running_sub_tasks s) + length (finished_sub_tasks s)) =
     int (length (connected_runner_ranks (the_field s))) * ENSEMBLE_SIZE s"

definition simulation_step :: "'a assimilator_ops \<Rightarrow> int \<Rightarrow> 'a server \<Rightarrow> ('a, bool \<times> 'a server) sres" where
  "simulation_step ops bcast s =
     and_then (check_dates_and_requests s) (\<lambda>s.
     and_then (if comm_rank s \<noteq> 0 then check_schedule_new_tasks s else Inr s) (\<lambda>s.
     and_then (if data_socket s \<noteq> [] then handle_data_response ops s else Inr s) (\<lambda>s.
     and_then (check_finished ops bcast s) (\<lambda>(ended, s).
     if ended then Inr (True, s) else ensure (tasks_conserved s) s (Inr (False, s))))))"

end
