(* ===== verification/ServerInv.thy ===== *)
theory ServerInv
  imports ServerLoop
begin

text \<open>
  The invariant of the scheduler: every state is either unscheduled or has exactly one sub task
  for every connected runner rank, all of them on one runner, and nothing that was killed is
  still scheduled or idle.
\<close>

section \<open>The invariant of the sub tasks\<close>

definition sub_tasks :: "'a server \<Rightarrow> sub_task list" where
  "sub_tasks s = scheduled_sub_tasks s @ running_sub_tasks s @ finished_sub_tasks s"

definition key :: "sub_task \<Rightarrow> int \<times> int" where
  "key st = (state_id st, runner_rank st)"

text \<open>\<open>tasks_inv n ranks us sts\<close>: n states, the connected ranks, the unscheduled states, the sub tasks.\<close>

definition tasks_inv :: "int \<Rightarrow> int list \<Rightarrow> int list \<Rightarrow> sub_task list \<Rightarrow> bool" where
  "tasks_inv n ranks us sts \<longleftrightarrow>
     distinct us \<and> set us \<subseteq> {0..<n} \<and> distinct (map key sts) \<and>
     key ` set sts = ({0..<n} - set us) \<times> set ranks \<and>
     (\<forall>st \<in> set sts. \<forall>st' \<in> set sts. state_id st = state_id st' \<longrightarrow> runner_id st = runner_id st')"

lemma tasks_inv_perm: "mset sts = mset sts' \<Longrightarrow> tasks_inv n ranks us sts = tasks_inv n ranks us sts'"
proof -
  assume eq: "mset sts = mset sts'"
  then have "set sts = set sts'" by (rule mset_eq_setD)
  moreover have "distinct (map key sts) = distinct (map key sts')"
    using eq by (intro mset_eq_imp_distinct_iff) simp
  ultimately show ?thesis by (simp add: tasks_inv_def)
qed

lemma tasks_inv_all_unscheduled: "tasks_inv n ranks [0..n - 1] []"
  by (auto simp: tasks_inv_def)

lemma tasks_inv_length:
  assumes inv: "tasks_inv n ranks us sts" and "distinct ranks" "0 \<le> n"
  shows "int (length us * length ranks + length sts) = int (length ranks) * n"
proof -
  have us: "finite (set us)" "set us \<subseteq> {0..<n}" "card (set us) = length us"
    using inv by (auto simp: tasks_inv_def distinct_card)
  have "length sts = card (key ` set sts)"
    using inv distinct_card [of "map key sts"] by (simp add: tasks_inv_def)
  also have "\<dots> = card ({0..<n} - set us) * length ranks"
    using inv assms(2) by (simp add: tasks_inv_def card_cartesian_product distinct_card)
  also have "card ({0..<n} - set us) = nat n - length us"
    using card_Diff_subset [OF us(1,2)] us(3) by simp
  finally have l: "length sts = (nat n - length us) * length ranks" .
  have "length us \<le> nat n"
    using card_mono [OF _ us(2)] us(3) by simp
  then have "length us * length ranks + length sts = nat n * length ranks"
    unfolding l by (simp flip: add_mult_distrib)
  then have "int (length us * length ranks + length sts) = int (nat n) * int (length ranks)"
    by (simp only: of_nat_mult)
  then show ?thesis using assms(3) by (simp add: mult.commute)
qed

text \<open>Scheduling a state on a runner, and taking a state away from its runner.\<close>

lemma tasks_inv_schedule:
  assumes inv: "tasks_inv n ranks us sts" and sid: "nt_state_id nt \<in> set us" and r: "distinct ranks"
  shows "tasks_inv n ranks (filter (\<lambda>i. i \<noteq> nt_state_id nt) us) (sts @ map (SubTask nt) ranks)"
proof -
  have k: "key (SubTask nt r) = (nt_state_id nt, r)" "state_id (SubTask nt r) = nt_state_id nt"
      "runner_id (SubTask nt r) = nt_runner_id nt" for r
    by (simp_all add: key_def SubTask_def)
  have old: "state_id st \<noteq> nt_state_id nt" if "st \<in> set sts" for st
  proof
    assume "state_id st = nt_state_id nt"
    moreover have "key st \<in> ({0..<n} - set us) \<times> set ranks"
      using inv that unfolding tasks_inv_def by blast
    ultimately show False using sid by (simp add: key_def)
  qed
  have ks: "map key (map (SubTask nt) ranks) = map (Pair (nt_state_id nt)) ranks"
    by (simp add: k)
  have new: "key ` set (map (SubTask nt) ranks) = {nt_state_id nt} \<times> set ranks"
    by (auto simp: image_image k)
  have left: "{0..<n} - set (filter (\<lambda>i. i \<noteq> nt_state_id nt) us) =
      ({0..<n} - set us) \<union> {nt_state_id nt}"
    using inv sid by (auto simp: tasks_inv_def)
  have prev: "key ` set sts = ({0..<n} - set us) \<times> set ranks" "distinct us" "set us \<subseteq> {0..<n}"
    using inv by (simp_all add: tasks_inv_def)
  show ?thesis
    unfolding tasks_inv_def
  proof (intro conjI ballI impI)
    show "distinct (filter (\<lambda>i. i \<noteq> nt_state_id nt) us)" using prev(2) by simp
    show "set (filter (\<lambda>i. i \<noteq> nt_state_id nt) us) \<subseteq> {0..<n}" using prev(3) by auto
    show "key ` set (sts @ map (SubTask nt) ranks) =
        ({0..<n} - set (filter (\<lambda>i. i \<noteq> nt_state_id nt) us)) \<times> set ranks"
      unfolding set_append image_Un new left prev(1) by (rule Sigma_Un_distrib1 [symmetric])
    have "set (map key sts) \<inter> set (map (Pair (nt_state_id nt)) ranks) = {}"
      using old by (auto simp: key_def)
    moreover have "distinct (map (Pair (nt_state_id nt)) ranks)"
      using r by (simp add: distinct_map inj_on_def)
    ultimately show "distinct (map key (sts @ map (SubTask nt) ranks))"
      using inv unfolding map_append ks by (simp add: tasks_inv_def)
  next
    fix st st'
    assume "st \<in> set (sts @ map (SubTask nt) ranks)" "st' \<in> set (sts @ map (SubTask nt) ranks)"
      and eq: "state_id st = state_id st'"
    then consider "st \<in> set sts" "st' \<in> set sts" | "runner_id st = nt_runner_id nt" "runner_id st' = nt_runner_id nt"
      using old [of st] old [of st'] eq by (auto simp: k)
    then show "runner_id st = runner_id st'"
    proof cases
      case 1
      then show ?thesis using inv eq unfolding tasks_inv_def by blast
    qed simp
  qed
qed

definition owner_free :: "task \<Rightarrow> sub_task list \<Rightarrow> bool" where
  "owner_free t sts \<longleftrightarrow> (\<forall>st \<in> set sts. state_id st = task_state_id t \<longrightarrow> runner_id st = task_runner_id t)"

lemma tasks_inv_kill:
  assumes inv: "tasks_inv n ranks us sts" and t: "0 \<le> task_state_id t" "task_state_id t < n"
    and own: "owner_free t sts"
  shows "tasks_inv n ranks (insort_insert (task_state_id t) us) (remove_task t sts)"
proof -
  have rem: "remove_task t sts = filter (\<lambda>st. state_id st \<noteq> task_state_id t) sts"
    using own unfolding remove_task_def owner_free_def by (intro filter_cong) auto
  have "key ` set (remove_task t sts) = {k \<in> key ` set sts. fst k \<noteq> task_state_id t}"
    unfolding rem by (auto simp: key_def)
  also have "\<dots> = ({0..<n} - set (insort_insert (task_state_id t) us)) \<times> set ranks"
    using inv by (auto simp: tasks_inv_def set_insort_insert)
  finally have keys: "key ` set (remove_task t sts) =
      ({0..<n} - set (insort_insert (task_state_id t) us)) \<times> set ranks" .
  have us: "distinct us" "set us \<subseteq> {0..<n}" using inv by (simp_all add: tasks_inv_def)
  show ?thesis
    unfolding tasks_inv_def
  proof (intro conjI)
    show "distinct (insort_insert (task_state_id t) us)"
      using us(1) by (rule distinct_insort_insert)
    show "set (insort_insert (task_state_id t) us) \<subseteq> {0..<n}"
      using us(2) t by (simp add: set_insort_insert)
    show "distinct (map key (remove_task t sts))"
      using inv by (simp add: tasks_inv_def rem distinct_map_filter)
    show "key ` set (remove_task t sts) = ({0..<n} - set (insort_insert (task_state_id t) us)) \<times> set ranks"
      by (rule keys)
    show "\<forall>st \<in> set (remove_task t sts). \<forall>st' \<in> set (remove_task t sts).
        state_id st = state_id st' \<longrightarrow> runner_id st = runner_id st'"
      using inv unfolding tasks_inv_def remove_task_def set_filter by blast
  qed
qed

section \<open>The invariant of a rank\<close>

definition idle_inv :: "'a server \<Rightarrow> bool" where
  "idle_inv s \<longleftrightarrow> om_wf (idle_runners s) \<and>
     (\<forall>(r, conns) \<in> set (idle_runners s). om_wf conns \<and> conns \<noteq> [] \<and>
        r \<notin> task_runner_id ` set (killed s) \<and>
        (\<forall>(rr, ident) \<in> set conns. ident \<noteq> None \<and> rr \<in> set (connected_runner_ranks (the_field s))))"

definition base_inv :: "'a server \<Rightarrow> bool" where
  "base_inv s \<longleftrightarrow> field_ready (comm_rank s) (the_field s) \<and> 0 \<le> ENSEMBLE_SIZE s \<and>
     int (length (ensemble_members (the_field s))) = ENSEMBLE_SIZE s \<and>
     int (length (failcount s)) = ENSEMBLE_SIZE s \<and> idle_inv s"

definition server_inv :: "'a server \<Rightarrow> bool" where
  "server_inv s \<longleftrightarrow> base_inv s \<and>
     tasks_inv (ENSEMBLE_SIZE s) (connected_runner_ranks (the_field s)) (unscheduled_tasks s) (sub_tasks s) \<and>
     (\<forall>st \<in> set (sub_tasks s). task_of st \<notin> set (killed s))"

lemma server_inv_base: "server_inv s \<Longrightarrow> base_inv s"
  by (simp add: server_inv_def)

lemma base_inv_ranks: "base_inv s \<Longrightarrow> distinct (connected_runner_ranks (the_field s))"
  by (simp add: base_inv_def field_ready_def)

lemma server_inv_conserved: "server_inv s \<Longrightarrow> tasks_conserved s"
  unfolding tasks_conserved_def
  using tasks_inv_length [of "ENSEMBLE_SIZE s" "connected_runner_ranks (the_field s)" "unscheduled_tasks s" "sub_tasks s"]
    base_inv_ranks [of s]
  by (simp add: server_inv_def base_inv_def sub_tasks_def add.assoc)

lemma inv_emits [simp]:
  "sub_tasks (emits as s) = sub_tasks s"
  "idle_inv (emits as s) = idle_inv s"
  "base_inv (emits as s) = base_inv s"
  "server_inv (emits as s) = server_inv s"
  by (simp_all add: sub_tasks_def idle_inv_def base_inv_def server_inv_def)

lemma inv_trigger [simp]:
  "sub_tasks (trigger ev p s) = sub_tasks s"
  "base_inv (trigger ev p s) = base_inv s"
  "server_inv (trigger ev p s) = server_inv s"
  by (simp_all add: trigger_def)

section \<open>Idle runners\<close>

lemma idle_inv_lookup:
  assumes "idle_inv s" "map_of (idle_runners s) r = Some conns"
  shows "om_wf conns" "conns \<noteq> []" "r \<notin> task_runner_id ` set (killed s)"
    "map_of conns rr = Some ident \<Longrightarrow> ident \<noteq> None \<and> rr \<in> set (connected_runner_ranks (the_field s))"
  using assms map_of_SomeD [OF assms(2)] map_of_SomeD [of conns rr ident]
  by (fastforce simp: idle_inv_def)+

lemma set_om_erase: "set (om_erase k m) = {p \<in> set m. fst p \<noteq> k}"
  by (auto simp: om_erase_def)

lemma set_om_assign: "set (om_assign k v m) \<subseteq> insert (k, v) (set m)"
  by (induction k v m rule: om_assign.induct) auto

lemma set_om_emplace: "set (om_emplace k v m) \<subseteq> insert (k, v) (set m)"
  by (induction k v m rule: om_emplace.induct) auto

text \<open>What idle\_inv says of the entry of one runner.\<close>

definition conns_ok :: "int list \<Rightarrow> (int, identity option) om \<Rightarrow> bool" where
  "conns_ok ranks conns \<longleftrightarrow> om_wf conns \<and> conns \<noteq> [] \<and>
     (\<forall>(rr, ident) \<in> set conns. ident \<noteq> None \<and> rr \<in> set ranks)"

lemma idle_inv_entries:
  "idle_inv s \<longleftrightarrow> om_wf (idle_runners s) \<and> (\<forall>(r, conns) \<in> set (idle_runners s).
     conns_ok (connected_runner_ranks (the_field s)) conns \<and> r \<notin> task_runner_id ` set (killed s))"
  by (auto simp: idle_inv_def conns_ok_def)

lemma idle_inv_erase: "idle_inv s \<Longrightarrow> idle_inv (s\<lparr>idle_runners := om_erase r (idle_runners s)\<rparr>)"
  by (auto simp: idle_inv_entries om_wf_erase set_om_erase)

lemma idle_inv_assign:
  assumes "idle_inv s" "conns_ok (connected_runner_ranks (the_field s)) conns"
    and "r \<notin> task_runner_id ` set (killed s)"
  shows "idle_inv (s\<lparr>idle_runners := om_assign r conns (idle_runners s)\<rparr>)"
proof -
  have "\<forall>(r', conns') \<in> insert (r, conns) (set (idle_runners s)).
      conns_ok (connected_runner_ranks (the_field s)) conns' \<and> r' \<notin> task_runner_id ` set (killed s)"
    using assms by (auto simp: idle_inv_entries)
  then have "\<forall>(r', conns') \<in> set (om_assign r conns (idle_runners s)).
      conns_ok (connected_runner_ranks (the_field s)) conns' \<and> r' \<notin> task_runner_id ` set (killed s)"
    using set_om_assign [of r conns "idle_runners s"] by blast
  with assms(1) show ?thesis by (simp add: idle_inv_entries om_wf_assign)
qed

lemma idle_inv_after:
  assumes inv: "idle_inv s" and c: "map_of (idle_runners s) (runner_id st) = Some conns"
  shows "idle_inv (s\<lparr>idle_runners := idle_after st conns (idle_runners s)\<rparr>)"
proof -
  have "conns_ok (connected_runner_ranks (the_field s)) conns" "runner_id st \<notin> task_runner_id ` set (killed s)"
    using inv map_of_SomeD [OF c] by (auto simp: idle_inv_entries)
  moreover from this have "conns_ok (connected_runner_ranks (the_field s)) (om_erase (runner_rank st) conns)"
    if "om_erase (runner_rank st) conns \<noteq> []"
    using that by (auto simp: conns_ok_def om_wf_erase set_om_erase)
  ultimately show ?thesis
    using inv by (simp add: idle_after_def idle_inv_erase idle_inv_assign)
qed

section \<open>Launching never fails\<close>

lemma launch_sub_task_total:
  assumes inv: "base_inv s" and i: "ident \<noteq> None" and rr: "rr \<in> set (connected_runner_ranks (the_field s))"
    and sid: "0 \<le> sid" "sid < ENSEMBLE_SIZE s"
  shows "\<exists>as. launch_sub_task ident rr sid s = Inr (emits as s)"
proof -
  let ?f = "the_field s"
  have f: "field_ready (comm_rank s) ?f" using inv by (simp add: base_inv_def)
  then obtain p h where p: "getPart (comm_rank s) rr ?f = Inr p"
      "local_offset_server p + send_count p \<le> local_vect_size ?f"
    and h: "getPartHidden (comm_rank s) rr ?f = Inr h"
      "local_offset_server h + send_count h \<le> local_vect_size_hidden ?f"
    using rr unfolding field_ready_def parts_usable_def by meson
  have len: "nat sid < length (ensemble_members ?f)" using inv sid by (auto simp: base_inv_def)
  let ?em = "ensemble_members ?f ! nat sid"
  have em: "at (ensemble_members ?f) sid = Inr ?em" "?em \<in> set (ensemble_members ?f)"
    using len sid by (simp_all add: at_def)
  have v: "read_vec p (state_analysis ?em) = Inr (subvec (local_offset_server p) (send_count p) (state_analysis ?em))"
    using p(2) member_lengths [OF f em(2)] by (simp add: read_vec_def)
  have hid: "\<exists>x. read_hidden h (state_hidden ?em) = Inr x"
    using h(2) member_lengths [OF f em(2)] by (simp add: read_hidden_def read_vec_def)
  show ?thesis
    using i p(1) h(1) em(1) v hid by (auto simp: launch_sub_task_def trigger_def Let_def)
qed

lemma try_launch_subtask_total:
  assumes inv: "base_inv s" and sid: "0 \<le> state_id st" "state_id st < ENSEMBLE_SIZE s"
  shows "\<exists>b as idle. try_launch_subtask st s = Inr (b, emits as (s\<lparr>idle_runners := idle\<rparr>)) \<and>
     base_inv (s\<lparr>idle_runners := idle\<rparr>)"
proof -
  have "\<exists>b s'. try_launch_subtask st s = Inr (b, s')"
  proof (cases "map_of (idle_runners s) (runner_id st)")
    case None
    then show ?thesis by (auto simp: try_launch_subtask_def)
  next
    case (Some conns)
    show ?thesis
    proof (cases "map_of conns (runner_rank st)")
      case None
      with Some show ?thesis by (auto simp: try_launch_subtask_def)
    next
      case (Some ident)
      with \<open>map_of (idle_runners s) (runner_id st) = Some conns\<close> inv
      have "ident \<noteq> None" "runner_rank st \<in> set (connected_runner_ranks (the_field s))"
        using idle_inv_lookup(4) [of s] by (auto simp: base_inv_def)
      with launch_sub_task_total [OF inv _ _ sid] obtain as
        where "launch_sub_task ident (runner_rank st) (state_id st) s = Inr (emits as s)" by blast
      with Some \<open>map_of (idle_runners s) (runner_id st) = Some conns\<close>
      have "try_launch_subtask st s = and_then (Inr (emits as s)) (\<lambda>s.
          let s = s\<lparr>idle_runners := idle_after st conns (idle_runners s)\<rparr> in
          Inr (True, if runner_rank st = 0 then trigger ''STOP_IDLE_RUNNER'' (runner_id st) s else s))"
        by (simp only: try_launch_subtask_def option.case)
      then show ?thesis unfolding and_then_simps Let_def by (intro exI)
    qed
  qed
  then obtain b s' where r: "try_launch_subtask st s = Inr (b, s')" by blast
  then show ?thesis
  proof (cases rule: try_launch_subtask_cases)
    case kept
    then have "s' = emits [] (s\<lparr>idle_runners := idle_runners s\<rparr>)" by simp
    with r have "try_launch_subtask st s = Inr (b, emits [] (s\<lparr>idle_runners := idle_runners s\<rparr>))" by simp
    moreover have "base_inv (s\<lparr>idle_runners := idle_runners s\<rparr>)" using inv by simp
    ultimately show ?thesis by blast
  next
    case (launched conns ident s1 as)
    from launched(4) obtain bs where "s1 = emits bs s" by (auto dest: launch_sub_task_emits)
    with launched(5) have "s' = emits (bs @ as) (s\<lparr>idle_runners := idle_after st conns (idle_runners s)\<rparr>)"
      by (simp add: emits_update)
    moreover have "base_inv (s\<lparr>idle_runners := idle_after st conns (idle_runners s)\<rparr>)"
      using idle_inv_after [OF _ launched(2)] inv by (simp add: base_inv_def)
    ultimately show ?thesis using r by blast
  qed
qed

section \<open>Scheduling\<close>

text \<open>Idle runners and the lists of sub tasks a rank has scheduled or launched.\<close>

definition launched :: "action list \<Rightarrow> (int, (int, identity option) om) om \<Rightarrow> sub_task list \<Rightarrow>
    sub_task list \<Rightarrow> 'a server \<Rightarrow> 'a server" where
  "launched as idle run sch s = emits as (s\<lparr>idle_runners := idle,
     running_sub_tasks := running_sub_tasks s @ run,
     scheduled_sub_tasks := scheduled_sub_tasks s @ sch\<rparr>)"

lemma launched_fields [simp]:
  "comm_rank (launched as idle run sch s) = comm_rank s"
  "comm_size (launched as idle run sch s) = comm_size s"
  "ENSEMBLE_SIZE (launched as idle run sch s) = ENSEMBLE_SIZE s"
  "the_field (launched as idle run sch s) = the_field s"
  "failcount (launched as idle run sch s) = failcount s"
  "killed (launched as idle run sch s) = killed s"
  "unscheduled_tasks (launched as idle run sch s) = unscheduled_tasks s"
  "finished_sub_tasks (launched as idle run sch s) = finished_sub_tasks s"
  "kill_inbox (launched as idle run sch s) = kill_inbox s"
  "now (launched as idle run sch s) = now s"
  "idle_runners (launched as idle run sch s) = idle"
  "running_sub_tasks (launched as idle run sch s) = running_sub_tasks s @ run"
  "scheduled_sub_tasks (launched as idle run sch s) = scheduled_sub_tasks s @ sch"
  by (simp_all add: launched_def)

lemma mset_sub_tasks_launched:
  "mset (sub_tasks (launched as idle run sch s)) = mset (sub_tasks s) + mset run + mset sch"
  by (simp add: sub_tasks_def)

lemma add_sub_tasks_loop_total:
  assumes "base_inv s" "0 \<le> nt_state_id nt" "nt_state_id nt < ENSEMBLE_SIZE s"
  shows "\<exists>as idle run sch. add_sub_tasks_loop nt rs s = Inr (launched as idle run sch s) \<and>
     base_inv (launched as idle run sch s) \<and> mset run + mset sch = mset (map (SubTask nt) rs)"
  using assms
proof (induction rs arbitrary: s)
  case Nil
  have "s = launched [] (idle_runners s) [] [] s" by (simp add: launched_def)
  with Nil show ?case by (intro exI [of _ "[]"] exI [of _ "idle_runners s"]) simp
next
  case (Cons r rs)
  have sid: "state_id (SubTask nt r) = nt_state_id nt" by (simp add: SubTask_def)
  obtain b as idle where t: "try_launch_subtask (SubTask nt r) s = Inr (b, emits as (s\<lparr>idle_runners := idle\<rparr>))"
      and i: "base_inv (s\<lparr>idle_runners := idle\<rparr>)"
    using try_launch_subtask_total [of s "SubTask nt r"] Cons.prems by (auto simp: sid)
  let ?one = "launched as idle (if b then [SubTask nt r] else []) (if b then [] else [SubTask nt r]) s"
  have step: "add_sub_tasks_loop nt (r # rs) s = add_sub_tasks_loop nt rs ?one"
    using t by (simp add: launched_def emits_update)
  have "base_inv ?one" using i by (simp add: base_inv_def idle_inv_def launched_def)
  then obtain as' idle' run sch where
      l: "add_sub_tasks_loop nt rs ?one = Inr (launched as' idle' run sch ?one)"
      "base_inv (launched as' idle' run sch ?one)" "mset run + mset sch = mset (map (SubTask nt) rs)"
    using Cons.IH [of ?one] Cons.prems by auto
  let ?run = "(if b then [SubTask nt r] else []) @ run" and ?sch = "(if b then [] else [SubTask nt r]) @ sch"
  have two: "launched as' idle' run sch ?one = launched (as @ as') idle' ?run ?sch s"
    by (simp add: launched_def emits_update)
  have "mset ?run + mset ?sch = mset (map (SubTask nt) (r # rs))"
    using l(3) by auto
  with step l(1,2) two show ?case by metis
qed

lemma base_inv_unscheduled [simp]: "base_inv (s\<lparr>unscheduled_tasks := us\<rparr>) = base_inv s"
  by (simp add: base_inv_def idle_inv_def)

lemma sub_tasks_unscheduled [simp]: "sub_tasks (s\<lparr>unscheduled_tasks := us\<rparr>) = sub_tasks s"
  by (simp add: sub_tasks_def)

lemma add_sub_tasks_total:
  assumes inv: "server_inv s" and sid: "nt_state_id nt \<in> set (unscheduled_tasks s)"
    and k: "Task (nt_state_id nt) (nt_runner_id nt) \<notin> set (killed s)"
  shows "\<exists>as idle run sch. add_sub_tasks nt s = Inr (launched as idle run sch
       (s\<lparr>unscheduled_tasks := filter (\<lambda>i. i \<noteq> nt_state_id nt) (unscheduled_tasks s)\<rparr>)) \<and>
     mset run + mset sch = mset (map (SubTask nt) (connected_runner_ranks (the_field s))) \<and>
     server_inv (launched as idle run sch
       (s\<lparr>unscheduled_tasks := filter (\<lambda>i. i \<noteq> nt_state_id nt) (unscheduled_tasks s)\<rparr>))"
proof -
  let ?s = "s\<lparr>unscheduled_tasks := filter (\<lambda>i. i \<noteq> nt_state_id nt) (unscheduled_tasks s)\<rparr>"
  let ?ranks = "connected_runner_ranks (the_field s)"
  have b: "base_inv ?s" using inv by (simp add: server_inv_def)
  have rng: "0 \<le> nt_state_id nt" "nt_state_id nt < ENSEMBLE_SIZE ?s"
    using inv sid by (auto simp: server_inv_def tasks_inv_def)
  obtain as idle run sch where l: "add_sub_tasks_loop nt ?ranks ?s = Inr (launched as idle run sch ?s)"
      "base_inv (launched as idle run sch ?s)" "mset run + mset sch = mset (map (SubTask nt) ?ranks)"
    using add_sub_tasks_loop_total [OF b rng, of ?ranks] by blast
  have ne: "?ranks \<noteq> []" using inv by (simp add: server_inv_def base_inv_def field_ready_def)
  have m: "mset (sub_tasks (launched as idle run sch ?s)) = mset (sub_tasks s @ map (SubTask nt) ?ranks)"
    using l(3) by (simp add: mset_sub_tasks_launched add.assoc)
  have "tasks_inv (ENSEMBLE_SIZE s) ?ranks (filter (\<lambda>i. i \<noteq> nt_state_id nt) (unscheduled_tasks s))
      (sub_tasks (launched as idle run sch ?s))"
    unfolding tasks_inv_perm [OF m]
    by (rule tasks_inv_schedule) (use inv sid base_inv_ranks in \<open>auto simp: server_inv_def\<close>)
  moreover have "\<forall>st \<in> set (sub_tasks (launched as idle run sch ?s)). task_of st \<notin> set (killed s)"
    using inv k unfolding mset_eq_setD [OF m] by (auto simp: server_inv_def SubTask_def task_of_def)
  ultimately have "server_inv (launched as idle run sch ?s)"
    using l(2) by (simp add: server_inv_def)
  moreover have "add_sub_tasks nt s = Inr (launched as idle run sch ?s)"
    using l(1) sid ne by (simp add: add_sub_tasks_def)
  ultimately show ?thesis using l(3) by blast
qed

text \<open>Rank 0 schedules a state on a runner that was not killed: this always succeeds.\<close>

definition scheduled_task :: "int \<Rightarrow> 'a server \<Rightarrow> new_task" where
  "scheduled_task r s = \<lparr>nt_runner_id = r, nt_state_id = hd (unscheduled_tasks s),
     nt_due_date = get_due_date s, nt_task_id = task_id s + 1\<rparr>"

lemma inv_task_id [simp]:
  "server_inv (s\<lparr>task_id := t, finished_ranks := f\<rparr>) = server_inv s"
  "sub_tasks (s\<lparr>task_id := t, finished_ranks := f\<rparr>) = sub_tasks s"
  by (simp_all add: server_inv_def base_inv_def idle_inv_def sub_tasks_def)

lemma schedule_new_task_total:
  assumes inv: "server_inv s" and c: "comm_rank s = 0" and r: "r \<notin> task_runner_id ` set (killed s)"
    and u: "unscheduled_tasks s \<noteq> []"
  shows "\<exists>as idle run sch. schedule_new_task r s = Inr (True,
       emits (map (\<lambda>k. Mpi_send k (New_task (scheduled_task r s))) [1..comm_size s - 1])
         (launched as idle run sch (s\<lparr>task_id := task_id s + 1, finished_ranks := 0,
            unscheduled_tasks := tl (unscheduled_tasks s)\<rparr>))) \<and>
     mset run + mset sch = mset (map (SubTask (scheduled_task r s)) (connected_runner_ranks (the_field s))) \<and>
     server_inv (launched as idle run sch (s\<lparr>task_id := task_id s + 1, finished_ranks := 0,
            unscheduled_tasks := tl (unscheduled_tasks s)\<rparr>))"
proof -
  obtain sid rest where us: "unscheduled_tasks s = sid # rest" using u by (cases "unscheduled_tasks s") auto
  let ?s = "s\<lparr>task_id := task_id s + 1, finished_ranks := 0\<rparr>" and ?nt = "scheduled_task r s"
  have nt: "nt_state_id ?nt = sid" "nt_runner_id ?nt = r" by (simp_all add: scheduled_task_def us)
  have "distinct (sid # rest)" using inv us by (simp add: server_inv_def tasks_inv_def)
  then have tl: "filter (\<lambda>i. i \<noteq> nt_state_id ?nt) (unscheduled_tasks ?s) = tl (unscheduled_tasks s)"
    using us by (auto simp: nt filter_id_conv)
  have "Task sid r \<notin> set (killed s)" using r by force
  then obtain as idle run sch where a: "add_sub_tasks ?nt ?s = Inr (launched as idle run sch
       (?s\<lparr>unscheduled_tasks := tl (unscheduled_tasks s)\<rparr>))"
     "mset run + mset sch = mset (map (SubTask ?nt) (connected_runner_ranks (the_field s)))"
     "server_inv (launched as idle run sch (?s\<lparr>unscheduled_tasks := tl (unscheduled_tasks s)\<rparr>))"
    using add_sub_tasks_total [of ?s ?nt] inv us unfolding tl by (auto simp: nt)
  have "\<lparr>nt_runner_id = r, nt_state_id = sid, nt_due_date = get_due_date (s\<lparr>task_id := task_id s + 1\<rparr>),
      nt_task_id = task_id s + 1\<rparr> = ?nt"
    by (simp add: scheduled_task_def us get_due_date_def)
  then have "schedule_new_task r s = and_then (add_sub_tasks ?nt ?s) (\<lambda>s'.
      Inr (True, emits (map (\<lambda>k. Mpi_send k (New_task ?nt)) [1..comm_size s' - 1]) s'))"
    using c us by (simp add: schedule_new_task_def Let_def)
  then show ?thesis using a by auto
qed

section \<open>Killing\<close>

lemma kill_task_eq:
  "kill_task t s = emits (kill_frames (task_runner_id t) (current_step s) (idle_runners s)) (s\<lparr>unscheduled_tasks := insort_insert (task_state_id t) (unscheduled_tasks s),
     idle_runners := om_erase (task_runner_id t) (idle_runners s), killed := insort_insert t (killed s),
     running_sub_tasks := remove_task t (running_sub_tasks s),
     finished_sub_tasks := remove_task t (finished_sub_tasks s),
     scheduled_sub_tasks := remove_task t (scheduled_sub_tasks s)\<rparr>)"
  by (simp add: kill_task_def erase_idle_runner_eq emits_update)

lemma kill_task_fields [simp]:
  "comm_rank (kill_task t s) = comm_rank s" "comm_size (kill_task t s) = comm_size s"
  "killed (kill_task t s) = insort_insert t (killed s)" "kill_inbox (kill_task t s) = kill_inbox s"
  "ENSEMBLE_SIZE (kill_task t s) = ENSEMBLE_SIZE s" "failcount (kill_task t s) = failcount s"
  "the_field (kill_task t s) = the_field s" "now (kill_task t s) = now s"
  "report_timing (kill_task t s) = report_timing s"
  "MAX_RUNNER_TIMEOUT (kill_task t s) = MAX_RUNNER_TIMEOUT s"
  "unscheduled_tasks (kill_task t s) = insort_insert (task_state_id t) (unscheduled_tasks s)"
  "idle_runners (kill_task t s) = om_erase (task_runner_id t) (idle_runners s)"
  "scheduled_sub_tasks (kill_task t s) = remove_task t (scheduled_sub_tasks s)"
  "running_sub_tasks (kill_task t s) = remove_task t (running_sub_tasks s)"
  "finished_sub_tasks (kill_task t s) = remove_task t (finished_sub_tasks s)"
  by (simp_all add: kill_task_eq)

lemma sub_tasks_kill [simp]: "sub_tasks (kill_task t s) = remove_task t (sub_tasks s)"
  by (simp add: sub_tasks_def remove_task_def)

definition owned :: "task \<Rightarrow> 'a server \<Rightarrow> bool" where
  "owned t s \<longleftrightarrow> (\<exists>st \<in> set (sub_tasks s). task_of st = t)"

lemma in_remove_task: "st \<in> set (remove_task t sts) \<longleftrightarrow> st \<in> set sts \<and> task_of st \<noteq> t"
  by (cases t) (auto simp: remove_task_def task_of_def)

lemma owned_state:
  assumes "server_inv s" "owned t s"
  shows "0 \<le> task_state_id t" "task_state_id t < ENSEMBLE_SIZE s" "owner_free t (sub_tasks s)"
    "task_state_id t \<notin> set (unscheduled_tasks s)"
proof -
  obtain st where st: "st \<in> set (sub_tasks s)" "task_of st = t" using assms(2) by (auto simp: owned_def)
  then have "key st \<in> ({0..<ENSEMBLE_SIZE s} - set (unscheduled_tasks s)) \<times>
      set (connected_runner_ranks (the_field s))"
    using assms(1) unfolding server_inv_def tasks_inv_def by blast
  then show "0 \<le> task_state_id t" "task_state_id t < ENSEMBLE_SIZE s"
      "task_state_id t \<notin> set (unscheduled_tasks s)"
    using st(2) by (auto simp: key_def task_of_def)
  show "owner_free t (sub_tasks s)"
    unfolding owner_free_def
  proof (intro ballI impI)
    fix st'
    assume "st' \<in> set (sub_tasks s)" "state_id st' = task_state_id t"
    then have "runner_id st' = runner_id st"
      using assms(1) st unfolding server_inv_def tasks_inv_def by (metis task.sel(1) task_of_def)
    then show "runner_id st' = task_runner_id t" using st(2) by (auto simp: task_of_def)
  qed
qed

lemma idle_inv_kill: "idle_inv s \<Longrightarrow> idle_inv (kill_task t s)"
  by (fastforce simp: idle_inv_entries om_wf_erase set_om_erase set_insort_insert)

lemma kill_task_inv:
  assumes inv: "server_inv s" and t: "0 \<le> task_state_id t" "task_state_id t < ENSEMBLE_SIZE s"
    and own: "owner_free t (sub_tasks s)"
  shows "server_inv (kill_task t s)"
proof -
  have "base_inv (kill_task t s)"
    using inv by (simp add: server_inv_def base_inv_def idle_inv_kill)
  moreover have "tasks_inv (ENSEMBLE_SIZE s) (connected_runner_ranks (the_field s))
      (insort_insert (task_state_id t) (unscheduled_tasks s)) (remove_task t (sub_tasks s))"
    by (rule tasks_inv_kill) (use inv t own in \<open>auto simp: server_inv_def\<close>)
  moreover have "\<forall>st \<in> set (remove_task t (sub_tasks s)). task_of st \<notin> set (insort_insert t (killed s))"
    using inv by (auto simp: server_inv_def in_remove_task set_insort_insert)
  ultimately show ?thesis by (simp add: server_inv_def)
qed

section \<open>Outcomes of the handlers\<close>

text \<open>A handler either ends in a state with the postcondition or exits the server with status 1.\<close>

definition outcome :: "('a server \<Rightarrow> bool) \<Rightarrow> ('a, 'a server) sres \<Rightarrow> bool" where
  "outcome Q m \<longleftrightarrow> (case m of Inl (e, _) \<Rightarrow> e = Exit 1 | Inr s \<Rightarrow> Q s)"

lemma outcome_Inr [simp]: "outcome Q (Inr s) = Q s"
  by (simp add: outcome_def)

lemma outcome_and_then:
  assumes "outcome P m" "\<And>s. P s \<Longrightarrow> outcome Q (f s)"
  shows "outcome Q (and_then m f)"
  using assms by (cases m) (auto simp: outcome_def)

lemma outcome_mono: "outcome P m \<Longrightarrow> (\<And>s. P s \<Longrightarrow> Q s) \<Longrightarrow> outcome Q m"
  by (cases m) (auto simp: outcome_def)

text \<open>
  \<open>progress ts s s'\<close>: the tasks of \<open>ts\<close> were killed, every other task kept its runner.
\<close>

definition progress :: "task set \<Rightarrow> 'a server \<Rightarrow> 'a server \<Rightarrow> bool" where
  "progress ts s s' \<longleftrightarrow> server_inv s' \<and> comm_rank s' = comm_rank s \<and> comm_size s' = comm_size s \<and>
     kill_inbox s' = kill_inbox s \<and> set (killed s') = set (killed s) \<union> ts \<and>
     (\<forall>t. t \<notin> ts \<longrightarrow> owned t s \<longrightarrow> owned t s')"

lemma progress_refl: "server_inv s \<Longrightarrow> progress {} s s"
  by (simp add: progress_def)

lemma progress_trans: "progress a s s' \<Longrightarrow> progress b s' s'' \<Longrightarrow> progress (a \<union> b) s s''"
  unfolding progress_def by (auto simp: Un_assoc)

lemma owned_launched: "owned t s \<Longrightarrow> owned t (launched as idle run sch s)"
  by (auto simp: owned_def sub_tasks_def)

lemma owned_emits [simp]: "owned t (emits as s) = owned t s"
  by (simp add: owned_def)

lemma schedule_new_task_progress:
  assumes inv: "server_inv s" and c: "comm_rank s = 0" and r: "r \<notin> task_runner_id ` set (killed s)"
  shows "\<exists>b s'. schedule_new_task r s = Inr (b, s') \<and> progress {} s s'"
proof (cases "unscheduled_tasks s = []")
  case True
  then show ?thesis using c progress_refl [OF inv] by (auto simp: schedule_new_task_def)
next
  case False
  let ?s = "s\<lparr>task_id := task_id s + 1, finished_ranks := 0, unscheduled_tasks := tl (unscheduled_tasks s)\<rparr>"
  let ?sends = "map (\<lambda>k. Mpi_send k (New_task (scheduled_task r s))) [1..comm_size s - 1]"
  obtain as idle run sch where l:
      "schedule_new_task r s = Inr (True, emits ?sends (launched as idle run sch ?s))"
      "server_inv (launched as idle run sch ?s)"
    using schedule_new_task_total [OF inv c r False] by blast
  have "owned t s \<Longrightarrow> owned t (launched as idle run sch ?s)" for t
    by (auto simp: owned_def sub_tasks_def)
  then have "progress {} s (emits ?sends (launched as idle run sch ?s))"
    using l(2) by (simp add: progress_def)
  with l(1) show ?thesis by blast
qed

lemma first_idle_not_killed:
  assumes "base_inv s" "get_completely_idle_runner s \<noteq> None"
  shows "fst (hd (idle_runners s)) \<notin> task_runner_id ` set (killed s)"
proof -
  have "idle_runners s \<noteq> []" using assms(2) by (auto simp: get_completely_idle_runner_def)
  then have "hd (idle_runners s) \<in> set (idle_runners s)" by simp
  with assms(1) show ?thesis by (auto simp: base_inv_def idle_inv_entries split_def)
qed

lemma reschedule_directly_progress:
  assumes "server_inv s" "comm_rank s = 0"
  shows "\<exists>s'. reschedule_directly s = Inr s' \<and> progress {} s s'"
proof (cases "get_completely_idle_runner s")
  case None
  then show ?thesis using progress_refl [OF assms(1)] by (simp add: reschedule_directly_def)
next
  case (Some r)
  then show ?thesis
    using schedule_new_task_progress [OF assms first_idle_not_killed [OF server_inv_base [OF assms(1)]]]
    by (auto simp: reschedule_directly_def)
qed

lemma server_inv_failcount:
  "length fc = length (failcount s) \<Longrightarrow> server_inv (s\<lparr>failcount := fc\<rparr>) = server_inv s"
  by (simp add: server_inv_def base_inv_def idle_inv_def sub_tasks_def)

lemma fail_state_outcome:
  assumes "comm_rank s = 0" "0 \<le> sid" "sid < int (length (failcount s))"
  shows "outcome (\<lambda>s'. \<exists>n. s' = s\<lparr>failcount := (failcount s)[nat sid := n]\<rparr> \<and> n \<le> MAX_FAIL_COUNT)
    (fail_state sid s)"
  using assms by (auto simp: fail_state_def at_def outcome_def fail_with_def Let_def)

lemma progress_kill:
  assumes "server_inv s" "owned t s"
  shows "progress {t} s (kill_task t s)"
  using kill_task_inv [OF assms(1) owned_state(1-3) [OF assms]]
  by (auto simp: progress_def set_insort_insert owned_def in_remove_task)

lemma progress_emits [simp]:
  "progress ts s (emits as s') = progress ts s s'"
  "progress ts (emits as s) s' = progress ts s s'"
  by (simp_all add: progress_def)

lemma owned_failcount [simp]: "owned t (s\<lparr>failcount := fc\<rparr>) = owned t s"
  by (simp add: owned_def sub_tasks_def)

lemma progress_failcount:
  "length fc = length (failcount s') \<Longrightarrow> progress ts s (s'\<lparr>failcount := fc\<rparr>) = progress ts s s'"
  by (simp add: progress_def server_inv_failcount)

text \<open>After the failure was counted the state is scheduled again.\<close>

lemma fail_and_reschedule_outcome:
  assumes "progress ts s s1" "comm_rank s = 0" "0 \<le> sid" "sid < ENSEMBLE_SIZE s1"
  shows "outcome (progress ts s) (and_then (fail_state sid s1) reschedule_directly)"
proof (rule outcome_and_then)
  have inv: "server_inv s1" "comm_rank s1 = 0" using assms by (auto simp: progress_def)
  show "outcome (\<lambda>s'. \<exists>n. s' = s1\<lparr>failcount := (failcount s1)[nat sid := n]\<rparr> \<and> n \<le> MAX_FAIL_COUNT)
      (fail_state sid s1)"
    by (rule fail_state_outcome) (use inv assms in \<open>auto simp: server_inv_def base_inv_def\<close>)
  fix s2
  assume "\<exists>n. s2 = s1\<lparr>failcount := (failcount s1)[nat sid := n]\<rparr> \<and> n \<le> MAX_FAIL_COUNT"
  then have p: "progress ts s s2" using assms(1) by (auto simp: progress_failcount)
  then have "server_inv s2" "comm_rank s2 = 0" using assms(2) by (auto simp: progress_def)
  from reschedule_directly_progress [OF this] obtain s3 where
    "reschedule_directly s2 = Inr s3" "progress {} s2 s3" by blast
  with progress_trans [OF p] show "outcome (progress ts s) (reschedule_directly s2)" by fastforce
qed

section \<open>Due dates\<close>

lemma due_date_passed_outcome:
  assumes inv: "server_inv s" and own: "owned t s"
  shows "outcome (progress {t} s) (due_date_passed t s)"
proof (cases "comm_rank s = 0")
  case True
  obtain as where eq: "due_date_passed t s =
      and_then (fail_state (task_state_id t) (emits as (kill_task t s))) reschedule_directly"
    using True by (auto simp: due_date_passed_def trigger_def emit_emits Let_def)
  show ?thesis
    unfolding eq
    by (rule fail_and_reschedule_outcome)
      (use progress_kill [OF inv own] owned_state [OF inv own] True in simp_all)
next
  case False
  then show ?thesis using progress_kill [OF inv own] by (simp add: due_date_passed_def emit_emits)
qed

lemma due_dates_loop_outcome:
  "server_inv s \<Longrightarrow> distinct ts \<Longrightarrow> (\<forall>t \<in> set ts. owned t s) \<Longrightarrow>
     outcome (progress (set ts) s) (due_dates_loop ts s)"
proof (induction ts arbitrary: s)
  case Nil
  then show ?case by (simp add: progress_refl)
next
  case (Cons t ts)
  have "outcome (progress (set (t # ts)) s) (and_then (due_date_passed t s) (due_dates_loop ts))"
  proof (rule outcome_and_then)
    show "outcome (progress {t} s) (due_date_passed t s)"
      by (rule due_date_passed_outcome) (use Cons.prems in auto)
    fix s1
    assume p: "progress {t} s s1"
    then have "outcome (progress (set ts) s1) (due_dates_loop ts s1)"
      using Cons.prems by (intro Cons.IH) (auto simp: progress_def)
    then show "outcome (progress (set (t # ts)) s) (due_dates_loop ts s1)"
      by (rule outcome_mono) (use progress_trans [OF p] in auto)
  qed
  then show ?case by simp
qed

lemma set_overdue: "set (overdue s) = task_of ` {st \<in> set (scheduled_sub_tasks s @ running_sub_tasks s). now s > due_date st}"
proof -
  have "set (fold (insort_insert \<circ> task_of) sts ts) = task_of ` set sts \<union> set ts" for sts ts
    by (induction sts arbitrary: ts) (auto simp: set_insort_insert)
  then show ?thesis unfolding overdue_def by auto
qed

lemma distinct_overdue: "distinct (overdue s)"
proof -
  have "distinct ts \<Longrightarrow> distinct (fold (insort_insert \<circ> task_of) sts ts)" for sts ts
    by (induction sts arbitrary: ts) (auto simp: distinct_insort_insert)
  then show ?thesis by (simp add: overdue_def)
qed

lemma check_due_dates_outcome:
  assumes "server_inv s"
  shows "outcome (progress (set (overdue s)) s) (check_due_dates s)"
  unfolding check_due_dates_def
  by (rule due_dates_loop_outcome [OF assms distinct_overdue])
    (auto simp: set_overdue owned_def sub_tasks_def)

end
