(* ===== verification/ServerHandlers.thy ===== *)
theory ServerHandlers
  imports ServerInv
begin

text \<open>
  The invariant of the scheduler through the remaining handlers: kill requests of other ranks,
  new tasks of rank 0, responses of runners, the update step. The interface of the assimilator
  is a locale; what it promises is that the shape of the field stays.
\<close>

section \<open>Kill requests\<close>

text \<open>
  Every request waiting on rank 0 names a task that rank 0 has already killed or that its state
  is still assigned to. Rank 0 alone assigns states, and takes one from its runner only by
  killing the task, so a request can name no other.
\<close>

definition requests_valid :: "'a server \<Rightarrow> bool" where
  "requests_valid s \<longleftrightarrow> (\<forall>k. \<forall>(sid, r) \<in> set (kill_inbox s k).
     Task sid r \<in> set (killed s) \<or> owned (Task sid r) s)"

lemma kill_task_again: "kill_task t (s\<lparr>killed := insort_insert t (killed s)\<rparr>) = kill_task t s"
proof -
  have "insort_insert t (insort_insert t (killed s)) = insort_insert t (killed s)"
    by (rule insort_insert_triv) (simp add: set_insort_insert)
  then show ?thesis by (simp add: kill_task_eq)
qed

lemma kill_task_failcount:
  "kill_task t (s\<lparr>failcount := fc\<rparr>) = (kill_task t s)\<lparr>failcount := fc\<rparr>"
  by (simp add: kill_task_eq emits_def)

lemma progress_killed: "t \<in> set (killed s) \<Longrightarrow> progress {} s s' \<Longrightarrow> progress {t} s s'"
  by (auto simp: progress_def)

lemma handle_kill_request_outcome:
  assumes inv: "server_inv s" and c: "comm_rank s = 0" and v: "t \<in> set (killed s) \<or> owned t s"
  shows "outcome (progress {t} s) (handle_kill_request t s)"
proof -
  define as where "as = (if report_timing s \<and> task_runner_id t \<notin> task_runner_id ` set (killed s)
     then [Trigger ''REMOVE_RUNNER'' (task_runner_id t), Launcher_notify (task_runner_id t) TIMEOUT] else [])"
  let ?s = "emits as s"
  have eq: "handle_kill_request t s = (if t \<in> set (killed s) then Inr ?s
     else and_then (fail_state (task_state_id t) (?s\<lparr>killed := insort_insert t (killed s)\<rparr>)) (\<lambda>s.
          reschedule_directly (kill_task t s)))"
    using c by (simp add: handle_kill_request_def as_def trigger_def emit_emits Let_def)
  show ?thesis
  proof (cases "t \<in> set (killed s)")
    case True
    then show ?thesis using progress_killed [OF True progress_refl [OF inv]] by (simp add: eq)
  next
    case False
    with v have own: "owned t s" by simp
    let ?k = "?s\<lparr>killed := insort_insert t (killed s)\<rparr>"
    have "outcome (progress {t} s) (and_then (fail_state (task_state_id t) ?k) (\<lambda>s.
          reschedule_directly (kill_task t s)))"
    proof (rule outcome_and_then)
      show "outcome (\<lambda>s'. \<exists>n. s' = ?k\<lparr>failcount := (failcount ?k)[nat (task_state_id t) := n]\<rparr> \<and> n \<le> MAX_FAIL_COUNT)
          (fail_state (task_state_id t) ?k)"
        by (rule fail_state_outcome)
          (use inv c owned_state [OF inv own] in \<open>auto simp: server_inv_def base_inv_def\<close>)
      fix s1
      assume "\<exists>n. s1 = ?k\<lparr>failcount := (failcount ?k)[nat (task_state_id t) := n]\<rparr> \<and> n \<le> MAX_FAIL_COUNT"
      then obtain n where s1: "s1 = ?k\<lparr>failcount := (failcount s)[nat (task_state_id t) := n]\<rparr>" by auto
      have "kill_task t s1 = (kill_task t ?s)\<lparr>failcount := (failcount s)[nat (task_state_id t) := n]\<rparr>"
        unfolding s1 kill_task_failcount using kill_task_again [of t ?s] by simp
      moreover have "progress {t} s (kill_task t ?s)"
        using progress_kill [of ?s t] inv own by simp
      ultimately have p: "progress {t} s (kill_task t s1)"
        by (simp add: progress_failcount)
      then have "server_inv (kill_task t s1)" "comm_rank (kill_task t s1) = 0"
        using c by (auto simp: progress_def)
      from reschedule_directly_progress [OF this] obtain s3 where
        "reschedule_directly (kill_task t s1) = Inr s3" "progress {} (kill_task t s1) s3" by blast
      with progress_trans [OF p] show "outcome (progress {t} s) (reschedule_directly (kill_task t s1))"
        by fastforce
    qed
    with False show ?thesis by (simp add: eq)
  qed
qed

lemma inv_kill_inbox [simp]:
  "server_inv (s\<lparr>kill_inbox := b\<rparr>) = server_inv s" "owned t (s\<lparr>kill_inbox := b\<rparr>) = owned t s"
  by (simp_all add: server_inv_def base_inv_def idle_inv_def sub_tasks_def owned_def)

lemma requests_valid_progress: "requests_valid s \<Longrightarrow> progress ts s s' \<Longrightarrow> requests_valid s'"
  unfolding requests_valid_def progress_def by fastforce

lemma kill_requests_loop_outcome:
  "server_inv s \<Longrightarrow> comm_rank s = 0 \<Longrightarrow> requests_valid s \<Longrightarrow>
     outcome (\<lambda>s'. server_inv s' \<and> comm_rank s' = 0 \<and> requests_valid s') (kill_requests_loop ds s)"
proof (induction ds arbitrary: s)
  case (Cons d ds)
  show ?case
  proof (cases "kill_inbox s d")
    case Nil
    then show ?thesis using Cons by simp
  next
    case (Cons req rest)
    obtain sid r where req: "req = (sid, r)" by fastforce
    let ?s = "s\<lparr>kill_inbox := (kill_inbox s)(d := rest)\<rparr>"
    have v: "requests_valid ?s" "Task sid r \<in> set (killed ?s) \<or> owned (Task sid r) ?s"
    proof -
      have sub: "set (kill_inbox ?s k) \<subseteq> set (kill_inbox s k)" for k by (cases "k = d") (auto simp: Cons)
      show "requests_valid ?s"
        using Cons.prems(3) sub unfolding requests_valid_def by fastforce
      have "(sid, r) \<in> set (kill_inbox s d)" by (simp add: Cons req)
      with Cons.prems(3) show "Task sid r \<in> set (killed ?s) \<or> owned (Task sid r) ?s"
        unfolding requests_valid_def by fastforce
    qed
    have "outcome (\<lambda>s'. server_inv s' \<and> comm_rank s' = 0 \<and> requests_valid s')
        (and_then (handle_kill_request (Task sid r) ?s) (kill_requests_loop ds))"
    proof (rule outcome_and_then)
      show "outcome (progress {Task sid r} ?s) (handle_kill_request (Task sid r) ?s)"
        by (rule handle_kill_request_outcome) (use Cons.prems v in auto)
      fix s1
      assume p: "progress {Task sid r} ?s s1"
      show "outcome (\<lambda>s'. server_inv s' \<and> comm_rank s' = 0 \<and> requests_valid s') (kill_requests_loop ds s1)"
        by (rule Cons.IH) (use p Cons.prems requests_valid_progress [OF v(1) p] in \<open>auto simp: progress_def\<close>)
    qed
    then show ?thesis using Cons req by simp
  qed
qed simp

lemma check_kill_requests_outcome:
  "server_inv s \<Longrightarrow> comm_rank s = 0 \<Longrightarrow> requests_valid s \<Longrightarrow>
     outcome (\<lambda>s'. server_inv s' \<and> comm_rank s' = 0 \<and> requests_valid s') (check_kill_requests s)"
  using kill_requests_loop_outcome by (simp add: check_kill_requests_def)

section \<open>New tasks on the other ranks\<close>

lemma outdated_eq:
  "outdated sid st s =
     (if state_id st \<noteq> sid \<or> task_of st \<in> set (killed s) then s
      else emits (kill_frames (runner_id st) (current_step s) (idle_runners s))
        (s\<lparr>killed := insort_insert (task_of st) (killed s),
           unscheduled_tasks := insort_insert sid (unscheduled_tasks s),
           idle_runners := om_erase (runner_id st) (idle_runners s)\<rparr>))"
  by (auto simp: outdated_def erase_idle_runner_eq emits_update Let_def insort_insert_triv set_insort_insert)

lemma fold_outdated_none:
  "(\<forall>st \<in> set sts. state_id st \<noteq> sid \<or> task_of st \<in> set (killed s)) \<Longrightarrow> fold (outdated sid) sts s = s"
  by (induction sts) (auto simp: outdated_def)

text \<open>All sub tasks of the state are on one runner: the first of them kills the task.\<close>

lemma fold_outdated:
  assumes "\<forall>st \<in> set sts. state_id st = sid \<longrightarrow> task_of st = Task sid r"
  shows "fold (outdated sid) sts s =
     (if (\<exists>st \<in> set sts. state_id st = sid) \<and> Task sid r \<notin> set (killed s)
      then emits (kill_frames r (current_step s) (idle_runners s))
        (s\<lparr>killed := insort_insert (Task sid r) (killed s),
           unscheduled_tasks := insort_insert sid (unscheduled_tasks s),
           idle_runners := om_erase r (idle_runners s)\<rparr>)
      else s)"
  using assms
proof (induction sts)
  case (Cons st sts)
  show ?case
  proof (cases "state_id st = sid")
    case False
    with Cons show ?thesis by (simp add: outdated_def)
  next
    case True
    with Cons.prems have t: "task_of st = Task sid r" "runner_id st = r" by (auto simp: task_of_def)
    show ?thesis
    proof (cases "Task sid r \<in> set (killed s)")
      case True
      with Cons t show ?thesis by (simp add: outdated_def)
    next
      case False
      let ?k = "emits (kill_frames r (current_step s) (idle_runners s))
        (s\<lparr>killed := insort_insert (Task sid r) (killed s),
           unscheduled_tasks := insort_insert sid (unscheduled_tasks s),
           idle_runners := om_erase r (idle_runners s)\<rparr>)"
      have "fold (outdated sid) sts ?k = ?k"
        by (rule fold_outdated_none) (use Cons.prems in \<open>auto simp: set_insort_insert\<close>)
      with False True t show ?thesis by (simp add: outdated_eq [of sid st s])
    qed
  qed
qed simp

lemma keep_other_states_owner:
  "(\<forall>st \<in> set sts. state_id st = sid \<longrightarrow> task_of st = Task sid r) \<Longrightarrow>
     keep_other_states sid sts = remove_task (Task sid r) sts"
  unfolding keep_other_states_def remove_task_def by (intro filter_cong) (auto simp: task_of_def)

text \<open>
  A state that was assigned to a runner is taken from it exactly as kill\_task does; a state that
  was not is left alone.
\<close>

lemma forget_state_owned:
  assumes inv: "server_inv s" and own: "owned (Task sid r) s"
  shows "forget_state sid s = kill_task (Task sid r) s"
proof -
  have o: "\<forall>st \<in> set (sub_tasks s). state_id st = sid \<longrightarrow> task_of st = Task sid r"
    using owned_state(3) [OF inv own] by (auto simp: owner_free_def task_of_def)
  then have os: "\<forall>st \<in> set (scheduled_sub_tasks s). state_id st = sid \<longrightarrow> task_of st = Task sid r"
      "\<forall>st \<in> set (running_sub_tasks s). state_id st = sid \<longrightarrow> task_of st = Task sid r"
      "\<forall>st \<in> set (finished_sub_tasks s). state_id st = sid \<longrightarrow> task_of st = Task sid r"
    by (auto simp: sub_tasks_def)
  obtain st where st: "st \<in> set (sub_tasks s)" "task_of st = Task sid r"
    using own by (auto simp: owned_def)
  then have nk: "Task sid r \<notin> set (killed s)" using inv by (auto simp: server_inv_def)
  have "state_id st = sid" using st(2) by (simp add: task_of_def)
  then have some: "(\<exists>st \<in> set (scheduled_sub_tasks s). state_id st = sid) \<or>
      (\<exists>st \<in> set (running_sub_tasks s). state_id st = sid) \<or>
      (\<exists>st \<in> set (finished_sub_tasks s). state_id st = sid)"
    using st(1) unfolding sub_tasks_def by auto
  note folds = fold_outdated [OF os(1)] fold_outdated [OF os(2)] fold_outdated [OF os(3)]
    keep_other_states_owner [OF os(1)] keep_other_states_owner [OF os(2)] keep_other_states_owner [OF os(3)]
  consider "\<exists>st \<in> set (scheduled_sub_tasks s). state_id st = sid"
    | "\<not> (\<exists>st \<in> set (scheduled_sub_tasks s). state_id st = sid)"
      "\<exists>st \<in> set (running_sub_tasks s). state_id st = sid"
    | "\<not> (\<exists>st \<in> set (scheduled_sub_tasks s). state_id st = sid)"
      "\<not> (\<exists>st \<in> set (running_sub_tasks s). state_id st = sid)"
      "\<exists>st \<in> set (finished_sub_tasks s). state_id st = sid"
    using some by blast
  then show ?thesis
    by cases (simp_all add: forget_state_def folds nk kill_task_eq emits_update set_insort_insert)
qed

lemma forget_state_unowned:
  assumes "\<forall>st \<in> set (sub_tasks s). state_id st \<noteq> sid"
  shows "forget_state sid s = s"
proof -
  have n: "\<forall>st \<in> set (scheduled_sub_tasks s). state_id st \<noteq> sid"
      "\<forall>st \<in> set (running_sub_tasks s). state_id st \<noteq> sid"
      "\<forall>st \<in> set (finished_sub_tasks s). state_id st \<noteq> sid"
    using assms by (auto simp: sub_tasks_def)
  have f: "fold (outdated sid) sts s = s" if "\<forall>st \<in> set sts. state_id st \<noteq> sid" for sts
    using that by (intro fold_outdated_none) blast
  have k: "keep_other_states sid sts = sts" if "\<forall>st \<in> set sts. state_id st \<noteq> sid" for sts
    using that by (simp add: keep_other_states_def)
  show ?thesis
    using n by (simp add: forget_state_def f k)
qed

lemma inv_new_task_inbox [simp]:
  "server_inv (s\<lparr>new_task_inbox := b, highest_received_task_id := h\<rparr>) = server_inv s"
  "sub_tasks (s\<lparr>new_task_inbox := b, highest_received_task_id := h\<rparr>) = sub_tasks s"
  "owned t (s\<lparr>new_task_inbox := b, highest_received_task_id := h\<rparr>) = owned t s"
  by (simp_all add: server_inv_def base_inv_def idle_inv_def sub_tasks_def owned_def)

text \<open>
  What another rank relies on when a new task arrives: it is of an existing state, and not the
  task this rank has killed or the state is assigned to.
\<close>

definition new_task_valid :: "new_task \<Rightarrow> 'a server \<Rightarrow> bool" where
  "new_task_valid nt s \<longleftrightarrow> 0 \<le> nt_state_id nt \<and> nt_state_id nt < ENSEMBLE_SIZE s \<and>
     Task (nt_state_id nt) (nt_runner_id nt) \<notin> set (killed s) \<and>
     \<not> owned (Task (nt_state_id nt) (nt_runner_id nt)) s"

lemma forget_state_inv:
  assumes inv: "server_inv s" and v: "new_task_valid nt s"
  shows "server_inv (forget_state (nt_state_id nt) s)"
    "nt_state_id nt \<in> set (unscheduled_tasks (forget_state (nt_state_id nt) s))"
    "Task (nt_state_id nt) (nt_runner_id nt) \<notin> set (killed (forget_state (nt_state_id nt) s))"
    "comm_rank (forget_state (nt_state_id nt) s) = comm_rank s"
proof -
  let ?sid = "nt_state_id nt"
  have "server_inv (forget_state ?sid s) \<and> ?sid \<in> set (unscheduled_tasks (forget_state ?sid s)) \<and>
    Task ?sid (nt_runner_id nt) \<notin> set (killed (forget_state ?sid s)) \<and>
    comm_rank (forget_state ?sid s) = comm_rank s"
  proof (cases "\<exists>st \<in> set (sub_tasks s). state_id st = ?sid")
    case True
    then obtain st where st: "st \<in> set (sub_tasks s)" "state_id st = ?sid" by blast
    then have own: "owned (Task ?sid (runner_id st)) s" by (auto simp: owned_def task_of_def)
    then have "runner_id st \<noteq> nt_runner_id nt" using v by (auto simp: new_task_valid_def)
    with own v inv show ?thesis
      using kill_task_inv [OF inv owned_state(1-3) [OF inv own]]
      by (simp add: forget_state_owned set_insort_insert new_task_valid_def)
  next
    case False
    have "?sid \<in> set (unscheduled_tasks s)"
    proof (rule ccontr)
      assume n: "?sid \<notin> set (unscheduled_tasks s)"
      have "connected_runner_ranks (the_field s) \<noteq> []"
        using inv by (simp add: server_inv_def base_inv_def field_ready_def)
      then obtain rr where "rr \<in> set (connected_runner_ranks (the_field s))" by fastforce
      then have "(?sid, rr) \<in> key ` set (sub_tasks s)"
        using inv v n unfolding server_inv_def tasks_inv_def new_task_valid_def by simp
      with False show False by (auto simp: key_def)
    qed
    with False v inv show ?thesis by (simp add: forget_state_unowned new_task_valid_def)
  qed
  then show "server_inv (forget_state ?sid s)" "?sid \<in> set (unscheduled_tasks (forget_state ?sid s))"
    "Task ?sid (nt_runner_id nt) \<notin> set (killed (forget_state ?sid s))"
    "comm_rank (forget_state ?sid s) = comm_rank s" by blast+
qed

lemma check_schedule_new_tasks_total:
  assumes inv: "server_inv s" and c: "comm_rank s \<noteq> 0"
    and v: "case new_task_inbox s of [] \<Rightarrow> True | nt # _ \<Rightarrow> new_task_valid nt s"
  shows "\<exists>s'. check_schedule_new_tasks s = Inr s' \<and> server_inv s' \<and> comm_rank s' = comm_rank s"
proof (cases "new_task_inbox s")
  case Nil
  then show ?thesis using inv c by (simp add: check_schedule_new_tasks_def)
next
  case (Cons nt rest)
  let ?s = "s\<lparr>new_task_inbox := rest,
    highest_received_task_id := max (nt_task_id nt) (highest_received_task_id s)\<rparr>"
  have "server_inv ?s" "new_task_valid nt ?s"
    using inv v Cons by (simp_all add: new_task_valid_def)
  note f = forget_state_inv [OF this]
  show ?thesis
    using add_sub_tasks_total [OF f(1-3)] c Cons f(4) by (auto simp: check_schedule_new_tasks_def)
qed

section \<open>Responses of runners\<close>

text \<open>Steps that only move sub tasks between the lists, or change nothing the invariant reads.\<close>

definition same_tasks :: "'a server \<Rightarrow> 'a server \<Rightarrow> bool" where
  "same_tasks s s' \<longleftrightarrow> comm_rank s' = comm_rank s \<and> comm_size s' = comm_size s \<and>
     ENSEMBLE_SIZE s' = ENSEMBLE_SIZE s \<and> kill_inbox s' = kill_inbox s \<and> killed s' = killed s \<and>
     failcount s' = failcount s \<and> idle_runners s' = idle_runners s \<and>
     unscheduled_tasks s' = unscheduled_tasks s \<and> same_shape (the_field s) (the_field s') \<and>
     mset (sub_tasks s') = mset (sub_tasks s)"

lemma same_tasks_refl [simp]: "same_tasks s s"
  by (simp add: same_tasks_def)

lemma same_tasks_progress:
  assumes inv: "server_inv s" and st: "same_tasks s s'"
  shows "progress {} s s'"
proof -
  have f: "connected_runner_ranks (the_field s') = connected_runner_ranks (the_field s)"
      "length (ensemble_members (the_field s')) = length (ensemble_members (the_field s))"
      "field_ready (comm_rank s) (the_field s') = field_ready (comm_rank s) (the_field s)"
    using st same_shape_fields [of "the_field s" "the_field s'"] by (auto simp: same_tasks_def)
  have m: "mset (sub_tasks s') = mset (sub_tasks s)" using st by (simp add: same_tasks_def)
  note eqs = mset_eq_setD [OF m] tasks_inv_perm [OF m]
  have "server_inv s'"
    using inv st f eqs by (simp add: server_inv_def base_inv_def idle_inv_def same_tasks_def)
  then show ?thesis
    using st eqs(1) by (simp add: progress_def same_tasks_def owned_def)
qed

lemma same_tasks_emits [simp]: "same_tasks s (emits as s') = same_tasks s s'"
  by (simp add: same_tasks_def)

lemma recv_same_tasks: "recv s = Inr (f, m, s') \<Longrightarrow> same_tasks s s'"
  by (auto simp: recv_def same_tasks_def sub_tasks_def split: list.splits prod.splits)

lemma same_tasks_trans: "same_tasks s s' \<Longrightarrow> same_tasks s' s'' \<Longrightarrow> same_tasks s s''"
  by (auto simp: same_tasks_def intro: same_shape_trans)

lemma same_tasks_identity [simp]: "same_tasks s (s'\<lparr>IDENTITY_SIZE := n\<rparr>) = same_tasks s s'"
  by (simp add: same_tasks_def sub_tasks_def)

lemma recv_four_same_tasks:
  assumes "recv_four s = Inr (fs, s')"
  shows "same_tasks s s'"
proof -
  obtain f1 m1 s1 f2 m2 s2 f3 m3 s3 f4 m4 where
      "recv s = Inr (f1, m1, s1)" "recv s1 = Inr (f2, m2, s2)" "recv s2 = Inr (f3, m3, s3)"
      "recv s3 = Inr (f4, m4, s')"
    using assms by (auto simp: recv_four_def and_then_Inr_iff)
  then show ?thesis using recv_same_tasks same_tasks_trans by metis
qed

lemma recv_response_same_tasks: "recv_response s = Inr (rp, s') \<Longrightarrow> same_tasks s s'"
  by (auto simp: recv_response_def and_then_Inr_iff Let_def split: option.splits dest!: recv_four_same_tasks)

lemma notify_same_tasks: "notify_launcher_about r s = Inr s' \<Longrightarrow> same_tasks s s'"
  by (auto simp: notify_launcher_about_def notify_def trigger_def emit_emits same_tasks_def sub_tasks_def
      Let_def split: if_splits option.splits bool.splits)

lemma mset_remove1_find: "find P xs = Some x \<Longrightarrow> mset (remove1 x xs) + {#x#} = mset xs"
  by (metis add_mset_add_single find_Some_iff insert_DiffM mset_remove1 nth_mem_mset)

lemma finish_sub_task_same_tasks: "finish_sub_task rp s = Inr s' \<Longrightarrow> same_tasks s s'"
  using mset_remove1_find [of "is_sub_task rp" "running_sub_tasks s"]
  by (auto simp: finish_sub_task_def same_tasks_def sub_tasks_def ac_simps split: option.splits)

lemma recv_hidden_same_tasks: "recv_hidden h rp s = Inr (v, s') \<Longrightarrow> same_tasks s s'"
  by (auto simp: recv_hidden_def and_then_Inr_iff split: if_splits dest: recv_same_tasks)

lemma store_state_shape: "store_state sid p v h vh f = Inr f' \<Longrightarrow> same_shape f f'"
  by (auto simp: store_state_def and_then_Inr_iff map_list_update_id split: if_splits
      intro!: same_shape_members dest: store_background_shape)

text \<open>Storing needs the contract of the assimilator.\<close>

context assimilator
begin

lemma store_response_same_tasks:
  "store_response ops rp p h vh s = Inr s' \<Longrightarrow> same_tasks s s'"
  by (auto simp: store_response_def and_then_Inr_iff Let_def same_tasks_def sub_tasks_def split: if_splits
      dest: store_state_shape init_shape)

end

lemma getPart_connected:
  "field_ready r f \<Longrightarrow> getPart r i f = Inr p \<Longrightarrow> i \<in> set (connected_runner_ranks f)"
  by (simp add: field_ready_def)

lemma conns_ok_emplace:
  assumes "om_wf conns" "\<forall>(rr, ident) \<in> set conns. ident \<noteq> None \<and> rr \<in> set ranks" "r \<in> set ranks"
  shows "conns_ok ranks (om_emplace r (Some i) conns)"
proof -
  have "om_emplace r (Some i) conns \<noteq> []" by (cases conns) (auto split: if_splits)
  moreover have "\<forall>(rr, ident) \<in> insert (r, Some i) (set conns). ident \<noteq> None \<and> rr \<in> set ranks"
    using assms by auto
  then have "\<forall>(rr, ident) \<in> set (om_emplace r (Some i) conns). ident \<noteq> None \<and> rr \<in> set ranks"
    using set_om_emplace [of r "Some i" conns] by blast
  ultimately show ?thesis
    using om_wf_emplace [OF assms(1)] by (simp add: conns_ok_def)
qed

lemma om_assign_emplace: "om_assign k v (om_emplace k w m) = om_assign k v m"
  by (induction k w m rule: om_emplace.induct) auto

lemma save_connection_eq:
  assumes "om_wf (idle_runners s)"
  shows "\<exists>as. save_connection rp s = emits as (s\<lparr>idle_runners := om_assign (rp_runner_id rp)
     (om_emplace (rp_runner_rank rp) (Some (rp_identity rp))
       (case map_of (idle_runners s) (rp_runner_id rp) of None \<Rightarrow> [] | Some c \<Rightarrow> c)) (idle_runners s)\<rparr>)"
proof -
  have "the (map_of (om_emplace (rp_runner_id rp) [] (idle_runners s)) (rp_runner_id rp)) =
      (case map_of (idle_runners s) (rp_runner_id rp) of None \<Rightarrow> [] | Some c \<Rightarrow> c)"
    by (simp add: om.lookup_emplace [OF assms] split: option.splits)
  then have conns: "the (map_of (om_emplace (rp_runner_id rp) [] (idle_runners s)) (rp_runner_id rp)) =
      (case map_of (idle_runners s) (rp_runner_id rp) of None \<Rightarrow> [] | Some c \<Rightarrow> c)" .
  let ?s = "s\<lparr>idle_runners := om_emplace (rp_runner_id rp) [] (idle_runners s)\<rparr>"
  obtain as where "(if rp_runner_rank rp = 0 then trigger ''START_IDLE_RUNNER'' (rp_runner_id rp) ?s else ?s) =
      emits as ?s"
  proof (cases "rp_runner_rank rp = 0")
    case True
    with trigger_emits [of "''START_IDLE_RUNNER''" "rp_runner_id rp" ?s] that show thesis by auto
  next
    case False
    with that [of "[]"] show thesis by simp
  qed
  then show ?thesis
    unfolding save_connection_def Let_def
    by (intro exI [of _ as]) (simp only: emits_fields emits_update conns om_assign_emplace server.select_convs
        server.update_convs, simp add: conns om_assign_emplace)
qed

lemma save_connection_progress:
  assumes inv: "server_inv s" and nk: "rp_runner_id rp \<notin> task_runner_id ` set (killed s)"
    and rr: "rp_runner_rank rp \<in> set (connected_runner_ranks (the_field s))"
  shows "progress {} s (save_connection rp s)"
proof -
  let ?r = "rp_runner_id rp" and ?ranks = "connected_runner_ranks (the_field s)"
  define conns where "conns = (case map_of (idle_runners s) ?r of None \<Rightarrow> [] | Some c \<Rightarrow> c)"
  let ?conns = "om_emplace (rp_runner_rank rp) (Some (rp_identity rp)) conns"
  have idle: "idle_inv s" using inv by (simp add: server_inv_def base_inv_def)
  then have wf: "om_wf (idle_runners s)" by (simp add: idle_inv_def)
  have "conns_ok ?ranks conns \<or> conns = []"
    using idle map_of_SomeD [of "idle_runners s" ?r] by (auto simp: conns_def idle_inv_entries split: option.splits)
  then have "conns_ok ?ranks ?conns"
    using rr by (intro conns_ok_emplace) (auto simp: conns_ok_def)
  then have "idle_inv (s\<lparr>idle_runners := om_assign ?r ?conns (idle_runners s)\<rparr>)"
    using idle_inv_assign [OF idle _ nk] by blast
  then have "server_inv (s\<lparr>idle_runners := om_assign ?r ?conns (idle_runners s)\<rparr>)"
    using inv by (simp add: server_inv_def base_inv_def sub_tasks_def)
  then have "progress {} s (s\<lparr>idle_runners := om_assign ?r ?conns (idle_runners s)\<rparr>)"
    by (simp add: progress_def owned_def sub_tasks_def)
  then show ?thesis
    using save_connection_eq [OF wf, of rp] by (auto simp: conns_def)
qed

lemma launch_next_same_tasks:
  assumes "find P (scheduled_sub_tasks s) = Some st" "same_tasks s s1"
    and "scheduled_sub_tasks s1 = scheduled_sub_tasks s"
  shows "same_tasks s (s1\<lparr>running_sub_tasks := running_sub_tasks s1 @ [st],
     scheduled_sub_tasks := remove1 st (scheduled_sub_tasks s1)\<rparr>)"
  using mset_remove1_find [OF assms(1)] assms(2,3)
  by (auto simp: same_tasks_def sub_tasks_def ac_simps)

lemma answer_response_progress:
  assumes inv: "server_inv s" and nk: "rp_runner_id rp \<notin> task_runner_id ` set (killed s)"
    and rr: "rp_runner_rank rp \<in> set (connected_runner_ranks (the_field s))"
    and r: "answer_response rp s = Inr s'"
  shows "progress {} s s'"
proof (cases "find (is_next_task rp) (scheduled_sub_tasks s)")
  case (Some st)
  with r obtain s1 where l: "launch_sub_task (Some (rp_identity rp)) (rp_runner_rank rp) (state_id st) s = Inr s1"
      and s': "s' = s1\<lparr>running_sub_tasks := running_sub_tasks s1 @ [st],
        scheduled_sub_tasks := remove1 st (scheduled_sub_tasks s1)\<rparr>"
    by (auto simp: answer_response_def and_then_Inr_iff)
  obtain as where "s1 = emits as s" using launch_sub_task_emits [OF l] by blast
  then have "same_tasks s s'"
    unfolding s' by (intro launch_next_same_tasks [OF Some]) simp_all
  with inv show ?thesis by (rule same_tasks_progress)
next
  case None
  let ?s = "save_connection rp s"
  have p: "progress {} s ?s" by (rule save_connection_progress [OF inv nk rr])
  then have k: "server_inv ?s" "rp_runner_id rp \<notin> task_runner_id ` set (killed ?s)"
    using nk by (auto simp: progress_def)
  show ?thesis
  proof (cases "s' = ?s")
    case False
    with r None have "comm_rank ?s = 0" "\<exists>b. schedule_new_task (rp_runner_id rp) ?s = Inr (b, s')"
      by (auto simp: answer_response_def and_then_Inr_iff Let_def split: if_splits)
    with schedule_new_task_progress [OF k(1) _ k(2)] have "progress {} ?s s'" by auto
    with progress_trans [OF p] show ?thesis by simp
  qed (use p in simp)
qed

context assimilator
begin

lemma process_response_progress:
  assumes inv: "server_inv s" and nk: "rp_runner_id rp \<notin> task_runner_id ` set (killed s)"
    and r: "process_response ops rp s = Inr s'"
  shows "progress {} s s'"
proof -
  obtain s1 s2 s3 p h vh where st: "finish_sub_task rp s = Inr s1"
      "getPart (comm_rank s1) (rp_runner_rank rp) (the_field s1) = Inr p"
      "recv_hidden h rp s1 = Inr (vh, s2)" "store_response ops rp p h vh s2 = Inr s3"
      "answer_response rp s3 = Inr s'"
    using r by (auto simp: process_response_def and_then_Inr_iff)
  have same: "same_tasks s s1" "same_tasks s1 s2" "same_tasks s2 s3"
    using finish_sub_task_same_tasks [OF st(1)] recv_hidden_same_tasks [OF st(3)]
      store_response_same_tasks [OF st(4)] by auto
  then have s13: "same_tasks s1 s3" "same_tasks s s3" using same_tasks_trans by blast+
  have p: "progress {} s s3" by (rule same_tasks_progress [OF inv s13(2)])
  have "server_inv s1" using same_tasks_progress [OF inv same(1)] by (simp add: progress_def)
  then have "rp_runner_rank rp \<in> set (connected_runner_ranks (the_field s1))"
    using getPart_connected [OF _ st(2)] by (simp add: server_inv_def base_inv_def)
  then have "rp_runner_rank rp \<in> set (connected_runner_ranks (the_field s3))"
    using s13(1) same_shape_fields(1) by (simp add: same_tasks_def) metis
  moreover have "server_inv s3" "rp_runner_id rp \<notin> task_runner_id ` set (killed s3)"
    using p nk by (auto simp: progress_def)
  ultimately have "progress {} s3 s'" using answer_response_progress st(5) by blast
  with progress_trans [OF p] show ?thesis by simp
qed

lemma handle_data_response_progress:
  assumes inv: "server_inv s" and r: "handle_data_response ops s = Inr s'"
  shows "progress {} s s'"
proof -
  obtain rp s1 s2 where st: "recv_response s = Inr (rp, s1)" "notify_launcher_about (rp_runner_id rp) s1 = Inr s2"
      and s': "(if rp_runner_id rp \<in> task_runner_id ` set (killed s2)
        then Inr (stop_connection KILL_RUNNER (Some (rp_identity rp)) s2)
        else process_response ops rp s2) = Inr s'"
    using r by (auto simp: handle_data_response_def and_then_Inr_iff)
  have "same_tasks s s2"
    using recv_response_same_tasks [OF st(1)] notify_same_tasks [OF st(2)] same_tasks_trans by blast
  then have p: "progress {} s s2" by (rule same_tasks_progress [OF inv])
  show ?thesis
  proof (cases "rp_runner_id rp \<in> task_runner_id ` set (killed s2)")
    case True
    with s' p show ?thesis by (auto simp: stop_connection_eq)
  next
    case False
    with s' process_response_progress [of s2 rp s'] p have "progress {} s2 s'" by (auto simp: progress_def)
    with progress_trans [OF p] show ?thesis by simp
  qed
qed

end

section \<open>The update step\<close>

lemma probe_same_tasks: "same_tasks s (probe_rank_finished r s)"
  by (auto simp: probe_rank_finished_def same_tasks_def sub_tasks_def Let_def split: list.splits)

lemma fold_same_tasks:
  assumes "\<And>x s. same_tasks s (f x s)"
  shows "same_tasks s (fold f xs s)"
proof (induction xs arbitrary: s)
  case (Cons x xs)
  from same_tasks_trans [OF assms Cons.IH] show ?case by simp
qed simp

lemma synchronize_same_tasks: "synchronize_finish s = (b, s') \<Longrightarrow> same_tasks s s'"
proof (cases "comm_rank s = 0")
  case True
  moreover have "same_tasks s (fold probe_rank_finished [1..comm_size s - 1] s)"
    by (rule fold_same_tasks) (rule probe_same_tasks)
  moreover assume "synchronize_finish s = (b, s')"
  ultimately show ?thesis
    by (auto simp: synchronize_finish_def Let_def split: if_splits)
next
  case False
  moreover assume "synchronize_finish s = (b, s')"
  ultimately show ?thesis
    by (auto simp: synchronize_finish_def Let_def same_tasks_def sub_tasks_def split: if_splits nat.splits)
qed

lemma trigger_idle_emits: "\<exists>as. trigger_idle ev s = emits as s"
  unfolding trigger_idle_def by (rule fold_emits) (auto simp: split_def trigger_emits)

lemma same_tasks_analysis [simp]:
  "same_tasks s (s'\<lparr>current_nsteps := n\<rparr>) = same_tasks s s'"
  "same_tasks s (s'\<lparr>assimilation_cycles := c\<rparr>) = same_tasks s s'"
  "same_tasks s (s'\<lparr>the_assimilator := a\<rparr>) = same_tasks s s'"
  "same_tasks s (trigger ev p s') = same_tasks s s'"
  "same_tasks s (trigger_idle ev s') = same_tasks s s'"
  using trigger_idle_emits [of ev s'] by (auto simp: same_tasks_def sub_tasks_def)

context assimilator
begin

lemma run_analysis_same_tasks:
  assumes "run_analysis ops bcast s = Inr s'"
  shows "same_tasks s s'"
proof -
  obtain n a f where u: "do_update_step ops (current_step s) (the_assimilator s) (the_field s) = Inr (n, a, f)"
      and s': "same_tasks (trigger ''START_FILTER_UPDATE'' (current_step s) s
        \<lparr>current_nsteps := n, the_assimilator := a, the_field := f\<rparr>) s'"
    using assms by (auto simp: run_analysis_def and_then_Inr_iff Let_def)
  have "same_tasks s (trigger ''START_FILTER_UPDATE'' (current_step s) s
        \<lparr>current_nsteps := n, the_assimilator := a, the_field := f\<rparr>)"
    using update_shape [OF u] by (simp add: same_tasks_def sub_tasks_def)
  then show ?thesis using s' same_tasks_trans by blast
qed

end

text \<open>A new time step starts with every state unscheduled.\<close>

lemma init_new_timestep_base:
  assumes inv: "base_inv s" and i: "init_new_timestep s = Inr s'"
  shows "server_inv s' \<and> comm_rank s' = comm_rank s \<and> killed s' = killed s"
proof -
  define s0 where "s0 = s\<lparr>finished_sub_tasks := [], highest_received_task_id := 0,
     highest_sent_task_id := 0, task_id := 1, current_step := current_step s + current_nsteps s\<rparr>"
  let ?t = "trigger ''START_ITERATION'' (current_step s0) s0"
  obtain cs where cs: "?t = emits cs s0" using trigger_emits by blast
  obtain bs where bs: "trigger_idle ''START_IDLE_RUNNER'' ?t = emits bs ?t"
    using trigger_idle_emits by blast
  have empty: "scheduled_sub_tasks s = []" "running_sub_tasks s = []"
    using i by (auto simp: init_new_timestep_def)
  have "s' = (emits bs ?t)\<lparr>unscheduled_tasks := [0..ENSEMBLE_SIZE s - 1], failcount := map (\<lambda>_. 0) (failcount s)\<rparr>"
    using i bs unfolding init_new_timestep_def Let_def s0_def [symmetric] by (simp add: s0_def)
  then have s': "s' = emits (cs @ bs) (s0\<lparr>unscheduled_tasks := [0..ENSEMBLE_SIZE s - 1],
      failcount := map (\<lambda>_. 0) (failcount s)\<rparr>)"
    unfolding cs by (simp add: emits_def)
  have "sub_tasks (s0\<lparr>unscheduled_tasks := u, failcount := fc\<rparr>) = []" for u fc
    using empty by (simp add: sub_tasks_def s0_def)
  then have "server_inv s'"
    using inv tasks_inv_all_unscheduled
    by (simp add: s' server_inv_def base_inv_def idle_inv_def s0_def)
  then show ?thesis by (simp add: s' s0_def)
qed

lemma init_new_timestep_inv:
  "server_inv s \<Longrightarrow> init_new_timestep s = Inr s' \<Longrightarrow>
     server_inv s' \<and> comm_rank s' = comm_rank s \<and> killed s' = killed s"
  by (rule init_new_timestep_base [OF server_inv_base])

lemma completely_idle_member:
  assumes "get_completely_idle_runner s = Some r"
  shows "r \<in> fst ` set (idle_runners s)"
proof -
  obtain p where "find (\<lambda>(_, conns). completely_idle s conns) (idle_runners s) = Some p" "r = fst p"
    using assms by (auto simp: get_completely_idle_runner_def)
  moreover from this have "p \<in> set (idle_runners s)" unfolding find_Some_iff by (metis nth_mem)
  ultimately show ?thesis by simp
qed

lemma idle_not_killed:
  "server_inv s \<Longrightarrow> r \<in> fst ` set (idle_runners s) \<Longrightarrow> r \<notin> task_runner_id ` set (killed s)"
  by (auto simp: server_inv_def base_inv_def idle_inv_entries)

lemma reschedule_total:
  "server_inv s \<Longrightarrow> comm_rank s = 0 \<Longrightarrow> \<exists>s'. reschedule s = Inr s' \<and> progress {} s s' \<and>
     (get_completely_idle_runner s' = None \<or> unscheduled_tasks s' = [])"
proof (induction s rule: reschedule.induct)
  case (1 s)
  show ?case
  proof (cases "get_completely_idle_runner s = None \<or> unscheduled_tasks s = []")
    case True
    then have "reschedule s = Inr s" by (subst reschedule.simps) (auto split: option.splits)
    with True progress_refl 1 show ?thesis by auto
  next
    case False
    then obtain r where r: "get_completely_idle_runner s = Some r" by auto
    obtain b s1 where s1: "schedule_new_task r s = Inr (b, s1)" "progress {} s s1"
      using schedule_new_task_progress idle_not_killed [OF _ completely_idle_member [OF r]] "1.prems" by blast
    have "\<exists>s'. reschedule s1 = Inr s' \<and> progress {} s1 s' \<and>
        (get_completely_idle_runner s' = None \<or> unscheduled_tasks s' = [])"
      using "1.IH" [OF r _ s1(1)] False s1(2) "1.prems" by (auto simp: progress_def)
    moreover have "reschedule s = reschedule s1"
      by (subst reschedule.simps) (use r False s1 in simp)
    ultimately show ?thesis using progress_trans [OF s1(2)] by force
  qed
qed

context assimilator
begin

lemma check_finished_inv:
  assumes inv: "server_inv s" and c: "check_finished ops bcast s = Inr (False, s')"
  shows "server_inv s'"
proof (cases "would_finish s")
  case False
  with c inv show ?thesis by (simp add: check_finished_def)
next
  case True
  obtain b s1 where s1: "synchronize_finish s = (b, s1)" by fastforce
  have inv1: "server_inv s1"
    using same_tasks_progress [OF inv synchronize_same_tasks [OF s1]] by (simp add: progress_def)
  show ?thesis
  proof (cases b)
    case False
    with c s1 True inv1 show ?thesis by (simp add: check_finished_def)
  next
    case True
    with c s1 \<open>would_finish s\<close> have "update_step ops bcast s1 = Inr (False, s')"
      by (simp add: check_finished_def)
    then obtain s2 s3 where s2: "run_analysis ops bcast s1 = Inr s2" "init_new_timestep s2 = Inr s3"
        and s': "(if comm_rank s3 = 0 then and_then (reschedule s3) (\<lambda>s. Inr (False, s))
          else Inr (False, s3)) = Inr (False, s')"
      by (auto simp: update_step_def and_then_Inr_iff split: if_splits)
    have "server_inv s2"
      using same_tasks_progress [OF inv1 run_analysis_same_tasks [OF s2(1)]] by (simp add: progress_def)
    with init_new_timestep_inv s2(2) have "server_inv s3" by blast
    then show ?thesis
      using s' reschedule_total [of s3] by (auto simp: progress_def and_then_Inr_iff split: if_splits)
  qed
qed

end

section \<open>One iteration\<close>

definition environment_ok :: "'a server \<Rightarrow> bool" where
  "environment_ok s \<longleftrightarrow>
     (if comm_rank s = 0 then requests_valid s
      else (case new_task_inbox s of [] \<Rightarrow> True | nt # _ \<Rightarrow> new_task_valid nt s))"

lemma inv_last_seconds [simp]:
  "server_inv (s\<lparr>last_seconds_checks := n\<rparr>) = server_inv s"
  "requests_valid (s\<lparr>last_seconds_checks := n\<rparr>) = requests_valid s"
  "owned t (s\<lparr>last_seconds_checks := n\<rparr>) = owned t s"
  by (simp_all add: server_inv_def base_inv_def idle_inv_def sub_tasks_def requests_valid_def owned_def)

text \<open>On the other ranks due dates only take tasks away.\<close>

definition shrinks :: "'a server \<Rightarrow> 'a server \<Rightarrow> bool" where
  "shrinks s s' \<longleftrightarrow> comm_rank s' = comm_rank s \<and> new_task_inbox s' = new_task_inbox s \<and>
     ENSEMBLE_SIZE s' = ENSEMBLE_SIZE s \<and> set (sub_tasks s') \<subseteq> set (sub_tasks s)"

lemma due_date_passed_shrinks:
  "comm_rank s \<noteq> 0 \<Longrightarrow> due_date_passed t s = Inr s' \<Longrightarrow> shrinks s s'"
  by (auto simp: due_date_passed_def emit_emits shrinks_def in_remove_task kill_task_eq [of t s] sub_tasks_def)

lemma due_dates_loop_shrinks:
  "comm_rank s \<noteq> 0 \<Longrightarrow> due_dates_loop ts s = Inr s' \<Longrightarrow> shrinks s s'"
proof (induction ts arbitrary: s)
  case (Cons t ts)
  then obtain s1 where s1: "due_date_passed t s = Inr s1" "due_dates_loop ts s1 = Inr s'"
    by (auto simp: and_then_Inr_iff)
  have "shrinks s s1" by (rule due_date_passed_shrinks [OF Cons.prems(1) s1(1)])
  moreover from this have "shrinks s1 s'"
    using Cons.IH [OF _ s1(2)] Cons.prems(1) by (simp add: shrinks_def)
  ultimately show ?case unfolding shrinks_def by simp blast
qed (simp add: shrinks_def)

lemma check_dates_inv:
  assumes inv: "server_inv s" and env: "environment_ok s"
    and c: "check_dates_and_requests s = Inr s'"
  shows "server_inv s' \<and> comm_rank s' = comm_rank s \<and>
     (comm_rank s \<noteq> 0 \<longrightarrow> (case new_task_inbox s' of [] \<Rightarrow> True | nt # _ \<Rightarrow> new_task_valid nt s'))"
proof (cases "last_seconds_checks s < now s")
  case False
  with c env inv show ?thesis by (simp add: check_dates_and_requests_def environment_ok_def)
next
  case True
  let ?s = "s\<lparr>last_seconds_checks := now s\<rparr>"
  obtain s1 where s1: "check_due_dates ?s = Inr s1"
      and s': "(if comm_rank s1 = 0 then check_kill_requests s1 else Inr s1) = Inr s'"
    using c True by (auto simp: check_dates_and_requests_def and_then_Inr_iff)
  have p: "progress (set (overdue ?s)) ?s s1"
    using check_due_dates_outcome [of ?s] inv s1 by simp
  then have inv1: "server_inv s1" "comm_rank s1 = comm_rank s" by (simp_all add: progress_def)
  show ?thesis
  proof (cases "comm_rank s = 0")
    case True
    then have "requests_valid s1"
      using requests_valid_progress [OF _ p] env by (simp add: environment_ok_def)
    with inv1 True s' show ?thesis
      using check_kill_requests_outcome [of s1] by simp
  next
    case False
    with s' inv1 have "s' = s1" by simp
    have sh: "shrinks ?s s1"
      using due_dates_loop_shrinks [of ?s] s1 False by (simp add: check_due_dates_def)
    have own: "owned t s1 \<Longrightarrow> owned t s" for t
      using sh by (auto simp: shrinks_def owned_def sub_tasks_def)
    have ks: "set (killed s1) = set (killed s) \<union> set (overdue ?s)"
      using p by (simp add: progress_def)
    have "t \<in> set (overdue ?s) \<Longrightarrow> owned t s" for t
      by (auto simp: set_overdue owned_def sub_tasks_def)
    then have "new_task_valid nt s \<Longrightarrow> new_task_valid nt s1" for nt
      using own ks sh by (auto simp: new_task_valid_def shrinks_def)
    with env False sh inv1 \<open>s' = s1\<close> show ?thesis
      by (auto simp: environment_ok_def shrinks_def split: list.splits)
  qed
qed

text \<open>One iteration without the assert at its end.\<close>

definition simulation_body :: "'a assimilator_ops \<Rightarrow> int \<Rightarrow> 'a server \<Rightarrow> ('a, bool \<times> 'a server) sres" where
  "simulation_body ops bcast s =
     and_then (check_dates_and_requests s) (\<lambda>s.
     and_then (if comm_rank s \<noteq> 0 then check_schedule_new_tasks s else Inr s) (\<lambda>s.
     and_then (if data_socket s \<noteq> [] then handle_data_response ops s else Inr s) (\<lambda>s.
     check_finished ops bcast s)))"

lemma simulation_step_body:
  "simulation_step ops bcast s = and_then (simulation_body ops bcast s) (\<lambda>(ended, s).
     if ended then Inr (True, s) else ensure (tasks_conserved s) s (Inr (False, s)))"
proof -
  have assoc: "and_then (and_then m f) g = and_then m (\<lambda>x. and_then (f x) g)"
    for m :: "('e + 'x)" and f :: "'x \<Rightarrow> 'e + 'y" and g :: "'y \<Rightarrow> 'e + 'z"
    by (cases m) auto
  show ?thesis by (simp add: simulation_step_def simulation_body_def assoc)
qed

context assimilator
begin

lemma simulation_body_inv:
  assumes inv: "server_inv s" and env: "environment_ok s"
    and b: "simulation_body ops bcast s = Inr (False, s')"
  shows "server_inv s'"
proof -
  obtain s1 s2 s3 where s1: "check_dates_and_requests s = Inr s1"
      and s2: "(if comm_rank s1 \<noteq> 0 then check_schedule_new_tasks s1 else Inr s1) = Inr s2"
      and s3: "(if data_socket s2 \<noteq> [] then handle_data_response ops s2 else Inr s2) = Inr s3"
      and s': "check_finished ops bcast s3 = Inr (False, s')"
    using b by (auto simp: simulation_body_def and_then_Inr_iff)
  note i1 = check_dates_inv [OF inv env s1]
  have "server_inv s2"
    using i1 s2 check_schedule_new_tasks_total [of s1] by (auto split: if_splits)
  then have "server_inv s3"
    using s3 handle_data_response_progress [of s2 s3] by (auto simp: progress_def split: if_splits)
  then show ?thesis using s' by (rule check_finished_inv)
qed

text \<open>
  The assert at the end of the main loop never fails: on a state with the invariant an iteration
  with the assert is the iteration without it.
\<close>

lemma step_is_body:
  assumes "server_inv s" "environment_ok s"
  shows "simulation_step ops bcast s = simulation_body ops bcast s"
proof (cases "simulation_body ops bcast s")
  case (Inl e)
  then show ?thesis by (simp add: simulation_step_body)
next
  case (Inr r)
  obtain ended s' where r: "r = (ended, s')" by fastforce
  show ?thesis
  proof (cases ended)
    case False
    then have "server_inv s'" using simulation_body_inv [OF assms, of bcast s'] Inr r by simp
    then show ?thesis using Inr r False server_inv_conserved by (simp add: simulation_step_body)
  qed (simp add: simulation_step_body Inr r)
qed

end

end
