(* ===== verification/Protocol.thy ===== *)
theory Protocol
  imports ServerState
begin

text \<open>
  What the ranks of the server promise each other about tasks, as an abstract protocol: the leader
  (rank 0) gives states to runners and takes them back, a follower (any other rank) receives the
  new tasks in order, kills tasks of its own accord, asks the leader to kill them too and reports
  when it has finished. The ranks of the server refine it (theory ClusterInv).
\<close>

section \<open>Leader and follower\<close>

definition nt_task :: "new_task \<Rightarrow> task" where
  "nt_task nt = Task (nt_state_id nt) (nt_runner_id nt)"

lemma nt_task_simps [simp]:
  "task_state_id (nt_task nt) = nt_state_id nt" "task_runner_id (nt_task nt) = nt_runner_id nt"
  by (simp_all add: nt_task_def)

record leader =
  le_owned :: "task set"
  le_killed :: "task set"
  le_task_id :: int
  le_counted :: int

text \<open>\<open>n\<close> is the number of states; the label lists the tasks every follower is sent.\<close>

inductive leader_step :: "int \<Rightarrow> leader \<Rightarrow> new_task list \<Rightarrow> leader \<Rightarrow> bool" for n where
  le_kill: "t \<in> le_owned l \<Longrightarrow>
     leader_step n l [] (l\<lparr>le_owned := le_owned l - {t}, le_killed := insert t (le_killed l)\<rparr>)"
| le_schedule: "0 \<le> nt_state_id nt \<Longrightarrow> nt_state_id nt < n \<Longrightarrow>
     nt_state_id nt \<notin> task_state_id ` le_owned l \<Longrightarrow> nt_runner_id nt \<notin> task_runner_id ` le_killed l \<Longrightarrow>
     nt_task_id nt = le_task_id l + 1 \<Longrightarrow>
     leader_step n l [nt] (l\<lparr>le_owned := insert (nt_task nt) (le_owned l),
       le_task_id := le_task_id l + 1, le_counted := 0\<rparr>)"

inductive leader_steps :: "int \<Rightarrow> leader \<Rightarrow> new_task list \<Rightarrow> leader \<Rightarrow> bool" for n where
  le_none: "leader_steps n l [] l"
| le_more: "leader_step n l nts l' \<Longrightarrow> leader_steps n l' nts' l'' \<Longrightarrow> leader_steps n l (nts @ nts') l''"

text \<open>
  The fields \<open>fo_pending\<close>, \<open>fo_requests\<close> and \<open>fo_reports\<close> hold the messages between the follower and
  the leader that were not yet read, in the order they were sent.
\<close>

record follower =
  fo_owned :: "task set"
  fo_killed :: "task set"
  fo_pending :: "new_task list"
  fo_received :: int
  fo_sent :: int
  fo_requests :: "task list"
  fo_reports :: "int list"
  fo_done :: bool

definition fo_take :: "new_task \<Rightarrow> new_task list \<Rightarrow> follower \<Rightarrow> follower" where
  "fo_take nt rest f = f\<lparr>fo_pending := rest, fo_received := max (nt_task_id nt) (fo_received f),
     fo_owned := insert (nt_task nt) {t \<in> fo_owned f. task_state_id t \<noteq> nt_state_id nt},
     fo_killed := fo_killed f \<union> {t \<in> fo_owned f. task_state_id t = nt_state_id nt}, fo_done := False\<rparr>"

inductive follower_step :: "int \<Rightarrow> follower \<Rightarrow> follower \<Rightarrow> bool" for n where
  fo_kill: "t \<in> fo_owned f \<Longrightarrow> \<not> fo_done f \<Longrightarrow>
     follower_step n f (f\<lparr>fo_owned := fo_owned f - {t}, fo_killed := insert t (fo_killed f),
       fo_requests := fo_requests f @ [t]\<rparr>)"
| fo_receive: "fo_pending f = nt # rest \<Longrightarrow> follower_step n f (fo_take nt rest f)"
| fo_finish: "task_state_id ` fo_owned f = {0..<n} \<Longrightarrow> follower_step n f (f\<lparr>fo_done := True\<rparr>)"
| fo_report: "fo_done f \<Longrightarrow> fo_sent f < fo_received f \<Longrightarrow>
     follower_step n f (f\<lparr>fo_sent := fo_received f, fo_reports := fo_reports f @ [fo_received f]\<rparr>)"

inductive follower_steps :: "int \<Rightarrow> follower \<Rightarrow> follower \<Rightarrow> bool" for n where
  fo_none: "follower_steps n f f"
| fo_more: "follower_step n f f' \<Longrightarrow> follower_steps n f' f'' \<Longrightarrow> follower_steps n f f''"

lemma leader_steps_one: "leader_step n l nts l' \<Longrightarrow> leader_steps n l nts l'"
  using le_more [of n l nts l' "[]" l'] by (simp add: le_none)

lemma leader_steps_trans: "leader_steps n l nts l' \<Longrightarrow> leader_steps n l' nts' l'' \<Longrightarrow> leader_steps n l (nts @ nts') l''"
  by (induction rule: leader_steps.induct) (auto intro: le_more)

lemma follower_steps_one: "follower_step n f f' \<Longrightarrow> follower_steps n f f'"
  by (blast intro: fo_more fo_none)

lemma follower_steps_trans: "follower_steps n f f' \<Longrightarrow> follower_steps n f' f'' \<Longrightarrow> follower_steps n f f''"
  by (induction rule: follower_steps.induct) (auto intro: fo_more)

section \<open>Leader and follower agree\<close>

text \<open>The task a state will be on when the follower has received all that is pending.\<close>

definition pending_for :: "int \<Rightarrow> new_task list \<Rightarrow> new_task option" where
  "pending_for sid nts = find (\<lambda>nt. nt_state_id nt = sid) (rev nts)"

lemma find_append: "find P (xs @ ys) = (case find P xs of None \<Rightarrow> find P ys | Some x \<Rightarrow> Some x)"
  by (induction xs) auto

lemma pending_for_simps [simp]:
  "pending_for sid [] = None"
  "pending_for sid (nts @ [nt]) = (if nt_state_id nt = sid then Some nt else pending_for sid nts)"
  "pending_for sid (nt # nts) = (case pending_for sid nts of
     None \<Rightarrow> if nt_state_id nt = sid then Some nt else None | Some nt' \<Rightarrow> Some nt')"
  by (simp_all add: pending_for_def find_append split: option.splits)

text \<open>Nothing a follower knows is unknown to the leader, and a pending task is news to it.\<close>

definition tasks_known :: "leader \<Rightarrow> follower \<Rightarrow> bool" where
  "tasks_known l f \<longleftrightarrow>
     fo_owned f \<union> fo_killed f \<union> nt_task ` set (fo_pending f) \<subseteq> le_owned l \<union> le_killed l \<and>
     distinct (map nt_task (fo_pending f)) \<and>
     nt_task ` set (fo_pending f) \<inter> (fo_owned f \<union> fo_killed f) = {} \<and>
     fo_owned f \<inter> fo_killed f = {} \<and> le_owned l \<inter> le_killed l = {} \<and>
     inj_on task_state_id (fo_owned f) \<and> inj_on task_state_id (le_owned l) \<and>
     set (fo_requests f) \<subseteq> fo_killed f"

definition ids_in_order :: "int \<Rightarrow> leader \<Rightarrow> follower \<Rightarrow> bool" where
  "ids_in_order n l f \<longleftrightarrow> (\<forall>nt \<in> set (fo_pending f). 0 \<le> nt_state_id nt \<and> nt_state_id nt < n) \<and>
     map nt_task_id (fo_pending f) = [max 1 (fo_received f) + 1..le_task_id l] \<and>
     max 1 (fo_received f) \<le> le_task_id l"

definition state_follows :: "follower \<Rightarrow> task \<Rightarrow> bool" where
  "state_follows f t \<longleftrightarrow> (case pending_for (task_state_id t) (fo_pending f) of
       Some nt \<Rightarrow> nt_task nt = t
     | None \<Rightarrow> t \<in> fo_owned f \<or> (t \<in> fo_killed f \<and> task_state_id t \<notin> task_state_id ` fo_owned f))"

definition reports_in_order :: "int \<Rightarrow> follower \<Rightarrow> bool" where
  "reports_in_order n f \<longleftrightarrow> sorted_wrt (<) (fo_reports f) \<and>
     (fo_reports f \<noteq> [] \<longrightarrow> last (fo_reports f) = fo_sent f) \<and>
     0 \<le> fo_sent f \<and> fo_sent f \<le> fo_received f \<and>
     (fo_sent f = fo_received f \<longrightarrow> 0 < fo_received f \<longrightarrow> fo_done f) \<and>
     (fo_done f \<longrightarrow> task_state_id ` fo_owned f = {0..<n})"

definition agree :: "int \<Rightarrow> leader \<Rightarrow> follower \<Rightarrow> bool" where
  "agree n l f \<longleftrightarrow> tasks_known l f \<and> ids_in_order n l f \<and> (\<forall>t \<in> le_owned l. state_follows f t) \<and>
     reports_in_order n f"

lemmas agree_defs = agree_def tasks_known_def ids_in_order_def reports_in_order_def

section \<open>Every step keeps the agreement\<close>

definition fo_send :: "new_task list \<Rightarrow> follower \<Rightarrow> follower" where
  "fo_send nts f = f\<lparr>fo_pending := fo_pending f @ nts\<rparr>"

lemma fo_send_simps [simp]: "fo_send [] f = f" "fo_send nts' (fo_send nts f) = fo_send (nts @ nts') f"
  by (simp_all add: fo_send_def)

lemma leader_kill_agree:
  assumes "agree n l f" "t \<in> le_owned l"
  shows "agree n (l\<lparr>le_owned := le_owned l - {t}, le_killed := insert t (le_killed l)\<rparr>) f"
  using assms by (auto simp: agree_defs inj_on_diff)

lemma leader_schedule_agree:
  assumes a: "agree n l f" and sid: "0 \<le> nt_state_id nt" "nt_state_id nt < n"
    and new: "nt_state_id nt \<notin> task_state_id ` le_owned l" "nt_runner_id nt \<notin> task_runner_id ` le_killed l"
    and tid: "nt_task_id nt = le_task_id l + 1"
  shows "agree n (l\<lparr>le_owned := insert (nt_task nt) (le_owned l), le_task_id := le_task_id l + 1,
     le_counted := 0\<rparr>) (fo_send [nt] f)"
proof -
  have fresh: "nt_task nt \<notin> le_owned l" "nt_task nt \<notin> le_killed l"
    using new by force+
  with a have fresh_f: "nt_task nt \<notin> fo_owned f" "nt_task nt \<notin> fo_killed f"
      "nt_task nt \<notin> nt_task ` set (fo_pending f)"
    by (auto simp: agree_defs)
  let ?l = "l\<lparr>le_owned := insert (nt_task nt) (le_owned l), le_task_id := le_task_id l + 1, le_counted := 0\<rparr>"
  have "tasks_known ?l (fo_send [nt] f)"
    using a fresh fresh_f new(1) by (auto simp: agree_def tasks_known_def fo_send_def)
  moreover have "ids_in_order n ?l (fo_send [nt] f)"
    using a sid tid upto_rec2 [of "max 1 (fo_received f) + 1" "le_task_id l + 1"]
    by (auto simp: agree_def ids_in_order_def fo_send_def)
  moreover have "state_follows (fo_send [nt] f) t" if "t \<in> le_owned ?l" for t
    using that a new(1) by (auto simp: agree_def state_follows_def fo_send_def cong: option.case_cong)
  moreover have "reports_in_order n (fo_send [nt] f)"
    using a by (simp add: agree_def reports_in_order_def fo_send_def)
  ultimately show ?thesis by (simp add: agree_def)
qed

lemma leader_step_agree: "leader_step n l nts l' \<Longrightarrow> agree n l f \<Longrightarrow> agree n l' (fo_send nts f)"
  by (induction rule: leader_step.induct) (auto intro: leader_kill_agree leader_schedule_agree)

lemma leader_steps_agree: "leader_steps n l nts l' \<Longrightarrow> agree n l f \<Longrightarrow> agree n l' (fo_send nts f)"
proof (induction arbitrary: f rule: leader_steps.induct)
  case (le_more l nts l' nts' l'')
  from le_more.IH [OF leader_step_agree [OF le_more.hyps(1) le_more.prems]] show ?case by simp
qed simp

lemma follower_kill_agree:
  assumes a: "agree n l f" and t: "t \<in> fo_owned f" "\<not> fo_done f"
  shows "agree n l (f\<lparr>fo_owned := fo_owned f - {t}, fo_killed := insert t (fo_killed f),
     fo_requests := fo_requests f @ [t]\<rparr>)"
proof -
  let ?f = "f\<lparr>fo_owned := fo_owned f - {t}, fo_killed := insert t (fo_killed f),
     fo_requests := fo_requests f @ [t]\<rparr>"
  have inj: "inj_on task_state_id (fo_owned f)" using a by (simp add: agree_def tasks_known_def)
  have "tasks_known l ?f"
    using a t(1) by (auto simp: agree_def tasks_known_def inj_on_diff)
  moreover have "ids_in_order n l ?f" using a by (simp add: agree_def ids_in_order_def)
  moreover have "state_follows ?f t'" if "t' \<in> le_owned l" for t'
  proof -
    have "state_follows f t'" using that a by (simp add: agree_def)
    moreover have "task_state_id t \<notin> task_state_id ` (fo_owned f - {t})"
      using inj t(1) by (auto simp: inj_on_def)
    ultimately show ?thesis by (auto simp: state_follows_def split: option.splits)
  qed
  moreover have "reports_in_order n ?f" using a t(2) by (simp add: agree_def reports_in_order_def)
  ultimately show ?thesis by (simp add: agree_def)
qed

lemma follower_receive_agree:
  assumes a: "agree n l f" and p: "fo_pending f = nt # rest"
  shows "agree n l (fo_take nt rest f)"
proof -
  have ids: "map nt_task_id (nt # rest) = [max 1 (fo_received f) + 1..le_task_id l]"
    using a p by (simp add: agree_def ids_in_order_def)
  then have le: "max 1 (fo_received f) + 1 \<le> le_task_id l" by (auto intro: ccontr)
  then have "[max 1 (fo_received f) + 1..le_task_id l] =
      (max 1 (fo_received f) + 1) # [max 1 (fo_received f) + 1 + 1..le_task_id l]"
    by (rule upto_rec1)
  with ids have id: "nt_task_id nt = max 1 (fo_received f) + 1"
      and rest: "map nt_task_id rest = [nt_task_id nt + 1..le_task_id l]" by auto
  have r: "fo_received (fo_take nt rest f) = nt_task_id nt"
    using id by (simp add: fo_take_def)
  have k: "tasks_known l f" using a by (simp add: agree_def)
  then have new: "nt_task nt \<notin> nt_task ` set rest" "nt_task nt \<notin> fo_owned f" "nt_task nt \<notin> fo_killed f"
      "nt_task ` set rest \<inter> (fo_owned f \<union> fo_killed f) = {}"
    by (simp_all add: tasks_known_def p)
  have "tasks_known l (fo_take nt rest f)"
    unfolding tasks_known_def
  proof (intro conjI)
    show "fo_owned (fo_take nt rest f) \<inter> fo_killed (fo_take nt rest f) = {}"
      using k new by (auto simp: fo_take_def tasks_known_def)
    show "nt_task ` set (fo_pending (fo_take nt rest f)) \<inter>
        (fo_owned (fo_take nt rest f) \<union> fo_killed (fo_take nt rest f)) = {}"
      using new by (auto simp: fo_take_def)
    show "inj_on task_state_id (fo_owned (fo_take nt rest f))"
      using k by (auto simp: fo_take_def tasks_known_def inj_on_def)
  qed (use k in \<open>auto simp: fo_take_def tasks_known_def p\<close>)
  moreover have "ids_in_order n l (fo_take nt rest f)"
    unfolding ids_in_order_def r using a p rest id le
    by (auto simp: agree_def ids_in_order_def fo_take_def max_def)
  moreover have "state_follows (fo_take nt rest f) t" if "t \<in> le_owned l" for t
  proof -
    have "state_follows f t" using that a by (simp add: agree_def)
    then show ?thesis
    proof (cases "pending_for (task_state_id t) rest")
      case None
      with \<open>state_follows f t\<close> show ?thesis
        by (cases "nt_state_id nt = task_state_id t")
          (simp_all add: state_follows_def p fo_take_def, auto simp: inj_on_def)
    qed (simp add: state_follows_def p fo_take_def)
  qed
  moreover have "reports_in_order n (fo_take nt rest f)"
    using a id r by (auto simp: agree_def reports_in_order_def fo_take_def)
  ultimately show ?thesis by (simp add: agree_def)
qed

lemma reports_bounded:
  assumes "reports_in_order n f" "x \<in> set (fo_reports f)"
  shows "x \<le> fo_sent f"
proof -
  have "fo_reports f \<noteq> []" using assms(2) by auto
  with assms have "sorted_wrt (<) (butlast (fo_reports f) @ [fo_sent f])"
      "x \<in> set (butlast (fo_reports f) @ [fo_sent f])"
    using append_butlast_last_id [of "fo_reports f"] by (simp_all add: reports_in_order_def)
  then show ?thesis by (auto simp: sorted_wrt_append)
qed

lemma follower_report_agree:
  assumes a: "agree n l f" and d: "fo_done f" "fo_sent f < fo_received f"
  shows "agree n l (f\<lparr>fo_sent := fo_received f, fo_reports := fo_reports f @ [fo_received f]\<rparr>)"
proof -
  let ?f = "f\<lparr>fo_sent := fo_received f, fo_reports := fo_reports f @ [fo_received f]\<rparr>"
  have r: "reports_in_order n f" using a by (simp add: agree_def)
  have "reports_in_order n ?f"
    using r d reports_bounded [OF r] by (fastforce simp: reports_in_order_def sorted_wrt_append)
  with a show ?thesis
    by (simp add: agree_def tasks_known_def ids_in_order_def state_follows_def cong: option.case_cong)
qed

lemma follower_step_agree: "follower_step n f f' \<Longrightarrow> agree n l f \<Longrightarrow> agree n l f'"
proof (induction rule: follower_step.induct)
  case (fo_finish f)
  then show ?case
    by (simp add: agree_def tasks_known_def ids_in_order_def reports_in_order_def state_follows_def
        cong: option.case_cong)
qed (auto intro: follower_kill_agree follower_receive_agree follower_report_agree)

lemma follower_steps_agree: "follower_steps n f f' \<Longrightarrow> agree n l f \<Longrightarrow> agree n l f'"
  by (induction rule: follower_steps.induct) (auto intro: follower_step_agree)

section \<open>All followers\<close>

text \<open>
  The leader counts a follower when it reads a report that names the last task. The invariant of
  the protocol of \<open>m\<close> ranks: the leader agrees with every follower, and the count is that of the
  followers whose report of the last task was read.
\<close>

definition counted :: "leader \<Rightarrow> follower \<Rightarrow> bool" where
  "counted l f \<longleftrightarrow> fo_sent f = le_task_id l \<and> le_task_id l \<notin> set (fo_reports f)"

definition protocol_inv :: "int \<Rightarrow> int \<Rightarrow> leader \<Rightarrow> (int \<Rightarrow> follower) \<Rightarrow> bool" where
  "protocol_inv m n l F \<longleftrightarrow> (\<forall>q \<in> {1..<m}. agree n l (F q)) \<and> 1 \<le> le_task_id l \<and>
     (le_task_id l = 1 \<longrightarrow> le_owned l = {}) \<and>
     (1 < le_task_id l \<longrightarrow> le_counted l = int (card {q \<in> {1..<m}. counted l (F q)}))"

lemma agree_bounds:
  assumes "agree n l f"
  shows "fo_sent f \<le> fo_received f" "fo_received f \<le> le_task_id l" "0 \<le> fo_sent f"
  using assms by (auto simp: agree_def ids_in_order_def reports_in_order_def)

definition to_all :: "int \<Rightarrow> (follower \<Rightarrow> follower) \<Rightarrow> (int \<Rightarrow> follower) \<Rightarrow> int \<Rightarrow> follower" where
  "to_all m g F q = (if 1 \<le> q \<and> q < m then g (F q) else F q)"

lemma to_all_simps [simp]:
  "1 \<le> q \<Longrightarrow> q < m \<Longrightarrow> to_all m g F q = g (F q)"
  "to_all m h (to_all m g F) = to_all m (h \<circ> g) F"
  by (auto simp: to_all_def)

lemma fo_send_comp [simp]: "fo_send nts' \<circ> fo_send nts = fo_send (nts @ nts')"
  by (simp add: fun_eq_iff)

lemma leader_step_inv:
  assumes s: "leader_step n l nts l'" and i: "protocol_inv m n l F"
  shows "protocol_inv m n l' (to_all m (fo_send nts) F)"
proof -
  have a: "\<forall>q \<in> {1..<m}. agree n l' (to_all m (fo_send nts) F q)"
    using i leader_step_agree [OF s] by (simp add: protocol_inv_def)
  show ?thesis
    using s
  proof cases
    case (le_kill t)
    then have same: "{q \<in> {1..<m}. counted l' (to_all m (fo_send nts) F q)} = {q \<in> {1..<m}. counted l (F q)}"
      by (auto simp: counted_def)
    show ?thesis using a i le_kill unfolding protocol_inv_def same by auto
  next
    case (le_schedule nt)
    have "\<not> counted l' (to_all m (fo_send nts) F q)" if "q \<in> {1..<m}" for q
    proof -
      have "agree n l (F q)" using i that by (simp add: protocol_inv_def)
      with agree_bounds(1,2) [OF this] le_schedule that show ?thesis by (simp add: counted_def fo_send_def)
    qed
    then have none: "{q \<in> {1..<m}. counted l' (to_all m (fo_send nts) F q)} = {}" by blast
    show ?thesis
      using a i le_schedule unfolding protocol_inv_def none by simp
  qed
qed

lemma protocol_inv_update:
  assumes i: "protocol_inv m n l F" and a: "agree n l f" and c: "counted l f = counted l (F q)"
  shows "protocol_inv m n l (F(q := f))"
proof -
  have "{k \<in> {1..<m}. counted l ((F(q := f)) k)} = {k \<in> {1..<m}. counted l (F k)}" using c by auto
  with i a show ?thesis by (simp add: protocol_inv_def)
qed

lemma follower_step_counted:
  assumes s: "follower_step n f f'" and a: "agree n l f"
  shows "counted l f' = counted l f"
  using s
proof cases
  case fo_report
  with agree_bounds [OF a] reports_bounded [of n f "le_task_id l"] a show ?thesis
    by (auto simp: counted_def agree_def)
qed (auto simp: counted_def fo_take_def)

lemma follower_steps_counted:
  "follower_steps n f f' \<Longrightarrow> agree n l f \<Longrightarrow> counted l f' = counted l f"
  by (induction rule: follower_steps.induct) (auto simp: follower_step_counted follower_step_agree)

lemma follower_step_inv:
  assumes "follower_step n (F q) f'" "protocol_inv m n l F" "q \<in> {1..<m}"
  shows "protocol_inv m n l (F(q := f'))"
proof -
  have a: "agree n l (F q)" using assms by (simp add: protocol_inv_def)
  show ?thesis
    by (rule protocol_inv_update [OF assms(2) follower_step_agree [OF assms(1) a]
        follower_step_counted [OF assms(1) a]])
qed

text \<open>The leader reads a request, or a report.\<close>

lemma read_request_inv:
  assumes "protocol_inv m n l F" "fo_requests (F q) = t # rest" "q \<in> {1..<m}"
  shows "protocol_inv m n l (F(q := (F q)\<lparr>fo_requests := rest\<rparr>))"
proof (rule protocol_inv_update [OF assms(1)])
  have "agree n l (F q)" using assms by (simp add: protocol_inv_def)
  with assms(2) show "agree n l ((F q)\<lparr>fo_requests := rest\<rparr>)"
    by (auto simp: agree_def tasks_known_def ids_in_order_def state_follows_def reports_in_order_def
        cong: option.case_cong)
qed (simp add: counted_def)

definition count_report :: "int \<Rightarrow> leader \<Rightarrow> leader" where
  "count_report x l = (if x = le_task_id l then l\<lparr>le_counted := le_counted l + 1\<rparr> else l)"

lemma count_report_simps [simp]:
  "le_owned (count_report x l) = le_owned l" "le_killed (count_report x l) = le_killed l"
  "le_task_id (count_report x l) = le_task_id l"
  "agree n (count_report x l) f = agree n l f" "counted (count_report x l) f = counted l f"
  by (simp_all add: count_report_def agree_defs counted_def)

lemma read_report_inv:
  assumes i: "protocol_inv m n l F" and q: "q \<in> {1..<m}" and r: "fo_reports (F q) = x # rest"
  shows "protocol_inv m n (count_report x l) (F(q := (F q)\<lparr>fo_reports := rest\<rparr>))"
proof -
  let ?f = "(F q)\<lparr>fo_reports := rest\<rparr>"
  have a: "agree n l (F q)" using i q by (simp add: protocol_inv_def)
  then have a': "agree n l ?f"
    using r by (auto simp: agree_def tasks_known_def ids_in_order_def state_follows_def reports_in_order_def
        cong: option.case_cong)
  show ?thesis
  proof (cases "x = le_task_id l")
    case False
    then have "counted l ?f = counted l (F q)" by (simp add: counted_def r)
    with protocol_inv_update [OF i a'] False show ?thesis by (simp add: count_report_def)
  next
    case True
    have "x \<le> fo_sent (F q)" using reports_bounded [of n "F q" x] a r by (simp add: agree_def)
    then have s: "fo_sent (F q) = x" using agree_bounds(1,2) [OF a] True by simp
    have "rest = []"
    proof (rule ccontr)
      assume "rest \<noteq> []"
      moreover have "reports_in_order n (F q)" using a by (simp add: agree_def)
      ultimately have "last rest = x" "\<forall>y \<in> set rest. x < y"
        using r s by (simp_all add: reports_in_order_def)
      with \<open>rest \<noteq> []\<close> last_in_set [of rest] show False by auto
    qed
    then have c: "counted l ?f" "\<not> counted l (F q)" using True s r by (simp_all add: counted_def)
    then have "{k \<in> {1..<m}. counted l ((F(q := ?f)) k)} = insert q {k \<in> {1..<m}. counted l (F k)}"
      using q by auto
    moreover have "finite {k \<in> {1..<m}. counted l (F k)}"
      by (rule finite_subset [of _ "{1..<m}"]) auto
    moreover have "q \<notin> {k \<in> {1..<m}. counted l (F k)}" using c by simp
    ultimately have "int (card {k \<in> {1..<m}. counted l ((F(q := ?f)) k)}) =
        int (card {k \<in> {1..<m}. counted l (F k)}) + 1"
      by simp
    with i a' True show ?thesis by (auto simp: protocol_inv_def count_report_def agree_defs counted_def)
  qed
qed

section \<open>The end of a time step\<close>

text \<open>
  When the leader has counted every follower, every one has received all tasks and finished them;
  no message is on its way; all have each state on the same runner.
\<close>

lemma all_counted:
  assumes i: "protocol_inv m n l F" and c: "le_counted l = m - 1" "1 < le_task_id l" and q: "q \<in> {1..<m}"
  shows "counted l (F q)"
proof -
  have "int (card {k \<in> {1..<m}. counted l (F k)}) = int (card {1..<m})"
    using i c q unfolding protocol_inv_def by simp
  then have "card {k \<in> {1..<m}. counted l (F k)} = card {1..<m}"
    by (simp only: of_nat_eq_iff)
  then have "{k \<in> {1..<m}. counted l (F k)} = {1..<m}"
    by (intro card_subset_eq) auto
  with q show ?thesis by blast
qed

lemma counted_finished:
  assumes a: "agree n l f" and c: "counted l f" "1 < le_task_id l"
    and full: "task_state_id ` le_owned l = {0..<n}"
  shows "fo_done f" "fo_pending f = []" "fo_reports f = []" "fo_received f = le_task_id l"
    "fo_sent f = le_task_id l" "fo_owned f = le_owned l" "fo_killed f \<subseteq> le_killed l"
proof -
  show sent: "fo_sent f = le_task_id l" using c by (simp add: counted_def)
  then show received: "fo_received f = le_task_id l" using agree_bounds [OF a] by simp
  then show pending: "fo_pending f = []" using a c by (auto simp: agree_def ids_in_order_def)
  show "fo_done f" using a sent received c by (simp add: agree_def reports_in_order_def)
  then have all: "task_state_id ` fo_owned f = {0..<n}" using a by (simp add: agree_def reports_in_order_def)
  show "fo_reports f = []"
    using a c sent last_in_set [of "fo_reports f"] by (auto simp: agree_def reports_in_order_def counted_def)
  have le: "le_owned l \<subseteq> fo_owned f"
  proof
    fix t assume t: "t \<in> le_owned l"
    then have "state_follows f t" using a by (simp add: agree_def)
    moreover have "task_state_id t \<in> task_state_id ` fo_owned f" unfolding all full [symmetric] using t by simp
    ultimately show "t \<in> fo_owned f" by (simp add: state_follows_def pending)
  qed
  show eq: "fo_owned f = le_owned l"
  proof (rule antisym [OF _ le], rule subsetI)
    fix t assume t: "t \<in> fo_owned f"
    have "task_state_id t \<in> task_state_id ` fo_owned f" using t by (rule imageI)
    then obtain t' where t': "t' \<in> le_owned l" "task_state_id t = task_state_id t'"
      unfolding all full [symmetric] by blast
    moreover have "inj_on task_state_id (fo_owned f)" using a by (simp add: agree_def tasks_known_def)
    ultimately show "t \<in> le_owned l" using le t by (auto dest: inj_onD)
  qed
  show "fo_killed f \<subseteq> le_killed l" using a eq by (auto simp: agree_def tasks_known_def)
qed

text \<open>The next time step starts with nothing assigned; what was killed stays killed.\<close>

definition le_restart :: "leader \<Rightarrow> leader" where
  "le_restart l = l\<lparr>le_owned := {}, le_task_id := 1\<rparr>"

definition fo_restart :: "follower \<Rightarrow> follower" where
  "fo_restart f = f\<lparr>fo_owned := {}, fo_received := 0, fo_sent := 0, fo_done := False\<rparr>"

lemma restart_agree:
  assumes "agree n l f" "fo_pending f = []" "fo_reports f = []" "fo_killed f \<subseteq> le_killed l"
  shows "agree n (le_restart l) (fo_restart f)"
  using assms by (simp add: agree_def tasks_known_def ids_in_order_def reports_in_order_def le_restart_def
      fo_restart_def)

section \<open>The protocol as a whole\<close>

text \<open>
  One step of the protocol of \<open>m\<close> ranks: a step of the leader, whose new tasks are sent to every
  follower, a step of one follower, a kill request read once the task is killed, a report read,
  or the end of the time step, for which the leader must have counted everyone and have every
  state assigned.
\<close>

inductive protocol_step :: "int \<Rightarrow> int \<Rightarrow> leader \<times> (int \<Rightarrow> follower) \<Rightarrow> leader \<times> (int \<Rightarrow> follower) \<Rightarrow> bool"
  for m n where
  ps_lead: "leader_step n l nts l' \<Longrightarrow> protocol_step m n (l, F) (l', to_all m (fo_send nts) F)"
| ps_follow: "1 \<le> q \<Longrightarrow> q < m \<Longrightarrow> follower_step n (F q) f' \<Longrightarrow> protocol_step m n (l, F) (l, F(q := f'))"
| ps_request: "1 \<le> q \<Longrightarrow> q < m \<Longrightarrow> fo_requests (F q) = t # rest \<Longrightarrow> t \<in> le_killed l \<Longrightarrow>
     protocol_step m n (l, F) (l, F(q := (F q)\<lparr>fo_requests := rest\<rparr>))"
| ps_report: "1 \<le> q \<Longrightarrow> q < m \<Longrightarrow> fo_reports (F q) = x # rest \<Longrightarrow>
     protocol_step m n (l, F) (count_report x l, F(q := (F q)\<lparr>fo_reports := rest\<rparr>))"
| ps_restart: "le_counted l = m - 1 \<Longrightarrow> 1 < le_task_id l \<Longrightarrow> task_state_id ` le_owned l = {0..<n} \<Longrightarrow>
     protocol_step m n (l, F) (le_restart l, to_all m fo_restart F)"

abbreviation protocol_steps :: "int \<Rightarrow> int \<Rightarrow> leader \<times> (int \<Rightarrow> follower) \<Rightarrow> leader \<times> (int \<Rightarrow> follower) \<Rightarrow> bool" where
  "protocol_steps m n \<equiv> (protocol_step m n)\<^sup>*\<^sup>*"

lemma restart_inv:
  assumes i: "protocol_inv m n l F" and c: "le_counted l = m - 1" "1 < le_task_id l"
    and full: "task_state_id ` le_owned l = {0..<n}"
  shows "protocol_inv m n (le_restart l) (to_all m fo_restart F)"
proof -
  have "agree n (le_restart l) (fo_restart (F q))" if q: "q \<in> {1..<m}" for q
  proof -
    have a: "agree n l (F q)" using i q by (simp add: protocol_inv_def)
    note f = counted_finished [OF a all_counted [OF i c q] c(2) full]
    show ?thesis by (rule restart_agree [OF a f(2,3,7)])
  qed
  then show ?thesis by (simp add: protocol_inv_def le_restart_def)
qed

lemma protocol_step_inv:
  "protocol_step m n p p' \<Longrightarrow> protocol_inv m n (fst p) (snd p) \<Longrightarrow> protocol_inv m n (fst p') (snd p')"
  by (induction rule: protocol_step.induct)
    (auto intro: leader_step_inv follower_step_inv read_request_inv read_report_inv restart_inv)

lemma protocol_steps_inv:
  "protocol_steps m n p p' \<Longrightarrow> protocol_inv m n (fst p) (snd p) \<Longrightarrow> protocol_inv m n (fst p') (snd p')"
  by (induction rule: rtranclp_induct) (auto intro: protocol_step_inv)

text \<open>Sequences of steps of one party, as steps of the whole.\<close>

lemma leader_steps_protocol:
  "leader_steps n l nts l' \<Longrightarrow> protocol_steps m n (l, F) (l', to_all m (fo_send nts) F)"
proof (induction arbitrary: F rule: leader_steps.induct)
  case (le_none l)
  have "to_all m (fo_send []) F = F" by (simp add: to_all_def fun_eq_iff)
  then show ?case by (simp only: rtranclp.rtrancl_refl)
next
  case (le_more l nts l' nts' l'')
  from converse_rtranclp_into_rtranclp [OF ps_lead [OF le_more.hyps(1)] le_more.IH]
  show ?case by simp
qed

lemma follower_steps_protocol:
  assumes "follower_steps n (F q) f'" "1 \<le> q" "q < m"
  shows "protocol_steps m n (l, F) (l, F(q := f'))"
proof -
  have "follower_steps n f f' \<Longrightarrow> F q = f \<Longrightarrow> protocol_steps m n (l, F) (l, F(q := f'))" for f F
  proof (induction arbitrary: F rule: follower_steps.induct)
    case (fo_none f)
    then have "F(q := f) = F" by auto
    then show ?case by simp
  next
    case (fo_more f f' f'')
    have "protocol_step m n (l, F) (l, F(q := f'))"
      by (rule ps_follow) (use assms fo_more in auto)
    moreover have "(F(q := f')) q = f'" by simp
    then have "protocol_steps m n (l, F(q := f')) (l, (F(q := f'))(q := f''))" by (rule fo_more.IH)
    then have "protocol_steps m n (l, F(q := f')) (l, F(q := f''))" by (simp only: fun_upd_upd)
    ultimately show ?case by (rule converse_rtranclp_into_rtranclp)
  qed
  with assms(1) show ?thesis by blast
qed

lemma read_requests_protocol:
  assumes "fo_requests (F q) = taken @ rest" "set taken \<subseteq> le_killed l" "1 \<le> q" "q < m"
  shows "protocol_steps m n (l, F) (l, F(q := (F q)\<lparr>fo_requests := rest\<rparr>))"
  using assms
proof (induction taken arbitrary: F)
  case Nil
  then have "F(q := (F q)\<lparr>fo_requests := rest\<rparr>) = F" by (simp add: fun_eq_iff)
  then show ?case by simp
next
  case (Cons t taken)
  let ?F = "F(q := (F q)\<lparr>fo_requests := taken @ rest\<rparr>)"
  have "protocol_step m n (l, F) (l, ?F)"
    by (rule ps_request) (use Cons.prems in auto)
  moreover have "protocol_steps m n (l, ?F) (l, ?F(q := (?F q)\<lparr>fo_requests := rest\<rparr>))"
    by (rule Cons.IH) (use Cons.prems in auto)
  then have "protocol_steps m n (l, ?F) (l, F(q := (F q)\<lparr>fo_requests := rest\<rparr>))" by simp
  ultimately show ?case by (rule converse_rtranclp_into_rtranclp)
qed

text \<open>One after the other every follower changes.\<close>

lemma each_follower_protocol:
  assumes one: "\<And>F q. 1 \<le> q \<Longrightarrow> q < m \<Longrightarrow> F q = G q \<Longrightarrow> protocol_steps m n (l, F) (l, F(q := G' q))"
    and "distinct qs" "set qs \<subseteq> {1..<m}" "\<And>q. q \<in> set qs \<Longrightarrow> F q = G q"
  shows "protocol_steps m n (l, F) (l, \<lambda>q. if q \<in> set qs then G' q else F q)"
  using assms(2-)
proof (induction qs arbitrary: F)
  case (Cons q qs)
  have "protocol_steps m n (l, F) (l, F(q := G' q))"
    by (rule one) (use Cons.prems in auto)
  moreover have "protocol_steps m n (l, F(q := G' q)) (l, \<lambda>k. if k \<in> set qs then G' k else (F(q := G' q)) k)"
    by (rule Cons.IH) (use Cons.prems in auto)
  moreover have "(\<lambda>k. if k \<in> set qs then G' k else (F(q := G' q)) k) =
      (\<lambda>k. if k \<in> set (q # qs) then G' k else F k)"
    using Cons.prems(1) by (auto simp: fun_eq_iff)
  ultimately show ?case by (metis rtranclp_trans)
qed simp

lemma all_followers_protocol:
  assumes "\<And>F q. 1 \<le> q \<Longrightarrow> q < m \<Longrightarrow> F q = G q \<Longrightarrow> protocol_steps m n (l, F) (l, F(q := G' q))"
  shows "protocol_steps m n (l, G) (l, \<lambda>q. if 1 \<le> q \<and> q < m then G' q else G q)"
proof -
  have "protocol_steps m n (l, G) (l, \<lambda>q. if q \<in> set [1..m - 1] then G' q else G q)"
    by (rule each_follower_protocol [OF assms]) auto
  moreover have "(\<lambda>q. if q \<in> set [1..m - 1] then G' q else G q) = (\<lambda>q. if 1 \<le> q \<and> q < m then G' q else G q)"
    by auto
  ultimately show ?thesis by simp
qed

end
