(* ===== verification/RankSteps.thy ===== *)
theory RankSteps
  imports ServerHandlers Protocol
begin

text \<open>
  Every handler of a rank, seen from the other ranks: what rank 0 does to the tasks is a sequence
  of steps of the leader of the protocol, what another rank does is a sequence of steps of a
  follower, and the MPI messages they emit are those of the protocol.
\<close>

section \<open>The MPI messages of a rank\<close>

primrec mpi_send_of :: "action \<Rightarrow> (int \<times> mpi_message) option" where
  "mpi_send_of (Data_send f b) = None"
| "mpi_send_of (Config_send f b) = None"
| "mpi_send_of (Mpi_send k m) = Some (k, m)"
| "mpi_send_of (Launcher_notify r st) = None"
| "mpi_send_of (Launcher_name r) = None"
| "mpi_send_of Launcher_hello = None"
| "mpi_send_of Launcher_stop = None"
| "mpi_send_of (Trigger ev p) = None"

definition mpi_sends :: "action list \<Rightarrow> (int \<times> mpi_message) list" where
  "mpi_sends as = List.map_filter mpi_send_of as"

lemma map_filter_append [simp]: "List.map_filter f (xs @ ys) = List.map_filter f xs @ List.map_filter f ys"
  by (simp add: List.map_filter_def)

lemma mpi_sends_simps [simp]:
  "mpi_sends [] = []"
  "mpi_sends (a # as) = (case mpi_send_of a of None \<Rightarrow> mpi_sends as | Some x \<Rightarrow> x # mpi_sends as)"
  "mpi_sends (as @ bs) = mpi_sends as @ mpi_sends bs"
  by (simp_all add: mpi_sends_def List.map_filter_def split: option.splits)

lemma mpi_sends_map [simp]: "mpi_sends (map (\<lambda>k. Mpi_send k m) ks) = map (\<lambda>k. (k, m)) ks"
  by (induction ks) auto

definition broadcast :: "int \<Rightarrow> new_task list \<Rightarrow> (int \<times> mpi_message) list" where
  "broadcast m nts = concat (map (\<lambda>nt. map (\<lambda>k. (k, New_task nt)) [1..m - 1]) nts)"

lemma broadcast_simps [simp]:
  "broadcast m [] = []" "broadcast m (nt # nts) = map (\<lambda>k. (k, New_task nt)) [1..m - 1] @ broadcast m nts"
  "broadcast m (nts @ nts') = broadcast m nts @ broadcast m nts'"
  by (simp_all add: broadcast_def)

definition sends :: "'a server \<Rightarrow> (int \<times> mpi_message) list" where
  "sends s = mpi_sends (out s)"

lemma sends_emits [simp]: "sends (emits as s) = sends s @ mpi_sends as"
  by (simp add: sends_def)

lemma sends_trigger [simp]: "sends (trigger ev p s) = sends s"
  by (simp add: trigger_def)

lemma stop_frames_silent [simp]: "mpi_sends (stop_frames i n flag) = []"
  by (simp add: stop_frames_def)

lemma stop_all_frames_silent [simp]: "mpi_sends (stop_all_frames n flag conns) = []"
  by (induction conns) (auto simp: stop_all_frames_def conn_frames_def split: option.splits)

lemma kill_frames_silent [simp]: "mpi_sends (kill_frames r n idle) = []"
  by (simp add: kill_frames_def split: option.splits)

lemma launch_frames_silent [simp]:
  "mpi_sends (launch_header_frames ident header) = []" "mpi_sends (launch_data_frames v h) = []"
  by (simp_all add: launch_header_frames_def launch_data_frames_def split: option.splits)

section \<open>What no handler of the tasks changes\<close>

definition surroundings :: "'a server \<Rightarrow> phase \<times> int \<times> int \<times> int \<times> int \<times> nat \<times> (int \<Rightarrow> int list) \<times> (int \<Rightarrow> (int \<times> int) list)" where
  "surroundings s = (phase s, comm_rank s, comm_size s, ENSEMBLE_SIZE s, assimilation_cycles s,
     all_finished_inbox s, rank_finished_inbox s, kill_inbox s)"

definition followed :: "'a server \<Rightarrow> new_task list \<times> int \<times> int" where
  "followed s = (new_task_inbox s, highest_received_task_id s, highest_sent_task_id s)"

lemma surroundings_emits [simp]:
  "surroundings (emits as s) = surroundings s" "followed (emits as s) = followed s"
  "surroundings (trigger ev p s) = surroundings s" "followed (trigger ev p s) = followed s"
  by (simp_all add: surroundings_def followed_def)

text \<open>Steps that change no task: only sub tasks move between the lists of a rank.\<close>

definition keeps :: "'a server \<Rightarrow> 'a server \<Rightarrow> bool" where
  "keeps s s' \<longleftrightarrow> surroundings s' = surroundings s \<and> followed s' = followed s \<and>
     killed s' = killed s \<and> mset (sub_tasks s') = mset (sub_tasks s) \<and>
     unscheduled_tasks s' = unscheduled_tasks s \<and> task_id s' = task_id s \<and>
     finished_ranks s' = finished_ranks s \<and> sends s' = sends s \<and> (would_finish s \<longrightarrow> would_finish s')"

lemma keeps_refl [simp]: "keeps s s"
  by (simp add: keeps_def)

lemma keeps_trans: "keeps s s' \<Longrightarrow> keeps s' s'' \<Longrightarrow> keeps s s''"
  by (simp add: keeps_def)

lemma would_finish_emits [simp]:
  "would_finish (emits as s) = would_finish s" "would_finish (trigger ev p s) = would_finish s"
  by (simp_all add: would_finish_def all_finished_size_def)

lemma keeps_emits: "keeps s s' \<Longrightarrow> mpi_sends as = [] \<Longrightarrow> keeps s (emits as s')"
  by (simp add: keeps_def)

lemma keeps_trigger [simp]: "keeps s (trigger ev p s') = keeps s s'"
  by (simp add: keeps_def)

lemma sends_update [simp]:
  "sends (s\<lparr>idle_runners := i\<rparr>) = sends s" "sends (s\<lparr>unscheduled_tasks := u\<rparr>) = sends s"
  "sends (s\<lparr>running_sub_tasks := l\<rparr>) = sends s" "sends (s\<lparr>scheduled_sub_tasks := l\<rparr>) = sends s"
  by (simp_all add: sends_def)

lemma launch_sub_task_sends: "launch_sub_task ident r sid s = Inr s' \<Longrightarrow> sends s' = sends s"
  by (auto simp: launch_sub_task_def and_then_Inr_iff Let_def)

lemma launch_sub_task_silent:
  assumes "launch_sub_task ident r sid s = Inr s'"
  shows "\<exists>as. s' = emits as s \<and> mpi_sends as = []"
proof -
  obtain as where "s' = emits as s" using launch_sub_task_emits [OF assms] by blast
  with launch_sub_task_sends [OF assms] show ?thesis by auto
qed

lemma try_launch_subtask_sends: "try_launch_subtask st s = Inr (b, s') \<Longrightarrow> sends s' = sends s"
  by (auto simp: try_launch_subtask_def and_then_Inr_iff Let_def dest!: launch_sub_task_sends
      split: option.splits)

lemma add_sub_tasks_loop_sends: "add_sub_tasks_loop nt rs s = Inr s' \<Longrightarrow> sends s' = sends s"
proof (induction rs arbitrary: s)
  case (Cons r rs)
  then show ?case
    by (auto simp: and_then_Inr_iff split: if_splits dest!: try_launch_subtask_sends Cons.IH)
qed simp

lemma add_sub_tasks_sends: "add_sub_tasks nt s = Inr s' \<Longrightarrow> sends s' = sends s"
  by (auto simp: add_sub_tasks_def Let_def dest!: add_sub_tasks_loop_sends)

section \<open>Responses\<close>

lemma recv_keeps: "recv s = Inr (f, m, s') \<Longrightarrow> keeps s s'"
  by (auto simp: recv_def keeps_def surroundings_def followed_def sub_tasks_def sends_def would_finish_def
      all_finished_size_def split: list.splits prod.splits)

lemma recv_four_keeps:
  assumes "recv_four s = Inr (fs, s')"
  shows "keeps s s'"
proof -
  obtain f1 m1 s1 f2 m2 s2 f3 m3 s3 f4 m4 where
      "recv s = Inr (f1, m1, s1)" "recv s1 = Inr (f2, m2, s2)" "recv s2 = Inr (f3, m3, s3)"
      "recv s3 = Inr (f4, m4, s')"
    using assms by (auto simp: recv_four_def and_then_Inr_iff)
  then show ?thesis using recv_keeps keeps_trans by metis
qed

lemma keeps_identity [simp]: "keeps s (s'\<lparr>IDENTITY_SIZE := n\<rparr>) = keeps s s'"
  by (simp add: keeps_def surroundings_def followed_def sub_tasks_def sends_def would_finish_def
      all_finished_size_def)

lemma recv_response_keeps: "recv_response s = Inr (rp, s') \<Longrightarrow> keeps s s'"
  by (auto simp: recv_response_def and_then_Inr_iff Let_def split: option.splits dest!: recv_four_keeps)

lemma keeps_notified [simp]: "keeps s (s'\<lparr>launcher_notified_about_runner := m\<rparr>) = keeps s s'"
  by (simp add: keeps_def surroundings_def followed_def sub_tasks_def sends_def would_finish_def
      all_finished_size_def)

lemma notify_keeps: "notify_launcher_about r s = Inr s' \<Longrightarrow> keeps s s'"
  by (auto simp: notify_launcher_about_def notify_def emit_emits Let_def keeps_emits
      split: if_splits option.splits bool.splits)

lemma finish_sub_task_keeps: "finish_sub_task rp s = Inr s' \<Longrightarrow> keeps s s'"
  using mset_remove1_find [of "is_sub_task rp" "running_sub_tasks s"]
  by (auto simp: finish_sub_task_def keeps_def surroundings_def followed_def sub_tasks_def sends_def
      would_finish_def ac_simps split: option.splits)

lemma recv_hidden_keeps: "recv_hidden h rp s = Inr (v, s') \<Longrightarrow> keeps s s'"
  by (auto simp: recv_hidden_def and_then_Inr_iff split: if_splits dest: recv_keeps)

lemma keeps_field:
  "connected_runner_ranks f = connected_runner_ranks (the_field s) \<Longrightarrow> keeps s (s\<lparr>the_field := f\<rparr>)"
  by (simp add: keeps_def surroundings_def followed_def sub_tasks_def sends_def would_finish_def
      all_finished_size_def)

lemma keeps_assimilator [simp]: "keeps s (s'\<lparr>the_assimilator := a\<rparr>) = keeps s s'"
  by (simp add: keeps_def surroundings_def followed_def sub_tasks_def sends_def would_finish_def
      all_finished_size_def)

context assimilator
begin

lemma store_response_keeps:
  assumes "store_response ops rp p h vh s = Inr s'"
  shows "keeps s s'"
proof -
  have shape: "same_shape (the_field s) f \<Longrightarrow> keeps s (s\<lparr>the_field := f\<rparr>)" for f
    by (rule keeps_field) (simp add: same_shape_fields)
  show ?thesis
  proof (cases "rp_timestep rp = current_step s")
    case True
    define s1 where "s1 = (if rp_runner_rank rp = 0 then trigger ''STOP_PROPAGATE_STATE'' (rp_state_id rp) s else s)"
    have k: "keeps s s1" "the_field s1 = the_field s" by (auto simp: s1_def)
    from True assms obtain f where f: "store_state (rp_state_id rp) p (rp_data rp) h vh (the_field s1) = Inr f"
        "s' = s1\<lparr>the_field := f\<rparr>"
      by (auto simp: store_response_def and_then_Inr_iff Let_def s1_def [symmetric])
    have "keeps s1 s'"
      unfolding f(2) by (rule keeps_field) (use same_shape_fields(1) [OF store_state_shape [OF f(1)]] in simp)
    with k(1) show ?thesis by (rule keeps_trans)
  next
    case False
    have swap: "s\<lparr>the_assimilator := a, the_field := f\<rparr> = s\<lparr>the_field := f, the_assimilator := a\<rparr>" for a f
      by simp
    from False assms show ?thesis
      by (auto simp: store_response_def and_then_Inr_iff swap split: if_splits dest!: init_shape intro!: shape)
  qed
qed

end

lemma keeps_idle [simp]: "keeps s (s'\<lparr>idle_runners := i\<rparr>) = keeps s s'"
  by (simp add: keeps_def surroundings_def followed_def sub_tasks_def sends_def would_finish_def
      all_finished_size_def)

lemma save_connection_keeps: "keeps s (save_connection rp s)"
  by (simp add: save_connection_def Let_def)

lemma answer_kept:
  assumes "answer_response rp s = Inr s'" "comm_rank s \<noteq> 0 \<or> \<not> completely_idle (save_connection rp s)
     (the (map_of (idle_runners (save_connection rp s)) (rp_runner_id rp))) \<or>
     find (is_next_task rp) (scheduled_sub_tasks s) \<noteq> None"
  shows "keeps s s'"
proof (cases "find (is_next_task rp) (scheduled_sub_tasks s)")
  case None
  have "comm_rank (save_connection rp s) = comm_rank s"
    using save_connection_keeps [of s rp] by (simp add: keeps_def surroundings_def)
  with None assms show ?thesis
    by (auto simp: answer_response_def Let_def save_connection_keeps)
next
  case (Some st)
  with assms(1) obtain s1 where l: "launch_sub_task (Some (rp_identity rp)) (rp_runner_rank rp) (state_id st) s = Inr s1"
      and s': "s' = s1\<lparr>running_sub_tasks := running_sub_tasks s1 @ [st],
        scheduled_sub_tasks := remove1 st (scheduled_sub_tasks s1)\<rparr>"
    by (auto simp: answer_response_def and_then_Inr_iff)
  obtain as where s1: "s1 = emits as s" "mpi_sends as = []" using launch_sub_task_silent [OF l] by blast
  have "scheduled_sub_tasks s \<noteq> []" using Some by auto
  then show ?thesis
    using mset_remove1_find [OF Some] unfolding s' s1
    by (auto simp: keeps_def surroundings_def followed_def sub_tasks_def sends_def would_finish_def s1(2) ac_simps)
qed

end
