(* ===== verification/LeaderSteps.thy ===== *)
theory LeaderSteps
  imports RankSteps
begin

text \<open>
  Rank 0 is a leader of the protocol: each of its handlers is a sequence of leader steps, and
  sends every other rank the tasks it has scheduled, in this order.
\<close>

definition leader_of :: "'a server \<Rightarrow> leader" where
  "leader_of s = \<lparr>le_owned = {t. owned t s}, le_killed = set (killed s), le_task_id = task_id s,
     le_counted = finished_ranks s\<rparr>"

definition leads :: "'a server \<Rightarrow> 'a server \<Rightarrow> bool" where
  "leads s s' \<longleftrightarrow> server_inv s' \<and> surroundings s' = surroundings s \<and>
     (\<exists>nts. leader_steps (ENSEMBLE_SIZE s) (leader_of s) nts (leader_of s') \<and>
        sends s' = sends s @ broadcast (comm_size s) nts)"

lemma leader_of_emits [simp]: "leader_of (emits as s) = leader_of s" "leader_of (trigger ev p s) = leader_of s"
  by (simp_all add: leader_of_def trigger_def)

lemma leads_refl: "server_inv s \<Longrightarrow> leads s s"
  unfolding leads_def by (auto intro!: exI [of _ "[]"] le_none)

lemma leads_trans: 
  assumes "leads s s'" "leads s' s''"
  shows "leads s s''"
proof -
  have same: "ENSEMBLE_SIZE s' = ENSEMBLE_SIZE s" "comm_size s' = comm_size s"
    using assms(1) by (simp_all add: leads_def surroundings_def)
  obtain nts nts' where "leader_steps (ENSEMBLE_SIZE s) (leader_of s) nts (leader_of s')"
      "sends s' = sends s @ broadcast (comm_size s) nts"
      "leader_steps (ENSEMBLE_SIZE s) (leader_of s') nts' (leader_of s'')"
      "sends s'' = sends s' @ broadcast (comm_size s) nts'"
    using assms unfolding leads_def same by blast
  then have "leader_steps (ENSEMBLE_SIZE s) (leader_of s) (nts @ nts') (leader_of s'') \<and>
      sends s'' = sends s @ broadcast (comm_size s) (nts @ nts')"
    by (auto intro: leader_steps_trans)
  then show ?thesis using assms by (auto simp: leads_def)
qed

lemma leads_emits: "leads s s' \<Longrightarrow> mpi_sends as = [] \<Longrightarrow> leads s (emits as s')"
  by (simp add: leads_def)

lemma leads_emits_first: "mpi_sends as = [] \<Longrightarrow> leads (emits as s) s' = leads s s'"
  by (simp add: leads_def)

lemma leads_trigger [simp]: "leads s (trigger ev p s') = leads s s'"
  by (simp add: leads_def)

lemma owned_mset: "mset (sub_tasks s') = mset (sub_tasks s) \<Longrightarrow> owned t s' = owned t s"
  unfolding owned_def by (drule mset_eq_setD) simp

lemma keeps_leads:
  assumes "keeps s s'" "server_inv s'"
  shows "leads s s'"
proof -
  have "leader_of s' = leader_of s"
    using assms(1) owned_mset [of s' s] by (simp add: keeps_def leader_of_def)
  with assms show ?thesis
    by (auto simp: leads_def keeps_def intro!: exI [of _ "[]"] le_none)
qed

section \<open>Scheduling and killing\<close>

lemma owned_made:
  assumes m: "mset run + mset sch = mset (map (SubTask nt) ranks)" and r: "ranks \<noteq> []"
  shows "owned t (launched as idle run sch s) \<longleftrightarrow> owned t s \<or> t = nt_task nt"
proof -
  have "set run \<union> set sch = SubTask nt ` set ranks" using arg_cong [OF m, of set_mset] by simp
  then have "set (sub_tasks (launched as idle run sch s)) = set (sub_tasks s) \<union> SubTask nt ` set ranks"
    by (auto simp: sub_tasks_def)
  then have "owned t (launched as idle run sch s) \<longleftrightarrow> owned t s \<or> (\<exists>rr \<in> set ranks. task_of (SubTask nt rr) = t)"
    by (auto simp: owned_def)
  moreover have "task_of (SubTask nt rr) = nt_task nt" for rr by (simp add: SubTask_def task_of_def nt_task_def)
  ultimately show ?thesis using hd_in_set [OF r] by auto
qed

lemma surroundings_launched [simp]:
  "surroundings (launched as idle run sch s) = surroundings s"
  "followed (launched as idle run sch s) = followed s"
  by (simp_all add: surroundings_def followed_def launched_def)

lemma server_ranks: "server_inv s \<Longrightarrow> connected_runner_ranks (the_field s) \<noteq> []"
  by (simp add: server_inv_def base_inv_def field_ready_def)

lemma unscheduled_free:
  assumes inv: "server_inv s" and t: "owned t s"
  shows "task_state_id t \<notin> set (unscheduled_tasks s)"
  using owned_state(4) [OF assms] .

lemma schedule_new_task_leads:
  assumes inv: "server_inv s" and c: "comm_rank s = 0" and r: "r \<notin> task_runner_id ` set (killed s)"
    and s: "schedule_new_task r s = Inr (b, s')"
  shows "leads s s'"
proof (cases "unscheduled_tasks s = []")
  case True
  with c s have "s' = s" by (simp add: schedule_new_task_def)
  with leads_refl [OF inv] show ?thesis by simp
next
  case False
  let ?nt = "scheduled_task r s"
  let ?s = "s\<lparr>task_id := task_id s + 1, finished_ranks := 0, unscheduled_tasks := tl (unscheduled_tasks s)\<rparr>"
  obtain as idle run sch where l:
      "schedule_new_task r s = Inr (True,
         emits (map (\<lambda>k. Mpi_send k (New_task ?nt)) [1..comm_size s - 1]) (launched as idle run sch ?s))"
      "mset run + mset sch = mset (map (SubTask ?nt) (connected_runner_ranks (the_field s)))"
      "server_inv (launched as idle run sch ?s)"
    using schedule_new_task_total [OF inv c r False] by blast
  let ?l = "launched as idle run sch ?s"
  have s': "s' = emits (map (\<lambda>k. Mpi_send k (New_task ?nt)) [1..comm_size s - 1]) ?l"
    using l(1) s by simp
  have sid: "nt_state_id ?nt \<in> set (unscheduled_tasks s)" "nt_runner_id ?nt = r" "nt_task_id ?nt = task_id s + 1"
    using False by (simp_all add: scheduled_task_def)
  then have rng: "0 \<le> nt_state_id ?nt" "nt_state_id ?nt < ENSEMBLE_SIZE s"
    using inv by (auto simp: server_inv_def tasks_inv_def)
  have "owned t ?s = owned t s" for t by (simp add: owned_def sub_tasks_def)
  then have own: "{t. owned t ?l} = insert (nt_task ?nt) {t. owned t s}"
    using owned_made [OF l(2) server_ranks [OF inv], of _ as idle ?s] by auto
  have lead: "leader_of s' = (leader_of s)\<lparr>le_owned := insert (nt_task ?nt) (le_owned (leader_of s)),
      le_task_id := le_task_id (leader_of s) + 1, le_counted := 0\<rparr>"
    by (simp add: s' leader_of_def own) (simp add: launched_def)
  have "leader_step (ENSEMBLE_SIZE s) (leader_of s) [?nt] (leader_of s')"
    unfolding lead
    by (rule le_schedule) (use rng sid r unscheduled_free [OF inv] in \<open>auto simp: leader_of_def\<close>)
  moreover have "sends ?l = sends s"
  proof -
    have "sends s' = sends s @ mpi_sends (map (\<lambda>k. Mpi_send k (New_task ?nt)) [1..comm_size s - 1])"
    proof -
      obtain sid rest where us: "unscheduled_tasks s = sid # rest" using False by (cases "unscheduled_tasks s") auto
      define nt where "nt = \<lparr>nt_runner_id = r, nt_state_id = sid,
        nt_due_date = get_due_date (s\<lparr>task_id := task_id s + 1\<rparr>), nt_task_id = task_id s + 1\<rparr>"
      from s c us obtain s1 where a: "add_sub_tasks nt (s\<lparr>task_id := task_id s + 1, finished_ranks := 0\<rparr>) = Inr s1"
          and e: "s' = emits (map (\<lambda>k. Mpi_send k (New_task nt)) [1..comm_size s1 - 1]) s1"
        by (auto simp: schedule_new_task_def and_then_Inr_iff Let_def nt_def)
      have "nt = ?nt" by (simp add: nt_def scheduled_task_def us get_due_date_def)
      moreover have "comm_size s1 = comm_size s" using arg_cong [OF e, of comm_size] s' by simp
      moreover have "sends s1 = sends s" using add_sub_tasks_sends [OF a] by (simp add: sends_def)
      ultimately show ?thesis by (simp add: e)
    qed
    then show ?thesis unfolding s' by simp
  qed
  then have "sends s' = sends s @ broadcast (comm_size s) [?nt]"
    by (simp add: s')
  moreover have "surroundings s' = surroundings s" by (simp add: s') (simp add: surroundings_def)
  moreover have "server_inv s'" using l(3) by (simp add: s')
  ultimately show ?thesis unfolding leads_def by (blast intro: leader_steps_one)
qed

lemma surroundings_kill [simp]: "surroundings (kill_task t s) = surroundings s" "followed (kill_task t s) = followed s"
    "sends (kill_task t s) = sends s"
  by (simp_all add: kill_task_eq surroundings_def followed_def) (simp add: sends_def)

lemma owned_kill [simp]: "owned t' (kill_task t s) \<longleftrightarrow> owned t' s \<and> t' \<noteq> t"
  by (auto simp: owned_def in_remove_task)

lemma kill_task_leads:
  assumes inv: "server_inv s" and own: "owned t s"
  shows "leads s (kill_task t s)"
proof -
  have "leader_of (kill_task t s) = (leader_of s)\<lparr>le_owned := le_owned (leader_of s) - {t},
      le_killed := insert t (le_killed (leader_of s))\<rparr>"
    by (auto simp: leader_of_def set_insort_insert) (simp_all add: kill_task_eq)
  then have "leader_step (ENSEMBLE_SIZE s) (leader_of s) [] (leader_of (kill_task t s))"
    using le_kill [of t "leader_of s"] own by (simp add: leader_of_def)
  then show ?thesis
    using kill_task_inv [OF inv owned_state(1-3) [OF inv own]] leader_steps_one
    by (auto simp: leads_def intro!: exI [of _ "[]"])
qed

lemma reschedule_directly_leads:
  assumes "server_inv s" "comm_rank s = 0" "reschedule_directly s = Inr s'"
  shows "leads s s'"
  using assms first_idle_not_killed [OF server_inv_base [OF assms(1)]]
  by (auto simp: reschedule_directly_def and_then_Inr_iff leads_refl schedule_new_task_leads
      split: option.splits)

lemma fail_state_Inr:
  "fail_state sid s = Inr s' \<Longrightarrow> \<exists>n. s' = s\<lparr>failcount := (failcount s)[nat sid := n]\<rparr>"
  by (auto simp: fail_state_def and_then_Inr_iff Let_def split: if_splits)

lemma leads_failcount:
  "length fc = length (failcount s') \<Longrightarrow> leads s (s'\<lparr>failcount := fc\<rparr>) = leads s s'"
proof -
  assume l: "length fc = length (failcount s')"
  have "leader_of (s'\<lparr>failcount := fc\<rparr>) = leader_of s'" "surroundings (s'\<lparr>failcount := fc\<rparr>) = surroundings s'"
      "sends (s'\<lparr>failcount := fc\<rparr>) = sends s'"
    by (simp_all add: leader_of_def surroundings_def sends_def)
  with server_inv_failcount [OF l] show ?thesis by (simp add: leads_def)
qed

lemma leads_rank: "leads s s' \<Longrightarrow> comm_rank s' = comm_rank s"
  by (simp add: leads_def surroundings_def)

lemma leads_inv: "leads s s' \<Longrightarrow> server_inv s'"
  by (simp add: leads_def)

section \<open>Due dates and kill requests\<close>

lemma due_date_passed_leads:
  assumes inv: "server_inv s" and c: "comm_rank s = 0" and own: "owned t s"
    and d: "due_date_passed t s = Inr s'"
  shows "leads s s'"
proof -
  let ?k = "emits [Launcher_notify (task_runner_id t) TIMEOUT] (trigger ''REMOVE_RUNNER'' (task_runner_id t) (kill_task t s))"
  obtain s1 where f: "fail_state (task_state_id t) ?k = Inr s1" and r: "reschedule_directly s1 = Inr s'"
    using d c by (auto simp: due_date_passed_def Let_def emit_emits and_then_Inr_iff)
  have "leads s ?k" by (intro leads_emits) (simp_all add: kill_task_leads [OF inv own])
  then have l: "leads s s1" using fail_state_Inr [OF f] by (auto simp: leads_failcount)
  then have "leads s1 s'"
    using reschedule_directly_leads [OF _ _ r] leads_inv [OF l] leads_rank [OF l] c by simp
  with l show ?thesis by (rule leads_trans)
qed

lemma due_dates_loop_leads:
  "server_inv s \<Longrightarrow> comm_rank s = 0 \<Longrightarrow> distinct ts \<Longrightarrow> (\<forall>t \<in> set ts. owned t s) \<Longrightarrow>
     due_dates_loop ts s = Inr s' \<Longrightarrow> leads s s'"
proof (induction ts arbitrary: s)
  case (Cons t ts)
  then obtain s1 where d: "due_date_passed t s = Inr s1" "due_dates_loop ts s1 = Inr s'"
    by (auto simp: and_then_Inr_iff)
  have l: "leads s s1" using due_date_passed_leads [OF _ _ _ d(1)] Cons.prems by simp
  moreover have "outcome (progress {t} s) (due_date_passed t s)"
    by (rule due_date_passed_outcome) (use Cons.prems in auto)
  then have "progress {t} s s1" by (simp add: d)
  then have "\<forall>t' \<in> set ts. owned t' s1"
    using Cons.prems(3,4) unfolding progress_def by auto
  then have "leads s1 s'"
    using Cons.IH [OF leads_inv [OF l] _ _ _ d(2)] leads_rank [OF l] Cons.prems(2,3) by simp
  ultimately show ?case by (rule leads_trans)
qed (simp add: leads_refl)

lemma check_due_dates_leads:
  assumes "server_inv s" "comm_rank s = 0" "check_due_dates s = Inr s'"
  shows "leads s s'"
  using assms due_dates_loop_leads [OF assms(1,2) distinct_overdue]
  by (auto simp: check_due_dates_def set_overdue owned_def sub_tasks_def)

text \<open>Rank 0 reads kill requests, from the oldest on: what it has read is killed.\<close>

definition pair_task :: "int \<times> int \<Rightarrow> task" where
  "pair_task p = Task (fst p) (snd p)"

lemma pair_task_simps [simp]: "pair_task (a, b) = Task a b"
  by (simp add: pair_task_def)

definition takes_requests :: "'a server \<Rightarrow> 'a server \<Rightarrow> bool" where
  "takes_requests s s' \<longleftrightarrow> leads (s\<lparr>kill_inbox := kill_inbox s'\<rparr>) s' \<and>
     (\<forall>k. \<exists>taken. kill_inbox s k = taken @ kill_inbox s' k \<and> pair_task ` set taken \<subseteq> set (killed s'))"

lemma leader_steps_killed: "leader_steps n l nts l' \<Longrightarrow> le_killed l \<subseteq> le_killed l'"
proof (induction rule: leader_steps.induct)
  case (le_more l nts l' nts' l'')
  from le_more.hyps(1) have "le_killed l \<subseteq> le_killed l'" by cases auto
  with le_more.IH show ?case by simp
qed simp

lemma leads_killed: "leads s s' \<Longrightarrow> set (killed s) \<subseteq> set (killed s')"
  by (auto simp: leads_def leader_of_def dest!: leader_steps_killed)

lemma leads_takes: "leads s s' \<Longrightarrow> takes_requests s s'"
proof -
  assume l: "leads s s'"
  then have "kill_inbox s' = kill_inbox s" by (simp add: leads_def surroundings_def)
  with l show ?thesis by (simp add: takes_requests_def)
qed

lemma leader_of_kill_inbox [simp]: "leader_of (s\<lparr>kill_inbox := b\<rparr>) = leader_of s"
    "sends (s\<lparr>kill_inbox := b\<rparr>) = sends s"
  by (simp_all add: leader_of_def sends_def)

lemma takes_requests_trans:
  assumes "takes_requests s s'" "takes_requests s' s''"
  shows "takes_requests s s''"
proof -
  have eq: "leads (s\<lparr>kill_inbox := kill_inbox s''\<rparr>) (s'\<lparr>kill_inbox := kill_inbox s''\<rparr>)"
    using assms(1) by (auto simp: takes_requests_def leads_def surroundings_def)
  have l: "leads (s'\<lparr>kill_inbox := kill_inbox s''\<rparr>) s''" using assms(2) by (simp add: takes_requests_def)
  have k: "set (killed s') \<subseteq> set (killed s'')" using leads_killed [OF l] by simp
  have "\<exists>taken. kill_inbox s k = taken @ kill_inbox s'' k \<and> pair_task ` set taken \<subseteq> set (killed s'')" for k
  proof -
    obtain a b where "kill_inbox s k = a @ kill_inbox s' k" "pair_task ` set a \<subseteq> set (killed s')"
        "kill_inbox s' k = b @ kill_inbox s'' k" "pair_task ` set b \<subseteq> set (killed s'')"
      using assms unfolding takes_requests_def by metis
    with k show ?thesis by (intro exI [of _ "a @ b"]) auto
  qed
  with leads_trans [OF eq l] show ?thesis by (simp add: takes_requests_def)
qed

lemma takes_requests_facts:
  assumes "takes_requests s s'"
  shows "server_inv s'" "comm_rank s' = comm_rank s" "comm_size s' = comm_size s"
  using assms by (simp_all add: takes_requests_def leads_def surroundings_def)

lemma handle_kill_request_leads:
  assumes inv: "server_inv s" and c: "comm_rank s = 0" and v: "t \<in> set (killed s) \<or> owned t s"
    and h: "handle_kill_request t s = Inr s'"
  shows "leads s s'"
proof -
  define as where "as = (if report_timing s \<and> task_runner_id t \<notin> task_runner_id ` set (killed s)
     then [Trigger ''REMOVE_RUNNER'' (task_runner_id t), Launcher_notify (task_runner_id t) TIMEOUT] else [])"
  let ?s = "emits as s"
  have silent: "mpi_sends as = []" by (simp add: as_def)
  have eq: "handle_kill_request t s = (if t \<in> set (killed s) then Inr ?s
     else and_then (fail_state (task_state_id t) (?s\<lparr>killed := insort_insert t (killed s)\<rparr>)) (\<lambda>s.
          reschedule_directly (kill_task t s)))"
    using c by (simp add: handle_kill_request_def as_def trigger_def emit_emits Let_def)
  show ?thesis
  proof (cases "t \<in> set (killed s)")
    case True
    with h eq have "s' = ?s" by simp
    then show ?thesis using leads_emits [OF leads_refl [OF inv] silent] by simp
  next
    case False
    with v have own: "owned t s" by simp
    let ?k = "?s\<lparr>killed := insort_insert t (killed s)\<rparr>"
    obtain s1 where f: "fail_state (task_state_id t) ?k = Inr s1" and r: "reschedule_directly (kill_task t s1) = Inr s'"
      using h eq False by (auto simp: and_then_Inr_iff)
    obtain n where s1: "s1 = ?k\<lparr>failcount := (failcount s)[nat (task_state_id t) := n]\<rparr>"
      using fail_state_Inr [OF f] by auto
    have "kill_task t s1 = (kill_task t ?s)\<lparr>failcount := (failcount s)[nat (task_state_id t) := n]\<rparr>"
      unfolding s1 kill_task_failcount using kill_task_again [of t ?s] by simp
    moreover have "leads s (kill_task t ?s)"
      using kill_task_leads [of ?s t] inv own by (simp add: leads_emits_first silent)
    ultimately have l: "leads s (kill_task t s1)" by (simp add: leads_failcount)
    then have "leads (kill_task t s1) s'"
      using reschedule_directly_leads [OF leads_inv [OF l] _ r] leads_rank [OF l] c by simp
    with l show ?thesis by (rule leads_trans)
  qed
qed

lemma kill_requests_loop_takes:
  "server_inv s \<Longrightarrow> comm_rank s = 0 \<Longrightarrow> requests_valid s \<Longrightarrow> kill_requests_loop ds s = Inr s' \<Longrightarrow>
     takes_requests s s'"
proof (induction ds arbitrary: s)
  case Nil
  then show ?case by (simp add: leads_takes leads_refl)
next
  case (Cons d ds)
  show ?case
  proof (cases "kill_inbox s d")
    case Nil
    then show ?thesis using Cons by simp
  next
    case (Cons req rest)
    obtain sid r where req: "req = (sid, r)" by fastforce
    let ?s = "s\<lparr>kill_inbox := (kill_inbox s)(d := rest)\<rparr>"
    obtain s1 where h: "handle_kill_request (Task sid r) ?s = Inr s1" and l: "kill_requests_loop ds s1 = Inr s'"
      using Cons.prems(4) Cons req by (auto simp: and_then_Inr_iff)
    have sub: "set (kill_inbox ?s k) \<subseteq> set (kill_inbox s k)" for k by (cases "k = d") (auto simp: Cons)
    then have v: "requests_valid ?s"
      using Cons.prems(3) unfolding requests_valid_def by fastforce
    have "(sid, r) \<in> set (kill_inbox s d)" by (simp add: Cons req)
    then have ok: "Task sid r \<in> set (killed ?s) \<or> owned (Task sid r) ?s"
      using Cons.prems(3) unfolding requests_valid_def by fastforce
    have one: "leads ?s s1"
      by (rule handle_kill_request_leads [OF _ _ ok h]) (use Cons.prems in simp_all)
    have "outcome (progress {Task sid r} ?s) (handle_kill_request (Task sid r) ?s)"
      by (rule handle_kill_request_outcome) (use Cons.prems ok in auto)
    then have pr: "progress {Task sid r} ?s s1" using h by simp
    then have "requests_valid s1" by (rule requests_valid_progress [OF v])
    then have two: "takes_requests s1 s'"
      using Cons.IH [OF leads_inv [OF one] _ _ l] leads_rank [OF one] Cons.prems(2) by simp
    have "Task sid r \<in> set (killed s1)" using pr by (simp add: progress_def)
    moreover have "leads (s1\<lparr>kill_inbox := kill_inbox s'\<rparr>) s'" using two by (simp add: takes_requests_def)
    from leads_killed [OF this] have "set (killed s1) \<subseteq> set (killed s')" by simp
    ultimately have dead: "Task sid r \<in> set (killed s')" by blast
    have "takes_requests ?s s'" using leads_takes [OF one] two by (rule takes_requests_trans)
    then have t: "leads (s\<lparr>kill_inbox := kill_inbox s'\<rparr>) s'"
        "\<And>k. \<exists>taken. kill_inbox ?s k = taken @ kill_inbox s' k \<and> pair_task ` set taken \<subseteq> set (killed s')"
      unfolding takes_requests_def by auto
    have "\<exists>taken. kill_inbox s k = taken @ kill_inbox s' k \<and> pair_task ` set taken \<subseteq> set (killed s')" for k
    proof -
      obtain taken where taken: "kill_inbox ?s k = taken @ kill_inbox s' k" "pair_task ` set taken \<subseteq> set (killed s')"
        using t(2) by blast
      show ?thesis
      proof (cases "k = d")
        case True
        with taken Cons req dead show ?thesis by (intro exI [of _ "req # taken"]) auto
      next
        case False
        with taken show ?thesis by auto
      qed
    qed
    with t(1) show ?thesis by (simp add: takes_requests_def)
  qed
qed

lemma leads_last_seconds [simp]:
  "leads (s\<lparr>last_seconds_checks := n\<rparr>) s' = leads s s'"
  "takes_requests (s\<lparr>last_seconds_checks := n\<rparr>) s' = takes_requests s s'"
  by (simp_all add: leads_def takes_requests_def surroundings_def leader_of_def sends_def)

lemma check_dates_takes:
  assumes inv: "server_inv s" and c: "comm_rank s = 0" and v: "requests_valid s"
    and d: "check_dates_and_requests s = Inr s'"
  shows "takes_requests s s'"
proof (cases "last_seconds_checks s < now s")
  case False
  with d inv show ?thesis by (simp add: check_dates_and_requests_def leads_takes leads_refl)
next
  case True
  let ?s = "s\<lparr>last_seconds_checks := now s\<rparr>"
  obtain s1 where s1: "check_due_dates ?s = Inr s1"
      and s': "(if comm_rank s1 = 0 then check_kill_requests s1 else Inr s1) = Inr s'"
    using d True by (auto simp: check_dates_and_requests_def and_then_Inr_iff)
  have l: "leads ?s s1" by (rule check_due_dates_leads [OF _ _ s1]) (use inv c in simp_all)
  have "progress (set (overdue ?s)) ?s s1"
    using check_due_dates_outcome [of ?s] inv s1 by simp
  then have "requests_valid s1" using requests_valid_progress [of ?s] v by simp
  moreover have "comm_rank s1 = 0" using leads_rank [OF l] c by simp
  ultimately have "takes_requests s1 s'"
    using s' kill_requests_loop_takes [OF leads_inv [OF l]] by (simp add: check_kill_requests_def)
  with leads_takes [OF l] have "takes_requests ?s s'" by (rule takes_requests_trans)
  then show ?thesis by simp
qed

section \<open>Responses and rescheduling\<close>

lemma answer_response_leads:
  assumes inv: "server_inv s" and c: "comm_rank s = 0" and nk: "rp_runner_id rp \<notin> task_runner_id ` set (killed s)"
    and rr: "rp_runner_rank rp \<in> set (connected_runner_ranks (the_field s))"
    and r: "answer_response rp s = Inr s'"
  shows "leads s s'"
proof (cases "keeps s s'")
  case True
  have "server_inv s'" using answer_response_progress [OF inv nk rr r] by (simp add: progress_def)
  with True show ?thesis by (rule keeps_leads)
next
  case False
  let ?s = "save_connection rp s"
  have "find (is_next_task rp) (scheduled_sub_tasks s) = None"
      "completely_idle ?s (the (map_of (idle_runners ?s) (rp_runner_id rp)))"
    using answer_kept [OF r] False by blast+
  moreover have k: "keeps s ?s" by (rule save_connection_keeps)
  then have c': "comm_rank ?s = 0" "killed ?s = killed s" using c by (simp_all add: keeps_def surroundings_def)
  ultimately obtain b where b: "schedule_new_task (rp_runner_id rp) ?s = Inr (b, s')"
    using r by (auto simp: answer_response_def Let_def and_then_Inr_iff)
  have inv': "server_inv ?s" using save_connection_progress [OF inv nk rr] by (simp add: progress_def)
  have "leads ?s s'" by (rule schedule_new_task_leads [OF inv' _ _ b]) (use c' nk in auto)
  with keeps_leads [OF k inv'] show ?thesis by (rule leads_trans)
qed

context assimilator
begin

lemma handle_data_response_leads:
  assumes inv: "server_inv s" and c: "comm_rank s = 0" and r: "handle_data_response ops s = Inr s'"
  shows "leads s s'"
proof -
  obtain rp s1 s2 where st: "recv_response s = Inr (rp, s1)" "notify_launcher_about (rp_runner_id rp) s1 = Inr s2"
      and s': "(if rp_runner_id rp \<in> task_runner_id ` set (killed s2)
        then Inr (stop_connection KILL_RUNNER (Some (rp_identity rp)) s2)
        else process_response ops rp s2) = Inr s'"
    using r by (auto simp: handle_data_response_def and_then_Inr_iff)
  have k2: "keeps s s2" using recv_response_keeps [OF st(1)] notify_keeps [OF st(2)] by (rule keeps_trans)
  have "same_tasks s s2"
    using recv_response_same_tasks [OF st(1)] notify_same_tasks [OF st(2)] by (rule same_tasks_trans)
  then have inv2: "server_inv s2" using same_tasks_progress [OF inv] by (simp add: progress_def)
  show ?thesis
  proof (cases "rp_runner_id rp \<in> task_runner_id ` set (killed s2)")
    case True
    with s' have "s' = emits (stop_frames (rp_identity rp) (current_step s2) KILL_RUNNER) s2"
      by (simp add: stop_connection_eq conn_frames_def)
    with keeps_leads [OF k2 inv2] show ?thesis by (simp add: leads_emits)
  next
    case nk: False
    then obtain s3 s4 s5 p h vh where pr: "finish_sub_task rp s2 = Inr s3"
        "getPart (comm_rank s3) (rp_runner_rank rp) (the_field s3) = Inr p"
        "recv_hidden h rp s3 = Inr (vh, s4)" "store_response ops rp p h vh s4 = Inr s5"
        "answer_response rp s5 = Inr s'"
      using s' by (auto simp: process_response_def and_then_Inr_iff)
    have k5: "keeps s2 s5"
      using finish_sub_task_keeps [OF pr(1)] recv_hidden_keeps [OF pr(3)] store_response_keeps [OF pr(4)]
        keeps_trans by metis
    have same: "same_tasks s2 s3" "same_tasks s3 s4" "same_tasks s4 s5"
      using finish_sub_task_same_tasks [OF pr(1)] recv_hidden_same_tasks [OF pr(3)]
        store_response_same_tasks [OF pr(4)] by auto
    then have "same_tasks s3 s5" "same_tasks s2 s5" using same_tasks_trans by blast+
    then have inv5: "server_inv s5" and "server_inv s3"
        and ranks: "connected_runner_ranks (the_field s5) = connected_runner_ranks (the_field s3)"
      using same_tasks_progress [OF inv2] same(1) same_shape_fields(1) [of "the_field s3" "the_field s5"]
      by (auto simp: progress_def same_tasks_def)
    then have rr: "rp_runner_rank rp \<in> set (connected_runner_ranks (the_field s5))"
      using getPart_connected [OF _ pr(2)] by (simp add: server_inv_def base_inv_def)
    have "comm_rank s5 = 0" "killed s5 = killed s2"
      using k2 k5 c by (simp_all add: keeps_def surroundings_def)
    then have "leads s5 s'" using answer_response_leads [OF inv5 _ _ rr pr(5)] nk by simp
    moreover have "leads s s5" using keeps_leads [OF keeps_trans [OF k2 k5] inv5] .
    ultimately show ?thesis using leads_trans by blast
  qed
qed

end

lemma reschedule_leads: "server_inv s \<Longrightarrow> comm_rank s = 0 \<Longrightarrow> reschedule s = Inr s' \<Longrightarrow> leads s s'"
proof (induction s rule: reschedule.induct)
  case (1 s)
  show ?case
  proof (cases "get_completely_idle_runner s = None \<or> unscheduled_tasks s = []")
    case True
    then have "reschedule s = Inr s" by (subst reschedule.simps) (auto split: option.splits)
    with 1 leads_refl show ?thesis by simp
  next
    case False
    then obtain r where r: "get_completely_idle_runner s = Some r" by auto
    obtain b s1 where s1: "schedule_new_task r s = Inr (b, s1)"
      using schedule_new_task_progress idle_not_killed [OF _ completely_idle_member [OF r]] "1.prems" by blast
    have l: "leads s s1"
      using schedule_new_task_leads [OF _ _ _ s1] idle_not_killed [OF _ completely_idle_member [OF r]] "1.prems" by simp
    have "reschedule s = reschedule s1"
      by (subst reschedule.simps) (use r False s1 in simp)
    with "1.IH" [OF r _ s1(1)] False "1.prems" leads_inv [OF l] leads_rank [OF l]
    have "leads s1 s'" by auto
    with l show ?thesis by (rule leads_trans)
  qed
qed

end
