(* ===== verification/FollowerSteps.thy ===== *)
theory FollowerSteps
  imports LeaderSteps
begin

text \<open>
  A rank other than 0 is a follower of the protocol: each of its handlers is a sequence of
  follower steps, and sends rank 0 the kill requests and reports of these steps, in this order.
\<close>

section \<open>The messages of a follower\<close>

primrec request_of :: "mpi_message \<Rightarrow> task option" where
  "request_of (New_task nt) = None"
| "request_of (Kill_request sid r) = Some (Task sid r)"
| "request_of (Rank_finished h) = None"
| "request_of All_finished = None"

primrec report_of :: "mpi_message \<Rightarrow> int option" where
  "report_of (New_task nt) = None"
| "report_of (Kill_request sid r) = None"
| "report_of (Rank_finished h) = Some h"
| "report_of All_finished = None"

primrec new_task_of :: "mpi_message \<Rightarrow> new_task option" where
  "new_task_of (New_task nt) = Some nt"
| "new_task_of (Kill_request sid r) = None"
| "new_task_of (Rank_finished h) = None"
| "new_task_of All_finished = None"

abbreviation "requests_in ms \<equiv> List.map_filter request_of ms"
abbreviation "reports_in ms \<equiv> List.map_filter report_of ms"
abbreviation "new_tasks_in ms \<equiv> List.map_filter new_task_of ms"

lemma map_filter_list [simp]:
  "List.map_filter f [] = []"
  "List.map_filter f (x # xs) = (case f x of None \<Rightarrow> List.map_filter f xs | Some y \<Rightarrow> y # List.map_filter f xs)"
  by (simp_all add: List.map_filter_def split: option.splits)

definition from_follower :: "mpi_message \<Rightarrow> bool" where
  "from_follower m \<longleftrightarrow> request_of m \<noteq> None \<or> report_of m \<noteq> None"

definition follower_of :: "new_task list \<Rightarrow> task list \<Rightarrow> int list \<Rightarrow> 'a server \<Rightarrow> follower" where
  "follower_of pend reqs reps s = \<lparr>fo_owned = {t. owned t s}, fo_killed = set (killed s),
     fo_pending = new_task_inbox s @ pend, fo_received = highest_received_task_id s,
     fo_sent = highest_sent_task_id s, fo_requests = reqs, fo_reports = reps, fo_done = would_finish s\<rparr>"

definition follows_with :: "mpi_message list \<Rightarrow> 'a server \<Rightarrow> 'a server \<Rightarrow> bool" where
  "follows_with ms s s' \<longleftrightarrow> server_inv s' \<and> surroundings s' = surroundings s \<and>
     sends s' = sends s @ map (Pair 0) ms \<and> (\<forall>m \<in> set ms. from_follower m) \<and>
     (\<forall>pend reqs reps. follower_steps (ENSEMBLE_SIZE s) (follower_of pend reqs reps s)
        (follower_of pend (reqs @ requests_in ms) (reps @ reports_in ms) s'))"

definition follows :: "'a server \<Rightarrow> 'a server \<Rightarrow> bool" where
  "follows s s' \<longleftrightarrow> (\<exists>ms. follows_with ms s s')"

lemma follower_of_emits [simp]: "follower_of pend reqs reps (emits as s) = follower_of pend reqs reps s"
  by (simp add: follower_of_def)

lemma follows_refl: "server_inv s \<Longrightarrow> follows s s"
  unfolding follows_def follows_with_def
  by (rule exI [of _ "[]"], intro conjI allI) (simp_all add: fo_none)

lemma follows_with_trans:
  assumes "follows_with ms s s'" "follows_with ms' s' s''"
  shows "follows_with (ms @ ms') s s''"
proof -
  have same: "ENSEMBLE_SIZE s' = ENSEMBLE_SIZE s"
    using assms(1) by (simp add: follows_with_def surroundings_def)
  have "follower_steps (ENSEMBLE_SIZE s) (follower_of pend reqs reps s)
      (follower_of pend (reqs @ requests_in (ms @ ms')) (reps @ reports_in (ms @ ms')) s'')" for pend reqs reps
  proof -
    have "follower_steps (ENSEMBLE_SIZE s) (follower_of pend reqs reps s)
        (follower_of pend (reqs @ requests_in ms) (reps @ reports_in ms) s')"
      using assms(1) by (simp add: follows_with_def)
    moreover have "follower_steps (ENSEMBLE_SIZE s) (follower_of pend (reqs @ requests_in ms) (reps @ reports_in ms) s')
        (follower_of pend ((reqs @ requests_in ms) @ requests_in ms') ((reps @ reports_in ms) @ reports_in ms') s'')"
      using assms(2) unfolding follows_with_def same by blast
    ultimately show ?thesis unfolding map_filter_append append_assoc by (rule follower_steps_trans)
  qed
  with assms show ?thesis by (auto simp: follows_with_def)
qed

lemma follows_trans: "follows s s' \<Longrightarrow> follows s' s'' \<Longrightarrow> follows s s''"
  unfolding follows_def using follows_with_trans by blast

lemma follows_rank: "follows s s' \<Longrightarrow> comm_rank s' = comm_rank s" "follows s s' \<Longrightarrow> server_inv s'"
    "follows s s' \<Longrightarrow> all_finished_inbox s' = all_finished_inbox s"
  by (auto simp: follows_def follows_with_def surroundings_def)

lemma follows_step:
  assumes "server_inv s'" "surroundings s' = surroundings s" "sends s' = sends s @ map (Pair 0) ms"
    and "\<forall>m \<in> set ms. from_follower m"
    and "\<And>pend reqs reps. follower_step (ENSEMBLE_SIZE s) (follower_of pend reqs reps s)
        (follower_of pend (reqs @ requests_in ms) (reps @ reports_in ms) s')"
  shows "follows s s'"
  using assms follower_steps_one unfolding follows_def follows_with_def by blast

lemma follows_last_seconds [simp]: "follows (s\<lparr>last_seconds_checks := n\<rparr>) s' = follows s s'"
proof -
  have "owned t (s\<lparr>last_seconds_checks := n\<rparr>) = owned t s" for t by (simp add: owned_def sub_tasks_def)
  then show ?thesis
    by (simp add: follows_def follows_with_def surroundings_def sends_def follower_of_def would_finish_def
        all_finished_size_def)
qed

section \<open>Killing\<close>

lemma kill_task_unfinished: "\<not> would_finish (kill_task t s)"
  by (simp add: would_finish_def insort_insert_key_def) (metis insort_not_Nil list.distinct(1) list.set_intros(1) equals0D list.set(1))

lemma due_date_passed_follows:
  assumes inv: "server_inv s" and c: "comm_rank s \<noteq> 0" and own: "owned t s" and w: "\<not> would_finish s"
    and d: "due_date_passed t s = Inr s'"
  shows "follows s s' \<and> \<not> would_finish s'"
proof -
  let ?m = "Kill_request (task_state_id t) (task_runner_id t)"
  have s': "s' = emits [Mpi_send 0 ?m] (kill_task t s)"
    using d c by (simp add: due_date_passed_def emit_emits)
  have inv': "server_inv s'"
    using kill_task_inv [OF inv owned_state(1-3) [OF inv own]] by (simp add: s')
  have "follows s s'"
  proof (rule follows_step [OF inv', of _ "[?m]"])
    fix pend reqs reps
    have f: "follower_of pend (reqs @ requests_in [?m]) (reps @ reports_in [?m]) s' =
        (follower_of pend reqs reps s)\<lparr>fo_owned := fo_owned (follower_of pend reqs reps s) - {t},
          fo_killed := insert t (fo_killed (follower_of pend reqs reps s)),
          fo_requests := fo_requests (follower_of pend reqs reps s) @ [t]\<rparr>"
      using kill_task_unfinished [of t s] w
      by (auto simp: s' follower_of_def set_insort_insert) (simp_all add: kill_task_eq)
    show "follower_step (ENSEMBLE_SIZE s) (follower_of pend reqs reps s)
        (follower_of pend (reqs @ requests_in [?m]) (reps @ reports_in [?m]) s')"
      unfolding f by (rule fo_kill) (use own w in \<open>simp_all add: follower_of_def\<close>)
  qed (simp_all add: s' from_follower_def)
  then show ?thesis using kill_task_unfinished by (simp add: s')
qed

lemma due_dates_loop_follows:
  "server_inv s \<Longrightarrow> comm_rank s \<noteq> 0 \<Longrightarrow> distinct ts \<Longrightarrow> (\<forall>t \<in> set ts. owned t s) \<Longrightarrow>
     (ts \<noteq> [] \<longrightarrow> \<not> would_finish s) \<Longrightarrow> due_dates_loop ts s = Inr s' \<Longrightarrow> follows s s'"
proof (induction ts arbitrary: s)
  case (Cons t ts)
  then obtain s1 where d: "due_date_passed t s = Inr s1" "due_dates_loop ts s1 = Inr s'"
    by (auto simp: and_then_Inr_iff)
  have l: "follows s s1" "\<not> would_finish s1"
    using due_date_passed_follows [OF _ _ _ _ d(1)] Cons.prems by simp_all
  moreover have "outcome (progress {t} s) (due_date_passed t s)"
    by (rule due_date_passed_outcome) (use Cons.prems in auto)
  then have "progress {t} s s1" by (simp add: d)
  then have "\<forall>t' \<in> set ts. owned t' s1"
    using Cons.prems(3,4) unfolding progress_def by auto
  then have "follows s1 s'"
    using Cons.IH [OF follows_rank(2) [OF l(1)] _ _ _ _ d(2)] follows_rank(1) [OF l(1)] Cons.prems(2,3) l(2) by simp
  ultimately show ?case using follows_trans by blast
qed (simp add: follows_refl)

lemma check_dates_follows:
  assumes inv: "server_inv s" and c: "comm_rank s \<noteq> 0" and d: "check_dates_and_requests s = Inr s'"
  shows "follows s s'"
proof (cases "last_seconds_checks s < now s")
  case False
  with d inv show ?thesis by (simp add: check_dates_and_requests_def follows_refl)
next
  case True
  let ?s = "s\<lparr>last_seconds_checks := now s\<rparr>"
  obtain s1 where s1: "due_dates_loop (overdue ?s) ?s = Inr s1"
      and s': "(if comm_rank s1 = 0 then check_kill_requests s1 else Inr s1) = Inr s'"
    using d True by (auto simp: check_dates_and_requests_def check_due_dates_def and_then_Inr_iff)
  have own: "\<forall>t \<in> set (overdue ?s). owned t ?s"
    by (auto simp: set_overdue owned_def sub_tasks_def)
  have w: "overdue ?s \<noteq> [] \<longrightarrow> \<not> would_finish ?s"
  proof
    assume "overdue ?s \<noteq> []"
    then have "set (overdue ?s) \<noteq> {}" by simp
    then show "\<not> would_finish ?s" unfolding set_overdue by (auto simp: would_finish_def)
  qed
  have "follows ?s s1"
    by (rule due_dates_loop_follows [OF _ _ distinct_overdue own w s1]) (use inv c in simp_all)
  with s' c follows_rank(1) [of s s1] show ?thesis by simp
qed

section \<open>New tasks and responses\<close>

lemma same_state_owned:
  assumes "server_inv s" "owned (Task sid r) s"
  shows "{t. owned t s \<and> task_state_id t = sid} = {Task sid r}"
proof -
  have only: "t = Task sid r" if t: "owned t s" "task_state_id t = sid" for t
  proof -
    obtain st where st: "st \<in> set (sub_tasks s)" "task_of st = t" using t by (auto simp: owned_def)
    with t(2) owned_state(3) [OF assms] have "runner_id st = r"
      by (auto simp: owner_free_def task_of_def)
    with st t(2) show ?thesis by (cases t) (simp add: task_of_def)
  qed
  show ?thesis
  proof (rule set_eqI)
    fix t
    show "t \<in> {t. owned t s \<and> task_state_id t = sid} \<longleftrightarrow> t \<in> {Task sid r}"
      using only [of t] assms(2) by (cases "t = Task sid r") (simp, blast)
  qed
qed

lemma forget_state_tasks:
  assumes inv: "server_inv s"
  shows "owned t (forget_state sid s) \<longleftrightarrow> owned t s \<and> task_state_id t \<noteq> sid"
    "set (killed (forget_state sid s)) = set (killed s) \<union> {t. owned t s \<and> task_state_id t = sid}"
    "surroundings (forget_state sid s) = surroundings s" "followed (forget_state sid s) = followed s"
    "sends (forget_state sid s) = sends s" "task_id (forget_state sid s) = task_id s"
proof -
  have "(owned t (forget_state sid s) \<longleftrightarrow> owned t s \<and> task_state_id t \<noteq> sid) \<and>
    set (killed (forget_state sid s)) = set (killed s) \<union> {t. owned t s \<and> task_state_id t = sid} \<and>
    surroundings (forget_state sid s) = surroundings s \<and> followed (forget_state sid s) = followed s \<and>
    sends (forget_state sid s) = sends s \<and> task_id (forget_state sid s) = task_id s" for t
  proof (cases "\<exists>st \<in> set (sub_tasks s). state_id st = sid")
    case True
    then obtain r where own: "owned (Task sid r) s" by (auto simp: owned_def task_of_def)
    have "owned t s \<and> task_state_id t = sid \<longleftrightarrow> t = Task sid r"
      using same_state_owned [OF inv own] by blast
    then show ?thesis
      unfolding forget_state_owned [OF inv own] same_state_owned [OF inv own]
      by (auto simp: set_insort_insert) (simp_all add: kill_task_eq)
  next
    case False
    then have "\<not> (owned t s \<and> task_state_id t = sid)" for t by (auto simp: owned_def task_of_def)
    then have "{t. owned t s \<and> task_state_id t = sid} = {}" "owned t s \<Longrightarrow> task_state_id t \<noteq> sid" by auto
    moreover have "forget_state sid s = s" using False by (intro forget_state_unowned) blast
    ultimately show ?thesis by auto
  qed
  then show "owned t (forget_state sid s) \<longleftrightarrow> owned t s \<and> task_state_id t \<noteq> sid"
    "set (killed (forget_state sid s)) = set (killed s) \<union> {t. owned t s \<and> task_state_id t = sid}"
    "surroundings (forget_state sid s) = surroundings s" "followed (forget_state sid s) = followed s"
    "sends (forget_state sid s) = sends s" "task_id (forget_state sid s) = task_id s" by blast+
qed

lemma check_schedule_follows:
  assumes inv: "server_inv s" and c: "comm_rank s \<noteq> 0"
    and v: "case new_task_inbox s of [] \<Rightarrow> True | nt # _ \<Rightarrow> new_task_valid nt s"
    and r: "check_schedule_new_tasks s = Inr s'"
  shows "follows s s'"
proof (cases "new_task_inbox s")
  case Nil
  with r c have "s' = s" by (simp add: check_schedule_new_tasks_def)
  with follows_refl [OF inv] show ?thesis by simp
next
  case (Cons nt rest)
  let ?sid = "nt_state_id nt"
  let ?s = "s\<lparr>new_task_inbox := rest,
    highest_received_task_id := max (nt_task_id nt) (highest_received_task_id s)\<rparr>"
  have v: "server_inv ?s" "new_task_valid nt ?s"
    using inv v Cons by (simp_all add: new_task_valid_def)
  note f = forget_state_inv [OF v] and t = forget_state_tasks [OF v(1)]
  let ?f = "forget_state ?sid ?s"
  let ?g = "?f\<lparr>unscheduled_tasks := filter (\<lambda>i. i \<noteq> ?sid) (unscheduled_tasks ?f)\<rparr>"
  obtain as idle run sch where l: "add_sub_tasks nt ?f = Inr (launched as idle run sch ?g)"
      "mset run + mset sch = mset (map (SubTask nt) (connected_runner_ranks (the_field ?f)))"
      "server_inv (launched as idle run sch ?g)"
    using add_sub_tasks_total [OF f(1-3)] by blast
  let ?l = "launched as idle run sch ?g"
  have s': "s' = ?l" using r c Cons l(1) by (simp add: check_schedule_new_tasks_def)
  have own: "owned t ?l \<longleftrightarrow> (owned t s \<and> task_state_id t \<noteq> ?sid) \<or> t = nt_task nt" for t
    using owned_made [OF l(2) server_ranks [OF f(1)], of t as idle ?g] t(1) [of t]
    by (simp add: owned_def sub_tasks_def)
  have "run \<noteq> [] \<or> sch \<noteq> []"
    using server_ranks [OF f(1)] l(2) by (auto simp: mset_eq_setD)
  then have w: "\<not> would_finish ?l" by (auto simp: would_finish_def)
  have "sends ?l = sends s"
    using add_sub_tasks_sends [OF l(1)] t(5) by (simp add: sends_def)
  moreover have "surroundings ?g = surroundings ?f" "surroundings ?s = surroundings s"
    by (simp_all add: surroundings_def)
  then have "surroundings ?l = surroundings s" using t(3) by simp
  moreover have "follower_step (ENSEMBLE_SIZE s) (follower_of pend reqs reps s) (follower_of pend reqs reps s')"
    for pend reqs reps
  proof -
    have "followed ?g = followed ?f" by (simp add: followed_def)
    then have "followed ?l = followed ?s" using t(4) by simp
    moreover have "set (killed ?l) = set (killed s) \<union> {t. owned t s \<and> task_state_id t = ?sid}"
      using t(2) by simp
    moreover have "{t. owned t ?l} = insert (nt_task nt) {t. owned t s \<and> task_state_id t \<noteq> ?sid}"
      unfolding own by auto
    ultimately have "follower_of pend reqs reps s' = fo_take nt (rest @ pend) (follower_of pend reqs reps s)"
      using w by (simp add: s' follower_of_def fo_take_def followed_def)
    then show ?thesis
      using fo_receive [of "follower_of pend reqs reps s" nt "rest @ pend"] by (simp add: follower_of_def Cons)
  qed
  ultimately show ?thesis
    using follows_step [of s' s "[]"] l(3) by (simp add: s')
qed

lemma finished_states:
  assumes inv: "server_inv s" and w: "would_finish s"
  shows "task_state_id ` {t. owned t s} = {0..<ENSEMBLE_SIZE s}"
proof -
  have k: "key ` set (sub_tasks s) = {0..<ENSEMBLE_SIZE s} \<times> set (connected_runner_ranks (the_field s))"
    using inv w by (simp add: server_inv_def tasks_inv_def would_finish_def)
  have "task_state_id ` {t. owned t s} = fst ` key ` set (sub_tasks s)"
    by (force simp: owned_def key_def task_of_def image_iff)
  also have "\<dots> = {0..<ENSEMBLE_SIZE s}"
    unfolding k using server_ranks [OF inv] by auto
  finally show ?thesis .
qed

lemma keeps_follows:
  assumes k: "keeps s s'" and inv: "server_inv s'"
  shows "follows s s'"
proof -
  have own: "owned t s' = owned t s" for t using k owned_mset by (auto simp: keeps_def)
  have "follower_steps (ENSEMBLE_SIZE s) (follower_of pend reqs reps s) (follower_of pend reqs reps s')"
    for pend reqs reps
  proof (cases "would_finish s = would_finish s'")
    case True
    then have "follower_of pend reqs reps s' = follower_of pend reqs reps s"
      using k own by (simp add: follower_of_def keeps_def followed_def)
    then show ?thesis by (simp add: fo_none)
  next
    case False
    then have w: "would_finish s'" "\<not> would_finish s" using k by (auto simp: keeps_def)
    then have eq: "follower_of pend reqs reps s' = (follower_of pend reqs reps s)\<lparr>fo_done := True\<rparr>"
      using k own by (simp add: follower_of_def keeps_def followed_def)
    have "task_state_id ` {t. owned t s} = {0..<ENSEMBLE_SIZE s}"
      using finished_states [OF inv w(1)] own k by (simp add: keeps_def surroundings_def)
    then show ?thesis
      unfolding eq by (intro follower_steps_one fo_finish) (simp add: follower_of_def)
  qed
  with k inv show ?thesis
    by (auto simp: follows_def follows_with_def keeps_def intro!: exI [of _ "[]"])
qed

context assimilator
begin

lemma handle_data_response_keeps:
  assumes c: "comm_rank s \<noteq> 0" and r: "handle_data_response ops s = Inr s'"
  shows "keeps s s'"
proof -
  obtain rp s1 s2 where st: "recv_response s = Inr (rp, s1)" "notify_launcher_about (rp_runner_id rp) s1 = Inr s2"
      and s': "(if rp_runner_id rp \<in> task_runner_id ` set (killed s2)
        then Inr (stop_connection KILL_RUNNER (Some (rp_identity rp)) s2)
        else process_response ops rp s2) = Inr s'"
    using r by (auto simp: handle_data_response_def and_then_Inr_iff)
  have k2: "keeps s s2" using recv_response_keeps [OF st(1)] notify_keeps [OF st(2)] by (rule keeps_trans)
  show ?thesis
  proof (cases "rp_runner_id rp \<in> task_runner_id ` set (killed s2)")
    case True
    with s' have "s' = emits (stop_frames (rp_identity rp) (current_step s2) KILL_RUNNER) s2"
      by (simp add: stop_connection_eq conn_frames_def)
    with k2 show ?thesis by (simp add: keeps_emits)
  next
    case False
    then obtain s3 s4 s5 p h vh where pr: "finish_sub_task rp s2 = Inr s3"
        "recv_hidden h rp s3 = Inr (vh, s4)" "store_response ops rp p h vh s4 = Inr s5"
        "answer_response rp s5 = Inr s'"
      using s' by (auto simp: process_response_def and_then_Inr_iff)
    have k5: "keeps s2 s5"
      using finish_sub_task_keeps [OF pr(1)] recv_hidden_keeps [OF pr(2)] store_response_keeps [OF pr(3)]
        keeps_trans by metis
    then have "comm_rank s5 \<noteq> 0" using k2 c by (simp add: keeps_def surroundings_def)
    then have "keeps s5 s'" using answer_kept [OF pr(4)] by blast
    with k2 k5 show ?thesis using keeps_trans by blast
  qed
qed

lemma handle_data_response_follows:
  assumes "server_inv s" "comm_rank s \<noteq> 0" "handle_data_response ops s = Inr s'"
  shows "follows s s'"
  using keeps_follows [OF handle_data_response_keeps [OF assms(2,3)]]
    handle_data_response_progress [OF assms(1,3)] by (simp add: progress_def)

end

end
