(* ===== verification/Collectives.thy ===== *)
theory Collectives
  imports Prelude
begin

text \<open>
  The exchange of index maps between the ranks of a communicator (common/utils.cxx): the gather
  and the scatter that go through files when a map has more elements than an MPI count can
  hold (SLOW\_MPI). The files are written by all ranks before any is read (MPI\_Barrier), so a
  collective is one function of the arguments of all ranks. The laws the callers rely on are
  those MPI documents for MPI\_Gatherv and MPI\_Scatterv, which the program calls otherwise.
\<close>

section \<open>Gather and scatter through files\<close>

fun read_files :: "'a list list \<Rightarrow> nat list \<Rightarrow> nat list \<Rightarrow> 'a list \<Rightarrow> 'a list res" where
  "read_files [] recvcounts displs recvbuf = Inr recvbuf"
| "read_files (f # files) (n # recvcounts) (d # displs) recvbuf =
     assert_then (length f = n)
      (if length recvbuf < d + n then Inl Undefined_behaviour
       else read_files files recvcounts displs (copy_into d f recvbuf))"
| "read_files _ _ _ _ = Inl Undefined_behaviour"

definition slow_MPI_Gatherv :: "'a list list \<Rightarrow> nat list \<Rightarrow> nat list \<Rightarrow> 'a list \<Rightarrow> 'a list res" where
  "slow_MPI_Gatherv sendbufs recvcounts displs recvbuf = read_files sendbufs recvcounts displs recvbuf"

fun write_files :: "'a list \<Rightarrow> nat \<Rightarrow> nat list \<Rightarrow> nat list \<Rightarrow> 'a list list res" where
  "write_files p cumul_send_counts [] displs = Inr []"
| "write_files p cumul_send_counts (n # sendcounts) (d # displs) =
     assert_then (cumul_send_counts = d)
      (if length p < n then Inl Undefined_behaviour
       else and_then (write_files (drop n p) (cumul_send_counts + n) sendcounts displs) (\<lambda>files.
            Inr (take n p # files)))"
| "write_files p cumul_send_counts (n # sendcounts) [] = Inl Undefined_behaviour"

definition slow_MPI_Scatterv :: "'a list \<Rightarrow> nat list \<Rightarrow> nat list \<Rightarrow> nat list \<Rightarrow> 'a list list res" where
  "slow_MPI_Scatterv sendbuf sendcounts displs recvcounts =
     and_then (write_files sendbuf 0 sendcounts displs) (\<lambda>files.
     assert_then (map length files = recvcounts) (Inr files))"

section \<open>The interface\<close>

definition offsets :: "nat list \<Rightarrow> nat list" where
  "offsets counts = map (\<lambda>i. sum_list (take i counts)) [0..<length counts]"

fun split_at :: "nat list \<Rightarrow> 'a list \<Rightarrow> 'a list list" where
  "split_at [] xs = []"
| "split_at (n # ns) xs = take n xs # split_at ns (drop n xs)"

lemma concat_split_at: "sum_list ns = length xs \<Longrightarrow> concat (split_at ns xs) = xs"
  by (induction ns xs rule: split_at.induct) auto

lemma split_at_concat: "map length xss = ns \<Longrightarrow> split_at ns (concat xss) = xss"
  by (induction xss arbitrary: ns) auto

lemma length_split_at [simp]: "length (split_at ns xs) = length ns"
  by (induction ns xs rule: split_at.induct) auto

lemma map_length_split_at: "sum_list ns \<le> length xs \<Longrightarrow> map length (split_at ns xs) = ns"
  by (induction ns xs rule: split_at.induct) auto

lemma split_at_nth:
  "i < length ns \<Longrightarrow> split_at ns xs ! i = subvec (sum_list (take i ns)) (ns ! i) xs"
proof (induction ns xs arbitrary: i rule: split_at.induct)
  case (2 n ns xs)
  then show ?case by (cases i) (simp_all add: subvec_def drop_drop add.commute)
qed simp

locale index_map_exchange =
  fixes gatherv :: "'a list list \<Rightarrow> nat list \<Rightarrow> nat list \<Rightarrow> 'a list \<Rightarrow> 'a list res"
    and scatterv :: "'a list \<Rightarrow> nat list \<Rightarrow> nat list \<Rightarrow> nat list \<Rightarrow> 'a list list res"
  assumes gatherv_law: "length buf = sum_list (map length xss) \<Longrightarrow>
      gatherv xss (map length xss) (offsets (map length xss)) buf = Inr (concat xss)"
    and scatterv_law: "length xs = sum_list counts \<Longrightarrow>
      scatterv xs counts (offsets counts) counts = Inr (split_at counts xs)"
begin

lemma exchange:
  assumes "length buf = sum_list (map length xss)" "sum_list counts = length (concat xss)"
  shows "and_then (gatherv xss (map length xss) (offsets (map length xss)) buf)
           (\<lambda>xs. scatterv xs counts (offsets counts) counts) = Inr (split_at counts (concat xss))"
  using assms by (simp add: gatherv_law scatterv_law)

lemma exchange_keeps_order:
  assumes "length buf = sum_list (map length xss)" "sum_list counts = length (concat xss)"
    and "and_then (gatherv xss (map length xss) (offsets (map length xss)) buf)
           (\<lambda>xs. scatterv xs counts (offsets counts) counts) = Inr yss"
  shows "concat yss = concat xss" and "map length yss = counts"
proof -
  have "yss = split_at counts (concat xss)"
    using assms(3) by (simp add: exchange [OF assms(1,2)])
  then show "concat yss = concat xss" "map length yss = counts"
    using concat_split_at [OF assms(2)] map_length_split_at [of counts "concat xss"] assms(2) by auto
qed

end

section \<open>The files keep the laws\<close>

lemma offsets_Cons: "offsets (n # ns) = 0 # map ((+) n) (offsets ns)"
proof -
  have "[0..<length (n # ns)] = 0 # map Suc [0..<length ns]"
    by (simp add: upt_conv_Cons map_Suc_upt del: upt_Suc)
  then show ?thesis by (simp add: offsets_def comp_def del: upt_Suc)
qed

lemma read_files_ok:
  "sum_list (map length xss) + k \<le> length buf \<Longrightarrow>
     read_files xss (map length xss) (map ((+) k) (offsets (map length xss))) buf =
       Inr (take k buf @ concat xss @ drop (k + sum_list (map length xss)) buf)"
proof (induction xss arbitrary: k buf)
  case (Cons xs xss)
  let ?buf = "copy_into k xs buf"
  have len: "length ?buf = length buf" using Cons.prems by (simp add: layout_simps)
  then have rest: "read_files xss (map length xss) (map ((+) (k + length xs)) (offsets (map length xss))) ?buf =
      Inr (take (k + length xs) ?buf @ concat xss @ drop (k + length xs + sum_list (map length xss)) ?buf)"
    using Cons.prems by (intro Cons.IH) simp
  have offs: "map ((+) k) (offsets (length xs # map length xss)) =
      k # map ((+) (k + length xs)) (offsets (map length xss))"
    by (simp add: offsets_Cons comp_def add.assoc)
  have front: "take (k + length xs) ?buf = take k buf @ xs"
    using Cons.prems by (cases xs) (auto simp: copy_into_def min_def)
  have tail: "drop (k + length xs + m) ?buf = drop (k + length xs + m) buf" for m
    using Cons.prems by (simp add: copy_into_def add.commute add.left_commute)
  show ?case
    using Cons.prems rest tail [of "sum_list (map length xss)"]
    unfolding list.map offs by (simp add: front add.assoc)
qed (simp add: offsets_def)

lemma write_files_ok:
  "length p = sum_list counts \<Longrightarrow>
     write_files p k counts (map ((+) k) (offsets counts)) = Inr (split_at counts p)"
proof (induction counts arbitrary: p k)
  case (Cons n counts)
  have "map ((+) k) (offsets (n # counts)) = k # map ((+) (k + n)) (offsets counts)"
    by (simp add: offsets_Cons comp_def add.assoc)
  with Cons show ?case by simp
qed simp

interpretation files: index_map_exchange slow_MPI_Gatherv slow_MPI_Scatterv
proof unfold_locales
  fix buf :: "'a list" and xss :: "'a list list"
  assume "length buf = sum_list (map length xss)"
  then show "slow_MPI_Gatherv xss (map length xss) (offsets (map length xss)) buf = Inr (concat xss)"
    using read_files_ok [of xss 0 buf] by (simp add: slow_MPI_Gatherv_def map_idI)
next
  fix xs :: "'a list" and counts :: "nat list"
  assume "length xs = sum_list counts"
  then show "slow_MPI_Scatterv xs counts (offsets counts) counts = Inr (split_at counts xs)"
    using write_files_ok [of xs counts 0] map_length_split_at [of counts xs]
    by (simp add: slow_MPI_Scatterv_def map_idI)
qed

end
