(* ===== verification/Api.thy ===== *)
theory Api
  imports ServerLoop Collectives
begin

text \<open>
  The runner side of the protocol (api/api\_common, api/melissa\_da\_api): one rank of a runner,
  its connections to the server ranks, the state parts it sends and receives, registration and
  finalization. Modelled is the mode with a server (the environment variable of the p2p mode is
  not set). The values of MPI collectives arrive as arguments: what rank 0 broadcasts is read
  from its state, what is gathered from all ranks is a list with one entry per rank.
\<close>

section \<open>The state of a runner rank\<close>

record connected_server_rank =
  csr_send_count :: nat
  local_vector_offset :: nat
  send_count_hidden :: nat
  local_vector_offset_hidden :: nat
  csr_server_rank :: int

record api_field =
  af_name :: string
  current_state_id :: int
  af_current_step :: int
  af_local_vect_size :: nat
  local_hidden_vect_size :: nat
  connected_server_ranks :: "connected_server_rank list"

record server_info =
  si_comm_size :: int
  port_names :: "string list"

text \<open>
  The configuration connection is a pointer: null, alive, or dangling after the delete in
  melissa\_finalize, which does not reset it.
\<close>

datatype ccon = Null | Connected | Dangling

datatype api_action =
    Api_send int frame bool
  | Ccon_send frame bool
  | Api_close int
  | Api_trigger string int

text \<open>
  \<open>server\_ranks\<close> holds the address each connection was opened with, \<open>awaiting\<close> the REQ sockets
  that have sent a request and not read the whole reply, \<open>rn\_inbox\<close> the replies that wait.
  \<open>node\_name\<close>, \<open>max\_processor\_name\<close> (MPI\_MAX\_PROCESSOR\_NAME) and \<open>env\_runner\_id\<close> (the
  number in MELISSA\_DA\_RUNNER\_ID) describe the environment.
\<close>

record runner_rank =
  rn_runner_id :: int
  rn_comm_rank :: int
  rn_comm_size :: int
  rn_phase :: phase
  rn_ccon :: ccon
  rn_server :: server_info
  server_ranks :: "(int, string) om"
  api_field :: api_field
  last_step :: int
  rn_report_timing :: bool
  context_open :: bool
  awaiting :: "int list"
  node_name :: string
  max_processor_name :: nat
  env_runner_id :: "int option"
  rn_inbox :: "int \<Rightarrow> (frame \<times> bool) list"
  ccon_inbox :: "(frame \<times> bool) list"
  rn_out :: "api_action list"

definition api_emit :: "api_action \<Rightarrow> runner_rank \<Rightarrow> runner_rank" where
  "api_emit a s = s\<lparr>rn_out := rn_out s @ [a]\<rparr>"

definition api_trigger :: "string \<Rightarrow> int \<Rightarrow> runner_rank \<Rightarrow> runner_rank" where
  "api_trigger ev p s =
     (if rn_report_timing s \<and> rn_comm_rank s = 0 then api_emit (Api_trigger ev p) s else s)"

definition getRunnerId :: "runner_rank \<Rightarrow> int res" where
  "getRunnerId s = assert_then (rn_runner_id s \<noteq> -1) (Inr (rn_runner_id s))"

section \<open>Connections\<close>

text \<open>The position of the first occurrence, as std::string::find returns it.\<close>

fun find_sub :: "string \<Rightarrow> string \<Rightarrow> nat option" where
  "find_sub pat [] = (if pat = [] then Some 0 else None)"
| "find_sub pat (c # s) =
     (if take (length pat) (c # s) = pat then Some 0 else map_option Suc (find_sub pat s))"

definition fix_port_name :: "string \<Rightarrow> string \<Rightarrow> string" where
  "fix_port_name my_host_name port_name =
     (case find_sub my_host_name port_name of
        None \<Rightarrow> port_name
      | Some found \<Rightarrow>
          let after = found + length my_host_name in
          if (found = 0 \<or> port_name ! (found - 1) = CHR ''/'') \<and>
             after < length port_name \<and> port_name ! after = CHR '':''
          then take found port_name @ ''127.0.0.1'' @ drop after port_name
          else port_name)"

text \<open>ServerRanks::get: connect on first use.\<close>

definition get_server_rank :: "int \<Rightarrow> runner_rank \<Rightarrow> runner_rank res" where
  "get_server_rank r s =
     (case map_of (server_ranks s) r of
        Some _ \<Rightarrow> Inr s
      | None \<Rightarrow>
          if \<not> index_ok r (port_names (rn_server s)) then Inl Undefined_behaviour
          else Inr (s\<lparr>server_ranks := om_emplace r
                 (fix_port_name (node_name s) (port_names (rn_server s) ! nat r)) (server_ranks s)\<rparr>))"

text \<open>The header carries the name in a buffer of MPI\_MAX\_PROCESSOR\_NAME characters.\<close>

definition connection_send ::
  "int \<Rightarrow> byte list \<Rightarrow> byte list \<Rightarrow> int \<Rightarrow> int \<Rightarrow> string \<Rightarrow> runner_rank \<Rightarrow> runner_rank res" where
  "connection_send r values values_hidden sid step name s =
     and_then (getRunnerId s) (\<lambda>rid.
      if r \<in> set (awaiting s) then Inl Interrupted
      else
        let s = api_emit (Api_send r (Header [rid, rn_comm_rank s, sid, step]
                                       (take (max_processor_name s) name)) True) s;
            s = api_emit (Api_send r (Bytes values) (values_hidden \<noteq> [])) s;
            s = (if values_hidden \<noteq> [] then api_emit (Api_send r (Bytes values_hidden) False) s else s)
        in Inr (s\<lparr>awaiting := r # awaiting s\<rparr>))"

definition recv_from :: "int \<Rightarrow> runner_rank \<Rightarrow> (frame \<times> bool \<times> runner_rank) res" where
  "recv_from r s =
     (if r \<notin> set (awaiting s) then Inl Interrupted
      else case rn_inbox s r of
        [] \<Rightarrow> Inl Blocked
      | (f, snd_more) # fs \<Rightarrow>
          Inr (f, snd_more, s\<lparr>rn_inbox := (rn_inbox s)(r := fs),
                   awaiting := (if snd_more then awaiting s else remove1 r (awaiting s))\<rparr>))"

definition state_header :: "frame \<Rightarrow> (int \<times> int \<times> int \<times> int) res" where
  "state_header f =
     (case f of Ints [sid, step, type, n] \<Rightarrow> Inr (sid, step, type, n) | _ \<Rightarrow> Inl Assertion_failed)"

text \<open>memcpy of bytes read from or written to a buffer of the caller.\<close>

definition read_buf :: "nat \<Rightarrow> nat \<Rightarrow> byte list \<Rightarrow> byte list res" where
  "read_buf off n buf = (if length buf < off + n then Inl Undefined_behaviour else Inr (subvec off n buf))"

definition write_buf :: "nat \<Rightarrow> byte list \<Rightarrow> byte list \<Rightarrow> byte list res" where
  "write_buf off v buf =
     (if length buf < off + length v then Inl Undefined_behaviour else Inr (copy_into off v buf))"

definition recv_data :: "int \<Rightarrow> nat \<Rightarrow> nat \<Rightarrow> byte list \<Rightarrow> bool \<Rightarrow> runner_rank \<Rightarrow>
    (byte list \<times> bool \<times> runner_rank) res" where
  "recv_data r n off buf snd_more s =
     assert_then snd_more
      (and_then (recv_from r s) (\<lambda>(msg, snd_more, s).
       and_then (frame_bytes msg) (\<lambda>v.
       assert_then (length v = n)
        (and_then (write_buf off v buf) (\<lambda>buf. Inr (buf, snd_more, s))))))"

text \<open>
  The receive of a server rank connection: the number of steps, the two buffers of the caller.
\<close>

definition connection_receive ::
  "connected_server_rank \<Rightarrow> byte list \<Rightarrow> byte list \<Rightarrow> runner_rank \<Rightarrow>
     (int \<times> byte list \<times> byte list \<times> runner_rank) res" where
  "connection_receive c values hidden s =
     (let r = csr_server_rank c in
      and_then (recv_from r s) (\<lambda>(msg, snd_more, s).
      and_then (state_header msg) (\<lambda>(sid, step, type, nsteps).
      let s = s\<lparr>api_field := (api_field s)\<lparr>current_state_id := sid, af_current_step := step\<rparr>\<rparr> in
      if type = CHANGE_STATE then
        and_then (recv_data r (csr_send_count c) (local_vector_offset c) values snd_more s) (\<lambda>(values, snd_more, s).
        and_then (if send_count_hidden c > 0
                  then recv_data r (send_count_hidden c) (local_vector_offset_hidden c) hidden snd_more s
                  else Inr (hidden, snd_more, s)) (\<lambda>(hidden, snd_more, s).
        assert_then (\<not> snd_more) (Inr (nsteps, values, hidden, s))))
      else if type = END_RUNNER then Inr (0, values, hidden, s)
      else if type = KILL_RUNNER then Inl Aborted
      else Inl Assertion_failed)))"

section \<open>Field\<close>

definition connected_rank :: "part \<Rightarrow> part list \<Rightarrow> connected_server_rank" where
  "connected_rank p hs =
     \<lparr>csr_send_count = send_count p, local_vector_offset = local_offset_runner p,
      send_count_hidden = (case hs of [] \<Rightarrow> 0 | h # _ \<Rightarrow> send_count h),
      local_vector_offset_hidden = (case hs of [] \<Rightarrow> 0 | h # _ \<Rightarrow> local_offset_runner h),
      csr_server_rank = rank_server p\<rparr>"

definition add_connection :: "part \<Rightarrow> part list \<Rightarrow> runner_rank \<Rightarrow> runner_rank res" where
  "add_connection p hs s =
     (if rank_runner p = rn_comm_rank s then
        assert_then (hs = [] \<or> rank_runner (hd hs) = rn_comm_rank s)
         (and_then (get_server_rank (rank_server p) s) (\<lambda>s.
          Inr (s\<lparr>api_field := (api_field s)\<lparr>connected_server_ranks :=
                   connected_server_ranks (api_field s) @ [connected_rank p hs]\<rparr>\<rparr>)))
      else Inr s)"

fun init_connections_loop :: "part list \<Rightarrow> part list \<Rightarrow> runner_rank \<Rightarrow> runner_rank res" where
  "init_connections_loop [] hs s = Inr s"
| "init_connections_loop (p # ps) hs s =
     and_then (add_connection p hs s) (init_connections_loop ps (tl hs))"

definition initConnections ::
  "nat list \<Rightarrow> nat list \<Rightarrow> int \<Rightarrow> int \<Rightarrow> runner_rank \<Rightarrow> runner_rank res" where
  "initConnections local_vect_sizes local_hidden_vect_sizes bpe bpe_hidden s =
     and_then (calculate_n_to_m (si_comm_size (rn_server s)) local_vect_sizes bpe) (\<lambda>ps.
     and_then (calculate_n_to_m (si_comm_size (rn_server s)) local_hidden_vect_sizes bpe_hidden) (\<lambda>hs.
     assert_then (length hs = 0 \<or> length hs = length ps) (init_connections_loop ps hs s)))"

fun put_parts ::
  "connected_server_rank list \<Rightarrow> byte list \<Rightarrow> byte list \<Rightarrow> string \<Rightarrow> runner_rank \<Rightarrow> runner_rank res" where
  "put_parts [] values hidden name s = Inr s"
| "put_parts (c # cs) values hidden name s =
     and_then (read_buf (local_vector_offset c) (csr_send_count c) values) (\<lambda>v.
     and_then (read_buf (local_vector_offset_hidden c) (send_count_hidden c) hidden) (\<lambda>h.
     and_then (connection_send (csr_server_rank c) v h (current_state_id (api_field s))
                (af_current_step (api_field s)) name s) (\<lambda>s.
     put_parts cs values hidden name s)))"

definition putState :: "byte list \<Rightarrow> byte list \<Rightarrow> string \<Rightarrow> runner_rank \<Rightarrow> runner_rank res" where
  "putState values hidden name s =
     and_then (put_parts (connected_server_ranks (api_field s)) values hidden name s) (\<lambda>s.
     Inr (s\<lparr>api_field := (api_field s)\<lparr>current_state_id := -1\<rparr>\<rparr>))"

fun get_parts ::
  "connected_server_rank list \<Rightarrow> int \<Rightarrow> byte list \<Rightarrow> byte list \<Rightarrow> runner_rank \<Rightarrow>
     (int \<times> byte list \<times> byte list \<times> runner_rank) res" where
  "get_parts [] n values hidden s = Inr (n, values, hidden, s)"
| "get_parts (c # cs) n values hidden s =
     (if rn_phase s = PHASE_FINAL then Inr (0, values, hidden, s)
      else
        and_then (connection_receive c values hidden s) (\<lambda>(new_n, values, hidden, s).
        assert_then (n = -1 \<or> n = new_n) (get_parts cs new_n values hidden s)))"

definition getState ::
  "byte list \<Rightarrow> byte list \<Rightarrow> runner_rank \<Rightarrow> (int \<times> byte list \<times> byte list \<times> runner_rank) res" where
  "getState values hidden s = get_parts (connected_server_ranks (api_field s)) (-1) values hidden s"

section \<open>The configuration connection\<close>

definition REGISTER_RUNNER_ID :: int where "REGISTER_RUNNER_ID = 0"
definition REGISTER_FIELD :: int where "REGISTER_FIELD = 1"

definition ccon_recv :: "runner_rank \<Rightarrow> (frame \<times> bool \<times> runner_rank) res" where
  "ccon_recv s = (case ccon_inbox s of
     [] \<Rightarrow> Inl Blocked
   | (f, snd_more) # fs \<Rightarrow> Inr (f, snd_more, s\<lparr>ccon_inbox := fs\<rparr>))"

definition registration_reply :: "frame \<Rightarrow> (int \<times> int) res" where
  "registration_reply f = (case f of Ints [a, b] \<Rightarrow> Inr (a, b) | _ \<Rightarrow> Inl Assertion_failed)"

definition port_name_list :: "frame \<Rightarrow> string list res" where
  "port_name_list f = (case f of Names ns \<Rightarrow> Inr ns | _ \<Rightarrow> Inl Assertion_failed)"

text \<open>The result tells whether the server asks this runner to register the field.\<close>

definition client_register_runner_id :: "runner_rank \<Rightarrow> (bool \<times> runner_rank) res" where
  "client_register_runner_id s =
     (case env_runner_id s of
        None \<Rightarrow> Inl Assertion_failed
      | Some rid \<Rightarrow>
          let s = (if rn_runner_id s = -1 then s\<lparr>rn_runner_id := rid\<rparr> else s);
              s = api_emit (Ccon_send (Ints [REGISTER_RUNNER_ID, rn_runner_id s]) False) s
          in and_then (ccon_recv s) (\<lambda>(msg, snd_more, s).
             and_then (registration_reply msg) (\<lambda>(request, server_comm_size).
             assert_then snd_more
              (and_then (ccon_recv s) (\<lambda>(msg, _, s).
               and_then (port_name_list msg) (\<lambda>names.
               assert_then (int (length names) = server_comm_size)
                (Inr (request \<noteq> 0,
                   s\<lparr>rn_server := \<lparr>si_comm_size = server_comm_size, port_names = names\<rparr>\<rparr>))))))))"

definition register_field_frames ::
  "string \<Rightarrow> nat \<Rightarrow> int \<Rightarrow> nat list \<Rightarrow> nat list \<Rightarrow> (int \<times> int) list \<Rightarrow> (int \<times> int) list \<Rightarrow> int \<Rightarrow> int \<Rightarrow>
     (frame \<times> bool) list" where
  "register_field_frames name max_name n sizes sizes_hidden gmap gmap_hidden bpe bpe_hidden =
     [(Header [REGISTER_FIELD, n, bpe, bpe_hidden] (take max_name name), True),
      (Sizes sizes, True), (Sizes sizes_hidden, True), (Index_map gmap, True),
      (Index_map gmap_hidden, False)]"

definition client_register_field ::
  "string \<Rightarrow> nat list \<Rightarrow> nat list \<Rightarrow> (int \<times> int) list \<Rightarrow> (int \<times> int) list \<Rightarrow> int \<Rightarrow> int \<Rightarrow>
     runner_rank \<Rightarrow> runner_rank res" where
  "client_register_field name sizes sizes_hidden gmap gmap_hidden bpe bpe_hidden s =
     (let s = fold (\<lambda>(f, b). api_emit (Ccon_send f b))
          (register_field_frames name (max_processor_name s) (rn_comm_size s) sizes sizes_hidden gmap
             gmap_hidden bpe bpe_hidden) s
      in and_then (ccon_recv s) (\<lambda>(msg, _, s). assert_then (msg = empty_frame) (Inr s)))"

section \<open>The API of the simulation\<close>

text \<open>
  The first part of melissa\_init. \<open>root\<close> is rank 0 after its own call: its runner id, server
  size and port names are broadcast. MPI\_Bcast of the names has the size of the root's.
\<close>

definition first_melissa_init :: "runner_rank \<Rightarrow> runner_rank \<Rightarrow> (bool \<times> runner_rank) res" where
  "first_melissa_init root s =
     (case env_runner_id s of
        None \<Rightarrow> Inl Undefined_behaviour
      | Some rid \<Rightarrow>
          let s = api_trigger ''START_ITERATION'' (last_step s) (s\<lparr>context_open := True\<rparr>);
              s = (if rn_runner_id s = -1 then s\<lparr>rn_runner_id := rid\<rparr> else s)
          in if rn_comm_rank s = 0 then client_register_runner_id (s\<lparr>rn_ccon := Connected\<rparr>)
             else Inr (False, s\<lparr>rn_runner_id := rn_runner_id root, rn_server := rn_server root\<rparr>))"

definition melissa_get_current_state_id :: "runner_rank \<Rightarrow> int" where
  "melissa_get_current_state_id s =
     (if rn_phase s = PHASE_SIMULATION then current_state_id (api_field s) else -2)"

definition melissa_get_current_step :: "runner_rank \<Rightarrow> int res" where
  "melissa_get_current_step s =
     assert_then (rn_phase s = PHASE_SIMULATION) (Inr (af_current_step (api_field s)))"

definition new_api_field :: "string \<Rightarrow> nat \<Rightarrow> nat \<Rightarrow> connected_server_rank list \<Rightarrow> api_field" where
  "new_api_field name lvs lvs_hidden csrs =
     \<lparr>af_name = name, current_state_id = -1, af_current_step = 0, af_local_vect_size = lvs,
      local_hidden_vect_size = lvs_hidden, connected_server_ranks = csrs\<rparr>"

text \<open>
  The index map that rank 0 sends for one state vector (pairs of index and variable id). Without
  a map of its own it numbers the elements; otherwise \<open>gatherv\<close> is the collective gather, given
  the maps of all ranks, the counts and displacements and the receive buffer.
\<close>

definition gather_displs :: "nat list \<Rightarrow> nat list" where
  "gather_displs counts = map (\<lambda>i. size64 (int (sum_list (take i counts)))) [0..<length counts]"

definition gather_global_index_map ::
  "((int \<times> int) list list \<Rightarrow> nat list \<Rightarrow> nat list \<Rightarrow> (int \<times> int) list \<Rightarrow> (int \<times> int) list res) \<Rightarrow>
     (int \<times> int) list list option \<Rightarrow> (int \<times> int) list \<Rightarrow> nat list \<Rightarrow> int \<Rightarrow> (int \<times> int) list res" where
  "gather_global_index_map gatherv local_maps gmap sizes bpe =
     (case local_maps of
        None \<Rightarrow> Inr (map (\<lambda>i. (int32 (int i), 0)) [0..<length gmap])
      | Some maps \<Rightarrow>
          if size64 bpe = 0 then Inl Undefined_behaviour
          else let counts = map (\<lambda>n. n div size64 bpe) sizes
               in gatherv (map (\<lambda>(m, n). take n m) (zip maps counts)) counts (gather_displs counts) gmap)"

definition global_elements :: "nat list \<Rightarrow> int \<Rightarrow> nat res" where
  "global_elements sizes bpe =
     (if size64 bpe = 0 then Inl Undefined_behaviour
      else assert_then (sum_vec sizes mod size64 bpe = 0) (Inr (sum_vec sizes div size64 bpe)))"

text \<open>Rank 0 collects both maps; the other ranks only send theirs.\<close>

definition rank0_index_maps where
  "rank0_index_maps gatherv maps maps_hidden sizes sizes_hidden bpe bpe_hidden =
     and_then (global_elements sizes bpe) (\<lambda>n.
     and_then (global_elements sizes_hidden bpe_hidden) (\<lambda>n_hidden.
     and_then (gather_global_index_map gatherv maps (replicate n (0, 0)) sizes bpe) (\<lambda>gmap.
     and_then (gather_global_index_map gatherv maps_hidden (replicate n_hidden (0, 0))
                sizes_hidden bpe_hidden) (\<lambda>gmap_hidden.
     Inr (gmap, gmap_hidden)))))"

text \<open>
  The rest of melissa\_init\_with\_index\_map, with the sizes and the index maps of all ranks;
  \<open>root\_bpe\<close> and \<open>root\_bpe\_hidden\<close> are what rank 0 broadcasts.
\<close>

definition melissa_init_with_index_map where
  "melissa_init_with_index_map gatherv name sizes sizes_hidden bpe bpe_hidden maps maps_hidden
     root root_bpe root_bpe_hidden s =
     and_then (first_melissa_init root s) (\<lambda>(registering, s).
     assert_then (root_bpe = bpe \<and> root_bpe_hidden = (bpe_hidden :: int))
      (let r = nat (rn_comm_rank s);
           s = s\<lparr>api_field := new_api_field name (sizes ! r) (sizes_hidden ! r)
                               (connected_server_ranks (api_field s))\<rparr>
       in and_then (if rn_comm_rank s = 0
                    then rank0_index_maps gatherv maps maps_hidden sizes sizes_hidden bpe bpe_hidden
                    else Inr ([], [])) (\<lambda>(gmap, gmap_hidden).
          and_then (if registering
                    then client_register_field name sizes sizes_hidden gmap gmap_hidden bpe bpe_hidden s
                    else Inr s) (\<lambda>s.
          and_then (initConnections sizes sizes_hidden bpe bpe_hidden s) (\<lambda>s.
          Inr (api_trigger ''START_PROPAGATE_STATE'' (current_state_id (api_field s)) s))))))"

definition melissa_finalize :: "runner_rank \<Rightarrow> runner_rank res" where
  "melissa_finalize s =
     (if rn_ccon s = Dangling then Inl Undefined_behaviour
      else
        let s = s\<lparr>rn_phase := PHASE_FINAL,
                 rn_ccon := (if rn_ccon s = Null then Null else Dangling)\<rparr>;
            s = fold (\<lambda>r. api_emit (Api_close r)) (map fst (server_ranks s)) s
        in Inr (s\<lparr>server_ranks := [], awaiting := [], context_open := False\<rparr>))"

definition start_simulation :: "runner_rank \<Rightarrow> runner_rank" where
  "start_simulation s =
     (if rn_phase s = PHASE_INIT then s\<lparr>rn_phase := PHASE_SIMULATION, rn_ccon := Null\<rparr> else s)"

definition start_propagation :: "int \<Rightarrow> runner_rank \<Rightarrow> runner_rank" where
  "start_propagation n s =
     (let step = af_current_step (api_field s);
          s = (if last_step s \<noteq> step then
                 api_trigger ''START_ITERATION'' step
                   ((api_trigger ''STOP_ITERATION'' (last_step s) s)\<lparr>last_step := step\<rparr>)
               else s)
      in api_trigger ''NSTEPS'' n
           (api_trigger ''START_PROPAGATE_STATE'' (current_state_id (api_field s)) s))"

text \<open>The runner id is the argument of a timing event: it is asked for only where one is recorded.\<close>

definition trigger_runner_id :: "runner_rank \<Rightarrow> int res" where
  "trigger_runner_id s =
     (if rn_report_timing s \<and> rn_comm_rank s = 0 then getRunnerId s else Inr (rn_runner_id s))"

definition melissa_expose ::
  "string \<Rightarrow> byte list \<Rightarrow> byte list \<Rightarrow> runner_rank \<Rightarrow>
     (int \<times> byte list \<times> byte list \<times> runner_rank) res" where
  "melissa_expose name values hidden s =
     (let s = api_trigger ''STOP_PROPAGATE_STATE'' (current_state_id (api_field s)) s in
      and_then (trigger_runner_id s) (\<lambda>rid.
      let s = api_trigger ''START_IDLE_RUNNER'' rid s in
      assert_then (rn_phase s \<noteq> PHASE_FINAL)
       (let s = start_simulation s in
        assert_then (af_name (api_field s) = name)
         (and_then (putState values hidden name s) (\<lambda>s.
          and_then (getState values hidden s) (\<lambda>(n, values, hidden, s).
          let s = api_trigger ''STOP_IDLE_RUNNER'' rid s in
          if n > 0 then Inr (n, values, hidden, start_propagation n s)
          else if n = 0 then and_then (melissa_finalize s) (\<lambda>s. Inr (n, values, hidden, s))
          else Inr (n, values, hidden, s)))))))"

definition melissa_is_runner :: "string option \<Rightarrow> int" where
  "melissa_is_runner master_node = (if master_node = None then 0 else 1)"

end
