(* ===== verification/Config.thy ===== *)
theory Config
  imports Collectives Api
begin

text \<open>
  The initialisation phase of the server (server/server.cxx): the configuration socket of rank
  0, where runners register and the first one registers the field, and the start of the
  simulation phase, when rank 0 broadcasts the field and every rank calculates its parts. A
  collective of the server ranks is a function of the list of their states, in rank order.
  \<open>max_name\<close> is MPI\_MAX\_PROCESSOR\_NAME, \<open>scatterv\<close> the scatter of index maps.
\<close>

section \<open>The start of a rank\<close>

text \<open>
  What main leaves before its loop, with its arguments parsed: the globals, and on rank 0 the
  connection to the launcher. \<open>a\<close> stands for the assimilator, which is not created yet.
\<close>

definition no_field :: field where
  "no_field = \<lparr>field_name = [], ensemble_members = [], local_vect_size = 0,
     local_vect_sizes_runner = [], parts = [], local_vect_size_hidden = 0,
     local_vect_sizes_runner_hidden = [], parts_hidden = [], connected_runner_ranks = [],
     local_index_map = [], local_index_map_hidden = [], bytes_per_element = 0,
     bytes_per_element_hidden = 0\<rparr>"

definition launcher_connection :: "'a server \<Rightarrow> 'a server" where
  "launcher_connection s =
     updateLauncherNextMessageDate (emit (Launcher_name (comm_rank s)) (updateLauncherDueDate s))"

definition globals :: "int \<Rightarrow> int \<Rightarrow> int \<Rightarrow> int \<Rightarrow> bool \<Rightarrow> int \<Rightarrow> 'a \<Rightarrow> 'a server" where
  "globals rank n_ranks ensemble_size timeout timing seconds a =
     \<lparr>comm_rank = rank, comm_size = n_ranks, ENSEMBLE_SIZE = ensemble_size,
      MAX_RUNNER_TIMEOUT = timeout, report_timing = timing, phase = PHASE_INIT, now = seconds,
      highest_received_task_id = 0, highest_sent_task_id = 0, task_id = 1,
      launcher_notified_about_runner = [], IDENTITY_SIZE = 0, assimilation_cycles = 0,
      current_step = 0, current_nsteps = 1, killed = [], idle_runners = [],
      unscheduled_tasks = [], failcount = replicate (nat ensemble_size) 0, finished_ranks = -1,
      scheduled_sub_tasks = [], running_sub_tasks = [], finished_sub_tasks = [],
      the_field = no_field, has_field = False, register_field_flag = True,
      global_index_map = [], global_index_map_hidden = [], the_assimilator = a,
      due_date_launcher = 0, next_message_date_to_launcher = 0, last_seconds_checks = 0,
      data_socket = [], new_task_inbox = [], kill_inbox = (\<lambda>_. []),
      rank_finished_inbox = (\<lambda>_. []), all_finished_inbox = 0, out = []\<rparr>"

definition boot :: "int \<Rightarrow> int \<Rightarrow> int \<Rightarrow> int \<Rightarrow> bool \<Rightarrow> int \<Rightarrow> 'a \<Rightarrow> 'a server res" where
  "boot rank n_ranks ensemble_size timeout timing seconds a =
     assert_then (ensemble_size > 0)
      (let s = globals rank n_ranks ensemble_size timeout timing seconds a
       in Inr (if rank = 0 then launcher_connection s else s))"

section \<open>Registration of runners and of the field\<close>

type_synonym wire = "(frame \<times> bool) list"

text \<open>The next frame of a message on the configuration socket and whether more follow.\<close>

definition config_recv :: "wire \<Rightarrow> 'a server \<Rightarrow> ('a, frame \<times> bool \<times> wire) sres" where
  "config_recv w s = (case w of [] \<Rightarrow> fail_with Blocked s | (f, snd_more) # w' \<Rightarrow> Inr (f, snd_more, w'))"

definition config_send :: "frame \<Rightarrow> bool \<Rightarrow> 'a server \<Rightarrow> 'a server" where
  "config_send f snd_more s = emits [Config_send f snd_more] s"

definition register_runner_id :: "frame \<Rightarrow> string list \<Rightarrow> 'a server \<Rightarrow> ('a, 'a server) sres" where
  "register_runner_id msg data_response_port_names s =
     (case msg of
        Ints [_, rid] \<Rightarrow>
          ensure (rid \<notin> task_runner_id ` set (killed s)) s
           (let s = s\<lparr>launcher_notified_about_runner := om_assign rid False (launcher_notified_about_runner s)\<rparr>;
                s = config_send (Ints [if register_field_flag s then 1 else 0, comm_size s]) True s;
                s = s\<lparr>register_field_flag := False\<rparr>
            in Inr (config_send (Names data_response_port_names) False s))
      | _ \<Rightarrow> fail_with Assertion_failed s)"

definition recv_sizes :: "nat \<Rightarrow> wire \<Rightarrow> bool \<Rightarrow> 'a server \<Rightarrow> ('a, nat list \<times> wire \<times> bool) sres" where
  "recv_sizes n w snd_more s =
     ensure snd_more s
      (and_then (config_recv w s) (\<lambda>(f, snd_more, w).
       case f of
         Sizes ns \<Rightarrow> ensure (length ns = n) s (Inr (ns, w, snd_more))
       | _ \<Rightarrow> fail_with Assertion_failed s))"

text \<open>An index map must have one entry for each element of the global vector.\<close>

definition recv_index_map :: "nat list \<Rightarrow> int \<Rightarrow> wire \<Rightarrow> bool \<Rightarrow> 'a server \<Rightarrow>
    ('a, (int \<times> int) list \<times> wire \<times> bool) sres" where
  "recv_index_map sizes bpe w snd_more s =
     (if size64 bpe = 0 then fail_with Undefined_behaviour s
      else
        ensure (sum_vec sizes mod size64 bpe = 0) s
         (ensure snd_more s
           (and_then (config_recv w s) (\<lambda>(f, snd_more, w).
            case f of
              Index_map m \<Rightarrow> ensure (length m = sum_vec sizes div size64 bpe) s (Inr (m, w, snd_more))
            | _ \<Rightarrow> fail_with Assertion_failed s))))"

definition register_field :: "frame \<Rightarrow> wire \<Rightarrow> bool \<Rightarrow> 'a server \<Rightarrow> ('a, 'a server) sres" where
  "register_field field_msg w snd_more s =
     ensure (phase s = PHASE_INIT) s
      (case field_msg of
         Header [_, n, bpe, bpe_hidden] name \<Rightarrow>
           ensure (\<not> has_field s) s
            (and_then (lift s (new_field name n (nat (ENSEMBLE_SIZE s)) bpe bpe_hidden)) (\<lambda>f.
             let s = s\<lparr>the_field := f, has_field := True\<rparr> in
             and_then (recv_sizes (nat n) w snd_more s) (\<lambda>(sizes, w, snd_more).
             let s = s\<lparr>the_field := (the_field s)\<lparr>local_vect_sizes_runner := sizes\<rparr>\<rparr> in
             and_then (recv_sizes (nat n) w snd_more s) (\<lambda>(sizes_hidden, w, snd_more).
             let s = s\<lparr>the_field := (the_field s)\<lparr>local_vect_sizes_runner_hidden := sizes_hidden\<rparr>\<rparr> in
             and_then (recv_index_map sizes bpe w snd_more s) (\<lambda>(m, w, snd_more).
             let s = s\<lparr>global_index_map := m\<rparr> in
             and_then (recv_index_map sizes_hidden bpe_hidden w snd_more s) (\<lambda>(m_hidden, w, snd_more).
             Inr (config_send empty_frame False (s\<lparr>global_index_map_hidden := m_hidden\<rparr>))))))))
       | _ \<Rightarrow> fail_with Assertion_failed s)"

text \<open>The type of a message is its first number; a frame without one is too short.\<close>

definition message_type :: "frame \<Rightarrow> int option" where
  "message_type f = (case f of Ints (t # _) \<Rightarrow> Some t | Header (t # _) _ \<Rightarrow> Some t | _ \<Rightarrow> None)"

definition answer_configuration_message :: "string list \<Rightarrow> wire \<Rightarrow> 'a server \<Rightarrow> ('a, 'a server) sres" where
  "answer_configuration_message data_response_port_names w s =
     and_then (config_recv w s) (\<lambda>(msg, snd_more, w).
     case message_type msg of
       None \<Rightarrow> fail_with (Exit 1) s
     | Some t \<Rightarrow>
         if t = REGISTER_RUNNER_ID then register_runner_id msg data_response_port_names s
         else if t = REGISTER_FIELD then register_field msg w snd_more s
         else fail_with Assertion_failed s)"

section \<open>The start of the simulation phase\<close>

definition scatter_displs :: "nat list \<Rightarrow> nat list" where
  "scatter_displs counts = map (\<lambda>i. size64 (int (sum_list (take i counts)))) [0..<length counts]"

text \<open>
  The maps the ranks receive; \<open>local_vect_sizes\<close> holds the size each rank passes.
\<close>

definition scatter_index_map ::
  "((int \<times> int) list \<Rightarrow> nat list \<Rightarrow> nat list \<Rightarrow> nat list \<Rightarrow> (int \<times> int) list list res) \<Rightarrow> int \<Rightarrow> nat \<Rightarrow>
     nat list \<Rightarrow> (int \<times> int) list \<Rightarrow> int \<Rightarrow> (int \<times> int) list list res" where
  "scatter_index_map scatterv comm_size_server global_vect_size local_vect_sizes gmap bpe =
     and_then (calculate_local_vect_sizes_server comm_size_server global_vect_size bpe) (\<lambda>scounts.
     assert_then (\<forall>n \<in> set scounts. n mod size64 bpe = 0)
      (let counts = map (\<lambda>n. n div size64 bpe) scounts
       in scatterv gmap counts (scatter_displs counts) (map (\<lambda>n. n div size64 bpe) local_vect_sizes)))"

text \<open>What a rank has after the broadcasts, before it calculates its parts.\<close>

definition broadcast_field :: "nat \<Rightarrow> field \<Rightarrow> 'a server \<Rightarrow> 'a server res" where
  "broadcast_field max_name root_field s =
     (if comm_rank s = 0 then
        (if max_name \<le> length (field_name root_field) then Inl Undefined_behaviour else Inr s)
      else
        and_then (new_field (field_name root_field) (int32 (int (length (local_vect_sizes_runner root_field))))
                   (nat (ENSEMBLE_SIZE s)) (bytes_per_element root_field)
                   (bytes_per_element_hidden root_field)) (\<lambda>f.
        Inr (s\<lparr>the_field := f\<lparr>local_vect_sizes_runner := local_vect_sizes_runner root_field,
                            local_vect_sizes_runner_hidden := local_vect_sizes_runner_hidden root_field\<rparr>,
              has_field := True\<rparr>)))"

definition rank_parts :: "nat \<Rightarrow> field \<Rightarrow> 'a server \<Rightarrow> 'a server res" where
  "rank_parts max_name root_field s =
     and_then (broadcast_field max_name root_field s) (\<lambda>s.
     and_then (calculate_parts (comm_rank s) (comm_size s) (the_field s)) (\<lambda>f.
     Inr (s\<lparr>the_field := f\<rparr>)))"

fun map_res :: "('b \<Rightarrow> 'c res) \<Rightarrow> 'b list \<Rightarrow> 'c list res" where
  "map_res f [] = Inr []"
| "map_res f (x # xs) = and_then (f x) (\<lambda>y. and_then (map_res f xs) (\<lambda>ys. Inr (y # ys)))"

definition set_index_maps :: "'a server \<Rightarrow> (int \<times> int) list \<times> (int \<times> int) list \<Rightarrow> 'a server" where
  "set_index_maps s mm = s\<lparr>the_field := (the_field s)\<lparr>local_index_map := fst mm, local_index_map_hidden := snd mm\<rparr>\<rparr>"

definition broadcast_field_information_and_calculate_parts ::
  "((int \<times> int) list \<Rightarrow> nat list \<Rightarrow> nat list \<Rightarrow> nat list \<Rightarrow> (int \<times> int) list list res) \<Rightarrow> nat \<Rightarrow>
     'a server list \<Rightarrow> 'a server list res" where
  "broadcast_field_information_and_calculate_parts scatterv max_name ranks =
     (let root = hd ranks; f = the_field root in
      and_then (map_res (rank_parts max_name f) ranks) (\<lambda>ranks.
      and_then (scatter_index_map scatterv (comm_size root) (globalVectSize f)
                 (map (\<lambda>s. local_vect_size (the_field s)) ranks) (global_index_map root)
                 (bytes_per_element f)) (\<lambda>maps.
      and_then (scatter_index_map scatterv (comm_size root) (globalVectSizeHidden f)
                 (map (\<lambda>s. local_vect_size_hidden (the_field s)) ranks) (global_index_map_hidden root)
                 (bytes_per_element_hidden f)) (\<lambda>maps_hidden.
      Inr (map2 set_index_maps ranks (zip maps maps_hidden))))))"

text \<open>\<open>create\<close> is the constructor of the chosen assimilator on a rank, which fills the analysis states.\<close>

definition start_rank :: "(int \<Rightarrow> field \<Rightarrow> ('a \<times> field) res) \<Rightarrow> 'a assimilator_ops \<Rightarrow> 'a server \<Rightarrow> ('a, 'a server) sres" where
  "start_rank create ops s =
     and_then (lift s (create (comm_rank s) (the_field s))) (\<lambda>(a, f).
      let s = s\<lparr>the_assimilator := a, the_field := f, current_nsteps := getNSteps ops a\<rparr>
      in and_then (init_new_timestep s) (\<lambda>s. Inr ((reset_due_dates s)\<lparr>phase := PHASE_SIMULATION\<rparr>)))"

text \<open>
  Rank 0 handles the other events of an iteration first: a configuration message, a message of
  the launcher or its silence, and the ping. Without launcher and without any task MERR ends the
  server.
\<close>

definition rank0_events :: "string list \<Rightarrow> wire \<Rightarrow> bool \<Rightarrow> 'a server \<Rightarrow> ('a, 'a server) sres" where
  "rank0_events data_response_port_names config_msg launcher_text s =
     (if comm_rank s \<noteq> 0 then Inr s
      else
        and_then (if config_msg = [] then Inr s
                  else answer_configuration_message data_response_port_names config_msg s) (\<lambda>s.
        if launcher_text then Inr (ping (receiveText s))
        else if \<not> checkLauncherDueDate s \<and> scheduled_sub_tasks s = [] \<and> running_sub_tasks s = []
        then fail_with Interrupted s
        else Inr (ping s)))"

end
