(* ===== verification/ApiInv.thy ===== *)
theory ApiInv
  imports Api
begin

text \<open>
  What the connections of a runner rank are: its parts of the redistribution, in order. The
  bytes of the parts make up the state vector of the rank, and what all ranks hold together is
  the same vector on both sides of the redistribution.
\<close>

section \<open>The bytes behind a covering\<close>

definition byte_at :: "'b list list \<Rightarrow> nat \<times> nat \<Rightarrow> 'b" where
  "byte_at xs rk = xs ! fst rk ! snd rk"

lemma concat_layout: "map (byte_at xs) (layout (map length xs)) = concat xs"
proof (induction xs rule: rev_induct)
  case Nil
  show ?case by (simp add: layout_def)
next
  case (snoc x xs)
  have "map (byte_at (xs @ [x])) (layout (map length xs)) = map (byte_at xs) (layout (map length xs))"
    by (rule map_cong) (auto simp: set_layout byte_at_def nth_append)
  moreover have "map (\<lambda>k. byte_at (xs @ [x]) (length xs, k)) [0..<length x] = x"
    by (simp add: byte_at_def map_nth)
  ultimately show ?case using snoc by (simp add: layout_snoc comp_def)
qed

lemma runner_bytes_at:
  "nat (rank_runner p) < length xs \<Longrightarrow> local_offset_runner p + send_count p \<le> length (xs ! nat (rank_runner p)) \<Longrightarrow>
     map (byte_at xs) (runner_bytes p) =
       subvec (local_offset_runner p) (send_count p) (xs ! nat (rank_runner p))"
  by (intro nth_equalityI) (auto simp: runner_bytes_def byte_at_def layout_simps)

lemma server_bytes_at:
  "nat (rank_server p) < length xs \<Longrightarrow> local_offset_server p + send_count p \<le> length (xs ! nat (rank_server p)) \<Longrightarrow>
     map (byte_at xs) (server_bytes p) =
       subvec (local_offset_server p) (send_count p) (xs ! nat (rank_server p))"
  by (intro nth_equalityI) (auto simp: server_bytes_def byte_at_def layout_simps)

lemma covering_runner_concat:
  assumes cov: "covering (map length xs) ss ps"
  shows "concat (map (\<lambda>p. subvec (local_offset_runner p) (send_count p) (xs ! nat (rank_runner p))) ps) = concat xs"
proof -
  have "map (\<lambda>p. subvec (local_offset_runner p) (send_count p) (xs ! nat (rank_runner p))) ps =
      map (\<lambda>p. map (byte_at xs) (runner_bytes p)) ps"
    using covering_runner_bounds [OF cov]
    by (intro map_cong refl runner_bytes_at [symmetric]) (auto, metis nth_map)
  then have "concat (map (\<lambda>p. subvec (local_offset_runner p) (send_count p) (xs ! nat (rank_runner p))) ps) =
      map (byte_at xs) (concat (map runner_bytes ps))"
    by (simp only: map_concat map_map comp_def)
  also have "\<dots> = concat xs"
    using cov by (simp add: covering_def concat_layout)
  finally show ?thesis .
qed

lemma covering_server_concat:
  assumes cov: "covering rs (map length vs) ps"
  shows "concat (map (\<lambda>p. subvec (local_offset_server p) (send_count p) (vs ! nat (rank_server p))) ps) = concat vs"
proof -
  have "map (\<lambda>p. subvec (local_offset_server p) (send_count p) (vs ! nat (rank_server p))) ps =
      map (\<lambda>p. map (byte_at vs) (server_bytes p)) ps"
    using covering_server_bounds [OF cov]
    by (intro map_cong refl server_bytes_at [symmetric]) (auto, metis nth_map)
  then have "concat (map (\<lambda>p. subvec (local_offset_server p) (send_count p) (vs ! nat (rank_server p))) ps) =
      map (byte_at vs) (concat (map server_bytes ps))"
    by (simp only: map_concat map_map comp_def)
  also have "\<dots> = concat vs"
    using cov by (simp add: covering_def concat_layout)
  finally show ?thesis .
qed

text \<open>The two sides agree as soon as they agree part by part.\<close>

lemma covering_same_vector:
  assumes "covering (map length xs) (map length vs) ps"
    and "\<And>p. p \<in> set ps \<Longrightarrow>
      subvec (local_offset_server p) (send_count p) (vs ! nat (rank_server p)) =
      subvec (local_offset_runner p) (send_count p) (xs ! nat (rank_runner p))"
  shows "concat vs = concat xs"
proof -
  have "concat vs = concat (map (\<lambda>p. subvec (local_offset_server p) (send_count p) (vs ! nat (rank_server p))) ps)"
    by (rule covering_server_concat [OF assms(1), symmetric])
  also have "\<dots> = concat (map (\<lambda>p. subvec (local_offset_runner p) (send_count p) (xs ! nat (rank_runner p))) ps)"
    using assms(2) by (metis (no_types, lifting) map_cong)
  also have "\<dots> = concat xs"
    by (rule covering_runner_concat [OF assms(1)])
  finally show ?thesis .
qed

text \<open>The parts of one runner rank make up its vector.\<close>

lemma layout_of_rank: "r < length xs \<Longrightarrow> filter (\<lambda>b. fst b = r) (layout xs) = map (Pair r) [0..<xs ! r]"
proof (induction xs rule: rev_induct)
  case (snoc x xs)
  have none: "filter (\<lambda>b. fst b = length xs) (layout xs) = []"
    by (auto simp: filter_empty_conv set_layout)
  show ?case
  proof (cases "r = length xs")
    case True
    then show ?thesis by (simp add: layout_snoc none filter_map comp_def)
  next
    case False
    with snoc.prems have "r < length xs" by simp
    with snoc.IH False show ?thesis by (simp add: layout_snoc filter_map comp_def nth_append)
  qed
qed simp

lemma filter_runner_bytes:
  "ranks_nonneg ps \<Longrightarrow> filter (\<lambda>b. fst b = r) (concat (map runner_bytes ps)) =
     concat (map runner_bytes (filter (\<lambda>p. rank_runner p = int r) ps))"
proof (induction ps)
  case (Cons p ps)
  have "filter (\<lambda>b. fst b = r) (runner_bytes p) = (if rank_runner p = int r then runner_bytes p else [])"
    using Cons.prems
    by (cases "nat (rank_runner p) = r") (auto simp: runner_bytes_def filter_map comp_def ranks_nonneg_def)
  with Cons show ?case by (simp add: ranks_nonneg_def)
qed simp

lemma covering_rank_vector:
  assumes cov: "covering rs ss ps" and r: "r < length rs" and v: "length v = rs ! r"
  shows "concat (map (\<lambda>p. subvec (local_offset_runner p) (send_count p) v)
           (filter (\<lambda>p. rank_runner p = int r) ps)) = v"
proof -
  let ?ps = "filter (\<lambda>p. rank_runner p = int r) ps"
  have "map (\<lambda>p. subvec (local_offset_runner p) (send_count p) v) ?ps =
      map (\<lambda>p. map (\<lambda>b. v ! snd b) (runner_bytes p)) ?ps"
  proof (rule map_cong [OF refl])
    fix p assume "p \<in> set ?ps"
    with covering_runner_bounds [OF cov, of p] v
    show "subvec (local_offset_runner p) (send_count p) v = map (\<lambda>b. v ! snd b) (runner_bytes p)"
      by (intro nth_equalityI) (auto simp: runner_bytes_def layout_simps)
  qed
  then have "concat (map (\<lambda>p. subvec (local_offset_runner p) (send_count p) v) ?ps) =
      map (\<lambda>b. v ! snd b) (concat (map runner_bytes ?ps))"
    by (simp only: map_concat map_map comp_def)
  also have "concat (map runner_bytes ?ps) = filter (\<lambda>b. fst b = r) (layout rs)"
    using filter_runner_bytes [of ps r] cov by (auto simp: covering_def ranks_nonneg_def)
  also have "map (\<lambda>b. v ! snd b) \<dots> = v"
    using r v map_nth [of v] by (simp add: layout_of_rank comp_def)
  finally show ?thesis .
qed

section \<open>Connections\<close>

text \<open>A part and the part of the hidden state that goes with it, if there is a hidden state.\<close>

definition with_hidden :: "part list \<Rightarrow> part list \<Rightarrow> (part \<times> part list) list" where
  "with_hidden ps hs = (if hs = [] then map (\<lambda>p. (p, [])) ps else map (\<lambda>(p, h). (p, [h])) (zip ps hs))"

definition my_connections :: "int \<Rightarrow> part list \<Rightarrow> part list \<Rightarrow> connected_server_rank list" where
  "my_connections r ps hs =
     map (\<lambda>(p, h). connected_rank p h) (filter (\<lambda>(p, h). rank_runner p = r) (with_hidden ps hs))"

lemma with_hidden_Nil [simp]: "with_hidden [] hs = []"
  by (simp add: with_hidden_def)

lemma with_hidden_Cons:
  "length hs = 0 \<or> length hs = length (p # ps) \<Longrightarrow>
     with_hidden (p # ps) hs = (p, take 1 hs) # with_hidden ps (tl hs)"
  by (cases hs) (auto simp: with_hidden_def)

lemma connected_rank_take: "connected_rank p (take (Suc 0) hs) = connected_rank p hs"
  by (cases hs) (simp_all add: connected_rank_def)

lemma map_fst_with_hidden:
  "length hs = 0 \<or> length hs = length ps \<Longrightarrow> map fst (with_hidden ps hs) = ps"
  by (auto simp: with_hidden_def comp_def split_def)

definition with_connections ::
  "connected_server_rank list \<Rightarrow> (int, string) om \<Rightarrow> runner_rank \<Rightarrow> runner_rank" where
  "with_connections cs m s = s\<lparr>server_ranks := m, api_field := (api_field s)\<lparr>connected_server_ranks :=
      connected_server_ranks (api_field s) @ cs\<rparr>\<rparr>"

text \<open>Connecting changes the connections and the field's list of them, nothing else.\<close>

definition connections_opened :: "connected_server_rank list \<Rightarrow> runner_rank \<Rightarrow> runner_rank \<Rightarrow> bool" where
  "connections_opened cs s s' \<longleftrightarrow> (\<exists>m. s' = with_connections cs m s \<and>
     fst ` set m = fst ` set (server_ranks s) \<union> csr_server_rank ` set cs)"

lemma with_connections_simps [simp]:
  "with_connections cs' m' (with_connections cs m s) = with_connections (cs @ cs') m' s"
  "server_ranks (with_connections cs m s) = m"
  "rn_comm_rank (with_connections cs m s) = rn_comm_rank s"
  "rn_server (with_connections cs m s) = rn_server s"
  by (simp_all add: with_connections_def)

lemma with_connections_Nil [simp]: "with_connections [] (server_ranks s) s = s"
  by (simp add: with_connections_def)

lemma connections_opened_Nil: "connections_opened [] s s"
  unfolding connections_opened_def by (intro exI [of _ "server_ranks s"]) simp

lemma get_server_rank_ok:
  assumes "index_ok r (port_names (rn_server s))"
  shows "\<exists>m. get_server_rank r s = Inr (s\<lparr>server_ranks := m\<rparr>) \<and> fst ` set m = insert r (fst ` set (server_ranks s))"
proof (cases "map_of (server_ranks s) r")
  case None
  with assms have "get_server_rank r s = Inr (s\<lparr>server_ranks := om_emplace r
      (fix_port_name (node_name s) (port_names (rn_server s) ! nat r)) (server_ranks s)\<rparr>)"
    by (simp add: get_server_rank_def)
  then show ?thesis by (intro exI conjI, assumption, simp)
next
  case (Some a)
  then have "r \<in> fst ` set (server_ranks s)" by (auto dest!: map_of_SomeD intro: rev_image_eqI)
  with Some show ?thesis
    by (intro exI [of _ "server_ranks s"]) (simp add: get_server_rank_def insert_absorb)
qed

lemma add_connection_ok:
  assumes "rank_runner p = rn_comm_rank s \<longrightarrow> index_ok (rank_server p) (port_names (rn_server s))"
    and "hs = [] \<or> rank_runner (hd hs) = rank_runner p"
  shows "\<exists>s'. add_connection p hs s = Inr s' \<and>
     connections_opened (if rank_runner p = rn_comm_rank s then [connected_rank p hs] else []) s s'"
proof (cases "rank_runner p = rn_comm_rank s")
  case True
  with assms obtain m where m: "get_server_rank (rank_server p) s = Inr (s\<lparr>server_ranks := m\<rparr>)"
      "fst ` set m = insert (rank_server p) (fst ` set (server_ranks s))"
    using get_server_rank_ok by blast
  then have "connections_opened [connected_rank p hs] s (with_connections [connected_rank p hs] m s)"
    unfolding connections_opened_def by (intro exI [of _ m]) (simp add: connected_rank_def)
  moreover have "add_connection p hs s = Inr (with_connections [connected_rank p hs] m s)"
    using True assms(2) m by (auto simp: add_connection_def with_connections_def)
  ultimately show ?thesis using True by simp
next
  case False
  then show ?thesis by (simp add: add_connection_def connections_opened_Nil)
qed

lemma connections_opened_trans:
  "connections_opened cs s s' \<Longrightarrow> connections_opened cs' s' s'' \<Longrightarrow> connections_opened (cs @ cs') s s''"
  unfolding connections_opened_def by (elim exE conjE, hypsubst, intro exI conjI refl) (auto simp: image_Un)

lemma connections_opened_fields:
  "connections_opened cs s s' \<Longrightarrow> rn_comm_rank s' = rn_comm_rank s \<and> rn_server s' = rn_server s"
  by (auto simp: connections_opened_def)

definition ports_known :: "part list \<Rightarrow> runner_rank \<Rightarrow> bool" where
  "ports_known ps s \<longleftrightarrow> (\<forall>p \<in> set ps. rank_runner p = rn_comm_rank s \<longrightarrow>
     index_ok (rank_server p) (port_names (rn_server s)))"

lemma init_connections_loop_ok:
  "ports_known ps s \<Longrightarrow> same_parts ps hs \<Longrightarrow>
     \<exists>s'. init_connections_loop ps hs s = Inr s' \<and>
       connections_opened (my_connections (rn_comm_rank s) ps hs) s s'"
proof (induction ps arbitrary: hs s)
  case Nil
  then show ?case
    by (simp add: my_connections_def connections_opened_Nil)
next
  case (Cons p ps)
  have len: "length hs = 0 \<or> length hs = length (p # ps)"
    using Cons.prems(2) by (auto simp: same_parts_def dest: map_eq_imp_length_eq)
  have par: "same_parts ps (tl hs)" and hd: "hs = [] \<or> rank_runner (hd hs) = rank_runner p"
    using Cons.prems(2) by (cases hs; simp add: same_parts_def)+
  let ?new = "if rank_runner p = rn_comm_rank s then [connected_rank p hs] else []"
  obtain s1 where s1: "add_connection p hs s = Inr s1" "connections_opened ?new s s1"
    using add_connection_ok [OF _ hd, of s] Cons.prems(1) by (auto simp: ports_known_def)
  then have f: "rn_comm_rank s1 = rn_comm_rank s" "rn_server s1 = rn_server s"
    by (auto dest: connections_opened_fields)
  with Cons.prems(1) have "ports_known ps s1" by (simp add: ports_known_def)
  with Cons.IH par f obtain s2 where "init_connections_loop ps (tl hs) s1 = Inr s2"
      "connections_opened (my_connections (rn_comm_rank s) ps (tl hs)) s1 s2" by metis
  moreover have "my_connections (rn_comm_rank s) (p # ps) hs = ?new @ my_connections (rn_comm_rank s) ps (tl hs)"
    by (simp add: my_connections_def with_hidden_Cons [OF len] connected_rank_take)
  ultimately show ?case using s1 connections_opened_trans by auto
qed

section \<open>Sending\<close>

text \<open>The frames of one request, and what an action list sends to one server rank.\<close>

definition request_frames :: "int list \<Rightarrow> string \<Rightarrow> byte list \<Rightarrow> byte list \<Rightarrow> (frame \<times> bool) list" where
  "request_frames header name v h =
     [(Header header name, True), (Bytes v, h \<noteq> [])] @ (if h \<noteq> [] then [(Bytes h, False)] else [])"

definition sent_to :: "int \<Rightarrow> api_action list \<Rightarrow> (frame \<times> bool) list" where
  "sent_to q as = concat (map (\<lambda>a. case a of Api_send r f b \<Rightarrow> (if r = q then [(f, b)] else []) | _ \<Rightarrow> []) as)"

definition request_of ::
  "byte list \<Rightarrow> byte list \<Rightarrow> string \<Rightarrow> runner_rank \<Rightarrow> connected_server_rank \<Rightarrow> (frame \<times> bool) list" where
  "request_of values hidden name s c = request_frames
     [rn_runner_id s, rn_comm_rank s, current_state_id (api_field s), af_current_step (api_field s)]
     (take (max_processor_name s) name) (subvec (local_vector_offset c) (csr_send_count c) values)
     (subvec (local_vector_offset_hidden c) (send_count_hidden c) hidden)"

definition requests :: "connected_server_rank list \<Rightarrow> byte list \<Rightarrow> byte list \<Rightarrow> string \<Rightarrow> runner_rank \<Rightarrow>
    api_action list" where
  "requests cs values hidden name s =
     concat (map (\<lambda>c. map (\<lambda>(f, b). Api_send (csr_server_rank c) f b) (request_of values hidden name s c)) cs)"

definition fits :: "byte list \<Rightarrow> byte list \<Rightarrow> connected_server_rank \<Rightarrow> bool" where
  "fits values hidden c \<longleftrightarrow> local_vector_offset c + csr_send_count c \<le> length values \<and>
     local_vector_offset_hidden c + send_count_hidden c \<le> length hidden"

definition can_request :: "connected_server_rank list \<Rightarrow> runner_rank \<Rightarrow> bool" where
  "can_request cs s \<longleftrightarrow> rn_runner_id s \<noteq> -1 \<and> distinct (map csr_server_rank cs) \<and>
     csr_server_rank ` set cs \<inter> set (awaiting s) = {}"

definition requested :: "connected_server_rank list \<Rightarrow> api_action list \<Rightarrow> runner_rank \<Rightarrow> runner_rank" where
  "requested cs as s = s\<lparr>rn_out := rn_out s @ as, awaiting := rev (map csr_server_rank cs) @ awaiting s\<rparr>"

lemma connection_send_ok:
  assumes "rn_runner_id s \<noteq> -1" "q \<notin> set (awaiting s)"
  shows "connection_send q v h sid step name s = Inr (s\<lparr>rn_out := rn_out s @
      map (\<lambda>(f, b). Api_send q f b) (request_frames [rn_runner_id s, rn_comm_rank s, sid, step]
        (take (max_processor_name s) name) v h), awaiting := q # awaiting s\<rparr>)"
  using assms by (simp add: connection_send_def getRunnerId_def api_emit_def request_frames_def Let_def)

lemma request_of_requested [simp]:
  "request_of values hidden name (requested cs as s) = request_of values hidden name s"
  "api_field (requested cs as s) = api_field s"
  by (rule ext) (simp_all add: request_of_def requested_def)

lemma put_parts_ok:
  "\<forall>c \<in> set cs. fits values hidden c \<Longrightarrow> can_request cs s \<Longrightarrow>
     put_parts cs values hidden name s = Inr (requested cs (requests cs values hidden name s) s)"
proof (induction cs arbitrary: s)
  case Nil
  show ?case by (simp add: requested_def requests_def)
next
  case (Cons c cs)
  let ?s = "requested [c] (requests [c] values hidden name s) s"
  have "and_then (read_buf (local_vector_offset c) (csr_send_count c) values) (\<lambda>v.
      and_then (read_buf (local_vector_offset_hidden c) (send_count_hidden c) hidden) (\<lambda>h.
      connection_send (csr_server_rank c) v h (current_state_id (api_field s))
        (af_current_step (api_field s)) name s)) = Inr ?s"
    using Cons.prems
    by (simp add: fits_def read_buf_def can_request_def connection_send_ok requested_def requests_def request_of_def)
  moreover have "can_request cs ?s" using Cons.prems(2) by (auto simp: can_request_def requested_def)
  then have "put_parts cs values hidden name ?s = Inr (requested cs (requests cs values hidden name ?s) ?s)"
    using Cons by simp
  moreover have "requested cs (requests cs values hidden name ?s) ?s =
      requested (c # cs) (requests (c # cs) values hidden name s) s"
    by (simp add: requests_def) (simp add: requested_def)
  ultimately show ?case using Cons.prems by (auto simp: and_then_Inr_iff)
qed

lemma sent_to_append [simp]: "sent_to q (as @ bs) = sent_to q as @ sent_to q bs"
  by (simp add: sent_to_def)

lemma sent_to_requests:
  "distinct (map csr_server_rank cs) \<Longrightarrow> c \<in> set cs \<Longrightarrow>
     sent_to (csr_server_rank c) (requests cs values hidden name s) = request_of values hidden name s c"
proof (induction cs)
  case (Cons d cs)
  have own: "sent_to (csr_server_rank d) (map (\<lambda>(f, b). Api_send (csr_server_rank d) f b) fs) = fs" for d fs
    by (induction fs) (auto simp: sent_to_def)
  have other: "q \<noteq> csr_server_rank d \<Longrightarrow> sent_to q (map (\<lambda>(f, b). Api_send (csr_server_rank d) f b) fs) = []" for q d fs
    by (induction fs) (auto simp: sent_to_def)
  have none: "csr_server_rank d \<notin> csr_server_rank ` set cs \<Longrightarrow>
      sent_to (csr_server_rank d) (requests cs values hidden name s) = []" for d cs
  proof (induction cs)
    case (Cons e cs)
    then show ?case by (simp add: requests_def other)
  qed (simp add: requests_def sent_to_def)
  have "requests (d # cs) values hidden name s =
      map (\<lambda>(f, b). Api_send (csr_server_rank d) f b) (request_of values hidden name s d) @
      requests cs values hidden name s"
    by (simp add: requests_def)
  with Cons show ?case by (cases "c = d") (auto simp: own none other, metis image_eqI other append_Nil)
qed simp

section \<open>Receiving\<close>

text \<open>The frames of an answer with a state, as they arrive behind the identity and the empty frame.\<close>

definition answer_frames :: "int list \<Rightarrow> byte list \<Rightarrow> byte list \<Rightarrow> (frame \<times> bool) list" where
  "answer_frames header v h =
     [(Ints header, True), (Bytes v, h \<noteq> [])] @ (if h \<noteq> [] then [(Bytes h, False)] else [])"

definition answered :: "connected_server_rank \<Rightarrow> int \<Rightarrow> int \<Rightarrow> (frame \<times> bool) list \<Rightarrow> runner_rank \<Rightarrow> runner_rank" where
  "answered c sid step rest s = s\<lparr>api_field := (api_field s)\<lparr>current_state_id := sid, af_current_step := step\<rparr>,
     rn_inbox := (rn_inbox s)(csr_server_rank c := rest),
     awaiting := remove1 (csr_server_rank c) (awaiting s)\<rparr>"

definition holds_answer :: "int list \<Rightarrow> byte list \<Rightarrow> byte list \<Rightarrow> (frame \<times> bool) list \<Rightarrow>
    connected_server_rank \<Rightarrow> runner_rank \<Rightarrow> bool" where
  "holds_answer header v h rest c s \<longleftrightarrow>
     rn_inbox s (csr_server_rank c) = answer_frames header v h @ rest \<and>
     csr_server_rank c \<in> set (awaiting s) \<and>
     length v = csr_send_count c \<and> length h = send_count_hidden c"

lemma connection_receive_ok:
  assumes "holds_answer [sid, step, CHANGE_STATE, n] v h rest c s" "fits values hidden c"
  shows "connection_receive c values hidden s =
    Inr (n, copy_into (local_vector_offset c) v values,
         copy_into (local_vector_offset_hidden c) h hidden, answered c sid step rest s)"
proof (cases "h = []")
  case True
  with assms have "rn_inbox s (csr_server_rank c) =
      (Ints [sid, step, CHANGE_STATE, n], True) # (Bytes v, False) # rest"
      "csr_server_rank c \<in> set (awaiting s)" "length v = csr_send_count c" "send_count_hidden c = 0"
    by (auto simp: holds_answer_def answer_frames_def)
  with assms(2) True show ?thesis
    by (simp add: connection_receive_def recv_from_def state_header_def recv_data_def frame_bytes_def
        write_buf_def fits_def answered_def copy_into_def Let_def)
next
  case False
  with assms have "rn_inbox s (csr_server_rank c) =
      (Ints [sid, step, CHANGE_STATE, n], True) # (Bytes v, True) # (Bytes h, False) # rest"
      "csr_server_rank c \<in> set (awaiting s)" "length v = csr_send_count c"
      "send_count_hidden c = length h"
    by (auto simp: holds_answer_def answer_frames_def)
  with assms(2) False show ?thesis
    by (simp add: connection_receive_def recv_from_def state_header_def recv_data_def frame_bytes_def
        write_buf_def fits_def answered_def Let_def)
qed

text \<open>
  All server ranks answer with the same state and step: \<open>data\<close> gives the part and the hidden
  part of each.
\<close>

definition received :: "connected_server_rank list \<Rightarrow> (int \<Rightarrow> byte list) \<Rightarrow> (connected_server_rank \<Rightarrow> nat) \<Rightarrow>
    byte list \<Rightarrow> byte list" where
  "received cs data off buf = fold (\<lambda>c. copy_into (off c) (data (csr_server_rank c))) cs buf"

definition all_answered :: "connected_server_rank list \<Rightarrow> int list \<Rightarrow> (int \<Rightarrow> byte list) \<Rightarrow>
    (int \<Rightarrow> byte list) \<Rightarrow> runner_rank \<Rightarrow> bool" where
  "all_answered cs header data data_hidden s \<longleftrightarrow>
     (\<forall>c \<in> set cs. holds_answer header (data (csr_server_rank c)) (data_hidden (csr_server_rank c)) [] c s)"

lemma received_simps [simp]:
  "received [] data off buf = buf"
  "received (c # cs) data off buf = received cs data off (copy_into (off c) (data (csr_server_rank c)) buf)"
  by (simp_all add: received_def)

lemma holds_answer_answered:
  "csr_server_rank d \<noteq> csr_server_rank c \<Longrightarrow>
     holds_answer header v h rest d (answered c sid step rest' s) = holds_answer header v h rest d s"
  by (simp add: holds_answer_def answered_def)

lemma answered_phase: "rn_phase (answered c sid step rest s) = rn_phase s"
  by (simp add: answered_def)

lemma get_parts_ok:
  assumes "all_answered cs [sid, step, CHANGE_STATE, n] data data_hidden s"
    and "\<forall>c \<in> set cs. fits values hidden c" "distinct (map csr_server_rank cs)"
    and "rn_phase s \<noteq> PHASE_FINAL" "k = -1 \<or> k = n"
  shows "\<exists>s'. get_parts cs k values hidden s = Inr (if cs = [] then k else n,
      received cs data local_vector_offset values,
      received cs data_hidden local_vector_offset_hidden hidden, s') \<and>
    (cs \<noteq> [] \<longrightarrow> current_state_id (api_field s') = sid \<and> af_current_step (api_field s') = step) \<and>
    awaiting s' = fold (\<lambda>c. remove1 (csr_server_rank c)) cs (awaiting s) \<and> rn_phase s' = rn_phase s"
  using assms
proof (induction cs arbitrary: s k "values" hidden)
  case Nil
  then show ?case by simp
next
  case (Cons c cs)
  let ?v = "copy_into (local_vector_offset c) (data (csr_server_rank c)) values"
    and ?h = "copy_into (local_vector_offset_hidden c) (data_hidden (csr_server_rank c)) hidden"
    and ?s = "answered c sid step [] s"
  have here: "holds_answer [sid, step, CHANGE_STATE, n] (data (csr_server_rank c))
      (data_hidden (csr_server_rank c)) [] c s" and fit: "fits values hidden c"
    using Cons.prems by (simp_all add: all_answered_def)
  have len: "length ?v = length values" "length ?h = length hidden"
    using here fit by (auto simp: holds_answer_def fits_def layout_simps)
  have rest: "all_answered cs [sid, step, CHANGE_STATE, n] data data_hidden ?s"
      "\<forall>c \<in> set cs. fits ?v ?h c" "rn_phase ?s \<noteq> PHASE_FINAL"
    using Cons.prems len
    by (auto simp: all_answered_def fits_def holds_answer_answered image_iff answered_phase)
  from Cons.IH [OF rest(1,2) _ rest(3), of n] Cons.prems(3)
  obtain s' where s': "get_parts cs n ?v ?h ?s = Inr (if cs = [] then n else n,
      received cs data local_vector_offset ?v, received cs data_hidden local_vector_offset_hidden ?h, s')"
    "cs \<noteq> [] \<longrightarrow> current_state_id (api_field s') = sid \<and> af_current_step (api_field s') = step"
    "awaiting s' = fold (\<lambda>c. remove1 (csr_server_rank c)) cs (awaiting ?s)" "rn_phase s' = rn_phase ?s"
    by auto
  have "cs = [] \<Longrightarrow> s' = ?s" using s'(1) by simp
  with s' Cons.prems show ?case
    by (cases "cs = []") (auto simp: connection_receive_ok [OF here fit] answered_def)
qed

lemma remove_all_awaiting:
  "distinct (map csr_server_rank cs) \<Longrightarrow>
     fold (\<lambda>c. remove1 (csr_server_rank c)) cs (rev (map csr_server_rank cs) @ xs) = xs"
proof (induction cs)
  case (Cons c cs)
  have "remove1 (csr_server_rank c) (rev (map csr_server_rank (c # cs)) @ xs) = rev (map csr_server_rank cs) @ xs"
    using Cons.prems by (simp add: remove1_append)
  with Cons show ?case by simp
qed simp

end
