(* ===== verification/Failures.thy ===== *)
theory Failures
  imports ServerHandlers
begin

text \<open>
  What the death of a runner costs: the exact effect of a due date that passed and of a kill
  request. The task is blacklisted and taken from its runner, rank 0 counts the failure of the
  state, notifies the launcher and schedules again, another rank asks rank 0; the sixth failure of
  a state in a time step ends the server.
\<close>

section \<open>Counting failures\<close>

text \<open>
  A state may fail five times in a time step. The sixth failure tells the launcher to stop
  and exits with status 1.
\<close>

theorem sixth_failure_exits:
  assumes "comm_rank s = 0" "0 \<le> sid" "nat sid < length (failcount s)"
  shows "if failcount s ! nat sid < 5
     then fail_state sid s = Inr (s\<lparr>failcount := (failcount s)[nat sid := failcount s ! nat sid + 1]\<rparr>)
     else \<exists>s'. fail_state sid s = Inl (Exit 1, s') \<and> last (out s') = Launcher_stop"
  using assms by (auto simp: fail_state_def at_def MAX_FAIL_COUNT_def fail_with_def emit_def)

text \<open>
  \<open>costs ts A s s'\<close>: the tasks of \<open>ts\<close> were killed, rank 0 counted a failure of their states
  and of no other state, and the messages \<open>A\<close> are among those sent.
\<close>

definition costs :: "task set \<Rightarrow> action set \<Rightarrow> 'a server \<Rightarrow> 'a server \<Rightarrow> bool" where
  "costs ts A s s' \<longleftrightarrow> progress ts s s' \<and> length (failcount s') = length (failcount s) \<and>
     (\<forall>k < length (failcount s). failcount s' ! k = failcount s ! k +
        (if comm_rank s = 0 \<and> int k \<in> task_state_id ` ts then 1 else 0)) \<and>
     (\<exists>acts. out s' = out s @ acts \<and> A \<subseteq> set acts)"

lemma costs_refl: "server_inv s \<Longrightarrow> costs {} {} s s"
  by (simp add: costs_def progress_refl)

lemma costs_progress: "costs ts A s s' \<Longrightarrow> progress ts s s'"
  by (simp add: costs_def)

lemma costs_trans:
  assumes "costs ts A s s1" "costs us B s1 s'" "task_state_id ` ts \<inter> task_state_id ` us = {}"
  shows "costs (ts \<union> us) (A \<union> B) s s'"
proof -
  have p: "progress (ts \<union> us) s s'"
    by (rule progress_trans [OF costs_progress [OF assms(1)] costs_progress [OF assms(2)]])
  have r: "comm_rank s1 = comm_rank s" using assms(1) by (simp add: costs_def progress_def)
  obtain a b where "out s1 = out s @ a" "A \<subseteq> set a" "out s' = out s1 @ b" "B \<subseteq> set b"
    using assms(1,2) unfolding costs_def by blast
  then have "out s' = out s @ (a @ b)" "A \<union> B \<subseteq> set (a @ b)" by auto
  moreover have "\<forall>k < length (failcount s). failcount s' ! k = failcount s ! k +
      (if comm_rank s = 0 \<and> int k \<in> task_state_id ` (ts \<union> us) then 1 else 0)"
  proof (intro allI impI)
    fix k
    assume k: "k < length (failcount s)"
    have "\<not> (int k \<in> task_state_id ` ts \<and> int k \<in> task_state_id ` us)" using assms(3) by blast
    then show "failcount s' ! k = failcount s ! k +
        (if comm_rank s = 0 \<and> int k \<in> task_state_id ` (ts \<union> us) then 1 else 0)"
      using k assms(1,2) r by (simp add: costs_def image_Un)
  qed
  ultimately show ?thesis using p assms(1,2) unfolding costs_def by auto
qed

lemma launched_out: "\<exists>acts. out (launched as idle run sch s) = out s @ acts"
  by (simp add: launched_def emits_def)

lemma schedule_new_task_counts:
  assumes inv: "server_inv s" and c: "comm_rank s = 0" and r: "r \<notin> task_runner_id ` set (killed s)"
  shows "\<exists>b s' acts. schedule_new_task r s = Inr (b, s') \<and> progress {} s s' \<and>
     failcount s' = failcount s \<and> out s' = out s @ acts"
proof (cases "unscheduled_tasks s = []")
  case True
  then show ?thesis using c progress_refl [OF inv] by (auto simp: schedule_new_task_def)
next
  case False
  let ?s = "s\<lparr>task_id := task_id s + 1, finished_ranks := 0, unscheduled_tasks := tl (unscheduled_tasks s)\<rparr>"
  let ?sends = "map (\<lambda>k. Mpi_send k (New_task (scheduled_task r s))) [1..comm_size s - 1]"
  obtain as idle run sch where l:
      "schedule_new_task r s = Inr (True, emits ?sends (launched as idle run sch ?s))"
    using schedule_new_task_total [OF inv c r False] by blast
  moreover obtain b s' where "schedule_new_task r s = Inr (b, s')" "progress {} s s'"
    using schedule_new_task_progress [OF inv c r] by blast
  moreover obtain acts where "out (launched as idle run sch ?s) = out s @ acts"
    using launched_out [of as idle run sch ?s] by auto
  ultimately show ?thesis by (auto simp: emits_def)
qed

lemma reschedule_directly_counts:
  assumes "server_inv s" "comm_rank s = 0"
  shows "\<exists>s' acts. reschedule_directly s = Inr s' \<and> progress {} s s' \<and>
     failcount s' = failcount s \<and> out s' = out s @ acts"
proof (cases "get_completely_idle_runner s")
  case None
  then show ?thesis using progress_refl [OF assms(1)] by (simp add: reschedule_directly_def)
next
  case (Some r)
  then obtain b s' acts where "schedule_new_task (fst (hd (idle_runners s))) s = Inr (b, s')"
      "progress {} s s'" "failcount s' = failcount s" "out s' = out s @ acts"
    using schedule_new_task_counts [OF assms first_idle_not_killed [OF server_inv_base [OF assms(1)]]]
    by auto
  with Some show ?thesis by (simp add: reschedule_directly_def)
qed

text \<open>The failure is counted and the state scheduled again, or the sixth failure exits.\<close>

definition exits_or :: "bool \<Rightarrow> ('a server \<Rightarrow> bool) \<Rightarrow> ('a, 'a server) sres \<Rightarrow> bool" where
  "exits_or c Q m \<longleftrightarrow> (if c then \<exists>s'. m = Inl (Exit 1, s') \<and> last (out s') = Launcher_stop
     else \<exists>s'. m = Inr s' \<and> Q s')"

definition fails_too_often :: "task \<Rightarrow> 'a server \<Rightarrow> bool" where
  "fails_too_often t s \<longleftrightarrow> comm_rank s = 0 \<and> 5 \<le> failcount s ! nat (task_state_id t)"

lemma index_of_state:
  assumes "server_inv s" "owned t s"
  shows "nat (task_state_id t) < length (failcount s)" "0 \<le> task_state_id t"
  using owned_state [OF assms] assms(1) by (auto simp: server_inv_def base_inv_def)

lemma out_kill_task:
  "out (kill_task t s) = out s @ kill_frames (task_runner_id t) (current_step s) (idle_runners s)"
  by (simp add: kill_task_eq emits_def)

text \<open>
  A state \<open>k\<close> in which the task is killed and messages were sent: counting and rescheduling
  complete the effect.
\<close>

lemma count_and_reschedule:
  assumes own: "server_inv s" "owned t s" and c: "comm_rank s = 0"
    and k: "progress {t} s (k\<lparr>failcount := fc\<rparr>)" "failcount k = failcount s" "out k = out s @ as" "A \<subseteq> set as"
    and fc: "fc = (failcount s)[nat (task_state_id t) := failcount s ! nat (task_state_id t) + 1]"
  shows "\<exists>s'. reschedule_directly (k\<lparr>failcount := fc\<rparr>) = Inr s' \<and> costs {t} A s s'"
proof -
  note i = index_of_state [OF own]
  have "server_inv (k\<lparr>failcount := fc\<rparr>)" "comm_rank (k\<lparr>failcount := fc\<rparr>) = 0"
    using k(1) c by (auto simp: progress_def)
  then obtain s' acts where r: "reschedule_directly (k\<lparr>failcount := fc\<rparr>) = Inr s'"
      "progress {} (k\<lparr>failcount := fc\<rparr>) s'" "failcount s' = fc" "out s' = out k @ acts"
    using reschedule_directly_counts by fastforce
  have "out s' = out s @ (as @ acts)" "A \<subseteq> set (as @ acts)" using r(4) k(3,4) by auto
  moreover have "progress {t} s s'" using progress_trans [OF k(1) r(2)] by simp
  ultimately have "costs {t} A s s'"
    unfolding costs_def using r(3) c i fc by (auto simp: nth_list_update)
  with r(1) show ?thesis by blast
qed

section \<open>Due dates\<close>

text \<open>Whom a rank tells of a task that is overdue.\<close>

definition overdue_told :: "int \<Rightarrow> task \<Rightarrow> action" where
  "overdue_told rank t = (if rank = 0 then Launcher_notify (task_runner_id t) TIMEOUT
     else Mpi_send 0 (Kill_request (task_state_id t) (task_runner_id t)))"

lemma due_date_passed_costs:
  assumes inv: "server_inv s" and own: "owned t s"
  shows "exits_or (fails_too_often t s) (costs {t} {overdue_told (comm_rank s) t} s) (due_date_passed t s)"
proof (cases "comm_rank s = 0")
  case True
  obtain as where eq: "due_date_passed t s = and_then (fail_state (task_state_id t)
      (emits (as @ [Launcher_notify (task_runner_id t) TIMEOUT]) (kill_task t s))) reschedule_directly"
    using True by (auto simp: due_date_passed_def trigger_def emit_emits Let_def)
  let ?k = "emits (as @ [Launcher_notify (task_runner_id t) TIMEOUT]) (kill_task t s)"
  note f = sixth_failure_exits [of ?k "task_state_id t"] index_of_state [OF inv own]
  define fc where "fc = (failcount s)[nat (task_state_id t) := failcount s ! nat (task_state_id t) + 1]"
  have "progress {t} s (?k\<lparr>failcount := fc\<rparr>)"
    using progress_kill [OF inv own] by (simp add: progress_failcount fc_def)
  then have "\<exists>s'. reschedule_directly (?k\<lparr>failcount := fc\<rparr>) = Inr s' \<and>
      costs {t} {overdue_told (comm_rank s) t} s s'"
    by (rule count_and_reschedule [OF inv own True _ _ _ _ fc_def])
      (auto simp: overdue_told_def True emits_def out_kill_task)
  then show ?thesis
    using f True unfolding eq by (auto simp: exits_or_def fails_too_often_def fc_def split: if_splits)
next
  case False
  then show ?thesis
    using progress_kill [OF inv own]
    by (simp add: due_date_passed_def emit_emits exits_or_def fails_too_often_def costs_def
        overdue_told_def out_kill_task)
qed

lemma due_dates_loop_costs:
  "server_inv s \<Longrightarrow> distinct ts \<Longrightarrow> (\<forall>t \<in> set ts. owned t s) \<Longrightarrow> inj_on task_state_id (set ts) \<Longrightarrow>
   exits_or (\<exists>t \<in> set ts. fails_too_often t s)
     (costs (set ts) (overdue_told (comm_rank s) ` set ts) s) (due_dates_loop ts s)"
proof (induction ts arbitrary: s)
  case Nil
  then show ?case by (simp add: exits_or_def costs_refl)
next
  case (Cons t ts)
  then have own: "owned t s" by simp
  note d = due_date_passed_costs [OF Cons.prems(1) own]
  let ?told = "overdue_told (comm_rank s)"
  show ?case
  proof (cases "fails_too_often t s")
    case True
    then show ?thesis using d by (auto simp: exits_or_def)
  next
    case False
    then obtain s1 where s1: "due_date_passed t s = Inr s1" "costs {t} {?told t} s s1"
      using d by (auto simp: exits_or_def)
    have new: "task_state_id ` {t} \<inter> task_state_id ` set ts = {}"
      using Cons.prems(2,4) by (auto simp: inj_on_def)
    have p: "server_inv s1" "comm_rank s1 = comm_rank s" "\<forall>u \<in> set ts. owned u s1"
      using costs_progress [OF s1(2)] Cons.prems(2,3) by (auto simp: progress_def)
    have same: "fails_too_often u s1 \<longleftrightarrow> fails_too_often u s" if "u \<in> set ts" for u
    proof -
      have "owned u s" using Cons.prems(3) that by simp
      note i = index_of_state [OF Cons.prems(1) this]
      have "task_state_id u \<noteq> task_state_id t" using new that by (auto simp: image_iff)
      then have "failcount s1 ! nat (task_state_id u) = failcount s ! nat (task_state_id u)"
        using s1(2) i by (auto simp: costs_def)
      then show ?thesis using p(2) by (simp add: fails_too_often_def)
    qed
    have "exits_or (\<exists>u \<in> set ts. fails_too_often u s1) (costs (set ts) (?told ` set ts) s1)
        (due_dates_loop ts s1)"
      using Cons.IH [OF p(1) _ p(3)] Cons.prems(2,4) p(2) by (auto intro: inj_on_subset)
    then have "exits_or (\<exists>u \<in> set ts. fails_too_often u s) (costs (set ts) (?told ` set ts) s1)
        (due_dates_loop ts s1)"
      using same by (simp cong: bex_cong)
    moreover have "costs (set (t # ts)) (?told ` set (t # ts)) s s'"
      if "costs (set ts) (?told ` set ts) s1 s'" for s'
      using costs_trans [OF s1(2) that new] by simp
    ultimately show ?thesis
      using s1(1) False by (auto simp: exits_or_def split: if_splits)
  qed
qed

lemma check_due_dates_costs:
  assumes "server_inv s"
  shows "exits_or (\<exists>t \<in> set (overdue s). fails_too_often t s)
     (costs (set (overdue s)) (overdue_told (comm_rank s) ` set (overdue s)) s) (check_due_dates s)"
proof -
  have own: "\<forall>t \<in> set (overdue s). owned t s"
    by (auto simp: set_overdue owned_def sub_tasks_def)
  have "t = u" if tu: "t \<in> set (overdue s)" "u \<in> set (overdue s)" "task_state_id t = task_state_id u" for t u
  proof -
    obtain st where "st \<in> set (sub_tasks s)" "task_of st = u" using own tu(2) by (auto simp: owned_def)
    then show ?thesis
      using tu(3) owned_state(3) [OF assms bspec [OF own tu(1)]]
      by (cases t) (auto simp: owner_free_def task_of_def)
  qed
  then have "inj_on task_state_id (set (overdue s))" by (auto simp: inj_on_def)
  then show ?thesis
    unfolding check_due_dates_def by (rule due_dates_loop_costs [OF assms distinct_overdue own])
qed

section \<open>Kill requests\<close>

text \<open>With REPORT\_TIMING the launcher is told of a runner that no task was taken from before.\<close>

definition request_told :: "task \<Rightarrow> 'a server \<Rightarrow> action set" where
  "request_told t s = (if report_timing s \<and> task_runner_id t \<notin> task_runner_id ` set (killed s)
     then {Launcher_notify (task_runner_id t) TIMEOUT} else {})"

lemma handle_kill_request_costs:
  assumes inv: "server_inv s" and own: "owned t s" and c: "comm_rank s = 0"
  shows "exits_or (fails_too_often t s) (costs {t} (request_told t s) s) (handle_kill_request t s)"
proof -
  define as where "as = (if report_timing s \<and> task_runner_id t \<notin> task_runner_id ` set (killed s)
     then [Trigger ''REMOVE_RUNNER'' (task_runner_id t), Launcher_notify (task_runner_id t) TIMEOUT] else [])"
  let ?s = "emits as s"
  let ?k = "?s\<lparr>killed := insort_insert t (killed s)\<rparr>"
  have "t \<notin> set (killed s)" using inv own by (auto simp: server_inv_def owned_def)
  then have eq: "handle_kill_request t s = and_then (fail_state (task_state_id t) ?k) (\<lambda>s.
          reschedule_directly (kill_task t s))"
    using c by (simp add: handle_kill_request_def as_def trigger_def emit_emits Let_def)
  note f = sixth_failure_exits [of ?k "task_state_id t"] index_of_state [OF inv own]
  define fc where "fc = (failcount s)[nat (task_state_id t) := failcount s ! nat (task_state_id t) + 1]"
  have k: "kill_task t (?k\<lparr>failcount := fc\<rparr>) = (kill_task t ?s)\<lparr>failcount := fc\<rparr>"
    unfolding kill_task_failcount using kill_task_again [of t ?s] by simp
  have "progress {t} s ((kill_task t ?s)\<lparr>failcount := fc\<rparr>)"
    using progress_kill [of ?s t] inv own by (simp add: progress_failcount fc_def)
  then have "\<exists>s'. reschedule_directly ((kill_task t ?s)\<lparr>failcount := fc\<rparr>) = Inr s' \<and>
      costs {t} (request_told t s) s s'"
    by (rule count_and_reschedule [OF inv own c _ _ _ _ fc_def])
      (auto simp: out_kill_task request_told_def as_def emits_def)
  then show ?thesis
    using f c unfolding eq
    by (auto simp: exits_or_def fails_too_often_def fc_def [symmetric] k split: if_splits)
qed

end
