(* ===== verification/Responses.thy ===== *)
theory Responses
  imports Failures
begin

text \<open>
  The response of a runner rank to the sub task it runs: the data and the hidden state are stored
  at the places of its parts, and the rank is answered with the next sub task scheduled for it, or
  its connection is kept and, on rank 0, a runner of which all ranks wait is given a new task.
\<close>

section \<open>What is sent with a sub task\<close>

definition data_frames :: "action list \<Rightarrow> (frame \<times> bool) list" where
  "data_frames as = concat (map (\<lambda>a. case a of Data_send f m \<Rightarrow> [(f, m)] | _ \<Rightarrow> []) as)"

text \<open>
  The message with sub task \<open>nt\<close>: identity, empty frame, header, the part of the analysis state
  and, when the part of the hidden state has a byte, that part.
\<close>

definition sub_task_message :: "identity \<Rightarrow> sub_task \<Rightarrow> part \<Rightarrow> part \<Rightarrow> 'a server \<Rightarrow> frame list" where
  "sub_task_message ident nt p h s =
     [Bytes ident, empty_frame, Ints [state_id nt, current_step s, CHANGE_STATE, current_nsteps s],
      Bytes (subvec (local_offset_server p) (send_count p)
        (state_analysis (ensemble_members (the_field s) ! nat (state_id nt))))] @
     (if 0 < send_count h then [Bytes (subvec (local_offset_server h) (send_count h)
        (state_hidden (ensemble_members (the_field s) ! nat (state_id nt))))] else [])"

lemma launch_sub_task_message:
  assumes inv: "base_inv s" and sid: "0 \<le> state_id nt" "state_id nt < ENSEMBLE_SIZE s"
    and p: "getPart (comm_rank s) rr (the_field s) = Inr p"
    and h: "getPartHidden (comm_rank s) rr (the_field s) = Inr h"
  shows "\<exists>as. launch_sub_task (Some ident) rr (state_id nt) s = Inr (emits as s) \<and>
     multipart [] (data_frames as) = [sub_task_message ident nt p h s]"
proof -
  let ?f = "the_field s" and ?i = "nat (state_id nt)"
  have f: "field_ready (comm_rank s) ?f" using inv by (simp add: base_inv_def)
  have rr: "rr \<in> set (connected_runner_ranks ?f)" by (rule getPart_connected [OF f p])
  have us: "local_offset_server p + send_count p \<le> local_vect_size ?f"
      "local_offset_server h + send_count h \<le> local_vect_size_hidden ?f"
    using f rr p h usable_part [of _ _ "\<lambda>i. getPart (comm_rank s) i ?f" rr p]
      usable_part [of _ _ "\<lambda>i. getPartHidden (comm_rank s) i ?f" rr h]
    by (auto simp: field_ready_def)
  let ?em = "ensemble_members ?f ! ?i"
  have len: "?i < length (ensemble_members ?f)" using inv sid by (auto simp: base_inv_def)
  have em: "at (ensemble_members ?f) (state_id nt) = Inr ?em" "?em \<in> set (ensemble_members ?f)"
    using len sid by (simp_all add: at_def)
  show ?thesis
    using p h em(1) us member_lengths [OF f em(2)]
    by (auto simp: launch_sub_task_def trigger_def Let_def read_hidden_def read_vec_def data_frames_def
        launch_header_frames_def launch_data_frames_def sub_task_message_def)
qed

section \<open>Answering the runner rank\<close>

text \<open>The identity of a runner rank that waits for a sub task.\<close>

definition kept_connection :: "int \<Rightarrow> int \<Rightarrow> 'a server \<Rightarrow> identity option" where
  "kept_connection r rr s = (case map_of (idle_runners s) r of
     None \<Rightarrow> None | Some conns \<Rightarrow> (case map_of conns rr of None \<Rightarrow> None | Some i \<Rightarrow> i))"

text \<open>
  \<open>rank_answered ident r rr s s'\<close>: runner rank \<open>rr\<close> of runner \<open>r\<close> is answered in \<open>s\<close>. If a sub task is
  scheduled for it, the first is sent to it and runs. Otherwise its connection is kept and nothing
  sent; on rank 0 a runner of which all connected ranks now wait is then given a new task.
\<close>

definition rank_answered :: "identity \<Rightarrow> int \<Rightarrow> int \<Rightarrow> 'a server \<Rightarrow> 'a server \<Rightarrow> bool" where
  "rank_answered ident r rr s s' \<longleftrightarrow>
     (case find (\<lambda>nt. runner_id nt = r \<and> runner_rank nt = rr) (scheduled_sub_tasks s) of
        Some nt \<Rightarrow> running_sub_tasks s' = running_sub_tasks s @ [nt] \<and>
          scheduled_sub_tasks s' = remove1 nt (scheduled_sub_tasks s) \<and> idle_runners s' = idle_runners s \<and>
          (\<exists>acts p h. getPart (comm_rank s) rr (the_field s) = Inr p \<and>
             getPartHidden (comm_rank s) rr (the_field s) = Inr h \<and> out s' = out s @ acts \<and>
             multipart [] (data_frames acts) = [sub_task_message ident nt p h s])
      | None \<Rightarrow> (\<exists>s1 acts. scheduled_sub_tasks s1 = scheduled_sub_tasks s \<and>
          running_sub_tasks s1 = running_sub_tasks s \<and> unscheduled_tasks s1 = unscheduled_tasks s \<and>
          out s1 = out s @ acts \<and> data_frames acts = [] \<and>
          (\<forall>r' rr'. kept_connection r' rr' s1 = (if r' = r \<and> rr' = rr \<and> kept_connection r rr s = None
             then Some ident else kept_connection r' rr' s)) \<and>
          (if comm_rank s = 0 \<and>
              (\<forall>k \<in> set (connected_runner_ranks (the_field s)). kept_connection r k s1 \<noteq> None)
           then \<exists>b. schedule_new_task r s1 = Inr (b, s') else s' = s1)))"

lemma answered_next:
  assumes inv: "server_inv s" and nk: "rp_runner_id rp \<notin> task_runner_id ` set (killed s)"
    and p: "getPart (comm_rank s) (rp_runner_rank rp) (the_field s) = Inr p"
    and h: "getPartHidden (comm_rank s) (rp_runner_rank rp) (the_field s) = Inr h"
    and st: "find (is_next_task rp) (scheduled_sub_tasks s) = Some nt"
  shows "\<exists>s'. answer_response rp s = Inr s' \<and> server_inv s' \<and> the_field s' = the_field s \<and>
     finished_sub_tasks s' = finished_sub_tasks s \<and> data_socket s' = data_socket s \<and>
     rank_answered (rp_identity rp) (rp_runner_id rp) (rp_runner_rank rp) s s'"
proof -
  have f: "field_ready (comm_rank s) (the_field s)" using inv by (simp add: server_inv_def base_inv_def)
  have "nt \<in> set (sub_tasks s)" using st by (auto simp: sub_tasks_def find_Some_iff)
  then have "owned (task_of nt) s" by (auto simp: owned_def)
  from owned_state(1,2) [OF inv this] have sid: "0 \<le> state_id nt" "state_id nt < ENSEMBLE_SIZE s"
    by (simp_all add: task_of_def)
  obtain as where l: "launch_sub_task (Some (rp_identity rp)) (rp_runner_rank rp) (state_id nt) s = Inr (emits as s)"
      "multipart [] (data_frames as) = [sub_task_message (rp_identity rp) nt p h s]"
    using launch_sub_task_message [OF server_inv_base [OF inv] sid p h] by blast
  let ?s' = "(emits as s)\<lparr>running_sub_tasks := running_sub_tasks (emits as s) @ [nt],
     scheduled_sub_tasks := remove1 nt (scheduled_sub_tasks (emits as s))\<rparr>"
  have a: "answer_response rp s = Inr ?s'" using st l(1) by (simp add: answer_response_def)
  have "server_inv ?s'"
    using answer_response_progress [OF inv nk getPart_connected [OF f p] a] by (simp add: progress_def)
  moreover have "find (\<lambda>st. runner_id st = rp_runner_id rp \<and> runner_rank st = rp_runner_rank rp)
      (scheduled_sub_tasks s) = Some nt"
    using st by (simp add: is_next_task_def [abs_def])
  ultimately show ?thesis
    using a l(2) p h by (intro exI [of _ ?s']) (simp add: rank_answered_def emits_def)
qed

text \<open>Keeping the connection.\<close>

lemma idle_entry:
  assumes "idle_inv s" "map_of (idle_runners s) r = Some conns"
  shows "om_wf conns" "(rr, i) \<in> set conns \<Longrightarrow> i \<noteq> None \<and> rr \<in> set (connected_runner_ranks (the_field s))"
  using assms map_of_SomeD [OF assms(2)] by (auto simp: idle_inv_def)

lemma kept_iff:
  assumes "idle_inv s" "map_of (idle_runners s) r = Some conns"
  shows "kept_connection r k s \<noteq> None \<longleftrightarrow> k \<in> fst ` set conns"
proof -
  have "map_of conns k \<noteq> Some None"
    using idle_entry(2) [OF assms] by (auto dest: map_of_SomeD)
  then have "kept_connection r k s \<noteq> None \<longleftrightarrow> map_of conns k \<noteq> None"
    using assms(2) by (auto simp: kept_connection_def split: option.splits)
  then show ?thesis by (simp add: map_of_eq_None_iff)
qed

lemma completely_idle_kept:
  assumes inv: "base_inv s" and c: "map_of (idle_runners s) r = Some conns"
  shows "completely_idle s conns \<longleftrightarrow>
     (\<forall>k \<in> set (connected_runner_ranks (the_field s)). kept_connection r k s \<noteq> None)"
proof -
  let ?ranks = "connected_runner_ranks (the_field s)"
  have i: "idle_inv s" and f: "distinct ?ranks" using inv by (auto simp: base_inv_def field_ready_def)
  have "sorted_wrt (<) (map fst conns)" using idle_entry(1) [OF i c] by (simp add: om_wf_def)
  then have "distinct (map fst conns)" by (simp add: strict_sorted_iff)
  then have len: "length conns = card (fst ` set conns)" by (metis distinct_card length_map set_map)
  have sub: "fst ` set conns \<subseteq> set ?ranks" using idle_entry(2) [OF i c] by force
  have "card (fst ` set conns) = card (set ?ranks) \<longleftrightarrow> set ?ranks \<subseteq> fst ` set conns"
    using sub card_subset_eq [of "set ?ranks" "fst ` set conns"] by (metis List.finite_set subset_antisym)
  then show ?thesis
    using len distinct_card [OF f] kept_iff [OF i c] by (auto simp: completely_idle_def)
qed

lemma save_connection_sends_nothing: "\<exists>as. out (save_connection rp s) = out s @ as \<and> data_frames as = []"
  by (auto simp: save_connection_def Let_def trigger_def data_frames_def emit_def)

lemma kept_save_connection:
  assumes "idle_inv s"
  shows "kept_connection r' rr' (save_connection rp s) =
     (if r' = rp_runner_id rp \<and> rr' = rp_runner_rank rp \<and>
         kept_connection (rp_runner_id rp) (rp_runner_rank rp) s = None
      then Some (rp_identity rp) else kept_connection r' rr' s)"
proof -
  have wf: "om_wf (idle_runners s)" using assms by (simp add: idle_inv_def)
  have conns: "om_wf conns" "\<And>i. map_of conns rr = Some i \<Longrightarrow> \<exists>y. i = Some y"
    if "map_of (idle_runners s) r = Some conns" for r conns rr
    using idle_entry [OF assms that] by (auto dest: map_of_SomeD)
  obtain as where "save_connection rp s = emits as (s\<lparr>idle_runners := om_assign (rp_runner_id rp)
     (om_emplace (rp_runner_rank rp) (Some (rp_identity rp))
       (case map_of (idle_runners s) (rp_runner_id rp) of None \<Rightarrow> [] | Some c \<Rightarrow> c)) (idle_runners s)\<rparr>)"
    using save_connection_eq [OF wf] by blast
  then show ?thesis
    using conns by (auto simp: kept_connection_def map_of_om_assign [OF wf] map_of_om_emplace
        split: option.splits)
qed

lemma schedule_new_task_keeps:
  assumes "server_inv s" "comm_rank s = 0" "r \<notin> task_runner_id ` set (killed s)"
  shows "\<exists>b s'. schedule_new_task r s = Inr (b, s') \<and> server_inv s' \<and> the_field s' = the_field s \<and>
     finished_sub_tasks s' = finished_sub_tasks s \<and> data_socket s' = data_socket s"
proof (cases "unscheduled_tasks s = []")
  case True
  then show ?thesis using assms by (auto simp: schedule_new_task_def)
next
  case False
  have "data_socket (launched as idle run sch t) = data_socket t" for as idle run sch and t :: "'a server"
    by (simp add: launched_def)
  with schedule_new_task_total [OF assms False] show ?thesis by fastforce
qed

lemma answered_kept:
  assumes inv: "server_inv s" and nk: "rp_runner_id rp \<notin> task_runner_id ` set (killed s)"
    and rr: "rp_runner_rank rp \<in> set (connected_runner_ranks (the_field s))"
    and no: "find (is_next_task rp) (scheduled_sub_tasks s) = None"
  shows "\<exists>s'. answer_response rp s = Inr s' \<and> server_inv s' \<and> the_field s' = the_field s \<and>
     finished_sub_tasks s' = finished_sub_tasks s \<and> data_socket s' = data_socket s \<and>
     rank_answered (rp_identity rp) (rp_runner_id rp) (rp_runner_rank rp) s s'"
proof -
  let ?r = "rp_runner_id rp" and ?s = "save_connection rp s"
  let ?conns = "the (map_of (idle_runners ?s) ?r)"
  have idle: "idle_inv s" using inv by (simp add: server_inv_def base_inv_def)
  then have wf: "om_wf (idle_runners s)" by (simp add: idle_inv_def)
  have "progress {} s ?s" by (rule save_connection_progress [OF inv nk rr])
  then have k: "server_inv ?s" "?r \<notin> task_runner_id ` set (killed ?s)"
    using nk by (auto simp: progress_def)
  have same: "the_field ?s = the_field s" "finished_sub_tasks ?s = finished_sub_tasks s"
      "data_socket ?s = data_socket s" "scheduled_sub_tasks ?s = scheduled_sub_tasks s"
      "running_sub_tasks ?s = running_sub_tasks s" "unscheduled_tasks ?s = unscheduled_tasks s"
      "comm_rank ?s = comm_rank s" "map_of (idle_runners ?s) ?r = Some ?conns"
    using save_connection_eq [OF wf, of rp] map_of_om_assign [OF wf] by auto
  have all: "completely_idle ?s ?conns \<longleftrightarrow>
      (\<forall>k \<in> set (connected_runner_ranks (the_field s)). kept_connection ?r k ?s \<noteq> None)"
    using completely_idle_kept [OF server_inv_base [OF k(1)] same(8)] same(1) by simp
  obtain as where as: "out ?s = out s @ as" "data_frames as = []"
    using save_connection_sends_nothing by blast
  have none: "find (\<lambda>nt. runner_id nt = ?r \<and> runner_rank nt = rp_runner_rank rp) (scheduled_sub_tasks s) = None"
    using no by (simp add: is_next_task_def [abs_def])
  have eq: "answer_response rp s = (if comm_rank s = 0 \<and>
        (\<forall>k \<in> set (connected_runner_ranks (the_field s)). kept_connection ?r k ?s \<noteq> None)
      then and_then (schedule_new_task ?r ?s) (\<lambda>(_, s). Inr s) else Inr ?s)"
    using no same(7) all by (simp add: answer_response_def Let_def)
  have ans: "rank_answered (rp_identity rp) ?r (rp_runner_rank rp) s s'"
    if "if comm_rank s = 0 \<and> (\<forall>k \<in> set (connected_runner_ranks (the_field s)). kept_connection ?r k ?s \<noteq> None)
        then \<exists>b. schedule_new_task ?r ?s = Inr (b, s') else s' = ?s" for s'
    unfolding rank_answered_def none option.case
    by (rule exI [of _ ?s], rule exI [of _ as]) (use that same as kept_save_connection [OF idle] in simp)
  show ?thesis
  proof (cases "comm_rank s = 0 \<and>
      (\<forall>k \<in> set (connected_runner_ranks (the_field s)). kept_connection ?r k ?s \<noteq> None)")
    case True
    then have "comm_rank ?s = 0" using same(7) by simp
    from schedule_new_task_keeps [OF k(1) this k(2)] obtain b s' where
      "schedule_new_task ?r ?s = Inr (b, s')" "server_inv s'" "the_field s' = the_field ?s"
      "finished_sub_tasks s' = finished_sub_tasks ?s" "data_socket s' = data_socket ?s" by blast
    with True eq ans [of s'] same show ?thesis by (intro exI [of _ s']) auto
  next
    case False
    with eq ans [of ?s] same k(1) show ?thesis by (intro exI [of _ ?s]) (simp only: if_not_P, simp)
  qed
qed

section \<open>Storing the response\<close>

lemma find_unique:
  assumes "x \<in> set xs" "P x" "\<And>y. y \<in> set xs \<Longrightarrow> P y \<Longrightarrow> y = x"
  shows "find P xs = Some x"
  using assms
proof (induction xs)
  case (Cons y ys)
  show ?case
  proof (cases "P y")
    case True
    then show ?thesis using Cons.prems(3) [of y] by simp
  next
    case False
    then have x: "x \<in> set ys" using Cons.prems(1,2) by (metis set_ConsD)
    have "find P ys = Some x" by (rule Cons.IH [OF x Cons.prems(2)]) (rule Cons.prems(3), simp_all)
    then show ?thesis using False by simp
  qed
qed simp

lemma finish_sub_task_running:
  assumes inv: "server_inv s" and st: "st \<in> set (running_sub_tasks s)" "is_sub_task rp st"
  shows "finish_sub_task rp s = Inr (s\<lparr>finished_sub_tasks := finished_sub_tasks s @ [st],
     running_sub_tasks := remove1 st (running_sub_tasks s)\<rparr>)"
proof -
  have "distinct (map key (sub_tasks s))" using inv by (simp add: server_inv_def tasks_inv_def)
  then have "inj_on key (set (running_sub_tasks s))"
    by (auto simp: sub_tasks_def distinct_map inj_on_Un)
  moreover have "key st' = key st" if "is_sub_task rp st'" for st'
    using that st(2) by (simp add: is_sub_task_def key_def)
  ultimately have "find (is_sub_task rp) (running_sub_tasks s) = Some st"
    using st by (intro find_unique) (auto dest: inj_onD)
  then show ?thesis by (simp add: finish_sub_task_def)
qed

lemma store_response_current:
  assumes "rp_timestep rp = current_step s" "store_state (rp_state_id rp) p (rp_data rp) h vh (the_field s) = Inr f'"
  shows "\<exists>as. store_response ops rp p h vh s = Inr (emits as (s\<lparr>the_field := f'\<rparr>))"
proof -
  obtain as where as: "(if rp_runner_rank rp = 0 then trigger ''STOP_PROPAGATE_STATE'' (rp_state_id rp) s else s) =
      emits as s"
  proof (cases "rp_runner_rank rp = 0")
    case True
    with trigger_emits [of "''STOP_PROPAGATE_STATE''" "rp_state_id rp" s] that show thesis by auto
  next
    case False
    with that [of "[]"] show thesis by simp
  qed
  have "store_response ops rp p h vh s = Inr ((emits as s)\<lparr>the_field := f'\<rparr>)"
    unfolding store_response_def Let_def as using assms by simp
  moreover have "(emits as s)\<lparr>the_field := f'\<rparr> = emits as (s\<lparr>the_field := f'\<rparr>)" by (simp add: emits_def)
  ultimately show ?thesis by (intro exI [of _ as]) simp
qed

text \<open>
  The response \<open>rp\<close> was read and, when the part of the hidden state has a byte, the frame with the
  hidden state waits.
\<close>

lemma process_good_response:
  assumes inv: "server_inv s" and st: "st \<in> set (running_sub_tasks s)" "is_sub_task rp st"
    and rp: "rp_timestep rp = current_step s" "rp_field_name rp = field_name (the_field s)"
      "runner_id st \<notin> task_runner_id ` set (killed s)"
    and p: "getPart (comm_rank s) (runner_rank st) (the_field s) = Inr p" "length (rp_data rp) = send_count p"
    and h: "getPartHidden (comm_rank s) (runner_rank st) (the_field s) = Inr h" "length vh = send_count h"
    and socket: "data_socket s = (if send_count h > 0 then [(Bytes vh, m)] else []) @ rest"
      "rp_more rp \<longleftrightarrow> send_count h > 0"
  shows "\<exists>s1 s' em. process_response ops rp s = Inr s' \<and> server_inv s' \<and>
     finished_sub_tasks s' = finished_sub_tasks s @ [st] \<and> data_socket s' = rest \<and>
     the_field s' = (the_field s)\<lparr>ensemble_members := (ensemble_members (the_field s))[nat (state_id st) := em]\<rparr> \<and>
     state_analysis em = state_analysis (ensemble_members (the_field s) ! nat (state_id st)) \<and>
     subvec (local_offset_server p) (send_count p) (state_background em) = rp_data rp \<and>
     subvec (local_offset_server h) (send_count h) (state_hidden em) = vh \<and>
     the_field s1 = the_field s' \<and> running_sub_tasks s1 = remove1 st (running_sub_tasks s) \<and>
     scheduled_sub_tasks s1 = scheduled_sub_tasks s \<and> idle_runners s1 = idle_runners s \<and>
     unscheduled_tasks s1 = unscheduled_tasks s \<and> comm_rank s1 = comm_rank s \<and>
     rank_answered (rp_identity rp) (runner_id st) (runner_rank st) s1 s'"
proof -
  let ?s1 = "s\<lparr>finished_sub_tasks := finished_sub_tasks s @ [st],
     running_sub_tasks := remove1 st (running_sub_tasks s)\<rparr>"
  let ?s2 = "?s1\<lparr>data_socket := rest\<rparr>"
  let ?f = "the_field s" and ?i = "nat (state_id st)"
  have ids: "rp_runner_id rp = runner_id st" "rp_runner_rank rp = runner_rank st" "rp_state_id rp = state_id st"
    using st(2) by (simp_all add: is_sub_task_def)
  have f: "field_ready (comm_rank s) ?f" using inv by (simp add: server_inv_def base_inv_def)
  have "st \<in> set (sub_tasks s)" using st(1) by (simp add: sub_tasks_def)
  then have "owned (task_of st) s" by (auto simp: owned_def)
  from owned_state(1,2) [OF inv this] have i: "0 \<le> state_id st" "?i < length (ensemble_members ?f)"
    using inv by (auto simp: task_of_def server_inv_def base_inv_def)
  let ?em = "ensemble_members ?f ! ?i"
  have em: "?em \<in> set (ensemble_members ?f)" using i by simp
  have rr: "runner_rank st \<in> set (connected_runner_ranks ?f)" by (rule getPart_connected [OF f p(1)])
  let ?em' = "?em\<lparr>state_background := copy_into (local_offset_server p) (rp_data rp) (state_background ?em),
      state_hidden := copy_into (local_offset_server h) vh (state_hidden ?em)\<rparr>"
  let ?f' = "?f\<lparr>ensemble_members := (ensemble_members ?f)[?i := ?em']\<rparr>"
  have hidden: "recv_hidden h rp ?s1 = Inr (hidden_values h vh, ?s2)"
    using socket h(2) by (auto simp: recv_hidden_def recv_def hidden_values_def frame_bytes_def)
  have store: "store_state (state_id st) p (rp_data rp) h (hidden_values h vh) ?f = Inr ?f'"
    using i store_part_ok [OF f em rr p h] by (simp add: store_state_def)
  obtain as where resp: "store_response ops rp p h (hidden_values h vh) ?s2 = Inr (emits as (?s2\<lparr>the_field := ?f'\<rparr>))"
    using store_response_current [of rp ?s2 p h "hidden_values h vh" ?f' ops] rp(1) store by (auto simp: ids)
  let ?s3 = "emits as (?s2\<lparr>the_field := ?f'\<rparr>)"
  have "same_tasks s ?s1"
    by (rule finish_sub_task_same_tasks [OF finish_sub_task_running [OF inv st]])
  then have "same_tasks s ?s3"
    using store_state_shape [OF store] by (simp add: same_tasks_def sub_tasks_def)
  from same_tasks_progress [OF inv this] have inv3: "server_inv ?s3" by (simp add: progress_def)
  have nk: "rp_runner_id rp \<notin> task_runner_id ` set (killed ?s3)" using rp(3) by (simp add: ids)
  have same: "getPart (comm_rank ?s3) (rp_runner_rank rp) (the_field ?s3) = Inr p"
      "getPartHidden (comm_rank ?s3) (rp_runner_rank rp) (the_field ?s3) = Inr h"
      "rp_runner_rank rp \<in> set (connected_runner_ranks (the_field ?s3))"
    using p h rr by (simp_all add: ids getPart_def getPartHidden_def cong: if_cong)
  have "\<exists>s'. answer_response rp ?s3 = Inr s' \<and> server_inv s' \<and> the_field s' = the_field ?s3 \<and>
     finished_sub_tasks s' = finished_sub_tasks ?s3 \<and> data_socket s' = data_socket ?s3 \<and>
     rank_answered (rp_identity rp) (rp_runner_id rp) (rp_runner_rank rp) ?s3 s'"
  proof (cases "find (is_next_task rp) (scheduled_sub_tasks ?s3)")
    case None
    then show ?thesis by (rule answered_kept [OF inv3 nk same(3)])
  next
    case (Some nt)
    then show ?thesis by (rule answered_next [OF inv3 nk same(1,2)])
  qed
  then obtain s' where a: "answer_response rp ?s3 = Inr s'" "server_inv s'" "the_field s' = ?f'"
      "finished_sub_tasks s' = finished_sub_tasks s @ [st]" "data_socket s' = rest"
      "rank_answered (rp_identity rp) (runner_id st) (runner_rank st) ?s3 s'" by (auto simp: ids)
  have "process_response ops rp s = Inr s'"
    using rp p h resp a(1) hidden by (simp add: process_response_def finish_sub_task_running [OF inv st] ids)
  moreover have "subvec (local_offset_server p) (send_count p) (state_background ?em') = rp_data rp"
    using subvec_copy_into [of "local_offset_server p" "rp_data rp" "state_background ?em"] p rr f
      usable_part [of _ _ "\<lambda>i. getPart (comm_rank s) i ?f" "runner_rank st" p] member_lengths [OF f em]
    by (auto simp: field_ready_def)
  moreover have "subvec (local_offset_server h) (send_count h) (state_hidden ?em') = vh"
    using subvec_copy_into [of "local_offset_server h" vh "state_hidden ?em"] h rr f
      usable_part [of _ _ "\<lambda>i. getPartHidden (comm_rank s) i ?f" "runner_rank st" h] member_lengths [OF f em]
    by (auto simp: field_ready_def)
  ultimately show ?thesis
    using a by (intro exI [of _ ?s3] exI [of _ s'] exI [of _ ?em']) simp
qed

end
