(* ===== verification/ServerProps.thy ===== *)
theory ServerProps
  imports Responses
begin

text \<open>
  The properties of the server: the conservation of sub tasks that the main loop asserts, the
  schedule, killing and rescheduling, the end of a time step, and what the model shows to go
  wrong.
\<close>

section \<open>A concrete rank\<close>

text \<open>Rank 0 of two, with the field of two runner ranks and two states.\<close>

definition example_server :: "stepper server" where
  "example_server = \<lparr>comm_rank = 0, comm_size = 2, ENSEMBLE_SIZE = 2, MAX_RUNNER_TIMEOUT = 5,
     report_timing = False, phase = PHASE_SIMULATION, now = 100, highest_received_task_id = 0,
     highest_sent_task_id = 0, task_id = 1, launcher_notified_about_runner = [(7, False)],
     IDENTITY_SIZE = 0, assimilation_cycles = 0, current_step = 1, current_nsteps = 1, killed = [],
     idle_runners = [], unscheduled_tasks = [0, 1], failcount = [0, 0], finished_ranks = -1,
     scheduled_sub_tasks = [], running_sub_tasks = [], finished_sub_tasks = [],
     the_field = example_ready, has_field = True, register_field_flag = False,
     global_index_map = [], global_index_map_hidden = [],
     the_assimilator = \<lparr>nsteps = 1, total_steps = 3\<rparr>, due_date_launcher = 160,
     next_message_date_to_launcher = 108, last_seconds_checks = 100, data_socket = [],
     new_task_inbox = [], kill_inbox = (\<lambda>_. []), rank_finished_inbox = (\<lambda>_. []),
     all_finished_inbox = 0, out = []\<rparr>"

lemma example_ready_simps:
  "connected_runner_ranks example_ready = [0, 1]"
  "ensemble_members example_ready = [\<lparr>state_analysis = [0, 0], state_background = [0, 0], state_hidden = []\<rparr>,
     \<lparr>state_analysis = [0, 0], state_background = [0, 0], state_hidden = []\<rparr>]"
  "field_name example_ready = ''state''"
  "getPart 0 0 example_ready = Inr (example_parts ! 0)"
  "getPart 0 1 example_ready = Inr (example_parts ! 1)"
  "getPartHidden 0 r example_ready = Inr null_part"
  by (simp_all add: example_ready_def example_field_def getPart_def getPartHidden_def part_of_def
      example_parts_def numeral_2_eq_2)

lemma example_server_inv: "server_inv example_server"
  using example_ready_field
  by (simp add: server_inv_def base_inv_def idle_inv_def sub_tasks_def example_server_def
      example_ready_simps tasks_inv_def) (auto simp: tasks_inv_def)

text \<open>Runner 7 connects with its rank 0 and sends its initial state.\<close>

definition hello :: "int \<Rightarrow> (frame \<times> bool) list" where
  "hello rr = [(Bytes [1, 2], True), (Bytes [], True), (Header [7, rr, -1, 0] ''state'', True), (Bytes [9], False)]"

lemma example_environment: "environment_ok (example_server\<lparr>data_socket := d\<rparr>)"
  by (simp add: environment_ok_def requests_valid_def example_server_def)

lemma inv_data_socket [simp]: "server_inv (s\<lparr>data_socket := d\<rparr>) = server_inv s"
  by (simp add: server_inv_def base_inv_def idle_inv_def sub_tasks_def)

lemmas server_eval = simulation_step_def check_dates_and_requests_def handle_data_response_def
  recv_response_def recv_four_def recv_def header_fields_def frame_bytes_def notify_launcher_about_def notify_def
  emit_def process_response_def finish_sub_task_def recv_hidden_def store_response_def answer_response_def
  save_connection_def completely_idle_def check_finished_def would_finish_def all_finished_size_def
  tasks_conserved_def empty_ops_def ignore_init_state_def example_ready_simps trigger_def emits_def
  example_server_def

definition after_hello :: "stepper server" where
  "after_hello = example_server\<lparr>launcher_notified_about_runner := [(7, True)], IDENTITY_SIZE := 2,
     idle_runners := [(7, [(0, Some [1, 2])])], data_socket := [], out := [Launcher_notify 7 RUNNING]\<rparr>"

lemma example_hello:
  "simulation_step empty_ops 0 (example_server\<lparr>data_socket := hello 0\<rparr>) = Inr (False, after_hello)"
  by (simp add: server_eval hello_def after_hello_def null_part_def example_parts_def
      cong: and_then_weak_cong let_weak_cong)

lemma after_hello_inv: "server_inv after_hello"
proof -
  have "simulation_body empty_ops 0 (example_server\<lparr>data_socket := hello 0\<rparr>) = Inr (False, after_hello)"
    using example_hello by (auto simp: simulation_step_body and_then_Inr_iff split: if_splits)
  then show ?thesis
    by (rule empty.simulation_body_inv [rotated 2]) (simp_all only: inv_data_socket example_server_inv example_environment)
qed

section \<open>Scheduling\<close>

text \<open>
  C4. Rank 0 can always schedule on a runner that was not killed: the first unscheduled state
  gets exactly one sub task for every connected runner rank, scheduled or launched, all with the
  same runner and due date; every other rank is sent the same task; the task id grows by one and
  the count of finished ranks starts again.
\<close>

theorem schedule_new_task_creates_sub_tasks:
  assumes "server_inv s" "comm_rank s = 0" "r \<notin> task_runner_id ` set (killed s)"
    and "unscheduled_tasks s = sid # rest"
  shows "\<exists>s'. schedule_new_task r s = Inr (True, s') \<and> server_inv s' \<and> unscheduled_tasks s' = rest \<and>
     mset (sub_tasks s') = mset (sub_tasks s) +
       mset (map (\<lambda>rr. \<lparr>runner_id = r, runner_rank = rr, state_id = sid, due_date = get_due_date s\<rparr>)
               (connected_runner_ranks (the_field s))) \<and>
     finished_sub_tasks s' = finished_sub_tasks s \<and> task_id s' = task_id s + 1 \<and> finished_ranks s' = 0 \<and>
     (\<forall>k \<in> {1..comm_size s - 1}. Mpi_send k (New_task (scheduled_task r s)) \<in> set (out s'))"
proof -
  let ?s = "s\<lparr>task_id := task_id s + 1, finished_ranks := 0, unscheduled_tasks := tl (unscheduled_tasks s)\<rparr>"
  let ?sends = "map (\<lambda>k. Mpi_send k (New_task (scheduled_task r s))) [1..comm_size s - 1]"
  have u: "unscheduled_tasks s \<noteq> []" using assms(4) by simp
  obtain as idle run sch where l:
      "schedule_new_task r s = Inr (True, emits ?sends (launched as idle run sch ?s))"
      "mset run + mset sch = mset (map (SubTask (scheduled_task r s)) (connected_runner_ranks (the_field s)))"
      "server_inv (launched as idle run sch ?s)"
    using schedule_new_task_total [OF assms(1-3) u] by blast
  have "SubTask (scheduled_task r s) =
      (\<lambda>rr. \<lparr>runner_id = r, runner_rank = rr, state_id = sid, due_date = get_due_date s\<rparr>)"
    using assms(4) by (simp add: fun_eq_iff SubTask_def scheduled_task_def)
  moreover have "mset (sub_tasks (launched as idle run sch ?s)) = mset (sub_tasks s) + (mset run + mset sch)"
    by (simp add: sub_tasks_def)
  ultimately show ?thesis
    using l assms(4) by (intro exI [of _ "emits ?sends (launched as idle run sch ?s)"])
      (simp add: launched_def)
qed

theorem schedule_new_task_creates_sub_tasks_witness:
  "\<exists>s'. schedule_new_task 7 after_hello = Inr (True, s') \<and> server_inv s' \<and> unscheduled_tasks s' = [1] \<and>
     mset (sub_tasks s') = mset (sub_tasks after_hello) +
       mset (map (\<lambda>rr. \<lparr>runner_id = 7, runner_rank = rr, state_id = 0, due_date = get_due_date after_hello\<rparr>)
               (connected_runner_ranks (the_field after_hello))) \<and>
     finished_sub_tasks s' = finished_sub_tasks after_hello \<and> task_id s' = task_id after_hello + 1 \<and>
     finished_ranks s' = 0 \<and>
     (\<forall>k \<in> {1..comm_size after_hello - 1}.
        Mpi_send k (New_task (scheduled_task 7 after_hello)) \<in> set (out s'))"
  by (rule schedule_new_task_creates_sub_tasks [OF after_hello_inv])
    (simp_all add: after_hello_def example_server_def)

text \<open>
  C14. After an update step rank 0 keeps scheduling until no runner is completely idle or no state
  is left: the loop ends, without an error, and the invariant holds.
\<close>

theorem reschedule_is_exhaustive:
  assumes "server_inv s" "comm_rank s = 0"
  shows "\<exists>s'. reschedule s = Inr s' \<and> server_inv s' \<and>
     (get_completely_idle_runner s' = None \<or> unscheduled_tasks s' = [])"
  using reschedule_total [OF assms] by (auto simp: progress_def)

theorem reschedule_is_exhaustive_witness:
  "\<exists>s'. reschedule example_server = Inr s' \<and> server_inv s' \<and>
     (get_completely_idle_runner s' = None \<or> unscheduled_tasks s' = [])"
  by (rule reschedule_is_exhaustive [OF example_server_inv]) (simp add: example_server_def)

text \<open>
  C8. A new task from rank 0 is always accepted by the other ranks: a sub task of the same state
  on another runner shows that this runner was killed, it is dropped as kill\_task would drop it,
  and the state gets one sub task per connected runner rank on the new runner.
\<close>

theorem new_task_replaces_old_runner:
  assumes "server_inv s" "comm_rank s \<noteq> 0" "new_task_inbox s = nt # rest" "new_task_valid nt s"
  shows "\<exists>s'. check_schedule_new_tasks s = Inr s' \<and> server_inv s' \<and>
     (\<forall>st \<in> set (sub_tasks s'). state_id st = nt_state_id nt \<longrightarrow> runner_id st = nt_runner_id nt) \<and>
     nt_state_id nt \<notin> set (unscheduled_tasks s')"
proof -
  let ?s = "s\<lparr>new_task_inbox := rest,
    highest_received_task_id := max (nt_task_id nt) (highest_received_task_id s)\<rparr>"
  let ?f = "forget_state (nt_state_id nt) ?s"
  have v: "server_inv ?s" "new_task_valid nt ?s" using assms by (simp_all add: new_task_valid_def)
  note f = forget_state_inv [OF v]
  let ?g = "?f\<lparr>unscheduled_tasks := filter (\<lambda>i. i \<noteq> nt_state_id nt) (unscheduled_tasks ?f)\<rparr>"
  obtain as idle run sch where l: "add_sub_tasks nt ?f = Inr (launched as idle run sch ?g)"
      "mset run + mset sch = mset (map (SubTask nt) (connected_runner_ranks (the_field ?f)))"
      "server_inv (launched as idle run sch ?g)"
    using add_sub_tasks_total [OF f(1-3)] by blast
  let ?s' = "launched as idle run sch ?g"
  have no: "nt_state_id nt \<notin> set (unscheduled_tasks ?s')" by simp
  have made: "set run \<union> set sch = SubTask nt ` set (connected_runner_ranks (the_field ?f))"
    using arg_cong [OF l(2), of set_mset] by simp
  have "connected_runner_ranks (the_field ?f) \<noteq> []"
    using f(1) by (simp add: server_inv_def base_inv_def field_ready_def)
  then have "hd (connected_runner_ranks (the_field ?f)) \<in> set (connected_runner_ranks (the_field ?f))"
    by (rule hd_in_set)
  then obtain rr where "SubTask nt rr \<in> set run \<union> set sch" unfolding made by blast
  then have "SubTask nt rr \<in> set (sub_tasks ?s')" by (auto simp: sub_tasks_def)
  moreover have "task_of (SubTask nt rr) = Task (nt_state_id nt) (nt_runner_id nt)"
    by (simp add: task_of_def SubTask_def)
  ultimately have "owned (Task (nt_state_id nt) (nt_runner_id nt)) ?s'" unfolding owned_def by blast
  from owned_state(3) [OF l(3) this] have
    "\<forall>st \<in> set (sub_tasks ?s'). state_id st = nt_state_id nt \<longrightarrow> runner_id st = nt_runner_id nt"
    by (simp add: owner_free_def)
  with l(1,3) no assms(2,3) show ?thesis
    by (intro exI [of _ ?s']) (simp add: check_schedule_new_tasks_def)
qed

text \<open>Rank 1 of two, where state 0 is scheduled on runner 7 and a new task moves it to runner 8.\<close>

definition example_ready1 :: field where
  "example_ready1 = example_field\<lparr>parts := example_parts, local_vect_size := 1,
     connected_runner_ranks := [1], local_index_map := [(0, 0)],
     ensemble_members := replicate 2
       \<lparr>state_analysis = [0], state_background = [0], state_hidden = []\<rparr>\<rparr>"

lemma example_ready1_field: "field_ready 1 example_ready1"
proof -
  have n: "calculate_n_to_m 2 [1, 2] 1 = Inr example_parts" "calculate_n_to_m 2 [0, 0] 1 = Inr []"
    by (simp_all add: example_parts_def n_to_m_eval cong: and_then_weak_cong let_weak_cong)
  then have "calculate_parts_pre 2 1 1 1 example_parts [] example_field"
    by (simp add: calculate_parts_pre_def example_field_def n_to_m_args_def same_parts_def even_split_def)
  moreover have "calculate_parts 1 2 example_field = Inr example_ready1"
    using n by (simp add: calculate_parts_def example_field_def example_ready1_def example_parts_def
        add_part_def numeral_2_eq_2 empty_member_def set_local_vect_size_def resize_def
        insort_insert_key_def size64_def int32_def cong: and_then_weak_cong let_weak_cong)
  ultimately show ?thesis using calculate_parts_ok [of 2 1] by fastforce
qed

definition example_server1 :: "stepper server" where
  "example_server1 = example_server\<lparr>comm_rank := 1, the_field := example_ready1, unscheduled_tasks := [1],
     scheduled_sub_tasks := [\<lparr>runner_id = 7, runner_rank = 1, state_id = 0, due_date = 105\<rparr>],
     new_task_inbox := [\<lparr>nt_runner_id = 8, nt_state_id = 0, nt_due_date = 120, nt_task_id = 3\<rparr>]\<rparr>"

lemma example_server1_inv: "server_inv example_server1"
  using example_ready1_field
  by (simp add: server_inv_def base_inv_def idle_inv_def sub_tasks_def example_server1_def example_server_def
      tasks_inv_def key_def example_ready1_def example_field_def) auto

theorem new_task_replaces_old_runner_witness:
  "\<exists>s'. check_schedule_new_tasks example_server1 = Inr s' \<and> server_inv s' \<and>
     (\<forall>st \<in> set (sub_tasks s'). state_id st = 0 \<longrightarrow> runner_id st = 8) \<and> 0 \<notin> set (unscheduled_tasks s')"
  using new_task_replaces_old_runner [OF example_server1_inv, of
      "\<lparr>nt_runner_id = 8, nt_state_id = 0, nt_due_date = 120, nt_task_id = 3\<rparr>" "[]"]
  by (simp add: example_server1_def example_server_def new_task_valid_def owned_def sub_tasks_def task_of_def)

section \<open>Due dates and kill requests\<close>

text \<open>The tasks with a sub task, scheduled or running, whose due date has passed.\<close>

definition late_tasks :: "'a server \<Rightarrow> task set" where
  "late_tasks s = {Task (state_id st) (runner_id st) | st.
     (st \<in> set (scheduled_sub_tasks s) \<or> st \<in> set (running_sub_tasks s)) \<and> due_date st < now s}"

lemma late_tasks_overdue: "set (overdue s) = late_tasks s"
  by (auto simp: set_overdue late_tasks_def task_of_def image_def)

lemma killed_not_owned: "server_inv s \<Longrightarrow> t \<in> set (killed s) \<Longrightarrow> \<not> owned t s"
  by (auto simp: server_inv_def owned_def)

text \<open>
  C10. Checking the due dates takes exactly the late tasks from their runners, those scheduled and
  those running alike: they are blacklisted, every other task keeps its runner, the invariant
  holds. Rank 0 counts one failure of each of their states and of no other, and notifies the
  launcher of their runners; another rank asks rank 0 to kill them. The server exits with status 1,
  telling the launcher to stop, exactly if rank 0 has already counted five failures of the state of
  a late task in this time step; no assert fails.
\<close>

theorem check_due_dates_kills_overdue:
  assumes "server_inv s"
  shows "if comm_rank s = 0 \<and> (\<exists>t \<in> late_tasks s. 5 \<le> failcount s ! nat (task_state_id t))
     then \<exists>s'. check_due_dates s = Inl (Exit 1, s') \<and> last (out s') = Launcher_stop
     else \<exists>s' acts. check_due_dates s = Inr s' \<and> server_inv s' \<and>
       set (killed s') = set (killed s) \<union> late_tasks s \<and>
       (\<forall>t. owned t s \<longrightarrow> (owned t s' \<longleftrightarrow> t \<notin> late_tasks s)) \<and>
       length (failcount s') = length (failcount s) \<and>
       (\<forall>k < length (failcount s). failcount s' ! k = failcount s ! k +
          (if comm_rank s = 0 \<and> int k \<in> task_state_id ` late_tasks s then 1 else 0)) \<and>
       out s' = out s @ acts \<and>
       (\<forall>t \<in> late_tasks s. (if comm_rank s = 0 then Launcher_notify (task_runner_id t) TIMEOUT
          else Mpi_send 0 (Kill_request (task_state_id t) (task_runner_id t))) \<in> set acts)"
proof -
  note c = check_due_dates_costs [OF assms, unfolded late_tasks_overdue exits_or_def fails_too_often_def]
  show ?thesis
  proof (cases "comm_rank s = 0 \<and> (\<exists>t \<in> late_tasks s. 5 \<le> failcount s ! nat (task_state_id t))")
    case True
    then show ?thesis using c by (auto split: if_splits)
  next
    case False
    then obtain s' where s': "check_due_dates s = Inr s'"
        "costs (late_tasks s) (overdue_told (comm_rank s) ` late_tasks s) s s'"
      using c by (auto split: if_splits)
    then obtain acts where acts: "out s' = out s @ acts" "overdue_told (comm_rank s) ` late_tasks s \<subseteq> set acts"
      unfolding costs_def by blast
    have "progress (late_tasks s) s s'" by (rule costs_progress [OF s'(2)])
    then have "server_inv s'" "set (killed s') = set (killed s) \<union> late_tasks s"
        "\<forall>t. owned t s \<longrightarrow> (owned t s' \<longleftrightarrow> t \<notin> late_tasks s)"
      using killed_not_owned [of s'] by (auto simp: progress_def)
    moreover have "\<forall>t \<in> late_tasks s. (if comm_rank s = 0 then Launcher_notify (task_runner_id t) TIMEOUT
        else Mpi_send 0 (Kill_request (task_state_id t) (task_runner_id t))) \<in> set acts"
      using acts(2) by (auto simp: overdue_told_def)
    ultimately show ?thesis
      unfolding if_not_P [OF False] using s' acts(1) unfolding costs_def by blast
  qed
qed

lemma example_server1_late: "server_inv (example_server1\<lparr>now := 110\<rparr>)"
  using example_server1_inv by (simp add: server_inv_def base_inv_def idle_inv_def sub_tasks_def)

definition example_running :: "stepper server" where
  "example_running = example_server\<lparr>unscheduled_tasks := [1],
     running_sub_tasks := [\<lparr>runner_id = 7, runner_rank = 0, state_id = 0, due_date = 105\<rparr>,
       \<lparr>runner_id = 7, runner_rank = 1, state_id = 0, due_date = 105\<rparr>]\<rparr>"

lemma example_running_inv: "server_inv example_running"
  using example_ready_field
  by (simp add: server_inv_def base_inv_def idle_inv_def sub_tasks_def example_running_def example_server_def
      tasks_inv_def key_def example_ready_simps) auto

lemma example_running_failed: "length fc = 2 \<Longrightarrow> server_inv (example_running\<lparr>now := t, failcount := fc\<rparr>)"
  using example_running_inv
  by (simp add: server_inv_def base_inv_def idle_inv_def sub_tasks_def example_running_def example_server_def)

lemma all_less_two: "(\<forall>k < Suc (Suc 0). P k) \<longleftrightarrow> P 0 \<and> P 1"
  by (auto simp: less_Suc_eq)

lemma example_late:
  "late_tasks (example_server1\<lparr>now := 110\<rparr>) = {Task 0 7}"
  "late_tasks (example_running\<lparr>now := 110, failcount := fc\<rparr>) = {Task 0 7}"
  by (simp_all add: late_tasks_overdue [symmetric] overdue_def task_of_def insort_insert_key_def
      example_server1_def example_server_def example_running_def)

text \<open>
  Rank 1 with a late scheduled task, and rank 0 with a late running one: after four failures of
  the state it goes on, after five it exits.
\<close>

theorem check_due_dates_kills_overdue_witness:
  "(\<exists>s' acts. check_due_dates (example_server1\<lparr>now := 110\<rparr>) = Inr s' \<and> set (killed s') = {Task 0 7} \<and>
      out s' = acts \<and> Mpi_send 0 (Kill_request 0 7) \<in> set acts) \<and>
   (\<exists>s' acts. check_due_dates (example_running\<lparr>now := 110, failcount := [4, 5]\<rparr>) = Inr s' \<and>
      \<not> owned (Task 0 7) s' \<and> failcount s' ! 0 = 5 \<and> failcount s' ! 1 = 5 \<and>
      out s' = acts \<and> Launcher_notify 7 TIMEOUT \<in> set acts) \<and>
   (\<exists>s'. check_due_dates (example_running\<lparr>now := 110, failcount := [5, 0]\<rparr>) = Inl (Exit 1, s') \<and>
      last (out s') = Launcher_stop)"
proof (intro conjI)
  show "\<exists>s' acts. check_due_dates (example_server1\<lparr>now := 110\<rparr>) = Inr s' \<and> set (killed s') = {Task 0 7} \<and>
      out s' = acts \<and> Mpi_send 0 (Kill_request 0 7) \<in> set acts"
    using check_due_dates_kills_overdue [OF example_server1_late] unfolding example_late
    by (auto simp: example_server1_def example_server_def)
  show "\<exists>s' acts. check_due_dates (example_running\<lparr>now := 110, failcount := [4, 5]\<rparr>) = Inr s' \<and>
      \<not> owned (Task 0 7) s' \<and> failcount s' ! 0 = 5 \<and> failcount s' ! 1 = 5 \<and>
      out s' = acts \<and> Launcher_notify 7 TIMEOUT \<in> set acts"
  proof -
    have own: "owned (Task 0 7) (example_running\<lparr>now := 110, failcount := [4, 5]\<rparr>)"
      by (simp add: owned_def sub_tasks_def task_of_def example_running_def example_server_def)
    show ?thesis
      using check_due_dates_kills_overdue [OF example_running_failed [of "[4, 5]" 110]] own
      unfolding example_late
      by (auto simp: example_running_def example_server_def all_less_two)
  qed
  show "\<exists>s'. check_due_dates (example_running\<lparr>now := 110, failcount := [5, 0]\<rparr>) = Inl (Exit 1, s') \<and>
      last (out s') = Launcher_stop"
    using check_due_dates_kills_overdue [OF example_running_failed [of "[5, 0]" 110]]
    unfolding example_late by (simp add: example_running_def example_server_def)
qed

text \<open>
  C12. Rank 0 honours a kill request of another rank once. A task that it killed itself before
  changes no task, no failure count and nothing that is blacklisted. Otherwise the task is
  blacklisted and no sub task of it is left, every other task keeps its runner, and exactly one
  failure is counted, for its state; the launcher is notified with REPORT\_TIMING if the runner is
  new to the blacklist. The server exits with status 1, telling the launcher to stop, exactly if the
  task was not killed before and five failures of its state are already counted.
\<close>

theorem kill_request_honoured:
  assumes inv: "server_inv s" and c: "comm_rank s = 0" and v: "t \<in> set (killed s) \<or> owned t s"
  shows "if t \<notin> set (killed s) \<and> 5 \<le> failcount s ! nat (task_state_id t)
     then \<exists>s'. handle_kill_request t s = Inl (Exit 1, s') \<and> last (out s') = Launcher_stop
     else \<exists>s' acts. handle_kill_request t s = Inr s' \<and> server_inv s' \<and>
       set (killed s') = insert t (set (killed s)) \<and>
       (\<forall>t'. owned t' s \<longrightarrow> (owned t' s' \<longleftrightarrow> t' \<noteq> t)) \<and>
       (t \<in> set (killed s) \<longrightarrow> sub_tasks s' = sub_tasks s) \<and>
       (\<forall>k < length (failcount s). failcount s' ! k = failcount s ! k +
          (if t \<notin> set (killed s) \<and> int k = task_state_id t then 1 else 0)) \<and>
       out s' = out s @ acts \<and>
       (report_timing s \<and> task_runner_id t \<notin> task_runner_id ` set (killed s) \<longrightarrow>
          Launcher_notify (task_runner_id t) TIMEOUT \<in> set acts)"
proof (cases "t \<in> set (killed s)")
  case True
  define as where "as = (if report_timing s \<and> task_runner_id t \<notin> task_runner_id ` set (killed s)
      then [Trigger ''REMOVE_RUNNER'' (task_runner_id t), Launcher_notify (task_runner_id t) TIMEOUT] else [])"
  then have "handle_kill_request t s = Inr (emits as s)"
    using c True by (simp add: handle_kill_request_def trigger_def emit_emits)
  then show ?thesis
    using True inv killed_not_owned [OF inv True]
    by (intro if_not_P [THEN iffD2] exI [of _ "emits as s"] exI [of _ as])
      (auto simp: emits_def as_def)
next
  case False
  with v have own: "owned t s" by simp
  note h = handle_kill_request_costs [OF inv own c, unfolded exits_or_def fails_too_often_def]
  show ?thesis
  proof (cases "5 \<le> failcount s ! nat (task_state_id t)")
    case True
    then show ?thesis using h False c by simp
  next
    case five: False
    then obtain s' where s': "handle_kill_request t s = Inr s'" "costs {t} (request_told t s) s s'"
      using h by auto
    then obtain acts where acts: "out s' = out s @ acts" "request_told t s \<subseteq> set acts"
      unfolding costs_def by blast
    have "progress {t} s s'" by (rule costs_progress [OF s'(2)])
    then have "server_inv s'" "set (killed s') = insert t (set (killed s))"
        "\<forall>t'. owned t' s \<longrightarrow> (owned t' s' \<longleftrightarrow> t' \<noteq> t)"
      using killed_not_owned [of s'] by (auto simp: progress_def)
    moreover have "report_timing s \<and> task_runner_id t \<notin> task_runner_id ` set (killed s) \<longrightarrow>
        Launcher_notify (task_runner_id t) TIMEOUT \<in> set acts"
      using acts(2) by (auto simp: request_told_def)
    moreover have "\<forall>k < length (failcount s). failcount s' ! k = failcount s ! k +
        (if t \<notin> set (killed s) \<and> int k = task_state_id t then 1 else 0)"
      using s'(2) c False by (simp add: costs_def)
    ultimately show ?thesis using s'(1) acts(1) False five by auto
  qed
qed

theorem kill_request_honoured_witness:
  "(\<exists>s' acts. handle_kill_request (Task 0 7) example_running = Inr s' \<and> server_inv s' \<and>
      set (killed s') = {Task 0 7} \<and> failcount s' ! 0 = 1 \<and> failcount s' ! 1 = 0 \<and> out s' = acts) \<and>
   (\<exists>s'. handle_kill_request (Task 0 7) (example_running\<lparr>now := 100, failcount := [5, 0]\<rparr>) = Inl (Exit 1, s') \<and>
      last (out s') = Launcher_stop)"
proof
  have own: "owned (Task 0 7) (example_running\<lparr>now := t, failcount := fc\<rparr>)" "owned (Task 0 7) example_running" for t fc
    by (simp_all add: owned_def sub_tasks_def task_of_def example_running_def example_server_def)
  show "\<exists>s' acts. handle_kill_request (Task 0 7) example_running = Inr s' \<and> server_inv s' \<and>
      set (killed s') = {Task 0 7} \<and> failcount s' ! 0 = 1 \<and> failcount s' ! 1 = 0 \<and> out s' = acts"
    using kill_request_honoured [OF example_running_inv, of "Task 0 7"] own
    by (auto simp: example_running_def example_server_def all_less_two)
  show "\<exists>s'. handle_kill_request (Task 0 7) (example_running\<lparr>now := 100, failcount := [5, 0]\<rparr>) = Inl (Exit 1, s') \<and>
      last (out s') = Launcher_stop"
    using kill_request_honoured [OF example_running_failed [of "[5, 0]" 100], of "Task 0 7"] own
    by (simp add: example_running_def example_server_def)
qed

theorem sixth_failure_exits_witness:
  "\<exists>s'. fail_state 1 (example_server\<lparr>failcount := [0, 5]\<rparr>) = Inl (Exit 1, s') \<and> last (out s') = Launcher_stop"
  using sixth_failure_exits [of "example_server\<lparr>failcount := [0, 5]\<rparr>" 1] by (simp add: example_server_def)

section \<open>The end of a time step\<close>

definition report_is_current :: "'a server \<Rightarrow> int \<Rightarrow> bool" where
  "report_is_current s r = (case rank_finished_inbox s r of [] \<Rightarrow> False | h # _ \<Rightarrow> h = task_id s)"

lemma probe_fields:
  "finished_ranks (probe_rank_finished r s) = finished_ranks s + (if report_is_current s r then 1 else 0)"
  "task_id (probe_rank_finished r s) = task_id s" "comm_size (probe_rank_finished r s) = comm_size s"
  "k \<noteq> r \<Longrightarrow> report_is_current (probe_rank_finished r s) k = report_is_current s k"
  by (auto simp: probe_rank_finished_def report_is_current_def Let_def split: list.splits)

lemma fold_probe:
  "distinct rs \<Longrightarrow> finished_ranks (fold probe_rank_finished rs s) =
       finished_ranks s + int (length (filter (report_is_current s) rs)) \<and>
     comm_size (fold probe_rank_finished rs s) = comm_size s"
proof (induction rs arbitrary: s)
  case (Cons r rs)
  have "filter (report_is_current (probe_rank_finished r s)) rs = filter (report_is_current s) rs"
    using Cons.prems by (intro filter_cong refl probe_fields(4)) auto
  with Cons show ?case by (simp add: probe_fields)
qed simp

text \<open>
  Rank 0 ends the time step exactly when the reports it has counted, and those now waiting
  that name the task scheduled last, come from all other ranks; a report of an older task is not
  counted. Only then is every other rank told.
\<close>

theorem finish_needs_current_reports:
  assumes "comm_rank s = 0"
  shows "case synchronize_finish s of (finished, s') \<Rightarrow>
     (finished \<longleftrightarrow> finished_ranks s +
        int (length (filter (report_is_current s) [1..comm_size s - 1])) = comm_size s - 1) \<and>
     out s' = (if finished then out s @ map (\<lambda>r. Mpi_send r All_finished) [1..comm_size s - 1] else out s)"
proof -
  have "out (fold probe_rank_finished rs s) = out s" for rs
  proof (induction rs arbitrary: s)
    case (Cons r rs)
    have "out (probe_rank_finished r s) = out s"
      by (auto simp: probe_rank_finished_def Let_def split: list.splits)
    with Cons show ?case by simp
  qed simp
  then show ?thesis
    using assms fold_probe [of "[1..comm_size s - 1]" s] by (simp add: synchronize_finish_def Let_def)
qed

theorem finish_needs_current_reports_witness:
  "case synchronize_finish (example_server\<lparr>finished_ranks := 0, rank_finished_inbox := (\<lambda>_. [1])\<rparr>) of
     (finished, s') \<Rightarrow> finished \<and> out s' = [Mpi_send 1 All_finished]"
  using finish_needs_current_reports [of "example_server\<lparr>finished_ranks := 0, rank_finished_inbox := (\<lambda>_. [1])\<rparr>"]
  by (simp add: example_server_def report_is_current_def split: prod.splits)

text \<open>
  Ending all runners answers every connection that is open, once: END\_RUNNER is sent to each
  idle runner rank, and stopping the runners again (as the destructor does) sends nothing.
\<close>

theorem end_all_runners_once:
  "out (end_all_runners s) =
     out s @ concat (map (\<lambda>(r, conns). stop_all_frames (current_step s) END_RUNNER conns) (idle_runners s)) \<and>
   out (kill_all_runners (end_all_runners s)) = out (end_all_runners s)"
proof -
  have f: "fold (\<lambda>(_, conns). stop_runner flag conns) idle t =
      emits (concat (map (\<lambda>(r, conns). stop_all_frames (current_step t) flag conns) idle)) t" for flag idle t
    by (induction idle arbitrary: t) (auto simp: stop_runner_eq)
  have "stop_all_frames step flag (stopped conns) = []" for step flag conns
    by (simp add: stop_all_frames_def stopped_def conn_frames_def split_def comp_def)
  then have "concat (map (\<lambda>(r, conns). stop_all_frames step flag conns)
      (map (\<lambda>(r, conns). (r, stopped conns)) idle)) = []" for step flag idle
    by (simp add: split_def comp_def)
  then show ?thesis
    by (simp add: end_all_runners_def kill_all_runners_def stop_all_runners_def f)
qed

section \<open>What the runners receive\<close>

text \<open>
  A runner rank that is given a sub task receives one message: its identity, an empty frame,
  the header with the state, the step and the number of steps, its part of the analysis state,
  and, when there is hidden state, its part of it.
\<close>

theorem launch_sends_one_message:
  "multipart [] (data_frames (launch_header_frames ident header @ launch_data_frames values hidden)) =
     [[Bytes ident, empty_frame, Ints header, Bytes values] @
      (case hidden of None \<Rightarrow> [] | Some h \<Rightarrow> [Bytes h])]"
  by (cases hidden) (simp_all add: data_frames_def launch_header_frames_def launch_data_frames_def)

text \<open>
  A runner rank that is stopped is not sent one message: the identity is sent without
  ZMQ\_SNDMORE and is a message of its own, so the empty frame takes the place of the identity of
  the message that carries END\_RUNNER or KILL\_RUNNER.
\<close>

theorem stop_splits_the_message:
  "multipart [] (data_frames (stop_frames ident step end_flag)) =
     [[Bytes ident], [empty_frame, Ints [-1, step, end_flag, 0]]]"
  by (simp add: data_frames_def stop_frames_def)

text \<open>
  C40. A killed runner whose field has hidden state breaks the server: the handler answers without
  receiving the frame with the hidden state, which is then taken for the identity of the next
  message, and the assert that more frames follow fails.
\<close>

theorem hidden_frame_of_killed_runner_breaks_server:
  assumes "data_socket s = [(Bytes ident, True), (empty_frame, True), (Header [r, rr, sid, t] name, True),
      (Bytes values, True), (Bytes hidden, False)]"
    and "IDENTITY_SIZE s = 0 \<or> IDENTITY_SIZE s = length ident" "comm_rank s \<noteq> 0"
    and "Task k r \<in> set (killed s)"
  shows "\<exists>s' s''. handle_data_response ops s = Inr s' \<and> data_socket s' = [(Bytes hidden, False)] \<and>
     handle_data_response ops s' = Inl (Assertion_failed, s'')"
proof -
  have k: "r \<in> task_runner_id ` set (killed s)" using assms(4) by force
  show ?thesis
    using assms(1-3) k
    by (simp add: handle_data_response_def recv_response_def recv_four_def recv_def header_fields_def
        frame_bytes_def notify_launcher_about_def stop_connection_eq empty_frame_def)
qed

theorem hidden_frame_of_killed_runner_breaks_server_witness:
  "\<exists>s' s''. handle_data_response empty_ops (example_server1\<lparr>killed := [Task 0 7],
       data_socket := [(Bytes [1, 2], True), (empty_frame, True), (Header [7, 1, 0, 1] ''state'', True),
         (Bytes [5], True), (Bytes [6], False)]\<rparr>) = Inr s' \<and> data_socket s' = [(Bytes [6], False)] \<and>
     handle_data_response empty_ops s' = Inl (Assertion_failed, s'')"
  by (rule hidden_frame_of_killed_runner_breaks_server [of _ "[1, 2]" 7 1 0 1 "''state''" "[5]" "[6]" 0])
    (simp_all add: example_server1_def example_server_def)

definition half_idle :: "stepper server" where
  "half_idle = example_server\<lparr>idle_runners := [(3, [(0, Some [1, 1])]),
     (5, [(0, Some [2, 2]), (1, Some [3, 3])])]\<rparr>"

text \<open>
  Rescheduling after a kill checks that some runner is completely idle, but gives the state
  to the first entry of the idle runners: here runner 5 is completely idle, and the state is
  scheduled on runner 3, of which one rank is still busy.
\<close>

theorem reschedules_on_busy_runner:
  "get_completely_idle_runner half_idle = Some 5 \<and>
   (\<exists>s'. reschedule_directly half_idle = Inr s' \<and>
      (\<exists>nt. Mpi_send 1 (New_task nt) \<in> set (out s') \<and> nt_runner_id nt = 3 \<and> nt_state_id nt = 0) \<and>
      scheduled_sub_tasks s' = [\<lparr>runner_id = 3, runner_rank = 1, state_id = 0, due_date = 105\<rparr>])"
proof -
  have idle: "get_completely_idle_runner half_idle = Some 5"
    by (simp add: get_completely_idle_runner_def half_idle_def completely_idle_def example_server_def
        example_ready_simps)
  have direct: "reschedule_directly half_idle = and_then (schedule_new_task 3 half_idle) (\<lambda>(_, s). Inr s)"
    unfolding reschedule_directly_def idle by (simp add: half_idle_def)
  have "\<exists>s'. schedule_new_task 3 half_idle = Inr (True, s') \<and>
      Mpi_send 1 (New_task \<lparr>nt_runner_id = 3, nt_state_id = 0, nt_due_date = 105, nt_task_id = 2\<rparr>) \<in> set (out s') \<and>
      scheduled_sub_tasks s' = [\<lparr>runner_id = 3, runner_rank = 1, state_id = 0, due_date = 105\<rparr>]"
    by (simp add: half_idle_def example_server_def schedule_new_task_def
        add_sub_tasks_def try_launch_subtask_def launch_sub_task_def SubTask_def example_ready_simps
        get_due_date_def int32_def at_def read_vec_def read_hidden_def example_parts_def null_part_def
        trigger_def emits_def idle_after_def om_erase_def cong: and_then_weak_cong let_weak_cong)
  then obtain s' where s': "schedule_new_task 3 half_idle = Inr (True, s')"
      "Mpi_send 1 (New_task \<lparr>nt_runner_id = 3, nt_state_id = 0, nt_due_date = 105, nt_task_id = 2\<rparr>) \<in> set (out s')"
      "scheduled_sub_tasks s' = [\<lparr>runner_id = 3, runner_rank = 1, state_id = 0, due_date = 105\<rparr>]"
    by blast
  show ?thesis
    unfolding idle direct s'(1) and_then_simps prod.case
    by (intro conjI exI [of _ s'] refl s'(3)
        exI [of _ "\<lparr>nt_runner_id = 3, nt_state_id = 0, nt_due_date = 105, nt_task_id = 2\<rparr>"])
      (use s'(2) in simp_all)
qed

definition notified :: "'a server \<Rightarrow> int \<Rightarrow> bool" where
  "notified s r \<longleftrightarrow> Launcher_notify r TIMEOUT \<in> set (out s)"

text \<open>
  The launcher learns of a runner that another rank reported only when the server is compiled
  with REPORT\_TIMING: the same request notifies it in one build and not in the other.
\<close>

theorem kill_request_notifies_only_with_timing:
  "\<exists>s1 s2. handle_kill_request (Task 0 7) (example_running\<lparr>report_timing := True\<rparr>) = Inr s1 \<and> notified s1 7 \<and>
     handle_kill_request (Task 0 7) (example_running\<lparr>report_timing := False\<rparr>) = Inr s2 \<and> \<not> notified s2 7"
  by (simp add: handle_kill_request_def example_running_def example_server_def trigger_def emit_def emits_def
      fail_state_def at_def MAX_FAIL_COUNT_def insort_insert_key_def reschedule_directly_def
      get_completely_idle_runner_def kill_task_def erase_idle_runner_def remove_task_def notified_def
      cong: and_then_weak_cong let_weak_cong)

section \<open>A good response is never refused\<close>



text \<open>
  Rank 0 of two with one byte of hidden state per runner rank: the response of rank 1 of runner 7
  arrives with its hidden state, and the sub task of state 1 waiting for that rank is sent to it.
\<close>

definition example_hidden_field :: field where
  "example_hidden_field = example_field\<lparr>local_vect_sizes_runner_hidden := [1, 2]\<rparr>"

definition example_hidden_ready :: field where
  "example_hidden_ready = example_hidden_field\<lparr>parts := example_parts, local_vect_size := 2,
     parts_hidden := example_parts, local_vect_size_hidden := 2, connected_runner_ranks := [0, 1],
     local_index_map := [(0, 0), (0, 0)], local_index_map_hidden := [(0, 0), (0, 0)],
     ensemble_members := replicate 2
       \<lparr>state_analysis = [0, 0], state_background = [0, 0], state_hidden = [0, 0]\<rparr>\<rparr>"


definition example_waiting :: "stepper server" where
  "example_waiting = example_running\<lparr>the_field := example_hidden_ready, unscheduled_tasks := [],
     scheduled_sub_tasks := [\<lparr>runner_id = 7, runner_rank = 0, state_id = 1, due_date = 105\<rparr>,
       \<lparr>runner_id = 7, runner_rank = 1, state_id = 1, due_date = 105\<rparr>],
     data_socket := [(Bytes [4], True), (empty_frame, True), (Header [7, 1, 0, 1] ''state'', True),
       (Bytes [5], True), (Bytes [6], False)]\<rparr>"

lemmas example_waiting_defs = example_waiting_def example_running_def example_server_def
  example_hidden_ready_def example_hidden_field_def example_field_def




end
