(* ===== verification/Exchange.thy ===== *)
theory Exchange
  imports ApiInv ServerProps
begin

text \<open>
  Runner and server together: the connections of a runner rank mirror the parts its server ranks
  look up, a request is received as the server expects it, an answer of the server is what the
  runner rank waits for, and a state that is sent to all server ranks and back arrives unchanged.
\<close>

section \<open>Connections and parts\<close>

lemma with_hidden_member:
  assumes "(p, h) \<in> set (with_hidden ps hs)" "same_parts ps hs"
  shows "p \<in> set ps" and "(hs = [] \<and> h = []) \<or>
     (\<exists>g \<in> set hs. h = [g] \<and> rank_runner g = rank_runner p \<and> rank_server g = rank_server p)"
proof -
  have "p \<in> set ps \<and> ((hs = [] \<and> h = []) \<or>
     (\<exists>g \<in> set hs. h = [g] \<and> rank_runner g = rank_runner p \<and> rank_server g = rank_server p))"
  proof (cases "hs = []")
    case False
    with assms(1) obtain g where g: "h = [g]" "(p, g) \<in> set (zip ps hs)"
      by (auto simp: with_hidden_def)
    then obtain k where "k < length ps" "k < length hs" "ps ! k = p" "hs ! k = g"
      by (auto simp: in_set_zip)
    moreover have "map (\<lambda>p. (rank_runner p, rank_server p)) hs ! k = map (\<lambda>p. (rank_runner p, rank_server p)) ps ! k"
      using assms(2) False by (simp add: same_parts_def)
    ultimately show ?thesis using g by auto
  qed (use assms(1) in \<open>auto simp: with_hidden_def\<close>)
  then show "p \<in> set ps" "(hs = [] \<and> h = []) \<or>
     (\<exists>g \<in> set hs. h = [g] \<and> rank_runner g = rank_runner p \<and> rank_server g = rank_server p)"
    by blast+
qed

lemma with_hidden_exists:
  assumes "p \<in> set ps" "same_parts ps hs"
  shows "\<exists>h. (p, h) \<in> set (with_hidden ps hs)"
proof -
  have "length hs = 0 \<or> length hs = length ps"
    using assms(2) by (auto simp: same_parts_def dest: map_eq_imp_length_eq)
  then have "p \<in> fst ` set (with_hidden ps hs)"
    using assms(1) map_fst_with_hidden [of hs ps] by (metis list.set_map)
  then show ?thesis by auto
qed

text \<open>The connection that belongs to a part and the part of the hidden state.\<close>

definition connection_of :: "part \<Rightarrow> part \<Rightarrow> connected_server_rank \<Rightarrow> bool" where
  "connection_of p h c \<longleftrightarrow> csr_send_count c = send_count p \<and> local_vector_offset c = local_offset_runner p \<and>
     send_count_hidden c = send_count h \<and> local_vector_offset_hidden c = local_offset_runner h"

lemma my_connections_parts:
  assumes "c \<in> set (my_connections r ps hs)" "same_parts ps hs"
    and "covering rs ss ps" "hs \<noteq> [] \<Longrightarrow> covering rh sh hs"
  obtains p h where "p \<in> set ps" "rank_runner p = r" "rank_server p = csr_server_rank c" "connection_of p h c"
    "part_of (csr_server_rank c) r ps = Inr p"
    "(if hs = [] then Inr null_part else part_of (csr_server_rank c) r hs) = Inr h"
    "hs \<noteq> [] \<longrightarrow> h \<in> set hs \<and> rank_runner h = r \<and> rank_server h = csr_server_rank c"
proof -
  obtain p g where pg: "(p, g) \<in> set (with_hidden ps hs)" "rank_runner p = r" "c = connected_rank p g"
    using assms(1) by (auto simp: my_connections_def)
  note mem = with_hidden_member [OF pg(1) assms(2)]
  have c: "csr_server_rank c = rank_server p" using pg(3) by (simp add: connected_rank_def)
  have p: "part_of (csr_server_rank c) r ps = Inr p"
    using part_of_covering [OF assms(3)] mem(1) pg(2) c by simp
  show ?thesis
  proof (cases "hs = []")
    case True
    then have "g = []" using mem(2) by simp
    with True show ?thesis
      using that [of p null_part] p c pg mem(1)
      by (simp add: connection_of_def connected_rank_def null_part_def)
  next
    case False
    then obtain h where h: "h \<in> set hs" "g = [h]" "rank_runner h = rank_runner p" "rank_server h = rank_server p"
      using mem(2) by blast
    then have "part_of (csr_server_rank c) r hs = Inr h"
      using part_of_covering [OF assms(4) [OF False]] c pg(2) by simp
    with False h show ?thesis
      using that [of p h] p c pg mem(1) by (simp add: connection_of_def connected_rank_def)
  qed
qed

lemma my_connections_exists:
  assumes "p \<in> set ps" "rank_runner p = r" "same_parts ps hs"
  shows "\<exists>c \<in> set (my_connections r ps hs). csr_server_rank c = rank_server p"
proof -
  obtain h where "(p, h) \<in> set (with_hidden ps hs)"
    using with_hidden_exists assms by blast
  with assms(2) show ?thesis
    by (force simp: my_connections_def connected_rank_def)
qed

lemma filter_with_hidden:
  assumes "same_parts ps hs"
  shows "filter (\<lambda>p. rank_runner p = r) ps = map fst (filter (\<lambda>(p, h). rank_runner p = r) (with_hidden ps hs))"
proof -
  have len: "length hs = 0 \<or> length hs = length ps"
    using assms by (auto simp: same_parts_def dest: map_eq_imp_length_eq)
  have "filter (\<lambda>p. rank_runner p = r) (map fst xs) = map fst (filter (\<lambda>(p, h). rank_runner p = r) xs)"
      for xs :: "(part \<times> part list) list"
    by (simp add: filter_map comp_def split_def)
  from this [of "with_hidden ps hs"]
  have "filter (\<lambda>p. rank_runner p = r) ps = map fst (filter (\<lambda>(p, h). rank_runner p = r) (with_hidden ps hs))"
    by (simp only: map_fst_with_hidden [OF len])
  then show ?thesis .
qed

lemma map_csr_server_rank:
  assumes "same_parts ps hs"
  shows "map csr_server_rank (my_connections r ps hs) = map rank_server (filter (\<lambda>p. rank_runner p = r) ps)"
proof -
  note filter_with_hidden [OF assms, of r]
  then show ?thesis
    by (simp add: my_connections_def connected_rank_def comp_def split_def)
qed

lemma distinct_server_ranks:
  assumes "covering rs ss ps" "same_parts ps hs"
  shows "distinct (map csr_server_rank (my_connections r ps hs))"
proof -
  have "distinct (map (\<lambda>p. (rank_runner p, rank_server p)) ps)"
    using assms(1) by (auto simp: covering_def dest: part_before_distinct)
  then have "distinct (map rank_server (filter (\<lambda>p. rank_runner p = r) ps))"
    by (induction ps) (auto simp: image_iff)
  then show ?thesis by (simp only: map_csr_server_rank [OF assms(2)])
qed

text \<open>
  The field as it was registered, the redistribution of both state vectors, and a runner rank
  that knows the ports of all server ranks and has no connection yet.
\<close>

definition agreed :: "nat \<Rightarrow> nat \<Rightarrow> nat \<Rightarrow> part list \<Rightarrow> part list \<Rightarrow> field \<Rightarrow> bool" where
  "agreed c b bh ps hs f \<longleftrightarrow> (\<forall>q < c. calculate_parts_pre c q b bh ps hs f) \<and> 0 < c"

definition unconnected :: "nat \<Rightarrow> nat \<Rightarrow> runner_rank \<Rightarrow> bool" where
  "unconnected c r s \<longleftrightarrow> rn_comm_rank s = int r \<and> si_comm_size (rn_server s) = int c \<and>
     length (port_names (rn_server s)) = c \<and> connected_server_ranks (api_field s) = []"

lemma agreed_covering:
  assumes "agreed c b bh ps hs f"
  shows "covering (local_vect_sizes_runner f) (even_split c (sum_list (local_vect_sizes_runner f) div b) b) ps"
    and "hs \<noteq> [] \<Longrightarrow> covering (local_vect_sizes_runner_hidden f)
           (even_split c (sum_list (local_vect_sizes_runner_hidden f) div bh) bh) hs"
    and "same_parts ps hs"
  using assms calculate_n_to_m_covering [of c "local_vect_sizes_runner f" b]
    calculate_n_to_m_covering [of c "local_vect_sizes_runner_hidden f" bh]
  by (auto simp: agreed_def calculate_parts_pre_def)

lemma initConnections_ok:
  assumes ag: "agreed c b bh ps hs f" and un: "unconnected c r s"
  shows "\<exists>s'. initConnections (local_vect_sizes_runner f) (local_vect_sizes_runner_hidden f) (int b) (int bh) s = Inr s' \<and>
     connections_opened (my_connections (int r) ps hs) s s' \<and>
     connected_server_ranks (api_field s') = my_connections (int r) ps hs"
proof -
  have calc: "calculate_n_to_m (int c) (local_vect_sizes_runner f) (int b) = Inr ps"
      "calculate_n_to_m (int c) (local_vect_sizes_runner_hidden f) (int bh) = Inr hs"
    using ag by (auto simp: agreed_def calculate_parts_pre_def)
  have len: "length hs = 0 \<or> length hs = length ps"
    using agreed_covering(3) [OF ag] by (auto simp: same_parts_def dest: map_eq_imp_length_eq)
  have "ports_known ps s"
    using un covering_server_bounds [OF agreed_covering(1) [OF ag]] agreed_covering(1) [OF ag]
    by (auto simp: ports_known_def unconnected_def index_ok_def covering_def)
  then obtain s' where "init_connections_loop ps hs s = Inr s'"
      "connections_opened (my_connections (int r) ps hs) s s'"
    using init_connections_loop_ok agreed_covering(3) [OF ag] un unfolding unconnected_def by metis
  moreover from this have "connected_server_ranks (api_field s') = my_connections (int r) ps hs"
    using un by (auto simp: connections_opened_def with_connections_def unconnected_def)
  ultimately show ?thesis
    using calc len un by (simp add: initConnections_def unconnected_def)
qed

lemma agreed_field:
  assumes "agreed c b bh ps hs f" "q < c" "calculate_parts (int q) (int c) f = Inr f'"
  shows "parts f' = ps" "parts_hidden f' = hs" "field_ready (int q) f'" "ps \<noteq> []"
    "length (ensemble_members f') = length (ensemble_members f)"
    "local_vect_size f' = even_split c (sum_list (local_vect_sizes_runner f) div b) b ! q"
    "set (connected_runner_ranks f') = rank_runner ` {p \<in> set ps. rank_server p = int q}"
    "hs \<noteq> [] \<Longrightarrow> local_vect_size_hidden f' =
       even_split c (sum_list (local_vect_sizes_runner_hidden f) div bh) bh ! q"
    "hs = [] \<Longrightarrow> local_vect_size_hidden f' = 0"
proof -
  have pre: "calculate_parts_pre c q b bh ps hs f" using assms by (simp add: agreed_def)
  from calculate_parts_ok [OF pre] assms(3)
  show "parts f' = ps" "parts_hidden f' = hs" "field_ready (int q) f'"
    "length (ensemble_members f') = length (ensemble_members f)"
    "local_vect_size f' = even_split c (sum_list (local_vect_sizes_runner f) div b) b ! q"
    "set (connected_runner_ranks f') = rank_runner ` {p \<in> set ps. rank_server p = int q}"
    "hs \<noteq> [] \<Longrightarrow> local_vect_size_hidden f' =
       even_split c (sum_list (local_vect_sizes_runner_hidden f) div bh) bh ! q"
    "hs = [] \<Longrightarrow> local_vect_size_hidden f' = 0"
    by auto
  have "0 < even_split c (sum_list (local_vect_sizes_runner f) div b) b ! q"
    using pre by (simp add: calculate_parts_pre_def)
  with covering_served [OF agreed_covering(1) [OF assms(1)], of q] assms(2) show "ps \<noteq> []" by auto
qed

lemma agreed_getPart:
  assumes "agreed c b bh ps hs f" "q < c" "calculate_parts (int q) (int c) f = Inr f'"
  shows "getPart (int q) i f' = part_of (int q) i ps"
    and "getPartHidden (int q) i f' = (if hs = [] then Inr null_part else part_of (int q) i hs)"
  using agreed_field [OF assms] by (simp_all add: getPart_def getPartHidden_def)

text \<open>
  C20. Both sides of the protocol compute the same redistribution. A runner rank opens one
  connection to each server rank that has a part for it, and to no other; for each connection
  the server rank, asked with getPart and getPartHidden, answers with parts of exactly the sizes
  the runner rank will send, taken from the offsets it will send from.
\<close>

theorem connections_match_parts:
  assumes "agreed c b bh ps hs f" "unconnected c r s" "q < c" "calculate_parts (int q) (int c) f = Inr f'"
  shows "\<exists>s'. initConnections (local_vect_sizes_runner f) (local_vect_sizes_runner_hidden f) (int b) (int bh) s = Inr s' \<and>
     distinct (map csr_server_rank (connected_server_ranks (api_field s'))) \<and>
     (int q \<in> csr_server_rank ` set (connected_server_ranks (api_field s')) \<longleftrightarrow>
        (\<exists>p. getPart (int q) (int r) f' = Inr p)) \<and>
     (\<forall>d \<in> set (connected_server_ranks (api_field s')). csr_server_rank d = int q \<longrightarrow>
        (\<exists>p h. getPart (int q) (int r) f' = Inr p \<and> getPartHidden (int q) (int r) f' = Inr h \<and> connection_of p h d))"
proof -
  note cov = agreed_covering [OF assms(1)] and get = agreed_getPart [OF assms(1,3,4)]
  obtain s' where s': "initConnections (local_vect_sizes_runner f) (local_vect_sizes_runner_hidden f) (int b) (int bh) s = Inr s'"
      "connected_server_ranks (api_field s') = my_connections (int r) ps hs"
    using initConnections_ok [OF assms(1,2)] by blast
  have sound: "\<exists>p h. part_of (int q) (int r) ps = Inr p \<and>
      (if hs = [] then Inr null_part else part_of (int q) (int r) hs) = Inr h \<and> connection_of p h d"
    if "d \<in> set (my_connections (int r) ps hs)" "csr_server_rank d = int q" for d
    using my_connections_parts [OF that(1) cov(3,1,2)] that(2) by metis
  have "\<exists>d \<in> set (my_connections (int r) ps hs). csr_server_rank d = int q"
    if "part_of (int q) (int r) ps = Inr p" for p
    using my_connections_exists [OF _ _ cov(3)] that part_of_covering [OF cov(1)] by metis
  with sound have "int q \<in> csr_server_rank ` set (my_connections (int r) ps hs) \<longleftrightarrow>
      (\<exists>p. part_of (int q) (int r) ps = Inr p)" by force
  with s' sound distinct_server_ranks [OF cov(1,3)] show ?thesis by (simp add: get)
qed

definition example_runner :: "int \<Rightarrow> runner_rank" where
  "example_runner r = \<lparr>rn_runner_id = 3, rn_comm_rank = r, rn_comm_size = 2, rn_phase = PHASE_INIT,
     rn_ccon = Null, rn_server = \<lparr>si_comm_size = 2, port_names = [''tcp://a:5000'', ''tcp://b:5001'']\<rparr>,
     server_ranks = [], api_field = new_api_field ''state'' 1 0 [], last_step = -2,
     rn_report_timing = False, context_open = True, awaiting = [], node_name = ''b'',
     max_processor_name = 256, env_runner_id = Some 3, rn_inbox = (\<lambda>_. []), ccon_inbox = [], rn_out = []\<rparr>"

lemma example_agreed: "agreed 2 1 1 example_parts [] example_field"
proof -
  have "calculate_parts_pre 2 1 1 1 example_parts [] example_field"
    using example_field_pre by (simp add: calculate_parts_pre_def example_field_def even_split_def)
  with example_field_pre show ?thesis by (auto simp: agreed_def less_Suc_eq numeral_2_eq_2)
qed

lemma example_unconnected: "unconnected 2 r (example_runner (int r))"
  by (simp add: unconnected_def example_runner_def new_api_field_def)

theorem connections_match_parts_witness:
  "\<exists>s'. initConnections [1, 2] [0, 0] (int 1) (int 1) (example_runner (int 1)) = Inr s' \<and>
     distinct (map csr_server_rank (connected_server_ranks (api_field s'))) \<and>
     (int 0 \<in> csr_server_rank ` set (connected_server_ranks (api_field s')) \<longleftrightarrow>
        (\<exists>p. getPart (int 0) (int 1) example_ready = Inr p)) \<and>
     (\<forall>d \<in> set (connected_server_ranks (api_field s')). csr_server_rank d = int 0 \<longrightarrow>
        (\<exists>p h. getPart (int 0) (int 1) example_ready = Inr p \<and>
           getPartHidden (int 0) (int 1) example_ready = Inr h \<and> connection_of p h d))"
  using connections_match_parts [OF example_agreed example_unconnected, of 0 example_ready 1]
    example_calculate_parts by (simp add: example_field_def)

section \<open>A request arrives\<close>

definition can_put :: "byte list \<Rightarrow> byte list \<Rightarrow> runner_rank \<Rightarrow> bool" where
  "can_put buf buf_hidden s \<longleftrightarrow> can_request (connected_server_ranks (api_field s)) s \<and>
     (\<forall>c \<in> set (connected_server_ranks (api_field s)). fits buf buf_hidden c)"

definition put_done :: "byte list \<Rightarrow> byte list \<Rightarrow> string \<Rightarrow> runner_rank \<Rightarrow> runner_rank" where
  "put_done buf buf_hidden name s =
     (let cs = connected_server_ranks (api_field s);
          s = requested cs (requests cs buf buf_hidden name s) s
      in s\<lparr>api_field := (api_field s)\<lparr>current_state_id := -1\<rparr>\<rparr>)"

lemma putState_ok: "can_put buf buf_hidden s \<Longrightarrow> putState buf buf_hidden name s = Inr (put_done buf buf_hidden name s)"
  by (simp add: can_put_def putState_def put_parts_ok put_done_def Let_def)

lemma put_done_simps [simp]:
  "rn_out (put_done buf buf_hidden name s) = rn_out s @ requests (connected_server_ranks (api_field s)) buf buf_hidden name s"
  "current_state_id (api_field (put_done buf buf_hidden name s)) = -1"
  "connected_server_ranks (api_field (put_done buf buf_hidden name s)) = connected_server_ranks (api_field s)"
  "awaiting (put_done buf buf_hidden name s) =
     rev (map csr_server_rank (connected_server_ranks (api_field s))) @ awaiting s"
  "rn_phase (put_done buf buf_hidden name s) = rn_phase s"
  "rn_inbox (put_done buf buf_hidden name s) = rn_inbox s"
  by (simp_all add: put_done_def requested_def Let_def)

text \<open>What a ROUTER socket hands to the server: the frames of the request behind the identity of
  its sender and the delimiter of the REQ socket.\<close>

definition delivered :: "identity \<Rightarrow> (frame \<times> bool) list \<Rightarrow> (frame \<times> bool) list" where
  "delivered ident fs = (Bytes ident, True) # (empty_frame, True) # fs"

lemma recv_request:
  assumes "data_socket t = delivered ident (request_frames [r, rr, sid, step] name v h) @ rest"
    and "IDENTITY_SIZE t = 0 \<or> IDENTITY_SIZE t = length ident"
  shows "recv_response t = Inr (\<lparr>rp_identity = ident, rp_runner_id = r, rp_runner_rank = rr, rp_state_id = sid,
      rp_timestep = step, rp_field_name = name, rp_data = v, rp_more = (h \<noteq> [])\<rparr>,
     t\<lparr>data_socket := (if h \<noteq> [] then [(Bytes h, False)] else []) @ rest, IDENTITY_SIZE := length ident\<rparr>)"
  using assms
  by (simp add: recv_response_def recv_four_def recv_def delivered_def request_frames_def frame_bytes_def
      empty_frame_def header_fields_def Let_def)

text \<open>
  What putState sends to a server rank is one request, and the server rank reads it as a
  response with the runner's id and rank, the state and step it worked on, the name of the field
  and exactly the bytes of the part; the hidden part, if there is one, is the next frame. After
  putState the runner works on no state.
\<close>

theorem request_is_received:
  assumes "can_put buf buf_hidden s" "c \<in> set (connected_server_ranks (api_field s))"
    and "putState buf buf_hidden name s = Inr s'"
    and "data_socket t = delivered ident
           (sent_to (csr_server_rank c) (drop (length (rn_out s)) (rn_out s'))) @ rest"
    and "IDENTITY_SIZE t = 0 \<or> IDENTITY_SIZE t = length ident"
  shows "recv_response t = Inr
     (\<lparr>rp_identity = ident, rp_runner_id = rn_runner_id s, rp_runner_rank = rn_comm_rank s,
       rp_state_id = current_state_id (api_field s), rp_timestep = af_current_step (api_field s),
       rp_field_name = take (max_processor_name s) name,
       rp_data = subvec (local_vector_offset c) (csr_send_count c) buf,
       rp_more = (send_count_hidden c > 0)\<rparr>,
      t\<lparr>data_socket := (if send_count_hidden c > 0
                        then [(Bytes (subvec (local_vector_offset_hidden c) (send_count_hidden c) buf_hidden), False)]
                        else []) @ rest, IDENTITY_SIZE := length ident\<rparr>) \<and>
     current_state_id (api_field s') = -1"
proof -
  have s': "s' = put_done buf buf_hidden name s" using assms(1,3) by (simp add: putState_ok)
  have "distinct (map csr_server_rank (connected_server_ranks (api_field s)))"
    using assms(1) by (simp add: can_put_def can_request_def)
  then have fs: "sent_to (csr_server_rank c) (drop (length (rn_out s)) (rn_out s')) = request_of buf buf_hidden name s c"
    using assms(2) by (simp add: s' sent_to_requests)
  have "length (subvec (local_vector_offset_hidden c) (send_count_hidden c) buf_hidden) = send_count_hidden c"
    using assms(1,2) by (auto simp: can_put_def fits_def layout_simps)
  then have "subvec (local_vector_offset_hidden c) (send_count_hidden c) buf_hidden \<noteq> [] \<longleftrightarrow> send_count_hidden c > 0"
    by (metis length_greater_0_conv)
  with recv_request [OF assms(4)[unfolded fs request_of_def] assms(5)] show ?thesis
    by (simp add: s' cong: if_cong)
qed

definition example_connections :: "connected_server_rank list" where
  "example_connections =
     [\<lparr>csr_send_count = 1, local_vector_offset = 0, send_count_hidden = 0,
       local_vector_offset_hidden = 0, csr_server_rank = 0\<rparr>,
      \<lparr>csr_send_count = 1, local_vector_offset = 1, send_count_hidden = 0,
       local_vector_offset_hidden = 0, csr_server_rank = 1\<rparr>]"

definition example_connected :: runner_rank where
  "example_connected = (example_runner 1)\<lparr>
     server_ranks := [(0, ''tcp://a:5000''), (1, ''tcp://127.0.0.1:5001'')],
     api_field := new_api_field ''state'' 2 0 example_connections\<rparr>"

lemma example_init_connections:
  "initConnections [1, 2] [0, 0] 1 1 ((example_runner 1)\<lparr>api_field := new_api_field ''state'' 2 0 []\<rparr>) =
     Inr example_connected"
proof -
  have "calculate_n_to_m 2 [1, 2] 1 = Inr example_parts" "calculate_n_to_m 2 [0, 0] 1 = Inr []"
    by (simp_all add: example_parts_def n_to_m_eval cong: and_then_weak_cong let_weak_cong)
  then show ?thesis
    by (simp add: initConnections_def example_runner_def example_connected_def example_parts_def
        add_connection_def get_server_rank_def index_ok_def connected_rank_def fix_port_name_def
        example_connections_def new_api_field_def cong: and_then_weak_cong let_weak_cong)
qed

lemma example_can_put: "can_put [5, 6] [] example_connected"
  by (simp add: can_put_def can_request_def fits_def example_connected_def example_runner_def new_api_field_def
      example_connections_def)

text \<open>The same server rank with one request of runner rank 1 on its data socket.\<close>

definition example_requested :: "stepper server" where
  "example_requested = example_server\<lparr>data_socket := delivered [9]
     (request_frames [3, 1, -1, 0] ''state'' [5] []) @ []\<rparr>"

theorem request_is_received_witness:
  "recv_response example_requested = Inr
     (\<lparr>rp_identity = [9], rp_runner_id = 3, rp_runner_rank = 1, rp_state_id = -1, rp_timestep = 0,
       rp_field_name = ''state'', rp_data = [5], rp_more = False\<rparr>,
      example_requested\<lparr>data_socket := [], IDENTITY_SIZE := 1\<rparr>) \<and>
     current_state_id (api_field (put_done [5, 6] [] ''state'' example_connected)) = -1"
proof -
  have fs: "delivered [9] (sent_to 0 (drop (length (rn_out example_connected))
      (rn_out (put_done [5, 6] [] ''state'' example_connected)))) @ [] = data_socket example_requested"
    by (simp add: requests_def request_of_def request_frames_def sent_to_def example_connected_def
        example_runner_def new_api_field_def example_connections_def example_requested_def subvec_def)
  show ?thesis
    using request_is_received [OF example_can_put _ putState_ok [OF example_can_put], of "hd example_connections"
        example_requested "[9]" "''state''" "[]"] fs
    by (simp add: example_connected_def example_runner_def new_api_field_def example_connections_def
        example_requested_def example_server_def subvec_def)
qed

section \<open>An answer arrives\<close>

lemma data_frames_simps [simp]:
  "data_frames [] = []"
  "data_frames (Data_send f b # as) = (f, b) # data_frames as"
  "data_frames (Trigger ev p # as) = data_frames as"
  "data_frames (as @ bs) = data_frames as @ data_frames bs"
  by (simp_all add: data_frames_def)

lemma launch_frames:
  assumes "launch_sub_task (Some ident) r sid t = Inr t'"
    and "getPart (comm_rank t) r (the_field t) = Inr p" "getPartHidden (comm_rank t) r (the_field t) = Inr h"
  shows "\<exists>em. at (ensemble_members (the_field t)) sid = Inr em \<and>
    local_offset_server p + send_count p \<le> length (state_analysis em) \<and>
    (send_count h > 0 \<longrightarrow> local_offset_server h + send_count h \<le> length (state_hidden em)) \<and>
    data_frames (drop (length (out t)) (out t')) =
     delivered ident (answer_frames [sid, current_step t, CHANGE_STATE, current_nsteps t]
       (subvec (local_offset_server p) (send_count p) (state_analysis em))
       (subvec (local_offset_server h) (send_count h) (state_hidden em)))"
proof -
  obtain em v hid where em: "at (ensemble_members (the_field t)) sid = Inr em"
      and v: "read_vec p (state_analysis em) = Inr v" and hid: "read_hidden h (state_hidden em) = Inr hid"
      and t': "out t' = out t @ launch_header_frames ident [sid, current_step t, CHANGE_STATE, current_nsteps t] @
        (if r = 0 \<and> report_timing t \<and> comm_rank t = 0 then [Trigger ''START_PROPAGATE_STATE'' sid] else []) @
        launch_data_frames v hid"
    using assms
    by (auto simp: launch_sub_task_def and_then_Inr_iff Let_def trigger_def split: if_splits)
  have v': "v = subvec (local_offset_server p) (send_count p) (state_analysis em)"
      "local_offset_server p + send_count p \<le> length (state_analysis em)"
    using v by (auto simp: read_vec_def split: if_splits)
  show ?thesis
  proof (cases "send_count h > 0")
    case True
    then have h: "hid = Some (subvec (local_offset_server h) (send_count h) (state_hidden em))"
        "local_offset_server h + send_count h \<le> length (state_hidden em)"
      using hid by (auto simp: read_hidden_def read_vec_def and_then_Inr_iff split: if_splits)
    then have "subvec (local_offset_server h) (send_count h) (state_hidden em) \<noteq> []"
      using True by (auto simp: subvec_def)
    with em v' h t' show ?thesis
      by (auto simp: delivered_def answer_frames_def launch_header_frames_def launch_data_frames_def empty_frame_def)
  next
    case False
    then have "hid = None" using hid by (simp add: read_hidden_def)
    with False em v' t' show ?thesis
      by (auto simp: delivered_def answer_frames_def launch_header_frames_def launch_data_frames_def empty_frame_def)
  qed
qed

definition waiting_for :: "connected_server_rank \<Rightarrow> (frame \<times> bool) list \<Rightarrow> runner_rank \<Rightarrow> bool" where
  "waiting_for c fs s \<longleftrightarrow> rn_inbox s (csr_server_rank c) = fs \<and> csr_server_rank c \<in> set (awaiting s)"

text \<open>
  The answer launch\_sub\_task gives to a connected runner rank is accepted by its receive:
  the runner rank gets the number of steps, the state id and the time step the server chose, and
  its buffers hold the bytes of the analysis state and of the hidden state of its parts, all
  other bytes as they were. Its socket can send again.
\<close>

theorem answer_is_received:
  assumes "launch_sub_task (Some ident) r sid t = Inr t'"
    and "getPart (comm_rank t) r (the_field t) = Inr p" "getPartHidden (comm_rank t) r (the_field t) = Inr h"
    and "connection_of p h c" "fits buf buf_hidden c"
    and "delivered ident fs = data_frames (drop (length (out t)) (out t'))" "waiting_for c fs s"
  shows "\<exists>em. at (ensemble_members (the_field t)) sid = Inr em \<and>
    connection_receive c buf buf_hidden s = Inr (current_nsteps t,
      copy_into (local_offset_runner p) (subvec (local_offset_server p) (send_count p) (state_analysis em)) buf,
      copy_into (local_offset_runner h) (subvec (local_offset_server h) (send_count h) (state_hidden em)) buf_hidden,
      answered c sid (current_step t) [] s)"
proof -
  obtain em where em: "at (ensemble_members (the_field t)) sid = Inr em"
    "local_offset_server p + send_count p \<le> length (state_analysis em)"
    "send_count h > 0 \<longrightarrow> local_offset_server h + send_count h \<le> length (state_hidden em)"
    "fs = answer_frames [sid, current_step t, CHANGE_STATE, current_nsteps t]
       (subvec (local_offset_server p) (send_count p) (state_analysis em))
       (subvec (local_offset_server h) (send_count h) (state_hidden em))"
    using launch_frames [OF assms(1-3)] assms(6) by (auto simp: delivered_def)
  have "holds_answer [sid, current_step t, CHANGE_STATE, current_nsteps t]
       (subvec (local_offset_server p) (send_count p) (state_analysis em))
       (subvec (local_offset_server h) (send_count h) (state_hidden em)) [] c s"
    using em assms(4,7)
    by (cases "send_count h > 0") (auto simp: holds_answer_def waiting_for_def connection_of_def layout_simps)
  with em(1) assms(4,5) show ?thesis
    by (auto simp: connection_receive_ok connection_of_def)
qed

text \<open>Server rank 0 gives state 1 to runner rank 1.\<close>

definition example_launched :: "stepper server" where
  "example_launched = example_server\<lparr>out := launch_header_frames [9] [1, 1, CHANGE_STATE, 1] @
     launch_data_frames [0] None\<rparr>"

lemma example_launch: "launch_sub_task (Some [9]) 1 1 example_server = Inr example_launched"
  by (simp add: launch_sub_task_def example_server_def example_launched_def example_ready_simps emits_def at_def
      read_vec_def read_hidden_def null_part_def subvec_def example_parts_def numeral_2_eq_2 Let_def
      cong: and_then_weak_cong)

definition example_waiting :: runner_rank where
  "example_waiting = example_connected\<lparr>awaiting := [0, 1],
     rn_inbox := (\<lambda>_. [])(0 := answer_frames [1, 1, CHANGE_STATE, 1] [0] [])\<rparr>"

theorem answer_is_received_witness:
  "\<exists>em. at (ensemble_members (the_field example_server)) 1 = Inr em \<and>
    connection_receive (hd example_connections) [5, 6] [] example_waiting = Inr (current_nsteps example_server,
      copy_into (local_offset_runner (example_parts ! 1))
        (subvec (local_offset_server (example_parts ! 1)) (send_count (example_parts ! 1)) (state_analysis em)) [5, 6],
      copy_into (local_offset_runner null_part)
        (subvec (local_offset_server null_part) (send_count null_part) (state_hidden em)) [],
      answered (hd example_connections) 1 (current_step example_server) [] example_waiting)"
proof (rule answer_is_received [OF example_launch])
  show "getPart (comm_rank example_server) 1 (the_field example_server) = Inr (example_parts ! 1)"
    and "getPartHidden (comm_rank example_server) 1 (the_field example_server) = Inr null_part"
    by (simp_all add: example_server_def example_ready_simps)
  show "connection_of (example_parts ! 1) null_part (hd example_connections)"
    and "fits [5, 6] [] (hd example_connections)"
    by (simp_all add: connection_of_def fits_def example_parts_def example_connections_def null_part_def)
  show "delivered [9] (answer_frames [1, 1, CHANGE_STATE, 1] [0] []) =
      data_frames (drop (length (out example_server)) (out example_launched))"
    by (simp add: example_launched_def example_server_def delivered_def answer_frames_def
        launch_header_frames_def launch_data_frames_def)
  show "waiting_for (hd example_connections) (answer_frames [1, 1, CHANGE_STATE, 1] [0] []) example_waiting"
    by (simp add: waiting_for_def example_waiting_def example_connections_def)
qed

section \<open>All ranks together\<close>

text \<open>
  A server rank stores, for one ensemble member, what the runner ranks of a list sent, in the
  order of the list: for each the parts it looks up and the frames behind the header.
\<close>

fun store_all :: "int \<Rightarrow> field \<Rightarrow> (int \<Rightarrow> byte list \<times> byte list) \<Rightarrow> int list \<Rightarrow> ensemble_member \<Rightarrow> ensemble_member res" where
  "store_all q f sent [] em = Inr em"
| "store_all q f sent (i # is) em =
     and_then (getPart q i f) (\<lambda>p.
     and_then (getPartHidden q i f) (\<lambda>h.
     and_then (store_background_state_part p (Some (fst (sent i))) h (hidden_values h (snd (sent i))) em)
       (store_all q f sent is)))"

definition sized :: "field \<Rightarrow> ensemble_member \<Rightarrow> bool" where
  "sized f em \<longleftrightarrow> length (state_background em) = local_vect_size f \<and>
     length (state_analysis em) = local_vect_size f \<and> length (state_hidden em) = local_vect_size_hidden f"

definition stored_part :: "int \<Rightarrow> field \<Rightarrow> int \<Rightarrow> ensemble_member \<Rightarrow> (byte list \<times> byte list) res" where
  "stored_part q f i em =
     and_then (getPart q i f) (\<lambda>p. and_then (getPartHidden q i f) (\<lambda>h.
      Inr (subvec (local_offset_server p) (send_count p) (state_background em),
           subvec (local_offset_server h) (send_count h) (state_hidden em))))"

definition sent_sizes :: "int \<Rightarrow> field \<Rightarrow> (int \<Rightarrow> byte list \<times> byte list) \<Rightarrow> bool" where
  "sent_sizes q f sent \<longleftrightarrow> (\<forall>i \<in> set (connected_runner_ranks f). \<forall>p h.
     getPart q i f = Inr p \<longrightarrow> getPartHidden q i f = Inr h \<longrightarrow>
     length (fst (sent i)) = send_count p \<and> length (snd (sent i)) = send_count h)"

lemma ready_parts:
  assumes "field_ready q f" "i \<in> set (connected_runner_ranks f)"
  obtains p h where "getPart q i f = Inr p" "getPartHidden q i f = Inr h"
    "local_offset_server p + send_count p \<le> local_vect_size f"
    "local_offset_server h + send_count h \<le> local_vect_size_hidden f"
proof -
  have "\<exists>p. getPart q i f = Inr p \<and> local_offset_server p + send_count p \<le> local_vect_size f"
      "\<exists>h. getPartHidden q i f = Inr h \<and> local_offset_server h + send_count h \<le> local_vect_size_hidden f"
    using assms by (auto simp: field_ready_def parts_usable_def)
  with that show ?thesis by blast
qed

lemma store_one:
  assumes f: "field_ready q f" "sized f em" "i \<in> set (connected_runner_ranks f)" "sent_sizes q f sent"
  obtains p h em' where "getPart q i f = Inr p" "getPartHidden q i f = Inr h"
    "store_background_state_part p (Some (fst (sent i))) h (hidden_values h (snd (sent i))) em = Inr em'"
    "sized f em'" "stored_part q f i em' = Inr (sent i)"
    "\<And>j. j \<in> set (connected_runner_ranks f) \<Longrightarrow> j \<noteq> i \<Longrightarrow> stored_part q f j em' = stored_part q f j em"
proof -
  obtain p h where ph: "getPart q i f = Inr p" "getPartHidden q i f = Inr h"
    "local_offset_server p + send_count p \<le> local_vect_size f"
    "local_offset_server h + send_count h \<le> local_vect_size_hidden f"
    using ready_parts [OF f(1,3)] .
  have len: "length (fst (sent i)) = send_count p" "length (snd (sent i)) = send_count h"
    using f(3,4) ph(1,2) by (auto simp: sent_sizes_def)
  let ?f = "f\<lparr>ensemble_members := [em]\<rparr>"
  let ?em = "em\<lparr>state_background := copy_into (local_offset_server p) (fst (sent i)) (state_background em),
             state_hidden := copy_into (local_offset_server h) (snd (sent i)) (state_hidden em)\<rparr>"
  have "field_ready q ?f"
    using f(1,2) by (simp add: field_ready_def members_sized_def sized_def getPart_def getPartHidden_def cong: if_cong)
  moreover have "getPart q i ?f = Inr p" "getPartHidden q i ?f = Inr h"
    using ph by (simp_all add: getPart_def getPartHidden_def cong: if_cong)
  ultimately have st: "store_background_state_part p (Some (fst (sent i))) h (hidden_values h (snd (sent i))) em = Inr ?em"
    using store_part_ok [of q ?f em i p "fst (sent i)" h "snd (sent i)"] f(3) len by simp
  have sz: "sized f ?em" using f(2) ph len by (simp add: sized_def layout_simps)
  have here: "stored_part q f i ?em = Inr (sent i)"
    using ph f(2) len subvec_copy_into [of "local_offset_server p" "fst (sent i)" "state_background em"]
      subvec_copy_into [of "local_offset_server h" "snd (sent i)" "state_hidden em"]
    by (simp add: stored_part_def sized_def)
  have us: "parts_usable (connected_runner_ranks f) (local_vect_size f) (\<lambda>i. getPart q i f)"
      "parts_usable (connected_runner_ranks f) (local_vect_size_hidden f) (\<lambda>i. getPartHidden q i f)"
    using f(1) by (auto simp: field_ready_def)
  have other: "stored_part q f j ?em = stored_part q f j em" if j: "j \<in> set (connected_runner_ranks f)" "j \<noteq> i" for j
  proof -
    obtain p' h' where ph': "getPart q j f = Inr p'" "getPartHidden q j f = Inr h'"
      "local_offset_server p' + send_count p' \<le> local_vect_size f"
      "local_offset_server h' + send_count h' \<le> local_vect_size_hidden f"
      using ready_parts [OF f(1) j(1)] .
    have "subvec (local_offset_server p') (send_count p') (state_background ?em) =
        subvec (local_offset_server p') (send_count p') (state_background em)"
      using usable_disjoint [OF us(1) f(3) j(1) j(2)[symmetric] ph(1) ph'(1)] ph ph' f(2) len
      by (simp, intro subvec_copy_into_disjoint) (auto simp: sized_def)
    moreover have "subvec (local_offset_server h') (send_count h') (state_hidden ?em) =
        subvec (local_offset_server h') (send_count h') (state_hidden em)"
      using usable_disjoint [OF us(2) f(3) j(1) j(2)[symmetric] ph(2) ph'(2)] ph ph' f(2) len
      by (simp, intro subvec_copy_into_disjoint) (auto simp: sized_def)
    ultimately show ?thesis by (simp add: stored_part_def ph')
  qed
  from that [OF ph(1,2) st sz here other] show ?thesis by blast
qed

lemma store_all_ok:
  assumes "field_ready q f" "sized f em" "set is \<subseteq> set (connected_runner_ranks f)" "distinct is" "sent_sizes q f sent"
  shows "\<exists>em'. store_all q f sent is em = Inr em' \<and> sized f em' \<and>
     (\<forall>i \<in> set is. stored_part q f i em' = Inr (sent i)) \<and>
     (\<forall>j \<in> set (connected_runner_ranks f) - set is. stored_part q f j em' = stored_part q f j em)"
  using assms(2-4)
proof (induction "is" arbitrary: em)
  case (Cons i "is")
  have i: "i \<in> set (connected_runner_ranks f)" using Cons.prems(2) by simp
  obtain p h em1 where em1: "getPart q i f = Inr p" "getPartHidden q i f = Inr h"
    "store_background_state_part p (Some (fst (sent i))) h (hidden_values h (snd (sent i))) em = Inr em1"
    "sized f em1" "stored_part q f i em1 = Inr (sent i)"
    "\<And>j. j \<in> set (connected_runner_ranks f) \<Longrightarrow> j \<noteq> i \<Longrightarrow> stored_part q f j em1 = stored_part q f j em"
    using store_one [OF assms(1) Cons.prems(1) i assms(5)] by blast
  obtain em' where em': "store_all q f sent is em1 = Inr em'" "sized f em'"
     "\<forall>i \<in> set is. stored_part q f i em' = Inr (sent i)"
     "\<forall>j \<in> set (connected_runner_ranks f) - set is. stored_part q f j em' = stored_part q f j em1"
    using Cons.IH [OF em1(4)] Cons.prems by auto
  have "store_all q f sent (i # is) em = Inr em'" using em1 em' by simp
  moreover have "\<forall>j \<in> set (i # is). stored_part q f j em' = Inr (sent j)"
    using em1(5) em'(3,4) i Cons.prems(3) by auto
  moreover have "\<forall>j \<in> set (connected_runner_ranks f) - set (i # is). stored_part q f j em' = stored_part q f j em"
    using em1(6) em'(4) by auto
  ultimately show ?case using em'(2) by blast
qed simp

text \<open>A runner rank after its initialisation.\<close>

definition joined :: "nat \<Rightarrow> nat \<Rightarrow> nat \<Rightarrow> field \<Rightarrow> nat \<Rightarrow> runner_rank \<Rightarrow> bool" where
  "joined c b bh f r s \<longleftrightarrow> (\<exists>s0. unconnected c r s0 \<and> rn_runner_id s0 \<noteq> -1 \<and> awaiting s0 = [] \<and>
     initConnections (local_vect_sizes_runner f) (local_vect_sizes_runner_hidden f) (int b) (int bh) s0 = Inr s)"

definition payload :: "(frame \<times> bool) list \<Rightarrow> byte list \<times> byte list" where
  "payload fs = (case fs of [_, (Bytes v, _)] \<Rightarrow> (v, []) | [_, (Bytes v, _), (Bytes h, _)] \<Rightarrow> (v, h) | _ \<Rightarrow> ([], []))"

definition sent_by :: "(nat \<Rightarrow> runner_rank) \<Rightarrow> (nat \<Rightarrow> runner_rank) \<Rightarrow> int \<Rightarrow> int \<Rightarrow> byte list \<times> byte list" where
  "sent_by s s' q i = payload (sent_to q (drop (length (rn_out (s (nat i)))) (rn_out (s' (nat i)))))"

lemma joined_fields:
  assumes "agreed c b bh ps hs f" "joined c b bh f r s"
  shows "connected_server_ranks (api_field s) = my_connections (int r) ps hs"
    and "can_request (my_connections (int r) ps hs) s" and "rn_comm_rank s = int r"
proof -
  obtain s0 where s0: "unconnected c r s0" "rn_runner_id s0 \<noteq> -1" "awaiting s0 = []"
     "initConnections (local_vect_sizes_runner f) (local_vect_sizes_runner_hidden f) (int b) (int bh) s0 = Inr s"
    using assms(2) by (auto simp: joined_def)
  with initConnections_ok [OF assms(1) s0(1)]
  have op: "connections_opened (my_connections (int r) ps hs) s0 s"
    and cs: "connected_server_ranks (api_field s) = my_connections (int r) ps hs" by auto
  show "connected_server_ranks (api_field s) = my_connections (int r) ps hs" by (rule cs)
  show "can_request (my_connections (int r) ps hs) s"
    using op s0(2,3) distinct_server_ranks [OF agreed_covering(1,3) [OF assms(1)]]
    by (auto simp: connections_opened_def with_connections_def can_request_def)
  show "rn_comm_rank s = int r" using op s0(1) by (auto simp: connections_opened_def unconnected_def)
qed

lemma my_connection_fits:
  assumes ag: "agreed c b bh ps hs f" and d: "d \<in> set (my_connections (int r) ps hs)" and r: "r < length xs"
    and xs: "map length xs = local_vect_sizes_runner f" and hx: "map length hx = local_vect_sizes_runner_hidden f"
  shows "fits (xs ! r) (hx ! r) d"
proof -
  note cov = agreed_covering [OF ag]
  obtain p h where ph: "p \<in> set ps" "rank_runner p = int r" "connection_of p h d"
    "(if hs = [] then Inr null_part else part_of (csr_server_rank d) (int r) hs) = Inr h"
    "hs \<noteq> [] \<longrightarrow> h \<in> set hs \<and> rank_runner h = int r"
    using my_connections_parts [OF d cov(3,1,2)] by metis
  have "local_offset_runner p + send_count p \<le> length (xs ! r)"
    using covering_runner_bounds [OF cov(1) ph(1)] ph(2) r by (simp flip: xs)
  moreover have "local_offset_runner h + send_count h \<le> length (hx ! r)"
  proof (cases "hs = []")
    case True
    then show ?thesis using ph(4) by (auto simp: null_part_def)
  next
    case False
    with ph(5) have h: "h \<in> set hs" "rank_runner h = int r" by auto
    from covering_runner_bounds [OF cov(2) [OF False] h(1)] h(2)
    have "r < length (map length hx)" "local_offset_runner h + send_count h \<le> map length hx ! r"
      unfolding hx by auto
    then show ?thesis by simp
  qed
  ultimately show ?thesis using ph(3) by (simp add: fits_def connection_of_def)
qed

lemma payload_request:
  assumes "fits buf buf_hidden d"
  shows "payload (request_of buf buf_hidden name s d) =
     (subvec (local_vector_offset d) (csr_send_count d) buf,
      subvec (local_vector_offset_hidden d) (send_count_hidden d) buf_hidden)"
  using assms by (auto simp: payload_def request_of_def request_frames_def)

lemma sent_part:
  assumes ag: "agreed c b bh ps hs f" and j: "joined c b bh f r (s r)" and r: "r < length xs"
    and xs: "map length xs = local_vect_sizes_runner f" and hx: "map length hx = local_vect_sizes_runner_hidden f"
    and p: "part_of q (int r) ps = Inr p"
    and h: "(if hs = [] then Inr null_part else part_of q (int r) hs) = Inr h"
    and s': "s' r = put_done (xs ! r) (hx ! r) name (s r)"
  shows "sent_by s s' q (int r) =
     (subvec (local_offset_runner p) (send_count p) (xs ! r),
      subvec (local_offset_runner h) (send_count h) (hx ! r))"
proof -
  note cov = agreed_covering [OF ag] and jf = joined_fields [OF ag j]
  have "p \<in> set ps" "rank_runner p = int r" "rank_server p = q"
    using p part_of_covering [OF cov(1)] by auto
  then obtain d where d: "d \<in> set (my_connections (int r) ps hs)" "csr_server_rank d = q"
    using my_connections_exists [OF _ _ cov(3)] by blast
  obtain p' h' where ph: "connection_of p' h' d" "part_of q (int r) ps = Inr p'"
    "(if hs = [] then Inr null_part else part_of q (int r) hs) = Inr h'"
    using my_connections_parts [OF d(1) cov(3,1,2)] d(2) by metis
  have ph': "p' = p" "h' = h" using ph p h by auto
  have "sent_to q (drop (length (rn_out (s r))) (rn_out (s' r))) = request_of (xs ! r) (hx ! r) name (s r) d"
    using sent_to_requests [OF _ d(1)] jf d(2) by (simp add: s' can_request_def)
  with payload_request [OF my_connection_fits [OF ag d(1) r xs hx]] ph(1) ph'
  show ?thesis by (simp add: sent_by_def connection_of_def)
qed

lemma server_concat:
  assumes cov: "covering (map length xs) ss ps" and len: "length ss = c"
    and vs: "\<And>q. q < c \<Longrightarrow> length (v q) = ss ! q"
    and part: "\<And>p q. p \<in> set ps \<Longrightarrow> rank_server p = int q \<Longrightarrow> q < c \<Longrightarrow>
      subvec (local_offset_server p) (send_count p) (v q) =
      subvec (local_offset_runner p) (send_count p) (xs ! nat (rank_runner p))"
  shows "concat (map v [0..<c]) = concat xs"
proof (rule covering_same_vector)
  have "map length (map v [0..<c]) = ss" using len vs by (auto intro: nth_equalityI)
  with cov show "covering (map length xs) (map length (map v [0..<c])) ps" by simp
  fix p assume p: "p \<in> set ps"
  obtain q where q: "rank_server p = int q" "q < c"
    using covering_server_bounds [OF cov p] cov p len by (auto simp: covering_def intro: that [of "nat (rank_server p)"])
  with part [OF p q] show "subvec (local_offset_server p) (send_count p) (map v [0..<c] ! nat (rank_server p)) =
      subvec (local_offset_runner p) (send_count p) (xs ! nat (rank_runner p))" by simp
qed

text \<open>
  One propagation of a member: \<open>xs\<close> and \<open>hx\<close> are the states of the runner ranks, \<open>s\<close> the
  runner ranks before they send, \<open>g\<close> the fields and \<open>em\<close> the member of the server ranks,
  \<open>order\<close> the order in which each server rank receives.
\<close>

definition exchange_setting ::
  "nat \<Rightarrow> nat \<Rightarrow> nat \<Rightarrow> part list \<Rightarrow> part list \<Rightarrow> field \<Rightarrow> byte list list \<Rightarrow> byte list list \<Rightarrow>
     (nat \<Rightarrow> runner_rank) \<Rightarrow> (nat \<Rightarrow> field) \<Rightarrow> bool" where
  "exchange_setting c b bh ps hs f xs hx s g \<longleftrightarrow> agreed c b bh ps hs f \<and>
     map length xs = local_vect_sizes_runner f \<and> map length hx = local_vect_sizes_runner_hidden f \<and>
     (\<forall>r < length xs. joined c b bh f r (s r)) \<and>
     (\<forall>q < c. calculate_parts (int q) (int c) f = Inr (g q))"

lemma setting_facts:
  assumes "exchange_setting c b bh ps hs f xs hx s g"
  shows "agreed c b bh ps hs f" "map length xs = local_vect_sizes_runner f"
    "map length hx = local_vect_sizes_runner_hidden f"
    "\<And>r. r < length xs \<Longrightarrow> joined c b bh f r (s r)"
    "\<And>q. q < c \<Longrightarrow> calculate_parts (int q) (int c) f = Inr (g q)"
  using assms by (auto simp: exchange_setting_def)

lemma setting_field:
  assumes "exchange_setting c b bh ps hs f xs hx s g" "q < c"
  shows "field_ready (int q) (g q)"
    "set (connected_runner_ranks (g q)) = rank_runner ` {p \<in> set ps. rank_server p = int q}"
    "local_vect_size (g q) = even_split c (sum_list (map length xs) div b) b ! q"
    "hs \<noteq> [] \<Longrightarrow> local_vect_size_hidden (g q) = even_split c (sum_list (map length hx) div bh) bh ! q"
    "getPart (int q) i (g q) = part_of (int q) i ps"
    "getPartHidden (int q) i (g q) = (if hs = [] then Inr null_part else part_of (int q) i hs)"
proof -
  note set = setting_facts [OF assms(1)]
  note af = agreed_field [OF set(1) assms(2) set(5) [OF assms(2)]]
    and gp = agreed_getPart [OF set(1) assms(2) set(5) [OF assms(2)]]
  show "field_ready (int q) (g q)" "set (connected_runner_ranks (g q)) = rank_runner ` {p \<in> set ps. rank_server p = int q}"
    "local_vect_size (g q) = even_split c (sum_list (map length xs) div b) b ! q"
    "hs \<noteq> [] \<Longrightarrow> local_vect_size_hidden (g q) = even_split c (sum_list (map length hx) div bh) bh ! q"
    "getPart (int q) i (g q) = part_of (int q) i ps"
    "getPartHidden (int q) i (g q) = (if hs = [] then Inr null_part else part_of (int q) i hs)"
    using af gp set(2,3) by simp_all
qed

lemma setting_rank:
  assumes "exchange_setting c b bh ps hs f xs hx s g" "q < c" "i \<in> set (connected_runner_ranks (g q))"
  obtains r p where "i = int r" "r < length xs" "p \<in> set ps" "rank_runner p = int r" "rank_server p = int q"
    "getPart (int q) i (g q) = Inr p"
proof -
  note set = setting_facts [OF assms(1)] and cov = agreed_covering [OF setting_facts(1) [OF assms(1)]]
  obtain p where p: "p \<in> set ps" "rank_server p = int q" "rank_runner p = i"
    using assms(3) setting_field(2) [OF assms(1,2)] by auto
  have "0 \<le> i" "nat i < length xs"
    using covering_runner_bounds [OF cov(1) p(1)] cov(1) p by (auto simp: covering_def simp flip: set(2))
  moreover have "getPart (int q) i (g q) = Inr p"
    using p part_of_covering [OF cov(1)] by (simp add: setting_field(5) [OF assms(1,2)])
  ultimately show ?thesis using p that [of "nat i" p] by simp
qed

lemma setting_put:
  assumes "exchange_setting c b bh ps hs f xs hx s g" "r < length xs"
  shows "putState (xs ! r) (hx ! r) name (s r) = Inr (put_done (xs ! r) (hx ! r) name (s r))"
proof -
  note set = setting_facts [OF assms(1)]
  show ?thesis
    using joined_fields [OF set(1) set(4) [OF assms(2)]] my_connection_fits [OF set(1) _ assms(2) set(2,3)]
    by (simp add: putState_ok can_put_def)
qed

lemma setting_sent:
  assumes st: "exchange_setting c b bh ps hs f xs hx s g" and q: "q < c"
    and i: "i \<in> set (connected_runner_ranks (g q))"
    and ph: "getPart (int q) i (g q) = Inr p" "getPartHidden (int q) i (g q) = Inr h"
    and s': "s' = (\<lambda>r. put_done (xs ! r) (hx ! r) name (s r))"
  shows "sent_by s s' (int q) i =
      (subvec (local_offset_runner p) (send_count p) (xs ! nat i), subvec (local_offset_runner h) (send_count h) (hx ! nat i))"
    and "local_offset_runner p + send_count p \<le> length (xs ! nat i)"
    and "local_offset_runner h + send_count h \<le> length (hx ! nat i)"
proof -
  note set = setting_facts [OF st] and cov = agreed_covering [OF setting_facts(1) [OF st]]
  obtain r p0 where r: "i = int r" "r < length xs" "p0 \<in> set ps" "rank_runner p0 = int r" "rank_server p0 = int q"
    "getPart (int q) i (g q) = Inr p0" using setting_rank [OF st q i] .
  have ph': "part_of (int q) (int r) ps = Inr p" "(if hs = [] then Inr null_part else part_of (int q) (int r) hs) = Inr h"
    using ph r(1) by (simp_all add: setting_field(5,6) [OF st q])
  from sent_part [where s = s and s' = s', OF set(1) set(4) [OF r(2)] r(2) set(2,3) ph', of name]
  show "sent_by s s' (int q) i =
      (subvec (local_offset_runner p) (send_count p) (xs ! nat i), subvec (local_offset_runner h) (send_count h) (hx ! nat i))"
    by (simp add: s' r(1))
  obtain d where d: "d \<in> set (my_connections (int r) ps hs)" "csr_server_rank d = int q"
    using my_connections_exists [OF r(3,4) cov(3)] r(5) by metis
  have "\<exists>p' h'. connection_of p' h' d \<and> part_of (int q) (int r) ps = Inr p' \<and>
    (if hs = [] then Inr null_part else part_of (int q) (int r) hs) = Inr h'"
    using my_connections_parts [OF d(1) cov(3,1,2)] d(2) by metis
  then have "connection_of p h d" using ph' by auto
  with my_connection_fits [OF set(1) d(1) r(2) set(2,3)]
  show "local_offset_runner p + send_count p \<le> length (xs ! nat i)"
    "local_offset_runner h + send_count h \<le> length (hx ! nat i)"
    by (simp_all add: fits_def connection_of_def r(1))
qed

text \<open>Every server rank holds what the runner ranks sent.\<close>

definition holds_all :: "nat \<Rightarrow> part list \<Rightarrow> part list \<Rightarrow> (nat \<Rightarrow> field) \<Rightarrow> byte list list \<Rightarrow> byte list list \<Rightarrow>
    (nat \<Rightarrow> ensemble_member) \<Rightarrow> bool" where
  "holds_all c ps hs g xs hx em \<longleftrightarrow> (\<forall>q < c. sized (g q) (em q)) \<and>
     (\<forall>q < c. \<forall>p \<in> set ps. rank_server p = int q \<longrightarrow>
        subvec (local_offset_server p) (send_count p) (state_background (em q)) =
        subvec (local_offset_runner p) (send_count p) (xs ! nat (rank_runner p))) \<and>
     (\<forall>q < c. \<forall>h \<in> set hs. rank_server h = int q \<longrightarrow>
        subvec (local_offset_server h) (send_count h) (state_hidden (em q)) =
        subvec (local_offset_runner h) (send_count h) (hx ! nat (rank_runner h)))"

lemma setting_store:
  assumes st: "exchange_setting c b bh ps hs f xs hx s g" and q: "q < c"
    and em: "em \<in> set (ensemble_members (g q))"
    and order: "distinct order" "set order = set (connected_runner_ranks (g q))"
    and s': "s' = (\<lambda>r. put_done (xs ! r) (hx ! r) name (s r))"
  shows "\<exists>em'. store_all (int q) (g q) (sent_by s s' (int q)) order em = Inr em' \<and> sized (g q) em' \<and>
      (\<forall>i \<in> set (connected_runner_ranks (g q)). stored_part (int q) (g q) i em' = Inr (sent_by s s' (int q) i))"
proof -
  note rf = setting_field(1) [OF st q]
  have "sized (g q) em" using member_lengths [OF rf em] by (simp add: sized_def)
  moreover have "sent_sizes (int q) (g q) (sent_by s s' (int q))"
    using setting_sent [OF st q _ _ _ s'] by (simp add: sent_sizes_def length_subvec)
  ultimately show ?thesis
    using store_all_ok [OF rf, of em order "sent_by s s' (int q)"] order by auto
qed

lemma stored_is_held:
  assumes st: "exchange_setting c b bh ps hs f xs hx s g"
    and s': "s' = (\<lambda>r. put_done (xs ! r) (hx ! r) name (s r))"
    and em: "\<And>q. q < c \<Longrightarrow> sized (g q) (em q)"
      "\<And>q i. q < c \<Longrightarrow> i \<in> set (connected_runner_ranks (g q)) \<Longrightarrow>
         stored_part (int q) (g q) i (em q) = Inr (sent_by s s' (int q) i)"
  shows "holds_all c ps hs g xs hx em"
  unfolding holds_all_def
proof (intro conjI allI ballI impI)
  note cov = agreed_covering [OF setting_facts(1) [OF st]]
  fix q assume q: "q < c"
  then show "sized (g q) (em q)" by (rule em(1))
  have conn: "i \<in> set (connected_runner_ranks (g q)) \<longleftrightarrow> (\<exists>p \<in> set ps. rank_server p = int q \<and> rank_runner p = i)" for i
    using setting_field(2) [OF st q] by auto
  {
    fix p assume p: "p \<in> set ps" "rank_server p = int q"
    then have i: "rank_runner p \<in> set (connected_runner_ranks (g q))" by (auto simp: conn)
    obtain h where h: "getPartHidden (int q) (rank_runner p) (g q) = Inr h"
      using ready_parts [OF setting_field(1) [OF st q] i] by metis
    have gp: "getPart (int q) (rank_runner p) (g q) = Inr p"
      using p part_of_covering [OF cov(1)] by (simp add: setting_field(5) [OF st q])
    from em(2) [OF q i] setting_sent(1) [OF st q i gp h s']
    show "subvec (local_offset_server p) (send_count p) (state_background (em q)) =
        subvec (local_offset_runner p) (send_count p) (xs ! nat (rank_runner p))"
      by (simp add: stored_part_def gp h)
  }
  fix h assume h: "h \<in> set hs" "rank_server h = int q"
  then have ne: "hs \<noteq> []" by auto
  have gh: "getPartHidden (int q) (rank_runner h) (g q) = Inr h"
    using h part_of_covering [OF cov(2) [OF ne]] ne by (simp add: setting_field(6) [OF st q])
  have "rank_runner h \<in> rank_runner ` {p \<in> set ps. rank_server p = int q}"
    using same_parts_ranks [OF cov(3) ne, of "int q"] h by blast
  then have i: "rank_runner h \<in> set (connected_runner_ranks (g q))" using setting_field(2) [OF st q] by simp
  then obtain p where gp: "getPart (int q) (rank_runner h) (g q) = Inr p"
    using ready_parts [OF setting_field(1) [OF st q] i] by metis
  from em(2) [OF q i] setting_sent(1) [OF st q i gp gh s']
  show "subvec (local_offset_server h) (send_count h) (state_hidden (em q)) =
      subvec (local_offset_runner h) (send_count h) (hx ! nat (rank_runner h))"
    by (simp add: stored_part_def gp gh)
qed

lemma held_concat:
  assumes st: "exchange_setting c b bh ps hs f xs hx s g" and em: "holds_all c ps hs g xs hx em"
  shows "concat (map (\<lambda>q. state_background (em q)) [0..<c]) = concat xs"
    and "hs \<noteq> [] \<Longrightarrow> concat (map (\<lambda>q. state_hidden (em q)) [0..<c]) = concat hx"
proof -
  note set = setting_facts [OF st] and cov = agreed_covering [OF setting_facts(1) [OF st]]
  show "concat (map (\<lambda>q. state_background (em q)) [0..<c]) = concat xs"
  proof (rule server_concat [OF cov(1)[folded set(2)]])
    show "length (state_background (em q)) = even_split c (sum_list (map length xs) div b) b ! q" if "q < c" for q
      using em that setting_field(3) [OF st that] by (simp add: holds_all_def sized_def)
  qed (use em in \<open>simp_all add: holds_all_def\<close>)
  show "concat (map (\<lambda>q. state_hidden (em q)) [0..<c]) = concat hx" if ne: "hs \<noteq> []"
  proof (rule server_concat [OF cov(2)[OF ne, folded set(3)]])
    show "length (state_hidden (em q)) = even_split c (sum_list (map length hx) div bh) bh ! q" if "q < c" for q
      using em that setting_field(4) [OF st that ne] by (simp add: holds_all_def sized_def)
  qed (use em in \<open>simp_all add: holds_all_def\<close>)
qed

text \<open>
  C11. A state reaches the server unchanged. Every runner rank sends its state with putState;
  every server rank stores, in whatever order they arrive, the requests of the runner ranks that
  are connected to it. Nothing fails, and afterwards the background vectors of the server ranks,
  one after the other, are the state vectors of the runner ranks, one after the other; the same
  holds for the hidden state.
\<close>

theorem states_arrive:
  assumes st: "exchange_setting c b bh ps hs f xs hx s g"
    and em: "\<forall>q < c. em q \<in> set (ensemble_members (g q))"
    and order: "\<forall>q < c. distinct (order q) \<and> set (order q) = set (connected_runner_ranks (g q))"
  shows "\<exists>s' em'. (\<forall>r < length xs. putState (xs ! r) (hx ! r) name (s r) = Inr (s' r)) \<and>
     (\<forall>q < c. store_all (int q) (g q) (sent_by s s' (int q)) (order q) (em q) = Inr (em' q)) \<and>
     concat (map (\<lambda>q. state_background (em' q)) [0..<c]) = concat xs \<and>
     (hs \<noteq> [] \<longrightarrow> concat (map (\<lambda>q. state_hidden (em' q)) [0..<c]) = concat hx)"
proof -
  define s' where "s' = (\<lambda>r. put_done (xs ! r) (hx ! r) name (s r))"
  have "\<exists>em'. store_all (int q) (g q) (sent_by s s' (int q)) (order q) (em q) = Inr em' \<and> sized (g q) em' \<and>
      (\<forall>i \<in> set (connected_runner_ranks (g q)). stored_part (int q) (g q) i em' = Inr (sent_by s s' (int q) i))"
    if "q < c" for q
    using setting_store [OF st that _ _ _ s'_def] em order that by blast
  then obtain em' where em': "\<And>q. q < c \<Longrightarrow> store_all (int q) (g q) (sent_by s s' (int q)) (order q) (em q) = Inr (em' q)"
      "\<And>q. q < c \<Longrightarrow> sized (g q) (em' q)"
      "\<And>q i. q < c \<Longrightarrow> i \<in> set (connected_runner_ranks (g q)) \<Longrightarrow>
         stored_part (int q) (g q) i (em' q) = Inr (sent_by s s' (int q) i)"
    by metis
  note held = held_concat [OF st stored_is_held [OF st s'_def em'(2,3)]]
  show ?thesis
    using setting_put [OF st] em'(1) held by (intro exI [of _ s'] exI [of _ em']) (simp add: s'_def)
qed

definition example_joined :: "nat \<Rightarrow> runner_rank" where
  "example_joined r = projr (initConnections [1, 2] [0, 0] 1 1 (example_runner (int r)))"

definition example_server_field :: "nat \<Rightarrow> field" where
  "example_server_field q = projr (calculate_parts (int q) 2 example_field)"

lemma example_setting:
  "exchange_setting 2 1 1 example_parts [] example_field [[5], [6, 7]] [[], []] example_joined example_server_field"
  unfolding exchange_setting_def
proof (intro conjI allI impI)
  show "agreed 2 1 1 example_parts [] example_field" by (rule example_agreed)
  show "map length [[5], [6, 7]] = local_vect_sizes_runner example_field"
    and "map length [[], []] = local_vect_sizes_runner_hidden example_field"
    by (simp_all add: example_field_def)
  fix r
  from initConnections_ok [OF example_agreed example_unconnected, of r]
  have "initConnections [1, 2] [0, 0] 1 1 (example_runner (int r)) = Inr (example_joined r)"
    by (auto simp: example_joined_def example_field_def)
  then show "joined 2 1 1 example_field r (example_joined r)"
    using example_unconnected [of r] unfolding joined_def
    by (intro exI [of _ "example_runner (int r)"]) (simp add: example_runner_def example_field_def)
next
  fix q :: nat assume "q < 2"
  then have "calculate_parts_pre 2 q 1 1 example_parts [] example_field"
    using example_agreed by (simp add: agreed_def)
  from calculate_parts_ok [OF this]
  show "calculate_parts (int q) (int 2) example_field = Inr (example_server_field q)"
    by (auto simp: example_server_field_def)
qed

lemma example_server_members:
  "q < 2 \<Longrightarrow> hd (ensemble_members (example_server_field q)) \<in> set (ensemble_members (example_server_field q))"
  using agreed_field(5) [OF example_agreed _ setting_facts(5) [OF example_setting]]
  by (intro hd_in_set) (force simp: example_field_def)

theorem states_arrive_witness:
  "\<exists>s' em'. (\<forall>r < length [[5], [6, 7 :: byte]]. putState ([[5], [6, 7]] ! r) ([[], []] ! r) ''state'' (example_joined r) = Inr (s' r)) \<and>
     (\<forall>q < 2. store_all (int q) (example_server_field q) (sent_by example_joined s' (int q))
        (connected_runner_ranks (example_server_field q)) (hd (ensemble_members (example_server_field q))) = Inr (em' q)) \<and>
     concat (map (\<lambda>q. state_background (em' q)) [0..<2]) = concat [[5], [6, 7]] \<and>
     (([] :: part list) \<noteq> [] \<longrightarrow> concat (map (\<lambda>q. state_hidden (em' q)) [0..<2]) = concat [[], []])"
proof (rule states_arrive [OF example_setting])
  show "\<forall>q < 2. hd (ensemble_members (example_server_field q)) \<in> set (ensemble_members (example_server_field q))"
    using example_server_members by blast
  show "\<forall>q < 2. distinct (connected_runner_ranks (example_server_field q)) \<and>
      set (connected_runner_ranks (example_server_field q)) = set (connected_runner_ranks (example_server_field q))"
    using setting_field(1) [OF example_setting] by (simp add: field_ready_def)
qed

section \<open>And back\<close>

text \<open>Consecutive pieces of a buffer.\<close>

lemma consecutive_Cons:
  assumes "[x..<x + n] @ ys = [a..<e]" "0 < n"
  shows "x = a" "ys = [a + n..<e]" "a + n \<le> e"
proof -
  have ae: "a < e"
  proof (rule ccontr)
    assume "\<not> a < e"
    with assms show False by simp
  qed
  have "hd ([x..<x + n] @ ys) = a" using ae by (simp add: assms(1))
  then show x: "x = a" using assms(2) by (simp add: hd_append)
  have "length ([x..<x + n] @ ys) = e - a" by (simp add: assms(1))
  then show le: "a + n \<le> e" using ae by simp
  have "drop n ([x..<x + n] @ ys) = drop n [a..<e]" by (simp only: assms(1))
  then show "ys = [a + n..<e]" using x by (simp add: drop_upt)
qed

lemma fold_copy_consecutive:
  assumes "concat (map (\<lambda>c. [off c..<off c + length (d c)]) cs) = [a..<e]" "\<forall>c \<in> set cs. d c \<noteq> []"
    and "e \<le> length buf" "a \<le> e"
  shows "fold (\<lambda>c. copy_into (off c) (d c)) cs buf = take a buf @ concat (map d cs) @ drop e buf"
  using assms
proof (induction cs arbitrary: a buf)
  case Nil
  have "[a..<e] = []" using Nil.prems(1) by simp
  then have "a = e" using Nil.prems(4) by (auto simp: upt_eq_Nil_conv)
  then show ?case by simp
next
  case (Cons c cs)
  let ?n = "length (d c)"
  have eq: "[off c..<off c + ?n] @ concat (map (\<lambda>c. [off c..<off c + length (d c)]) cs) = [a..<e]"
    using Cons.prems(1) by simp
  have n: "0 < ?n" using Cons.prems(2) by simp
  note cons = consecutive_Cons [OF eq n]
  let ?buf = "copy_into a (d c) buf"
  have len: "length ?buf = length buf" using cons(3) Cons.prems(3) by (simp add: layout_simps)
  have "fold (\<lambda>c. copy_into (off c) (d c)) cs ?buf = take (a + ?n) ?buf @ concat (map d cs) @ drop e ?buf"
    using Cons.IH [OF cons(2)] Cons.prems len cons(3) by simp
  moreover have "take (a + ?n) ?buf = take a buf @ d c" "drop e ?buf = drop e buf"
    using cons(3) Cons.prems(3) by (simp_all add: copy_into_def)
  ultimately show ?case by (simp add: cons(1))
qed

lemma consecutive_subvec:
  assumes "concat (map (\<lambda>c. [off c..<off c + length (d c)]) cs) = [a..<e]" "\<forall>c \<in> set cs. d c \<noteq> []"
    and "length xs = a" "c \<in> set cs"
  shows "subvec (off c) (length (d c)) (xs @ concat (map d cs) @ zs) = d c"
  using assms
proof (induction cs arbitrary: a xs)
  case (Cons b cs)
  let ?n = "length (d b)"
  have eq: "[off b..<off b + ?n] @ concat (map (\<lambda>c. [off c..<off c + length (d c)]) cs) = [a..<e]"
    using Cons.prems(1) by simp
  have n: "0 < ?n" using Cons.prems(2) by simp
  note cons = consecutive_Cons [OF eq n]
  show ?case
  proof (cases "c = b")
    case True
    then show ?thesis using cons(1) Cons.prems(3) by (simp add: subvec_def)
  next
    case False
    with Cons.IH [OF cons(2), of "xs @ d b"] Cons.prems show ?thesis by simp
  qed
qed simp

lemma rank_offsets_consecutive:
  assumes cov: "covering rs ss ps" and r: "r < length rs"
  shows "concat (map (\<lambda>p. [local_offset_runner p..<local_offset_runner p + send_count p])
           (filter (\<lambda>p. rank_runner p = int r) ps)) = [0..<rs ! r]"
proof -
  let ?ps = "filter (\<lambda>p. rank_runner p = int r) ps"
  have "concat (map runner_bytes ?ps) = filter (\<lambda>b. fst b = r) (layout rs)"
    using filter_runner_bytes [of ps r] cov by (auto simp: covering_def ranks_nonneg_def)
  then have "map snd (concat (map runner_bytes ?ps)) = [0..<rs ! r]"
    using r by (simp add: layout_of_rank comp_def)
  moreover have "map snd (runner_bytes p) = [local_offset_runner p..<local_offset_runner p + send_count p]" for p
    by (rule nth_equalityI) (simp_all add: runner_bytes_def)
  ultimately show ?thesis by (simp add: map_concat comp_def)
qed

text \<open>The piece a server rank sends for one connection of runner rank \<open>r\<close>.\<close>

definition piece :: "part list \<Rightarrow> int \<Rightarrow> (nat \<Rightarrow> byte list) \<Rightarrow> int \<Rightarrow> byte list" where
  "piece ps r v q =
     (case part_of q r ps of Inr p \<Rightarrow> subvec (local_offset_server p) (send_count p) (v (nat q)) | Inl _ \<Rightarrow> [])"

lemma piece_part:
  assumes "covering rs ss ps" "p \<in> set ps"
  shows "piece ps (rank_runner p) v (rank_server p) =
     subvec (local_offset_server p) (send_count p) (v (nat (rank_server p)))"
proof -
  have "part_of (rank_server p) (rank_runner p) ps = Inr p"
    using part_of_covering [OF assms(1)] assms(2) by blast
  then show ?thesis by (simp add: piece_def)
qed

text \<open>
  A runner rank that copies the pieces of all server ranks to the places of its parts holds, part
  by part, the bytes of the servers, whatever its buffer held before.
\<close>

lemma pieces_assembled:
  assumes cov: "covering (map length xs) (map length vs) ps" and r: "r < length xs"
    and v: "\<And>q. q < length vs \<Longrightarrow> v q = vs ! q"
    and buf: "length buf = length (xs ! r)" and p: "p \<in> set ps" "rank_runner p = int r"
  shows "subvec (local_offset_runner p) (send_count p)
      (fold (\<lambda>p. copy_into (local_offset_runner p) (piece ps (int r) v (rank_server p)))
        (filter (\<lambda>p. rank_runner p = int r) ps) buf) =
    subvec (local_offset_server p) (send_count p) (vs ! nat (rank_server p))"
proof -
  let ?ps = "filter (\<lambda>p. rank_runner p = int r) ps"
  let ?d = "\<lambda>p. piece ps (int r) v (rank_server p)"
  have d: "?d p = subvec (local_offset_server p) (send_count p) (vs ! nat (rank_server p)) \<and>
      length (?d p) = send_count p \<and> 0 < send_count p" if "p \<in> set ?ps" for p
  proof -
    have p: "p \<in> set ps" "rank_runner p = int r" using that by auto
    have "nat (rank_server p) < length vs \<and>
        local_offset_server p + send_count p \<le> length (vs ! nat (rank_server p))"
      using covering_server_bounds [OF cov p(1)] by auto
    with piece_part [OF cov p(1), of v] p v cov show ?thesis by (simp add: layout_simps covering_def)
  qed
  have "map (\<lambda>p. [local_offset_runner p..<local_offset_runner p + length (?d p)]) ?ps =
      map (\<lambda>p. [local_offset_runner p..<local_offset_runner p + send_count p]) ?ps"
    using d by (intro map_cong refl) (metis (no_types, lifting))
  then have offs: "concat (map (\<lambda>p. [local_offset_runner p..<local_offset_runner p + length (?d p)]) ?ps) =
      [0..<length (xs ! r)]"
    using rank_offsets_consecutive [OF cov, of r] r by (simp only: length_map nth_map)
  have ne: "\<forall>p \<in> set ?ps. ?d p \<noteq> []" using d by force
  have whole: "fold (\<lambda>p. copy_into (local_offset_runner p) (?d p)) ?ps buf = concat (map ?d ?ps)"
    using fold_copy_consecutive [OF offs ne, of buf] buf by simp
  have dp: "?d p = subvec (local_offset_server p) (send_count p) (vs ! nat (rank_server p))"
      "length (?d p) = send_count p" using d [of p] p by auto
  have "subvec (local_offset_runner p) (length (?d p)) ([] @ concat (map ?d ?ps) @ []) = ?d p"
    by (rule consecutive_subvec [OF offs ne]) (use p in auto)
  then show ?thesis unfolding dp(2) whole by (simp only: dp(1) append_Nil append_Nil2)
qed

lemma received_connections:
  assumes "same_parts ps hs"
  shows "received (my_connections r ps hs) (piece ps r v) local_vector_offset buf =
    fold (\<lambda>p. copy_into (local_offset_runner p) (piece ps r v (rank_server p))) (filter (\<lambda>p. rank_runner p = r) ps) buf"
proof -
  note filter_with_hidden [OF assms, of r]
  then show ?thesis
    by (simp add: received_def my_connections_def fold_map comp_def split_def connected_rank_def)
qed

lemma received_connections_hidden:
  assumes "same_parts ps hs" "hs \<noteq> []"
  shows "received (my_connections r ps hs) (piece hs r v) local_vector_offset_hidden buf =
    fold (\<lambda>p. copy_into (local_offset_runner p) (piece hs r v (rank_server p))) (filter (\<lambda>p. rank_runner p = r) hs) buf"
proof -
  have "fold (\<lambda>c. copy_into (local_vector_offset_hidden c) (d (csr_server_rank c)))
      (map (\<lambda>(p, h). connected_rank p h) (filter (\<lambda>(p, h). rank_runner p = r) (map (\<lambda>(p, h). (p, [h])) (zip ps' hs')))) buf =
    fold (\<lambda>p. copy_into (local_offset_runner p) (d (rank_server p))) (filter (\<lambda>p. rank_runner p = r) hs') buf"
    if "map (\<lambda>p. (rank_runner p, rank_server p)) hs' = map (\<lambda>p. (rank_runner p, rank_server p)) ps'"
    for d :: "int \<Rightarrow> byte list" and ps' hs'
    using that
  proof (induction hs' arbitrary: ps' buf)
    case (Cons h hs')
    then show ?case by (cases ps') (auto simp: connected_rank_def)
  qed simp
  with assms show ?thesis
    by (simp add: received_def my_connections_def with_hidden_def same_parts_def)
qed

text \<open>
  Every server rank \<open>q\<close>, in the state \<open>t q\<close>, answers every connected runner rank with the member
  \<open>em q\<close>; the answers wait in the inbox of the runner ranks \<open>s\<close>, which have sent their state.
\<close>

definition answering :: "nat \<Rightarrow> nat \<Rightarrow> (nat \<Rightarrow> field) \<Rightarrow> (nat \<Rightarrow> 'a server) \<Rightarrow> (nat \<Rightarrow> ensemble_member) \<Rightarrow>
    int \<Rightarrow> int \<Rightarrow> int \<Rightarrow> (nat \<Rightarrow> runner_rank) \<Rightarrow> bool" where
  "answering c n_runner g t em sid step n s \<longleftrightarrow>
     (\<forall>q < c. comm_rank (t q) = int q \<and> current_step (t q) = step \<and> current_nsteps (t q) = n \<and>
        same_shape (g q) (the_field (t q)) \<and>
        at (ensemble_members (the_field (t q))) sid = Inr (em q)) \<and>
     (\<forall>q < c. \<forall>r < n_runner. int r \<in> set (connected_runner_ranks (g q)) \<longrightarrow>
        (\<exists>ident t'. launch_sub_task (Some ident) (int r) sid (t q) = Inr t' \<and>
           delivered ident (rn_inbox (s r) (int q)) = data_frames (drop (length (out (t q))) (out t'))))"

definition all_requested :: "nat \<Rightarrow> part list \<Rightarrow> part list \<Rightarrow> (nat \<Rightarrow> runner_rank) \<Rightarrow> bool" where
  "all_requested n_runner ps hs s \<longleftrightarrow> (\<forall>r < n_runner.
     connected_server_ranks (api_field (s r)) = my_connections (int r) ps hs \<and>
     awaiting (s r) = rev (map csr_server_rank (my_connections (int r) ps hs)) \<and> rn_phase (s r) \<noteq> PHASE_FINAL)"

lemma same_shape_parts:
  "same_shape f f' \<Longrightarrow> getPart q i f' = getPart q i f \<and> getPartHidden q i f' = getPartHidden q i f"
  unfolding same_shape_def by (elim conjE, erule ssubst) (simp add: getPart_def getPartHidden_def cong: if_cong)

lemma same_shape_local_sizes:
  "same_shape f f' \<Longrightarrow> local_vect_size f' = local_vect_size f \<and> local_vect_size_hidden f' = local_vect_size_hidden f"
  unfolding same_shape_def by (elim conjE, erule ssubst) simp

lemma at_member: "at xs i = Inr x \<Longrightarrow> x \<in> set xs"
  by (auto simp: at_def split: if_splits)

lemma answering_sized:
  assumes "exchange_setting c b bh ps hs f xs hx s0 g" "answering c k g t em sid step n s" "q < c"
  shows "sized (g q) (em q)"
proof -
  have sh: "same_shape (g q) (the_field (t q))" and at: "at (ensemble_members (the_field (t q))) sid = Inr (em q)"
    using assms(2,3) by (simp_all add: answering_def)
  have "field_ready (int q) (the_field (t q))"
    using setting_field(1) [OF assms(1,3)] same_shape_fields(3) [OF sh] by simp
  from member_lengths [OF this at_member [OF at]] same_shape_local_sizes [OF sh]
  show ?thesis by (simp add: sized_def)
qed

lemma answers_held:
  assumes st: "exchange_setting c b bh ps hs f xs hx s0 g" and an: "answering c (length xs) g t em sid step n s"
    and re: "all_requested (length xs) ps hs s" and r: "r < length xs"
  shows "all_answered (my_connections (int r) ps hs) [sid, step, CHANGE_STATE, n]
     (piece ps (int r) (\<lambda>q. state_analysis (em q)))
     (if hs = [] then (\<lambda>_. []) else piece hs (int r) (\<lambda>q. state_hidden (em q))) (s r)"
  unfolding all_answered_def
proof
  note set = setting_facts [OF st] and cov = agreed_covering [OF setting_facts(1) [OF st]]
  fix d assume d: "d \<in> set (my_connections (int r) ps hs)"
  obtain p h where ph: "p \<in> set ps" "rank_runner p = int r" "rank_server p = csr_server_rank d" "connection_of p h d"
    "part_of (csr_server_rank d) (int r) ps = Inr p"
    "(if hs = [] then Inr null_part else part_of (csr_server_rank d) (int r) hs) = Inr h"
    using my_connections_parts [OF d cov(3,1,2)] by metis
  obtain q where q: "csr_server_rank d = int q" "q < c"
    using covering_server_bounds [OF cov(1) ph(1)] cov(1) ph(1,3) that [of "nat (rank_server p)"]
    by (auto simp: covering_def)
  have srv: "comm_rank (t q) = int q" "current_step (t q) = step" "current_nsteps (t q) = n"
      "same_shape (g q) (the_field (t q))" "at (ensemble_members (the_field (t q))) sid = Inr (em q)"
    using an q(2) by (simp_all add: answering_def)
  have "int r \<in> set (connected_runner_ranks (g q))"
    using setting_field(2) [OF st q(2)] ph(1-3) q(1) by force
  then obtain ident t' where t': "launch_sub_task (Some ident) (int r) sid (t q) = Inr t'"
      "delivered ident (rn_inbox (s r) (int q)) = data_frames (drop (length (out (t q))) (out t'))"
    using an q(2) r unfolding answering_def by blast
  have hid: "(if hs = [] then Inr null_part else part_of (int q) (int r) hs) = Inr h"
    using ph(6) by (simp only: q(1))
  have get: "getPart (int q) (int r) (the_field (t q)) = Inr p" "getPartHidden (int q) (int r) (the_field (t q)) = Inr h"
    using ph(5) hid q same_shape_parts [OF srv(4)] by (simp_all add: setting_field(5,6) [OF st q(2)])
  have fs: "rn_inbox (s r) (int q) = answer_frames [sid, step, CHANGE_STATE, n]
       (subvec (local_offset_server p) (send_count p) (state_analysis (em q)))
       (subvec (local_offset_server h) (send_count h) (state_hidden (em q)))"
      "local_offset_server p + send_count p \<le> length (state_analysis (em q))"
      "send_count h > 0 \<longrightarrow> local_offset_server h + send_count h \<le> length (state_hidden (em q))"
    using launch_frames [OF t'(1)] get srv t'(2) by (auto simp: delivered_def)
  have "csr_server_rank d \<in> set (awaiting (s r))" using re r d by (auto simp: all_requested_def)
  moreover have "piece ps (int r) (\<lambda>q. state_analysis (em q)) (int q) =
      subvec (local_offset_server p) (send_count p) (state_analysis (em q))"
    using ph(5) q(1) by (simp add: piece_def)
  moreover have "(if hs = [] then (\<lambda>_. []) else piece hs (int r) (\<lambda>q. state_hidden (em q))) (int q) =
      subvec (local_offset_server h) (send_count h) (state_hidden (em q))"
    using hid by (auto simp: piece_def null_part_def split: if_splits)
  ultimately show "holds_answer [sid, step, CHANGE_STATE, n]
      (piece ps (int r) (\<lambda>q. state_analysis (em q)) (csr_server_rank d))
      ((if hs = [] then (\<lambda>_. []) else piece hs (int r) (\<lambda>q. state_hidden (em q))) (csr_server_rank d)) [] d (s r)"
    using fs ph(4) q(1) by (cases "send_count h > 0") (auto simp: holds_answer_def connection_of_def layout_simps)
qed

text \<open>What runner rank \<open>r\<close> holds after getState.\<close>

definition assembled :: "part list \<Rightarrow> nat \<Rightarrow> (nat \<Rightarrow> byte list) \<Rightarrow> byte list \<Rightarrow> byte list" where
  "assembled ps r v buf = fold (\<lambda>p. copy_into (local_offset_runner p) (piece ps (int r) v (rank_server p)))
     (filter (\<lambda>p. rank_runner p = int r) ps) buf"

lemma assembled_concat:
  assumes cov: "covering (map length xs) ss ps" and len: "length ss = c"
    and v: "\<And>q. q < c \<Longrightarrow> length (v q) = ss ! q"
  shows "concat (map (\<lambda>r. assembled ps r v (xs ! r)) [0..<length xs]) = concat (map v [0..<c])"
proof -
  let ?vs = "map v [0..<c]" and ?ys = "map (\<lambda>r. assembled ps r v (xs ! r)) [0..<length xs]"
  have ss: "map length ?vs = ss" using len v by (auto intro: nth_equalityI)
  have bounds: "\<And>p. p \<in> set ps \<Longrightarrow> local_offset_runner p + length (piece ps (rank_runner p) v (rank_server p)) \<le> length (xs ! nat (rank_runner p))"
  proof -
    fix p assume p: "p \<in> set ps"
    from covering_server_bounds [OF cov p] have "nat (rank_server p) < c" "local_offset_server p + send_count p \<le> length (v (nat (rank_server p)))"
      using len v by auto
    with covering_runner_bounds [OF cov p] piece_part [OF cov p, of v]
    show "local_offset_runner p + length (piece ps (rank_runner p) v (rank_server p)) \<le> length (xs ! nat (rank_runner p))"
      by (auto simp: layout_simps)
  qed
  have copy_len: "length (fold (\<lambda>p. copy_into (local_offset_runner p) (piece ps (int r) v (rank_server p))) qs buf) = length buf"
    if "set qs \<subseteq> {p \<in> set ps. rank_runner p = int r}" "length buf = length (xs ! r)" for qs r and buf :: "byte list"
    using that
  proof (induction qs arbitrary: buf)
    case (Cons p qs)
    with bounds [of p] show ?case by (simp add: layout_simps)
  qed simp
  have "map length ?ys = map length xs"
    using copy_len by (auto simp: assembled_def intro!: nth_equalityI)
  with cov ss have "covering (map length ?ys) (map length ?vs) ps" by simp
  then have "concat ?vs = concat ?ys"
  proof (rule covering_same_vector)
    fix p assume p: "p \<in> set ps"
    let ?r = "nat (rank_runner p)"
    have r: "?r < length xs" "rank_runner p = int ?r"
      using covering_runner_bounds [OF cov p] cov p by (auto simp: covering_def)
    from pieces_assembled [OF cov[folded ss] r(1), of v "xs ! ?r" p] p r
    show "subvec (local_offset_server p) (send_count p) (?vs ! nat (rank_server p)) =
        subvec (local_offset_runner p) (send_count p) (?ys ! ?r)"
      by (simp add: assembled_def)
  qed
  then show ?thesis by simp
qed

lemma rank_has_connection:
  assumes st: "exchange_setting c b bh ps hs f xs hx s0 g" and r: "r < length xs"
  shows "my_connections (int r) ps hs \<noteq> []"
proof -
  note set = setting_facts [OF st] and cov = agreed_covering [OF setting_facts(1) [OF st]]
  have "0 < c" "n_to_m_args c (local_vect_sizes_runner f) b"
    using set(1) by (auto simp: agreed_def calculate_parts_pre_def)
  moreover have "map length xs ! r \<in> set (map length xs)" using r by (intro nth_mem) simp
  ultimately have "0 < length (xs ! r)" using r by (simp add: n_to_m_args_def flip: set(2))
  with covering_rank_vector [OF cov(1)[folded set(2)], of r "xs ! r"] r
  have "filter (\<lambda>p. rank_runner p = int r) ps \<noteq> []" by auto
  then obtain p where "p \<in> set ps" "rank_runner p = int r" by (auto simp: filter_empty_conv)
  from my_connections_exists [OF this cov(3)] show ?thesis by auto
qed

text \<open>
  C13. A state reaches the runner unchanged. When all server ranks answer the connected runner
  ranks with one member, every runner rank's getState succeeds with the number of steps the
  servers chose, its state id and step are theirs, none of its sockets waits any more, and the
  buffers of the runner ranks, one after the other, are the analysis vectors of the server ranks,
  one after the other; the same holds for the hidden state.
\<close>

theorem states_return:
  assumes st: "exchange_setting c b bh ps hs f xs hx s0 g" and an: "answering c (length xs) g t em sid step n s"
    and re: "all_requested (length xs) ps hs s"
  shows "\<exists>ys hy. (\<forall>r < length xs. \<exists>s'. getState (xs ! r) (hx ! r) (s r) = Inr (n, ys r, hy r, s') \<and>
        current_state_id (api_field s') = sid \<and> af_current_step (api_field s') = step \<and> awaiting s' = []) \<and>
     concat (map ys [0..<length xs]) = concat (map (\<lambda>q. state_analysis (em q)) [0..<c]) \<and>
     (hs \<noteq> [] \<longrightarrow> concat (map hy [0..<length hx]) = concat (map (\<lambda>q. state_hidden (em q)) [0..<c]))"
proof -
  note set = setting_facts [OF st] and cov = agreed_covering [OF setting_facts(1) [OF st]]
  define dh where "dh r = (if hs = [] then (\<lambda>_. []) else piece hs (int r) (\<lambda>q. state_hidden (em q)))" for r :: nat
  define ys where "ys r = assembled ps r (\<lambda>q. state_analysis (em q)) (xs ! r)" for r
  define hy where "hy r = received (my_connections (int r) ps hs) (dh r) local_vector_offset_hidden (hx ! r)" for r
  have "\<exists>s'. getState (xs ! r) (hx ! r) (s r) = Inr (n, ys r, hy r, s') \<and>
        current_state_id (api_field s') = sid \<and> af_current_step (api_field s') = step \<and> awaiting s' = []"
    if r: "r < length xs" for r
  proof -
    have "my_connections (int r) ps hs \<noteq> []" by (rule rank_has_connection [OF st r])
    moreover have "\<forall>d \<in> set (my_connections (int r) ps hs). fits (xs ! r) (hx ! r) d"
      using my_connection_fits [OF set(1) _ r set(2,3)] by blast
    moreover note dist = distinct_server_ranks [OF cov(1,3), of "int r"]
    ultimately show ?thesis
      using get_parts_ok [OF answers_held [OF st an re r], of "xs ! r" "hx ! r" "-1"] re r
        remove_all_awaiting [OF dist, of "[]"] received_connections [OF cov(3), of "int r"]
      by (auto simp: getState_def all_requested_def ys_def hy_def dh_def assembled_def)
  qed
  moreover have "concat (map ys [0..<length xs]) = concat (map (\<lambda>q. state_analysis (em q)) [0..<c])"
    unfolding ys_def
    by (rule assembled_concat [OF cov(1)[folded set(2)]])
      (use answering_sized [OF st an] setting_field(3) [OF st] in \<open>auto simp: sized_def\<close>)
  moreover have "concat (map hy [0..<length hx]) = concat (map (\<lambda>q. state_hidden (em q)) [0..<c])" if ne: "hs \<noteq> []"
  proof -
    have "hy = (\<lambda>r. assembled hs r (\<lambda>q. state_hidden (em q)) (hx ! r))"
      using received_connections_hidden [OF cov(3) ne] ne by (auto simp: hy_def dh_def assembled_def)
    then show ?thesis
      using assembled_concat [OF cov(2)[OF ne, folded set(3)], of c "\<lambda>q. state_hidden (em q)"]
        answering_sized [OF st an] setting_field(4) [OF st _ ne] by (auto simp: sized_def)
  qed
  ultimately show ?thesis by blast
qed

lemma launch_succeeds:
  assumes "getPart (comm_rank t) r (the_field t) = Inr p" "getPartHidden (comm_rank t) r (the_field t) = Inr h"
    and "at (ensemble_members (the_field t)) sid = Inr em"
    and "local_offset_server p + send_count p \<le> length (state_analysis em)"
      "local_offset_server h + send_count h \<le> length (state_hidden em)"
  shows "\<exists>t'. launch_sub_task (Some ident) r sid t = Inr t'"
  using assms
  by (cases "send_count h > 0")
    (auto simp: launch_sub_task_def Let_def trigger_def read_vec_def read_hidden_def)

text \<open>Both server ranks answer with state 1.\<close>

definition example_answering :: "nat \<Rightarrow> stepper server" where
  "example_answering q = example_server\<lparr>comm_rank := int q, the_field := example_server_field q\<rparr>"

definition example_inbox :: "nat \<Rightarrow> int \<Rightarrow> (frame \<times> bool) list" where
  "example_inbox r q = drop 2 (data_frames (drop (length (out (example_answering (nat q))))
     (out (projr (launch_sub_task (Some [9]) (int r) 1 (example_answering (nat q)))))))"

definition example_waiting_rank :: "nat \<Rightarrow> runner_rank" where
  "example_waiting_rank r = (put_done ([[5], [6, 7]] ! r) ([[], []] ! r) ''state'' (example_joined r))\<lparr>
     rn_inbox := example_inbox r\<rparr>"

lemma example_answers:
  assumes "q < 2" "int r \<in> set (connected_runner_ranks (example_server_field q))"
  shows "\<exists>t'. launch_sub_task (Some [9]) (int r) 1 (example_answering q) = Inr t' \<and>
     delivered [9] (example_inbox r (int q)) =
       data_frames (drop (length (out (example_answering q))) (out t'))"
proof -
  let ?g = "example_server_field q"
  note rf = setting_field(1) [OF example_setting assms(1)]
  have len: "length (ensemble_members ?g) = 2"
    using agreed_field(5) [OF example_agreed _ setting_facts(5) [OF example_setting]] assms(1)
    by (simp add: example_field_def)
  then have at: "at (ensemble_members ?g) 1 = Inr (ensemble_members ?g ! 1)"
    and mem: "ensemble_members ?g ! 1 \<in> set (ensemble_members ?g)" by (simp_all add: at_def)
  obtain p h where ph: "getPart (int q) (int r) ?g = Inr p" "getPartHidden (int q) (int r) ?g = Inr h"
    "local_offset_server p + send_count p \<le> local_vect_size ?g"
    "local_offset_server h + send_count h \<le> local_vect_size_hidden ?g"
    using ready_parts [OF rf assms(2)] .
  note t = example_answering_def
  obtain t' where t': "launch_sub_task (Some [9]) (int r) 1 (example_answering q) = Inr t'"
    using launch_succeeds [of "example_answering q" "int r" p h 1 "ensemble_members ?g ! 1" "[9]"] ph at
      member_lengths [OF rf mem] by (auto simp: t)
  from launch_frames [OF this] ph
  have "\<exists>fs. data_frames (drop (length (out (example_answering q))) (out t')) = delivered [9] fs"
    by (auto simp: t)
  with t' show ?thesis by (auto simp: example_inbox_def delivered_def)
qed

lemma example_all_answering: "answering 2 (length [[5], [6, 7 :: byte]]) example_server_field example_answering
    (\<lambda>q. ensemble_members (example_server_field q) ! 1) 1 1 1 example_waiting_rank"
  unfolding answering_def
proof (intro conjI allI impI)
  fix q :: nat assume q: "q < 2"
  have "length (ensemble_members (example_server_field q)) = 2"
    using agreed_field(5) [OF example_agreed _ setting_facts(5) [OF example_setting]] q
    by (simp add: example_field_def)
  then show "at (ensemble_members (the_field (example_answering q))) 1 = Inr (ensemble_members (example_server_field q) ! 1)"
    by (simp add: at_def example_answering_def)
  fix r assume "int r \<in> set (connected_runner_ranks (example_server_field q))"
  from example_answers [OF q this]
  show "\<exists>ident t'. launch_sub_task (Some ident) (int r) 1 (example_answering q) = Inr t' \<and>
      delivered ident (rn_inbox (example_waiting_rank r) (int q)) =
        data_frames (drop (length (out (example_answering q))) (out t'))"
    by (intro exI [of _ "[9]"]) (simp add: example_waiting_rank_def)
qed (simp_all add: example_answering_def example_server_def)

lemma example_all_requested: "all_requested (length [[5], [6, 7 :: byte]]) example_parts [] example_waiting_rank"
  unfolding all_requested_def
proof (intro allI impI conjI)
  fix r :: nat assume "r < length [[5], [6, 7 :: byte]]"
  then have j: "joined 2 1 1 example_field r (example_joined r)"
    using setting_facts(4) [OF example_setting] by simp
  note jf = joined_fields [OF example_agreed j]
  obtain s0 where s0: "unconnected 2 r s0" "awaiting s0 = []"
      "initConnections (local_vect_sizes_runner example_field) (local_vect_sizes_runner_hidden example_field) (int 1) (int 1) s0
         = Inr (example_joined r)"
    using j by (auto simp: joined_def)
  have ej: "initConnections [1, 2] [0, 0] 1 1 (example_runner (int r)) = Inr (example_joined r)"
    using initConnections_ok [OF example_agreed example_unconnected, of r]
    by (auto simp: example_joined_def example_field_def)
  have "connections_opened (my_connections (int r) example_parts []) (example_runner (int r)) (example_joined r)"
    using initConnections_ok [OF example_agreed example_unconnected, of r] ej by (auto simp: example_field_def)
  then have "awaiting (example_joined r) = []" "rn_phase (example_joined r) = PHASE_INIT"
    by (auto simp: connections_opened_def with_connections_def example_runner_def)
  with jf(1)
  show "connected_server_ranks (api_field (example_waiting_rank r)) = my_connections (int r) example_parts []"
    and "awaiting (example_waiting_rank r) = rev (map csr_server_rank (my_connections (int r) example_parts []))"
    and "rn_phase (example_waiting_rank r) \<noteq> PHASE_FINAL"
    by (simp_all add: example_waiting_rank_def)
qed

theorem states_return_witness:
  "\<exists>ys hy. (\<forall>r < length [[5], [6, 7 :: byte]]. \<exists>s'.
        getState ([[5], [6, 7]] ! r) ([[], []] ! r) (example_waiting_rank r) = Inr (1, ys r, hy r, s') \<and>
        current_state_id (api_field s') = 1 \<and> af_current_step (api_field s') = 1 \<and> awaiting s' = []) \<and>
     concat (map ys [0..<length [[5], [6, 7 :: byte]]]) =
       concat (map (\<lambda>q. state_analysis (ensemble_members (example_server_field q) ! 1)) [0..<2]) \<and>
     (([] :: part list) \<noteq> [] \<longrightarrow> concat (map hy [0..<length [[], [] :: byte list]]) =
       concat (map (\<lambda>q. state_hidden (ensemble_members (example_server_field q) ! 1)) [0..<2]))"
  by (rule states_return [OF example_setting example_all_answering example_all_requested])

end
