(* ===== verification/Start.thy ===== *)
theory Start
  imports Config Exchange
begin

text \<open>
  The properties of the initialisation: the registration handshake between a runner and rank 0,
  the registration of the field, the way of the index maps from the runner ranks to the server
  ranks, and the start of the simulation phase on all server ranks, which establishes the
  invariant of the scheduler.
\<close>

section \<open>The configuration socket\<close>

text \<open>The frames a rank sends on the configuration socket, and those of a runner's rank 0.\<close>

definition config_frames :: "action list \<Rightarrow> (frame \<times> bool) list" where
  "config_frames as = concat (map (\<lambda>a. case a of Config_send f m \<Rightarrow> [(f, m)] | _ \<Rightarrow> []) as)"

definition ccon_frames :: "api_action list \<Rightarrow> (frame \<times> bool) list" where
  "ccon_frames as = concat (map (\<lambda>a. case a of Ccon_send f m \<Rightarrow> [(f, m)] | _ \<Rightarrow> []) as)"

lemma socket_frames [simp]:
  "config_frames [] = []"
  "config_frames (Config_send f m # as) = (f, m) # config_frames as"
  "ccon_frames [] = []"
  "ccon_frames (Ccon_send f m # bs) = (f, m) # ccon_frames bs"
  by (simp_all add: config_frames_def ccon_frames_def)

text \<open>What a rank has sent since an earlier state.\<close>

definition config_reply :: "'a server \<Rightarrow> 'a server \<Rightarrow> (frame \<times> bool) list" where
  "config_reply s s' = config_frames (drop (length (out s)) (out s'))"

section \<open>Registration of a runner\<close>

definition runner_may_register :: "int \<Rightarrow> string list \<Rightarrow> 'a server \<Rightarrow> bool" where
  "runner_may_register rid names s \<longleftrightarrow> rid \<notin> task_runner_id ` set (killed s) \<and>
     int (length names) = comm_size s"

text \<open>
  C24. A runner registers with one exchange on the configuration socket. Rank 0 accepts the message
  of a runner it has not killed, notes that the launcher has to be told about it, and its reply
  gives the runner the size of the server and the address of every server rank. The runner is
  asked for the field exactly if it is the first that registers.
\<close>

theorem runner_registers:
  assumes "runner_may_register rid names s" "om_wf (launcher_notified_about_runner s)"
    and "env_runner_id r = Some rid" "rn_runner_id r = -1 \<or> rn_runner_id r = rid"
    and "answer_configuration_message names [(Ints [REGISTER_RUNNER_ID, rid], False)] s = Inr s'"
    and "ccon_inbox r = config_reply s s'"
  shows "\<exists>r'. client_register_runner_id r = Inr (register_field_flag s, r') \<and>
     ccon_frames (drop (length (rn_out r)) (rn_out r')) = [(Ints [REGISTER_RUNNER_ID, rid], False)] \<and>
     rn_runner_id r' = rid \<and> rn_server r' = \<lparr>si_comm_size = comm_size s, port_names = names\<rparr> \<and>
     ccon_inbox r' = [] \<and> \<not> register_field_flag s' \<and>
     map_of (launcher_notified_about_runner s') = (map_of (launcher_notified_about_runner s))(rid \<mapsto> False)"
proof -
  have s': "s' = emits [Config_send (Ints [if register_field_flag s then 1 else 0, comm_size s]) True,
       Config_send (Names names) False]
      (s\<lparr>launcher_notified_about_runner := om_assign rid False (launcher_notified_about_runner s),
         register_field_flag := False\<rparr>)"
    using assms(1,5)
    by (simp add: answer_configuration_message_def config_recv_def message_type_def REGISTER_RUNNER_ID_def
        register_runner_id_def runner_may_register_def config_send_def emits_def)
  then have "ccon_inbox r = [(Ints [if register_field_flag s then 1 else 0, comm_size s], True), (Names names, False)]"
    using assms(6) by (simp add: config_reply_def)
  with assms(1-4) show ?thesis
    by (auto simp: client_register_runner_id_def ccon_recv_def registration_reply_def port_name_list_def
        runner_may_register_def api_emit_def s' om_simps)
qed

text \<open>Rank 0 of two with two states, and the rank 0 of the runner 3.\<close>

definition example_boot :: "stepper server" where
  "example_boot = launcher_connection (globals 0 2 2 5 False 100 \<lparr>nsteps = 1, total_steps = 3\<rparr>)"

lemma example_boots: "boot 0 2 2 5 False 100 \<lparr>nsteps = 1, total_steps = 3\<rparr> = Inr example_boot"
  by (simp add: boot_def example_boot_def)

definition example_names :: "string list" where
  "example_names = [''tcp://a:5000'', ''tcp://b:5001'']"

definition registered_runner :: "stepper server" where
  "registered_runner = emits [Config_send (Ints [1, 2]) True, Config_send (Names example_names) False]
     (example_boot\<lparr>launcher_notified_about_runner := [(3, False)], register_field_flag := False\<rparr>)"

lemmas boot_eval = example_boot_def globals_def launcher_connection_def updateLauncherNextMessageDate_def
  updateLauncherDueDate_def emit_def emits_def

lemma example_registration:
  "answer_configuration_message example_names [(Ints [REGISTER_RUNNER_ID, 3], False)] example_boot =
     Inr registered_runner"
  by (simp add: answer_configuration_message_def config_recv_def message_type_def REGISTER_RUNNER_ID_def
      register_runner_id_def config_send_def registered_runner_def boot_eval)

definition example_starting :: runner_rank where
  "example_starting = (example_runner 0)\<lparr>rn_runner_id := -1, ccon_inbox := [(Ints [1, 2], True), (Names example_names, False)]\<rparr>"

theorem runner_registers_witness:
  "\<exists>r'. client_register_runner_id example_starting = Inr (True, r') \<and>
     ccon_frames (drop 0 (rn_out r')) = [(Ints [REGISTER_RUNNER_ID, 3], False)] \<and>
     rn_runner_id r' = 3 \<and> rn_server r' = \<lparr>si_comm_size = 2, port_names = example_names\<rparr> \<and>
     ccon_inbox r' = [] \<and> \<not> register_field_flag registered_runner \<and>
     map_of (launcher_notified_about_runner registered_runner) =
       (map_of (launcher_notified_about_runner example_boot))(3 \<mapsto> False)"
proof -
  have sent: "config_reply example_boot registered_runner = [(Ints [1, 2], True), (Names example_names, False)]"
    by (simp add: config_reply_def registered_runner_def)
  have facts: "register_field_flag example_boot" "comm_size example_boot = 2" "killed example_boot = []"
      "launcher_notified_about_runner example_boot = []"
    by (simp_all add: boot_eval)
  show ?thesis
    using runner_registers [OF _ _ _ _ example_registration, of example_starting]
    by (simp add: sent facts runner_may_register_def example_starting_def example_runner_def example_names_def)
qed

section \<open>Registration of the field\<close>

text \<open>The field as the constructor and the registered sizes leave it.\<close>

definition registered :: "int \<Rightarrow> field \<Rightarrow> bool" where
  "registered n f \<longleftrightarrow>
     and_then (new_field (field_name f) (int (length (local_vect_sizes_runner f))) (nat n)
                (bytes_per_element f) (bytes_per_element_hidden f)) (\<lambda>f'.
       Inr (f'\<lparr>local_vect_sizes_runner := local_vect_sizes_runner f,
               local_vect_sizes_runner_hidden := local_vect_sizes_runner_hidden f\<rparr>)) = Inr f"

text \<open>An index map with one entry per element, as the client collects it.\<close>

definition map_fits :: "nat list \<Rightarrow> int \<Rightarrow> (int \<times> int) list \<Rightarrow> bool" where
  "map_fits sizes bpe m \<longleftrightarrow> size64 bpe \<noteq> 0 \<and> sum_vec sizes mod size64 bpe = 0 \<and>
     length m = sum_vec sizes div size64 bpe"

lemma recv_index_map_ok:
  "map_fits sizes bpe m \<Longrightarrow> recv_index_map sizes bpe ((Index_map m, snd_more) # w) True s = Inr (m, w, snd_more)"
  by (simp add: map_fits_def recv_index_map_def config_recv_def)

lemma recv_sizes_ok:
  "length sizes = n \<Longrightarrow> recv_sizes n ((Sizes sizes, snd_more) # w) True s = Inr (sizes, w, snd_more)"
  by (simp add: recv_sizes_def config_recv_def)

definition may_register_field :: "runner_rank \<Rightarrow> nat list \<Rightarrow> nat list \<Rightarrow> (int \<times> int) list \<Rightarrow>
    (int \<times> int) list \<Rightarrow> int \<Rightarrow> int \<Rightarrow> 'a server \<Rightarrow> bool" where
  "may_register_field r sizes sizes_hidden m m_hidden bpe bpe_hidden s \<longleftrightarrow>
     phase s = PHASE_INIT \<and> \<not> has_field s \<and> rn_comm_size r = int (length sizes) \<and>
     length sizes_hidden = length sizes \<and> map_fits sizes bpe m \<and> map_fits sizes_hidden bpe_hidden m_hidden"

lemma fold_api_emit: "fold (\<lambda>(f, b). api_emit (Ccon_send f b)) w r = r\<lparr>rn_out := rn_out r @ map (\<lambda>(f, b). Ccon_send f b) w\<rparr>"
  by (induction w arbitrary: r) (auto simp: api_emit_def)

lemma ccon_frames_map: "ccon_frames (map (\<lambda>(f, b). Ccon_send f b) w) = w"
  by (induction w) (auto simp: ccon_frames_def)

lemma field_accepted:
  assumes "may_register_field r sizes sizes_hidden m m_hidden bpe bpe_hidden s"
  shows "\<exists>s'. answer_configuration_message names
       (register_field_frames name n (rn_comm_size r) sizes sizes_hidden m m_hidden bpe bpe_hidden) s = Inr s' \<and>
     has_field s' \<and>
     registered (ENSEMBLE_SIZE s) (the_field s') \<and> field_name (the_field s') = take n name \<and>
     local_vect_sizes_runner (the_field s') = sizes \<and>
     local_vect_sizes_runner_hidden (the_field s') = sizes_hidden \<and>
     bytes_per_element (the_field s') = bpe \<and> bytes_per_element_hidden (the_field s') = bpe_hidden \<and>
     global_index_map s' = m \<and> global_index_map_hidden s' = m_hidden \<and>
     config_reply s s' = [(empty_frame, False)]"
  using assms
  by (simp add: may_register_field_def register_field_frames_def answer_configuration_message_def
      config_recv_def message_type_def REGISTER_RUNNER_ID_def REGISTER_FIELD_def register_field_def new_field_def
      recv_sizes_ok recv_index_map_ok registered_def config_send_def config_reply_def)

text \<open>
  C25. The field arrives as the first runner registers it. Its five frames are accepted in the
  initialisation phase when no field is known yet and there is one index map entry per element of
  the summed sizes. Afterwards rank 0 has the sizes of all runner ranks, both index maps, the
  element sizes and the name, cut to the length of the name buffer, and fresh ensemble members;
  it answers with the empty frame for which the runner waits.
\<close>

theorem field_registration_arrives:
  assumes "may_register_field r sizes sizes_hidden m m_hidden bpe bpe_hidden s"
    and "client_register_field name sizes sizes_hidden m m_hidden bpe bpe_hidden r = Inr r'"
  shows "\<exists>s'. answer_configuration_message names (ccon_frames (drop (length (rn_out r)) (rn_out r'))) s = Inr s' \<and>
     registered (ENSEMBLE_SIZE s) (the_field s') \<and> has_field s' \<and>
     field_name (the_field s') = take (max_processor_name r) name \<and>
     local_vect_sizes_runner (the_field s') = sizes \<and>
     local_vect_sizes_runner_hidden (the_field s') = sizes_hidden \<and>
     bytes_per_element (the_field s') = bpe \<and> bytes_per_element_hidden (the_field s') = bpe_hidden \<and>
     global_index_map s' = m \<and> global_index_map_hidden s' = m_hidden \<and>
     (\<exists>rest. ccon_inbox r = (empty_frame, rest) # ccon_inbox r') \<and> config_reply s s' = [(empty_frame, False)]"
proof -
  let ?w = "register_field_frames name (max_processor_name r) (rn_comm_size r) sizes sizes_hidden m m_hidden bpe bpe_hidden"
  have "ccon_frames (drop (length (rn_out r)) (rn_out r')) = ?w" "\<exists>rest. ccon_inbox r = (empty_frame, rest) # ccon_inbox r'"
    using assms(2)
    by (auto simp: client_register_field_def Let_def fold_api_emit ccon_recv_def and_then_Inr_iff ccon_frames_map
        split: list.splits)
  then show ?thesis
    using field_accepted [OF assms(1), where name = name and n = "max_processor_name r" and names = names] by auto
qed

definition example_map :: "(int \<times> int) list" where
  "example_map = [(0, 0), (1, 0), (2, 0)]"

definition example_registering :: runner_rank where
  "example_registering = (example_runner 0)\<lparr>ccon_inbox := [(empty_frame, False)]\<rparr>"

definition example_sent_field :: runner_rank where
  "example_sent_field = (example_runner 0)\<lparr>rn_out := map (\<lambda>(f, b). Ccon_send f b)
     (register_field_frames ''state'' 256 2 [1, 2] [0, 0] example_map [] 1 1)\<rparr>"

lemma example_may_register: "may_register_field example_registering [1, 2] [0, 0] example_map [] 1 1 registered_runner"
  by (simp add: may_register_field_def example_registering_def example_runner_def registered_runner_def
      map_fits_def sum_vec_def size64_def example_map_def boot_eval no_field_def)

lemma example_client_registers:
  "client_register_field ''state'' [1, 2] [0, 0] example_map [] 1 1 example_registering = Inr example_sent_field"
  by (simp add: client_register_field_def Let_def fold_api_emit ccon_recv_def example_registering_def
      example_sent_field_def example_runner_def)

theorem field_registration_arrives_witness:
  "\<exists>s'. answer_configuration_message example_names
       (register_field_frames ''state'' 256 2 [1, 2] [0, 0] example_map [] 1 1) registered_runner = Inr s' \<and>
     registered 2 (the_field s') \<and> has_field s' \<and> field_name (the_field s') = ''state'' \<and>
     local_vect_sizes_runner (the_field s') = [1, 2] \<and>
     local_vect_sizes_runner_hidden (the_field s') = [0, 0] \<and>
     bytes_per_element (the_field s') = 1 \<and> bytes_per_element_hidden (the_field s') = 1 \<and>
     global_index_map s' = example_map \<and> global_index_map_hidden s' = [] \<and>
     config_reply registered_runner s' = [(empty_frame, False)]"
proof -
  have "ENSEMBLE_SIZE registered_runner = 2" by (simp add: registered_runner_def boot_eval)
  moreover have "ccon_frames (drop (length (rn_out example_registering)) (rn_out example_sent_field)) =
      register_field_frames ''state'' 256 2 [1, 2] [0, 0] example_map [] 1 1"
    by (simp add: example_registering_def example_sent_field_def example_runner_def ccon_frames_map)
  moreover have "max_processor_name example_registering = 256"
    by (simp add: example_registering_def example_runner_def)
  ultimately show ?thesis
    using field_registration_arrives [OF example_may_register example_client_registers, of example_names] by auto
qed

end
