(* ===== verification/Startup.thy ===== *)
theory Startup
  imports Start
begin

text \<open>
  From the registered field to the simulation phase: the broadcast of the field, the scatter of
  the index maps and the first time step, on all server ranks.
\<close>

section \<open>Scattering an index map\<close>

lemma displs_offsets:
  assumes "sum_list counts < (2 ^ 64 :: nat)"
  shows "map (\<lambda>i. size64 (int (sum_list (take i counts)))) [0..<length counts] = offsets counts"
  unfolding offsets_def
proof (rule map_cong [OF refl])
  fix i
  show "size64 (int (sum_list (take i counts))) = sum_list (take i counts)"
    using sum_list_take_le [of i counts] assms by (intro size64_of_nat) simp
qed

definition element_counts :: "nat \<Rightarrow> nat \<Rightarrow> nat \<Rightarrow> nat list" where
  "element_counts c e b = map (\<lambda>n. n div b) (even_split c e b)"

lemma length_element_counts [simp]: "length (element_counts c e b) = c"
  by (simp add: element_counts_def)

lemma element_counts_nth: "q < c \<Longrightarrow> 0 < b \<Longrightarrow> element_counts c e b ! q * b = even_split c e b ! q"
  by (simp add: element_counts_def even_split_nth)

lemma sum_element_counts:
  assumes "0 < c" "0 < b"
  shows "sum_list (element_counts c e b) = e"
proof -
  have "sum_list (element_counts c e b) * b = sum_list (map (\<lambda>n. n div b * b) (even_split c e b))"
    by (simp add: element_counts_def sum_list_mult_const comp_def)
  also have "map (\<lambda>n. n div b * b) (even_split c e b) = even_split c e b"
    by (rule map_idI) (auto simp: even_split_def)
  also have "sum_list (even_split c e b) = e * b" using assms(1) by (rule even_split_sum)
  finally show ?thesis using assms(2) by simp
qed

lemma scatter_ok:
  assumes "index_map_exchange gatherv scatterv" "0 < c" "0 < b" "b < 2 ^ 31" "e < 2 ^ 31"
    and "e * b < 2 ^ 64" "length m = e"
  shows "scatter_index_map scatterv (int c) (e * b) (even_split c e b) m (int b) =
     Inr (split_at (element_counts c e b) m)"
proof -
  have b: "size64 (int b) = b" using assms by (intro size64_of_nat) simp
  have displs: "scatter_displs (element_counts c e b) = offsets (element_counts c e b)"
    unfolding scatter_displs_def
    by (rule displs_offsets) (use assms sum_element_counts [of c b e] in simp)
  have counts: "map (\<lambda>n. n div b) (even_split c e b) = element_counts c e b"
    by (simp add: element_counts_def)
  have "\<forall>n \<in> set (even_split c e b). n mod b = 0"
    by (auto simp: even_split_def)
  moreover have "scatterv m (element_counts c e b) (offsets (element_counts c e b)) (element_counts c e b) =
      Inr (split_at (element_counts c e b) m)"
    by (rule index_map_exchange.scatterv_law [OF assms(1)]) (use assms sum_element_counts [of c b e] in simp)
  ultimately show ?thesis
    unfolding scatter_index_map_def b calculate_local_vect_sizes_server_eq [OF assms(2-6)]
    by (simp add: counts displs)
qed

section \<open>The broadcast of the field\<close>

lemma n_to_m_loop_parts:
  "n_to_m_loop n rs ss st = Inr st' \<Longrightarrow> 0 < n \<Longrightarrow> ns_parts st' \<noteq> []"
proof (induction n arbitrary: st)
  case (Suc n)
  then obtain st1 where "n_to_m_step rs ss st = Inr st1" "n_to_m_loop n rs ss st1 = Inr st'"
    by (auto simp: and_then_Inr_iff)
  moreover from this have "ns_parts st1 \<noteq> []"
    by (auto simp: n_to_m_step_def count_byte_def and_then_Inr_iff Let_def)
  ultimately show ?case using Suc.IH by (cases "n = 0") auto
qed simp

lemma calculate_n_to_m_Nil:
  assumes "calculate_n_to_m c rs b = Inr []" "sum_list rs < 2 ^ 64"
  shows "sum_list rs = 0"
proof (rule ccontr)
  assume "sum_list rs \<noteq> 0"
  then have "sum_vec rs \<noteq> 0" using assms(2) by (simp add: sum_vec_def)
  then obtain ss st st' where "n_to_m_loop (sum_vec rs) rs ss st = Inr st'" "ns_parts st' = []"
    using assms(1) by (auto simp: calculate_n_to_m_def and_then_Inr_iff Let_def)
  then show False using n_to_m_loop_parts \<open>sum_vec rs \<noteq> 0\<close> by blast
qed

text \<open>A rank that waits for the field, in its initialisation phase.\<close>

definition waiting_rank :: "nat \<Rightarrow> nat \<Rightarrow> int \<Rightarrow> 'a server \<Rightarrow> bool" where
  "waiting_rank c q n s \<longleftrightarrow> comm_rank s = int q \<and> comm_size s = int c \<and> ENSEMBLE_SIZE s = n \<and>
     0 < n \<and> int (length (failcount s)) = n \<and> phase s = PHASE_INIT \<and> idle_runners s = [] \<and>
     killed s = [] \<and> unscheduled_tasks s = [] \<and> sub_tasks s = [] \<and> assimilation_cycles s = 0 \<and>
     new_task_inbox s = [] \<and> all_finished_inbox s = 0 \<and>
     (\<forall>r. kill_inbox s r = [] \<and> rank_finished_inbox s r = [])"

definition whole_elements :: "nat \<Rightarrow> nat \<Rightarrow> nat list \<Rightarrow> bool" where
  "whole_elements e b sizes \<longleftrightarrow> sum_list sizes = e * b \<and> e < 2 ^ 31 \<and> e * b < 2 ^ 64 \<and> 0 < b \<and> b < 2 ^ 31"

definition may_start :: "nat \<Rightarrow> nat \<Rightarrow> nat \<Rightarrow> part list \<Rightarrow> part list \<Rightarrow> nat \<Rightarrow> 'a server list \<Rightarrow> bool" where
  "may_start c b bh ps hs max_name ranks \<longleftrightarrow>
     (let root = hd ranks; f = the_field root in
      length ranks = c \<and> (\<forall>q < c. waiting_rank c q (ENSEMBLE_SIZE root) (ranks ! q)) \<and>
      has_field root \<and> registered (ENSEMBLE_SIZE root) f \<and> agreed c b bh ps hs f \<and>
      length (field_name f) < max_name \<and> length (local_vect_sizes_runner f) < 2 ^ 31 \<and>
      whole_elements (length (global_index_map root)) b (local_vect_sizes_runner f) \<and>
      whole_elements (length (global_index_map_hidden root)) bh (local_vect_sizes_runner_hidden f))"

definition with_field :: "field \<Rightarrow> 'a server \<Rightarrow> 'a server" where
  "with_field f s = s\<lparr>the_field := f, has_field := True\<rparr>"

lemma rank_parts_ok:
  assumes reg: "registered (ENSEMBLE_SIZE s) f" and len: "length (local_vect_sizes_runner f) < 2 ^ 31"
    and name: "length (field_name f) < max_name"
    and root: "comm_rank s = 0 \<Longrightarrow> the_field s = f \<and> has_field s"
    and calc: "calculate_parts (comm_rank s) (comm_size s) f = Inr g"
  shows "rank_parts max_name f s = Inr (with_field g s)"
proof -
  have "int32 (int (length (local_vect_sizes_runner f))) = int (length (local_vect_sizes_runner f))"
    using len by (intro int32_id) auto
  moreover obtain f' where "new_field (field_name f) (int (length (local_vect_sizes_runner f)))
        (nat (ENSEMBLE_SIZE s)) (bytes_per_element f) (bytes_per_element_hidden f) = Inr f'"
      "f'\<lparr>local_vect_sizes_runner := local_vect_sizes_runner f,
          local_vect_sizes_runner_hidden := local_vect_sizes_runner_hidden f\<rparr> = f"
    using reg by (auto simp: registered_def and_then_Inr_iff)
  ultimately have "broadcast_field max_name f s = Inr (with_field f s)"
    using name root by (cases "comm_rank s = 0") (auto simp: broadcast_field_def with_field_def)
  then show ?thesis using calc by (simp add: rank_parts_def with_field_def)
qed

lemma map_res_ok: "(\<And>x. x \<in> set xs \<Longrightarrow> f x = Inr (g x)) \<Longrightarrow> map_res f xs = Inr (map g xs)"
  by (induction xs) auto

definition rank_field :: "nat \<Rightarrow> field \<Rightarrow> nat \<Rightarrow> field" where
  "rank_field c f q = (case calculate_parts (int q) (int c) f of Inr g \<Rightarrow> g | Inl _ \<Rightarrow> f)"

lemma agreed_rank_field:
  "agreed c b bh ps hs f \<Longrightarrow> q < c \<Longrightarrow> calculate_parts (int q) (int c) f = Inr (rank_field c f q)"
  using calculate_parts_ok [of c q b bh ps hs f] by (auto simp: agreed_def rank_field_def)

text \<open>The server rank \<open>q\<close> after the broadcast.\<close>

definition started_rank :: "nat \<Rightarrow> nat \<Rightarrow> nat \<Rightarrow> 'a server list \<Rightarrow> nat \<Rightarrow> 'a server" where
  "started_rank c b bh ranks q =
     (let root = hd ranks in
      set_index_maps (with_field (rank_field c (the_field root) q) (ranks ! q))
        (split_at (element_counts c (length (global_index_map root)) b) (global_index_map root) ! q,
         split_at (element_counts c (length (global_index_map_hidden root)) bh)
           (global_index_map_hidden root) ! q))"

lemma map2_set_maps:
  assumes "length ms = c" "length hs = c"
  shows "map2 set_index_maps (map f [0..<c]) (zip ms hs) = map (\<lambda>q. set_index_maps (f q) (ms ! q, hs ! q)) [0..<c]"
  using assms by (intro nth_equalityI) auto

lemma may_startD:
  assumes "may_start c b bh ps hs max_name ranks"
  shows "agreed c b bh ps hs (the_field (hd ranks))" "0 < c" "length ranks = c" "hd ranks = ranks ! 0"
    "whole_elements (length (global_index_map (hd ranks))) b (local_vect_sizes_runner (the_field (hd ranks)))"
    "whole_elements (length (global_index_map_hidden (hd ranks))) bh (local_vect_sizes_runner_hidden (the_field (hd ranks)))"
    "q < c \<Longrightarrow> waiting_rank c q (ENSEMBLE_SIZE (hd ranks)) (ranks ! q)"
    "registered (ENSEMBLE_SIZE (hd ranks)) (the_field (hd ranks))" "has_field (hd ranks)"
  using assms by (auto simp: may_start_def Let_def agreed_def hd_conv_nth)

lemma map_res_map: "map_res (h \<circ> k) xs = map_res h (map k xs)"
  by (induction xs) auto

lemma all_rank_parts:
  assumes start: "may_start c b bh ps hs max_name ranks"
  defines "f \<equiv> the_field (hd ranks)"
  shows "map_res (rank_parts max_name f) ranks = Inr (map (\<lambda>q. with_field (rank_field c f q) (ranks ! q)) [0..<c])"
proof -
  note fs = may_startD [OF start, folded f_def]
  have "rank_parts max_name f (ranks ! q) = Inr (with_field (rank_field c f q) (ranks ! q))" if "q < c" for q
  proof (rule rank_parts_ok)
    show "calculate_parts (comm_rank (ranks ! q)) (comm_size (ranks ! q)) f = Inr (rank_field c f q)"
      using fs(7) [OF that] agreed_rank_field [OF fs(1) that] by (simp add: waiting_rank_def)
    show "registered (ENSEMBLE_SIZE (ranks ! q)) f" using fs(7) [OF that] fs(8) by (simp add: waiting_rank_def)
    show "the_field (ranks ! q) = f \<and> has_field (ranks ! q)" if "comm_rank (ranks ! q) = 0"
      using that fs(7) [OF \<open>q < c\<close>] fs(4,9) by (simp add: waiting_rank_def f_def)
  qed (use start in \<open>simp_all add: may_start_def Let_def f_def\<close>)
  then have "map_res (rank_parts max_name f \<circ> (!) ranks) [0..<c] =
      Inr (map (\<lambda>q. with_field (rank_field c f q) (ranks ! q)) [0..<c])"
    by (intro map_res_ok) simp
  then show ?thesis using fs(3) map_nth [of ranks] by (simp add: map_res_map)
qed

lemma rank_field_sizes:
  assumes ag: "agreed c b bh ps hs f" and w: "whole_elements e b (local_vect_sizes_runner f)"
    "whole_elements eh bh (local_vect_sizes_runner_hidden f)" and q: "q < c"
  shows "local_vect_size (rank_field c f q) = even_split c e b ! q"
    and "local_vect_size_hidden (rank_field c f q) = even_split c eh bh ! q"
proof -
  note g = agreed_field [OF ag q agreed_rank_field [OF ag q]]
  show "local_vect_size (rank_field c f q) = even_split c e b ! q"
    using g(6) w(1) by (simp add: whole_elements_def)
  show "local_vect_size_hidden (rank_field c f q) = even_split c eh bh ! q"
  proof (cases "hs = []")
    case True
    then have "sum_list (local_vect_sizes_runner_hidden f) = 0"
      using ag w(2) by (intro calculate_n_to_m_Nil [of "int c" _ "int bh"])
        (auto simp: agreed_def calculate_parts_pre_def whole_elements_def)
    moreover have "sum_list (local_vect_sizes_runner_hidden f) = eh * bh" "0 < bh"
      using w(2) by (simp_all add: whole_elements_def)
    ultimately have "eh = 0" by (simp del: sum_list_eq_0_iff)
    then show ?thesis using True g(9) q by (simp add: even_split_nth)
  next
    case False
    then show ?thesis using g(8) w(2) by (simp add: whole_elements_def)
  qed
qed

lemma broadcast_ok:
  assumes ex: "index_map_exchange gatherv scatterv" and start: "may_start c b bh ps hs max_name ranks"
  shows "broadcast_field_information_and_calculate_parts scatterv max_name ranks =
     Inr (map (started_rank c b bh ranks) [0..<c])"
proof -
  let ?root = "hd ranks"
  let ?f = "the_field ?root" and ?e = "length (global_index_map ?root)" and ?eh = "length (global_index_map_hidden ?root)"
  let ?qs = "map (\<lambda>q. with_field (rank_field c ?f q) (ranks ! q)) [0..<c]"
  note fs = may_startD [OF start] and w = may_startD(5,6) [OF start]
  have bytes: "bytes_per_element ?f = int b" "bytes_per_element_hidden ?f = int bh"
    using fs(1) by (auto simp: agreed_def calculate_parts_pre_def)
  have sums: "globalVectSize ?f = ?e * b" "globalVectSizeHidden ?f = ?eh * bh"
    using w by (simp_all add: whole_elements_def globalVectSize_def globalVectSizeHidden_def sum_vec_def size64_of_nat
        flip: of_nat_mult)
  have size: "comm_size ?root = int c" using fs(2,4) fs(7) [of 0] by (simp add: waiting_rank_def)
  have sizes: "map (\<lambda>s. local_vect_size (the_field s)) ?qs = even_split c ?e b"
      "map (\<lambda>s. local_vect_size_hidden (the_field s)) ?qs = even_split c ?eh bh"
    using rank_field_sizes [OF fs(1) w] by (intro nth_equalityI; simp add: with_field_def)+
  have scat: "scatter_index_map scatterv (int c) (?e * b) (even_split c ?e b) (global_index_map ?root) (int b) =
        Inr (split_at (element_counts c ?e b) (global_index_map ?root))"
      "scatter_index_map scatterv (int c) (?eh * bh) (even_split c ?eh bh) (global_index_map_hidden ?root) (int bh) =
        Inr (split_at (element_counts c ?eh bh) (global_index_map_hidden ?root))"
    using scatter_ok [OF ex fs(2)] w by (simp_all add: whole_elements_def)
  show ?thesis
    unfolding broadcast_field_information_and_calculate_parts_def Let_def all_rank_parts [OF start] and_then_simps
      sums size bytes sizes scat
    by (simp add: map2_set_maps started_rank_def [abs_def] Let_def)
qed

section \<open>The way of the index maps\<close>

text \<open>The index map of each runner rank has one entry per element of the rank.\<close>

definition maps_fit :: "nat list \<Rightarrow> nat \<Rightarrow> (int \<times> int) list list \<Rightarrow> bool" where
  "maps_fit sizes b maps \<longleftrightarrow> map (\<lambda>m. length m * b) maps = sizes"

lemma maps_fit_counts:
  "maps_fit sizes b maps \<Longrightarrow> 0 < b \<Longrightarrow> map (\<lambda>n. n div b) sizes = map length maps"
  by (auto simp: maps_fit_def)

lemma maps_fit_sum: "maps_fit sizes b maps \<Longrightarrow> sum_list sizes = length (concat maps) * b"
  by (auto simp: maps_fit_def length_concat sum_list_mult_const)

lemma gather_ok:
  assumes ex: "index_map_exchange gatherv scatterv" and fit: "maps_fit sizes b maps"
    and b: "0 < b" "b < 2 ^ 31" and len: "length (concat maps) < 2 ^ 31" "length buf = length (concat maps)"
  shows "gather_global_index_map gatherv (Some maps) buf sizes (int b) = Inr (concat maps)"
proof -
  have b64: "size64 (int b) = b" using b by (intro size64_of_nat) simp
  have sum: "sum_list (map length maps) = length (concat maps)" by (simp add: length_concat)
  have "gather_displs (map length maps) = offsets (map length maps)"
    unfolding gather_displs_def by (rule displs_offsets) (use sum len in simp)
  moreover have "map (\<lambda>(m, n). take n m) (zip maps (map length maps)) = maps"
    by (intro nth_equalityI) auto
  moreover have "gatherv maps (map length maps) (offsets (map length maps)) buf = Inr (concat maps)"
    by (rule index_map_exchange.gatherv_law [OF ex]) (use sum len in simp)
  ultimately show ?thesis
    using b by (simp add: gather_global_index_map_def b64 maps_fit_counts [OF fit b(1)])
qed

lemma global_elements_ok:
  "whole_elements e b sizes \<Longrightarrow> global_elements sizes (int b) = Inr e"
  by (simp add: whole_elements_def global_elements_def sum_vec_def size64_of_nat flip: of_nat_mult)

lemma rank0_index_maps_ok:
  assumes ex: "index_map_exchange gatherv scatterv"
    and fit: "maps_fit sizes b maps" "whole_elements (length (concat maps)) b sizes"
    and fit_h: "maps_fit sizes_h bh maps_h" "whole_elements (length (concat maps_h)) bh sizes_h"
  shows "rank0_index_maps gatherv (Some maps) (Some maps_h) sizes sizes_h (int b) (int bh) =
     Inr (concat maps, concat maps_h)"
  using gather_ok [OF ex fit(1)] gather_ok [OF ex fit_h(1)] fit(2) fit_h(2)
  by (simp add: rank0_index_maps_def global_elements_ok [OF fit(2)] global_elements_ok [OF fit_h(2)] whole_elements_def)

definition all_local_maps :: "'a server list \<Rightarrow> (int \<times> int) list" where
  "all_local_maps ranks = concat (map (\<lambda>s. local_index_map (the_field s)) ranks)"

definition all_local_maps_hidden :: "'a server list \<Rightarrow> (int \<times> int) list" where
  "all_local_maps_hidden ranks = concat (map (\<lambda>s. local_index_map_hidden (the_field s)) ranks)"

lemma started_maps:
  "local_index_map (the_field (started_rank c b bh ranks q)) =
     split_at (element_counts c (length (global_index_map (hd ranks))) b) (global_index_map (hd ranks)) ! q"
  "local_index_map_hidden (the_field (started_rank c b bh ranks q)) =
     split_at (element_counts c (length (global_index_map_hidden (hd ranks))) bh) (global_index_map_hidden (hd ranks)) ! q"
  "local_vect_size (the_field (started_rank c b bh ranks q)) =
     local_vect_size (rank_field c (the_field (hd ranks)) q)"
  by (simp_all add: started_rank_def Let_def set_index_maps_def with_field_def)

lemma concat_map_nth: "length xss = c \<Longrightarrow> concat (map (\<lambda>q. xss ! q) [0..<c]) = concat xss"
  using map_nth [of xss] by simp

text \<open>
  C26. The index maps arrive in order. What rank 0 of the runner gathers from all runner ranks and
  registers is, after the broadcast, cut among the server ranks: concatenated in rank order, the
  local maps of the server ranks are the local maps of the runner ranks, for the assimilated and
  for the hidden state, and every server rank has one entry per element of its local vector. The
  collectives only have to keep the documented laws of gather and scatter.
\<close>

theorem index_maps_arrive:
  assumes "index_map_exchange gatherv scatterv" "may_start c b bh ps hs max_name ranks"
    and "maps_fit (local_vect_sizes_runner (the_field (hd ranks))) b maps"
    and "maps_fit (local_vect_sizes_runner_hidden (the_field (hd ranks))) bh maps_h"
    and "rank0_index_maps gatherv (Some maps) (Some maps_h) (local_vect_sizes_runner (the_field (hd ranks)))
           (local_vect_sizes_runner_hidden (the_field (hd ranks))) (int b) (int bh) =
         Inr (global_index_map (hd ranks), global_index_map_hidden (hd ranks))"
  shows "\<exists>ranks'. broadcast_field_information_and_calculate_parts scatterv max_name ranks = Inr ranks' \<and>
     length ranks' = c \<and> all_local_maps ranks' = concat maps \<and> all_local_maps_hidden ranks' = concat maps_h \<and>
     (\<forall>q < c. length (local_index_map (the_field (ranks' ! q))) * b = local_vect_size (the_field (ranks' ! q)))"
proof -
  let ?root = "hd ranks"
  let ?m = "global_index_map ?root" and ?mh = "global_index_map_hidden ?root"
  note fs = may_startD [OF assms(2)]
  have pos: "0 < b" "0 < bh" using fs(5,6) by (simp_all add: whole_elements_def)
  then have "length ?m = length (concat maps)" "length ?mh = length (concat maps_h)"
    using maps_fit_sum [OF assms(3)] maps_fit_sum [OF assms(4)] fs(5,6) by (simp_all add: whole_elements_def)
  then have "Inr (?m, ?mh) = (Inr (concat maps, concat maps_h) :: (_ \<times> _) res)"
    using rank0_index_maps_ok [OF assms(1,3) _ assms(4)] fs(5,6) assms(5) by simp
  then have m: "?m = concat maps" "?mh = concat maps_h" by simp_all
  have cut: "concat (split_at (element_counts c (length ?m) b) ?m) = ?m"
      "concat (split_at (element_counts c (length ?mh) bh) ?mh) = ?mh"
    by (rule concat_split_at, rule sum_element_counts, use fs(2) pos in simp_all)+
  have "length (split_at (element_counts c (length ?m) b) ?m ! q) = element_counts c (length ?m) b ! q" if "q < c" for q
    using map_length_split_at [of "element_counts c (length ?m) b" ?m] sum_element_counts [OF fs(2) pos(1), of "length ?m"] that
    by (metis length_element_counts length_split_at nth_map order_refl)
  then have lens: "length (split_at (element_counts c (length ?m) b) ?m ! q) * b =
      local_vect_size (rank_field c (the_field ?root) q)" if "q < c" for q
    using that element_counts_nth [OF that pos(1)] rank_field_sizes(1) [OF fs(1,5,6) that] by simp
  show ?thesis
    unfolding broadcast_ok [OF assms(1,2)]
    by (intro exI [of _ "map (started_rank c b bh ranks) [0..<c]"])
      (use cut lens m in \<open>simp add: all_local_maps_def all_local_maps_hidden_def comp_def started_maps concat_map_nth\<close>)
qed

section \<open>The first time step\<close>

lemma registered_members:
  assumes "registered n f"
  shows "length (ensemble_members f) = nat n"
proof -
  obtain f' where f': "new_field (field_name f) (int (length (local_vect_sizes_runner f))) (nat n)
        (bytes_per_element f) (bytes_per_element_hidden f) = Inr f'"
      "f'\<lparr>local_vect_sizes_runner := local_vect_sizes_runner f,
          local_vect_sizes_runner_hidden := local_vect_sizes_runner_hidden f\<rparr> = f"
    using assms by (auto simp: registered_def and_then_Inr_iff)
  have "length (ensemble_members f') = nat n" using f'(1) by (auto simp: new_field_def)
  moreover have "ensemble_members f' = ensemble_members f"
    using arg_cong [OF f'(2), of ensemble_members] by simp
  ultimately show ?thesis by simp
qed

lemma started_base_inv:
  assumes start: "may_start c b bh ps hs max_name ranks" and q: "q < c"
  shows "base_inv (started_rank c b bh ranks q)" and "waiting_rank c q (ENSEMBLE_SIZE (hd ranks)) (started_rank c b bh ranks q)"
proof -
  let ?f = "the_field (hd ranks)"
  note fs = may_startD [OF start]
  note g = agreed_field [OF fs(1) q agreed_rank_field [OF fs(1) q]]
  have n: "length (ensemble_members ?f) = nat (ENSEMBLE_SIZE (hd ranks))"
    using fs(8) by (rule registered_members)
  show w: "waiting_rank c q (ENSEMBLE_SIZE (hd ranks)) (started_rank c b bh ranks q)"
    using fs(7) [OF q] by (simp add: waiting_rank_def started_rank_def Let_def set_index_maps_def with_field_def sub_tasks_def)
  have "field_ready (int q) (f\<lparr>local_index_map := m, local_index_map_hidden := mh\<rparr>) = field_ready (int q) f" for f m mh
    by (simp add: field_ready_def members_sized_def getPart_def getPartHidden_def cong: if_cong)
  then show "base_inv (started_rank c b bh ranks q)"
    using g(3,5) n w fs(7) [OF q]
    by (simp add: base_inv_def idle_inv_def waiting_rank_def started_rank_def Let_def set_index_maps_def with_field_def)
qed

text \<open>The first time step of a rank that waited.\<close>

lemma base_inv_created:
  assumes "base_inv s" "same_shape (the_field s) f"
  shows "base_inv (s\<lparr>the_assimilator := a, the_field := f, current_nsteps := n\<rparr>)"
  using assms same_shape_fields [OF assms(2)]
  by (simp add: base_inv_def idle_inv_def)

lemma first_timestep_total:
  assumes "assimilation_cycles s = 0" "sub_tasks s = []" "unscheduled_tasks s = []"
  shows "\<exists>s'. init_new_timestep s = Inr s' \<and> unscheduled_tasks s' = [0..ENSEMBLE_SIZE s - 1] \<and>
     scheduled_sub_tasks s' = [] \<and> current_step s' = current_step s + current_nsteps s \<and>
     comm_size s' = comm_size s"
proof -
  obtain as where "trigger_idle ''START_IDLE_RUNNER'' t = emits (as t) t" for t :: "'a server"
    using trigger_idle_emits by metis
  then show ?thesis
    using assms by (simp add: init_new_timestep_def sub_tasks_def Let_def)
qed

section \<open>An example\<close>

definition example_root :: "stepper server" where
  "example_root = registered_runner\<lparr>the_field := example_field, has_field := True, global_index_map := example_map\<rparr>"

definition example_ranks :: "stepper server list" where
  "example_ranks = [example_root, globals 1 2 2 5 False 100 \<lparr>nsteps = 1, total_steps = 3\<rparr>]"

lemma example_may_start: "may_start 2 1 1 example_parts [] 256 example_ranks"
proof -
  have "registered 2 example_field"
    by (simp add: registered_def new_field_def example_field_def numeral_2_eq_2)
  moreover have "local_vect_sizes_runner example_field = [1, 2]" "local_vect_sizes_runner_hidden example_field = [0, 0]"
      "field_name example_field = ''state''"
    by (simp_all add: example_field_def)
  moreover have "waiting_rank 2 q 2 (example_ranks ! q)" if "q < 2" for q
    using that by (auto simp: less_2_cases_iff waiting_rank_def example_ranks_def example_root_def registered_runner_def
        boot_eval sub_tasks_def)
  moreover have "ENSEMBLE_SIZE example_root = 2"
    by (simp add: example_root_def registered_runner_def boot_eval)
  ultimately show ?thesis
    using example_agreed
    by (simp add: may_start_def example_ranks_def whole_elements_def example_root_def example_map_def
        registered_runner_def boot_eval cong: conj_cong)
qed

lemma example_maps: "maps_fit [1, 2] 1 [[(0, 0)], [(1, 0), (2, 0)]]" "maps_fit [0, 0] 1 [[], []]"
  by (simp_all add: maps_fit_def)

lemma example_root_simps:
  "the_field (hd example_ranks) = example_field" "global_index_map (hd example_ranks) = concat [[(0, 0)], [(1, 0), (2, 0)]]"
  "global_index_map_hidden (hd example_ranks) = concat [[], []]" "ENSEMBLE_SIZE (hd example_ranks) = 2"
  "local_vect_sizes_runner example_field = [1, 2]" "local_vect_sizes_runner_hidden example_field = [0, 0]"
  by (simp_all add: example_ranks_def example_root_def example_map_def registered_runner_def boot_eval example_field_def)

theorem index_maps_arrive_witness:
  "\<exists>ranks'. broadcast_field_information_and_calculate_parts slow_MPI_Scatterv 256 example_ranks = Inr ranks' \<and>
     length ranks' = 2 \<and> all_local_maps ranks' = concat [[(0, 0)], [(1, 0), (2, 0)]] \<and>
     all_local_maps_hidden ranks' = concat [[], []] \<and>
     (\<forall>q < 2. length (local_index_map (the_field (ranks' ! q))) * 1 = local_vect_size (the_field (ranks' ! q)))"
proof -
  have "rank0_index_maps slow_MPI_Gatherv (Some [[(0, 0)], [(1, 0), (2, 0)]]) (Some [[], []]) [1, 2] [0, 0] (int 1) (int 1) =
      Inr (concat [[(0, 0)], [(1, 0), (2, 0)]], concat [[], []])"
    by (rule rank0_index_maps_ok [OF files.index_map_exchange_axioms])
      (simp_all add: maps_fit_def whole_elements_def)
  then show ?thesis
    using index_maps_arrive [OF files.index_map_exchange_axioms example_may_start] example_maps
    unfolding example_root_simps by blast
qed

end
