(* ===== verification/Cluster.thy ===== *)
theory Cluster
  imports FollowerSteps Startup
begin

text \<open>
  All ranks of the server together: one iteration of the main loop on one rank, the MPI messages
  between the ranks, which arrive in the order they were sent per sender, receiver and tag, and
  the collective update step. Every handler keeps the protocol of theory Protocol.
\<close>

section \<open>One iteration of the main loop\<close>

record events =
  ev_names :: "string list"
  ev_config :: wire
  ev_launcher :: bool

definition server_iteration :: "'a assimilator_ops \<Rightarrow> int \<Rightarrow> events \<Rightarrow> 'a server \<Rightarrow> ('a, bool \<times> 'a server) sres" where
  "server_iteration ops bcast ev s =
     and_then (rank0_events (ev_names ev) (ev_config ev) (ev_launcher ev) s) (simulation_step ops bcast)"

text \<open>The part of the iteration before check\_finished.\<close>

definition iteration_prefix :: "'a assimilator_ops \<Rightarrow> events \<Rightarrow> 'a server \<Rightarrow> ('a, 'a server) sres" where
  "iteration_prefix ops ev s =
     and_then (rank0_events (ev_names ev) (ev_config ev) (ev_launcher ev) s) (\<lambda>s.
     and_then (check_dates_and_requests s) (\<lambda>s.
     and_then (if comm_rank s \<noteq> 0 then check_schedule_new_tasks s else Inr s) (\<lambda>s.
     if data_socket s \<noteq> [] then handle_data_response ops s else Inr s)))"

lemma and_then_assoc: "and_then (and_then m f) g = and_then m (\<lambda>x. and_then (f x) g)"
  by (cases m) auto

lemma server_iteration_eq:
  "server_iteration ops bcast ev s = and_then (iteration_prefix ops ev s) (\<lambda>s.
     and_then (check_finished ops bcast s) (\<lambda>(ended, s).
     if ended then Inr (True, s) else ensure (tasks_conserved s) s (Inr (False, s))))"
proof -
  have "simulation_step ops bcast = (\<lambda>s. simulation_step ops bcast s)" by (rule refl)
  then show ?thesis
    unfolding server_iteration_def iteration_prefix_def and_then_assoc simulation_step_def by simp
qed

lemma server_iteration_Inr:
  assumes "server_iteration ops bcast ev s = Inr (False, s')"
  shows "\<exists>s1. iteration_prefix ops ev s = Inr s1 \<and> check_finished ops bcast s1 = Inr (False, s')"
proof -
  obtain s1 e s2 where "iteration_prefix ops ev s = Inr s1" "check_finished ops bcast s1 = Inr (e, s2)"
      "(if e then Inr (True, s2) else ensure (tasks_conserved s2) s2 (Inr (False, s2))) = Inr (False, s')"
    using assms unfolding server_iteration_eq and_then_Inr_iff by auto
  then show ?thesis by (cases e) auto
qed

section \<open>Events of rank 0\<close>

lemma register_in_simulation:
  "phase s = PHASE_SIMULATION \<Longrightarrow> register_field msg w b s \<noteq> Inr s'"
  by (simp add: register_field_def)

lemma keeps_connection [simp]:
  "keeps s (s'\<lparr>due_date_launcher := d\<rparr>) = keeps s s'"
  "keeps s (s'\<lparr>next_message_date_to_launcher := d\<rparr>) = keeps s s'"
  "keeps s (s'\<lparr>register_field_flag := b\<rparr>) = keeps s s'"
  by (simp_all add: keeps_def surroundings_def followed_def sub_tasks_def sends_def would_finish_def
      all_finished_size_def)

lemma inv_connection [simp]:
  "server_inv (s\<lparr>due_date_launcher := d\<rparr>) = server_inv s"
  "server_inv (s\<lparr>next_message_date_to_launcher := d\<rparr>) = server_inv s"
  "server_inv (s\<lparr>register_field_flag := b\<rparr>) = server_inv s"
  "server_inv (s\<lparr>launcher_notified_about_runner := m\<rparr>) = server_inv s"
  "server_inv (s\<lparr>now := t\<rparr>) = server_inv s"
  by (simp_all add: server_inv_def base_inv_def idle_inv_def sub_tasks_def)

lemma ping_keeps: "keeps s (ping s)" "server_inv (ping s) = server_inv s"
  by (simp_all add: ping_def updateLauncherNextMessageDate_def emit_emits keeps_emits)

lemma receiveText_keeps: "keeps s (receiveText s)" "server_inv (receiveText s) = server_inv s"
  by (simp_all add: receiveText_def updateLauncherDueDate_def)

lemma answer_configuration_keeps:
  assumes "answer_configuration_message names w s = Inr s'" "phase s = PHASE_SIMULATION"
  shows "keeps s s'" "server_inv s' = server_inv s"
proof -
  obtain msg where "register_runner_id msg names s = Inr s'"
    using assms by (auto simp: answer_configuration_message_def and_then_Inr_iff register_in_simulation
        split: option.splits if_splits)
  then obtain rid where s': "s' = config_send (Names names) False
      ((config_send (Ints [if register_field_flag s then 1 else 0, comm_size s]) True
        (s\<lparr>launcher_notified_about_runner := om_assign rid False (launcher_notified_about_runner s)\<rparr>))
       \<lparr>register_field_flag := False\<rparr>)"
    by (auto simp: register_runner_id_def Let_def config_send_def split: frame.splits list.splits)
  show "keeps s s'" "server_inv s' = server_inv s"
    unfolding s' config_send_def by (simp_all add: keeps_emits)
qed

lemma rank0_events_keeps:
  assumes "rank0_events names w text s = Inr s'" "phase s = PHASE_SIMULATION"
  shows "keeps s s' \<and> server_inv s' = server_inv s"
proof (cases "comm_rank s = 0")
  case False
  with assms show ?thesis by (simp add: rank0_events_def)
next
  case True
  then obtain s1 where s1: "(if w = [] then Inr s else answer_configuration_message names w s) = Inr s1"
      and s': "s' = ping (receiveText s1) \<or> s' = ping s1"
    using assms(1) by (auto simp: rank0_events_def and_then_Inr_iff split: if_splits)
  have k1: "keeps s s1" "server_inv s1 = server_inv s"
    using s1 answer_configuration_keeps [OF _ assms(2)] by (auto split: if_splits)
  have "keeps s1 s' \<and> server_inv s' = server_inv s1"
    using s' ping_keeps receiveText_keeps keeps_trans by blast
  with k1 show ?thesis using keeps_trans by blast
qed

lemma requests_valid_keeps: "keeps s s' \<Longrightarrow> requests_valid s \<Longrightarrow> requests_valid s'"
  using owned_mset [of s' s] by (simp add: requests_valid_def keeps_def surroundings_def)

lemma new_task_valid_keeps: "keeps s s' \<Longrightarrow> new_task_valid nt s \<Longrightarrow> new_task_valid nt s'"
  using owned_mset [of s' s] by (simp add: new_task_valid_def keeps_def surroundings_def)

section \<open>The prefix keeps the protocol\<close>

context assimilator
begin

lemma prefix_takes:
  assumes inv: "server_inv s" and c: "comm_rank s = 0" and p: "phase s = PHASE_SIMULATION"
    and v: "requests_valid s" and i: "iteration_prefix ops ev s = Inr s'"
  shows "takes_requests s s'"
proof -
  obtain s1 where s1: "rank0_events (ev_names ev) (ev_config ev) (ev_launcher ev) s = Inr s1"
      and r1: "and_then (check_dates_and_requests s1) (\<lambda>s.
        and_then (if comm_rank s \<noteq> 0 then check_schedule_new_tasks s else Inr s) (\<lambda>s.
        if data_socket s \<noteq> [] then handle_data_response ops s else Inr s)) = Inr s'"
    using i unfolding iteration_prefix_def and_then_Inr_iff [of "rank0_events _ _ _ _"] by blast
  then obtain s2 where s2: "check_dates_and_requests s1 = Inr s2"
      and r2: "and_then (if comm_rank s2 \<noteq> 0 then check_schedule_new_tasks s2 else Inr s2) (\<lambda>s.
        if data_socket s \<noteq> [] then handle_data_response ops s else Inr s) = Inr s'"
    unfolding and_then_Inr_iff [of "check_dates_and_requests _"] by blast
  have k: "keeps s s1" "server_inv s1" using rank0_events_keeps [OF s1 p] inv by auto
  then have c1: "comm_rank s1 = 0" using c by (simp add: keeps_def surroundings_def)
  have t1: "takes_requests s s1" using leads_takes [OF keeps_leads [OF k]] .
  have t2: "takes_requests s1 s2"
    by (rule check_dates_takes [OF k(2) c1 requests_valid_keeps [OF k(1) v] s2])
  note f2 = takes_requests_facts [OF t2]
  have "leads s2 s'"
    using r2 f2 c1 handle_data_response_leads [OF f2(1)] leads_refl [OF f2(1)] by (auto split: if_splits)
  with t1 t2 show ?thesis using leads_takes takes_requests_trans by blast
qed

lemma prefix_follows:
  assumes inv: "server_inv s" and c: "comm_rank s \<noteq> 0" and p: "phase s = PHASE_SIMULATION"
    and v: "case new_task_inbox s of [] \<Rightarrow> True | nt # _ \<Rightarrow> new_task_valid nt s"
    and i: "iteration_prefix ops ev s = Inr s'"
  shows "follows s s'"
proof -
  obtain s2 s3 where s2: "check_dates_and_requests s = Inr s2"
      and s3: "(if comm_rank s2 \<noteq> 0 then check_schedule_new_tasks s2 else Inr s2) = Inr s3"
      and s': "(if data_socket s3 \<noteq> [] then handle_data_response ops s3 else Inr s3) = Inr s'"
    using i c unfolding iteration_prefix_def by (auto simp only: rank0_events_def and_then_Inr_iff if_True and_then_simps simp_thms)
  have f2: "follows s s2" by (rule check_dates_follows [OF inv c s2])
  note g2 = follows_rank [OF f2]
  have "environment_ok s" using v c by (simp add: environment_ok_def)
  from check_dates_inv [OF inv this s2] c
  have "case new_task_inbox s2 of [] \<Rightarrow> True | nt # _ \<Rightarrow> new_task_valid nt s2" by blast
  moreover have "check_schedule_new_tasks s2 = Inr s3" "comm_rank s2 \<noteq> 0" using s3 g2(1) c by auto
  ultimately have f3: "follows s2 s3" using check_schedule_follows [OF g2(2)] by blast
  note g3 = follows_rank [OF f3]
  have "follows s3 s'"
    using s' g3 c g2(1) handle_data_response_follows [OF g3(2)] follows_refl [OF g3(2)] by (auto split: if_splits)
  with f2 f3 show ?thesis using follows_trans by blast
qed

end

section \<open>Finishing a time step\<close>

lemma probe_read:
  "finished_ranks (probe_rank_finished r s) = le_counted
     (case rank_finished_inbox s r of [] \<Rightarrow> leader_of s | h # _ \<Rightarrow> count_report h (leader_of s))"
  "leader_of (probe_rank_finished r s) =
     (case rank_finished_inbox s r of [] \<Rightarrow> leader_of s | h # _ \<Rightarrow> count_report h (leader_of s))"
  "rank_finished_inbox (probe_rank_finished r s) = (rank_finished_inbox s)(r := tl (rank_finished_inbox s r))"
  by (auto simp: probe_rank_finished_def leader_of_def count_report_def Let_def owned_def sub_tasks_def
      fun_eq_iff split: list.splits)

text \<open>What probing leaves alone.\<close>

definition but_reports :: "'a server \<Rightarrow> 'a server \<Rightarrow> bool" where
  "but_reports s s' \<longleftrightarrow> server_inv s' = server_inv s \<and>
     surroundings (s'\<lparr>rank_finished_inbox := rank_finished_inbox s\<rparr>) = surroundings s \<and>
     sends s' = sends s \<and> would_finish s' = would_finish s"

lemma but_reports_trans: "but_reports s s' \<Longrightarrow> but_reports s' s'' \<Longrightarrow> but_reports s s''"
  by (simp add: but_reports_def surroundings_def)

lemma probe_but_reports: "but_reports s (probe_rank_finished r s)"
  by (auto simp: probe_rank_finished_def but_reports_def Let_def surroundings_def sends_def would_finish_def
      all_finished_size_def server_inv_def base_inv_def idle_inv_def sub_tasks_def split: list.splits)

lemma fold_probe_but_reports: "but_reports s (fold probe_rank_finished rs s)"
proof (induction rs arbitrary: s)
  case Nil
  show ?case by (simp add: but_reports_def)
next
  case (Cons r rs)
  from but_reports_trans [OF probe_but_reports Cons.IH] show ?case by simp
qed

text \<open>Rank 0 reads reports: \<open>R q\<close> are those of rank q that are still on their way.\<close>

definition with_reports :: "int \<Rightarrow> (int \<Rightarrow> int list) \<Rightarrow> 'a server \<Rightarrow> (int \<Rightarrow> follower) \<Rightarrow> int \<Rightarrow> follower" where
  "with_reports m R s F q =
     (if 1 \<le> q \<and> q < m then (F q)\<lparr>fo_reports := rank_finished_inbox s q @ R q\<rparr> else F q)"

lemma probe_protocol:
  assumes q: "1 \<le> q" "q < m"
  shows "protocol_steps m n (leader_of s, with_reports m R s F)
     (leader_of (probe_rank_finished q s), with_reports m R (probe_rank_finished q s) F)"
proof (cases "rank_finished_inbox s q")
  case Nil
  then have "with_reports m R (probe_rank_finished q s) F = with_reports m R s F"
    by (auto simp: with_reports_def probe_read fun_eq_iff)
  with Nil show ?thesis by (simp add: probe_read)
next
  case (Cons h rest)
  have r: "fo_reports (with_reports m R s F q) = h # (rest @ R q)" using q by (simp add: with_reports_def Cons)
  have "with_reports m R (probe_rank_finished q s) F =
      (with_reports m R s F)(q := (with_reports m R s F q)\<lparr>fo_reports := rest @ R q\<rparr>)"
    using q by (auto simp: with_reports_def probe_read Cons fun_eq_iff)
  with ps_report [where F = "with_reports m R s F", OF q r] show ?thesis by (simp add: probe_read Cons r_into_rtranclp)
qed

lemma fold_probe_protocol:
  "set rs \<subseteq> {1..<m} \<Longrightarrow> protocol_steps m n (leader_of s, with_reports m R s F)
     (leader_of (fold probe_rank_finished rs s), with_reports m R (fold probe_rank_finished rs s) F)"
proof (induction rs arbitrary: s)
  case (Cons r rs)
  have "protocol_steps m n (leader_of s, with_reports m R s F)
      (leader_of (probe_rank_finished r s), with_reports m R (probe_rank_finished r s) F)"
    by (rule probe_protocol) (use Cons.prems in auto)
  with Cons.IH [of "probe_rank_finished r s"] Cons.prems show ?case by (auto intro: rtranclp_trans)
qed simp

text \<open>A follower that has finished reports it once, and waits for All\_finished.\<close>

lemma synchronize_follows:
  assumes inv: "server_inv s" and c: "comm_rank s \<noteq> 0" and w: "would_finish s"
    and e: "synchronize_finish s = (b, s')"
  shows "b = (all_finished_inbox s \<noteq> 0)" "all_finished_inbox s = 0 \<Longrightarrow> follows s s'"
    "highest_sent_task_id s \<ge> highest_received_task_id s \<Longrightarrow>
       s' = (if b then s\<lparr>all_finished_inbox := all_finished_inbox s - 1\<rparr> else s)"
proof -
  define s1 where "s1 = (if highest_sent_task_id s < highest_received_task_id s
     then emits [Mpi_send 0 (Rank_finished (highest_received_task_id s))]
       (s\<lparr>highest_sent_task_id := highest_received_task_id s\<rparr>) else s)"
  have a1: "all_finished_inbox s1 = all_finished_inbox s" by (simp add: s1_def)
  have e1: "(b, s') = (case all_finished_inbox s1 of 0 \<Rightarrow> (False, s1) | Suc n \<Rightarrow> (True, s1\<lparr>all_finished_inbox := n\<rparr>))"
    using e c unfolding synchronize_finish_def Let_def s1_def [symmetric] by simp
  then show "b = (all_finished_inbox s \<noteq> 0)" by (simp add: a1 split: nat.splits)
  show "highest_sent_task_id s \<ge> highest_received_task_id s \<Longrightarrow>
       s' = (if b then s\<lparr>all_finished_inbox := all_finished_inbox s - 1\<rparr> else s)"
    using e1 by (auto simp: s1_def split: nat.splits)
  assume "all_finished_inbox s = 0"
  then have s': "s' = s1" using e1 a1 by simp
  show "follows s s'"
  proof (cases "highest_sent_task_id s < highest_received_task_id s")
    case False
    then show ?thesis using s' follows_refl [OF inv] by (simp add: s1_def)
  next
    case True
    let ?m = "Rank_finished (highest_received_task_id s)"
    let ?h = "s\<lparr>highest_sent_task_id := highest_received_task_id s\<rparr>"
    have eq: "s' = emits [Mpi_send 0 ?m] ?h" using True s' by (simp add: s1_def)
    have "server_inv ?h" using inv by (simp add: server_inv_def base_inv_def idle_inv_def sub_tasks_def)
    moreover have "owned t ?h = owned t s" "would_finish ?h" for t
      using w by (simp_all add: owned_def sub_tasks_def would_finish_def all_finished_size_def)
    then have f: "follower_of pend (reqs @ requests_in [?m]) (reps @ reports_in [?m]) s' =
        (follower_of pend reqs reps s)\<lparr>fo_sent := fo_received (follower_of pend reqs reps s),
          fo_reports := fo_reports (follower_of pend reqs reps s) @ [fo_received (follower_of pend reqs reps s)]\<rparr>"
      for pend reqs reps
      using w by (simp add: eq follower_of_def)
    ultimately show ?thesis
    proof (intro follows_step [of s' s "[?m]"])
      fix pend reqs reps
      show "follower_step (ENSEMBLE_SIZE s) (follower_of pend reqs reps s)
          (follower_of pend (reqs @ requests_in [?m]) (reps @ reports_in [?m]) s')"
        unfolding f by (rule fo_report) (use w True in \<open>simp_all add: follower_of_def\<close>)
    qed (simp_all add: eq from_follower_def surroundings_def sends_def)
  qed
qed

section \<open>The update step\<close>

lemma trigger_silent: "\<exists>as. trigger ev p s = emits as s \<and> mpi_sends as = []"
  by (rule exI [of _ "if report_timing s \<and> comm_rank s = 0 then [Trigger ev p] else []"]) (simp add: trigger_def)

lemma trigger_idle_silent: "\<exists>as. trigger_idle ev s = emits as s \<and> mpi_sends as = []"
proof -
  have "\<exists>as. fold (\<lambda>(r, _). trigger ev r) rs s = emits as s \<and> mpi_sends as = []" for rs :: "(int \<times> 'b) list" and s
  proof (induction rs arbitrary: s)
    case Nil
    show ?case by (rule exI [of _ "[]"]) simp
  next
    case (Cons x rs)
    obtain as where "trigger ev (fst x) s = emits as s" "mpi_sends as = []" using trigger_silent by blast
    moreover obtain bs where "fold (\<lambda>(r, _). trigger ev r) rs (emits as s) = emits bs (emits as s)" "mpi_sends bs = []"
      using Cons.IH by blast
    ultimately show ?case by (intro exI [of _ "as @ bs"]) (simp add: split_def)
  qed
  then show ?thesis unfolding trigger_idle_def by blast
qed

lemma keeps_update [simp]:
  "keeps s (s'\<lparr>current_nsteps := n\<rparr>) = keeps s s'"
  by (simp add: keeps_def surroundings_def followed_def sub_tasks_def sends_def would_finish_def
      all_finished_size_def)

lemma keeps_trigger_idle [simp]: "keeps s (trigger_idle ev s') = keeps s s'"
proof -
  obtain as where "trigger_idle ev s' = emits as s'" "mpi_sends as = []" using trigger_idle_silent by blast
  then show ?thesis by (simp add: keeps_def)
qed

context assimilator
begin

lemma run_analysis_keeps:
  assumes "run_analysis ops bcast s = Inr s'"
  shows "\<exists>s1 as. keeps s s1 \<and> mpi_sends as = [] \<and>
     s' = emits as (s1\<lparr>assimilation_cycles := (assimilation_cycles s + 1) mod 2 ^ 32\<rparr>)"
proof -
  let ?t = "trigger ''START_FILTER_UPDATE'' (current_step s) s"
  have fields: "current_step ?t = current_step s" "the_assimilator ?t = the_assimilator s" "the_field ?t = the_field s"
    by simp_all
  obtain r where r: "do_update_step ops (current_step s) (the_assimilator s) (the_field s) = Inr r"
    using assms by (cases "do_update_step ops (current_step s) (the_assimilator s) (the_field s)")
      (auto simp: run_analysis_def)
  obtain n a f where naf: "r = (n, a, f)" by (cases r) auto
  have u: "do_update_step ops (current_step s) (the_assimilator s) (the_field ?t) = Inr (n, a, f)"
    using r by (simp add: naf)
  have s': "(let s1 = trigger ''STOP_FILTER_UPDATE'' (current_step (?t\<lparr>current_nsteps := n, the_assimilator := a, the_field := f\<rparr>))
          (?t\<lparr>current_nsteps := n, the_assimilator := a, the_field := f\<rparr>);
        s1 = (if comm_rank s1 = 0 then (if comm_rank s \<noteq> 0 \<or> checkLauncherDueDate s then s1 else s1\<lparr>current_nsteps := -2\<rparr>)
              else s1\<lparr>current_nsteps := bcast\<rparr>);
        s1 = s1\<lparr>assimilation_cycles := (assimilation_cycles s1 + 1) mod 2 ^ 32\<rparr>;
        s1 = trigger_idle ''STOP_IDLE_RUNNER'' s1
      in trigger ''STOP_ITERATION'' (current_step s1) s1) = s'"
    using assms unfolding run_analysis_def Let_def fields r naf
    by (simp only: lift_simps and_then_simps prod.case sum.inject)
  define s0 where "s0 = ?t\<lparr>current_nsteps := n, the_assimilator := a, the_field := f\<rparr>"
  have "connected_runner_ranks f = connected_runner_ranks (the_field ?t)"
    using same_shape_fields(1) [OF update_shape [OF u]] .
  then have "keeps ?t (?t\<lparr>the_field := f\<rparr>)" by (rule keeps_field)
  moreover have "s0 = ?t\<lparr>the_field := f, the_assimilator := a, current_nsteps := n\<rparr>" by (simp add: s0_def)
  ultimately have k0: "keeps ?t s0" by simp
  then have k0: "keeps s s0" using keeps_trans [of s ?t s0] by simp
  obtain bs where b: "trigger ''STOP_FILTER_UPDATE'' (current_step s) s0 = emits bs s0" "mpi_sends bs = []"
    using trigger_silent by blast
  have cur: "current_step s0 = current_step s" by (simp add: s0_def)
  define s1 where "s1 = (if comm_rank (emits bs s0) = 0
    then (if comm_rank s \<noteq> 0 \<or> checkLauncherDueDate s then emits bs s0 else (emits bs s0)\<lparr>current_nsteps := -2\<rparr>)
    else (emits bs s0)\<lparr>current_nsteps := bcast\<rparr>)"
  have k1: "keeps s s1" using keeps_emits [OF k0 b(2)] by (simp add: s1_def)
  define s2 where "s2 = s1\<lparr>assimilation_cycles := (assimilation_cycles s1 + 1) mod 2 ^ 32\<rparr>"
  obtain cs where c: "trigger_idle ''STOP_IDLE_RUNNER'' s2 = emits cs s2" "mpi_sends cs = []"
    using trigger_idle_silent by blast
  obtain ds where d: "trigger ''STOP_ITERATION'' (current_step s2) (emits cs s2) = emits ds (emits cs s2)" "mpi_sends ds = []"
    using trigger_silent by blast
  have "s' = emits (cs @ ds) s2"
    unfolding s' [symmetric] s0_def [symmetric] Let_def cur b(1) s1_def [symmetric] s2_def [symmetric] c(1)
    using d(1) by simp
  moreover have "assimilation_cycles s1 = assimilation_cycles s" using k1 by (simp add: keeps_def surroundings_def)
  ultimately show ?thesis using k1 c(2) d(2) by (intro exI [of _ s1] exI [of _ "cs @ ds"]) (simp add: s2_def)
qed

end

lemma init_new_timestep_restarts:
  assumes i: "init_new_timestep s = Inr s'"
  shows "surroundings s' = surroundings s" "sends s' = sends s" "killed s' = killed s" "sub_tasks s' = []"
    "finished_ranks s' = finished_ranks s" "task_id s' = 1" "followed s' = (new_task_inbox s, 0, 0)"
    "unscheduled_tasks s' = [0..ENSEMBLE_SIZE s - 1]"
proof -
  define s0 where "s0 = s\<lparr>finished_sub_tasks := [], highest_received_task_id := 0,
     highest_sent_task_id := 0, task_id := 1, current_step := current_step s + current_nsteps s\<rparr>"
  let ?t = "trigger ''START_ITERATION'' (current_step s0) s0"
  obtain cs where cs: "?t = emits cs s0" "mpi_sends cs = []" using trigger_silent by blast
  obtain bs where bs: "trigger_idle ''START_IDLE_RUNNER'' ?t = emits bs ?t" "mpi_sends bs = []"
    using trigger_idle_silent by blast
  have empty: "scheduled_sub_tasks s = []" "running_sub_tasks s = []"
    using i by (auto simp: init_new_timestep_def)
  have "s' = (emits bs ?t)\<lparr>unscheduled_tasks := [0..ENSEMBLE_SIZE s - 1], failcount := map (\<lambda>_. 0) (failcount s)\<rparr>"
    using i bs(1) unfolding init_new_timestep_def Let_def s0_def [symmetric] by (simp add: s0_def)
  then have s': "s' = emits (cs @ bs) (s0\<lparr>unscheduled_tasks := [0..ENSEMBLE_SIZE s - 1],
      failcount := map (\<lambda>_. 0) (failcount s)\<rparr>)"
    unfolding cs(1) by (simp add: emits_def)
  show "surroundings s' = surroundings s" "sends s' = sends s" "killed s' = killed s" "sub_tasks s' = []"
    "finished_ranks s' = finished_ranks s" "task_id s' = 1" "followed s' = (new_task_inbox s, 0, 0)"
    "unscheduled_tasks s' = [0..ENSEMBLE_SIZE s - 1]"
    using empty cs(2) bs(2)
    by (simp_all add: s' s0_def surroundings_def followed_def sub_tasks_def) (simp add: sends_def)
qed

text \<open>The cycles are the only part of its surroundings an update step changes.\<close>

definition updated :: "'a server \<Rightarrow> 'a server \<Rightarrow> bool" where
  "updated s s' \<longleftrightarrow> surroundings (s'\<lparr>assimilation_cycles := assimilation_cycles s\<rparr>) = surroundings s \<and>
     assimilation_cycles s' = (assimilation_cycles s + 1) mod 2 ^ 32"

lemma next_cycle: "(c + 1) mod 2 ^ 32 \<noteq> (c :: int)"
proof
  assume eq: "(c + 1) mod 2 ^ 32 = c"
  then have "(c + 1) mod 2 ^ 32 = c mod 2 ^ 32" by (metis mod_mod_trivial)
  then have "(2 :: int) ^ 32 dvd c + 1 - c" by (rule mod_eq_dvd_iff [THEN iffD1])
  then show False by simp
qed

context assimilator
begin

lemma update_step_restarts:
  assumes inv: "server_inv s" and w: "would_finish s" and u: "update_step ops bcast s = Inr (False, s')"
  shows "\<exists>s2. updated s s2 \<and> server_inv s2 \<and> sends s2 = sends s \<and> killed s2 = killed s \<and> sub_tasks s2 = [] \<and>
     finished_ranks s2 = finished_ranks s \<and> task_id s2 = 1 \<and> followed s2 = (new_task_inbox s, 0, 0) \<and>
     unscheduled_tasks s2 = [0..ENSEMBLE_SIZE s - 1] \<and>
     (if comm_rank s = 0 then reschedule s2 = Inr s' else s' = s2)"
proof -
  obtain s1 s2 where s1: "run_analysis ops bcast s = Inr s1" and s2: "init_new_timestep s1 = Inr s2"
      and s': "(if comm_rank s2 = 0 then and_then (reschedule s2) (\<lambda>s. Inr (False, s))
        else Inr (False, s2)) = Inr (False, s')"
    using u by (auto simp: update_step_def and_then_Inr_iff split: if_splits)
  obtain t as where t: "keeps s t" "mpi_sends as = []"
      "s1 = emits as (t\<lparr>assimilation_cycles := (assimilation_cycles s + 1) mod 2 ^ 32\<rparr>)"
    using run_analysis_keeps [OF s1] by blast
  note i = init_new_timestep_restarts [OF s2]
  have up: "updated s s2"
    using i(1) t by (simp add: updated_def surroundings_def keeps_def)
  have "server_inv s1"
    using same_tasks_progress [OF inv run_analysis_same_tasks [OF s1]] by (simp add: progress_def)
  then have inv2: "server_inv s2" using init_new_timestep_inv [OF _ s2] by blast
  have c: "comm_rank s2 = comm_rank s" using up by (simp add: updated_def surroundings_def)
  have s1f: "sends s1 = sends s" "killed s1 = killed s" "finished_ranks s1 = finished_ranks s"
      "new_task_inbox s1 = new_task_inbox s" "ENSEMBLE_SIZE s1 = ENSEMBLE_SIZE s"
    using t by (simp_all add: keeps_def followed_def surroundings_def sends_def)
  have "if comm_rank s = 0 then reschedule s2 = Inr s' else s' = s2"
    using s' c by (auto simp: and_then_Inr_iff split: if_splits)
  then show ?thesis using up inv2 i s1f by (intro exI [of _ s2]) simp
qed

lemma synchronize_same:
  assumes "server_inv s" "synchronize_finish s = (b, s1)"
  shows "server_inv s1" "would_finish s1 = would_finish s" "assimilation_cycles s1 = assimilation_cycles s"
    "comm_rank s1 = comm_rank s"
proof -
  have st: "same_tasks s s1" by (rule synchronize_same_tasks [OF assms(2)])
  show "server_inv s1" using same_tasks_progress [OF assms(1) st] by (simp add: progress_def)
  have "would_finish s1 = would_finish s \<and> assimilation_cycles s1 = assimilation_cycles s \<and> comm_rank s1 = comm_rank s"
  proof (cases "comm_rank s = 0")
    case True
    define p where "p = fold probe_rank_finished [1..comm_size s - 1] s"
    have "s1 = p \<or> (\<exists>as. s1 = emits as p)"
      using assms(2) True unfolding synchronize_finish_def Let_def p_def [symmetric] by (auto split: if_splits)
    moreover have "but_reports s p" unfolding p_def by (rule fold_probe_but_reports)
    ultimately show ?thesis by (auto simp: but_reports_def surroundings_def)
  next
    case False
    define h where "h = (if highest_sent_task_id s < highest_received_task_id s
       then emits [Mpi_send 0 (Rank_finished (highest_received_task_id s))]
         (s\<lparr>highest_sent_task_id := highest_received_task_id s\<rparr>) else s)"
    have "s1 = h \<or> (\<exists>n. s1 = h\<lparr>all_finished_inbox := n\<rparr>)"
      using assms(2) False unfolding synchronize_finish_def Let_def h_def [symmetric] by (auto split: nat.splits)
    moreover have "would_finish h = would_finish s" "assimilation_cycles h = assimilation_cycles s"
        "comm_rank h = comm_rank s" "would_finish (h\<lparr>all_finished_inbox := n\<rparr>) = would_finish s" for n
      by (simp_all add: h_def would_finish_def all_finished_size_def)
    ultimately show ?thesis by auto
  qed
  then show "would_finish s1 = would_finish s" "assimilation_cycles s1 = assimilation_cycles s"
    "comm_rank s1 = comm_rank s" by simp_all
qed

text \<open>An iteration with an update step is recognised by the number of cycles.\<close>

lemma update_step_cycles:
  assumes "server_inv s" "would_finish s" "update_step ops bcast s = Inr (False, s')"
  shows "assimilation_cycles s' \<noteq> assimilation_cycles s"
proof -
  obtain s3 where u: "updated s s3" "server_inv s3" "if comm_rank s = 0 then reschedule s3 = Inr s' else s' = s3"
    using update_step_restarts [OF assms] by blast
  have "assimilation_cycles s' = assimilation_cycles s3"
  proof (cases "comm_rank s = 0")
    case True
    with u have "leads s3 s'" using reschedule_leads [OF u(2)] by (simp add: updated_def surroundings_def)
    then show ?thesis by (simp add: leads_def surroundings_def)
  qed (use u in simp)
  with u(1) next_cycle [of "assimilation_cycles s"] show ?thesis by (simp add: updated_def)
qed

lemma check_finished_cases:
  assumes inv: "server_inv s" and c: "check_finished ops bcast s = Inr (False, s')"
  obtains (working) "\<not> would_finish s" "s' = s" "assimilation_cycles s' = assimilation_cycles s"
  | (waiting) "would_finish s" "synchronize_finish s = (False, s')" "assimilation_cycles s' = assimilation_cycles s"
  | (updating) s1 where "would_finish s" "synchronize_finish s = (True, s1)" "update_step ops bcast s1 = Inr (False, s')"
      "server_inv s1" "would_finish s1" "assimilation_cycles s' \<noteq> assimilation_cycles s"
proof (cases "would_finish s")
  case False
  then have "s' = s" using c by (simp add: check_finished_def)
  then show ?thesis using working [OF False] by simp
next
  case True
  obtain b s1 where s1: "synchronize_finish s = (b, s1)" by fastforce
  note same = synchronize_same [OF inv s1]
  show ?thesis
  proof (cases b)
    case False
    then have eq: "s' = s1" using c True s1 by (simp add: check_finished_def)
    show ?thesis by (rule waiting [OF True]) (use eq s1 False same(3) in simp_all)
  next
    case b: True
    have u: "update_step ops bcast s1 = Inr (False, s')" using c True s1 b by (simp add: check_finished_def)
    have w1: "would_finish s1" using same(2) True by simp
    have "assimilation_cycles s' \<noteq> assimilation_cycles s"
      using update_step_cycles [OF same(1) w1 u] same(3) by simp
    moreover have "synchronize_finish s = (True, s1)" using s1 b by simp
    ultimately show ?thesis using updating [OF True _ u same(1) w1] by blast
  qed
qed

end

end
