(* ===== verification/ClusterInv.thy ===== *)
theory ClusterInv
  imports Cluster
begin

text \<open>
  The server as a whole: its ranks, the MPI messages between them and the steps the whole takes.
  The invariant of the protocol holds in every state it can reach.
\<close>

section \<open>The ranks and the network\<close>

type_synonym packet = "int \<times> int \<times> mpi_message"

record 'a cluster =
  ranks :: "int \<Rightarrow> 'a server"
  net :: "packet list"

text \<open>A message is delivered into the inbox its tag and sender name.\<close>

primrec receive :: "int \<Rightarrow> mpi_message \<Rightarrow> 'a server \<Rightarrow> 'a server" where
  "receive src (New_task nt) s = s\<lparr>new_task_inbox := new_task_inbox s @ [nt]\<rparr>"
| "receive src (Kill_request sid r) s = s\<lparr>kill_inbox := (kill_inbox s)(src := kill_inbox s src @ [(sid, r)])\<rparr>"
| "receive src (Rank_finished h) s =
     s\<lparr>rank_finished_inbox := (rank_finished_inbox s)(src := rank_finished_inbox s src @ [h])\<rparr>"
| "receive src All_finished s = s\<lparr>all_finished_inbox := Suc (all_finished_inbox s)\<rparr>"

text \<open>What a rank has sent in an iteration.\<close>

definition new_packets :: "int \<Rightarrow> 'a server \<Rightarrow> 'a server \<Rightarrow> packet list" where
  "new_packets k s s' = map (\<lambda>(d, msg). (k, d, msg)) (drop (length (sends s)) (sends s'))"

text \<open>MPI keeps the order of messages with the same sender, receiver and tag.\<close>

definition may_overtake :: "packet \<Rightarrow> packet list \<Rightarrow> bool" where
  "may_overtake p xs \<longleftrightarrow> (case p of (src, d, msg) \<Rightarrow>
     \<forall>(src', d', msg') \<in> set xs. \<not> (src' = src \<and> d' = d \<and> mpi_tag msg' = mpi_tag msg))"

text \<open>
  A step of one rank alone: an iteration of its main loop without update step, time passing and
  frames arriving on its data socket, the delivery of a message.
\<close>

inductive rank_step :: "'a assimilator_ops \<Rightarrow> int \<Rightarrow> 'a cluster \<Rightarrow> 'a cluster \<Rightarrow> bool" for ops m where
  iterate: "0 \<le> k \<Longrightarrow> k < m \<Longrightarrow> server_iteration ops b ev (ranks C k) = Inr (False, s') \<Longrightarrow>
     assimilation_cycles s' = assimilation_cycles (ranks C k) \<Longrightarrow>
     rank_step ops m C (C\<lparr>ranks := (ranks C)(k := s'), net := net C @ new_packets k (ranks C k) s'\<rparr>)"
| arrive: "0 \<le> k \<Longrightarrow> k < m \<Longrightarrow>
     rank_step ops m C (C\<lparr>ranks := (ranks C)(k := (ranks C k)\<lparr>data_socket := d, now := t\<rparr>)\<rparr>)"
| deliver: "net C = xs @ (src, d, msg) # ys \<Longrightarrow> may_overtake (src, d, msg) xs \<Longrightarrow>
     rank_step ops m C (C\<lparr>ranks := (ranks C)(d := receive src msg (ranks C d)), net := xs @ ys\<rparr>)"

text \<open>
  The update step of all ranks, when its collective operations make every rank wait until all
  have entered it: rank 0 decides to finish, the others are told and follow; the number of steps
  is that of rank 0.
\<close>

definition told_finished :: "int \<Rightarrow> 'a server \<Rightarrow> 'a server" where
  "told_finished k s = (if k = 0 then s else receive 0 All_finished s)"

definition update_of :: "'a assimilator_ops \<Rightarrow> int \<Rightarrow> int \<Rightarrow> events \<Rightarrow> 'a cluster \<Rightarrow> 'a server \<Rightarrow> bool" where
  "update_of ops b k ev C s' \<longleftrightarrow> server_iteration ops b ev (told_finished k (ranks C k)) = Inr (False, s') \<and>
     assimilation_cycles s' \<noteq> assimilation_cycles (ranks C k)"

definition not_all_finished :: "packet \<Rightarrow> bool" where
  "not_all_finished p \<longleftrightarrow> snd (snd p) \<noteq> All_finished"

inductive cluster_step :: "'a assimilator_ops \<Rightarrow> int \<Rightarrow> 'a cluster \<Rightarrow> 'a cluster \<Rightarrow> bool" for ops m where
  alone: "rank_step ops m C C' \<Longrightarrow> cluster_step ops m C C'"
| update: "(\<And>k. 0 \<le> k \<Longrightarrow> k < m \<Longrightarrow> update_of ops (current_nsteps (S 0)) k (ev k) C (S k)) \<Longrightarrow>
     cluster_step ops m C
       (C\<lparr>ranks := (\<lambda>k. if 0 \<le> k \<and> k < m then S k else ranks C k),
          net := net C @ filter not_all_finished (new_packets 0 (ranks C 0) (S 0)) @
            concat (map (\<lambda>q. new_packets q (ranks C q) (S q)) [1..m - 1])\<rparr>)"

inductive cluster_reaches :: "'a assimilator_ops \<Rightarrow> int \<Rightarrow> 'a cluster \<Rightarrow> 'a cluster \<Rightarrow> bool" for ops m C where
  here: "cluster_reaches ops m C C"
| further: "cluster_reaches ops m C C' \<Longrightarrow> cluster_step ops m C' C'' \<Longrightarrow> cluster_reaches ops m C C''"

section \<open>The protocol of a cluster\<close>

text \<open>The messages on their way from one rank to another.\<close>

definition channel :: "int \<Rightarrow> int \<Rightarrow> packet list \<Rightarrow> mpi_message list" where
  "channel src d ps = List.map_filter (\<lambda>(s, d', msg). if s = src \<and> d' = d then Some msg else None) ps"

lemma channel_simps [simp]:
  "channel src d [] = []"
  "channel src d (p # ps) = (if fst p = src \<and> fst (snd p) = d then snd (snd p) # channel src d ps else channel src d ps)"
  "channel src d (ps @ qs) = channel src d ps @ channel src d qs"
  by (auto simp: channel_def split_def)

definition followers :: "'a server \<Rightarrow> (int \<Rightarrow> 'a server) \<Rightarrow> packet list \<Rightarrow> int \<Rightarrow> follower" where
  "followers s0 R ps q = follower_of (new_tasks_in (channel 0 q ps))
     (map pair_task (kill_inbox s0 q) @ requests_in (channel q 0 ps))
     (rank_finished_inbox s0 q @ reports_in (channel q 0 ps)) (R q)"

definition packet_ok :: "int \<Rightarrow> packet \<Rightarrow> bool" where
  "packet_ok m p \<longleftrightarrow> (case p of (src, d, msg) \<Rightarrow>
     (src = 0 \<and> 1 \<le> d \<and> d < m \<and> new_task_of msg \<noteq> None) \<or>
     (d = 0 \<and> 1 \<le> src \<and> src < m \<and> from_follower msg))"

definition rank_ok :: "int \<Rightarrow> int \<Rightarrow> int \<Rightarrow> 'a server \<Rightarrow> bool" where
  "rank_ok m n k s \<longleftrightarrow> server_inv s \<and> comm_rank s = k \<and> comm_size s = m \<and> ENSEMBLE_SIZE s = n \<and>
     phase s = PHASE_SIMULATION \<and> all_finished_inbox s = 0"

definition requests_from_ranks :: "int \<Rightarrow> 'a server \<Rightarrow> bool" where
  "requests_from_ranks m s \<longleftrightarrow> (\<forall>k. kill_inbox s k \<noteq> [] \<longrightarrow> 1 \<le> k \<and> k < m)"

definition cluster_ok :: "int \<Rightarrow> int \<Rightarrow> 'a cluster \<Rightarrow> bool" where
  "cluster_ok m n C \<longleftrightarrow> 0 < n \<and> 1 \<le> m \<and> (\<forall>k. 0 \<le> k \<longrightarrow> k < m \<longrightarrow> rank_ok m n k (ranks C k)) \<and>
     requests_from_ranks m (ranks C 0) \<and> (\<forall>p \<in> set (net C). packet_ok m p)"

text \<open>The leader and the followers a cluster stands for.\<close>

definition nobody :: follower where
  "nobody = \<lparr>fo_owned = {}, fo_killed = {}, fo_pending = [], fo_received = 0, fo_sent = 0, fo_requests = [],
     fo_reports = [], fo_done = False\<rparr>"

definition view_of :: "int \<Rightarrow> 'a server \<Rightarrow> (int \<Rightarrow> 'a server) \<Rightarrow> packet list \<Rightarrow> leader \<times> (int \<Rightarrow> follower)" where
  "view_of m s0 R ps = (leader_of s0, \<lambda>q. if 1 \<le> q \<and> q < m then followers s0 R ps q else nobody)"

definition cluster_view :: "int \<Rightarrow> 'a cluster \<Rightarrow> leader \<times> (int \<Rightarrow> follower)" where
  "cluster_view m C = view_of m (ranks C 0) (ranks C) (net C)"

definition cluster_inv :: "int \<Rightarrow> int \<Rightarrow> 'a cluster \<Rightarrow> bool" where
  "cluster_inv m n C \<longleftrightarrow> cluster_ok m n C \<and> protocol_inv m n (fst (cluster_view m C)) (snd (cluster_view m C))"

text \<open>A step of the cluster is a sequence of steps of the protocol.\<close>

definition simulates :: "int \<Rightarrow> int \<Rightarrow> 'a cluster \<Rightarrow> 'a cluster \<Rightarrow> bool" where
  "simulates m n C C' \<longleftrightarrow> cluster_ok m n C' \<and> protocol_steps m n (cluster_view m C) (cluster_view m C')"

lemma simulated_inv: "cluster_inv m n C \<Longrightarrow> simulates m n C C' \<Longrightarrow> cluster_inv m n C'"
  by (auto simp: cluster_inv_def simulates_def intro: protocol_steps_inv)

lemma simulated_trans: "simulates m n C C' \<Longrightarrow> simulates m n C' C'' \<Longrightarrow> simulates m n C C''"
  by (auto simp: simulates_def)

lemma simulates_view: "cluster_ok m n C' \<Longrightarrow> cluster_view m C' = cluster_view m C \<Longrightarrow> simulates m n C C'"
  by (simp add: simulates_def)

lemma inv_ok: "cluster_inv m n C \<Longrightarrow> cluster_ok m n C"
  by (simp add: cluster_inv_def)

text \<open>What the protocol gives each rank: the messages it reads next are valid.\<close>

lemma inv_agree:
  assumes "cluster_inv m n C" "1 \<le> q" "q < m"
  shows "agree n (leader_of (ranks C 0)) (followers (ranks C 0) (ranks C) (net C) q)"
proof -
  have "agree n (fst (cluster_view m C)) (snd (cluster_view m C) q)"
    using assms by (simp add: cluster_inv_def protocol_inv_def)
  then show ?thesis using assms(2,3) by (simp add: cluster_view_def view_of_def)
qed

lemma inv_requests_valid:
  assumes i: "cluster_inv m n C"
  shows "requests_valid (ranks C 0)"
  unfolding requests_valid_def
proof (intro allI ballI, clarify)
  fix k sid r
  assume r: "(sid, r) \<in> set (kill_inbox (ranks C 0) k)" and n: "\<not> owned (Task sid r) (ranks C 0)"
  then have "kill_inbox (ranks C 0) k \<noteq> []" by auto
  then have k: "1 \<le> k" "k < m" using inv_ok [OF i] by (auto simp: cluster_ok_def requests_from_ranks_def)
  have "Task sid r \<in> pair_task ` set (kill_inbox (ranks C 0) k)"
    using r by (metis image_eqI pair_task_simps)
  with inv_agree [OF i k] n show "Task sid r \<in> set (killed (ranks C 0))"
    by (auto simp: agree_def tasks_known_def followers_def follower_of_def leader_of_def)
qed

lemma inv_new_task_valid:
  assumes i: "cluster_inv m n C" and q: "1 \<le> q" "q < m"
  shows "case new_task_inbox (ranks C q) of [] \<Rightarrow> True | nt # _ \<Rightarrow> new_task_valid nt (ranks C q)"
proof (cases "new_task_inbox (ranks C q)")
  case (Cons nt rest)
  have "ENSEMBLE_SIZE (ranks C q) = n" using inv_ok [OF i] q by (simp add: cluster_ok_def rank_ok_def)
  with inv_agree [OF i q] Cons show ?thesis
    by (auto simp: agree_def tasks_known_def ids_in_order_def followers_def follower_of_def new_task_valid_def
        nt_task_def)
qed simp

section \<open>A rank steps\<close>

definition put :: "int \<Rightarrow> 'a server \<Rightarrow> 'a cluster \<Rightarrow> 'a cluster" where
  "put k s' C = C\<lparr>ranks := (ranks C)(k := s'), net := net C @ new_packets k (ranks C k) s'\<rparr>"

lemma put_simps [simp]:
  "ranks (put k s C) = (ranks C)(k := s)" "net (put k s C) = net C @ new_packets k (ranks C k) s"
  by (simp_all add: put_def)

lemma new_packets_sent: "sends s' = sends s @ ps \<Longrightarrow> new_packets k s s' = map (\<lambda>(d, msg). (k, d, msg)) ps"
  by (simp add: new_packets_def)

lemma put_put:
  assumes "sends s1 = sends (ranks C k) @ ps" "sends s2 = sends s1 @ qs"
  shows "put k s2 (put k s1 C) = put k s2 C"
  using assms by (simp add: put_def new_packets_def)

lemma channel_broadcast:
  assumes "1 \<le> q" "q < m"
  shows "channel 0 q (map (\<lambda>(d, msg). (0, d, msg)) (broadcast m nts)) = map New_task nts"
proof (induction nts)
  case (Cons nt nts)
  have one: "channel 0 q (map (\<lambda>k. (0, k, New_task nt)) ks) = replicate (count_list ks q) (New_task nt)" for ks
    by (induction ks) auto
  have "distinct ks \<Longrightarrow> count_list ks q = (if q \<in> set ks then 1 else 0)" for ks
    by (induction ks) auto
  then have "count_list [1..m - 1] q = 1" using assms by simp
  with Cons one [of "[1..m - 1]"] show ?case by (simp add: comp_def)
qed simp

lemma channel_other: "src \<noteq> k \<Longrightarrow> channel src d (map (\<lambda>(d, msg). (k, d, msg)) ps) = []"
  by (induction ps) auto

lemma channel_other_pair [simp]: "src \<noteq> k \<Longrightarrow> channel src d (map (Pair k) ps) = []"
  by (induction ps) auto

lemma channel_to_0: "channel q 0 (map (\<lambda>(d, msg). (q, d, msg)) (map (Pair 0) ms)) = ms"
  by (induction ms) auto

lemma new_tasks_in_map [simp]: "new_tasks_in (map New_task nts) = nts"
  by (induction nts) auto

lemma inv_rank: "cluster_ok m n C \<Longrightarrow> 0 \<le> k \<Longrightarrow> k < m \<Longrightarrow> rank_ok m n k (ranks C k)"
  by (simp add: cluster_ok_def)

lemma leader_moves:
  assumes i: "cluster_ok m n C" and t: "takes_requests (ranks C 0) s'"
  shows "simulates m n C (put 0 s' C)"
proof -
  let ?s = "ranks C 0" and ?R = "ranks C" and ?N = "net C"
  have ok: "rank_ok m n 0 ?s" using i by (simp add: cluster_ok_def)
  obtain nts where st: "leader_steps n (leader_of ?s) nts (leader_of s')"
      and se: "sends s' = sends ?s @ broadcast m nts"
      and su: "surroundings s' = surroundings (?s\<lparr>kill_inbox := kill_inbox s'\<rparr>)" and inv': "server_inv s'"
    using t ok by (auto simp: takes_requests_def leads_def rank_ok_def)
  obtain taken where tk: "\<And>k. kill_inbox ?s k = taken k @ kill_inbox s' k"
      "\<And>k. pair_task ` set (taken k) \<subseteq> set (killed s')"
    using t unfolding takes_requests_def by metis
  let ?new = "map (\<lambda>(d, msg). (0, d, msg)) (broadcast m nts)"
  have new: "new_packets 0 ?s s' = ?new" by (rule new_packets_sent [OF se])
  let ?F = "snd (cluster_view m C)" and ?l' = "leader_of s'"
  let ?G = "to_all m (fo_send nts) ?F"
  let ?rest = "\<lambda>q. map pair_task (kill_inbox s' q) @ requests_in (channel q 0 ?N)"
  have "protocol_steps m n (leader_of ?s, ?F) (?l', ?G)" by (rule leader_steps_protocol [OF st])
  moreover have "protocol_steps m n (?l', ?G) (?l', \<lambda>q. if 1 \<le> q \<and> q < m then (?G q)\<lparr>fo_requests := ?rest q\<rparr> else ?G q)"
  proof (rule all_followers_protocol)
    fix F q assume q: "1 \<le> q" "q < m" and F: "F q = ?G q"
    have "fo_requests (F q) = map pair_task (taken q) @ ?rest q"
      using q tk(1) [of q] unfolding F
      by (simp add: cluster_view_def view_of_def followers_def follower_of_def fo_send_def)
    moreover have "set (map pair_task (taken q)) \<subseteq> le_killed ?l'" using tk(2) [of q] by (simp add: leader_of_def)
    ultimately have "protocol_steps m n (?l', F) (?l', F(q := (F q)\<lparr>fo_requests := ?rest q\<rparr>))"
      using q by (rule read_requests_protocol)
    then show "protocol_steps m n (?l', F) (?l', F(q := (?G q)\<lparr>fo_requests := ?rest q\<rparr>))" unfolding F .
  qed
  moreover have "(\<lambda>q. if 1 \<le> q \<and> q < m then (?G q)\<lparr>fo_requests := ?rest q\<rparr> else ?G q) =
      snd (cluster_view m (put 0 s' C))"
  proof
    fix q
    have "rank_finished_inbox s' = rank_finished_inbox ?s" using su by (simp add: surroundings_def)
    then show "(if 1 \<le> q \<and> q < m then (?G q)\<lparr>fo_requests := ?rest q\<rparr> else ?G q) =
        snd (cluster_view m (put 0 s' C)) q"
      using channel_broadcast [of q m nts] channel_other [of q 0 0 "broadcast m nts"]
      by (auto simp: cluster_view_def view_of_def followers_def follower_of_def fo_send_def to_all_def new)
  qed
  ultimately have "protocol_steps m n (cluster_view m C) (cluster_view m (put 0 s' C))"
    by (simp add: cluster_view_def view_of_def)
  moreover have "packet_ok m p" if "p \<in> set ?new" for p
    using that by (auto simp: broadcast_def packet_ok_def)
  moreover have "requests_from_ranks m s'"
    using i tk(1) by (auto simp: cluster_ok_def requests_from_ranks_def)
  moreover have "rank_ok m n 0 s'" using ok su inv' by (simp add: rank_ok_def surroundings_def)
  ultimately show ?thesis using i by (auto simp: simulates_def cluster_ok_def new)
qed

lemma follower_moves:
  assumes i: "cluster_ok m n C" and q: "1 \<le> q" "q < m" and f: "follows (ranks C q) s'"
  shows "simulates m n C (put q s' C)"
proof -
  let ?s = "ranks C q" and ?R = "ranks C" and ?N = "net C"
  have ok: "rank_ok m n q ?s" using inv_rank [OF i] q by simp
  obtain ms where st: "\<And>pend reqs reps. follower_steps n (follower_of pend reqs reps ?s)
        (follower_of pend (reqs @ requests_in ms) (reps @ reports_in ms) s')"
      and se: "sends s' = sends ?s @ map (Pair 0) ms" and from_f: "\<forall>m \<in> set ms. from_follower m"
      and su: "surroundings s' = surroundings ?s" and inv': "server_inv s'"
    using f ok by (auto simp: follows_def follows_with_def rank_ok_def)
  let ?new = "map (\<lambda>(d, msg). (q, d, msg)) (map (Pair 0) ms)"
  have new: "new_packets q ?s s' = ?new" by (rule new_packets_sent [OF se])
  let ?F = "snd (cluster_view m C)"
  let ?f = "follower_of (new_tasks_in (channel 0 q ?N))
     ((map pair_task (kill_inbox (?R 0) q) @ requests_in (channel q 0 ?N)) @ requests_in ms)
     ((rank_finished_inbox (?R 0) q @ reports_in (channel q 0 ?N)) @ reports_in ms) s'"
  have "follower_steps n (?F q) ?f"
  proof -
    have "?F q = follower_of (new_tasks_in (channel 0 q ?N))
       (map pair_task (kill_inbox (?R 0) q) @ requests_in (channel q 0 ?N))
       (rank_finished_inbox (?R 0) q @ reports_in (channel q 0 ?N)) ?s"
      using q by (simp add: cluster_view_def view_of_def followers_def)
    then show ?thesis by (simp only: st)
  qed
  then have "protocol_steps m n (leader_of (?R 0), ?F) (leader_of (?R 0), ?F(q := ?f))"
    using q by (rule follower_steps_protocol)
  moreover have "?F(q := ?f) = snd (cluster_view m (put q s' C))"
  proof
    fix k
    show "(?F(q := ?f)) k = snd (cluster_view m (put q s' C)) k"
    proof (cases "k = q")
      case True
      then show ?thesis
        using channel_to_0 [of q ms] channel_other [of 0 q q "map (Pair 0) ms"] q
        by (simp add: cluster_view_def view_of_def followers_def new)
    next
      case False
      then show ?thesis
        using channel_other [of k q 0 "map (Pair 0) ms"] channel_other [of 0 q k "map (Pair 0) ms"] q
        by (simp add: cluster_view_def view_of_def followers_def new)
    qed
  qed
  ultimately have "protocol_steps m n (cluster_view m C) (cluster_view m (put q s' C))"
    using q by (simp add: cluster_view_def view_of_def)
  moreover have "packet_ok m p" if "p \<in> set ?new" for p
    using that from_f q by (auto simp: packet_ok_def)
  moreover have "rank_ok m n q s'" using ok su inv' by (simp add: rank_ok_def surroundings_def)
  ultimately show ?thesis using i q by (auto simp: simulates_def cluster_ok_def new)
qed

lemma leader_probes:
  assumes i: "cluster_ok m n C" and s': "s' = fold probe_rank_finished [1..m - 1] (ranks C 0)"
  shows "simulates m n C (put 0 s' C)"
proof -
  let ?s = "ranks C 0" and ?R = "ranks C" and ?N = "net C" and ?F = "snd (cluster_view m C)"
  have b: "but_reports ?s s'" unfolding s' by (rule fold_probe_but_reports)
  then have "sends s' = sends ?s @ []" by (simp add: but_reports_def)
  from new_packets_sent [OF this] have new: "new_packets 0 ?s s' = []" by simp
  let ?rest = "\<lambda>q. reports_in (channel q 0 ?N)"
  have w: "with_reports m ?rest ?s ?F = ?F"
    by (rule ext) (simp add: with_reports_def cluster_view_def view_of_def followers_def follower_of_def)
  have kill: "kill_inbox s' = kill_inbox ?s" using b by (simp add: but_reports_def surroundings_def)
  have w': "with_reports m ?rest s' ?F = snd (cluster_view m (put 0 s' C))"
    by (rule ext)
      (simp add: with_reports_def cluster_view_def view_of_def followers_def follower_of_def kill new)
  have "protocol_steps m n (leader_of ?s, with_reports m ?rest ?s ?F) (leader_of s', with_reports m ?rest s' ?F)"
    unfolding s' by (rule fold_probe_protocol) auto
  then have "protocol_steps m n (cluster_view m C) (cluster_view m (put 0 s' C))"
    unfolding w w' by (simp add: cluster_view_def view_of_def)
  moreover have "rank_ok m n 0 s'" using i b by (simp add: cluster_ok_def rank_ok_def but_reports_def surroundings_def)
  moreover have "requests_from_ranks m s'"
    using i kill by (simp add: cluster_ok_def requests_from_ranks_def)
  ultimately show ?thesis using i by (auto simp: simulates_def cluster_ok_def new)
qed

lemma sends_takes: "takes_requests s s' \<Longrightarrow> \<exists>ps. sends s' = sends s @ ps"
  by (auto simp: takes_requests_def leads_def)

lemma sends_follows: "follows s s' \<Longrightarrow> \<exists>ps. sends s' = sends s @ ps"
  by (auto simp: follows_def follows_with_def)

context assimilator
begin

lemma prefix_simulates:
  assumes i: "cluster_inv m n C" and k: "0 \<le> k" "k < m"
    and p: "iteration_prefix ops ev (ranks C k) = Inr s'"
  shows "simulates m n C (put k s' C)" "\<exists>ps. sends s' = sends (ranks C k) @ ps"
    "assimilation_cycles s' = assimilation_cycles (ranks C k)"
proof -
  have ok: "server_inv (ranks C k)" "comm_rank (ranks C k) = k" "phase (ranks C k) = PHASE_SIMULATION"
    using inv_rank [OF inv_ok [OF i] k] by (simp_all add: rank_ok_def)
  have "simulates m n C (put k s' C) \<and> (\<exists>ps. sends s' = sends (ranks C k) @ ps) \<and>
      assimilation_cycles s' = assimilation_cycles (ranks C k)"
  proof (cases "k = 0")
    case True
    have t: "takes_requests (ranks C 0) s'"
      by (rule prefix_takes [OF _ _ _ inv_requests_valid [OF i]]) (use ok p True in auto)
    moreover from this have "assimilation_cycles s' = assimilation_cycles (ranks C 0)"
      by (simp add: takes_requests_def leads_def surroundings_def)
    ultimately show ?thesis using leader_moves [OF inv_ok [OF i] t] sends_takes [OF t] True by simp
  next
    case False
    have f: "follows (ranks C k) s'"
      by (rule prefix_follows [OF _ _ _ inv_new_task_valid [OF i]]) (use ok p k False in auto)
    moreover from this have "assimilation_cycles s' = assimilation_cycles (ranks C k)"
      by (auto simp: follows_def follows_with_def surroundings_def)
    ultimately show ?thesis using follower_moves [OF inv_ok [OF i] _ k(2) f] sends_follows [OF f] k False by simp
  qed
  then show "simulates m n C (put k s' C)" "\<exists>ps. sends s' = sends (ranks C k) @ ps"
    "assimilation_cycles s' = assimilation_cycles (ranks C k)" by blast+
qed

text \<open>Asking the others whether the time step is finished.\<close>

lemma wait_simulates:
  assumes i: "cluster_inv m n C" and k: "0 \<le> k" "k < m"
    and w: "would_finish (ranks C k)" "synchronize_finish (ranks C k) = (False, s')"
  shows "simulates m n C (put k s' C)" "\<exists>ps. sends s' = sends (ranks C k) @ ps"
proof -
  note ok = inv_rank [OF inv_ok [OF i] k]
  have "simulates m n C (put k s' C) \<and> (\<exists>ps. sends s' = sends (ranks C k) @ ps)"
  proof (cases "k = 0")
    case True
    then have "s' = fold probe_rank_finished [1..m - 1] (ranks C 0)"
      using w(2) ok by (simp add: synchronize_finish_def Let_def rank_ok_def split: if_splits)
    then show ?thesis
      using leader_probes [OF inv_ok [OF i]] fold_probe_but_reports [of "ranks C 0" "[1..m - 1]"] True
      by (simp add: but_reports_def)
  next
    case False
    have f: "follows (ranks C k) s'"
      by (rule synchronize_follows(2) [OF _ _ w]) (use ok False in \<open>simp_all add: rank_ok_def\<close>)
    then show ?thesis using follower_moves [OF inv_ok [OF i] _ k(2)] sends_follows [OF f] k False by simp
  qed
  then show "simulates m n C (put k s' C)" "\<exists>ps. sends s' = sends (ranks C k) @ ps" by blast+
qed

lemma iterate_simulates:
  assumes i: "cluster_inv m n C" and k: "0 \<le> k" "k < m"
    and it: "server_iteration ops b ev (ranks C k) = Inr (False, s')"
    and cyc: "assimilation_cycles s' = assimilation_cycles (ranks C k)"
  shows "simulates m n C (put k s' C)"
proof -
  obtain s1 where s1: "iteration_prefix ops ev (ranks C k) = Inr s1" and c: "check_finished ops b s1 = Inr (False, s')"
    using server_iteration_Inr [OF it] by blast
  note p = prefix_simulates [OF i k s1]
  have i1: "cluster_inv m n (put k s1 C)" by (rule simulated_inv [OF i p(1)])
  obtain ps where ps: "sends s1 = sends (ranks C k) @ ps" using p(2) by blast
  have at: "ranks (put k s1 C) k = s1" by simp
  have inv1: "server_inv s1" using inv_rank [OF inv_ok [OF i1] k] by (simp add: rank_ok_def)
  show ?thesis
    using inv1 c
  proof (cases rule: check_finished_cases)
    case working
    with p(1) show ?thesis by simp
  next
    case waiting
    note w = wait_simulates [OF i1 k, unfolded at, OF waiting(1,2)]
    obtain qs where "sends s' = sends s1 @ qs" using w(2) by blast
    with simulated_trans [OF p(1) w(1)] put_put [OF ps] show ?thesis by simp
  next
    case updating
    with cyc p(3) show ?thesis by simp
  qed
qed

end

section \<open>Frames arrive and messages are delivered\<close>

lemma owned_receive [simp]: "owned t (receive src msg s) = owned t s"
  by (cases msg) (simp_all add: owned_def sub_tasks_def)

lemma receive_simps [simp]:
  "server_inv (receive src msg s) = server_inv s" "leader_of (receive src msg s) = leader_of s"
  "sends (receive src msg s) = sends s" "comm_rank (receive src msg s) = comm_rank s"
  "comm_size (receive src msg s) = comm_size s" "ENSEMBLE_SIZE (receive src msg s) = ENSEMBLE_SIZE s"
  "phase (receive src msg s) = phase s" "killed (receive src msg s) = killed s"
  "highest_received_task_id (receive src msg s) = highest_received_task_id s"
  "highest_sent_task_id (receive src msg s) = highest_sent_task_id s"
  "would_finish (receive src msg s) = would_finish s"
  "assimilation_cycles (receive src msg s) = assimilation_cycles s"
  by (cases msg; simp add: server_inv_def base_inv_def idle_inv_def sub_tasks_def leader_of_def owned_def sends_def
      would_finish_def all_finished_size_def)+

lemma new_task_inbox_simps [simp]:
  "owned t (s\<lparr>new_task_inbox := b\<rparr>) = owned t s" "would_finish (s\<lparr>new_task_inbox := b\<rparr>) = would_finish s"
  by (simp_all add: owned_def sub_tasks_def would_finish_def all_finished_size_def)

lemma channel_skips:
  "may_overtake (src, d, msg) xs \<Longrightarrow> mpi_tag msg = mpi_tag msg' \<Longrightarrow> msg' \<in> set (channel src d xs) \<Longrightarrow> False"
  by (induction xs) (auto simp: may_overtake_def split_def split: if_splits)

lemma new_tasks_skip: 
  assumes "\<And>nt'. New_task nt' \<notin> set ms" shows "new_tasks_in ms = []"
  using assms by (induction ms) (auto split: option.splits, metis new_task_of.simps mpi_message.exhaust option.distinct(1))

lemma requests_skip:
  assumes "\<And>a b. Kill_request a b \<notin> set ms" shows "requests_in ms = []"
  using assms by (induction ms) (auto split: option.splits, metis request_of.simps mpi_message.exhaust option.distinct(1))

lemma reports_skip:
  assumes "\<And>h. Rank_finished h \<notin> set ms" shows "reports_in ms = []"
  using assms by (induction ms) (auto split: option.splits, metis report_of.simps mpi_message.exhaust option.distinct(1))

lemma deliver_simulates:
  assumes i: "cluster_ok m n C" and n: "net C = xs @ (src, d, msg) # ys" and o: "may_overtake (src, d, msg) xs"
  shows "simulates m n C (C\<lparr>ranks := (ranks C)(d := receive src msg (ranks C d)), net := xs @ ys\<rparr>)"
proof -
  let ?R = "(ranks C)(d := receive src msg (ranks C d))"
  have pk: "packet_ok m (src, d, msg)" using i n by (simp add: cluster_ok_def)
  have skip: "\<And>nt'. msg = New_task nt \<Longrightarrow> New_task nt' \<notin> set (channel src d xs)"
      "\<And>a b. msg = Kill_request sid r \<Longrightarrow> Kill_request a b \<notin> set (channel src d xs)"
      "\<And>h'. msg = Rank_finished h \<Longrightarrow> Rank_finished h' \<notin> set (channel src d xs)" for nt sid r h
    using channel_skips [OF o] by fastforce+
  have same: "followers (?R 0) ?R (xs @ ys) q = followers (ranks C 0) (ranks C) (net C) q" if q: "1 \<le> q" "q < m" for q
  proof (cases msg)
    case (New_task nt)
    with pk have sd: "src = 0" "1 \<le> d" by (auto simp: packet_ok_def from_follower_def)
    show ?thesis
      using q sd new_tasks_skip [OF skip(1) [OF New_task]]
      by (auto simp: followers_def follower_of_def n New_task)
  next
    case (Kill_request a b)
    with pk have sd: "d = 0" "1 \<le> src" by (auto simp: packet_ok_def from_follower_def)
    show ?thesis
      using q sd requests_skip [OF skip(2) [OF Kill_request]]
      by (auto simp: followers_def follower_of_def n Kill_request)
  next
    case (Rank_finished h)
    with pk have sd: "d = 0" "1 \<le> src" by (auto simp: packet_ok_def from_follower_def)
    show ?thesis
      using q sd reports_skip [OF skip(3) [OF Rank_finished]]
      by (auto simp: followers_def follower_of_def n Rank_finished)
  next
    case All_finished
    with pk show ?thesis by (auto simp: packet_ok_def from_follower_def)
  qed
  have lead: "leader_of (?R 0) = leader_of (ranks C 0)" by simp
  have view: "cluster_view m (C\<lparr>ranks := ?R, net := xs @ ys\<rparr>) = cluster_view m C"
    unfolding cluster_view_def view_of_def using same lead by (simp cong: if_cong)
  have "rank_ok m n k (?R k)" if "0 \<le> k" "k < m" for k
  proof -
    have "all_finished_inbox (receive src msg (ranks C d)) = all_finished_inbox (ranks C d)"
      using pk by (cases msg) (auto simp: packet_ok_def from_follower_def)
    then show ?thesis using inv_rank [OF i that] by (cases "k = d") (simp_all add: rank_ok_def)
  qed
  moreover have "requests_from_ranks m (?R 0)"
    using i pk by (cases msg) (auto simp: cluster_ok_def requests_from_ranks_def packet_ok_def from_follower_def)
  ultimately have "cluster_ok m n (C\<lparr>ranks := ?R, net := xs @ ys\<rparr>)" using i n by (auto simp: cluster_ok_def)
  then show ?thesis using view by (rule simulates_view)
qed

lemma arrive_simulates:
  assumes i: "cluster_ok m n C" and k: "0 \<le> k" "k < m"
  shows "simulates m n C (C\<lparr>ranks := (ranks C)(k := (ranks C k)\<lparr>data_socket := d, now := t\<rparr>)\<rparr>)"
proof -
  let ?s = "(ranks C k)\<lparr>data_socket := d, now := t\<rparr>" and ?R = "(ranks C)(k := (ranks C k)\<lparr>data_socket := d, now := t\<rparr>)"
  have own: "owned x ?s = owned x (ranks C k)" for x by (simp add: owned_def sub_tasks_def)
  have f: "follower_of pend reqs reps ?s = follower_of pend reqs reps (ranks C k)" for pend reqs reps
    by (simp add: follower_of_def own would_finish_def all_finished_size_def)
  have "leader_of (?R 0) = leader_of (ranks C 0)"
    using own by (auto simp: leader_of_def)
  moreover have "followers (?R 0) ?R (net C) = followers (ranks C 0) (ranks C) (net C)"
    by (rule ext) (auto simp: followers_def f)
  ultimately have view: "cluster_view m (C\<lparr>ranks := ?R\<rparr>) = cluster_view m C"
    unfolding cluster_view_def view_of_def by (simp cong: if_cong)
  have "server_inv ?s = server_inv (ranks C k)"
    by (simp add: server_inv_def base_inv_def idle_inv_def sub_tasks_def)
  then have "rank_ok m n k ?s" using inv_rank [OF i k] by (simp add: rank_ok_def)
  moreover have "requests_from_ranks m (?R 0)"
    using i by (auto simp: cluster_ok_def requests_from_ranks_def)
  ultimately have "cluster_ok m n (C\<lparr>ranks := ?R\<rparr>)"
    using i by (cases "k = 0") (simp_all add: cluster_ok_def)
  then show ?thesis using view by (rule simulates_view)
qed

section \<open>The collective update step\<close>

lemma channel_rank:
  assumes "distinct qs" "src \<in> set qs"
  shows "channel src d (concat (map (\<lambda>q. map (\<lambda>(d, msg). (q, d, msg)) (X q)) qs)) =
     channel src d (map (\<lambda>(d, msg). (src, d, msg)) (X src))"
  using assms
proof (induction qs)
  case (Cons q qs)
  have none: "channel src d (concat (map (\<lambda>q. map (\<lambda>(d, msg). (q, d, msg)) (X q)) ks)) = []" if "src \<notin> set ks" for ks
    using that by (induction ks) (auto simp: channel_other)
  show ?case
  proof (cases "q = src")
    case True
    with Cons none show ?thesis by simp
  next
    case False
    with Cons show ?thesis by (simp add: channel_other)
  qed
qed simp

lemma channel_no_rank:
  "src \<notin> set qs \<Longrightarrow> channel src d (concat (map (\<lambda>q. map (\<lambda>(d, msg). (q, d, msg)) (X q)) qs)) = []"
  by (induction qs) (auto simp: channel_other)

lemma keep_broadcast: "filter not_all_finished (map (\<lambda>(d, msg). (0, d, msg)) (broadcast m nts)) =
    map (\<lambda>(d, msg). (0, d, msg)) (broadcast m nts)"
  by (rule filter_True) (auto simp: broadcast_def not_all_finished_def)

lemma drop_all_finished: "filter not_all_finished (map (\<lambda>(d, msg). (0, d, msg)) (map (\<lambda>r. (r, All_finished)) rs)) = []"
  by (induction rs) (auto simp: not_all_finished_def)

lemma finished_owned:
  assumes "rank_ok m n k s" "would_finish s" "0 < n"
  shows "task_state_id ` le_owned (leader_of s) = {0..<n}" "le_owned (leader_of s) \<noteq> {}"
proof -
  show eq: "task_state_id ` le_owned (leader_of s) = {0..<n}"
    using finished_states [of s] assms by (simp add: rank_ok_def leader_of_def)
  show "le_owned (leader_of s) \<noteq> {}"
  proof
    assume "le_owned (leader_of s) = {}"
    with eq assms(3) show False by simp
  qed
qed

context assimilator
begin

text \<open>A follower that has finished everything and is told so starts the next time step.\<close>

lemma follower_updates:
  assumes ok: "rank_ok m n q s" and q: "q \<noteq> 0" and n: "0 < n" and empty: "new_task_inbox s = []"
    and it: "server_iteration ops b ev (receive 0 All_finished s) = Inr (False, s')"
    and cyc: "assimilation_cycles s' \<noteq> assimilation_cycles s"
    and a: "agree n l (follower_of pend reqs reps s)" "counted l (follower_of pend reqs reps s)"
    and l: "1 < le_task_id l" "task_state_id ` le_owned l = {0..<n}"
  shows "\<exists>ms f. sends s' = sends s @ map (Pair 0) ms \<and> (\<forall>msg \<in> set ms. from_follower msg) \<and> rank_ok m n q s' \<and>
     follower_steps n (follower_of pend reqs reps s) f \<and>
     follower_of pend (reqs @ requests_in ms) (reps @ reports_in ms) s' = fo_restart f"
proof -
  let ?r = "receive 0 All_finished s"
  have r: "server_inv ?r" "comm_rank ?r \<noteq> 0" "phase ?r = PHASE_SIMULATION" "new_task_inbox ?r = []"
      "ENSEMBLE_SIZE ?r = n" "all_finished_inbox ?r = 1"
    using ok q empty receive_simps(1) [of 0 All_finished s] by (simp_all add: rank_ok_def)
  have view: "follower_of pend reqs reps ?r = follower_of pend reqs reps s" 
    by (simp add: follower_of_def owned_def sub_tasks_def would_finish_def all_finished_size_def)
  obtain s1 where s1: "iteration_prefix ops ev ?r = Inr s1" and c: "check_finished ops b s1 = Inr (False, s')"
    using server_iteration_Inr [OF it] by blast
  have f: "follows ?r s1" by (rule prefix_follows [OF r(1-3) _ s1]) (use r(4) in simp)
  then obtain ms where ms: "follows_with ms ?r s1" by (auto simp: follows_def)
  then have su: "surroundings s1 = surroundings ?r" "server_inv s1" "sends s1 = sends s @ map (Pair 0) ms"
      "\<forall>msg \<in> set ms. from_follower msg"
    by (simp_all add: follows_with_def sends_def)
  let ?f1 = "follower_of pend (reqs @ requests_in ms) (reps @ reports_in ms) s1"
  have st: "follower_steps n (follower_of pend reqs reps s) ?f1"
    using ms r(5) view unfolding follows_with_def by metis
  have a1: "agree n l ?f1" "counted l ?f1"
    using follower_steps_agree [OF st a(1)] follower_steps_counted [OF st a(1)] a(2) by simp_all
  note fin = counted_finished [OF a1 l]
  have c1: "assimilation_cycles s1 = assimilation_cycles s" "comm_rank s1 \<noteq> 0" "all_finished_inbox s1 = 1"
    using su(1) r(2,6) by (simp_all add: surroundings_def)
  show ?thesis
    using su(2) c
  proof (cases rule: check_finished_cases)
    case (updating s2)
    have "highest_sent_task_id s1 \<ge> highest_received_task_id s1" using fin(4,5) by (simp add: follower_of_def)
    from synchronize_follows(3) [OF su(2) c1(2) updating(1,2) this]
    have s2: "s2 = s1\<lparr>all_finished_inbox := 0\<rparr>" by (simp add: c1(3))
    have rank2: "comm_rank s2 \<noteq> 0" using c1(2) by (simp add: s2)
    obtain u where u: "updated s2 u" "server_inv u" "sends u = sends s2" "killed u = killed s2" "sub_tasks u = []"
        "followed u = (new_task_inbox s2, 0, 0)" "unscheduled_tasks u = [0..ENSEMBLE_SIZE s2 - 1]" "s' = u"
      using update_step_restarts [OF updating(4,5,3)] rank2 by auto
    have "ENSEMBLE_SIZE s2 = n" using su(1) r(5) by (simp add: s2 surroundings_def)
    then have "\<not> would_finish u" using u(7) n by (simp add: would_finish_def)
    moreover have "owned t u = False" for t using u(5) by (simp add: owned_def)
    ultimately have "follower_of pend (reqs @ requests_in ms) (reps @ reports_in ms) s' = fo_restart ?f1"
      using u(4,6,8) by (simp add: follower_of_def fo_restart_def followed_def s2)
    moreover have "rank_ok m n q u"
      using u(1,2) ok su(1) by (simp add: rank_ok_def updated_def surroundings_def s2)
    moreover have "sends u = sends s @ map (Pair 0) ms" using u(3) su(3) by (simp add: s2 sends_def)
    ultimately show ?thesis using su(4) u(8) st by blast
  qed (use cyc c1 in simp_all)
qed

text \<open>
  Rank 0 enters the update step when it has counted all others: the state \<open>p\<close> in which it does so
  has the invariant, and everything is finished.
\<close>

lemma leader_updates:
  assumes i: "cluster_inv m n C"
    and it: "server_iteration ops b ev (ranks C 0) = Inr (False, s')"
    and cyc: "assimilation_cycles s' \<noteq> assimilation_cycles (ranks C 0)"
  shows "\<exists>s1 p nts0 nts. iteration_prefix ops ev (ranks C 0) = Inr s1 \<and> p = fold probe_rank_finished [1..m - 1] s1 \<and>
     simulates m n C (put 0 p C) \<and> sends p = sends (ranks C 0) @ broadcast m nts0 \<and>
     would_finish p \<and> finished_ranks p = m - 1 \<and>
     sends s' = sends p @ map (\<lambda>r. (r, All_finished)) [1..m - 1] @ broadcast m nts \<and>
     leader_steps n (le_restart (leader_of p)) nts (leader_of s') \<and> rank_ok m n 0 s' \<and>
     kill_inbox s' = kill_inbox p \<and> rank_finished_inbox s' = rank_finished_inbox p"
proof -
  have m: "0 \<le> (0 :: int)" "0 < m" using inv_ok [OF i] by (simp_all add: cluster_ok_def)
  obtain s1 where s1: "iteration_prefix ops ev (ranks C 0) = Inr s1" and c: "check_finished ops b s1 = Inr (False, s')"
    using server_iteration_Inr [OF it] by blast
  have ok0: "rank_ok m n 0 (ranks C 0)" using inv_rank [OF inv_ok [OF i] m] .
  have t: "takes_requests (ranks C 0) s1"
    by (rule prefix_takes [OF _ _ _ inv_requests_valid [OF i] s1]) (use ok0 in \<open>simp_all add: rank_ok_def\<close>)
  then obtain nts0 where se: "sends s1 = sends (ranks C 0) @ broadcast m nts0"
    using ok0 by (auto simp: takes_requests_def leads_def rank_ok_def)
  note p1 = prefix_simulates [OF i m s1]
  have i1: "cluster_inv m n (put 0 s1 C)" by (rule simulated_inv [OF i p1(1)])
  have ok1: "rank_ok m n 0 s1" using inv_rank [OF inv_ok [OF i1] m] by simp
  then have inv1: "server_inv s1" by (simp add: rank_ok_def)
  let ?p = "fold probe_rank_finished [1..m - 1] s1"
  let ?all = "map (\<lambda>r. (r, All_finished)) [1..m - 1]"
  have bp: "but_reports s1 ?p" by (rule fold_probe_but_reports)
  have "simulates m n (put 0 s1 C) (put 0 ?p (put 0 s1 C))" by (rule leader_probes [OF inv_ok [OF i1]]) simp
  moreover have "sends ?p = sends s1 @ []" using bp by (simp add: but_reports_def)
  ultimately have ip: "simulates m n C (put 0 ?p C)" using put_put [OF se] simulated_trans [OF p1(1)] by metis
  have okp: "rank_ok m n 0 ?p" using inv_rank [of m n "put 0 ?p C", OF _ m] ip by (simp add: simulates_def)
  have invp: "server_inv ?p" using okp by (simp add: rank_ok_def)
  show ?thesis
    using inv1 c
  proof (cases rule: check_finished_cases)
    case (updating s2)
    have fin: "finished_ranks ?p = m - 1" "s2 = emits (map (\<lambda>r. Mpi_send r All_finished) [1..m - 1]) ?p"
    proof -
      have cs: "comm_rank s1 = 0" "comm_size s1 = m" "comm_size ?p = m"
        using ok1 okp by (simp_all add: rank_ok_def)
      show "finished_ranks ?p = m - 1" "s2 = emits (map (\<lambda>r. Mpi_send r All_finished) [1..m - 1]) ?p"
        using updating(2) unfolding synchronize_finish_def Let_def cs by (simp_all add: cs split: if_splits)
    qed
    have c2: "comm_rank s2 = 0" "ENSEMBLE_SIZE s2 = n" using okp by (simp_all add: fin(2) rank_ok_def)
    obtain u where u: "updated s2 u" "server_inv u" "sends u = sends s2" "killed u = killed s2" "sub_tasks u = []"
        "finished_ranks u = finished_ranks s2" "task_id u = 1" "reschedule u = Inr s'"
      using update_step_restarts [OF updating(4,5,3)] c2 by auto
    have su: "comm_rank u = 0" "ENSEMBLE_SIZE u = n" "comm_size u = m" "kill_inbox u = kill_inbox ?p"
        "rank_finished_inbox u = rank_finished_inbox ?p" "phase u = PHASE_SIMULATION" "all_finished_inbox u = 0"
      using u(1) okp by (simp_all add: updated_def surroundings_def fin(2) rank_ok_def)
    have "owned t u = False" for t using u(5) by (simp add: owned_def)
    then have lu: "leader_of u = le_restart (leader_of ?p)"
      using u(4,6,7) by (simp add: leader_of_def le_restart_def fin(2))
    have l: "leads u s'" by (rule reschedule_leads [OF u(2) su(1) u(8)])
    then obtain nts where nts: "leader_steps n (le_restart (leader_of ?p)) nts (leader_of s')"
        "sends s' = sends u @ broadcast m nts"
      using su lu by (auto simp: leads_def)
    have "rank_ok m n 0 s'" "kill_inbox s' = kill_inbox ?p" "rank_finished_inbox s' = rank_finished_inbox ?p"
      using l su by (simp_all add: leads_def surroundings_def rank_ok_def)
    moreover have "sends s' = sends ?p @ ?all @ broadcast m nts"
      using nts(2) u(3) by (simp add: fin(2))
    moreover have "would_finish ?p" using updating(1) bp by (simp add: but_reports_def)
    moreover have "sends ?p = sends (ranks C 0) @ broadcast m nts0"
      using se bp by (simp add: but_reports_def)
    ultimately show ?thesis using ip fin(1) nts(1) s1 by blast
  next
    case working
    with cyc p1(3) show ?thesis by simp
  next
    case waiting
    with cyc p1(3) show ?thesis by simp
  qed
qed

text \<open>What holds when rank 0 has counted all others, for each of them.\<close>

lemma all_finished:
  assumes i: "cluster_inv m n C" and w: "would_finish (ranks C 0)" "finished_ranks (ranks C 0) = m - 1"
  shows "1 < task_id (ranks C 0)" "task_state_id ` le_owned (leader_of (ranks C 0)) = {0..<n}"
    "1 \<le> q \<Longrightarrow> q < m \<Longrightarrow> counted (leader_of (ranks C 0)) (followers (ranks C 0) (ranks C) (net C) q)"
proof -
  have ok: "rank_ok m n 0 (ranks C 0)" "0 < n" "0 < m" using inv_ok [OF i] by (auto simp: cluster_ok_def)
  note own = finished_owned [OF ok(1) w(1) ok(2)]
  have p: "protocol_inv m n (leader_of (ranks C 0)) (snd (cluster_view m C))"
    using i by (simp add: cluster_inv_def cluster_view_def view_of_def)
  then have "1 \<le> task_id (ranks C 0)" "task_id (ranks C 0) \<noteq> 1"
    using own(2) by (auto simp: protocol_inv_def leader_of_def)
  then show t: "1 < task_id (ranks C 0)" by simp
  show "task_state_id ` le_owned (leader_of (ranks C 0)) = {0..<n}" by (rule own(1))
  assume q: "1 \<le> q" "q < m"
  have "counted (leader_of (ranks C 0)) (snd (cluster_view m C) q)"
    using all_counted [OF p] w(2) t q by (simp add: leader_of_def)
  then show "counted (leader_of (ranks C 0)) (followers (ranks C 0) (ranks C) (net C) q)"
    using q by (simp add: cluster_view_def view_of_def)
qed

lemma restart_chain:
  assumes "v = (l, F)" "protocol_steps m n (l, F) (l, G)" "protocol_step m n (l, G) (r, H)"
    "protocol_steps m n (r, H) (l', K)" "K = snd v'" "fst v' = l'"
  shows "protocol_steps m n v v'"
proof -
  have "protocol_steps m n (l, F) (l', K)"
    using rtranclp_trans [OF assms(2) converse_rtranclp_into_rtranclp [OF assms(3,4)]] .
  then show ?thesis using assms(1,5,6) by (cases v') simp
qed

lemma collective_update_simulates:
  assumes i: "cluster_inv m n C" and u: "\<And>k. 0 \<le> k \<Longrightarrow> k < m \<Longrightarrow> update_of ops (current_nsteps (S 0)) k (ev k) C (S k)"
  shows "simulates m n C (C\<lparr>ranks := (\<lambda>k. if 0 \<le> k \<and> k < m then S k else ranks C k),
       net := net C @ filter not_all_finished (new_packets 0 (ranks C 0) (S 0)) @
         concat (map (\<lambda>q. new_packets q (ranks C q) (S q)) [1..m - 1])\<rparr>)"
proof -
  have m: "0 < m" "0 < n" using inv_ok [OF i] by (simp_all add: cluster_ok_def)
  have "server_iteration ops (current_nsteps (S 0)) (ev 0) (ranks C 0) = Inr (False, S 0)"
      "assimilation_cycles (S 0) \<noteq> assimilation_cycles (ranks C 0)"
    using u [of 0] m by (simp_all add: update_of_def told_finished_def)
  from leader_updates [OF i this]
  obtain p nts0 nts where sp: "simulates m n C (put 0 p C)" and se0: "sends p = sends (ranks C 0) @ broadcast m nts0"
      and w: "would_finish p" "finished_ranks p = m - 1"
      and seS: "sends (S 0) = sends p @ map (\<lambda>r. (r, All_finished)) [1..m - 1] @ broadcast m nts"
      and st: "leader_steps n (le_restart (leader_of p)) nts (leader_of (S 0))" and ok0: "rank_ok m n 0 (S 0)"
      and inbox: "kill_inbox (S 0) = kill_inbox p" "rank_finished_inbox (S 0) = rank_finished_inbox p"
    by blast
  have ip: "cluster_inv m n (put 0 p C)" by (rule simulated_inv [OF i sp])
  let ?A = "map (\<lambda>(d, msg). (0, d, msg)) (broadcast m nts0)" and ?B = "map (\<lambda>(d, msg). (0, d, msg)) (broadcast m nts)"
  have newp: "new_packets 0 (ranks C 0) p = ?A" by (rule new_packets_sent [OF se0])
  have "sends (S 0) = sends (ranks C 0) @ (broadcast m nts0 @ map (\<lambda>r. (r, All_finished)) [1..m - 1] @ broadcast m nts)"
    using seS se0 by simp
  from new_packets_sent [OF this]
  have new0: "filter not_all_finished (new_packets 0 (ranks C 0) (S 0)) = ?A @ ?B"
    by (simp only: map_append filter_append keep_broadcast drop_all_finished append_Nil)
  let ?C = "put 0 p C" and ?l = "leader_of p"
  let ?F = "snd (cluster_view m (put 0 p C))"
  note all = all_finished [OF ip, simplified, OF w]
  have l1: "1 < le_task_id ?l" "task_state_id ` le_owned ?l = {0..<n}" "le_counted ?l = m - 1"
    using all(1,2) w(2) by (simp_all add: leader_of_def)
  have each: "\<exists>ms f. sends (S q) = sends (ranks C q) @ map (Pair 0) ms \<and> (\<forall>msg \<in> set ms. from_follower msg) \<and>
      rank_ok m n q (S q) \<and> follower_steps n (?F q) f \<and>
      follower_of (new_tasks_in (channel 0 q (net ?C))) (fo_requests (?F q) @ requests_in ms)
        (fo_reports (?F q) @ reports_in ms) (S q) = fo_restart f"
    if q: "1 \<le> q" "q < m" for q
  proof -
    have F: "?F q = follower_of (new_tasks_in (channel 0 q (net ?C))) (fo_requests (?F q)) (fo_reports (?F q)) (ranks C q)"
      using q by (simp add: cluster_view_def view_of_def followers_def follower_of_def)
    have a: "agree n ?l (?F q)" "counted ?l (?F q)"
      using inv_agree [OF ip q] all(3) [OF q] q by (simp_all add: cluster_view_def view_of_def)
    have "fo_pending (?F q) = []" by (rule counted_finished(2) [OF a l1(1,2)])
    then have empty: "new_task_inbox (ranks C q) = []" using arg_cong [OF F, of fo_pending] by (simp add: follower_of_def)
    have uq: "server_iteration ops (current_nsteps (S 0)) (ev q) (receive 0 All_finished (ranks C q)) = Inr (False, S q)"
        "assimilation_cycles (S q) \<noteq> assimilation_cycles (ranks C q)"
      using u [of q] q by (simp_all add: update_of_def told_finished_def)
    have "rank_ok m n q (ranks C q)" using inv_rank [OF inv_ok [OF i]] q by simp
    from follower_updates [OF this _ m(2) empty uq, of ?l "new_tasks_in (channel 0 q (net ?C))"
        "fo_requests (?F q)" "fo_reports (?F q)", folded F] q a l1
    show ?thesis by simp
  qed
  then obtain M f where M: "\<And>q. 1 \<le> q \<Longrightarrow> q < m \<Longrightarrow> sends (S q) = sends (ranks C q) @ map (Pair 0) (M q) \<and>
      (\<forall>msg \<in> set (M q). from_follower msg) \<and> rank_ok m n q (S q) \<and> follower_steps n (?F q) (f q) \<and>
      follower_of (new_tasks_in (channel 0 q (net ?C))) (fo_requests (?F q) @ requests_in (M q))
        (fo_reports (?F q) @ reports_in (M q)) (S q) = fo_restart (f q)"
    by metis
  let ?X = "concat (map (\<lambda>q. map (\<lambda>(d, msg). (q, d, msg)) (map (Pair 0) (M q))) [1..m - 1])"
  have "new_packets q (ranks C q) (S q) = map (\<lambda>(d, msg). (q, d, msg)) (map (Pair 0) (M q))" if "q \<in> set [1..m - 1]" for q
    by (rule new_packets_sent) (use M that in auto)
  then have newX: "concat (map (\<lambda>q. new_packets q (ranks C q) (S q)) [1..m - 1]) = ?X"
    by (intro arg_cong [of _ _ concat] map_cong) auto
  let ?N = "(net ?C @ ?B) @ ?X" and ?R = "\<lambda>k. if 0 \<le> k \<and> k < m then S k else ranks C k"
  let ?C' = "C\<lparr>ranks := ?R, net := ?N\<rparr>"
  let ?G = "\<lambda>q. if 1 \<le> q \<and> q < m then f q else ?F q"
  have s1: "protocol_steps m n (?l, ?F) (?l, ?G)"
    by (rule all_followers_protocol) (use M follower_steps_protocol in metis)
  have s2: "protocol_step m n (?l, ?G) (le_restart ?l, to_all m fo_restart ?G)"
    by (rule ps_restart) (use l1 in auto)
  have s3: "protocol_steps m n (le_restart ?l, to_all m fo_restart ?G)
      (leader_of (S 0), to_all m (fo_send nts) (to_all m fo_restart ?G))"
    by (rule leader_steps_protocol [OF st])
  have eq: "to_all m (fo_send nts) (to_all m fo_restart ?G) = snd (cluster_view m ?C')"
  proof
    fix q
    show "to_all m (fo_send nts) (to_all m fo_restart ?G) q = snd (cluster_view m ?C') q"
    proof (cases "1 \<le> q \<and> q < m")
      case True
      then have q: "1 \<le> q" "q < m" by auto
      have "q \<in> set [1..m - 1]" using q by auto
      then have ch: "channel q 0 ?X = M q"
        using channel_rank [of "[1..m - 1]" q 0 "\<lambda>q. map (Pair 0) (M q)"] channel_to_0 [of q "M q"] by simp
      have ch': "channel 0 q ?X = []"
        using channel_no_rank [of 0 "[1..m - 1]" q "\<lambda>q. map (Pair 0) (M q)"] by simp
      have cb: "channel 0 q ?B = map New_task nts" "channel q 0 ?B = []"
        using channel_broadcast [OF q] channel_other [of q 0 0 "broadcast m nts"] q by simp_all
      have "to_all m (fo_send nts) (to_all m fo_restart ?G) q = fo_send nts (follower_of
          (new_tasks_in (channel 0 q (net ?C))) (fo_requests (?F q) @ requests_in (M q))
          (fo_reports (?F q) @ reports_in (M q)) (S q))"
        using M [OF q] q by (simp add: to_all_def)
      also have "\<dots> = snd (cluster_view m ?C') q"
        using q inbox ch ch' cb
        by (simp add: cluster_view_def view_of_def followers_def follower_of_def fo_send_def)
      finally show ?thesis .
    next
      case False
      then show ?thesis by (auto simp: to_all_def cluster_view_def view_of_def)
    qed
  qed
  have "protocol_steps m n (cluster_view m ?C) (cluster_view m ?C')"
    by (rule restart_chain [OF _ s1 s2 s3 eq]) (use m in \<open>simp_all add: cluster_view_def view_of_def\<close>)
  moreover have "protocol_steps m n (cluster_view m C) (cluster_view m ?C)"
    using sp by (simp add: simulates_def)
  ultimately have steps: "protocol_steps m n (cluster_view m C) (cluster_view m ?C')"
    by (rule rtranclp_trans [rotated])
  have "rank_ok m n k (S k)" if "0 \<le> k" "k < m" for k
    using ok0 M [of k] that by (cases "k = 0") auto
  moreover have "packet_ok m x" if "x \<in> set ?N" for x
  proof -
    have "packet_ok m x" if "x \<in> set ?B" using that by (auto simp: broadcast_def packet_ok_def)
    moreover have "packet_ok m x" if "x \<in> set ?X" using that M by (auto simp: packet_ok_def)
    moreover have "packet_ok m x" if "x \<in> set (net ?C)" using that inv_ok [OF ip] by (simp only: cluster_ok_def)
    ultimately show ?thesis using that by auto
  qed
  moreover have "requests_from_ranks m (S 0)"
    using inv_ok [OF ip] inbox by (simp add: cluster_ok_def requests_from_ranks_def)
  ultimately have "cluster_ok m n ?C'" using m by (simp add: cluster_ok_def)
  with steps have "simulates m n C ?C'" by (simp add: simulates_def)
  then show ?thesis unfolding new0 newX by (simp add: newp)
qed

lemma cluster_step_simulates:
  assumes i: "cluster_inv m n C" and s: "cluster_step ops m C C'"
  shows "simulates m n C C'"
  using s
proof cases
  case alone
  then show ?thesis
  proof cases
    case (iterate k b ev s')
    with iterate_simulates [OF i] show ?thesis by (simp add: put_def)
  next
    case (arrive k d t)
    with arrive_simulates [OF inv_ok [OF i]] show ?thesis by simp
  next
    case (deliver xs src d msg ys)
    with deliver_simulates [OF inv_ok [OF i]] show ?thesis by simp
  qed
next
  case (update S ev)
  with collective_update_simulates [OF i] show ?thesis by blast
qed

lemma cluster_reaches_inv: "cluster_reaches ops m C C' \<Longrightarrow> cluster_inv m n C \<Longrightarrow> cluster_inv m n C'"
  by (induction rule: cluster_reaches.induct) (auto intro: simulated_inv cluster_step_simulates)

end

end
