(* ===== verification/ClusterRun.thy ===== *)
theory ClusterRun
  imports ClusterInv
begin

text \<open>
  A run of two server ranks with one ensemble state and one runner: the runner connects, is given
  the state, answers, and the time step ends. The states in between are written out.
\<close>

definition one_field :: field where
  "one_field = \<lparr>field_name = ''state'', ensemble_members = [empty_member],
     local_vect_size = 0, local_vect_sizes_runner = [2], parts = [],
     local_vect_size_hidden = 0, local_vect_sizes_runner_hidden = [0], parts_hidden = [],
     connected_runner_ranks = [], local_index_map = [], local_index_map_hidden = [],
     bytes_per_element = 1, bytes_per_element_hidden = 1\<rparr>"

definition one_parts :: "part list" where
  "one_parts =
     [\<lparr>rank_runner = 0, local_offset_runner = 0, rank_server = 0, local_offset_server = 0, send_count = 1\<rparr>,
      \<lparr>rank_runner = 0, local_offset_runner = 1, rank_server = 1, local_offset_server = 0, send_count = 1\<rparr>]"

definition one_ready :: field where
  "one_ready = one_field\<lparr>parts := one_parts, local_vect_size := 1,
     connected_runner_ranks := [0], local_index_map := [(0, 0)],
     ensemble_members := [\<lparr>state_analysis = [0], state_background = [0], state_hidden = []\<rparr>]\<rparr>"

lemma one_ready_field: "field_ready 0 one_ready" "field_ready 1 one_ready"
proof -
  have n: "calculate_n_to_m 2 [2] 1 = Inr one_parts" "calculate_n_to_m 2 [0] 1 = Inr []"
    by (simp_all add: one_parts_def n_to_m_eval cong: and_then_weak_cong let_weak_cong)
  then have p: "calculate_parts_pre 2 0 1 1 one_parts [] one_field" "calculate_parts_pre 2 1 1 1 one_parts [] one_field"
    by (simp_all add: calculate_parts_pre_def one_field_def n_to_m_args_def same_parts_def even_split_def)
  have "calculate_parts 0 2 one_field = Inr one_ready" "calculate_parts 1 2 one_field = Inr one_ready"
    using n by (simp_all add: calculate_parts_def one_field_def one_ready_def one_parts_def
        add_part_def numeral_2_eq_2 empty_member_def set_local_vect_size_def resize_def
        insort_insert_key_def size64_def int32_def cong: and_then_weak_cong let_weak_cong)
  then show "field_ready 0 one_ready" "field_ready 1 one_ready"
    using calculate_parts_ok [OF p(1)] calculate_parts_ok [OF p(2)] by fastforce+
qed

lemma one_ready_simps:
  "connected_runner_ranks one_ready = [0]"
  "ensemble_members one_ready = [\<lparr>state_analysis = [0], state_background = [0], state_hidden = []\<rparr>]"
  "field_name one_ready = ''state''"
  "parts one_ready = one_parts" "parts_hidden one_ready = []"
  by (simp_all add: one_ready_def one_field_def)

definition one_server :: "int \<Rightarrow> stepper server" where
  "one_server k = \<lparr>comm_rank = k, comm_size = 2, ENSEMBLE_SIZE = 1, MAX_RUNNER_TIMEOUT = 5,
     report_timing = False, phase = PHASE_SIMULATION, now = 100, highest_received_task_id = 0,
     highest_sent_task_id = 0, task_id = 1, launcher_notified_about_runner = [(7, False)],
     IDENTITY_SIZE = 0, assimilation_cycles = 0, current_step = 1, current_nsteps = 1, killed = [],
     idle_runners = [], unscheduled_tasks = [0], failcount = [0], finished_ranks = -1,
     scheduled_sub_tasks = [], running_sub_tasks = [], finished_sub_tasks = [],
     the_field = one_ready, has_field = True, register_field_flag = False,
     global_index_map = [], global_index_map_hidden = [],
     the_assimilator = \<lparr>nsteps = 1, total_steps = 3\<rparr>, due_date_launcher = 160,
     next_message_date_to_launcher = 108, last_seconds_checks = 100, data_socket = [],
     new_task_inbox = [], kill_inbox = (\<lambda>_. []), rank_finished_inbox = (\<lambda>_. []),
     all_finished_inbox = 0, out = []\<rparr>"

definition quiet :: events where
  "quiet = \<lparr>ev_names = [], ev_config = [], ev_launcher = False\<rparr>"

definition answer_frames :: "8 word \<Rightarrow> (frame \<times> bool) list" where
  "answer_frames d = [(Bytes [1, 2], True), (Bytes [], True), (Header [7, 0, 0, 1] ''state'', True), (Bytes [d], False)]"

definition one_task :: new_task where
  "one_task = \<lparr>nt_runner_id = 7, nt_state_id = 0, nt_due_date = 105, nt_task_id = 2\<rparr>"

definition one_sub_task :: sub_task where
  "one_sub_task = \<lparr>runner_id = 7, runner_rank = 0, state_id = 0, due_date = 105\<rparr>"

definition one_launch :: "int \<Rightarrow> action list" where
  "one_launch step = [Data_send (Bytes [1, 2]) True, Data_send (Bytes []) True,
     Data_send (Ints [0, step, 0, 1]) True, Data_send (Bytes [0]) False]"

text \<open>Rank 0 gives the state to the runner that connected, then has its answer.\<close>

definition rank0_launched :: "stepper server" where
  "rank0_launched = (one_server 0)\<lparr>task_id := 2, launcher_notified_about_runner := [(7, True)], IDENTITY_SIZE := 2,
     unscheduled_tasks := [], finished_ranks := 0, running_sub_tasks := [one_sub_task],
     out := Launcher_notify 7 RUNNING # one_launch 1 @ [Mpi_send 1 (New_task one_task)]\<rparr>"

definition rank0_finished :: "stepper server" where
  "rank0_finished = rank0_launched\<lparr>running_sub_tasks := [], finished_sub_tasks := [one_sub_task],
     idle_runners := [(7, [(0, Some [1, 2])])],
     the_field := one_ready\<lparr>ensemble_members := [\<lparr>state_analysis = [0], state_background = [5], state_hidden = []\<rparr>]\<rparr>\<rparr>"

lemma store_one_state:
  "store_state 0 \<lparr>rank_runner = 0, local_offset_runner = off, rank_server = k, local_offset_server = 0, send_count = 1\<rparr>
     [d] \<lparr>rank_runner = -1, local_offset_runner = 0, rank_server = -1, local_offset_server = 0, send_count = 0\<rparr> None one_ready =
   Inr (one_ready\<lparr>ensemble_members := [\<lparr>state_analysis = [0], state_background = [d], state_hidden = []\<rparr>]\<rparr>)"
  by (simp add: store_state_def store_background_state_part_def copy_part_def copy_into_def assert_then_def
      size64_def at_def one_ready_def)

lemmas run_eval = server_iteration_def rank0_events_def quiet_def server_eval one_server_def
  checkLauncherDueDate_def ping_def updateLauncherNextMessageDate_def one_ready_simps getPart_def getPartHidden_def part_of_def
  null_part_def one_parts_def schedule_new_task_def 
  add_sub_tasks_def try_launch_subtask_def launch_sub_task_def SubTask_def
  get_due_date_def int32_def at_def read_vec_def read_hidden_def idle_after_def om_erase_def
  store_one_state [simplified] check_schedule_new_tasks_def forget_state_def insort_insert_key_def Let_def
  synchronize_finish_def probe_rank_finished_def keep_other_states_def is_sub_task_def is_next_task_def update_step_def run_analysis_def empty_do_update_step_def next_nsteps_def
  init_new_timestep_def trigger_idle_def reschedule.simps get_completely_idle_runner_def lift_def fail_with_def
  launch_header_frames_def launch_data_frames_def CHANGE_STATE_def subvec_def empty_frame_def one_sub_task_def one_task_def one_launch_def

lemma rank0_launches:
  "server_iteration empty_ops 0 quiet ((one_server 0)\<lparr>data_socket := hello 0\<rparr>) = Inr (False, rank0_launched)"
  by (simp add: run_eval hello_def rank0_launched_def cong: and_then_weak_cong let_weak_cong)

lemma rank0_finishes:
  "server_iteration empty_ops 0 quiet (rank0_launched\<lparr>data_socket := answer_frames 5\<rparr>) = Inr (False, rank0_finished)"
  by (simp add: run_eval answer_frames_def rank0_launched_def rank0_finished_def cong: and_then_weak_cong let_weak_cong)

text \<open>Rank 1 is sent the task, the runner connects and answers, and rank 1 reports to rank 0.\<close>

definition rank1_launched :: "stepper server" where
  "rank1_launched = (one_server 1)\<lparr>highest_received_task_id := 2, IDENTITY_SIZE := 2,
     unscheduled_tasks := [], running_sub_tasks := [one_sub_task], out := one_launch 1\<rparr>"

definition rank1_finished :: "stepper server" where
  "rank1_finished = rank1_launched\<lparr>running_sub_tasks := [], finished_sub_tasks := [one_sub_task],
     idle_runners := [(7, [(0, Some [1, 2])])], highest_sent_task_id := 2,
     the_field := one_ready\<lparr>ensemble_members := [\<lparr>state_analysis = [0], state_background = [6], state_hidden = []\<rparr>]\<rparr>,
     out := one_launch 1 @ [Mpi_send 0 (Rank_finished 2)]\<rparr>"

lemma rank1_launches:
  "server_iteration empty_ops 0 quiet ((one_server 1)\<lparr>data_socket := hello 0, new_task_inbox := [one_task]\<rparr>) =
     Inr (False, rank1_launched)"
  by (simp add: run_eval hello_def rank1_launched_def cong: and_then_weak_cong let_weak_cong)

lemma rank1_finishes:
  "server_iteration empty_ops 0 quiet (rank1_launched\<lparr>data_socket := answer_frames 6\<rparr>) = Inr (False, rank1_finished)"
  by (simp add: run_eval answer_frames_def rank1_launched_def rank1_finished_def cong: and_then_weak_cong let_weak_cong)

text \<open>The report arrives, and rank 0 begins the next time step, with the same runner.\<close>

definition rank0_updated :: "stepper server" where
  "rank0_updated = rank0_launched\<lparr>assimilation_cycles := 1, current_step := 2,
     the_field := one_ready\<lparr>ensemble_members := [\<lparr>state_analysis = [0], state_background = [5], state_hidden = []\<rparr>]\<rparr>,
     out := out rank0_launched @ Mpi_send 1 All_finished # one_launch 2 @ [Mpi_send 1 (New_task one_task)]\<rparr>"

lemma inbox_read: "(\<lambda>_. [])(k := []) = (\<lambda>_. [])"
  by auto

lemma rank0_updates:
  "server_iteration empty_ops b quiet (receive 1 (Rank_finished 2) rank0_finished) = Inr (False, rank0_updated)"
  by (simp add: run_eval rank0_launched_def rank0_finished_def rank0_updated_def inbox_read cong: and_then_weak_cong let_weak_cong)

definition rank1_updated :: "stepper server" where
  "rank1_updated = rank1_finished\<lparr>highest_received_task_id := 0, highest_sent_task_id := 0,
     assimilation_cycles := 1, current_step := 2, unscheduled_tasks := [0], finished_sub_tasks := []\<rparr>"

lemma rank1_updates:
  "server_iteration empty_ops 1 quiet (receive 0 All_finished rank1_finished) = Inr (False, rank1_updated)"
  by (simp add: run_eval rank1_launched_def rank1_finished_def rank1_updated_def cong: and_then_weak_cong let_weak_cong)

section \<open>The states of the cluster\<close>

lemma one_server_inv: "server_inv (one_server 0)" "server_inv (one_server 1)"
proof -
  have "{0..<1 :: int} = {0}" by auto
  then show "server_inv (one_server 0)" "server_inv (one_server 1)"
    using one_ready_field
    by (simp_all add: server_inv_def base_inv_def idle_inv_def sub_tasks_def one_server_def tasks_inv_def key_def
        one_ready_simps)
qed

definition one_cluster :: "stepper server \<Rightarrow> stepper server \<Rightarrow> packet list \<Rightarrow> stepper cluster" where
  "one_cluster s0 s1 ps = \<lparr>ranks = one_server(0 := s0, 1 := s1), net = ps\<rparr>"

lemma one_cluster_simps [simp]:
  "ranks (one_cluster s0 s1 ps) 0 = s0" "ranks (one_cluster s0 s1 ps) 1 = s1" "net (one_cluster s0 s1 ps) = ps"
  "put 0 s (one_cluster s0 s1 ps) = one_cluster s s1 (ps @ new_packets 0 s0 s)"
  "put 1 s (one_cluster s0 s1 ps) = one_cluster s0 s (ps @ new_packets 1 s1 s)"
  by (auto simp: one_cluster_def put_def fun_eq_iff)

definition one_start :: "stepper cluster" where
  "one_start = one_cluster (one_server 0) (one_server 1) []"

lemma run_iterates:
  assumes "server_iteration ops b ev ((ranks C k)\<lparr>data_socket := d\<rparr>) = Inr (False, s')" "0 \<le> k" "k < m"
    and "assimilation_cycles s' = assimilation_cycles (ranks C k)" "cluster_reaches ops m C0 C"
  shows "cluster_reaches ops m C0 (put k s' C)"
proof -
  let ?s = "(ranks C k)\<lparr>data_socket := d\<rparr>"
  let ?A = "C\<lparr>ranks := (ranks C)(k := (ranks C k)\<lparr>data_socket := d, now := now (ranks C k)\<rparr>)\<rparr>"
  have A: "ranks ?A k = ?s" by simp
  have "rank_step ops m C ?A" by (rule rank_step.arrive [OF assms(2,3)])
  moreover have "rank_step ops m ?A (?A\<lparr>ranks := (ranks ?A)(k := s'), net := net ?A @ new_packets k (ranks ?A k) s'\<rparr>)"
    by (rule rank_step.iterate [OF assms(2,3), of ops b ev]) (use assms(1,4) in simp_all)
  moreover have "?A\<lparr>ranks := (ranks ?A)(k := s'), net := net ?A @ new_packets k (ranks ?A k) s'\<rparr> = put k s' C"
    by (simp add: put_def new_packets_def sends_def)
  ultimately show ?thesis
    using further [OF further [OF assms(5) alone] alone] by metis
qed

lemma run_delivers:
  assumes "cluster_reaches ops m C0 C" "net C = (src, d, msg) # ys"
  shows "cluster_reaches ops m C0 (C\<lparr>ranks := (ranks C)(d := receive src msg (ranks C d)), net := ys\<rparr>)"
  using further [OF assms(1) alone [OF rank_step.deliver [of C "[]" src d msg ys]]] assms(2)
  by (simp add: may_overtake_def)

lemma one_delivers:
  "cluster_reaches ops m C0 (one_cluster s0 s1 ((1, 0, msg) # ys)) \<Longrightarrow>
     cluster_reaches ops m C0 (one_cluster (receive 1 msg s0) s1 ys)"
  "cluster_reaches ops m C0 (one_cluster s0 s1 ((0, 1, msg) # ys)) \<Longrightarrow>
     cluster_reaches ops m C0 (one_cluster s0 (receive 0 msg s1) ys)"
  using run_delivers [of ops m C0 "one_cluster s0 s1 ((1, 0, msg) # ys)"]
    run_delivers [of ops m C0 "one_cluster s0 s1 ((0, 1, msg) # ys)"]
  by (simp_all add: one_cluster_def fun_upd_twist)

lemma one_run:
  "cluster_reaches empty_ops 2 one_start (one_cluster rank0_launched (one_server 1) [(0, 1, New_task one_task)])"
  "cluster_reaches empty_ops 2 one_start (one_cluster rank0_finished rank1_finished [(1, 0, Rank_finished 2)])"
  "cluster_reaches empty_ops 2 one_start (one_cluster (receive 1 (Rank_finished 2) rank0_finished) rank1_finished [])"
proof -
  have "cluster_reaches empty_ops 2 one_start (put 0 rank0_launched one_start)"
    by (rule run_iterates [where b = 0 and ev = quiet and d = "hello 0"])
      (simp_all add: one_start_def rank0_launches here, simp_all add: rank0_launched_def one_server_def)
  then show 1: "cluster_reaches empty_ops 2 one_start (one_cluster rank0_launched (one_server 1) [(0, 1, New_task one_task)])"
    by (simp add: one_start_def new_packets_def sends_def rank0_launched_def one_server_def one_launch_def)
  let ?r = "receive 0 (New_task one_task) (one_server 1)"
  have "cluster_reaches empty_ops 2 one_start (put 1 rank1_launched (one_cluster rank0_launched ?r []))"
    by (rule run_iterates [where b = 0 and ev = quiet and d = "hello 0", OF _ _ _ _ one_delivers(2) [OF 1]])
      (use rank1_launches in \<open>simp_all add: one_server_def\<close>, simp_all add: rank1_launched_def one_server_def)
  then have "cluster_reaches empty_ops 2 one_start (one_cluster rank0_launched rank1_launched [])"
    by (simp add: new_packets_def sends_def rank1_launched_def one_server_def one_launch_def)
  from run_iterates [where b = 0 and ev = quiet and k = 0 and d = "answer_frames 5" and s' = rank0_finished, OF _ _ _ _ this] rank0_finishes
  have "cluster_reaches empty_ops 2 one_start (put 0 rank0_finished (one_cluster rank0_launched rank1_launched []))"
    by (simp add: rank0_finished_def)
  then have "cluster_reaches empty_ops 2 one_start (one_cluster rank0_finished rank1_launched [])"
    by (simp add: new_packets_def sends_def rank0_finished_def)
  from run_iterates [where b = 0 and ev = quiet and k = 1 and d = "answer_frames 6" and s' = rank1_finished, OF _ _ _ _ this] rank1_finishes
  have "cluster_reaches empty_ops 2 one_start (put 1 rank1_finished (one_cluster rank0_finished rank1_launched []))"
    by (simp add: rank1_finished_def)
  then show 2: "cluster_reaches empty_ops 2 one_start (one_cluster rank0_finished rank1_finished [(1, 0, Rank_finished 2)])"
    by (simp add: new_packets_def sends_def rank1_finished_def rank1_launched_def one_launch_def)
  show "cluster_reaches empty_ops 2 one_start (one_cluster (receive 1 (Rank_finished 2) rank0_finished) rank1_finished [])"
    by (rule one_delivers(1) [OF 2])
qed

text \<open>The update step of both ranks.\<close>

lemma one_update: "cluster_step empty_ops 2 (one_cluster (receive 1 (Rank_finished 2) rank0_finished) rank1_finished [])
   (one_cluster rank0_updated rank1_updated [(0, 1, New_task one_task)])"
proof -
  let ?r = "receive 1 (Rank_finished 2) rank0_finished"
  let ?C = "one_cluster ?r rank1_finished []" and ?S = "\<lambda>k :: int. if k = 0 then rank0_updated else rank1_updated"
  have b: "current_nsteps (?S 0) = 1" by (simp add: rank0_updated_def rank0_launched_def one_server_def)
  have cyc: "assimilation_cycles rank0_updated \<noteq> assimilation_cycles ?r"
      "assimilation_cycles rank1_updated \<noteq> assimilation_cycles rank1_finished"
    by (simp_all add: rank0_updated_def rank1_updated_def rank0_finished_def rank0_launched_def rank1_finished_def
        rank1_launched_def one_server_def)
  have u: "update_of empty_ops (current_nsteps (?S 0)) k quiet ?C (?S k)" if "0 \<le> k" "k < 2" for k
  proof -
    have "k = 0 \<or> k = 1" using that by auto
    then show ?thesis
      using cyc rank0_updates [of 1] rank1_updates unfolding b update_of_def told_finished_def by auto
  qed
  have n: "filter not_all_finished (new_packets 0 ?r rank0_updated) = [(0, 1, New_task one_task)]"
      "new_packets 1 rank1_finished rank1_updated = []"
    by (simp_all add: new_packets_def sends_def rank0_updated_def rank0_finished_def rank0_launched_def one_server_def
        one_launch_def rank1_updated_def not_all_finished_def)
  have "(\<lambda>k. if 0 \<le> k \<and> k < 2 then ?S k else ranks ?C k) = ranks (one_cluster rank0_updated rank1_updated [])"
    by (auto simp: one_cluster_def fun_eq_iff)
  with update [where S = ?S and ev = "\<lambda>_. quiet" and C = ?C and m = 2 and ops = empty_ops, OF u] n
  show ?thesis by (simp add: one_cluster_def)
qed

end
