(* ===== verification/ClusterProps.thy ===== *)
theory ClusterProps
  imports ClusterRun
begin

text \<open>
  Properties of the server as a whole: it refines the protocol, no rank ever fails an assert, the
  ranks agree on the tasks, and an update step begins only when everything is finished everywhere.
  Where the collective operations of the update step do not make the ranks wait for each other, a
  new task of the next time step can be taken for one of the last.
\<close>

section \<open>The start of the simulation\<close>

definition rank_started :: "int \<Rightarrow> int \<Rightarrow> int \<Rightarrow> 'a server \<Rightarrow> bool" where
  "rank_started m n k s \<longleftrightarrow> rank_ok m n k s \<and> sub_tasks s = [] \<and> killed s = [] \<and> task_id s = 1 \<and>
     highest_received_task_id s = 0 \<and> highest_sent_task_id s = 0 \<and> new_task_inbox s = [] \<and>
     (\<forall>r. kill_inbox s r = []) \<and> (\<forall>r. rank_finished_inbox s r = [])"

definition cluster_start :: "int \<Rightarrow> int \<Rightarrow> 'a cluster \<Rightarrow> bool" where
  "cluster_start m n C \<longleftrightarrow> 0 < n \<and> 1 \<le> m \<and> net C = [] \<and>
     (\<forall>k. 0 \<le> k \<longrightarrow> k < m \<longrightarrow> rank_started m n k (ranks C k))"

lemma started_agree:
  assumes "rank_started m n q s" "le_killed l = {}" "le_owned l = {}" "le_task_id l = 1"
  shows "agree n l (follower_of [] [] [] s)"
proof -
  have "task_state_id ` {t. owned t s} = {0..<n}" if "would_finish s"
    using finished_states [of s] that assms(1) by (simp add: rank_started_def rank_ok_def)
  moreover have "\<not> owned t s" for t using assms(1) by (simp add: owned_def rank_started_def)
  ultimately show ?thesis
    using assms by (auto simp: agree_defs state_follows_def follower_of_def rank_started_def)
qed

lemma cluster_start_inv:
  assumes "cluster_start m n C" shows "cluster_inv m n C"
proof -
  have m: "0 < n" "1 \<le> m" "net C = []" and st: "\<And>k. 0 \<le> k \<Longrightarrow> k < m \<Longrightarrow> rank_started m n k (ranks C k)"
    using assms by (auto simp: cluster_start_def)
  have s0: "rank_started m n 0 (ranks C 0)" using st m(2) by simp
  then have l: "leader_of (ranks C 0) = \<lparr>le_owned = {}, le_killed = {}, le_task_id = 1,
      le_counted = finished_ranks (ranks C 0)\<rparr>"
    by (simp add: leader_of_def rank_started_def owned_def)
  have "agree n (leader_of (ranks C 0)) (followers (ranks C 0) (ranks C) (net C) q)" if "1 \<le> q" "q < m" for q
    using started_agree [of m n q "ranks C q" "leader_of (ranks C 0)"] st [of q] that s0 l m(3)
    by (simp add: followers_def rank_started_def)
  then have "protocol_inv m n (leader_of (ranks C 0)) (snd (cluster_view m C))"
    by (simp add: protocol_inv_def cluster_view_def view_of_def l)
  moreover have "cluster_ok m n C"
    using m st s0 by (simp add: cluster_ok_def requests_from_ranks_def rank_started_def)
  ultimately show ?thesis by (simp add: cluster_inv_def cluster_view_def view_of_def)
qed

text \<open>The first time step of a rank that waited for the field.\<close>

lemma waiting_rank_starts:
  assumes w: "waiting_rank c q n t" and b: "base_inv t" 
    and c: "\<forall>r f. field_ready r f \<longrightarrow> (\<exists>a f'. create r f = Inr (a, f') \<and> same_shape f f')"
  shows "\<exists>s. start_rank create ops t = Inr s \<and> rank_started (int c) n (int q) s \<and> unscheduled_tasks s = [0..n - 1]"
proof -
  have "field_ready (comm_rank t) (the_field t)" using b by (simp add: base_inv_def)
  then obtain a f where af: "create (comm_rank t) (the_field t) = Inr (a, f)" and sh: "same_shape (the_field t) f"
    using c by blast
  let ?t = "t\<lparr>the_assimilator := a, the_field := f, current_nsteps := getNSteps ops a\<rparr>"
  have "base_inv ?t" by (rule base_inv_created [OF b sh])
  obtain s where s: "init_new_timestep ?t = Inr s" "unscheduled_tasks s = [0..ENSEMBLE_SIZE ?t - 1]"
      "scheduled_sub_tasks s = []"
    using first_timestep_total [of ?t] w by (auto simp: waiting_rank_def sub_tasks_def)
  note r = init_new_timestep_restarts [OF s(1)]
  have inv: "server_inv s" using init_new_timestep_base [OF \<open>base_inv ?t\<close> s(1)] by simp
  have "reset_due_dates s = s" using s(3) by (simp add: reset_due_dates_def)
  then have "start_rank create ops t = Inr (s\<lparr>phase := PHASE_SIMULATION\<rparr>)"
    using s(1) by (simp add: start_rank_def af lift_def)
  moreover have "server_inv (s\<lparr>phase := PHASE_SIMULATION\<rparr>)"
    using inv by (simp add: server_inv_def base_inv_def idle_inv_def sub_tasks_def)
  ultimately show ?thesis
    using w r(1,3,4,6-8) by (auto simp: rank_started_def rank_ok_def waiting_rank_def surroundings_def
        followed_def sub_tasks_def)
qed

text \<open>
  C15. The simulation starts. Once the field is registered, the broadcast succeeds on all server
  ranks, and on every rank the creation of the assimilator and the first time step succeed; the
  ranks then form a cluster at its start: every rank in the simulation phase, with the invariant
  of the scheduler, every ensemble state unscheduled and no message under way, whatever assimilator
  was chosen, if its constructor succeeds on prepared fields and keeps their shape.
\<close>

theorem simulation_starts:
  assumes "index_map_exchange gatherv scatterv" "may_start c b bh ps hs max_name rs" "0 < c"
    and "\<forall>r f. field_ready r f \<longrightarrow> (\<exists>a f'. create r f = Inr (a, f') \<and> same_shape f f')"
  shows "\<exists>rs' S. broadcast_field_information_and_calculate_parts scatterv max_name rs = Inr rs' \<and>
     length rs' = c \<and> (\<forall>q < c. start_rank create ops (rs' ! q) = Inr (S (int q)) \<and>
        unscheduled_tasks (S (int q)) = [0..ENSEMBLE_SIZE (hd rs) - 1]) \<and>
     cluster_start (int c) (ENSEMBLE_SIZE (hd rs)) \<lparr>ranks = S, net = []\<rparr>"
proof -
  let ?n = "ENSEMBLE_SIZE (hd rs)" and ?rs = "map (started_rank c b bh rs) [0..<c]"
  have "\<forall>q. \<exists>s. q < c \<longrightarrow> start_rank create ops (?rs ! q) = Inr s \<and> rank_started (int c) ?n (int q) s \<and>
      unscheduled_tasks s = [0..?n - 1]"
    using waiting_rank_starts [OF started_base_inv(2,1) [OF assms(2)] assms(4)] by auto
  then obtain T where T: "\<And>q. q < c \<Longrightarrow> start_rank create ops (?rs ! q) = Inr (T q) \<and>
      rank_started (int c) ?n (int q) (T q) \<and> unscheduled_tasks (T q) = [0..?n - 1]"
    by metis
  have "rank_started (int c) ?n k (T (nat k))" if "0 \<le> k" "k < int c" for k
    using T [of "nat k"] that by (simp add: nat_less_iff)
  moreover have "0 < ?n" using started_base_inv(2) [OF assms(2,3)] by (simp add: waiting_rank_def)
  ultimately have "cluster_start (int c) ?n \<lparr>ranks = \<lambda>k. T (nat k), net = []\<rparr>"
    using assms(3) by (simp add: cluster_start_def)
  with T show ?thesis
    unfolding broadcast_ok [OF assms(1,2)]
    by (intro exI [of _ ?rs] exI [of _ "\<lambda>k. T (nat k)"]) simp
qed

theorem simulation_starts_witness:
  "\<exists>rs' S. broadcast_field_information_and_calculate_parts slow_MPI_Scatterv 256 example_ranks = Inr rs' \<and>
     length rs' = 2 \<and> (\<forall>q < 2. start_rank (\<lambda>r f. Inr (new_EmptyAssimilator 3 f)) empty_ops (rs' ! q) = Inr (S (int q)) \<and>
        unscheduled_tasks (S (int q)) = [0..1]) \<and> cluster_start 2 2 \<lparr>ranks = S, net = []\<rparr>"
proof -
  have "same_shape f (snd (new_EmptyAssimilator 3 f))" for f
    by (simp add: new_EmptyAssimilator_def update_members_def zero_analysis_def same_shape_def member_shape_def)
  then have "\<forall>r f. field_ready r f \<longrightarrow>
      (\<exists>a f'. (Inr (new_EmptyAssimilator 3 f) :: (stepper \<times> field) res) = Inr (a, f') \<and> same_shape f f')"
    by (metis prod.collapse)
  then show ?thesis
    using simulation_starts [OF files.index_map_exchange_axioms example_may_start,
        of "\<lambda>r f. Inr (new_EmptyAssimilator 3 f)" empty_ops]
    by (simp add: example_root_simps)
qed

section \<open>Every state that can be reached\<close>

lemma reached_inv:
  assumes "assimilator ops" "cluster_start m n C" "cluster_reaches ops m C C'"
  shows "cluster_inv m n C'"
  by (rule assimilator.cluster_reaches_inv [OF assms(1,3) cluster_start_inv [OF assms(2)]])

lemma one_cluster_start: "cluster_start 2 1 one_start"
proof -
  have "rank_started 2 1 k (one_server k)" if "0 \<le> k" "k < 2" for k
  proof -
    have "k = 0 \<or> k = 1" using that by auto
    then show ?thesis using one_server_inv
      by (auto simp: rank_started_def rank_ok_def one_server_def sub_tasks_def)
  qed
  moreover have "ranks one_start k = one_server k" for k by (simp add: one_start_def one_cluster_def)
  ultimately show ?thesis by (simp add: cluster_start_def) (simp add: one_start_def)
qed

lemmas one_reached = empty.assimilator_axioms one_cluster_start one_run

text \<open>The state of the run in which everything is finished.\<close>

definition one_all_finished :: "stepper cluster" where
  "one_all_finished = one_cluster (receive 1 (Rank_finished 2) rank0_finished) rank1_finished []"

text \<open>
  C2. The ranks together refine the protocol: every step of the server (an iteration of the main
  loop on one rank with all its handlers, frames or messages that arrive, the update step of all
  ranks) is a sequence of steps of the protocol between the leader and the followers, and keeps its
  invariant.
\<close>

theorem cluster_refines_protocol:
  assumes "assimilator ops" "cluster_start m n C0" "cluster_reaches ops m C0 C" "cluster_step ops m C C'"
  shows "protocol_steps m n (cluster_view m C) (cluster_view m C') \<and>
     protocol_inv m n (fst (cluster_view m C')) (snd (cluster_view m C'))"
proof -
  have i: "cluster_inv m n C" by (rule reached_inv [OF assms(1-3)])
  have s: "simulates m n C C'" by (rule assimilator.cluster_step_simulates [OF assms(1) i assms(4)])
  then show ?thesis using simulated_inv [OF i s] by (simp add: simulates_def cluster_inv_def)
qed

theorem cluster_refines_protocol_witness:
  "protocol_steps 2 1 (cluster_view 2 one_all_finished)
     (cluster_view 2 (one_cluster rank0_updated rank1_updated [(0, 1, New_task one_task)]))"
  using cluster_refines_protocol [OF one_reached(1,2,5) one_update] by (simp only: one_all_finished_def simp_thms)

text \<open>The environment every handler relies on, which the protocol provides.\<close>

lemma inv_environment:
  assumes "cluster_inv m n C" "0 \<le> k" "k < m"
  shows "server_inv (ranks C k)" "environment_ok (ranks C k)" "phase (ranks C k) = PHASE_SIMULATION"
proof -
  have ok: "rank_ok m n k (ranks C k)" by (rule inv_rank [OF inv_ok [OF assms(1)] assms(2,3)])
  then show "server_inv (ranks C k)" "phase (ranks C k) = PHASE_SIMULATION" by (simp_all add: rank_ok_def)
  show "environment_ok (ranks C k)"
    using ok inv_requests_valid [OF assms(1)] inv_new_task_valid [OF assms(1), of k] assms(2,3)
    by (cases "k = 0") (auto simp: environment_ok_def rank_ok_def)
qed

lemma environment_keeps:
  assumes k: "keeps s s'" and e: "environment_ok s"
  shows "environment_ok s'"
proof (cases "comm_rank s = 0")
  case True
  then have "requests_valid s" using e by (simp add: environment_ok_def)
  from requests_valid_keeps [OF k this] show ?thesis
    using k True by (simp add: environment_ok_def keeps_def surroundings_def)
next
  case False
  have same: "comm_rank s' = comm_rank s" "new_task_inbox s' = new_task_inbox s"
    using k by (simp_all add: keeps_def surroundings_def followed_def)
  have "case new_task_inbox s of [] \<Rightarrow> True | nt # _ \<Rightarrow> new_task_valid nt s"
    using e False by (simp add: environment_ok_def)
  then show ?thesis
    using new_task_valid_keeps [OF k] False unfolding environment_ok_def same by (simp split: list.splits)
qed

lemma environment_told:
  assumes "environment_ok s"
  shows "environment_ok (told_finished k s)" "server_inv (told_finished k s) = server_inv s"
    "phase (told_finished k s) = phase s"
proof -
  show "server_inv (told_finished k s) = server_inv s" "phase (told_finished k s) = phase s"
    by (simp_all add: told_finished_def del: receive.simps)
  have "requests_valid (told_finished k s) = requests_valid s"
      "new_task_valid nt (told_finished k s) = new_task_valid nt s" for nt
    using owned_receive [of _ 0 All_finished s]
    by (simp_all add: told_finished_def requests_valid_def new_task_valid_def)
  moreover have "comm_rank (told_finished k s) = comm_rank s" "new_task_inbox (told_finished k s) = new_task_inbox s"
    by (simp_all add: told_finished_def)
  ultimately show "environment_ok (told_finished k s)" 
    using assms by (cases "new_task_inbox s") (simp_all add: environment_ok_def split: if_splits)
qed

lemma iteration_without_assert:
  assumes "assimilator ops" "server_inv s" "environment_ok s" "phase s = PHASE_SIMULATION"
  shows "server_iteration ops b ev s =
     and_then (rank0_events (ev_names ev) (ev_config ev) (ev_launcher ev) s) (simulation_body ops b)"
proof (cases "rank0_events (ev_names ev) (ev_config ev) (ev_launcher ev) s")
  case (Inr s1)
  have "keeps s s1" "server_inv s1" using rank0_events_keeps [OF Inr assms(4)] assms(2) by simp_all
  then have "simulation_step ops b s1 = simulation_body ops b s1"
    using assimilator.step_is_body [OF assms(1)] environment_keeps assms(3) by blast
  with Inr show ?thesis by (simp add: server_iteration_def)
qed (simp add: server_iteration_def)

text \<open>
  C1. In every state the server can reach, on every rank: the invariant of the scheduler holds
  (each state is unscheduled or has one sub task per connected runner rank, all on one runner that
  is not blacklisted), the messages to be read are valid, and the assert at the end of the main
  loop never fails: an iteration is the iteration without it, for whatever frames and events
  arrive, also when the rank is told that all have finished.
\<close>

theorem conservation_assert_never_fails:
  assumes "assimilator ops" "cluster_start m n C0" "cluster_reaches ops m C0 C" "0 \<le> k" "k < m"
    and "s = ranks C k \<or> s = told_finished k (ranks C k)"
  shows "server_inv s \<and> environment_ok s \<and> server_iteration ops b ev s =
     and_then (rank0_events (ev_names ev) (ev_config ev) (ev_launcher ev) s) (simulation_body ops b)"
proof -
  note e = inv_environment [OF reached_inv [OF assms(1-3)] assms(4,5)]
  have "server_inv s" "environment_ok s" "phase s = PHASE_SIMULATION"
    using assms(6) e environment_told [OF e(2), of k] by auto
  then show ?thesis using iteration_without_assert [OF assms(1)] by blast
qed

theorem conservation_assert_never_fails_witness:
  "server_inv (told_finished 1 rank1_finished) \<and> server_iteration empty_ops 1 quiet (told_finished 1 rank1_finished) =
     and_then (rank0_events [] [] False (told_finished 1 rank1_finished)) (simulation_body empty_ops 1)"
  using conservation_assert_never_fails [OF one_reached(1,2,5), of 1 "told_finished 1 rank1_finished" 1 quiet]
  by (simp add: quiet_def)

lemma fold_probe_leader:
  "leader_of (fold probe_rank_finished rs s) = (leader_of s)\<lparr>le_counted := finished_ranks (fold probe_rank_finished rs s)\<rparr>"
proof (induction rs arbitrary: s)
  case (Cons r rs)
  have "leader_of (probe_rank_finished r s) = (leader_of s)\<lparr>le_counted := finished_ranks (probe_rank_finished r s)\<rparr>"
    unfolding probe_read by (simp add: count_report_def leader_of_def split: list.splits)
  with Cons show ?case by simp
qed (simp add: leader_of_def)

lemma updating_finished:
  assumes "assimilator ops" and i: "cluster_inv m n C"
    and "server_iteration ops b ev (ranks C 0) = Inr (False, s')"
      "assimilation_cycles s' \<noteq> assimilation_cycles (ranks C 0)" and q: "1 \<le> q" "q < m"
  shows "\<exists>s1. iteration_prefix ops ev (ranks C 0) = Inr s1 \<and> would_finish s1 \<and>
     would_finish (ranks C q) \<and> (\<forall>t. owned t (ranks C q) = owned t s1) \<and>
     task_state_id ` {t. owned t s1} = {0..<n} \<and> highest_received_task_id (ranks C q) = task_id s1 \<and>
     new_task_inbox (ranks C q) = [] \<and> new_tasks_in (channel 0 q (net C)) = []"
proof -
  obtain s1 p where s1: "iteration_prefix ops ev (ranks C 0) = Inr s1" and p: "p = fold probe_rank_finished [1..m - 1] s1"
      and sp: "simulates m n C (put 0 p C)" and w: "would_finish p" "finished_ranks p = m - 1"
    using assimilator.leader_updates [OF assms(1-4)] by blast
  have ip: "cluster_inv m n (put 0 p C)" by (rule simulated_inv [OF i sp])
  note all = assimilator.all_finished [OF assms(1) ip, simplified, OF w]
  let ?f = "followers (ranks (put 0 p C) 0) (ranks (put 0 p C)) (net (put 0 p C)) q"
  have a: "agree n (leader_of p) ?f" using inv_agree [OF ip q] by simp
  have c: "counted (leader_of p) ?f" using all(3) [OF q] q(1) by simp
  have t: "1 < le_task_id (leader_of p)" using all(1) by (simp add: leader_of_def)
  note fin = counted_finished [OF a c t all(2)]
  have "leader_of p = (leader_of s1)\<lparr>le_counted := finished_ranks p\<rparr>" unfolding p by (rule fold_probe_leader)
  then have same: "le_owned (leader_of p) = {t. owned t s1}" "le_task_id (leader_of p) = task_id s1"
    by (simp_all add: leader_of_def)
  have w1: "would_finish s1" using w(1) fold_probe_but_reports [of s1 "[1..m - 1]"] p by (simp add: but_reports_def)
  have f: "would_finish (ranks C q)" "new_task_inbox (ranks C q) = []" "new_tasks_in (channel 0 q (net C)) = []"
      "highest_received_task_id (ranks C q) = task_id s1" "{t. owned t (ranks C q)} = {t. owned t s1}"
    using fin(1,2,4,6) q(1) by (simp_all add: followers_def follower_of_def same)
  then show ?thesis using s1 w1 all(2) unfolding same by blast
qed

text \<open>
  C3. Rank 0 begins the update step only when everything is finished everywhere: every other rank
  has finished every state, on the very runner rank 0 has it on, it has read every new task, and no
  new task is on its way to it, whatever kills and reschedules went before.
\<close>

theorem update_needs_all_finished:
  assumes "assimilator ops" "cluster_start m n C0" "cluster_reaches ops m C0 C"
    and "server_iteration ops b ev (ranks C 0) = Inr (False, s')"
      "assimilation_cycles s' \<noteq> assimilation_cycles (ranks C 0)" "1 \<le> q" "q < m"
  shows "\<exists>s1. iteration_prefix ops ev (ranks C 0) = Inr s1 \<and> would_finish s1 \<and>
     would_finish (ranks C q) \<and> (\<forall>t. owned t (ranks C q) = owned t s1) \<and>
     task_state_id ` {t. owned t s1} = {0..<n} \<and> highest_received_task_id (ranks C q) = task_id s1 \<and>
     new_task_inbox (ranks C q) = [] \<and> new_tasks_in (channel 0 q (net C)) = []"
  by (rule updating_finished [OF assms(1) reached_inv [OF assms(1-3)] assms(4-7)])

theorem update_needs_all_finished_witness:
  "would_finish rank1_finished \<and> highest_received_task_id rank1_finished = 2 \<and>
     task_state_id ` {t. owned t rank1_finished} = {0..<1}"
proof -
  have "assimilation_cycles rank0_updated \<noteq> assimilation_cycles (receive 1 (Rank_finished 2) rank0_finished)"
    by (simp add: rank0_updated_def rank0_finished_def rank0_launched_def one_server_def)
  then obtain s1 where s1: "iteration_prefix empty_ops quiet (receive 1 (Rank_finished 2) rank0_finished) = Inr s1"
      "would_finish rank1_finished" "\<forall>t. owned t rank1_finished = owned t s1" "task_state_id ` {t. owned t s1} = {0..<1}"
    using update_needs_all_finished [OF one_reached(1,2,5), of 0 quiet rank0_updated 1] rank0_updates [of 0]
    by auto
  then show ?thesis by (simp add: rank1_finished_def rank1_launched_def)
qed

lemma find_pending: "pending_for sid nts = Some nt \<Longrightarrow> nt \<in> set nts"
  by (induction nts) (auto split: option.splits if_splits)

text \<open>
  C6. The ranks agree on the tasks in every state the server can reach: rank 0 knows every task
  another rank has or has killed; a task of rank 0 has arrived at each other rank, or is on its
  way, or has been killed there; and a rank asks only for tasks to be killed that rank 0 has or has
  killed.
\<close>

theorem ranks_agree_on_tasks:
  assumes "assimilator ops" "cluster_start m n C0" "cluster_reaches ops m C0 C" "1 \<le> q" "q < m"
  shows "{t. owned t (ranks C q)} \<union> set (killed (ranks C q)) \<subseteq> {t. owned t (ranks C 0)} \<union> set (killed (ranks C 0)) \<and>
     {t. owned t (ranks C 0)} \<subseteq> {t. owned t (ranks C q)} \<union> set (killed (ranks C q)) \<union>
       nt_task ` set (new_task_inbox (ranks C q) @ new_tasks_in (channel 0 q (net C))) \<and>
     set (map pair_task (kill_inbox (ranks C 0) q) @ requests_in (channel q 0 (net C))) \<subseteq> set (killed (ranks C q))"
proof -
  let ?f = "followers (ranks C 0) (ranks C) (net C) q"
  have a: "agree n (leader_of (ranks C 0)) ?f" by (rule inv_agree [OF reached_inv [OF assms(1-3)] assms(4,5)])
  then have k: "tasks_known (leader_of (ranks C 0)) ?f" and
      f: "\<And>t. t \<in> le_owned (leader_of (ranks C 0)) \<Longrightarrow> state_follows ?f t"
    by (simp_all add: agree_def)
  have "t \<in> fo_owned ?f \<union> fo_killed ?f \<union> nt_task ` set (fo_pending ?f)" if "state_follows ?f t" for t
    using that find_pending [of "task_state_id t" "fo_pending ?f"]
    by (auto simp: state_follows_def split: option.splits)
  with k f show ?thesis
    by (auto simp: tasks_known_def followers_def follower_of_def leader_of_def)
qed

theorem ranks_agree_on_tasks_witness:
  "{t. owned t rank0_launched} \<subseteq> {t. owned t (one_server 1)} \<union> set (killed (one_server 1)) \<union> {nt_task one_task}"
  using ranks_agree_on_tasks [OF one_reached(1-3), of 1] by (simp add: one_server_def)

section \<open>Finishing is reached\<close>

definition asked :: "nat \<Rightarrow> 'a server \<Rightarrow> 'a server" where
  "asked j s = ((\<lambda>s. snd (synchronize_finish s)) ^^ j) s"

lemma asked_Suc: "asked (Suc j) s = asked j (snd (synchronize_finish s))"
  by (simp only: asked_def funpow_Suc_right comp_def)

lemma fold_probe_inbox:
  "distinct rs \<Longrightarrow> rank_finished_inbox (fold probe_rank_finished rs s) q =
     (if q \<in> set rs then tl (rank_finished_inbox s q) else rank_finished_inbox s q)"
  by (induction rs arbitrary: s) (auto simp: probe_read)

lemma probe_empty: "rank_finished_inbox s r = [] \<Longrightarrow> probe_rank_finished r s = s"
  by (simp add: probe_rank_finished_def)

lemma fold_probe_empty: "(\<And>r. r \<in> set rs \<Longrightarrow> rank_finished_inbox s r = []) \<Longrightarrow> fold probe_rank_finished rs s = s"
  by (induction rs) (simp_all add: probe_empty)

definition all_reported :: "int \<Rightarrow> 'a cluster \<Rightarrow> int \<Rightarrow> bool" where
  "all_reported m C q \<longleftrightarrow> new_task_inbox (ranks C q) = [] \<and> new_tasks_in (channel 0 q (net C)) = [] \<and>
     highest_received_task_id (ranks C q) \<le> highest_sent_task_id (ranks C q) \<and> reports_in (channel q 0 (net C)) = []"

lemma all_reported_counted:
  assumes i: "cluster_inv m n C" and q: "1 \<le> q" "q < m" and r: "all_reported m C q"
    and t: "1 < task_id (ranks C 0)" and e: "rank_finished_inbox (ranks C 0) q = []"
  shows "counted (leader_of (ranks C 0)) (snd (cluster_view m C) q)"
proof -
  have a: "agree n (leader_of (ranks C 0)) (followers (ranks C 0) (ranks C) (net C) q)" by (rule inv_agree [OF i q])
  let ?h = "highest_received_task_id (ranks C q)"
  have "[max 1 ?h + 1..task_id (ranks C 0)] = []" "max 1 ?h \<le> task_id (ranks C 0)"
    using a r by (simp_all add: agree_def ids_in_order_def followers_def follower_of_def leader_of_def all_reported_def)
  then have "?h = task_id (ranks C 0)" using t by (auto simp: max_def split: if_splits)
  with agree_bounds(1) [OF a] r e q show ?thesis
    by (simp add: counted_def cluster_view_def view_of_def followers_def follower_of_def leader_of_def all_reported_def)
qed

lemma all_counted_finish:
  assumes i: "cluster_inv m n C" and w: "would_finish (ranks C 0)"
    and r: "\<And>q. 1 \<le> q \<Longrightarrow> q < m \<Longrightarrow> all_reported m C q \<and> rank_finished_inbox (ranks C 0) q = []"
  shows "fst (synchronize_finish (ranks C 0))"
proof -
  let ?l = "leader_of (ranks C 0)" and ?F = "snd (cluster_view m C)"
  have ok: "rank_ok m n 0 (ranks C 0)" "0 < n" "0 < m" using inv_ok [OF i] by (auto simp: cluster_ok_def)
  have p: "protocol_inv m n ?l ?F" using i by (simp add: cluster_inv_def cluster_view_def view_of_def)
  have "le_owned ?l \<noteq> {}" by (rule finished_owned(2) [OF ok(1) w ok(2)])
  then have t: "1 < task_id (ranks C 0)" using p by (auto simp: protocol_inv_def leader_of_def)
  have "{q \<in> {1..<m}. counted ?l (?F q)} = {1..<m}"
    using all_reported_counted [OF i _ _ _ t] r by auto
  then have "finished_ranks (ranks C 0) = m - 1"
    using p t ok(3) by (simp add: protocol_inv_def leader_of_def)
  moreover have "fold probe_rank_finished [1..m - 1] (ranks C 0) = ranks C 0"
    by (rule fold_probe_empty) (use r in auto)
  ultimately show ?thesis using ok(1) by (simp add: synchronize_finish_def rank_ok_def Let_def)
qed

lemma probing_ends:
  assumes "assimilator ops" "cluster_inv m n C" "would_finish (ranks C 0)"
    and "\<And>q. 1 \<le> q \<Longrightarrow> q < m \<Longrightarrow> all_reported m C q"
  shows "\<exists>j \<le> (\<Sum>q \<in> {1..<m}. length (rank_finished_inbox (ranks C 0) q)). fst (synchronize_finish (asked j (ranks C 0)))"
  using assms(2-)
proof (induction "\<Sum>q \<in> {1..<m}. length (rank_finished_inbox (ranks C 0) q)" arbitrary: C rule: less_induct)
  case less
  let ?s = "ranks C 0" and ?sum = "\<lambda>s. \<Sum>q \<in> {1..<m}. length (rank_finished_inbox s q)"
  obtain b s' where s': "synchronize_finish ?s = (b, s')" by fastforce
  show ?case
  proof (cases b)
    case True
    then show ?thesis using s' by (intro exI [of _ 0]) (simp add: asked_def)
  next
    case False
    have m: "0 \<le> (0 :: int)" "0 < m" and ok: "rank_ok m n 0 ?s"
      using inv_ok [OF less.prems(1)] by (auto simp: cluster_ok_def)
    have w: "synchronize_finish ?s = (False, s')" using s' False by simp
    have i': "cluster_inv m n (put 0 s' C)"
      by (rule simulated_inv [OF less.prems(1) assimilator.wait_simulates(1) [OF assms(1) less.prems(1) m less.prems(2) w]])
    have f: "s' = fold probe_rank_finished [1..m - 1] ?s"
      using w ok by (simp add: synchronize_finish_def Let_def rank_ok_def split: if_splits)
    have b: "but_reports ?s s'" unfolding f by (rule fold_probe_but_reports)
    have n: "net (put 0 s' C) = net C" using new_packets_sent [of s' ?s "[]"] b by (simp add: but_reports_def)
    have inbox: "rank_finished_inbox s' q = (if 1 \<le> q \<and> q < m then tl (rank_finished_inbox ?s q) else rank_finished_inbox ?s q)" for q
      unfolding f using fold_probe_inbox [of "[1..m - 1]" ?s q] by auto
    have "\<exists>q \<in> {1..<m}. rank_finished_inbox ?s q \<noteq> []"
    proof (rule ccontr)
      assume "\<not> ?thesis"
      then have "fst (synchronize_finish ?s)"
        using all_counted_finish [OF less.prems(1,2)] less.prems(3) by auto
      with w show False by simp
    qed
    then obtain q where q: "q \<in> {1..<m}" "rank_finished_inbox ?s q \<noteq> []" by blast
    have less': "?sum s' < ?sum ?s"
    proof (rule sum_strict_mono_ex1)
      show "\<exists>q \<in> {1..<m}. length (rank_finished_inbox s' q) < length (rank_finished_inbox ?s q)"
        using q inbox by (intro bexI [of _ q]) auto
    qed (simp_all add: inbox)
    have "\<exists>j \<le> ?sum (ranks (put 0 s' C) 0). fst (synchronize_finish (asked j (ranks (put 0 s' C) 0)))"
    proof (rule less.hyps [OF _ i'])
      show "would_finish (ranks (put 0 s' C) 0)" using b less.prems(2) by (simp add: but_reports_def)
      show "all_reported m (put 0 s' C) q" if "1 \<le> q" "q < m" for q
        using less.prems(3) [OF that] that n by (simp add: all_reported_def del: put_simps(2))
    qed (use less' in simp)
    then obtain j where j: "j \<le> ?sum s'" "fst (synchronize_finish (asked j s'))" by auto
    then show ?thesis
      using less' s' by (intro exI [of _ "Suc j"]) (simp add: asked_Suc)
  qed
qed

text \<open>
  C5. No rank waits for ever. Once rank 0 has finished all states and every other rank has read
  all new tasks and sent its report, which has arrived, rank 0 decides to finish, after asking at
  most once for every report that waits: stale reports are skipped, none that matters was lost.
\<close>

theorem finish_is_reached:
  assumes "assimilator ops" "cluster_start m n C0" "cluster_reaches ops m C0 C" "would_finish (ranks C 0)"
    and "\<forall>q. 1 \<le> q \<longrightarrow> q < m \<longrightarrow> all_reported m C q"
  shows "\<exists>j \<le> (\<Sum>q \<in> {1..<m}. length (rank_finished_inbox (ranks C 0) q)). fst (synchronize_finish (asked j (ranks C 0)))"
  by (rule probing_ends [OF assms(1) reached_inv [OF assms(1-3)] assms(4)]) (use assms(5) in auto)

theorem finish_is_reached_witness:
  "\<exists>j \<le> 1. fst (synchronize_finish (asked j (receive 1 (Rank_finished 2) rank0_finished)))"
proof -
  let ?C = "one_cluster (receive 1 (Rank_finished 2) rank0_finished) rank1_finished []"
  have "would_finish (receive 1 (Rank_finished 2) rank0_finished)"
    by (simp add: rank0_finished_def rank0_launched_def one_server_def one_ready_simps would_finish_def
        all_finished_size_def one_ready_def one_field_def)
  moreover have "all_reported 2 ?C 1"
    by (simp add: all_reported_def rank1_finished_def rank1_launched_def one_server_def)
  then have "\<forall>q. 1 \<le> q \<longrightarrow> q < 2 \<longrightarrow> all_reported 2 ?C q"
    by (metis (no_types) int_one_le_iff_zero_less zle_diff1_eq one_add_one add_diff_cancel_right' order_antisym)
  ultimately show ?thesis
    using finish_is_reached [OF one_reached(1,2,5)]
    by (simp add: rank0_finished_def rank0_launched_def one_server_def)
qed

section \<open>Where the update step does not synchronise\<close>

lemma no_connection_schedules:
  "map_of (idle_runners s) (nt_runner_id nt) = None \<Longrightarrow>
     add_sub_tasks_loop nt rs s = Inr (s\<lparr>scheduled_sub_tasks := scheduled_sub_tasks s @ map (SubTask nt) rs\<rparr>)"
  by (induction rs arbitrary: s) (simp_all add: try_launch_subtask_def SubTask_def)

lemma owned_again_kills:
  assumes inv: "server_inv s" and c: "comm_rank s \<noteq> 0" and nt: "new_task_inbox s = nt # rest" and own: "owned (nt_task nt) s"
  shows "\<exists>s'. check_schedule_new_tasks s = Inr s' \<and> nt_task nt \<in> set (killed s') \<and>
     scheduled_sub_tasks s' = remove_task (nt_task nt) (scheduled_sub_tasks s) @
       map (SubTask nt) (connected_runner_ranks (the_field s)) \<and>
     all_finished_inbox s' = all_finished_inbox s \<and> assimilation_cycles s' = assimilation_cycles s"
proof -
  let ?s = "s\<lparr>new_task_inbox := rest, highest_received_task_id := max (nt_task_id nt) (highest_received_task_id s)\<rparr>"
  have f: "forget_state (nt_state_id nt) ?s = kill_task (nt_task nt) ?s"
    unfolding nt_task_def by (rule forget_state_owned) (use inv own in \<open>simp_all add: nt_task_def\<close>)
  have ranks: "connected_runner_ranks (the_field s) \<noteq> []"
    using inv by (simp add: server_inv_def base_inv_def field_ready_def)
  show ?thesis
    using c nt ranks
    by (simp add: check_schedule_new_tasks_def f add_sub_tasks_def kill_task_eq set_insort_insert
        no_connection_schedules map_of_om_erase)
qed

text \<open>
  C38. Rank 0 sends All\_finished and then, in the same iteration, the new tasks of the next time
  step. Where the update step does not make it wait for the others, both can be there when another
  rank looks for new tasks, which it does first: if the state goes to the runner it was on, the rank
  takes the task for a second assignment in the time step it has not left, kills the healthy runner,
  and schedules the task on it all the same, so that the invariant of the scheduler is broken.
\<close>

theorem early_new_task_kills_runner:
  assumes "assimilator ops" "cluster_start m n C0" "cluster_reaches ops m C0 C"
    and "server_iteration ops b ev (ranks C 0) = Inr (False, s0)"
      "assimilation_cycles s0 \<noteq> assimilation_cycles (ranks C 0)" "1 \<le> q" "q < m"
    and "(0, q, New_task nt) \<in> set (new_packets 0 (ranks C 0) s0)" "owned (nt_task nt) (ranks C q)"
    and "s = receive 0 (New_task nt) (receive 0 All_finished (ranks C q))"
  shows "\<exists>s'. check_schedule_new_tasks s = Inr s' \<and> nt_task nt \<in> set (killed s') \<and> owned (nt_task nt) s' \<and>
     \<not> server_inv s' \<and> all_finished_inbox s' = 1 \<and> assimilation_cycles s' = assimilation_cycles (ranks C q)"
proof -
  have i: "cluster_inv m n C" by (rule reached_inv [OF assms(1-3)])
  have inbox: "new_task_inbox (ranks C q) = []" using updating_finished [OF assms(1) i assms(4-7)] by blast
  have ok: "rank_ok m n q (ranks C q)" using inv_rank [OF inv_ok [OF i]] assms(6,7) by simp
  have s: "server_inv s" "comm_rank s \<noteq> 0" "owned (nt_task nt) s" "assimilation_cycles s = assimilation_cycles (ranks C q)"
    using ok assms(6,9) by (simp_all only: assms(10) receive_simps owned_receive rank_ok_def)
  have m: "new_task_inbox s = [nt]" "all_finished_inbox s = 1" using inbox ok by (simp_all add: assms(10) rank_ok_def)
  obtain s' where s': "check_schedule_new_tasks s = Inr s'" "nt_task nt \<in> set (killed s')"
      "scheduled_sub_tasks s' = remove_task (nt_task nt) (scheduled_sub_tasks s) @
        map (SubTask nt) (connected_runner_ranks (the_field s))"
      "all_finished_inbox s' = 1" "assimilation_cycles s' = assimilation_cycles s"
    using owned_again_kills [OF s(1,2) m(1) s(3)] m(2) by auto
  have "connected_runner_ranks (the_field s) \<noteq> []"
    using s(1) by (simp add: server_inv_def base_inv_def field_ready_def)
  then obtain rr where "rr \<in> set (connected_runner_ranks (the_field s))" by (cases "connected_runner_ranks (the_field s)") auto
  then have "SubTask nt rr \<in> set (sub_tasks s')" using s'(3) by (simp add: sub_tasks_def)
  moreover have "task_of (SubTask nt rr) = nt_task nt" by (simp add: task_of_def SubTask_def nt_task_def)
  ultimately have "owned (nt_task nt) s'" "\<not> server_inv s'"
    using s'(2) unfolding owned_def server_inv_def by metis+
  then show ?thesis using s' s(4) by auto
qed

theorem early_new_task_kills_runner_witness:
  "\<exists>s'. check_schedule_new_tasks (receive 0 (New_task one_task) (receive 0 All_finished rank1_finished)) = Inr s' \<and>
     Task 0 7 \<in> set (killed s') \<and> owned (Task 0 7) s' \<and> \<not> server_inv s' \<and> all_finished_inbox s' = 1 \<and>
     assimilation_cycles s' = 0"
proof -
  let ?C = "one_cluster (receive 1 (Rank_finished 2) rank0_finished) rank1_finished []"
  have "(0, 1, New_task one_task) \<in> set (new_packets 0 (ranks ?C 0) rank0_updated)"
    by (simp add: new_packets_def sends_def rank0_updated_def rank0_finished_def rank0_launched_def one_server_def
        one_launch_def)
  moreover have "assimilation_cycles rank0_updated \<noteq> assimilation_cycles (ranks ?C 0)"
    by (simp add: rank0_updated_def rank0_finished_def rank0_launched_def one_server_def)
  moreover have "nt_task one_task = Task 0 7" by (simp add: nt_task_def one_task_def)
  moreover have "owned (Task 0 7) rank1_finished" "assimilation_cycles rank1_finished = 0"
    by (simp_all add: owned_def sub_tasks_def task_of_def rank1_finished_def rank1_launched_def one_server_def one_sub_task_def)
  ultimately show ?thesis
    using early_new_task_kills_runner [OF one_reached(1,2,5), of 0 quiet rank0_updated 1 one_task,
        OF _ _ _ _ _ _ refl] rank0_updates [of 0] by simp
qed

end
