(* ===== verification/Shutdown.thy ===== *)
theory Shutdown
  imports Exchange
begin

text \<open>
  How a runner ends: the server ranks answer its request with END\_RUNNER or with KILL\_RUNNER
  instead of a state.
\<close>

section \<open>Receiving an end message\<close>

text \<open>The next reply of a server rank has this message type.\<close>

definition reply_type :: "int \<Rightarrow> runner_rank \<Rightarrow> connected_server_rank \<Rightarrow> bool" where
  "reply_type type s c \<longleftrightarrow>
     (\<exists>sid step n fs. rn_inbox s (csr_server_rank c) = (Ints [sid, step, type, n], False) # fs)"

text \<open>What receiving leaves alone.\<close>

definition same_connections :: "runner_rank \<Rightarrow> runner_rank \<Rightarrow> bool" where
  "same_connections s s' \<longleftrightarrow> rn_phase s' = rn_phase s \<and> rn_ccon s' = rn_ccon s \<and>
     rn_runner_id s' = rn_runner_id s \<and> server_ranks s' = server_ranks s \<and> rn_out s' = rn_out s"

text \<open>Server ranks outside \<open>qs\<close> have not been asked.\<close>

definition not_asked :: "int set \<Rightarrow> runner_rank \<Rightarrow> runner_rank \<Rightarrow> bool" where
  "not_asked qs s s' \<longleftrightarrow>
     (\<forall>q. q \<notin> qs \<longrightarrow> rn_inbox s' q = rn_inbox s q \<and> (q \<in> set (awaiting s) \<longrightarrow> q \<in> set (awaiting s')))"

lemma reply_not_asked: "not_asked qs s s' \<Longrightarrow> csr_server_rank c \<notin> qs \<Longrightarrow> reply_type t s' c = reply_type t s c"
  by (simp add: not_asked_def reply_type_def)

lemma end_reply_received:
  assumes "reply_type END_RUNNER s c" "csr_server_rank c \<in> set (awaiting s)"
  shows "\<exists>s'. connection_receive c values hidden s = Inr (0, values, hidden, s') \<and> same_connections s s' \<and>
     not_asked {csr_server_rank c} s s'"
proof -
  obtain sid step n fs where r: "rn_inbox s (csr_server_rank c) = (Ints [sid, step, END_RUNNER, n], False) # fs"
    using assms(1) by (auto simp: reply_type_def)
  show ?thesis
    using assms(2)
    by (simp add: connection_receive_def recv_from_def r state_header_def same_connections_def not_asked_def
        END_RUNNER_def CHANGE_STATE_def Let_def)
qed

lemma kill_reply_received:
  assumes "reply_type KILL_RUNNER s c" "csr_server_rank c \<in> set (awaiting s)"
  shows "connection_receive c values hidden s = Inl Aborted"
proof -
  obtain sid step n fs where r: "rn_inbox s (csr_server_rank c) = (Ints [sid, step, KILL_RUNNER, n], False) # fs"
    using assms(1) by (auto simp: reply_type_def)
  show ?thesis
    using assms(2)
    by (simp add: connection_receive_def recv_from_def r state_header_def END_RUNNER_def CHANGE_STATE_def
        KILL_RUNNER_def Let_def)
qed

lemma get_parts_end:
  assumes "\<forall>c \<in> set cs. reply_type END_RUNNER s c" "csr_server_rank ` set cs \<subseteq> set (awaiting s)"
    and "distinct (map csr_server_rank cs)" "rn_phase s \<noteq> PHASE_FINAL" "n = -1 \<or> n = 0"
  shows "\<exists>s'. get_parts (cs @ ds) n values hidden s = get_parts ds (if cs = [] then n else 0) values hidden s' \<and>
     same_connections s s' \<and> not_asked (csr_server_rank ` set cs) s s'"
  using assms
proof (induction cs arbitrary: n s)
  case Nil
  show ?case by (rule exI [of _ s]) (simp add: same_connections_def not_asked_def)
next
  case (Cons c cs)
  let ?q = "csr_server_rank c"
  obtain s1 where s1: "connection_receive c values hidden s = Inr (0, values, hidden, s1)" "same_connections s s1"
      "not_asked {?q} s s1"
    using end_reply_received [of s c "values" hidden] Cons.prems by auto
  have others: "csr_server_rank d \<noteq> ?q" if "d \<in> set cs" for d
    using Cons.prems(3) imageI [OF that, of csr_server_rank] by auto
  have "\<forall>d \<in> set cs. reply_type END_RUNNER s1 d"
    using Cons.prems(1) reply_not_asked [OF s1(3)] others by simp
  moreover have "csr_server_rank ` set cs \<subseteq> set (awaiting s1)"
    using Cons.prems(2) s1(3) others by (auto simp: not_asked_def)
  moreover have "rn_phase s1 \<noteq> PHASE_FINAL" using s1(2) Cons.prems(4) by (simp add: same_connections_def)
  ultimately obtain s' where s': "get_parts (cs @ ds) 0 values hidden s1 = get_parts ds 0 values hidden s'"
      "same_connections s1 s'" "not_asked (csr_server_rank ` set cs) s1 s'"
    using Cons.IH [of s1 0] Cons.prems(3) by (auto split: if_splits)
  have "get_parts ((c # cs) @ ds) n values hidden s = get_parts ds 0 values hidden s'"
    using s1(1) s'(1) Cons.prems(4,5) by auto
  moreover have "not_asked (csr_server_rank ` set (c # cs)) s s'"
    using s1(3) s'(3) by (simp add: not_asked_def)
  ultimately show ?case using s1(2) s'(2) by (intro exI [of _ s']) (simp add: same_connections_def)
qed

section \<open>The end of a runner\<close>

lemma api_trigger_fields [simp]:
  "rn_phase (api_trigger ev p s) = rn_phase s"
  "rn_ccon (api_trigger ev p s) = rn_ccon s"
  "rn_runner_id (api_trigger ev p s) = rn_runner_id s"
  "server_ranks (api_trigger ev p s) = server_ranks s"
  "api_field (api_trigger ev p s) = api_field s"
  "awaiting (api_trigger ev p s) = awaiting s"
  "rn_inbox (api_trigger ev p s) = rn_inbox s"
  by (simp_all add: api_trigger_def api_emit_def)

lemma can_put_trigger [simp]: "can_put values hidden (api_trigger ev p s) = can_put values hidden s"
  by (simp add: can_put_def can_request_def)

lemma start_simulation_fields [simp]:
  "api_field (start_simulation s) = api_field s" "rn_inbox (start_simulation s) = rn_inbox s"
  "awaiting (start_simulation s) = awaiting s" "rn_runner_id (start_simulation s) = rn_runner_id s"
  "server_ranks (start_simulation s) = server_ranks s"
  by (simp_all add: start_simulation_def)

lemma can_put_started [simp]: "can_put values hidden (start_simulation s) = can_put values hidden s"
  by (simp add: can_put_def can_request_def)

lemma put_done_more [simp]:
  "rn_ccon (put_done values hidden name s) = rn_ccon s"
  "rn_runner_id (put_done values hidden name s) = rn_runner_id s"
  "server_ranks (put_done values hidden name s) = server_ranks s"
  by (simp_all add: put_done_def requested_def Let_def)

definition exposing :: "string \<Rightarrow> byte list \<Rightarrow> byte list \<Rightarrow> runner_rank \<Rightarrow> bool" where
  "exposing name values hidden s \<longleftrightarrow> rn_phase s \<noteq> PHASE_FINAL \<and>
     (rn_phase s = PHASE_INIT \<or> rn_ccon s = Null) \<and> af_name (api_field s) = name \<and>
     connected_server_ranks (api_field s) \<noteq> [] \<and> can_put values hidden s"

lemma exposing_put:
  assumes "exposing name values hidden s"
  defines "t \<equiv> api_trigger ''START_IDLE_RUNNER'' (rn_runner_id s)
     (api_trigger ''STOP_PROPAGATE_STATE'' (current_state_id (api_field s)) s)"
  shows "melissa_expose name values hidden s =
     and_then (getState values hidden (put_done values hidden name (start_simulation t))) (\<lambda>(n, values, hidden, s').
       let s' = api_trigger ''STOP_IDLE_RUNNER'' (rn_runner_id s) s' in
       if n > 0 then Inr (n, values, hidden, start_propagation n s')
       else if n = 0 then and_then (melissa_finalize s') (\<lambda>s'. Inr (n, values, hidden, s'))
       else Inr (n, values, hidden, s'))"
  using assms
  by (simp add: melissa_expose_def exposing_def getRunnerId_def trigger_runner_id_def can_put_def can_request_def t_def
      putState_ok [unfolded can_put_def can_request_def] Let_def)

lemma fold_close: "fold (\<lambda>r. api_emit (Api_close r)) rs s = s\<lparr>rn_out := rn_out s @ map Api_close rs\<rparr>"
  by (induction rs arbitrary: s) (simp_all add: api_emit_def)

lemma finalize_ok:
  assumes "rn_ccon s \<noteq> Dangling"
  shows "\<exists>s'. melissa_finalize s = Inr s' \<and> rn_phase s' = PHASE_FINAL \<and> server_ranks s' = [] \<and> awaiting s' = [] \<and>
     \<not> context_open s' \<and> rn_out s' = rn_out s @ map Api_close (map fst (server_ranks s)) \<and>
     rn_runner_id s' = rn_runner_id s"
  using assms by (simp add: melissa_finalize_def fold_close Let_def)

lemma final_runner:
  assumes "rn_phase s = PHASE_FINAL" "rn_runner_id s \<noteq> -1"
  shows "melissa_get_current_state_id s = -2" "melissa_get_current_step s = Inl Assertion_failed"
    "melissa_expose name buf buf_hidden s = Inl Assertion_failed"
  using assms
  by (simp_all add: melissa_get_current_state_id_def melissa_get_current_step_def melissa_expose_def getRunnerId_def trigger_runner_id_def
      assert_then_def Let_def)

text \<open>
  C39. When all server ranks answer with END\_RUNNER, melissa\_expose tells the simulation to stop:
  it returns zero, leaves the buffers as they were, and finalizes the runner, closing every
  connection. After that melissa\_get\_current\_state\_id returns -2, where the header documents -1
  for a runner that propagates no state; melissa\_get\_current\_step and a further melissa\_expose
  fail an assert.
\<close>

theorem end_runner_finalizes:
  assumes "exposing name buf buf_hidden s"
    and "\<forall>c \<in> set (connected_server_ranks (api_field s)). reply_type END_RUNNER s c"
  shows "\<exists>s'. melissa_expose name buf buf_hidden s = Inr (0, buf, buf_hidden, s') \<and>
     rn_phase s' = PHASE_FINAL \<and> server_ranks s' = [] \<and> awaiting s' = [] \<and> \<not> context_open s' \<and>
     (\<forall>r \<in> fst ` set (server_ranks s). Api_close r \<in> set (rn_out s')) \<and>
     melissa_get_current_state_id s' = -2 \<and> melissa_get_current_step s' = Inl Assertion_failed \<and>
     melissa_expose name buf buf_hidden s' = Inl Assertion_failed"
proof -
  let ?t = "api_trigger ''START_IDLE_RUNNER'' (rn_runner_id s)
     (api_trigger ''STOP_PROPAGATE_STATE'' (current_state_id (api_field s)) s)"
  let ?u = "put_done buf buf_hidden name (start_simulation ?t)"
  let ?cs = "connected_server_ranks (api_field s)"
  have put: "can_put buf buf_hidden s" "?cs \<noteq> []" "rn_phase s \<noteq> PHASE_FINAL"
    using assms(1) by (simp_all add: exposing_def)
  have "distinct (map csr_server_rank ?cs)" "rn_phase ?u \<noteq> PHASE_FINAL"
    using put by (simp_all add: can_put_def can_request_def start_simulation_def)
  then obtain s1 where s1: "getState buf buf_hidden ?u = Inr (0, buf, buf_hidden, s1)" "same_connections ?u s1"
    using get_parts_end [of ?cs ?u "-1" "[]" buf buf_hidden] put(2) assms(2)
    by (auto simp: getState_def reply_type_def)
  have "rn_ccon s1 \<noteq> Dangling" "server_ranks s1 = server_ranks s" "rn_runner_id s1 = rn_runner_id s"
    using s1(2) assms(1) by (auto simp: same_connections_def start_simulation_def exposing_def)
  moreover have "rn_runner_id s \<noteq> -1" using put(1) by (simp add: can_put_def can_request_def)
  moreover obtain s' where s': "melissa_finalize (api_trigger ''STOP_IDLE_RUNNER'' (rn_runner_id s) s1) = Inr s'"
      "rn_phase s' = PHASE_FINAL \<and> server_ranks s' = [] \<and> awaiting s' = [] \<and> \<not> context_open s'"
      "rn_out s' = rn_out (api_trigger ''STOP_IDLE_RUNNER'' (rn_runner_id s) s1) @ map Api_close (map fst (server_ranks s1))"
      "rn_runner_id s' = rn_runner_id s1"
    using finalize_ok [of "api_trigger ''STOP_IDLE_RUNNER'' (rn_runner_id s) s1"] calculation(1) by auto
  moreover have "melissa_expose name buf buf_hidden s = Inr (0, buf, buf_hidden, s')"
    using s'(1) unfolding exposing_put [OF assms(1)] s1(1) by simp
  ultimately show ?thesis by (intro exI [of _ s']) (auto simp: final_runner)
qed

text \<open>
  One KILL\_RUNNER among the answers aborts the whole runner, whatever the server ranks asked
  before had answered with END\_RUNNER.
\<close>

theorem kill_runner_aborts:
  assumes "exposing name buf buf_hidden s" "connected_server_ranks (api_field s) = cs @ c # ds"
    and "\<forall>d \<in> set cs. reply_type END_RUNNER s d" "reply_type KILL_RUNNER s c"
  shows "melissa_expose name buf buf_hidden s = Inl Aborted"
proof -
  let ?t = "api_trigger ''START_IDLE_RUNNER'' (rn_runner_id s)
     (api_trigger ''STOP_PROPAGATE_STATE'' (current_state_id (api_field s)) s)"
  let ?u = "put_done buf buf_hidden name (start_simulation ?t)"
  have put: "can_put buf buf_hidden s" "rn_phase s \<noteq> PHASE_FINAL"
    using assms(1) by (simp_all add: exposing_def)
  then have dist: "distinct (map csr_server_rank (cs @ c # ds))" "rn_phase ?u \<noteq> PHASE_FINAL"
    using assms(2) by (simp_all add: can_put_def can_request_def start_simulation_def)
  have wait: "awaiting ?u = rev (map csr_server_rank (cs @ c # ds)) @ awaiting s"
    using assms(2) by simp
  have asked: "csr_server_rank ` set cs \<subseteq> set (awaiting ?u)" unfolding wait by auto
  have ends: "\<forall>d \<in> set cs. reply_type END_RUNNER ?u d" and kill: "reply_type KILL_RUNNER ?u c"
    using assms(3,4) by (simp_all add: reply_type_def)
  obtain s1 where s1: "get_parts (cs @ c # ds) (-1) buf buf_hidden ?u =
        get_parts (c # ds) (if cs = [] then -1 else 0) buf buf_hidden s1"
      "same_connections ?u s1" "not_asked (csr_server_rank ` set cs) ?u s1"
    using get_parts_end [OF ends asked, of "-1" "c # ds" buf buf_hidden] dist by auto
  have "csr_server_rank c \<notin> csr_server_rank ` set cs" using dist(1) by auto
  moreover have "csr_server_rank c \<in> set (awaiting ?u)" unfolding wait by simp
  ultimately have "reply_type KILL_RUNNER s1 c" "csr_server_rank c \<in> set (awaiting s1)"
    using s1(3) reply_not_asked [OF s1(3)] kill unfolding not_asked_def by blast+
  then have "getState buf buf_hidden ?u = Inl Aborted"
    using s1(1,2) dist(2) assms(2) by (simp add: getState_def kill_reply_received same_connections_def)
  then show ?thesis unfolding exposing_put [OF assms(1)] by simp
qed

text \<open>Runner rank 1 works on state 0 when server rank 0 answers.\<close>

definition example_stopped :: "int \<Rightarrow> runner_rank" where
  "example_stopped type = example_connected\<lparr>rn_phase := PHASE_SIMULATION,
     rn_inbox := (\<lambda>_. [(Ints [-1, 1, type, 0], False)])\<rparr>"

lemma example_exposing: "exposing ''state'' [5, 6] [] (example_stopped type)"
proof -
  have "can_put [5, 6] [] (example_stopped type) = can_put [5, 6] [] example_connected"
    by (simp add: can_put_def can_request_def example_stopped_def)
  then show ?thesis
    using example_can_put
    by (simp add: exposing_def example_stopped_def example_connected_def example_runner_def example_connections_def
        new_api_field_def)
qed

lemma example_replies: "reply_type type (example_stopped type) c"
  by (simp add: reply_type_def example_stopped_def)

theorem end_runner_finalizes_witness:
  "\<exists>s'. melissa_expose ''state'' [5, 6] [] (example_stopped END_RUNNER) = Inr (0, [5, 6], [], s') \<and>
     rn_phase s' = PHASE_FINAL \<and> server_ranks s' = [] \<and> awaiting s' = [] \<and> \<not> context_open s' \<and>
     (\<forall>r \<in> fst ` set (server_ranks (example_stopped END_RUNNER)). Api_close r \<in> set (rn_out s')) \<and>
     melissa_get_current_state_id s' = -2 \<and> melissa_get_current_step s' = Inl Assertion_failed \<and>
     melissa_expose ''state'' [5, 6] [] s' = Inl Assertion_failed"
  by (rule end_runner_finalizes [OF example_exposing]) (simp add: example_replies)

theorem kill_runner_aborts_witness:
  "melissa_expose ''state'' [5, 6] [] (example_stopped KILL_RUNNER) = Inl Aborted"
proof (rule kill_runner_aborts [OF example_exposing, where cs = "[]"])
  show "connected_server_ranks (api_field (example_stopped KILL_RUNNER)) =
      [] @ hd example_connections # tl example_connections"
    by (simp add: example_stopped_def example_connected_def example_runner_def new_api_field_def example_connections_def)
qed (simp_all add: example_replies)

end
