(* ===== verification/Chunks.thy ===== *)
theory Chunks
  imports Shutdown
begin

text \<open>
  The chunk interface (api/chunk\_based.cxx): a model registers its arrays as chunks, a commit
  packs their bytes into the two state vectors, exposes them and writes the answer back. The
  memory of the model is a function from addresses to bytes, so arrays may overlap.
\<close>

section \<open>Memory\<close>

type_synonym memory = "nat \<Rightarrow> byte"

definition read_mem :: "nat \<Rightarrow> nat \<Rightarrow> memory \<Rightarrow> byte list" where
  "read_mem a n mem = map (\<lambda>i. mem (a + i)) [0..<n]"

definition write_mem :: "nat \<Rightarrow> byte list \<Rightarrow> memory \<Rightarrow> memory" where
  "write_mem a v mem = (\<lambda>x. if a \<le> x \<and> x < a + length v then v ! (x - a) else mem x)"

lemma length_read_mem [simp]: "length (read_mem a n mem) = n"
  by (simp add: read_mem_def)

lemma write_read_mem [simp]: "write_mem a (read_mem a n mem) mem = mem"
proof
  fix x
  show "write_mem a (read_mem a n mem) mem x = mem x"
    by (cases "a \<le> x \<and> x < a + n") (auto simp: write_mem_def read_mem_def)
qed

lemma read_write_mem [simp]: "read_mem a (length v) (write_mem a v mem) = v"
  by (auto simp: write_mem_def read_mem_def intro: nth_equalityI)

lemma read_write_disjoint:
  "a + n \<le> b \<or> b + length v \<le> a \<Longrightarrow> read_mem a n (write_mem b v mem) = read_mem a n mem"
  by (auto simp: write_mem_def read_mem_def)

section \<open>Chunks\<close>

record chunk =
  ck_varid :: int
  ck_index_map :: "int list"
  ck_values :: nat
  size_per_element :: nat
  ck_count :: nat
  is_assimilated :: bool

text \<open>The global chunk list, and the static variables of the commit.\<close>

record chunk_state =
  chunks :: "chunk list"
  may_add_chunks :: bool
  hidden_size :: nat
  assimilated_size :: nat
  is_inited :: bool

definition no_chunks :: chunk_state where
  "no_chunks = \<lparr>chunks = [], may_add_chunks = True, hidden_size = 0, assimilated_size = 0, is_inited = False\<rparr>"

text \<open>The wrappers give the size of the element type: 4 for float, int and logical, 8, 1.\<close>

definition type_size :: "char \<Rightarrow> nat" where
  "type_size t = (if t = CHR ''d'' then 8 else if t = CHR ''c'' then 1 else 4)"

definition melissa_add_chunk ::
  "char \<Rightarrow> int \<Rightarrow> int list \<Rightarrow> nat \<Rightarrow> nat \<Rightarrow> int \<Rightarrow> chunk_state \<Rightarrow> chunk_state res" where
  "melissa_add_chunk t varid imap vals n assimilated s =
     assert_then (may_add_chunks s)
      (Inr (s\<lparr>chunks := chunks s @ [\<lparr>ck_varid = varid, ck_index_map = imap, ck_values = vals,
          size_per_element = type_size t, ck_count = n, is_assimilated = (assimilated \<noteq> 0)\<rparr>]\<rparr>))"

definition chunk_bytes :: "chunk \<Rightarrow> nat" where
  "chunk_bytes c = size64 (int (size_per_element c) * int (ck_count c))"

definition add_size :: "chunk \<Rightarrow> nat \<times> nat \<Rightarrow> nat \<times> nat" where
  "add_size c sizes =
     (case sizes of (a, h) \<Rightarrow>
        if is_assimilated c then (size64 (int a + int (chunk_bytes c)), h)
        else (a, size64 (int h + int (chunk_bytes c))))"

text \<open>One index map entry per byte; \<open>j\<close> counts the elements.\<close>

fun index_entries :: "chunk \<Rightarrow> nat list \<Rightarrow> int \<Rightarrow> (int \<times> int) list res" where
  "index_entries c [] j = Inr []"
| "index_entries c (i # is) j =
     (let j = (if i mod size_per_element c = 0 then j + 1 else j) in
      if \<not> index_ok j (ck_index_map c) then Inl Undefined_behaviour
      else and_then (index_entries c is j) (\<lambda>es. Inr ((ck_index_map c ! nat j, ck_varid c) # es)))"

fun chunk_index_maps :: "chunk list \<Rightarrow> ((int \<times> int) list \<times> (int \<times> int) list) res" where
  "chunk_index_maps [] = Inr ([], [])"
| "chunk_index_maps (c # cs) =
     and_then (index_entries c [0..<chunk_bytes c] (-1)) (\<lambda>es.
     and_then (chunk_index_maps cs) (\<lambda>(m, mh).
     Inr (if is_assimilated c then (es @ m, mh) else (m, es @ mh))))"

section \<open>Packing and unpacking\<close>

fun pack_loop :: "chunk list \<Rightarrow> memory \<Rightarrow> nat \<Rightarrow> nat \<Rightarrow> byte list \<Rightarrow> byte list \<Rightarrow> (byte list \<times> byte list) res" where
  "pack_loop [] mem pos_assimilated pos_hidden buf buf_hidden = Inr (buf, buf_hidden)"
| "pack_loop (c # cs) mem pos_assimilated pos_hidden buf buf_hidden =
     (let v = read_mem (ck_values c) (chunk_bytes c) mem in
      if is_assimilated c then
        and_then (write_buf pos_assimilated v buf)
          (\<lambda>buf. pack_loop cs mem (pos_assimilated + chunk_bytes c) pos_hidden buf buf_hidden)
      else
        and_then (write_buf pos_hidden v buf_hidden)
          (pack_loop cs mem pos_assimilated (pos_hidden + chunk_bytes c) buf))"

fun unpack_loop :: "chunk list \<Rightarrow> nat \<Rightarrow> nat \<Rightarrow> byte list \<Rightarrow> byte list \<Rightarrow> memory \<Rightarrow> memory res" where
  "unpack_loop [] pos_assimilated pos_hidden buf buf_hidden mem = Inr mem"
| "unpack_loop (c # cs) pos_assimilated pos_hidden buf buf_hidden mem =
     (if is_assimilated c then
        and_then (read_buf pos_assimilated (chunk_bytes c) buf)
          (\<lambda>v. unpack_loop cs (pos_assimilated + chunk_bytes c) pos_hidden buf buf_hidden (write_mem (ck_values c) v mem))
      else
        and_then (read_buf pos_hidden (chunk_bytes c) buf_hidden)
          (\<lambda>v. unpack_loop cs pos_assimilated (pos_hidden + chunk_bytes c) buf buf_hidden (write_mem (ck_values c) v mem)))"

section \<open>The commit\<close>

text \<open>
  An empty vector has the null pointer as its data. A rank that passes a null pointer numbers the
  elements itself; it does not enter the gather in which rank 0 waits for the others.
\<close>

definition vector_data :: "int \<Rightarrow> (int \<times> int) list list \<Rightarrow> (int \<times> int) list list option res" where
  "vector_data rank maps =
     (if \<forall>m \<in> set maps. m = [] then Inr None
      else if rank = 0 \<and> [] \<in> set maps then Inl Blocked else Inr (Some maps))"

text \<open>
  The first commit. The sizes and index maps of the other ranks are arguments; the entry of this
  rank is overwritten with its own.
\<close>

definition init_chunks where
  "init_chunks gatherv sizes sizes_hidden maps maps_hidden root cst s =
     (case fold add_size (chunks cst) (assimilated_size cst, hidden_size cst) of
        (a, h) \<Rightarrow>
        let r = nat (rn_comm_rank s) in
        and_then (chunk_index_maps (chunks cst)) (\<lambda>(m, mh).
        and_then (vector_data (rn_comm_rank s) (maps[r := m])) (\<lambda>maps.
        and_then (vector_data (rn_comm_rank s) (maps_hidden[r := mh])) (\<lambda>maps_hidden.
        and_then (melissa_init_with_index_map gatherv ''data'' (sizes[r := a]) (sizes_hidden[r := h]) 1 1
                    maps maps_hidden root 1 1 s) (\<lambda>s.
        Inr (cst\<lparr>assimilated_size := a, hidden_size := h, is_inited := True, may_add_chunks := False\<rparr>, s))))))"

definition expose_chunks :: "chunk_state \<Rightarrow> memory \<Rightarrow> runner_rank \<Rightarrow> (int \<times> memory \<times> runner_rank) res" where
  "expose_chunks cst mem s =
     and_then (pack_loop (chunks cst) mem 0 0 (replicate (assimilated_size cst) 0)
                (replicate (hidden_size cst) 0)) (\<lambda>(buf, buf_hidden).
     and_then (melissa_expose ''data'' buf buf_hidden s) (\<lambda>(nsteps, buf, buf_hidden, s).
     and_then (unpack_loop (chunks cst) 0 0 buf buf_hidden mem) (\<lambda>mem.
     Inr (nsteps, mem, s))))"

definition melissa_commit_chunks_f where
  "melissa_commit_chunks_f gatherv sizes sizes_hidden maps maps_hidden root cst mem s =
     and_then (if is_inited cst then Inr (cst, s)
               else init_chunks gatherv sizes sizes_hidden maps maps_hidden root cst s) (\<lambda>(cst, s).
     and_then (expose_chunks cst mem s) (\<lambda>(nsteps, mem, s).
     Inr (nsteps, cst, mem, s)))"

section \<open>What is packed\<close>

definition part_bytes :: "bool \<Rightarrow> chunk list \<Rightarrow> nat" where
  "part_bytes b cs = sum_list (map chunk_bytes (filter (\<lambda>c. is_assimilated c = b) cs))"

definition packed :: "bool \<Rightarrow> chunk list \<Rightarrow> memory \<Rightarrow> byte list" where
  "packed b cs mem =
     concat (map (\<lambda>c. read_mem (ck_values c) (chunk_bytes c) mem) (filter (\<lambda>c. is_assimilated c = b) cs))"

lemma part_bytes_simps [simp]:
  "part_bytes b [] = 0"
  "part_bytes b (c # cs) = (if is_assimilated c = b then chunk_bytes c else 0) + part_bytes b cs"
  by (simp_all add: part_bytes_def)

lemma packed_simps [simp]:
  "packed b [] mem = []"
  "packed b (c # cs) mem =
     (if is_assimilated c = b then read_mem (ck_values c) (chunk_bytes c) mem else []) @ packed b cs mem"
  by (simp_all add: packed_def)

lemma length_packed [simp]: "length (packed b cs mem) = part_bytes b cs"
  by (induction cs) auto

lemma fold_add_size:
  "a + part_bytes True cs < 2 ^ 64 \<Longrightarrow> h + part_bytes False cs < 2 ^ 64 \<Longrightarrow>
     fold add_size cs (a, h) = (a + part_bytes True cs, h + part_bytes False cs)"
  by (induction cs arbitrary: a h) (auto simp: add_size_def)

lemma write_buf_at:
  "length v \<le> k \<Longrightarrow> write_buf (length pre) v (pre @ replicate k x) = Inr (pre @ v @ replicate (k - length v) x)"
  by (simp add: write_buf_def copy_into_def)

lemma pack_loop_ok:
  "pack_loop cs mem (length pre) (length preh) (pre @ replicate (part_bytes True cs) 0)
       (preh @ replicate (part_bytes False cs) 0) =
     Inr (pre @ packed True cs mem, preh @ packed False cs mem)"
proof (induction cs arbitrary: pre preh)
  case (Cons c cs)
  let ?v = "read_mem (ck_values c) (chunk_bytes c) mem"
  show ?case
    using Cons [of "pre @ ?v" preh] Cons [of pre "preh @ ?v"]
    by (simp add: write_buf_at)
qed simp

text \<open>The memory after the buffers were written back.\<close>

fun unpacked :: "chunk list \<Rightarrow> byte list \<Rightarrow> byte list \<Rightarrow> memory \<Rightarrow> memory" where
  "unpacked [] buf buf_hidden mem = mem"
| "unpacked (c # cs) buf buf_hidden mem =
     (if is_assimilated c
      then unpacked cs (drop (chunk_bytes c) buf) buf_hidden (write_mem (ck_values c) (take (chunk_bytes c) buf) mem)
      else unpacked cs buf (drop (chunk_bytes c) buf_hidden)
             (write_mem (ck_values c) (take (chunk_bytes c) buf_hidden) mem))"

lemma read_buf_at:
  "n \<le> length rest \<Longrightarrow> read_buf (length pre) n (pre @ rest) = Inr (take n rest)"
  by (simp add: read_buf_def subvec_def)

lemma unpack_loop_ok:
  "length buf = part_bytes True cs \<Longrightarrow> length buf_hidden = part_bytes False cs \<Longrightarrow>
     unpack_loop cs (length pre) (length preh) (pre @ buf) (preh @ buf_hidden) mem = Inr (unpacked cs buf buf_hidden mem)"
proof (induction cs arbitrary: pre preh buf buf_hidden mem)
  case (Cons c cs)
  let ?n = "chunk_bytes c"
  show ?case
  proof (cases "is_assimilated c")
    case True
    with Cons.prems have "unpack_loop cs (length (pre @ take ?n buf)) (length preh)
          ((pre @ take ?n buf) @ drop ?n buf) (preh @ buf_hidden) (write_mem (ck_values c) (take ?n buf) mem) =
        Inr (unpacked cs (drop ?n buf) buf_hidden (write_mem (ck_values c) (take ?n buf) mem))"
      by (intro Cons.IH) auto
    moreover have "?n \<le> length buf" using True Cons.prems by simp
    ultimately show ?thesis using True Cons.prems(2)
      by (simp add: read_buf_at min.absorb2)
  next
    case False
    with Cons.prems have "unpack_loop cs (length pre) (length (preh @ take ?n buf_hidden)) (pre @ buf)
          ((preh @ take ?n buf_hidden) @ drop ?n buf_hidden) (write_mem (ck_values c) (take ?n buf_hidden) mem) =
        Inr (unpacked cs buf (drop ?n buf_hidden) (write_mem (ck_values c) (take ?n buf_hidden) mem))"
      by (intro Cons.IH) auto
    moreover have "?n \<le> length buf_hidden" using False Cons.prems by simp
    ultimately show ?thesis using False Cons.prems(1) by (simp add: read_buf_at min.absorb2)
  qed
qed simp

lemma unpacked_packed: "unpacked cs (packed True cs mem) (packed False cs mem) mem = mem"
  by (induction cs) auto

section \<open>Chunks that do not overlap\<close>

definition apart :: "chunk \<Rightarrow> chunk \<Rightarrow> bool" where
  "apart c d \<longleftrightarrow> ck_values c + chunk_bytes c \<le> ck_values d \<or> ck_values d + chunk_bytes d \<le> ck_values c"

definition in_chunk :: "chunk \<Rightarrow> nat \<Rightarrow> bool" where
  "in_chunk c x \<longleftrightarrow> ck_values c \<le> x \<and> x < ck_values c + chunk_bytes c"

fun all_apart :: "chunk list \<Rightarrow> bool" where
  "all_apart [] = True"
| "all_apart (c # cs) = ((\<forall>d \<in> set cs. apart c d) \<and> all_apart cs)"

lemma unpacked_outside:
  "length buf = part_bytes True cs \<Longrightarrow> length buf_hidden = part_bytes False cs \<Longrightarrow>
     \<forall>c \<in> set cs. \<not> in_chunk c x \<Longrightarrow> unpacked cs buf buf_hidden mem x = mem x"
  by (induction cs arbitrary: buf buf_hidden mem) (auto simp: in_chunk_def write_mem_def)

lemma unpacked_other_chunk:
  assumes "length buf = part_bytes True cs" "length buf_hidden = part_bytes False cs" "\<forall>d \<in> set cs. apart c d"
  shows "read_mem (ck_values c) (chunk_bytes c) (unpacked cs buf buf_hidden mem) = read_mem (ck_values c) (chunk_bytes c) mem"
proof -
  have "unpacked cs buf buf_hidden mem (ck_values c + i) = mem (ck_values c + i)" if "i < chunk_bytes c" for i
  proof (rule unpacked_outside [OF assms(1,2)])
    show "\<forall>d \<in> set cs. \<not> in_chunk d (ck_values c + i)"
      using assms(3) that by (fastforce simp: apart_def in_chunk_def)
  qed
  then show ?thesis by (simp add: read_mem_def)
qed

lemma packed_unpacked:
  "length buf = part_bytes True cs \<Longrightarrow> length buf_hidden = part_bytes False cs \<Longrightarrow> all_apart cs \<Longrightarrow>
     packed True cs (unpacked cs buf buf_hidden mem) = buf \<and> packed False cs (unpacked cs buf buf_hidden mem) = buf_hidden"
proof (induction cs arbitrary: buf buf_hidden mem)
  case (Cons c cs)
  let ?n = "chunk_bytes c"
  have rw: "length v = ?n \<Longrightarrow> read_mem (ck_values c) ?n (write_mem (ck_values c) v m) = v" for v m
    using read_write_mem [of "ck_values c" v m] by simp
  show ?case
  proof (cases "is_assimilated c")
    case True
    let ?m = "write_mem (ck_values c) (take ?n buf) mem"
    have "packed True cs (unpacked cs (drop ?n buf) buf_hidden ?m) = drop ?n buf \<and>
        packed False cs (unpacked cs (drop ?n buf) buf_hidden ?m) = buf_hidden"
      using Cons.prems True by (intro Cons.IH) auto
    moreover have "read_mem (ck_values c) ?n (unpacked cs (drop ?n buf) buf_hidden ?m) = take ?n buf"
      using Cons.prems True rw by (subst unpacked_other_chunk) auto
    ultimately show ?thesis using True by simp
  next
    case False
    let ?m = "write_mem (ck_values c) (take ?n buf_hidden) mem"
    have "packed True cs (unpacked cs buf (drop ?n buf_hidden) ?m) = buf \<and>
        packed False cs (unpacked cs buf (drop ?n buf_hidden) ?m) = drop ?n buf_hidden"
      using Cons.prems False by (intro Cons.IH) auto
    moreover have "read_mem (ck_values c) ?n (unpacked cs buf (drop ?n buf_hidden) ?m) = take ?n buf_hidden"
      using Cons.prems False rw by (subst unpacked_other_chunk) auto
    ultimately show ?thesis using False by simp
  qed
qed simp

section \<open>Index maps of chunks\<close>

definition chunk_wf :: "chunk \<Rightarrow> bool" where
  "chunk_wf c \<longleftrightarrow> 0 < size_per_element c \<and> ck_count c \<le> length (ck_index_map c) \<and>
     size_per_element c * ck_count c < 2 ^ 64"

lemma chunk_bytes_wf: "chunk_wf c \<Longrightarrow> chunk_bytes c = size_per_element c * ck_count c"
  by (simp add: chunk_wf_def chunk_bytes_def size64_of_nat flip: of_nat_mult)

definition chunk_entry :: "chunk \<Rightarrow> nat \<Rightarrow> int \<times> int" where
  "chunk_entry c i = (ck_index_map c ! (i div size_per_element c), ck_varid c)"

lemma index_entries_ok:
  assumes wf: "chunk_wf c"
  shows "k \<le> chunk_bytes c \<Longrightarrow>
     index_entries c [k..<chunk_bytes c] (if k = 0 then -1 else int ((k - 1) div size_per_element c)) =
       Inr (map (chunk_entry c) [k..<chunk_bytes c])"
proof (induction "chunk_bytes c - k" arbitrary: k)
  case 0
  then show ?case by simp
next
  case (Suc n)
  let ?e = "size_per_element c"
  have e: "0 < ?e" using wf by (simp add: chunk_wf_def)
  have k: "k < chunk_bytes c" using Suc.hyps(2) by simp
  have next_j: "(if k mod ?e = 0 then (if k = 0 then -1 else int ((k - 1) div ?e)) + 1
      else (if k = 0 then -1 else int ((k - 1) div ?e))) = int (k div ?e)"
    using e by (cases k) (auto simp: div_Suc)
  have "k div ?e < ck_count c"
    using k e chunk_bytes_wf [OF wf] by (simp add: less_mult_imp_div_less mult.commute)
  then have ok: "index_ok (int (k div ?e)) (ck_index_map c)"
    using wf by (simp add: chunk_wf_def index_ok_def)
  have "index_entries c [Suc k..<chunk_bytes c] (int (k div ?e)) = Inr (map (chunk_entry c) [Suc k..<chunk_bytes c])"
    using Suc.hyps(1) [of "Suc k"] Suc.hyps(2) by simp
  then show ?case
    by (simp only: upt_conv_Cons [OF k] index_entries.simps Let_def next_j) (simp add: ok chunk_entry_def)
qed

text \<open>Each byte of a state vector with the index map entry that describes it.\<close>

definition described :: "bool \<Rightarrow> chunk list \<Rightarrow> memory \<Rightarrow> ((int \<times> int) \<times> byte) list" where
  "described b cs mem = concat (map (\<lambda>c. map (\<lambda>i. (chunk_entry c i, mem (ck_values c + i))) [0..<chunk_bytes c])
     (filter (\<lambda>c. is_assimilated c = b) cs))"

lemma described_simps [simp]:
  "described b [] mem = []"
  "described b (c # cs) mem =
     (if is_assimilated c = b then map (\<lambda>i. (chunk_entry c i, mem (ck_values c + i))) [0..<chunk_bytes c] else []) @
     described b cs mem"
  by (simp_all add: described_def)

lemma chunk_maps_ok:
  "\<forall>c \<in> set cs. chunk_wf c \<Longrightarrow> \<exists>m mh. chunk_index_maps cs = Inr (m, mh) \<and>
     length m = part_bytes True cs \<and> length mh = part_bytes False cs \<and>
     zip m (packed True cs mem) = described True cs mem \<and> zip mh (packed False cs mem) = described False cs mem"
proof (induction cs)
  case (Cons c cs)
  then obtain m mh where m: "chunk_index_maps cs = Inr (m, mh)" "length m = part_bytes True cs" "length mh = part_bytes False cs"
      "zip m (packed True cs mem) = described True cs mem" "zip mh (packed False cs mem) = described False cs mem"
    by auto
  have es: "index_entries c [0..<chunk_bytes c] (-1) = Inr (map (chunk_entry c) [0..<chunk_bytes c])"
    using index_entries_ok [of c 0] Cons.prems by simp
  have "zip (map (chunk_entry c) [0..<chunk_bytes c]) (read_mem (ck_values c) (chunk_bytes c) mem) =
      map (\<lambda>i. (chunk_entry c i, mem (ck_values c + i))) [0..<chunk_bytes c]"
    by (simp add: read_mem_def zip_map1 zip_map2 zip_same_conv_map)
  with m show ?case by (simp add: es)
qed simp

text \<open>
  The index map of a chunked model describes its state vectors byte by byte: the entry at a
  position names the variable of the chunk the byte at this position was copied from, and the
  index the model gave to the array element the byte belongs to.
\<close>

theorem index_map_follows_bytes:
  assumes "\<forall>c \<in> set cs. chunk_wf c"
  shows "\<exists>m mh. chunk_index_maps cs = Inr (m, mh) \<and>
     pack_loop cs mem 0 0 (replicate (part_bytes True cs) 0) (replicate (part_bytes False cs) 0) =
       Inr (packed True cs mem, packed False cs mem) \<and>
     length m = part_bytes True cs \<and> length mh = part_bytes False cs \<and>
     zip m (packed True cs mem) = described True cs mem \<and> zip mh (packed False cs mem) = described False cs mem"
  using chunk_maps_ok [OF assms, of mem] pack_loop_ok [of cs mem "[]" "[]"] by simp

definition example_chunks :: "chunk list" where
  "example_chunks =
     [\<lparr>ck_varid = 7, ck_index_map = [10, 11], ck_values = 100, size_per_element = 4, ck_count = 2, is_assimilated = True\<rparr>,
      \<lparr>ck_varid = 8, ck_index_map = [20], ck_values = 200, size_per_element = 1, ck_count = 1, is_assimilated = False\<rparr>]"

lemma example_chunks_wf: "\<forall>c \<in> set example_chunks. chunk_wf c"
  by (simp add: example_chunks_def chunk_wf_def)

definition example_memory :: memory where
  "example_memory = of_nat"

theorem index_map_follows_bytes_witness:
  "\<exists>m mh. chunk_index_maps example_chunks = Inr (m, mh) \<and>
     pack_loop example_chunks example_memory 0 0 (replicate (part_bytes True example_chunks) 0)
       (replicate (part_bytes False example_chunks) 0) =
       Inr (packed True example_chunks example_memory, packed False example_chunks example_memory) \<and>
     length m = part_bytes True example_chunks \<and> length mh = part_bytes False example_chunks \<and>
     zip m (packed True example_chunks example_memory) = described True example_chunks example_memory \<and>
     zip mh (packed False example_chunks example_memory) = described False example_chunks example_memory"
  by (rule index_map_follows_bytes [OF example_chunks_wf])

section \<open>The buffers come back\<close>

lemma recv_data_length: "recv_data r n off buf b s = Inr (buf', b', s') \<Longrightarrow> length buf' = length buf"
  by (auto simp: recv_data_def and_then_Inr_iff write_buf_def layout_simps split: if_splits)

lemma connection_receive_length:
  "connection_receive c v h s = Inr (n, v', h', s') \<Longrightarrow> length v' = length v \<and> length h' = length h"
  by (auto simp: connection_receive_def and_then_Inr_iff Let_def split: if_splits dest: recv_data_length)

lemma get_parts_length:
  "get_parts cs n v h s = Inr (n', v', h', s') \<Longrightarrow> length v' = length v \<and> length h' = length h"
proof (induction cs arbitrary: n v h s)
  case (Cons c cs)
  then show ?case
    by (auto simp: and_then_Inr_iff split: if_splits dest!: connection_receive_length Cons.IH)
qed simp

lemma expose_length:
  "melissa_expose name v h s = Inr (n, v', h', s') \<Longrightarrow> length v' = length v \<and> length h' = length h"
  by (auto simp: melissa_expose_def getState_def and_then_Inr_iff Let_def split: if_splits dest!: get_parts_length)

text \<open>After the first commit: the sizes are those of the chunks and no chunk can be added.\<close>

definition committed :: "chunk_state \<Rightarrow> bool" where
  "committed cst \<longleftrightarrow> is_inited cst \<and> \<not> may_add_chunks cst \<and>
     assimilated_size cst = part_bytes True (chunks cst) \<and> hidden_size cst = part_bytes False (chunks cst)"

lemma init_chunks_committed:
  assumes "init_chunks gatherv sizes sizes_hidden maps maps_hidden root cst s = Inr (cst', s')"
    and "assimilated_size cst = 0" "hidden_size cst = 0"
    and "part_bytes True (chunks cst) < 2 ^ 64" "part_bytes False (chunks cst) < 2 ^ 64"
  shows "committed cst' \<and> chunks cst' = chunks cst \<and> melissa_add_chunk t v im a n b cst' = Inl Assertion_failed"
  using assms fold_add_size [of 0 "chunks cst" 0]
  by (auto simp: init_chunks_def committed_def and_then_Inr_iff Let_def melissa_add_chunk_def assert_then_def)

text \<open>
  C31. A commit exchanges the bytes of the chunks for those the server returned and touches nothing
  else. When the chunks do not overlap, the assimilated chunks together hold exactly the vector
  that melissa\_expose gave back, the others the hidden vector, and every byte of the model outside
  the chunks is as before; a call that returns the vectors it was given leaves the model as it was.
\<close>

theorem commit_exchanges_chunks:
  assumes "committed cst" "all_apart (chunks cst)"
    and "melissa_expose ''data'' (packed True (chunks cst) mem) (packed False (chunks cst) mem) s =
         Inr (n, buf, buf_hidden, s')"
  shows "\<exists>mem'. melissa_commit_chunks_f gatherv sizes sizes_hidden maps maps_hidden root cst mem s = Inr (n, cst, mem', s') \<and>
     packed True (chunks cst) mem' = buf \<and> packed False (chunks cst) mem' = buf_hidden \<and>
     (\<forall>x. (\<forall>c \<in> set (chunks cst). \<not> in_chunk c x) \<longrightarrow> mem' x = mem x) \<and>
     (buf = packed True (chunks cst) mem \<and> buf_hidden = packed False (chunks cst) mem \<longrightarrow> mem' = mem)"
proof -
  have len: "length buf = part_bytes True (chunks cst)" "length buf_hidden = part_bytes False (chunks cst)"
    using expose_length [OF assms(3)] by simp_all
  let ?mem = "unpacked (chunks cst) buf buf_hidden mem"
  have "expose_chunks cst mem s = Inr (n, ?mem, s')"
    using assms(1,3) pack_loop_ok [of "chunks cst" mem "[]" "[]"] unpack_loop_ok [OF len, of "[]" "[]" mem]
    by (simp add: expose_chunks_def committed_def)
  then have "melissa_commit_chunks_f gatherv sizes sizes_hidden maps maps_hidden root cst mem s = Inr (n, cst, ?mem, s')"
    using assms(1) by (simp add: melissa_commit_chunks_f_def committed_def)
  moreover have "\<forall>x. (\<forall>c \<in> set (chunks cst). \<not> in_chunk c x) \<longrightarrow> ?mem x = mem x"
    using unpacked_outside [OF len] by blast
  moreover have "buf = packed True (chunks cst) mem \<and> buf_hidden = packed False (chunks cst) mem \<longrightarrow> ?mem = mem"
    by (simp add: unpacked_packed)
  ultimately show ?thesis using packed_unpacked [OF len assms(2)] by blast
qed

definition example_model :: chunk_state where
  "example_model = \<lparr>chunks = [\<lparr>ck_varid = 7, ck_index_map = [10, 11], ck_values = 5, size_per_element = 1, ck_count = 2,
     is_assimilated = True\<rparr>], may_add_chunks = False, hidden_size = 0, assimilated_size = 2, is_inited = True\<rparr>"

definition example_data_runner :: runner_rank where
  "example_data_runner = (example_stopped END_RUNNER)\<lparr>api_field := new_api_field ''data'' 2 0 example_connections\<rparr>"

lemma example_model_packed:
  "packed True (chunks example_model) example_memory = [5, 6]" "packed False (chunks example_model) example_memory = []"
  by (simp_all add: example_model_def read_mem_def example_memory_def chunk_bytes_def size64_def numeral_2_eq_2)

lemma example_data_exposed:
  "\<exists>s'. melissa_expose ''data'' [5, 6] [] example_data_runner = Inr (0, [5, 6], [], s')"
  by (simp add: melissa_expose_def example_data_runner_def example_stopped_def example_connected_def example_runner_def
      new_api_field_def example_connections_def getRunnerId_def trigger_runner_id_def api_trigger_def start_simulation_def putState_def
      read_buf_def subvec_def connection_send_def api_emit_def getState_def connection_receive_def recv_from_def
      state_header_def END_RUNNER_def CHANGE_STATE_def melissa_finalize_def Let_def
      cong: and_then_weak_cong)

theorem commit_exchanges_chunks_witness:
  "\<exists>s' mem'. melissa_commit_chunks_f slow_MPI_Gatherv [2] [0] [[]] [[]] example_data_runner example_model example_memory
       example_data_runner = Inr (0, example_model, mem', s') \<and>
     packed True (chunks example_model) mem' = [5, 6] \<and> packed False (chunks example_model) mem' = [] \<and>
     mem' = example_memory"
proof -
  have "committed example_model" "all_apart (chunks example_model)"
    by (simp_all add: committed_def example_model_def chunk_bytes_def size64_def)
  with example_data_exposed show ?thesis
    using commit_exchanges_chunks [of example_model example_memory example_data_runner] unfolding example_model_packed by blast
qed

end
