(* ===== verification/Ckpt.thy ===== *)
theory Ckpt
  imports Prelude
begin

text \<open>
  The identifiers of states in the peer-to-peer mode (io\_controller.hpp, fti\_controller.hpp): a
  state is named by its assimilation cycle and its number, and FTI knows it by one checkpoint id.
  Also the decimal names of files.
\<close>

section \<open>State ids\<close>

record io_state_id =
  st_t :: int
  st_id :: int

text \<open>An int expression overflows outside its range: undefined behaviour.\<close>

definition int_value :: "int \<Rightarrow> int res" where
  "int_value x = (if - (2 ^ 31) \<le> x \<and> x < 2 ^ 31 then Inr x else Inl Undefined_behaviour)"

definition to_ckpt_id :: "io_state_id \<Rightarrow> int res" where
  "to_ckpt_id s =
     assert_then (st_id s < 100000)
      (and_then (int_value (st_t s * 100000)) (\<lambda>x. int_value (x + st_id s)))"

text \<open>Division and remainder of the language round towards zero.\<close>

definition cmod :: "int \<Rightarrow> int \<Rightarrow> int" where
  "cmod a b = a - b * cdiv a b"

definition to_state_id :: "int \<Rightarrow> io_state_id" where
  "to_state_id c = \<lparr>st_t = cdiv c 100000, st_id = cmod c 100000\<rparr>"

definition state_id_ok :: "io_state_id \<Rightarrow> bool" where
  "state_id_ok s \<longleftrightarrow> 0 \<le> st_t s \<and> 0 \<le> st_id s \<and> st_id s < 100000 \<and> st_t s * 100000 + st_id s < 2 ^ 31"

lemma to_ckpt_id_ok: "state_id_ok s \<Longrightarrow> to_ckpt_id s = Inr (st_t s * 100000 + st_id s)"
  by (simp add: to_ckpt_id_def state_id_ok_def int_value_def)

lemma to_state_id_nonneg: "0 \<le> c \<Longrightarrow> to_state_id c = \<lparr>st_t = c div 100000, st_id = c mod 100000\<rparr>"
  by (simp add: to_state_id_def cmod_def cdiv_nonneg minus_mult_div_eq_mod)

text \<open>
  For cycles and state numbers that are not negative and a checkpoint id in the range of int,
  naming is a bijection: the state is read back from its checkpoint id, and every checkpoint id
  is that of the state it is read as; so two states never share a checkpoint.
\<close>

theorem ckpt_ids_identify_states:
  assumes "state_id_ok s" "0 \<le> c" "c < 2 ^ 31"
  shows "(\<exists>d. to_ckpt_id s = Inr d \<and> to_state_id d = s) \<and> to_ckpt_id (to_state_id c) = Inr c \<and>
     (\<forall>s'. state_id_ok s' \<and> to_ckpt_id s' = to_ckpt_id s \<longrightarrow> s' = s)"
proof -
  have inv: "to_state_id (st_t r * 100000 + st_id r) = r" if "state_id_ok r" for r
    using that by (simp add: state_id_ok_def to_state_id_nonneg)
  have "state_id_ok (to_state_id c)"
    using assms(2,3) by (simp add: to_state_id_nonneg state_id_ok_def)
  then have "to_ckpt_id (to_state_id c) = Inr c"
    using assms(2) by (simp add: to_ckpt_id_ok to_state_id_nonneg)
  moreover have "s' = s" if "state_id_ok s'" "to_ckpt_id s' = to_ckpt_id s" for s'
    using that assms(1) inv [of s] inv [of s'] by (simp add: to_ckpt_id_ok)
  ultimately show ?thesis using assms(1) inv by (auto simp: to_ckpt_id_ok)
qed

theorem ckpt_ids_identify_states_witness:
  "(\<exists>d. to_ckpt_id \<lparr>st_t = 3, st_id = 42\<rparr> = Inr d \<and> to_state_id d = \<lparr>st_t = 3, st_id = 42\<rparr>) \<and>
     to_ckpt_id (to_state_id 700001) = Inr 700001"
  using ckpt_ids_identify_states [of "\<lparr>st_t = 3, st_id = 42\<rparr>" 700001] by (simp add: state_id_ok_def)

text \<open>The assert has no lower bound: a negative number collides.\<close>

lemma negative_ids_collide:
  "0 \<le> t \<Longrightarrow> t < 21474 \<Longrightarrow>
     to_ckpt_id \<lparr>st_t = t + 1, st_id = -1\<rparr> = to_ckpt_id \<lparr>st_t = t, st_id = 99999\<rparr>"
  by (simp add: to_ckpt_id_def int_value_def)

section \<open>Decimal numbers\<close>

definition digit :: "nat \<Rightarrow> char" where
  "digit n = char_of (48 + n)"

fun dec_nat :: "nat \<Rightarrow> string" where
  "dec_nat n = (if n < 10 then [digit n] else dec_nat (n div 10) @ [digit (n mod 10)])"

declare dec_nat.simps [simp del]

definition dec :: "int \<Rightarrow> string" where
  "dec i = (if i < 0 then CHR ''-'' # dec_nat (nat (- i)) else dec_nat (nat i))"

lemma inj_digit: "m < 10 \<Longrightarrow> n < 10 \<Longrightarrow> digit m = digit n \<Longrightarrow> m = n"
  unfolding digit_def by (drule arg_cong [of _ _ "of_char :: char \<Rightarrow> nat"]) simp

lemma dec_nat_not_Nil: "dec_nat n \<noteq> []"
  by (subst dec_nat.simps) simp

lemma dec_nat_inj: "dec_nat m = dec_nat n \<Longrightarrow> m = n"
proof (induction m arbitrary: n rule: dec_nat.induct)
  case (1 m)
  show ?case
  proof (cases "m < 10"; cases "n < 10")
    assume "m < 10" "n < 10"
    then show ?thesis using "1.prems" by (simp add: dec_nat.simps [of m] dec_nat.simps [of n] inj_digit)
  next
    assume "m < 10" "\<not> n < 10"
    then show ?thesis using "1.prems" dec_nat_not_Nil [of "n div 10"]
      by (simp add: dec_nat.simps [of m] dec_nat.simps [of n])
  next
    assume "\<not> m < 10" "n < 10"
    then show ?thesis using "1.prems" dec_nat_not_Nil [of "m div 10"]
      by (simp add: dec_nat.simps [of m] dec_nat.simps [of n])
  next
    assume b: "\<not> m < 10" "\<not> n < 10"
    then have "dec_nat (m div 10) = dec_nat (n div 10)" "digit (m mod 10) = digit (n mod 10)"
      using "1.prems" by (simp_all add: dec_nat.simps [of m] dec_nat.simps [of n])
    then have "m div 10 = n div 10" "m mod 10 = n mod 10"
      using "1.IH" b inj_digit [of "m mod 10" "n mod 10"] by auto
    then show ?thesis by (metis mult_div_mod_eq)
  qed
qed

lemma digit_not_minus: "n < 10 \<Longrightarrow> digit n \<noteq> CHR ''-''"
  unfolding digit_def by (rule notI, drule arg_cong [of _ _ "of_char :: char \<Rightarrow> nat"]) simp

lemma hd_dec_nat: "hd (dec_nat n) \<noteq> CHR ''-''"
proof (induction n rule: dec_nat.induct)
  case (1 n)
  then show ?case
    using dec_nat_not_Nil [of "n div 10"] by (subst dec_nat.simps) (simp add: digit_not_minus)
qed

lemma minus_not_dec [simp]: "CHR ''-'' # cs \<noteq> dec_nat n" "dec_nat n \<noteq> CHR ''-'' # cs"
  using hd_dec_nat [of n] by (metis list.sel(1))+

lemma dec_inj [simp]: "dec i = dec j \<longleftrightarrow> i = j"
proof
  assume "dec i = dec j"
  then show "i = j"
    using dec_nat_inj [of "nat i" "nat j"]
      dec_nat_inj [of "nat (- i)" "nat (- j)"]
    by (auto simp: dec_def split: if_splits)
qed simp

end
