(* ===== verification/Streams.thy ===== *)
theory Streams
  imports Ckpt
begin

text \<open>
  What the staging of checkpoints uses of the input streams of C++ and of sscanf: opening a file,
  reading all of it through the buffer, closing, getline, and the conversion \<open>%zu\<close>. An operation
  on a stream in a failed state reads nothing and leaves its arguments as they are.
\<close>

section \<open>Input streams\<close>

text \<open>
  The file buffer holds what is left to read, \<open>None\<close> when it is not open; \<open>is_good\<close> says that no
  error bit is set.
\<close>

record ifstream =
  is_buf :: "string option"
  is_good :: bool

text \<open>A file that cannot be opened leaves the buffer closed and sets the failbit.\<close>

definition open_ifstream :: "string option \<Rightarrow> ifstream" where
  "open_ifstream content = \<lparr>is_buf = content, is_good = (content \<noteq> None)\<rparr>"

text \<open>
  istreambuf\_iterator reads from the buffer and sets no bit; a closed buffer is at its end.
\<close>

definition read_all :: "ifstream \<Rightarrow> string \<times> ifstream" where
  "read_all st = (case is_buf st of None \<Rightarrow> ([], st) | Some s \<Rightarrow> (s, st\<lparr>is_buf := Some []\<rparr>))"

text \<open>close sets the failbit only when the buffer was not open.\<close>

definition close_ifstream :: "ifstream \<Rightarrow> ifstream" where
  "close_ifstream st = (case is_buf st of None \<Rightarrow> st\<lparr>is_good := False\<rparr> | Some _ \<Rightarrow> st\<lparr>is_buf := None\<rparr>)"

text \<open>
  getline: on a stream that is not good the string stays as it is. Otherwise it gets the characters
  before the next newline, which is taken too; without one the end of the file is met and the
  stream is no longer good.
\<close>

definition getline :: "ifstream \<Rightarrow> string \<Rightarrow> string \<times> ifstream" where
  "getline st str =
     (if \<not> is_good st then (str, st)
      else let s = (case is_buf st of None \<Rightarrow> [] | Some s \<Rightarrow> s) in
        if CHR 0x0A \<in> set s
        then (takeWhile (\<lambda>ch. ch \<noteq> CHR 0x0A) s,
              st\<lparr>is_buf := map_option (\<lambda>_. tl (dropWhile (\<lambda>ch. ch \<noteq> CHR 0x0A) s)) (is_buf st)\<rparr>)
        else (s, st\<lparr>is_buf := map_option (\<lambda>_. []) (is_buf st), is_good := False\<rparr>))"

lemma getline_closed:
  "is_buf st = None \<Longrightarrow> getline st [] = ([], st\<lparr>is_good := False\<rparr>)"
  by (auto simp: getline_def)

lemma getline_open:
  "CHR 0x0A \<notin> set line \<Longrightarrow>
     getline \<lparr>is_buf = Some (line @ CHR 0x0A # rest), is_good = True\<rparr> str =
       (line, \<lparr>is_buf = Some rest, is_good = True\<rparr>)"
  by (induction line) (auto simp: getline_def Let_def)

section \<open>The conversion of a size\<close>

definition is_space :: "char \<Rightarrow> bool" where
  "is_space ch \<longleftrightarrow> of_char ch \<in> {9, 10, 11, 12, 13, 32 :: nat}"

definition is_digit :: "char \<Rightarrow> bool" where
  "is_digit x \<longleftrightarrow> x \<in> set ''0123456789''"

definition digits_value :: "string \<Rightarrow> nat" where
  "digits_value s = foldl (\<lambda>n x. n * 10 + (of_char x - 48)) 0 s"

text \<open>
  sscanf of \<open>%zu\<close> into a variable that holds \<open>v\<close>: spaces, a sign and digits as strtoul reads them.
  Without a digit nothing is assigned; a number too large saturates, a negative one wraps.
\<close>

definition sscanf_zu :: "string \<Rightarrow> nat \<Rightarrow> nat" where
  "sscanf_zu s v =
     (let s = dropWhile is_space s;
          negative = (s \<noteq> [] \<and> hd s = CHR ''-'');
          s = (if s \<noteq> [] \<and> (hd s = CHR ''-'' \<or> hd s = CHR ''+'') then tl s else s);
          ds = takeWhile is_digit s; n = digits_value ds
      in if ds = [] then v
         else if 2 ^ 64 \<le> n then 2 ^ 64 - 1
         else if negative then (2 ^ 64 - n) mod 2 ^ 64 else n)"

lemma sscanf_nothing [simp]: "sscanf_zu [] v = v"
  by (simp add: sscanf_zu_def)

lemma digit_code: "n < 10 \<Longrightarrow> of_char (digit n) = (48 + n :: nat)"
  by (simp add: digit_def)

lemma is_digit_digit: "n < 10 \<Longrightarrow> is_digit (digit n)"
proof -
  have "\<forall>n \<in> set [0..<10]. is_digit (digit n)" by code_simp
  then show "n < 10 \<Longrightarrow> is_digit (digit n)" by simp
qed

lemma not_digits: "\<not> is_digit CHR 0x0A" "is_digit ch \<Longrightarrow> \<not> is_space ch \<and> ch \<noteq> CHR ''-'' \<and> ch \<noteq> CHR ''+''"
  by (auto simp: is_digit_def is_space_def)

lemma dec_nat_digits: "\<forall>ch \<in> set (dec_nat n). is_digit ch"
proof (induction n rule: dec_nat.induct)
  case (1 n)
  then show ?case by (subst dec_nat.simps) (simp add: is_digit_digit)
qed

lemma digits_value_dec: "digits_value (dec_nat n) = n"
proof (induction n rule: dec_nat.induct)
  case (1 n)
  then show ?case
    by (subst dec_nat.simps) (auto simp: digits_value_def digit_code)
qed

lemma sscanf_dec:
  assumes "n < 2 ^ 64"
  shows "sscanf_zu (dec (int n)) v = n"
proof -
  obtain ch cs where d: "dec_nat n = ch # cs" using dec_nat_not_Nil [of n] by (cases "dec_nat n") auto
  have "is_digit ch" using dec_nat_digits [of n] d by simp
  then have "\<not> is_space ch" "ch \<noteq> CHR ''-''" "ch \<noteq> CHR ''+''" using not_digits by blast+
  moreover have "takeWhile is_digit (ch # cs) = ch # cs"
    using dec_nat_digits [of n] unfolding d by (simp add: takeWhile_eq_all_conv)
  ultimately show ?thesis
    using assms digits_value_dec [of n] unfolding dec_def d by (simp add: sscanf_zu_def d Let_def)
qed

text \<open>Copying lines from a stream, each followed by a newline.\<close>

fun copy_lines :: "nat \<Rightarrow> ifstream \<Rightarrow> string \<Rightarrow> string \<times> ifstream" where
  "copy_lines 0 st acc = (acc, st)"
| "copy_lines (Suc n) st acc =
     (case getline st [] of (str, st) \<Rightarrow> copy_lines n st (acc @ str @ [CHR 0x0A]))"

lemma copy_lines_closed:
  "is_buf st = None \<Longrightarrow> \<exists>st'. copy_lines n st acc = (acc @ replicate n (CHR 0x0A), st') \<and> is_buf st' = None"
proof (induction n arbitrary: st acc)
  case (Suc n)
  have "is_buf (st\<lparr>is_good := False\<rparr>) = None" using Suc.prems by simp
  from Suc.IH [OF this, of "acc @ [CHR 0x0A]"] show ?case
    using Suc.prems by (auto simp: getline_closed)
qed simp

lemma copy_lines_open:
  "\<forall>line \<in> set lines. CHR 0x0A \<notin> set line \<Longrightarrow>
     copy_lines (length lines) \<lparr>is_buf = Some (concat (map (\<lambda>line. line @ [CHR 0x0A]) lines) @ rest), is_good = True\<rparr> acc =
       (acc @ concat (map (\<lambda>line. line @ [CHR 0x0A]) lines), \<lparr>is_buf = Some rest, is_good = True\<rparr>)"
proof (induction lines arbitrary: acc)
  case (Cons line lines)
  then show ?case
    using getline_open [of line "concat (map (\<lambda>line. line @ [CHR 0x0A]) lines) @ rest"] by simp
qed simp

end
