(* ===== verification/Files.thy ===== *)
theory Files
  imports Prelude
begin

text \<open>
  The POSIX calls the storage controller makes, on a file system that maps paths to directories
  and regular files: stat, mkdir, rename, the recursive removal by nftw, and reading and writing
  whole files. A path is the list of its components.
\<close>

type_synonym path = "string list"

datatype node = Directory | Regular string

type_synonym fs = "(path \<times> node) list"

definition entry :: "path \<Rightarrow> fs \<Rightarrow> node option" where
  "entry p f = map_of f p"

definition below :: "path \<Rightarrow> path \<Rightarrow> bool" where
  "below d p \<longleftrightarrow> take (length d) p = d"

text \<open>The result of stat: 0 or -1.\<close>

definition stat_path :: "path \<Rightarrow> fs \<Rightarrow> int" where
  "stat_path p f = (if entry p f = None then -1 else 0)"

definition parent_exists :: "path \<Rightarrow> fs \<Rightarrow> bool" where
  "parent_exists p f \<longleftrightarrow> entry (butlast p) f = Some Directory"

definition mkdir_path :: "path \<Rightarrow> fs \<Rightarrow> fs option" where
  "mkdir_path p f = (if entry p f \<noteq> None \<or> \<not> parent_exists p f then None else Some ((p, Directory) # f))"

definition empty_dir :: "path \<Rightarrow> fs \<Rightarrow> bool" where
  "empty_dir d f \<longleftrightarrow> entry d f = Some Directory \<and> (\<forall>(p, _) \<in> set f. below d p \<longrightarrow> p = d)"

text \<open>Renaming a directory moves what is below it; the target must be free or an empty directory.\<close>

definition moved :: "path \<Rightarrow> path \<Rightarrow> path \<Rightarrow> path" where
  "moved old new p = (if below old p then new @ drop (length old) p else p)"

definition rename_dir :: "path \<Rightarrow> path \<Rightarrow> fs \<Rightarrow> fs option" where
  "rename_dir old new f =
     (if entry old f \<noteq> Some Directory \<or> below old new \<or> \<not> (entry new f = None \<or> empty_dir new f) \<or>
         \<not> parent_exists new f then None
      else Some (map (\<lambda>(p, n). (moved old new p, n)) (filter (\<lambda>(p, _). p \<noteq> new) f)))"

definition remove_tree :: "path \<Rightarrow> fs \<Rightarrow> fs option" where
  "remove_tree d f = (if entry d f = None then None else Some (filter (\<lambda>(p, _). \<not> below d p) f))"

definition read_file :: "path \<Rightarrow> fs \<Rightarrow> string option" where
  "read_file p f = (case entry p f of Some (Regular c) \<Rightarrow> Some c | _ \<Rightarrow> None)"

text \<open>Opening for writing: the file is created, or opened if it is there.\<close>

definition can_write :: "path \<Rightarrow> fs \<Rightarrow> bool" where
  "can_write p f \<longleftrightarrow> parent_exists p f \<and> entry p f \<noteq> Some Directory"

definition write_file :: "path \<Rightarrow> string \<Rightarrow> fs \<Rightarrow> fs" where
  "write_file p c f = (if can_write p f then (p, Regular c) # filter (\<lambda>(q, _). q \<noteq> p) f else f)"

section \<open>Lookups\<close>

definition fs_wf :: "fs \<Rightarrow> bool" where
  "fs_wf f \<longleftrightarrow> distinct (map fst f) \<and> (\<forall>(p, _) \<in> set f. p = [] \<or> entry (butlast p) f = Some Directory)"

lemma entry_Cons [simp]: "entry q ((p, n) # f) = (if q = p then Some n else entry q f)"
  by (simp add: entry_def)

lemma entry_Nil [simp]: "entry q [] = None"
  by (simp add: entry_def)

lemma entry_filter: "entry q (filter (\<lambda>(p, _). P p) f) = (if P q then entry q f else None)"
  by (induction f) (auto simp: entry_def)

lemma entry_in: "fs_wf f \<Longrightarrow> entry p f = Some n \<longleftrightarrow> (p, n) \<in> set f"
  by (simp add: entry_def fs_wf_def)

lemma entry_None: "entry p f = None \<longleftrightarrow> p \<notin> fst ` set f"
  by (simp add: entry_def map_of_eq_None_iff)

lemma stat_path_simps [simp]: "stat_path p f = -1 \<longleftrightarrow> entry p f = None"
  by (simp add: stat_path_def)

lemma below_refl [simp]: "below d d" "below d (d @ r)"
  by (simp_all add: below_def)

lemma below_iff: "below d p \<longleftrightarrow> (\<exists>r. p = d @ r)"
  unfolding below_def by (metis append_eq_conv_conj append_take_drop_id)

lemma entry_parent: "fs_wf f \<Longrightarrow> entry p f = Some n \<Longrightarrow> p \<noteq> [] \<Longrightarrow> entry (butlast p) f = Some Directory"
  using entry_in [of f p n] by (auto simp: fs_wf_def)

lemma parent_None: "fs_wf f \<Longrightarrow> entry (butlast p) f = None \<Longrightarrow> p \<noteq> [] \<Longrightarrow> entry p f = None"
  using entry_parent [of f p] by (cases "entry p f") auto

text \<open>Nothing exists below a path that does not exist.\<close>

lemma below_None:
  assumes "fs_wf f" "entry d f = None"
  shows "entry (d @ r) f = None"
proof (induction r rule: rev_induct)
  case (snoc x r)
  then show ?case using parent_None [OF assms(1), of "d @ r @ [x]"] by (simp add: butlast_append)
qed (simp add: assms(2))

lemma entry_mkdir: "mkdir_path p f = Some f' \<Longrightarrow> entry q f' = (if q = p then Some Directory else entry q f)"
  by (auto simp: mkdir_path_def split: if_splits)

lemma fs_wf_mkdir: "mkdir_path p f = Some f' \<Longrightarrow> fs_wf f \<Longrightarrow> fs_wf f'"
  by (fastforce simp: mkdir_path_def fs_wf_def parent_exists_def entry_None split: if_splits)

lemma entry_write: "entry q (write_file p c f) = (if q = p \<and> can_write p f then Some (Regular c) else entry q f)"
  by (simp add: write_file_def entry_filter)

lemma fs_wf_write:
  assumes "fs_wf f"
  shows "fs_wf (write_file p c f)"
proof (cases "can_write p f")
  case True
  have "distinct (map fst (write_file p c f))"
    using assms True by (auto simp: write_file_def fs_wf_def distinct_map_filter)
  moreover have "entry (butlast q) (write_file p c f) = Some Directory"
    if "(q, n) \<in> set (write_file p c f)" "q \<noteq> []" for q n
  proof -
    have "entry (butlast q) f = Some Directory"
      using that assms True by (auto simp: write_file_def fs_wf_def can_write_def parent_exists_def)
    then show ?thesis using True by (auto simp: entry_write can_write_def)
  qed
  ultimately show ?thesis by (auto simp: fs_wf_def)
qed (simp add: assms write_file_def)

text \<open>A rename, seen through lookups.\<close>

lemma not_below_butlast: "\<not> below old new \<Longrightarrow> \<not> below old (butlast new)"
  unfolding below_iff by (metis append_assoc append_butlast_last_id butlast.simps(1))

definition renames :: "path \<Rightarrow> path \<Rightarrow> fs \<Rightarrow> fs \<Rightarrow> bool" where
  "renames old new f f' \<longleftrightarrow> fs_wf f \<and> rename_dir old new f = Some f'"

lemma renamesD:
  assumes "renames old new f f'"
  shows "fs_wf f" "entry old f = Some Directory" "\<not> below old new" "parent_exists new f"
    "entry new f = None \<or> empty_dir new f"
    "f' = map (\<lambda>(p, n). (moved old new p, n)) (filter (\<lambda>(p, _). p \<noteq> new) f)"
  using assms by (simp_all add: renames_def rename_dir_def split: if_splits)

lemma target_free:
  assumes r: "renames old new f f'" and p: "p \<in> fst ` set f" "below new p"
  shows "p = new"
proof -
  show "p = new"
    using renamesD(5) [OF r]
  proof
    assume "entry new f = None"
    then have "entry p f = None" using below_None [OF renamesD(1) [OF r]] p(2) by (auto simp: below_iff)
    with p(1) show ?thesis by (simp add: entry_None)
  next
    assume "empty_dir new f"
    with p show ?thesis by (auto simp: empty_dir_def)
  qed
qed

lemma moved_below:
  "renames old new f f' \<Longrightarrow> p \<in> fst ` set f \<Longrightarrow> p \<noteq> new \<Longrightarrow> below new (moved old new p) \<longleftrightarrow> below old p"
  using target_free [of old new f f' p] by (auto simp: moved_def)

lemma moved_inj:
  assumes r: "renames old new f f'" and "p \<in> fst ` set f" "q \<in> fst ` set f" "p \<noteq> new" "q \<noteq> new"
    and eq: "moved old new p = moved old new q"
  shows "p = q"
proof (cases "below old p")
  case True
  then have "below old q" using assms moved_below [OF r] by metis
  with True eq show ?thesis by (auto simp: moved_def below_iff)
next
  case False
  then have "\<not> below old q" using assms moved_below [OF r] by metis
  with False eq show ?thesis by (simp add: moved_def)
qed

lemma keys_distinct:
  assumes r: "renames old new f f'"
  shows "distinct (map fst f')"
proof -
  have "map fst f' = map (moved old new) (filter (\<lambda>p. p \<noteq> new) (map fst f))"
    by (simp add: renamesD(6) [OF r] comp_def split_def filter_map)
  moreover have "inj_on (moved old new) (set (filter (\<lambda>p. p \<noteq> new) (map fst f)))"
    by (rule inj_onI) (auto intro: moved_inj [OF r])
  ultimately show ?thesis using renamesD(1) [OF r] by (simp add: distinct_map fs_wf_def)
qed

lemma entry_result:
  assumes r: "renames old new f f'"
  shows "entry q f' = Some n \<longleftrightarrow> (\<exists>p. (p, n) \<in> set f \<and> p \<noteq> new \<and> moved old new p = q)"
proof -
  have "entry q f' = Some n \<longleftrightarrow> (q, n) \<in> set f'" using keys_distinct [OF r] by (simp add: entry_def)
  also have "\<dots> \<longleftrightarrow> (\<exists>p. (p, n) \<in> set f \<and> p \<noteq> new \<and> moved old new p = q)" by (force simp: renamesD(6) [OF r])
  finally show ?thesis .
qed

lemma entry_renamed:
  assumes r: "renames old new f f'"
  shows "entry q f' = (if below new q then entry (old @ drop (length new) q) f else if below old q then None else entry q f)"
proof -
  have "entry q f' = Some n \<longleftrightarrow>
      (if below new q then entry (old @ drop (length new) q) f else if below old q then None else entry q f) = Some n" for n
  proof (cases "below new q")
    case True
    then obtain rest where q: "q = new @ rest" by (auto simp: below_iff)
    have "(\<exists>p. (p, n) \<in> set f \<and> p \<noteq> new \<and> moved old new p = q) \<longleftrightarrow> (old @ rest, n) \<in> set f"
    proof
      assume "\<exists>p. (p, n) \<in> set f \<and> p \<noteq> new \<and> moved old new p = q"
      then obtain p where p: "(p, n) \<in> set f" "p \<noteq> new" "moved old new p = q" by blast
      then have "below old p" using moved_below [OF r, of p] q by force
      then have "p = old @ rest" using p(3) q by (auto simp: moved_def below_iff)
      with p(1) show "(old @ rest, n) \<in> set f" by simp
    next
      assume "(old @ rest, n) \<in> set f"
      moreover have "old @ rest \<noteq> new" using renamesD(3) [OF r] by (auto simp: below_iff)
      ultimately show "\<exists>p. (p, n) \<in> set f \<and> p \<noteq> new \<and> moved old new p = q"
        by (intro exI [of _ "old @ rest"]) (simp add: moved_def q)
    qed
    with True q show ?thesis unfolding entry_result [OF r] by (simp add: entry_in [OF renamesD(1) [OF r]])
  next
    case False
    have "(\<exists>p. (p, n) \<in> set f \<and> p \<noteq> new \<and> moved old new p = q) \<longleftrightarrow> \<not> below old q \<and> (q, n) \<in> set f"
    proof
      assume "\<exists>p. (p, n) \<in> set f \<and> p \<noteq> new \<and> moved old new p = q"
      then obtain p where p: "(p, n) \<in> set f" "p \<noteq> new" "moved old new p = q" by blast
      then have "\<not> below old p" using moved_below [OF r, of p] False by force
      with p show "\<not> below old q \<and> (q, n) \<in> set f" by (auto simp: moved_def)
    next
      assume "\<not> below old q \<and> (q, n) \<in> set f"
      with False show "\<exists>p. (p, n) \<in> set f \<and> p \<noteq> new \<and> moved old new p = q"
        by (intro exI [of _ q]) (auto simp: moved_def)
    qed
    with False show ?thesis unfolding entry_result [OF r] by (simp add: entry_in [OF renamesD(1) [OF r]])
  qed
  then show ?thesis by (metis option.exhaust)
qed

lemma fs_wf_renamed:
  assumes r: "renames old new f f'"
  shows "fs_wf f'"
proof -
  have "entry (butlast q) f' = Some Directory" if "entry q f' = Some n" "q \<noteq> []" for q n
  proof (cases "below new q")
    case True
    then obtain rest where q: "q = new @ rest" by (auto simp: below_iff)
    show ?thesis
    proof (cases "rest = []")
      case True
      have "new \<noteq> []" using q that(2) True by simp
      then have "\<not> below new (butlast new)" by (simp add: below_def) (metis length_butlast diff_less length_greater_0_conv
            less_not_refl zero_less_one length_take min_less_iff_conj nat_less_le take_all linorder_not_le)
      then show ?thesis using q True renamesD(4) [OF r] not_below_butlast [OF renamesD(3) [OF r]]
        by (simp add: entry_renamed [OF r] parent_exists_def)
    next
      case False
      then have "entry (old @ rest) f = Some n" using that(1) q by (simp add: entry_renamed [OF r])
      then have "entry (butlast (old @ rest)) f = Some Directory" using entry_parent [OF renamesD(1) [OF r]] False by blast
      then show ?thesis using q False by (simp add: entry_renamed [OF r] butlast_append)
    qed
  next
    case False
    then have e: "entry q f = Some n" "\<not> below old q" using that(1) by (simp_all add: entry_renamed [OF r] split: if_splits)
    have "entry (butlast q) f = Some Directory" using entry_parent [OF renamesD(1) [OF r] e(1) that(2)] .
    moreover have "\<not> below new (butlast q)" using not_below_butlast [OF False] .
    moreover have "\<not> below old (butlast q)" using not_below_butlast [OF e(2)] .
    ultimately show ?thesis by (simp add: entry_renamed [OF r])
  qed
  then show ?thesis using keys_distinct [OF r] unfolding fs_wf_def by (auto simp: entry_def)
qed

end
