(* ===== verification/Staging.thy ===== *)
theory Staging
  imports Streams Files
begin

text \<open>
  The checkpoint files of the peer-to-peer mode (fti\_controller.cxx): moving a state between the
  local storage of a runner (level 1) and the global file system (level 2). The functions of the
  FTI library are parameters, fields of a record; they work on the file system and on a state
  \<open>'f\<close> of the library.
\<close>

section \<open>The library and the configuration\<close>

type_synonym 'f world = "fs \<times> 'f"

record 'f fti_lib =
  fti_stat_local :: "int \<Rightarrow> 'f world \<Rightarrow> bool"
  fti_stat_global :: "int \<Rightarrow> 'f world \<Rightarrow> bool"
  fti_update_ckpt_metadata :: "int \<Rightarrow> int \<Rightarrow> 'f world \<Rightarrow> bool \<times> 'f world"
  fti_remove_ckpt_metadata :: "int \<Rightarrow> int \<Rightarrow> 'f world \<Rightarrow> bool \<times> 'f world"
  fti_remove :: "int \<Rightarrow> int \<Rightarrow> 'f world \<Rightarrow> bool \<times> 'f world"

text \<open>
  What init\_core read from FTI, the sizes of the application processes of the node, and the
  rank used for messages. \<open>app_body\<close> holds the process numbers of topo.body.
\<close>

record fti_conf =
  global_dir :: path
  local_dir :: path
  meta_dir :: path
  exec_id :: string
  ckpt_suffix :: string
  master_global :: bool
  group_rank :: int
  sector_id :: int
  app_body :: "int list"
  proc_sizes :: "nat list"
  io_rank :: int

datatype io_level = IO_STORAGE_L1 | IO_STORAGE_L2 | IO_STORAGE_L3 | IO_STORAGE_L4

text \<open>The level map of init\_core: FTI\_L1 and FTI\_L4.\<close>

definition fti_level :: "io_level \<Rightarrow> int option" where
  "fti_level l = (case l of IO_STORAGE_L1 \<Rightarrow> Some 1 | IO_STORAGE_L2 \<Rightarrow> Some 4 | _ \<Rightarrow> None)"

definition IO_TRANSFER_SIZE :: nat where
  "IO_TRANSFER_SIZE = 1048576"

definition io_try :: "bool \<Rightarrow> 'b res \<Rightarrow> 'b res" where
  "io_try b k = (if b then k else Inl Io_exception)"

section \<open>Metadata\<close>

definition update_metadata :: "'f fti_lib \<Rightarrow> int \<Rightarrow> io_level \<Rightarrow> 'f world \<Rightarrow> 'f world res" where
  "update_metadata lib cid level w =
     (case fti_update_ckpt_metadata lib cid (case fti_level level of Some l \<Rightarrow> l | None \<Rightarrow> 0) w of
        (ok, w') \<Rightarrow> io_try ok (Inr w'))"

definition is_local :: "'f fti_lib \<Rightarrow> io_state_id \<Rightarrow> 'f world \<Rightarrow> bool res" where
  "is_local lib s w = and_then (to_ckpt_id s) (\<lambda>cid. Inr (fti_stat_local lib cid w))"

definition is_global :: "'f fti_lib \<Rightarrow> io_state_id \<Rightarrow> 'f world \<Rightarrow> bool res" where
  "is_global lib s w = and_then (to_ckpt_id s) (\<lambda>cid. Inr (fti_stat_global lib cid w))"

definition io_remove :: "'f fti_lib \<Rightarrow> fti_conf \<Rightarrow> io_state_id \<Rightarrow> io_level \<Rightarrow> 'f world \<Rightarrow> 'f world res" where
  "io_remove lib c s level w =
     (case level of
        IO_STORAGE_L1 \<Rightarrow>
          and_then (to_ckpt_id s) (\<lambda>cid. case fti_remove lib cid 1 w of (ok, w') \<Rightarrow> io_try ok (Inr w'))
      | IO_STORAGE_L2 \<Rightarrow>
          if \<not> master_global c then Inr w
          else
            and_then (to_ckpt_id s) (\<lambda>cid.
            and_then (case remove_tree (global_dir c @ [dec cid]) (fst w) of
                        None \<Rightarrow> merr (io_rank c) (Inr (fst w))
                      | Some f \<Rightarrow> Inr f) (\<lambda>f.
            case fti_remove_ckpt_metadata lib cid 4 (f, snd w) of (ok, w') \<Rightarrow> io_try ok (Inr w')))
      | _ \<Rightarrow> Inr w)"

section \<open>File names\<close>

definition l2_ckpt :: "fti_conf \<Rightarrow> int \<Rightarrow> path" where
  "l2_ckpt c cid = global_dir c @ [dec cid]"

definition l1_base :: "fti_conf \<Rightarrow> path" where
  "l1_base c = local_dir c @ [exec_id c]"

definition l1_meta_base :: "fti_conf \<Rightarrow> path" where
  "l1_meta_base c = meta_dir c @ [exec_id c]"

definition l1_ckpt :: "fti_conf \<Rightarrow> int \<Rightarrow> path" where
  "l1_ckpt c cid = l1_base c @ [''l1'', dec cid]"

definition l1_meta_ckpt :: "fti_conf \<Rightarrow> int \<Rightarrow> path" where
  "l1_meta_ckpt c cid = l1_meta_base c @ [''l1'', dec cid]"

definition serialized_file :: "string \<Rightarrow> int \<Rightarrow> string" where
  "serialized_file kind cid = kind @ dec cid @ ''-serialized.fti''"

definition rank_file :: "int \<Rightarrow> int \<Rightarrow> string \<Rightarrow> string" where
  "rank_file cid proc suffix = ''Ckpt'' @ dec cid @ ''-Rank'' @ dec proc @ ''.'' @ suffix"

definition group_file :: "fti_conf \<Rightarrow> nat \<Rightarrow> string" where
  "group_file c i = ''sector'' @ dec (sector_id c) @ ''-group'' @ dec (int i + 1) @ ''.fti''"

definition filelist_local :: "fti_conf \<Rightarrow> io_state_id \<Rightarrow> path list res" where
  "filelist_local c s =
     and_then (to_ckpt_id s) (\<lambda>cid.
     Inr (map (\<lambda>proc. l1_ckpt c cid @ [rank_file cid proc (ckpt_suffix c)]) (app_body c)))"

section \<open>From the node to the global file system\<close>

definition read_at :: "nat \<Rightarrow> nat \<Rightarrow> string option \<Rightarrow> string option" where
  "read_at pos n src =
     (case src of None \<Rightarrow> None | Some s \<Rightarrow> if length s < pos + n then None else Some (subvec pos n s))"

definition block_size :: "nat \<Rightarrow> nat \<Rightarrow> nat" where
  "block_size n pos = (if n - pos < IO_TRANSFER_SIZE then n - pos else IO_TRANSFER_SIZE)"

lemma block_size_pos: "pos < n \<Longrightarrow> 0 < block_size n pos \<and> pos + block_size n pos \<le> n"
  by (auto simp: block_size_def IO_TRANSFER_SIZE_def)

text \<open>
  The copy loops; a file that could not be opened is \<open>None\<close>. After a short read the first one
  goes on with the bytes of a buffer that was never initialised.
\<close>

function push_copy :: "int \<Rightarrow> nat \<Rightarrow> nat \<Rightarrow> string option \<Rightarrow> string option \<Rightarrow> string option res" where
  "push_copy rank pos n src dst =
     (if pos < n then
        (case read_at pos (block_size n pos) src of
           None \<Rightarrow> merr rank (Inl Undefined_behaviour)
         | Some block \<Rightarrow>
             (case dst of
                None \<Rightarrow> merr rank (push_copy rank (pos + block_size n pos) n src None)
              | Some written \<Rightarrow> push_copy rank (pos + block_size n pos) n src (Some (written @ block))))
      else Inr dst)"
  by pat_completeness auto

termination
  by (relation "measure (\<lambda>(rank, pos, n, src, dst). n - pos)") (use block_size_pos in fastforce)+

declare push_copy.simps [simp del]

definition count_lines :: "string \<Rightarrow> nat" where
  "count_lines s = length (filter (\<lambda>ch. ch = CHR 0x0A) s)"

definition meta_block :: "string \<Rightarrow> string" where
  "meta_block s = dec (int (count_lines s)) @ [CHR 0x0A] @ s"

definition push_proc :: "fti_conf \<Rightarrow> int \<Rightarrow> fs \<Rightarrow> nat \<times> int \<Rightarrow> string option \<times> string option \<Rightarrow>
    (string option \<times> string option) res" where
  "push_proc c cid f ip gm =
     (case ip of (i, proc) \<Rightarrow> case gm of (g, m) \<Rightarrow>
        if length (proc_sizes c) \<le> i then Inl Undefined_behaviour
        else
          and_then (push_copy (io_rank c) 0 (proc_sizes c ! i)
                     (read_file (l1_ckpt c cid @ [rank_file cid proc ''fti'']) f) g) (\<lambda>g.
          let str = (case read_file (l1_meta_ckpt c cid @ [group_file c i]) f of None \<Rightarrow> [] | Some s \<Rightarrow> s)
          in Inr (g, if group_rank c = 0 then map_option (\<lambda>m. m @ meta_block str) m else m)))"

fun push_procs :: "fti_conf \<Rightarrow> int \<Rightarrow> fs \<Rightarrow> (nat \<times> int) list \<Rightarrow> string option \<times> string option \<Rightarrow>
    (string option \<times> string option) res" where
  "push_procs c cid f [] gm = Inr gm"
| "push_procs c cid f (ip # ips) gm = and_then (push_proc c cid f ip gm) (push_procs c cid f ips)"

text \<open>Opening without truncation keeps what is behind the bytes written.\<close>

definition save_over :: "path \<Rightarrow> string option \<Rightarrow> fs \<Rightarrow> fs" where
  "save_over p content f =
     (case content of
        None \<Rightarrow> f
      | Some s \<Rightarrow> write_file p (s @ drop (length s) (case read_file p f of None \<Rightarrow> [] | Some old \<Rightarrow> old)) f)"

definition save :: "path \<Rightarrow> string option \<Rightarrow> fs \<Rightarrow> fs" where
  "save p content f = (case content of None \<Rightarrow> f | Some s \<Rightarrow> write_file p s f)"

definition open_write :: "path \<Rightarrow> fs \<Rightarrow> string option" where
  "open_write p f = (if can_write p f then Some [] else None)"

definition master_mkdir :: "fti_conf \<Rightarrow> path \<Rightarrow> fs \<Rightarrow> fs res" where
  "master_mkdir c p f =
     (if master_global c then (case mkdir_path p f of None \<Rightarrow> Inl Io_exception | Some f' \<Rightarrow> Inr f')
      else Inr f)"

definition try_rename :: "path \<Rightarrow> path \<Rightarrow> fs \<Rightarrow> fs res" where
  "try_rename old new f = (case rename_dir old new f of None \<Rightarrow> Inl Io_exception | Some f' \<Rightarrow> Inr f')"

definition stage_l1l2 :: "'f fti_lib \<Rightarrow> fti_conf \<Rightarrow> int \<Rightarrow> path \<Rightarrow> 'f world \<Rightarrow> 'f world res" where
  "stage_l1l2 lib c cid tmp w =
     (let f = fst w; x = snd w; ckpt = l2_ckpt c cid;
          gfn = tmp @ [serialized_file ''Ckpt'' cid]; mfn = tmp @ [serialized_file ''Meta'' cid]
      in io_try (stat_path ckpt f = -1)
          (io_try (stat_path tmp f = -1)
            (and_then (master_mkdir c tmp f) (\<lambda>f.
             and_then (push_procs c cid f (enumerate 0 (app_body c)) (open_write gfn f, open_write mfn f)) (\<lambda>(g, m).
             let f = save mfn m (save_over gfn g f)
             in if master_global c
                then and_then (try_rename tmp ckpt f) (\<lambda>f. update_metadata lib cid IO_STORAGE_L2 (f, x))
                else Inr (f, x))))))"

section \<open>And back\<close>

text \<open>An error ends the function: the result tells whether the copy was completed.\<close>

function pull_copy :: "int \<Rightarrow> nat \<Rightarrow> nat \<Rightarrow> nat \<Rightarrow> string option \<Rightarrow> string option \<Rightarrow> (bool \<times> string option) res" where
  "pull_copy rank base pos n src dst =
     (if pos < n then
        (case read_at (base + pos) (block_size n pos) src of
           None \<Rightarrow> merr rank (Inr (False, dst))
         | Some block \<Rightarrow>
             (case dst of
                None \<Rightarrow> merr rank (Inr (False, None))
              | Some written \<Rightarrow> pull_copy rank base (pos + block_size n pos) n src (Some (written @ block))))
      else Inr (True, dst))"
  by pat_completeness auto

termination
  by (relation "measure (\<lambda>(rank, base, pos, n, src, dst). n - pos)") (use block_size_pos in fastforce)+

declare pull_copy.simps [simp del]

text \<open>
  A metadata file of the node is read from the stream of the global one: the number of lines, then
  the lines. \<open>indet i\<close> is what the variable for the number holds before sscanf, which the code
  leaves uninitialised: it may be any value, and decides where sscanf assigns nothing. (Reading it
  is undefined in C++; the model is that of compiled code that reads some value.)
\<close>

definition restored_meta :: "(nat \<Rightarrow> nat) \<Rightarrow> nat \<Rightarrow> ifstream \<Rightarrow> string \<times> ifstream" where
  "restored_meta indet i metafs =
     (case getline metafs [] of (count_str, metafs) \<Rightarrow>
        copy_lines (sscanf_zu count_str (indet i)) metafs [])"

definition pull_proc ::
  "(nat \<Rightarrow> nat) \<Rightarrow> fti_conf \<Rightarrow> int \<Rightarrow> string option \<Rightarrow> path \<Rightarrow> path \<Rightarrow> nat \<times> int \<Rightarrow>
     nat \<times> ifstream \<times> fs \<Rightarrow> (bool \<times> nat \<times> ifstream \<times> fs) res" where
  "pull_proc indet c cid src tmp meta_tmp ip pf =
     (case ip of (i, proc) \<Rightarrow> case pf of (base, metafs, f) \<Rightarrow>
        if length (proc_sizes c) \<le> i then Inl Undefined_behaviour
        else
          let n = proc_sizes c ! i; lfn = tmp @ [rank_file cid proc ''fti''] in
          and_then (pull_copy (io_rank c) base 0 n src (open_write lfn f)) (\<lambda>(ok, g).
          let f = save_over lfn g f
          in if \<not> ok then Inr (False, base, metafs, f)
             else if group_rank c = 0
             then (case restored_meta indet i metafs of (lines, metafs) \<Rightarrow>
                     Inr (True, base + n, metafs, write_file (meta_tmp @ [group_file c i]) lines f))
             else Inr (True, base + n, metafs, f)))"

fun pull_procs ::
  "(nat \<Rightarrow> nat) \<Rightarrow> fti_conf \<Rightarrow> int \<Rightarrow> string option \<Rightarrow> path \<Rightarrow> path \<Rightarrow> (nat \<times> int) list \<Rightarrow>
     nat \<times> ifstream \<times> fs \<Rightarrow> (bool \<times> fs) res" where
  "pull_procs indet c cid src tmp meta_tmp [] pf = Inr (True, snd (snd pf))"
| "pull_procs indet c cid src tmp meta_tmp (ip # ips) pf =
     and_then (pull_proc indet c cid src tmp meta_tmp ip pf) (\<lambda>(ok, pf).
     if ok then pull_procs indet c cid src tmp meta_tmp ips pf else Inr (False, snd (snd pf)))"

text \<open>
  The stream of the metadata is opened, read into a string that is never used, and closed before
  the loop.
\<close>

definition meta_stream :: "string option \<Rightarrow> ifstream" where
  "meta_stream content = close_ifstream (snd (read_all (open_ifstream content)))"

definition stage_l2l1 ::
  "(nat \<Rightarrow> nat) \<Rightarrow> 'f fti_lib \<Rightarrow> fti_conf \<Rightarrow> int \<Rightarrow> path \<Rightarrow> path \<Rightarrow> 'f world \<Rightarrow> 'f world res" where
  "stage_l2l1 indet lib c cid tmp meta_tmp w =
     (let f = fst w; x = snd w; ckpt = l1_ckpt c cid; meta_ckpt = l1_meta_ckpt c cid;
          src = read_file (l2_ckpt c cid @ [serialized_file ''Ckpt'' cid]) f
      in io_try (stat_path ckpt f = -1)
          (io_try (stat_path meta_tmp f = -1)
            (io_try (stat_path tmp f = -1)
              (and_then (master_mkdir c meta_tmp f) (\<lambda>f.
               and_then (master_mkdir c tmp f) (\<lambda>f.
               and_then (if src = None then merr (io_rank c) (Inr ()) else Inr ()) (\<lambda>_.
               and_then (pull_procs indet c cid src tmp meta_tmp (enumerate 0 (app_body c))
                 (0, meta_stream (read_file (l2_ckpt c cid @ [serialized_file ''Meta'' cid]) f), f)) (\<lambda>(ok, f).
               if ok \<and> master_global c then
                 and_then (try_rename meta_tmp meta_ckpt f) (\<lambda>f.
                 and_then (try_rename tmp ckpt f) (\<lambda>f. update_metadata lib cid IO_STORAGE_L1 (f, x)))
               else Inr (f, x)))))))))"

text \<open>The entry point; \<open>u\<close>, \<open>u'\<close> and \<open>u''\<close> are the three names make\_uuid draws.\<close>

definition io_stage ::
  "(nat \<Rightarrow> nat) \<Rightarrow> 'f fti_lib \<Rightarrow> fti_conf \<Rightarrow> string \<times> string \<times> string \<Rightarrow> io_state_id \<Rightarrow> io_level \<Rightarrow> io_level \<Rightarrow>
     'f world \<Rightarrow> 'f world res" where
  "io_stage indet lib c us s lfrom lto w =
     assert_then (fti_level lfrom \<noteq> None)
      (assert_then (fti_level lto \<noteq> None)
        (and_then (to_ckpt_id s) (\<lambda>cid.
         case us of (u, u', u'') \<Rightarrow>
           if lfrom = IO_STORAGE_L1 then stage_l1l2 lib c cid (global_dir c @ [u]) w
           else stage_l2l1 indet lib c cid (l1_base c @ [u']) (l1_meta_base c @ [u'']) w)))"

end
