(* ===== verification/StagingInv.thy ===== *)
theory StagingInv
  imports Staging
begin

text \<open>
  What staging does to the files: pushing a state concatenates the files of the processes, pulling
  it cuts them again, and the metadata does not survive.
\<close>

section \<open>The copy loops\<close>

lemma push_copy_ok:
  "pos \<le> length s \<Longrightarrow> push_copy rank pos (length s) (Some s) (Some d) = Inr (Some (d @ drop pos s))"
proof (induction "length s - pos" arbitrary: pos d rule: less_induct)
  case less
  show ?case
  proof (cases "pos < length s")
    case True
    let ?b = "block_size (length s) pos"
    have b: "pos + ?b \<le> length s" "0 < ?b" using block_size_pos [OF True] by simp_all
    have "read_at pos ?b (Some s) = Some (take ?b (drop pos s))"
      using b by (simp add: read_at_def subvec_def)
    moreover have "push_copy rank (pos + ?b) (length s) (Some s) (Some (d @ take ?b (drop pos s))) =
        Inr (Some ((d @ take ?b (drop pos s)) @ drop (pos + ?b) s))"
      by (rule less.hyps) (use b True in simp_all)
    moreover have "take ?b (drop pos s) @ drop (pos + ?b) s = drop pos s"
      by (metis append_take_drop_id drop_drop add.commute)
    ultimately show ?thesis using True by (subst push_copy.simps) simp
  next
    case False
    then show ?thesis by (subst push_copy.simps) simp
  qed
qed

lemma pull_copy_ok:
  "base + n \<le> length s \<Longrightarrow> pos \<le> n \<Longrightarrow>
     pull_copy rank base pos n (Some s) (Some d) = Inr (True, Some (d @ subvec (base + pos) (n - pos) s))"
proof (induction "n - pos" arbitrary: pos d rule: less_induct)
  case less
  show ?case
  proof (cases "pos < n")
    case True
    let ?b = "block_size n pos"
    have b: "pos + ?b \<le> n" "0 < ?b" using block_size_pos [OF True] by simp_all
    have "read_at (base + pos) ?b (Some s) = Some (subvec (base + pos) ?b s)"
      using b less.prems(1) by (simp add: read_at_def)
    moreover have "pull_copy rank base (pos + ?b) n (Some s) (Some (d @ subvec (base + pos) ?b s)) =
        Inr (True, Some ((d @ subvec (base + pos) ?b s) @ subvec (base + (pos + ?b)) (n - (pos + ?b)) s))"
      by (rule less.hyps) (use b True less.prems in simp_all)
    moreover have "subvec (base + pos) ?b s @ subvec (base + (pos + ?b)) (n - (pos + ?b)) s =
        subvec (base + pos) (n - pos) s"
      using b take_add [of ?b "n - (pos + ?b)" "drop (base + pos) s"]
      by (simp add: subvec_def add.assoc add.commute add.left_commute)
    ultimately show ?thesis using True by (subst pull_copy.simps) simp
  next
    case False
    then show ?thesis using less.prems by (subst pull_copy.simps) simp
  qed
qed

section \<open>The loops over the processes\<close>

definition group_meta :: "fti_conf \<Rightarrow> int \<Rightarrow> fs \<Rightarrow> nat \<Rightarrow> string" where
  "group_meta c cid f i =
     (case read_file (l1_meta_ckpt c cid @ [group_file c i]) f of None \<Rightarrow> [] | Some s \<Rightarrow> s)"

text \<open>The directory \<open>d\<close> holds the file of each of the processes.\<close>

definition holds :: "path \<Rightarrow> int \<Rightarrow> int list \<Rightarrow> string list \<Rightarrow> fs \<Rightarrow> bool" where
  "holds d cid procs parts f \<longleftrightarrow>
     list_all2 (\<lambda>proc s. read_file (d @ [rank_file cid proc ''fti'']) f = Some s) procs parts"

definition sizes_match :: "fti_conf \<Rightarrow> nat \<Rightarrow> string list \<Rightarrow> bool" where
  "sizes_match c k parts \<longleftrightarrow> k + length parts \<le> length (proc_sizes c) \<and>
     (\<forall>j < length parts. proc_sizes c ! (k + j) = length (parts ! j))"

lemma sizes_match_Cons [simp]:
  "sizes_match c k (s # parts) \<longleftrightarrow> k < length (proc_sizes c) \<and> proc_sizes c ! k = length s \<and> sizes_match c (Suc k) parts"
  unfolding sizes_match_def by (auto simp: All_less_Suc2)

lemma sizes_match_Nil [simp]: "sizes_match c k [] \<longleftrightarrow> k \<le> length (proc_sizes c)"
  by (simp add: sizes_match_def)

lemma sizes_match_all: "proc_sizes c = map length parts \<Longrightarrow> sizes_match c 0 parts"
  by (simp add: sizes_match_def)

lemma push_procs_ok:
  "list_all2 (\<lambda>proc s. read_file (l1_ckpt c cid @ [rank_file cid proc ''fti'']) f = Some s) procs parts \<Longrightarrow>
   sizes_match c k parts \<Longrightarrow>
     push_procs c cid f (enumerate k procs) (Some g, m) =
       Inr (Some (g @ concat parts),
            if group_rank c = 0
            then map_option (\<lambda>m. m @ concat (map (\<lambda>i. meta_block (group_meta c cid f i)) [k..<k + length procs])) m
            else m)"
proof (induction procs parts arbitrary: k g m rule: list_all2_induct)
  case Nil
  then show ?case by (cases m) simp_all
next
  case (Cons proc procs s parts)
  let ?m = "if group_rank c = 0 then map_option (\<lambda>m. m @ meta_block (group_meta c cid f k)) m else m"
  have "push_proc c cid f (k, proc) (Some g, m) = Inr (Some (g @ s), ?m)"
    using Cons.prems Cons.hyps(1) push_copy_ok [of 0 s "io_rank c" g]
    by (simp add: push_proc_def group_meta_def Let_def)
  moreover have "sizes_match c (Suc k) parts" using Cons.prems by simp
  moreover have "[k..<k + length (proc # procs)] = k # [Suc k..<Suc k + length procs]"
    by (subst upt_rec) (simp del: upt_Suc)
  ultimately show ?case using Cons.IH [of "Suc k" "g @ s" ?m]
    by (cases m) (simp_all del: upt_Suc)
qed

section \<open>Pushing a state\<close>

text \<open>
  The library's record of the checkpoints is \<open>'f\<close>: noting a checkpoint succeeds and does not touch
  the files.
\<close>

definition notes_checkpoints :: "'f fti_lib \<Rightarrow> bool" where
  "notes_checkpoints lib \<longleftrightarrow>
     (\<forall>cid l w. fst (fti_update_ckpt_metadata lib cid l w) \<and> fst (snd (fti_update_ckpt_metadata lib cid l w)) = fst w)"

lemma notes_checkpointsD:
  assumes "notes_checkpoints lib"
  shows "\<exists>x'. update_metadata lib cid level (f, x) = Inr (f, x')"
proof -
  have "fst (fti_update_ckpt_metadata lib cid l (f, x))" "fst (snd (fti_update_ckpt_metadata lib cid l (f, x))) = f" for l
    using assms unfolding notes_checkpoints_def by (metis fst_conv)+
  then show ?thesis by (simp add: update_metadata_def io_try_def split: prod.split) (metis fst_conv snd_conv surj_pair)
qed

definition can_push :: "fti_conf \<Rightarrow> int \<Rightarrow> string \<Rightarrow> fs \<Rightarrow> bool" where
  "can_push c cid u f \<longleftrightarrow> fs_wf f \<and> master_global c \<and> u \<noteq> dec cid \<and> entry (global_dir c) f = Some Directory \<and>
     entry (global_dir c @ [u]) f = None \<and> entry (l2_ckpt c cid) f = None"

lemma fresh_dir:
  assumes "fs_wf f" "entry d f = Some Directory" "entry (d @ [u]) f = None"
  shows "\<exists>f'. mkdir_path (d @ [u]) f = Some f' \<and> fs_wf f' \<and>
     (\<forall>q. entry q f' = (if q = d @ [u] then Some Directory else entry q f)) \<and>
     (\<forall>r. r \<noteq> [] \<longrightarrow> entry ((d @ [u]) @ r) f' = None)"
proof -
  have "mkdir_path (d @ [u]) f = Some ((d @ [u], Directory) # f)"
    using assms by (simp add: mkdir_path_def parent_exists_def)
  moreover have "entry ((d @ [u]) @ r) f = None" for r
    using below_None [OF assms(1,3)] by blast
  ultimately show ?thesis using fs_wf_mkdir [OF _ assms(1)] by auto
qed

lemma rename_free:
  assumes "fs_wf f" "entry (d @ [u]) f = Some Directory" "entry (d @ [v]) f = None" "entry d f = Some Directory" "u \<noteq> v"
  shows "\<exists>f'. rename_dir (d @ [u]) (d @ [v]) f = Some f' \<and> renames (d @ [u]) (d @ [v]) f f'"
  using assms by (simp add: renames_def rename_dir_def below_def parent_exists_def)

lemma open_write_fresh: "entry d f = Some Directory \<Longrightarrow> entry (d @ [n]) f = None \<Longrightarrow> open_write (d @ [n]) f = Some []"
  by (simp add: open_write_def can_write_def parent_exists_def)

lemma save_over_fresh:
  "entry d f = Some Directory \<Longrightarrow> entry (d @ [n]) f = None \<Longrightarrow>
     save_over (d @ [n]) (Some s) f = write_file (d @ [n]) s f"
  by (simp add: save_over_def read_file_def)

lemma two_files:
  assumes "fs_wf f" "entry d f = Some Directory" "entry (d @ [a]) f = None" "entry (d @ [b]) f = None" "a \<noteq> b"
  shows "fs_wf (write_file (d @ [b]) t (write_file (d @ [a]) s f)) \<and>
     entry q (write_file (d @ [b]) t (write_file (d @ [a]) s f)) =
       (if q = d @ [b] then Some (Regular t) else if q = d @ [a] then Some (Regular s) else entry q f)"
  using assms by (simp add: fs_wf_write entry_write can_write_def parent_exists_def)

definition pushed_meta :: "fti_conf \<Rightarrow> int \<Rightarrow> fs \<Rightarrow> string" where
  "pushed_meta c cid f =
     (if group_rank c = 0 then concat (map (\<lambda>i. meta_block (group_meta c cid f i)) [0..<length (app_body c)]) else [])"

lemma kinds_differ: "serialized_file ''Ckpt'' cid \<noteq> serialized_file ''Meta'' cid"
  by (simp add: serialized_file_def)

lemma push_ok:
  assumes p: "can_push c cid u f" and h: "holds (l1_ckpt c cid) cid (app_body c) parts f"
    and n: "proc_sizes c = map length parts" and lib: "notes_checkpoints lib"
  shows "\<exists>f1 x1. stage_l1l2 lib c cid (global_dir c @ [u]) (f, x) = Inr (f1, x1) \<and> fs_wf f1 \<and>
     read_file (l2_ckpt c cid @ [serialized_file ''Ckpt'' cid]) f1 = Some (concat parts) \<and>
     read_file (l2_ckpt c cid @ [serialized_file ''Meta'' cid]) f1 = Some (pushed_meta c cid f) \<and>
     (\<forall>q. \<not> below (l2_ckpt c cid) q \<longrightarrow> entry q f1 = entry q f)"
proof -
  let ?tmp = "global_dir c @ [u]" and ?ck = "serialized_file ''Ckpt'' cid" and ?mt = "serialized_file ''Meta'' cid"
  have pre: "fs_wf f" "master_global c" "u \<noteq> dec cid" "entry (global_dir c) f = Some Directory"
      "entry ?tmp f = None" "entry (global_dir c @ [dec cid]) f = None"
    using p by (simp_all add: can_push_def l2_ckpt_def)
  from fresh_dir [OF pre(1,4,5)] obtain f' where f': "mkdir_path ?tmp f = Some f'" "fs_wf f'"
      "\<And>q. entry q f' = (if q = ?tmp then Some Directory else entry q f)"
      "\<And>r. r \<noteq> [] \<Longrightarrow> entry (?tmp @ r) f' = None" by blast
  have rd: "read_file q f' = read_file q f" for q
    using pre(5) by (simp add: read_file_def f'(3))
  then have gm: "group_meta c cid f' = group_meta c cid f" by (simp add: group_meta_def fun_eq_iff)
  have tmp: "entry ?tmp f' = Some Directory" "entry (?tmp @ [?ck]) f' = None" "entry (?tmp @ [?mt]) f' = None"
    using f'(3) f'(4) [of "[?ck]"] f'(4) [of "[?mt]"] by simp_all
  have len: "length (app_body c) = length parts" using h by (auto simp: holds_def dest: list_all2_lengthD)
  have procs: "push_procs c cid f' (enumerate 0 (app_body c)) (Some [], Some []) =
      Inr (Some (concat parts), Some (pushed_meta c cid f))"
    using push_procs_ok [OF _ sizes_match_all [OF n], of cid f' "app_body c" "[]" "Some []"] h
    by (simp add: rd holds_def gm pushed_meta_def)
  let ?F = "write_file (?tmp @ [?mt]) (pushed_meta c cid f) (write_file (?tmp @ [?ck]) (concat parts) f')"
  have F: "fs_wf ?F" "\<And>q. entry q ?F = (if q = ?tmp @ [?mt] then Some (Regular (pushed_meta c cid f))
      else if q = ?tmp @ [?ck] then Some (Regular (concat parts)) else entry q f')"
    using two_files [OF f'(2) tmp kinds_differ] by blast+
  have "entry ?tmp ?F = Some Directory" "entry (global_dir c @ [dec cid]) ?F = None" "entry (global_dir c) ?F = Some Directory"
    unfolding F(2) using pre by (simp_all add: f'(3))
  from rename_free [OF F(1) this pre(3)] obtain f1 where
    f1: "rename_dir ?tmp (global_dir c @ [dec cid]) ?F = Some f1" "renames ?tmp (global_dir c @ [dec cid]) ?F f1" by blast
  obtain x1 where x1: "update_metadata lib cid IO_STORAGE_L2 (f1, x) = Inr (f1, x1)"
    using notes_checkpointsD [OF lib] by blast
  have "stage_l1l2 lib c cid ?tmp (f, x) = Inr (f1, x1)"
    using pre f'(1) procs f1(1) x1 open_write_fresh [OF tmp(1,2)] open_write_fresh [OF tmp(1,3)]
      save_over_fresh [OF tmp(1,2), of "concat parts"]
    by (simp add: stage_l1l2_def Let_def l2_ckpt_def io_try_def master_mkdir_def try_rename_def save_def)
  moreover have "read_file (l2_ckpt c cid @ [?ck]) f1 = Some (concat parts)"
    "read_file (l2_ckpt c cid @ [?mt]) f1 = Some (pushed_meta c cid f)"
    unfolding read_file_def entry_renamed [OF f1(2)] F(2)
    using kinds_differ [of cid] by (simp_all add: l2_ckpt_def below_def)
  moreover have "entry q f1 = entry q f" if "\<not> below (l2_ckpt c cid) q" for q
    unfolding entry_renamed [OF f1(2)] F(2)
    using that below_None [OF pre(1,5)] by (auto simp: f'(3) l2_ckpt_def below_iff)
  ultimately show ?thesis using fs_wf_renamed [OF f1(2)] by blast
qed

section \<open>Pulling a state\<close>

lemma file_names_inj [simp]:
  "rank_file cid a suffix = rank_file cid b suffix \<longleftrightarrow> a = b"
  "group_file c i = group_file c j \<longleftrightarrow> i = j"
  by (simp_all add: rank_file_def group_file_def)

lemma read_write:
  "can_write p f \<Longrightarrow> read_file q (write_file p s f) = (if q = p then Some s else read_file q f)"
  by (simp add: read_file_def entry_write)

text \<open>
  What a turn of the loop and the loop leave: the files written, and nothing else changed.
\<close>

definition only_changes :: "path set \<Rightarrow> fs \<Rightarrow> fs \<Rightarrow> bool" where
  "only_changes A f f' \<longleftrightarrow> fs_wf f' \<and> (\<forall>q. q \<notin> A \<longrightarrow> entry q f' = entry q f)"

lemma only_changes_write: "fs_wf f \<Longrightarrow> only_changes {p} f (write_file p s f)"
  by (simp add: only_changes_def fs_wf_write entry_write)

lemma only_changes_trans:
  "only_changes A f g \<Longrightarrow> only_changes B g h \<Longrightarrow> only_changes (A \<union> B) f h"
  by (simp add: only_changes_def)

lemma only_changes_mono: "only_changes A f g \<Longrightarrow> A \<subseteq> B \<Longrightarrow> only_changes B f g"
  by (auto simp: only_changes_def)

lemma only_changesD:
  "only_changes A f g \<Longrightarrow> q \<notin> A \<Longrightarrow> entry q g = entry q f"
  "only_changes A f g \<Longrightarrow> q \<notin> A \<Longrightarrow> read_file q g = read_file q f"
  "only_changes A f g \<Longrightarrow> fs_wf g"
  by (simp_all add: only_changes_def read_file_def)

definition pull_targets :: "fti_conf \<Rightarrow> int \<Rightarrow> path \<Rightarrow> path \<Rightarrow> (nat \<times> int) list \<Rightarrow> path set" where
  "pull_targets c cid tmp mtmp ips =
     (\<lambda>ip. tmp @ [rank_file cid (snd ip) ''fti'']) ` set ips \<union> (\<lambda>ip. mtmp @ [group_file c (fst ip)]) ` set ips"

text \<open>The two directories are there, differ, and hold none of the files yet.\<close>

definition pull_ready :: "fti_conf \<Rightarrow> int \<Rightarrow> path \<Rightarrow> path \<Rightarrow> (nat \<times> int) list \<Rightarrow> fs \<Rightarrow> bool" where
  "pull_ready c cid tmp mtmp ips f \<longleftrightarrow> fs_wf f \<and> tmp \<noteq> mtmp \<and> entry tmp f = Some Directory \<and>
     entry mtmp f = Some Directory \<and> (\<forall>q \<in> pull_targets c cid tmp mtmp ips. q \<noteq> tmp \<and> q \<noteq> mtmp \<and> entry q f = None)"

text \<open>
  The stream of the metadata is closed, whatever the global file holds: its lines are read as empty
  ones, as many as the variable says that sscanf does not assign.
\<close>

lemma meta_stream_closed: "is_buf (meta_stream content) = None"
  by (cases content) (simp_all add: meta_stream_def close_ifstream_def read_all_def open_ifstream_def)

definition empty_lines :: "(nat \<Rightarrow> nat) \<Rightarrow> nat \<Rightarrow> string" where
  "empty_lines indet i = replicate (indet i) (CHR 0x0A)"

lemma restored_meta_closed:
  assumes "is_buf st = None"
  shows "\<exists>st'. restored_meta indet i st = (empty_lines indet i, st') \<and> is_buf st' = None"
  using copy_lines_closed [of "st\<lparr>is_good := False\<rparr>" "indet i" "[]"] assms
  by (simp add: restored_meta_def getline_closed empty_lines_def)

text \<open>Were it open and at the place of the file, the metadata that was pushed would come back.\<close>

lemma restored_meta_open:
  assumes "\<forall>line \<in> set lines. CHR 0x0A \<notin> set line" "length lines < 2 ^ 64"
    and "content = concat (map (\<lambda>line. line @ [CHR 0x0A]) lines)"
  shows "restored_meta indet i \<lparr>is_buf = Some (meta_block content @ rest), is_good = True\<rparr> =
     (content, \<lparr>is_buf = Some rest, is_good = True\<rparr>)"
proof -
  have n: "count_lines content = length lines"
    using assms(1) unfolding assms(3) count_lines_def
    by (induction lines) (auto simp: filter_empty_conv filter_id_conv)
  have "\<forall>ch \<in> set (dec (int (length lines))). is_digit ch" using dec_nat_digits by (simp add: dec_def)
  then have d: "CHR 0x0A \<notin> set (dec (int (length lines)))" using not_digits(1) by blast
  have "getline \<lparr>is_buf = Some (meta_block content @ rest), is_good = True\<rparr> [] =
      (dec (int (length lines)), \<lparr>is_buf = Some (content @ rest), is_good = True\<rparr>)"
    using getline_open [OF d, of "content @ rest"] by (simp add: meta_block_def n)
  then show ?thesis
    using copy_lines_open [OF assms(1), of rest "[]"] assms(3) sscanf_dec [OF assms(2)]
    by (simp add: restored_meta_def)
qed

lemma pull_proc_ok:
  assumes "pull_ready c cid tmp mtmp [(i, proc)] f" and "sizes_match c i [part]"
    and s: "s = pre @ part @ post" and st: "is_buf st = None"
  shows "\<exists>f' st'. pull_proc indet c cid (Some s) tmp mtmp (i, proc) (length pre, st, f) =
       Inr (True, length (pre @ part), st', f') \<and> is_buf st' = None \<and>
     only_changes (pull_targets c cid tmp mtmp [(i, proc)]) f f' \<and>
     read_file (tmp @ [rank_file cid proc ''fti'']) f' = Some part \<and>
     (group_rank c = 0 \<longrightarrow> read_file (mtmp @ [group_file c i]) f' = Some (empty_lines indet i))"
proof -
  let ?l = "tmp @ [rank_file cid proc ''fti'']" and ?m = "mtmp @ [group_file c i]"
  have r: "fs_wf f" "tmp \<noteq> mtmp" "entry tmp f = Some Directory" "entry mtmp f = Some Directory"
      "entry ?l f = None" "entry ?m f = None" "?l \<noteq> mtmp"
    using assms(1) by (simp_all add: pull_ready_def pull_targets_def)
  let ?f1 = "write_file ?l part f"
  let ?f2 = "write_file ?m (empty_lines indet i) ?f1"
  obtain st' where st': "restored_meta indet i st = (empty_lines indet i, st')" "is_buf st' = None"
    using restored_meta_closed [OF st] by blast
  have sub: "subvec (length pre) (length part) s = part" using s by (simp add: subvec_def)
  have copy: "pull_copy (io_rank c) (length pre) 0 (length part) (Some s) (Some []) = Inr (True, Some part)"
    using pull_copy_ok [of "length pre" "length part" s 0 "io_rank c" "[]"] s sub by simp
  have eq: "pull_proc indet c cid (Some s) tmp mtmp (i, proc) (length pre, st, f) =
      Inr (True, length (pre @ part), if group_rank c = 0 then (st', ?f2) else (st, ?f1))"
    using assms(2) copy open_write_fresh [OF r(3,5)] save_over_fresh [OF r(3,5), of part] st'(1)
    by (simp add: pull_proc_def Let_def sizes_match_def)
  have w: "can_write ?l f" "can_write ?m ?f1"
    using r by (auto simp: can_write_def parent_exists_def entry_write)
  have rd: "read_file ?l ?f1 = Some part" "read_file ?l ?f2 = Some part"
      "read_file ?m ?f2 = Some (empty_lines indet i)"
    using r(2) by (simp_all add: read_write [OF w(1)] read_write [OF w(2)])
  have "only_changes (pull_targets c cid tmp mtmp [(i, proc)]) f ?f1"
    by (rule only_changes_mono [OF only_changes_write [OF r(1)]]) (simp add: pull_targets_def)
  moreover have "only_changes (pull_targets c cid tmp mtmp [(i, proc)]) f ?f2"
    using only_changes_trans [OF only_changes_write [OF r(1)] only_changes_write [OF fs_wf_write [OF r(1)]]]
    by (rule only_changes_mono) (simp add: pull_targets_def)
  ultimately show ?thesis unfolding eq using rd st st'(2) by auto
qed

definition pulled :: "(nat \<Rightarrow> nat) \<Rightarrow> fti_conf \<Rightarrow> int \<Rightarrow> path \<Rightarrow> path \<Rightarrow> (nat \<times> int) list \<Rightarrow> string list \<Rightarrow> fs \<Rightarrow> bool" where
  "pulled indet c cid tmp mtmp ips parts f \<longleftrightarrow>
     list_all2 (\<lambda>ip s. read_file (tmp @ [rank_file cid (snd ip) ''fti'']) f = Some s) ips parts \<and>
     (group_rank c = 0 \<longrightarrow> (\<forall>ip \<in> set ips. read_file (mtmp @ [group_file c (fst ip)]) f = Some (empty_lines indet (fst ip))))"

lemma pull_targets_Cons:
  "pull_targets c cid tmp mtmp (ip # ips) = pull_targets c cid tmp mtmp [ip] \<union> pull_targets c cid tmp mtmp ips"
  by (auto simp: pull_targets_def)

lemma pull_procs_ok:
  "pull_ready c cid tmp mtmp (enumerate k procs) f \<Longrightarrow> sizes_match c k parts \<Longrightarrow> length procs = length parts \<Longrightarrow>
   distinct procs \<Longrightarrow> is_buf st = None \<Longrightarrow>
     \<exists>f'. pull_procs indet c cid (Some (pre @ concat parts)) tmp mtmp (enumerate k procs) (length pre, st, f) = Inr (True, f') \<and>
       only_changes (pull_targets c cid tmp mtmp (enumerate k procs)) f f' \<and>
       pulled indet c cid tmp mtmp (enumerate k procs) parts f'"
proof (induction procs arbitrary: parts k pre f st)
  case Nil
  then show ?case by (simp add: only_changes_def pull_ready_def pulled_def)
next
  case (Cons proc procs)
  then obtain part parts' where parts: "parts = part # parts'" by (cases parts) auto
  let ?l = "tmp @ [rank_file cid proc ''fti'']" and ?m = "mtmp @ [group_file c k]" and ?ips = "enumerate (Suc k) procs"
  let ?T = "pull_targets c cid tmp mtmp"
  have en: "enumerate k (proc # procs) = (k, proc) # ?ips" by simp
  have ready: "pull_ready c cid tmp mtmp [(k, proc)] f"
    using Cons.prems(1) unfolding en pull_ready_def by (subst (asm) pull_targets_Cons) simp
  have sz: "sizes_match c k [part]" "sizes_match c (Suc k) parts'"
    using Cons.prems(2) unfolding parts by simp_all
  from pull_proc_ok [OF ready sz(1) _ Cons.prems(5), of "pre @ concat parts" pre "concat parts'" indet] obtain g st1 where
    g: "pull_proc indet c cid (Some (pre @ concat parts)) tmp mtmp (k, proc) (length pre, st, f) =
         Inr (True, length (pre @ part), st1, g)"
      "only_changes (?T [(k, proc)]) f g" "read_file ?l g = Some part"
      "group_rank c = 0 \<longrightarrow> read_file ?m g = Some (empty_lines indet k)" and st1: "is_buf st1 = None"
    using parts by auto
  have tm: "tmp \<noteq> mtmp" using ready by (simp add: pull_ready_def)
  have k: "(k, b) \<notin> set ?ips" "(a, proc) \<notin> set ?ips" for a b
    using Cons.prems(4) imageI [of "(a, proc)" "set ?ips" snd] by (auto simp: in_set_enumerate_eq simp flip: set_map)
  then have old: "?l \<notin> ?T ?ips" "?m \<notin> ?T ?ips" and dis: "?T [(k, proc)] \<inter> ?T ?ips = {}"
    using tm by (auto simp: pull_targets_def)
  have outside: "tmp \<notin> ?T [(k, proc)]" "mtmp \<notin> ?T [(k, proc)]" using ready by (auto simp: pull_ready_def)
  have free: "q \<noteq> tmp \<and> q \<noteq> mtmp \<and> entry q g = None" if "q \<in> ?T ?ips" for q
  proof -
    have "q \<notin> ?T [(k, proc)]" using dis that by blast
    moreover have "q \<in> ?T (enumerate k (proc # procs))" unfolding en by (subst pull_targets_Cons) (use that in blast)
    ultimately show ?thesis
      using Cons.prems(1) only_changesD(1) [OF g(2), of q] unfolding pull_ready_def by metis
  qed
  then have "pull_ready c cid tmp mtmp ?ips g"
    using ready only_changesD(1,3) [OF g(2)] outside by (simp add: pull_ready_def)
  from Cons.IH [OF this sz(2) _ _ st1, of "pre @ part"] obtain f' where
    f': "pull_procs indet c cid (Some (pre @ concat parts)) tmp mtmp ?ips (length (pre @ part), st1, g) = Inr (True, f')"
      "only_changes (?T ?ips) g f'" "pulled indet c cid tmp mtmp ?ips parts' f'"
    using Cons.prems(3,4) parts by auto
  have "only_changes (?T ((k, proc) # ?ips)) f f'"
    using only_changes_trans [OF g(2) f'(2)] by (subst pull_targets_Cons)
  moreover have "pulled indet c cid tmp mtmp ((k, proc) # ?ips) (part # parts') f'"
    using f'(3) g(3,4) only_changesD(2) [OF f'(2) old(1)] only_changesD(2) [OF f'(2) old(2)] by (simp add: pulled_def)
  ultimately show ?case unfolding en parts using g(1) f'(1) parts by simp
qed

definition fresh_level :: "path \<Rightarrow> int \<Rightarrow> string \<Rightarrow> fs \<Rightarrow> bool" where
  "fresh_level b cid u f \<longleftrightarrow> entry b f = Some Directory \<and> entry (b @ [''l1'']) f = Some Directory \<and>
     entry (b @ [''l1'', dec cid]) f = None \<and> entry (b @ [u]) f = None"

definition apart :: "path \<Rightarrow> path \<Rightarrow> bool" where
  "apart a b \<longleftrightarrow> \<not> below a b \<and> \<not> below b a"

definition can_pull :: "fti_conf \<Rightarrow> int \<Rightarrow> string \<Rightarrow> string \<Rightarrow> fs \<Rightarrow> bool" where
  "can_pull c cid u' u'' f \<longleftrightarrow> fs_wf f \<and> master_global c \<and> distinct (app_body c) \<and>
     apart (l1_base c) (l1_meta_base c) \<and> fresh_level (l1_base c) cid u' f \<and> fresh_level (l1_meta_base c) cid u'' f"

lemma below_comparable: "below a (b @ y) \<Longrightarrow> below a b \<or> below b a"
  by (cases "length a \<le> length b") (auto simp: below_def min_def dest: arg_cong [of _ _ "take (length b)"])

lemma below_prefix: "below (a @ x) b \<Longrightarrow> below a b"
  by (auto simp: below_iff)

lemma apart_below:
  assumes "apart a b"
  shows "\<not> below (a @ x) (b @ y)" "\<not> below (b @ y) (a @ x)" "\<not> below a (b @ y)" "\<not> below b (a @ x)" "a @ x \<noteq> b @ y"
proof -
  show *: "\<not> below a (b @ y)" "\<not> below b (a @ x)" for x y
    using assms below_comparable [of a b y] below_comparable [of b a x] by (auto simp: apart_def)
  then show "\<not> below (a @ x) (b @ y)" "\<not> below (b @ y) (a @ x)" by (blast dest: below_prefix)+
  show "a @ x \<noteq> b @ y" using *(1) [of y] below_refl(2) [of a x] by metis
qed

lemma rename_fresh_level:
  assumes "fs_wf f" "entry (b @ [u]) f = Some Directory" "entry (b @ [''l1'']) f = Some Directory"
    and "entry (b @ [''l1'', n]) f = None" and "u \<noteq> ''l1''"
  shows "\<exists>f'. rename_dir (b @ [u]) (b @ [''l1'', n]) f = Some f' \<and> renames (b @ [u]) (b @ [''l1'', n]) f f'"
  using assms by (simp add: renames_def rename_dir_def below_def parent_exists_def butlast_append)

text \<open>The two directories are made.\<close>

lemma pull_dirs:
  assumes "can_pull c cid u' u'' f"
  shows "\<exists>fa fb. master_mkdir c (l1_meta_base c @ [u'']) f = Inr fa \<and> master_mkdir c (l1_base c @ [u']) fa = Inr fb \<and>
     pull_ready c cid (l1_base c @ [u']) (l1_meta_base c @ [u'']) ips fb \<and>
     (\<forall>q. entry q fb = (if q \<in> {l1_base c @ [u'], l1_meta_base c @ [u'']} then Some Directory else entry q f))"
proof -
  let ?b = "l1_base c" and ?mb = "l1_meta_base c"
  have p: "fs_wf f" "master_global c" "apart ?b ?mb" "entry ?b f = Some Directory" "entry ?mb f = Some Directory"
      "entry (?b @ [u']) f = None" "entry (?mb @ [u'']) f = None"
    using assms by (simp_all add: can_pull_def fresh_level_def)
  note ap = apart_below [OF p(3)]
  obtain fa where fa: "mkdir_path (?mb @ [u'']) f = Some fa" "fs_wf fa"
      "\<And>q. entry q fa = (if q = ?mb @ [u''] then Some Directory else entry q f)"
      "\<And>r. r \<noteq> [] \<Longrightarrow> entry ((?mb @ [u'']) @ r) fa = None"
    using fresh_dir [OF p(1,5,7)] by blast
  have "entry ?b fa = Some Directory" "entry (?b @ [u']) fa = None"
    using p ap(5) ap(3) [of "[u'']"] by (auto simp: fa(3) below_iff)
  from fresh_dir [OF fa(2) this] obtain fb where fb: "mkdir_path (?b @ [u']) fa = Some fb" "fs_wf fb"
      "\<And>q. entry q fb = (if q = ?b @ [u'] then Some Directory else entry q fa)"
      "\<And>r. r \<noteq> [] \<Longrightarrow> entry ((?b @ [u']) @ r) fb = None" by blast
  have "entry ((?mb @ [u'']) @ r) fb = None" if "r \<noteq> []" for r
    using fa(4) [OF that] ap(5) [of "[u']" "u'' # r"] unfolding fb(3) by (auto dest: sym)
  note none = fb(4) [of "[x]" for x, simplified] this [of "[x]" for x, simplified]
  have "entry q fb = None" if "q \<in> pull_targets c cid (?b @ [u']) (?mb @ [u'']) ips" for q
    using that none unfolding pull_targets_def by auto
  moreover have "entry (?b @ [u']) fb = Some Directory" "entry (?mb @ [u'']) fb = Some Directory"
    by (simp_all add: fb(3) fa(3))
  ultimately have "pull_ready c cid (?b @ [u']) (?mb @ [u'']) ips fb"
    using fb(2) ap(5) unfolding pull_ready_def by fastforce
  then show ?thesis using p(2) fa(1) fb(1) by (auto simp: master_mkdir_def fb(3) fa(3))
qed

lemma targets_below: "q \<in> pull_targets c cid tmp mtmp ips \<Longrightarrow> below tmp q \<or> below mtmp q"
  by (auto simp: pull_targets_def)

text \<open>The two renames: each directory moves to its checkpoint.\<close>

lemma pull_renames:
  assumes "fs_wf f" "apart b mb" "u' \<noteq> ''l1''" "u'' \<noteq> ''l1''"
    and "entry (b @ [u']) f = Some Directory" "entry (b @ [''l1'']) f = Some Directory" "entry (b @ [''l1'', n]) f = None"
    and "entry (mb @ [u'']) f = Some Directory" "entry (mb @ [''l1'']) f = Some Directory" "entry (mb @ [''l1'', n]) f = None"
  shows "\<exists>g h. try_rename (mb @ [u'']) (mb @ [''l1'', n]) f = Inr g \<and> try_rename (b @ [u']) (b @ [''l1'', n]) g = Inr h \<and>
     fs_wf h \<and> (\<forall>x. entry (b @ ''l1'' # n # x) h = entry (b @ u' # x) f) \<and>
     (\<forall>x. entry (mb @ ''l1'' # n # x) h = entry (mb @ u'' # x) f) \<and>
     (\<forall>q. \<not> below b q \<and> \<not> below mb q \<longrightarrow> entry q h = entry q f)"
proof -
  note ap = apart_below [OF assms(2)]
  obtain g where g: "rename_dir (mb @ [u'']) (mb @ [''l1'', n]) f = Some g" "renames (mb @ [u'']) (mb @ [''l1'', n]) f g"
    using rename_fresh_level [OF assms(1,8,9,10,4)] by blast
  have eg: "entry (b @ x) g = entry (b @ x) f" for x
    unfolding entry_renamed [OF g(2)] by (simp add: ap)
  have "entry (b @ [u']) g = Some Directory" "entry (b @ [''l1'']) g = Some Directory" "entry (b @ [''l1'', n]) g = None"
    by (simp_all add: eg assms)
  from rename_fresh_level [OF fs_wf_renamed [OF g(2)] this assms(3)] obtain h where
    h: "rename_dir (b @ [u']) (b @ [''l1'', n]) g = Some h" "renames (b @ [u']) (b @ [''l1'', n]) g h" by blast
  have "entry (b @ ''l1'' # n # x) h = entry (b @ u' # x) f" for x
    unfolding entry_renamed [OF h(2)] by (simp add: below_def eg)
  moreover have "entry (mb @ ''l1'' # n # x) h = entry (mb @ u'' # x) f" for x
    unfolding entry_renamed [OF h(2)] entry_renamed [OF g(2)] by (simp add: ap) (simp add: below_def)
  moreover have "entry q h = entry q f" if "\<not> below b q" "\<not> below mb q" for q
  proof -
    have "\<not> below (b @ y) q" "\<not> below (mb @ y) q" for y using that below_prefix by blast+
    then show ?thesis unfolding entry_renamed [OF h(2)] entry_renamed [OF g(2)] by simp
  qed
  ultimately show ?thesis using g(1) h(1) fs_wf_renamed [OF h(2)] by (simp add: try_rename_def)
qed

lemma pull_ok:
  assumes p: "can_pull c cid u' u'' f" and n: "proc_sizes c = map length parts" "length (app_body c) = length parts"
    and s: "read_file (l2_ckpt c cid @ [serialized_file ''Ckpt'' cid]) f = Some (concat parts)"
    and lib: "notes_checkpoints lib"
  shows "\<exists>f1 x1. stage_l2l1 indet lib c cid (l1_base c @ [u']) (l1_meta_base c @ [u'']) (f, x) = Inr (f1, x1) \<and> fs_wf f1 \<and>
     update_metadata lib cid IO_STORAGE_L1 (f1, x) = Inr (f1, x1) \<and>
     holds (l1_ckpt c cid) cid (app_body c) parts f1 \<and>
     (group_rank c = 0 \<longrightarrow> (\<forall>i < length (app_body c).
        read_file (l1_meta_ckpt c cid @ [group_file c i]) f1 = Some (empty_lines indet i))) \<and>
     (\<forall>q. \<not> below (l1_base c) q \<and> \<not> below (l1_meta_base c) q \<longrightarrow> entry q f1 = entry q f)"
proof -
  let ?tmp = "l1_base c @ [u']" and ?mt = "l1_meta_base c @ [u'']" and ?ips = "enumerate 0 (app_body c)"
  have pre: "fs_wf f" "master_global c" "distinct (app_body c)" "apart (l1_base c) (l1_meta_base c)"
      "fresh_level (l1_base c) cid u' f" "fresh_level (l1_meta_base c) cid u'' f"
    using p by (simp_all add: can_pull_def)
  note fl = pre(5,6) [unfolded fresh_level_def] and ap = apart_below [OF pre(4)]
  obtain fa fb where fab: "master_mkdir c ?mt f = Inr fa" "master_mkdir c ?tmp fa = Inr fb" "pull_ready c cid ?tmp ?mt ?ips fb"
      "\<And>q. entry q fb = (if q \<in> {?tmp, ?mt} then Some Directory else entry q f)"
    using pull_dirs [OF p] by meson
  obtain f' where f': "pull_procs indet c cid (Some (concat parts)) ?tmp ?mt ?ips
        (0, meta_stream (read_file (l2_ckpt c cid @ [serialized_file ''Meta'' cid]) fb), fb) = Inr (True, f')"
      "only_changes (pull_targets c cid ?tmp ?mt ?ips) fb f'" "pulled indet c cid ?tmp ?mt ?ips parts f'"
    using pull_procs_ok [OF fab(3) sizes_match_all [OF n(1)] n(2) pre(3) meta_stream_closed, of indet "[]"] by auto
  have e: "entry q f' = (if q \<in> {?tmp, ?mt} then Some Directory else entry q f)"
    if "q \<notin> pull_targets c cid ?tmp ?mt ?ips" for q
    using only_changesD(1) [OF f'(2) that] fab(4) by simp
  have u: "u' \<noteq> ''l1''" "u'' \<noteq> ''l1''" using fl by auto
  have out: "l1_base c @ ''l1'' # y \<notin> pull_targets c cid ?tmp ?mt ?ips"
      "l1_meta_base c @ ''l1'' # y \<notin> pull_targets c cid ?tmp ?mt ?ips"
      "?tmp \<notin> pull_targets c cid ?tmp ?mt ?ips" "?mt \<notin> pull_targets c cid ?tmp ?mt ?ips" for y
    using u ap(5) ap(5) [THEN not_sym] by (auto simp: pull_targets_def)
  have "entry ?tmp f' = Some Directory" "entry (l1_base c @ [''l1'']) f' = Some Directory"
      "entry (l1_base c @ [''l1'', dec cid]) f' = None" "entry ?mt f' = Some Directory"
      "entry (l1_meta_base c @ [''l1'']) f' = Some Directory" "entry (l1_meta_base c @ [''l1'', dec cid]) f' = None"
    using fl u ap(5) ap(5) [THEN not_sym] by (simp_all add: e out)
  from pull_renames [OF only_changesD(3) [OF f'(2)] pre(4) u this] obtain g h where
    gh: "try_rename ?mt (l1_meta_ckpt c cid) f' = Inr g" "try_rename ?tmp (l1_ckpt c cid) g = Inr h" "fs_wf h"
      "\<And>y. entry (l1_ckpt c cid @ y) h = entry (?tmp @ y) f'" "\<And>y. entry (l1_meta_ckpt c cid @ y) h = entry (?mt @ y) f'"
      "\<And>q. \<not> below (l1_base c) q \<Longrightarrow> \<not> below (l1_meta_base c) q \<Longrightarrow> entry q h = entry q f'"
    by (auto simp: l1_ckpt_def l1_meta_ckpt_def)
  obtain x1 where x1: "update_metadata lib cid IO_STORAGE_L1 (h, x) = Inr (h, x1)"
    using notes_checkpointsD [OF lib] by blast
  have stats: "stat_path (l1_ckpt c cid) f = -1" "stat_path ?mt f = -1" "stat_path ?tmp f = -1"
    using fl by (simp_all add: l1_ckpt_def)
  have "stage_l2l1 indet lib c cid ?tmp ?mt (f, x) = Inr (h, x1)"
    unfolding stage_l2l1_def Let_def fst_conv snd_conv s stats io_try_def
    using fab(1,2) f'(1) gh(1,2) x1 pre(2) by simp
  moreover have "holds (l1_ckpt c cid) cid (app_body c) parts h"
    using f'(3) unfolding holds_def pulled_def read_file_def gh(4)
    by (simp add: list_all2_conv_all_nth nth_enumerate_eq)
  moreover have "read_file (l1_meta_ckpt c cid @ [group_file c i]) h = Some (empty_lines indet i)"
    if "group_rank c = 0" "i < length (app_body c)" for i
  proof -
    have "(i, app_body c ! i) \<in> set ?ips" using that(2) by (simp add: in_set_enumerate_eq)
    with f'(3) that(1) have "read_file (?mt @ [group_file c i]) f' = Some (empty_lines indet i)"
      unfolding pulled_def by force
    then show ?thesis unfolding read_file_def gh(5) .
  qed
  moreover have "entry q h = entry q f" if q: "\<not> below (l1_base c) q" "\<not> below (l1_meta_base c) q" for q
  proof -
    have "q \<notin> pull_targets c cid ?tmp ?mt ?ips" using q targets_below below_prefix by meson
    then show ?thesis using q gh(6) [OF q] e [of q] by auto
  qed
  ultimately show ?thesis using gh(3) x1 by blast
qed

section \<open>There and back\<close>

lemma io_stage_push:
  "to_ckpt_id s = Inr cid \<Longrightarrow>
     io_stage indet lib c (u, u', u'') s IO_STORAGE_L1 IO_STORAGE_L2 w = stage_l1l2 lib c cid (global_dir c @ [u]) w"
  by (simp add: io_stage_def fti_level_def)

lemma io_stage_pull:
  "to_ckpt_id s = Inr cid \<Longrightarrow>
     io_stage indet lib c (u, u', u'') s IO_STORAGE_L2 IO_STORAGE_L1 w =
       stage_l2l1 indet lib c cid (l1_base c @ [u']) (l1_meta_base c @ [u'']) w"
  by (simp add: io_stage_def fti_level_def)

text \<open>A directory tree with two processes' files, for the examples.\<close>

definition node_conf :: "string \<Rightarrow> fti_conf" where
  "node_conf n = \<lparr>global_dir = [''pfs''], local_dir = [n], meta_dir = [n, ''meta''], exec_id = ''exec'', ckpt_suffix = ''fti'',
     master_global = True, group_rank = 0, sector_id = 0, app_body = [0, 1], proc_sizes = [3, 2], io_rank = 0\<rparr>"

definition silent_lib :: "unit fti_lib" where
  "silent_lib = \<lparr>fti_stat_local = (\<lambda>_ _. False), fti_stat_global = (\<lambda>_ _. False),
     fti_update_ckpt_metadata = (\<lambda>_ _ w. (True, w)), fti_remove_ckpt_metadata = (\<lambda>_ _ w. (True, w)),
     fti_remove = (\<lambda>_ _ w. (True, w))\<rparr>"

definition node_dirs :: "string \<Rightarrow> fs" where
  "node_dirs n = [([n, ''meta'', ''exec'', ''l1''], Directory), ([n, ''meta'', ''exec''], Directory), ([n, ''meta''], Directory),
     ([n, ''exec'', ''l1''], Directory), ([n, ''exec''], Directory), ([n], Directory),
     ([''pfs''], Directory), ([], Directory)]"

definition node_with_state :: "string \<Rightarrow> fs" where
  "node_with_state n =
     (let d = [n, ''exec'', ''l1'', dec 7] in
      (d @ [rank_file 7 0 ''fti''], Regular ''abc'') # (d @ [rank_file 7 1 ''fti''], Regular ''de'') # (d, Directory) # node_dirs n)"

definition pfs_with_state :: "string \<Rightarrow> fs" where
  "pfs_with_state n =
     (let d = [''pfs'', dec 7] in (d @ [serialized_file ''Ckpt'' 7], Regular ''abcde'') #
        (d @ [serialized_file ''Meta'' 7], Regular ''1 line'') # (d, Directory) # node_dirs n)"

lemma dec_7: "dec 7 = ''7''"
  by code_simp

lemma silent_lib_notes: "notes_checkpoints silent_lib"
  by (simp add: notes_checkpoints_def silent_lib_def)

lemma example_id: "to_ckpt_id \<lparr>st_t = 0, st_id = 7\<rparr> = Inr 7"
  by (simp add: to_ckpt_id_def int_value_def)

lemma example_push:
  "can_push (node_conf ''n1'') 7 ''uuid'' (node_with_state ''n1'')"
  "holds (l1_ckpt (node_conf ''n1'') 7) 7 (app_body (node_conf ''n1'')) [''abc'', ''de''] (node_with_state ''n1'')"
  "proc_sizes (node_conf ''n1'') = map length [''abc'', ''de'']"
  by (simp_all add: can_push_def fs_wf_def node_conf_def node_with_state_def node_dirs_def dec_7 l2_ckpt_def holds_def
      l1_ckpt_def l1_base_def read_file_def Let_def)

lemma example_pull:
  "can_pull (node_conf ''n2'') 7 ''uuid'' ''uuid2'' (pfs_with_state ''n2'')"
  "global_dir (node_conf ''n2'') = global_dir (node_conf ''n1'')" "proc_sizes (node_conf ''n2'') = proc_sizes (node_conf ''n1'')"
  "length (app_body (node_conf ''n2'')) = length [''abc'', ''de'']"
  "read_file (l2_ckpt (node_conf ''n2'') 7 @ [serialized_file ''Ckpt'' 7]) (pfs_with_state ''n2'') = Some (concat [''abc'', ''de''])"
  by (simp_all add: can_pull_def fs_wf_def node_conf_def pfs_with_state_def node_dirs_def dec_7 l2_ckpt_def fresh_level_def
      l1_base_def l1_meta_base_def apart_def below_def read_file_def Let_def kinds_differ)

lemma example_meta:
  "read_file (l2_ckpt (node_conf ''n2'') 7 @ [serialized_file ''Meta'' 7]) (pfs_with_state ''n2'') = Some ''1 line''"
  "group_rank (node_conf ''n2'') = 0" "0 < length (app_body (node_conf ''n2''))"
  by (simp_all add: node_conf_def pfs_with_state_def l2_ckpt_def read_file_def Let_def kinds_differ [THEN not_sym])

text \<open>
  C16. A state pushed to the global file system by one runner and pulled by another (or the same
  after its local copy is gone) is the same state: the push succeeds and the global file is the
  concatenation of the processes' files, and in any later file system that still has this file and
  room for the checkpoint, the pull by a runner with as many processes of the same sizes succeeds
  and leaves in its local checkpoint the same file for each process, whatever the processes'
  numbers, directories and the unset counts of metadata lines are.
\<close>

theorem staging_roundtrip:
  assumes "to_ckpt_id s = Inr cid" "notes_checkpoints lib"
    and "can_push c cid u f" "holds (l1_ckpt c cid) cid (app_body c) parts f" "proc_sizes c = map length parts"
    and "can_pull c' cid u' u'' f'" "global_dir c' = global_dir c" "proc_sizes c' = proc_sizes c"
      "length (app_body c') = length parts"
  shows "\<exists>f1 x1. io_stage indet lib c (u, v, v') s IO_STORAGE_L1 IO_STORAGE_L2 (f, x) = Inr (f1, x1) \<and>
     read_file (l2_ckpt c cid @ [serialized_file ''Ckpt'' cid]) f1 = Some (concat parts) \<and>
     (\<forall>q. \<not> below (l2_ckpt c cid) q \<longrightarrow> entry q f1 = entry q f) \<and>
     (read_file (l2_ckpt c cid @ [serialized_file ''Ckpt'' cid]) f' =
        read_file (l2_ckpt c cid @ [serialized_file ''Ckpt'' cid]) f1 \<longrightarrow>
      (\<exists>f2 x2. io_stage indet lib c' (v'', u', u'') s IO_STORAGE_L2 IO_STORAGE_L1 (f', x') = Inr (f2, x2) \<and>
         holds (l1_ckpt c' cid) cid (app_body c') parts f2 \<and>
         (\<forall>q. \<not> below (l1_base c') q \<and> \<not> below (l1_meta_base c') q \<longrightarrow> entry q f2 = entry q f')))"
proof -
  have l2: "l2_ckpt c' cid = l2_ckpt c cid" using assms(7) by (simp add: l2_ckpt_def)
  have n: "proc_sizes c' = map length parts" using assms(5,8) by simp
  from push_ok [OF assms(3,4,5,2)] pull_ok [OF assms(6) n assms(9) _ assms(2), unfolded l2]
  show ?thesis unfolding io_stage_push [OF assms(1)] io_stage_pull [OF assms(1)] by (metis (no_types, lifting))
qed

theorem staging_roundtrip_witness:
  "\<exists>f1 x1 f2 x2. io_stage (\<lambda>_. 5) silent_lib (node_conf ''n1'') (''uuid'', ''a'', ''b'') \<lparr>st_t = 0, st_id = 7\<rparr>
       IO_STORAGE_L1 IO_STORAGE_L2 (node_with_state ''n1'', ()) = Inr (f1, x1) \<and>
     io_stage (\<lambda>_. 5) silent_lib (node_conf ''n2'') (''c'', ''uuid'', ''uuid2'') \<lparr>st_t = 0, st_id = 7\<rparr>
       IO_STORAGE_L2 IO_STORAGE_L1 (pfs_with_state ''n2'', ()) = Inr (f2, x2) \<and>
     holds (l1_ckpt (node_conf ''n2'') 7) 7 [0, 1] [''abc'', ''de''] f2"
proof -
  have "l2_ckpt (node_conf ''n2'') 7 = l2_ckpt (node_conf ''n1'') 7" "app_body (node_conf ''n2'') = [0, 1]"
    by (simp_all add: l2_ckpt_def node_conf_def)
  with staging_roundtrip [OF example_id silent_lib_notes example_push example_pull(1-4),
      of "\<lambda>_. 5" "''a''" "''b''" "()" "''c''" "()"] example_pull(5)
  show ?thesis by (metis (no_types, lifting))
qed

text \<open>
  C33. Pulling a state loses the metadata of the checkpoint. stage\_l2l1 closes the stream of the
  metadata before the loop that copies from it; getline leaves its string empty on the closed
  stream, sscanf finds no digit in it and does not assign the number of lines. So whatever the
  global metadata file holds, the function reports success and every metadata file of the node
  consists of empty lines only, as many as the uninitialised variable said.
\<close>

theorem metadata_is_lost:
  assumes "to_ckpt_id s = Inr cid" "notes_checkpoints lib" "can_pull c cid u' u'' f"
    and "proc_sizes c = map length parts" "length (app_body c) = length parts" "group_rank c = 0"
    and "read_file (l2_ckpt c cid @ [serialized_file ''Ckpt'' cid]) f = Some (concat parts)"
    and "read_file (l2_ckpt c cid @ [serialized_file ''Meta'' cid]) f = Some metadata"
    and "i < length (app_body c)"
  shows "\<exists>f2 x2. io_stage indet lib c (u, u', u'') s IO_STORAGE_L2 IO_STORAGE_L1 (f, x) = Inr (f2, x2) \<and>
     read_file (l1_meta_ckpt c cid @ [group_file c i]) f2 = Some (replicate (indet i) (CHR 0x0A))"
  using pull_ok [OF assms(3,4,5,7,2), of indet x] assms(6,9)
  unfolding io_stage_pull [OF assms(1)] empty_lines_def by (metis (no_types, lifting))

theorem metadata_is_lost_witness:
  "\<exists>f2 x2. io_stage (\<lambda>_. 5) silent_lib (node_conf ''n2'') (''c'', ''uuid'', ''uuid2'') \<lparr>st_t = 0, st_id = 7\<rparr>
       IO_STORAGE_L2 IO_STORAGE_L1 (pfs_with_state ''n2'', ()) = Inr (f2, x2) \<and>
     read_file (l1_meta_ckpt (node_conf ''n2'') 7 @ [group_file (node_conf ''n2'') 0]) f2 = Some (replicate 5 (CHR 0x0A))"
proof -
  have "proc_sizes (node_conf ''n2'') = map length [''abc'', ''de'']" by (simp add: node_conf_def)
  from metadata_is_lost [OF example_id silent_lib_notes example_pull(1) this example_pull(4) example_meta(2)
      example_pull(5) example_meta(1,3), of "\<lambda>_. 5" "''c''" "()"]
  show ?thesis .
qed

end
