(* ===== verification/Storage.thy ===== *)
theory Storage
  imports StagingInv
begin

text \<open>
  The storage controller of the peer-to-peer mode (storage\_controller.cxx): the worker process of
  a node keeps the states of the node's runner in a pool of slots, copies new states to the global
  file system, pulls states back, and asks the weight server what to prefetch and what to delete.
\<close>

section \<open>The state pool\<close>

record state_pool =
  pool_capacity :: nat
  pool_used :: int

definition pool_free :: "state_pool \<Rightarrow> nat" where
  "pool_free p = size64 (int (pool_capacity p) - pool_used p)"

text \<open>The comparison with the capacity is one of unsigned numbers.\<close>

definition pool_inc :: "state_pool \<Rightarrow> state_pool res" where
  "pool_inc p = (let u = pool_used p + 1 in assert_then (size64 u \<le> pool_capacity p) (Inr (p\<lparr>pool_used := u\<rparr>)))"

definition pool_dec :: "state_pool \<Rightarrow> state_pool res" where
  "pool_dec p = (let u = pool_used p - 1 in assert_then (0 \<le> u) (Inr (p\<lparr>pool_used := u\<rparr>)))"

definition STORAGE_MAX_PREFETCH :: nat where
  "STORAGE_MAX_PREFETCH = 4"

text \<open>What callback computes from the storage in bytes and the sizes of the processes' states.\<close>

definition node_size :: "nat list \<Rightarrow> nat" where
  "node_size sizes = size64 (int (sum_list sizes))"

definition init_pool :: "nat \<Rightarrow> nat list \<Rightarrow> state_pool res" where
  "init_pool capacity sizes =
     (if node_size sizes = 0 then Inl Undefined_behaviour
      else
        let slots = capacity div node_size sizes in
        io_try (\<not> 3 > slots)
          (let rest = size_minus slots 2; prefetch = size_minus rest 2
           in Inr \<lparr>pool_capacity = (if prefetch < STORAGE_MAX_PREFETCH then prefetch else STORAGE_MAX_PREFETCH),
                   pool_used = 0\<rparr>))"

section \<open>Messages and state of the worker\<close>

datatype message =
    Weight int io_state_id int
  | Prefetch_request int "io_state_id list" nat nat
  | Delete_request int "io_state_id list"
  | Prefetch_response "io_state_id list" "io_state_id list"
  | Delete_response io_state_id
  | No_content int
  | Other_message

text \<open>Reading a field of a message of another kind gives its default.\<close>

definition to_delete :: "message \<Rightarrow> io_state_id" where
  "to_delete r = (case r of Delete_response s \<Rightarrow> s | _ \<Rightarrow> \<lparr>st_t = 0, st_id = 0\<rparr>)"

definition pull_states :: "message \<Rightarrow> io_state_id list" where
  "pull_states r = (case r of Prefetch_response ps ds \<Rightarrow> ps | _ \<Rightarrow> [])"

definition dump_states :: "message \<Rightarrow> io_state_id list" where
  "dump_states r = (case r of Prefetch_response ps ds \<Rightarrow> ds | _ \<Rightarrow> [])"

text \<open>
  What the worker uses besides its own state: the FTI library and configuration, the names
  make\_uuid draws and the unset counts of the stagings, the runner id, and the server, which
  answers the last request of a history of requests, or never does.
\<close>

record 'f env =
  env_lib :: "'f fti_lib"
  env_conf :: fti_conf
  env_uuid :: "nat \<Rightarrow> string \<times> string \<times> string"
  env_indet :: "nat \<Rightarrow> nat \<Rightarrow> nat"
  env_runner_id :: int
  env_server :: "message list \<Rightarrow> message option"

text \<open>
  \<open>requests\<close> are the messages sent to the server; \<open>posts\<close>, \<open>loads\<close> and \<open>finis\<close> the messages of the
  application processes.
\<close>

record 'f worker =
  files :: "'f world"
  stagings :: nat
  pool :: state_pool
  cached_states :: "(int, io_state_id) om"
  ckpted_states :: "(int, io_state_id) om"
  pull_requests :: "io_state_id list"
  del_q :: "io_state_id list"
  last_assimilation_cycle :: int
  next_try_delete :: int
  requests :: "message list"
  posts :: "message list"
  loads :: "io_state_id list list"
  finis :: nat
  loads_answered :: nat
  finis_answered :: nat

type_synonym 'f step = "'f worker \<Rightarrow> 'f worker res"

text \<open>A request to the server and its answer.\<close>

definition ask_server :: "'f env \<Rightarrow> message \<Rightarrow> 'f worker \<Rightarrow> (message \<times> 'f worker) res" where
  "ask_server e m w =
     (case env_server e (requests w @ [m]) of
        None \<Rightarrow> Inl Blocked
      | Some r \<Rightarrow> Inr (r, w\<lparr>requests := requests w @ [m]\<rparr>))"

section \<open>Operations on the files\<close>

definition on_files :: "('f world \<Rightarrow> 'f world res) \<Rightarrow> 'f step" where
  "on_files g w = and_then (g (files w)) (\<lambda>fs. Inr (w\<lparr>files := fs\<rparr>))"

definition on_pool :: "(state_pool \<Rightarrow> state_pool res) \<Rightarrow> 'f step" where
  "on_pool g w = and_then (g (pool w)) (\<lambda>p. Inr (w\<lparr>pool := p\<rparr>))"

definition local_state :: "'f env \<Rightarrow> io_state_id \<Rightarrow> 'f worker \<Rightarrow> bool res" where
  "local_state e s w = is_local (env_lib e) s (files w)"

definition remove_state :: "'f env \<Rightarrow> io_state_id \<Rightarrow> io_level \<Rightarrow> 'f step" where
  "remove_state e s level = on_files (io_remove (env_lib e) (env_conf e) s level)"

definition stage_state :: "'f env \<Rightarrow> io_state_id \<Rightarrow> io_level \<Rightarrow> io_level \<Rightarrow> 'f step" where
  "stage_state e s lfrom lto w =
     and_then (on_files (io_stage (env_indet e (stagings w)) (env_lib e) (env_conf e) (env_uuid e (stagings w)) s lfrom lto) w)
       (\<lambda>w. Inr (w\<lparr>stagings := stagings w + 1\<rparr>))"

definition cache_state :: "io_state_id \<Rightarrow> 'f step" where
  "cache_state s w =
     and_then (to_ckpt_id s) (\<lambda>cid. Inr (w\<lparr>cached_states := om_emplace cid s (cached_states w)\<rparr>))"

section \<open>Requests to the server\<close>

text \<open>The request to delete gets its content only when a cached state is added to it.\<close>

definition delete_message :: "int \<Rightarrow> io_state_id list \<Rightarrow> message" where
  "delete_message r ss = (if ss = [] then No_content r else Delete_request r ss)"

definition delete_request :: "'f env \<Rightarrow> 'f step" where
  "delete_request e w =
     and_then (ask_server e (delete_message (env_runner_id e) (map snd (cached_states w))) w) (\<lambda>(r, w).
     let s = to_delete r in
     and_then (remove_state e s IO_STORAGE_L1 w) (\<lambda>w.
     and_then (to_ckpt_id s) (\<lambda>cid.
     io_try (stat_path (l1_ckpt (env_conf e) cid) (fst (files w)) = -1)
      (and_then (local_state e s w) (\<lambda>loc.
       assert_then (\<not> loc)
        (and_then (on_pool pool_dec w) (\<lambda>w. Inr (w\<lparr>cached_states := om_erase cid (cached_states w)\<rparr>))))))))"

fun dump_all :: "'f env \<Rightarrow> io_state_id list \<Rightarrow> 'f step" where
  "dump_all e [] w = Inr w"
| "dump_all e (s # ss) w =
     and_then (remove_state e s IO_STORAGE_L1 w) (\<lambda>w. and_then (on_pool pool_dec w) (dump_all e ss))"

definition prefetch_request :: "'f env \<Rightarrow> 'f step" where
  "prefetch_request e w =
     and_then (ask_server e (Prefetch_request (env_runner_id e) (map snd (cached_states w))
                 (pool_capacity (pool w)) (pool_free (pool w))) w) (\<lambda>(r, w).
     dump_all e (dump_states r) (w\<lparr>pull_requests := pull_requests w @ pull_states r\<rparr>))"

text \<open>A weight is forwarded; the state may be deleted from the global file system later.\<close>

definition push_weight_to_server :: "'f env \<Rightarrow> io_state_id \<Rightarrow> message \<Rightarrow> 'f step" where
  "push_weight_to_server e s m w =
     and_then (ask_server e m w) (\<lambda>(_, w).
     Inr (w\<lparr>last_assimilation_cycle :=
               (if st_t s > last_assimilation_cycle w then st_t s else last_assimilation_cycle w),
            del_q := del_q w @ [s]\<rparr>))"

lemma pool_dec_iff: "pool_dec p = Inr p' \<longleftrightarrow> 1 \<le> pool_used p \<and> p' = p\<lparr>pool_used := pool_used p - 1\<rparr>"
  by (auto simp: pool_dec_def Let_def)

text \<open>Every successful request to delete frees a slot.\<close>

lemma delete_request_used:
  "delete_request e w = Inr w' \<Longrightarrow> 1 \<le> pool_used (pool w) \<and> pool_used (pool w') = pool_used (pool w) - 1 \<and>
     pool_capacity (pool w') = pool_capacity (pool w)"
  by (auto simp: delete_request_def and_then_Inr_iff ask_server_def remove_state_def on_files_def on_pool_def
      pool_dec_iff Let_def io_try_def split: if_splits option.splits)

section \<open>Pulling a state\<close>

function make_room :: "'f env \<Rightarrow> 'f worker \<Rightarrow> 'f worker res" where
  "make_room e w = (if pool_free (pool w) \<le> 1 then and_then (delete_request e w) (make_room e) else Inr w)"
  by pat_completeness auto

termination
  by (relation "measure (\<lambda>(e, w). nat (pool_used (pool w)))") (auto dest: delete_request_used)

declare make_room.simps [simp del]

definition pull_head :: "'f env \<Rightarrow> io_state_id \<Rightarrow> 'f step" where
  "pull_head e s w =
     and_then (local_state e s w) (\<lambda>loc.
     if loc then Inr w
     else
       and_then (make_room e w) (\<lambda>w.
       and_then (local_state e s w) (\<lambda>loc.
       and_then (if loc then Inr w else stage_state e s IO_STORAGE_L2 IO_STORAGE_L1 w) (\<lambda>w.
       and_then (cache_state s w) (\<lambda>w.
       and_then (local_state e s w) (\<lambda>loc.
       assert_then loc (on_pool pool_inc w)))))))"

definition copy_state :: "'f env \<Rightarrow> io_state_id \<Rightarrow> io_level \<Rightarrow> io_level \<Rightarrow> 'f step" where
  "copy_state e s lfrom lto w =
     and_then (if lto = IO_STORAGE_L1 \<and> pool_free (pool w) = 0 then delete_request e w else Inr w) (\<lambda>w.
     and_then (stage_state e s lfrom lto w) (\<lambda>w.
     if lto = IO_STORAGE_L1 then on_pool pool_inc w else Inr w))"

section \<open>The events\<close>

definition request_post :: "'f env \<Rightarrow> 'f step" where
  "request_post e w =
     (case posts w of
        [] \<Rightarrow> Inl Blocked
      | m # ms \<Rightarrow>
          let w = w\<lparr>posts := ms\<rparr> in
          (case m of
             Weight r s weight \<Rightarrow>
               and_then (to_ckpt_id s) (\<lambda>cid.
               and_then (on_files (update_metadata (env_lib e) cid IO_STORAGE_L1) w) (\<lambda>w.
               and_then (local_state e s w) (\<lambda>loc.
               assert_then loc
                (and_then (stage_state e s IO_STORAGE_L1 IO_STORAGE_L2 w) (\<lambda>w.
                 let w = w\<lparr>ckpted_states := om_emplace cid s (ckpted_states w)\<rparr> in
                 and_then (push_weight_to_server e s m w) (\<lambda>w.
                 and_then (cache_state s w) (\<lambda>w.
                 and_then (on_pool pool_inc w) (\<lambda>w.
                 and_then (if pool_free (pool w) = 0 then delete_request e w else Inr w) (prefetch_request e)))))))))
           | _ \<Rightarrow> Inl Assertion_failed))"

definition request_load :: "'f env \<Rightarrow> 'f step" where
  "request_load e w =
     (case loads w of
        [] \<Rightarrow> Inl Blocked
      | ids # ls \<Rightarrow>
          if ids = [] then Inl Undefined_behaviour
          else and_then (pull_head e (hd ids) (w\<lparr>loads := ls\<rparr>)) (\<lambda>w. Inr (w\<lparr>loads_answered := loads_answered w + 1\<rparr>)))"

definition request_pull :: "'f env \<Rightarrow> 'f step" where
  "request_pull e w =
     (case pull_requests w of
        [] \<Rightarrow> Inr w
      | s # _ \<Rightarrow>
          and_then (local_state e s w) (\<lambda>loc.
          and_then (if loc then Inr w else pull_head e s w) (\<lambda>w. Inr (w\<lparr>pull_requests := tl (pull_requests w)\<rparr>))))"

definition request_fini :: "'f step" where
  "request_fini w = (if finis w = 0 then Inl Blocked else Inr (w\<lparr>finis := finis w - 1, finis_answered := finis_answered w + 1\<rparr>))"

text \<open>States of past cycles are removed from the global file system, from the front of the queue.\<close>

fun auto_delete :: "'f env \<Rightarrow> io_state_id list \<Rightarrow> 'f step" where
  "auto_delete e [] w = Inr (w\<lparr>del_q := []\<rparr>)"
| "auto_delete e (s # q) w =
     (if st_t s < last_assimilation_cycle w - 1
      then and_then (remove_state e s IO_STORAGE_L2 w) (auto_delete e q)
      else Inr (w\<lparr>del_q := s # q\<rparr>))"

text \<open>One turn of the head loop; \<open>now\<close> is the time.\<close>

definition worker_callback :: "'f env \<Rightarrow> int \<Rightarrow> 'f step" where
  "worker_callback e now w =
     (if posts w \<noteq> [] then request_post e w
      else if loads w \<noteq> [] then request_load e w
      else if pull_requests w \<noteq> [] then request_pull e w
      else if finis w \<noteq> 0 then request_fini w
      else if now > next_try_delete w then auto_delete e (del_q w) (w\<lparr>next_try_delete := now + 10\<rparr>)
      else Inr w)"

section \<open>The application processes\<close>

text \<open>
  The application side of a load: \<open>ask\<close> sends the request to the worker and waits for its answer,
  \<open>load\<close> is the library's load. The loop may not end.
\<close>

lemma case_sum_mono [partial_function_mono]:
  "(\<And>a. mono_option (\<lambda>f. F f a)) \<Longrightarrow> (\<And>b. mono_option (\<lambda>f. G f b)) \<Longrightarrow>
     mono_option (\<lambda>f. case x of Inl a \<Rightarrow> F f a | Inr b \<Rightarrow> G f b)"
  by (cases x) simp_all

partial_function (option) load_loop ::
  "('w \<Rightarrow> 'w res) \<Rightarrow> ('w \<Rightarrow> bool \<times> 'w) \<Rightarrow> 'w \<Rightarrow> 'w res option" where
  "load_loop ask load w =
     (case load w of (ok, w) \<Rightarrow>
        if ok then Some (Inr w)
        else (case ask w of Inl err \<Rightarrow> Some (Inl err) | Inr w \<Rightarrow> load_loop ask load w))"

definition load_user ::
  "('w \<Rightarrow> bool res) \<Rightarrow> ('w \<Rightarrow> 'w res) \<Rightarrow> ('w \<Rightarrow> bool \<times> 'w) \<Rightarrow> 'w \<Rightarrow> 'w res option" where
  "load_user loc ask load w =
     (case and_then (loc w) (\<lambda>l.
             if l then Inr w
             else and_then (ask w) (\<lambda>w. and_then (loc w) (\<lambda>l. assert_then l (Inr w)))) of
        Inl err \<Rightarrow> Some (Inl err)
      | Inr w \<Rightarrow> load_loop ask load w)"

end
