(* ===== verification/StorageInv.thy ===== *)
theory StorageInv
  imports Storage "HOL-Library.Sublist"
begin

text \<open>
  What the storage controller keeps: the number of slots, and the pool as a count of the cached
  states, a refinement of a bounded cache as long as the server answers as asked.
\<close>

section \<open>The number of slots\<close>

text \<open>
  C32. The capacity of the pool for a storage of so many whole node states: fewer than three slots
  are refused; from four slots on the pool has the slots left after the reservation of four, at
  most four; but with exactly three slots, the documented minimum, the unsigned difference wraps
  and the pool has four slots, more than the storage holds.
\<close>

theorem pool_capacity_of_slots:
  assumes "node_size sizes \<noteq> 0" "capacity < 2 ^ 64" "slots = capacity div node_size sizes"
  shows "init_pool capacity sizes =
     (if slots < 3 then Inl Io_exception
      else Inr \<lparr>pool_capacity = (if slots = 3 then 4 else min (slots - 4) 4), pool_used = 0\<rparr>)"
proof -
  have "slots < 2 ^ 64" using assms(2,3) div_le_dividend le_less_trans by blast
  moreover have "size_minus 1 2 = 2 ^ 64 - 1" by (simp add: size_minus_def size64_def)
  ultimately show ?thesis
    using assms by (cases "slots = 3") (auto simp: init_pool_def io_try_def Let_def size_minus_le STORAGE_MAX_PREFETCH_def)
qed

theorem pool_capacity_of_slots_witness:
  "init_pool 350 [60, 40] = Inr \<lparr>pool_capacity = 4, pool_used = 0\<rparr> \<and>
     init_pool 450 [60, 40] = Inr \<lparr>pool_capacity = 0, pool_used = 0\<rparr>"
  using pool_capacity_of_slots [of "[60, 40]" 350 3] pool_capacity_of_slots [of "[60, 40]" 450 4]
  by (simp add: node_size_def size64_def)

section \<open>Making room\<close>

lemma pool_free_nonneg:
  "0 \<le> pool_used p \<Longrightarrow> pool_used p \<le> int (pool_capacity p) \<Longrightarrow> pool_capacity p < 2 ^ 64 \<Longrightarrow>
     int (pool_free p) = int (pool_capacity p) - pool_used p"
  by (simp add: pool_free_def size64_id)

lemma pool_inc_iff:
  "0 \<le> pool_used p \<Longrightarrow> pool_used p \<le> int (pool_capacity p) \<Longrightarrow> pool_capacity p < 2 ^ 32 \<Longrightarrow>
     pool_inc p = Inr p' \<longleftrightarrow> pool_used p < int (pool_capacity p) \<and> p' = p\<lparr>pool_used := pool_used p + 1\<rparr>"
  by (auto simp: pool_inc_def Let_def size64_id)

lemma make_room_free: "make_room e w = Inr w' \<Longrightarrow> 1 < pool_free (pool w')"
proof (induction e w rule: make_room.induct)
  case (1 e w)
  then show ?case by (subst (asm) make_room.simps) (auto simp: and_then_Inr_iff split: if_splits)
qed

definition pool_range :: "state_pool \<Rightarrow> bool" where
  "pool_range p \<longleftrightarrow> 0 \<le> pool_used p \<and> pool_used p \<le> int (pool_capacity p) \<and> pool_capacity p < 2 ^ 32"

lemma delete_request_range:
  "delete_request e w = Inr w' \<Longrightarrow> pool_range (pool w) \<Longrightarrow> pool_range (pool w')"
  using delete_request_used [of e w w'] by (auto simp: pool_range_def)

lemma make_room_pool:
  "make_room e w = Inr w' \<Longrightarrow> pool_range (pool w) \<Longrightarrow>
     pool_range (pool w') \<and> pool_capacity (pool w') = pool_capacity (pool w)"
proof (induction e w rule: make_room.induct)
  case (1 e w)
  show ?case
  proof (cases "pool_free (pool w) \<le> 1")
    case True
    then obtain v where v: "delete_request e w = Inr v" "make_room e v = Inr w'"
      using "1.prems"(1) by (subst (asm) make_room.simps) (auto simp: and_then_Inr_iff)
    then show ?thesis
      using "1.IH" [OF True v(1,2)] delete_request_range [OF v(1) "1.prems"(2)] delete_request_used [OF v(1)] by simp
  next
    case False
    then show ?thesis using "1.prems" by (subst (asm) make_room.simps) simp
  qed
qed

text \<open>
  A pool with at most one slot, which is what a storage of four or five slots gives, can never
  take a state from the global file system: freeing slots goes on until the count underflows or the
  server does not answer, so no pull of a state that is not local succeeds; and when nothing is
  cached, the first request has no content, and with a server that does not answer such a request
  the worker waits for ever.
\<close>

theorem small_pool_cannot_pull:
  assumes "pool_range (pool w)" "pool_capacity (pool w) \<le> 1" "local_state e s w = Inr False"
  shows "(\<exists>er. pull_head e s w = Inl er) \<and>
     (cached_states w = [] \<and> env_server e (requests w @ [No_content (env_runner_id e)]) = None \<longrightarrow>
        pull_head e s w = Inl Blocked)"
proof -
  have "make_room e w \<noteq> Inr w'" for w'
  proof
    assume m: "make_room e w = Inr w'"
    have "pool_free (pool w') \<le> 1"
      using make_room_pool [OF m assms(1)] assms(2) pool_free_nonneg [of "pool w'"] by (auto simp: pool_range_def)
    then show False using make_room_free [OF m] by simp
  qed
  then obtain er where "make_room e w = Inl er" by (cases "make_room e w") auto
  moreover have "make_room e w = Inl Blocked"
    if "cached_states w = []" "env_server e (requests w @ [No_content (env_runner_id e)]) = None"
  proof -
    have "pool_free (pool w) \<le> 1"
      using assms(1,2) pool_free_nonneg [of "pool w"] by (auto simp: pool_range_def)
    then show ?thesis
      using that by (subst make_room.simps) (simp add: delete_request_def ask_server_def delete_message_def)
  qed
  ultimately show ?thesis using assms(3) by (simp add: pull_head_def)
qed

definition fresh_worker :: "nat \<Rightarrow> 'f world \<Rightarrow> 'f worker" where
  "fresh_worker capacity fs =
     \<lparr>files = fs, stagings = 0, pool = \<lparr>pool_capacity = capacity, pool_used = 0\<rparr>, cached_states = [], ckpted_states = [],
      pull_requests = [], del_q = [], last_assimilation_cycle = 1, next_try_delete = 0, requests = [], posts = [],
      loads = [], finis = 0, loads_answered = 0, finis_answered = 0\<rparr>"

definition silent_env :: "unit env" where
  "silent_env = \<lparr>env_lib = silent_lib, env_conf = node_conf ''n2'', env_uuid = (\<lambda>_. (''u'', ''u1'', ''u2'')),
     env_indet = (\<lambda>_ _. 0), env_runner_id = 3, env_server = (\<lambda>_. None)\<rparr>"

theorem small_pool_cannot_pull_witness:
  "pull_head silent_env \<lparr>st_t = 0, st_id = 7\<rparr> (fresh_worker 1 (pfs_with_state ''n2'', ())) = Inl Blocked"
  using small_pool_cannot_pull [of "fresh_worker 1 (pfs_with_state ''n2'', ())" silent_env "\<lparr>st_t = 0, st_id = 7\<rparr>"]
  by (simp add: pool_range_def fresh_worker_def local_state_def silent_env_def silent_lib_def is_local_def example_id)

section \<open>The pool counts the cached states\<close>

text \<open>
  The contract with FTI: which checkpoints are local is a matter of the library's own record;
  noting a checkpoint on level 1 makes it local, a successful removal from level 1 makes it not
  local, and neither, nor the removal from level 4, concerns any other checkpoint.
\<close>

definition lib_ok :: "'f fti_lib \<Rightarrow> bool" where
  "lib_ok lib \<longleftrightarrow> notes_checkpoints lib \<and>
     (\<forall>d cid l w. fti_stat_local lib d (snd (fti_update_ckpt_metadata lib cid l w)) = (l = 1 \<and> d = cid \<or> fti_stat_local lib d w)) \<and>
     (\<forall>d cid w. fst (fti_remove lib cid 1 w) \<longrightarrow>
        fti_stat_local lib d (snd (fti_remove lib cid 1 w)) = (d \<noteq> cid \<and> fti_stat_local lib d w)) \<and>
     (\<forall>d cid w. fti_stat_local lib d (snd (fti_remove_ckpt_metadata lib cid 4 w)) = fti_stat_local lib d w) \<and>
     (\<forall>d f f' x. fti_stat_local lib d (f, x) = fti_stat_local lib d (f', x))"

lemma lib_okD:
  assumes "lib_ok lib"
  shows "fti_stat_local lib d (snd (fti_update_ckpt_metadata lib cid l w)) = (l = 1 \<and> d = cid \<or> fti_stat_local lib d w)"
    "fst (fti_remove lib cid 1 w) \<Longrightarrow> fti_stat_local lib d (snd (fti_remove lib cid 1 w)) = (d \<noteq> cid \<and> fti_stat_local lib d w)"
    "fti_stat_local lib d (snd (fti_remove_ckpt_metadata lib cid 4 w)) = fti_stat_local lib d w"
    "NO_MATCH w (f, x) \<Longrightarrow> fti_stat_local lib d (f, x) = fti_stat_local lib d (fst w, x)"
  using assms unfolding lib_ok_def by blast+

lemma local_files: "lib_ok lib \<Longrightarrow> fti_stat_local lib d (f, x) \<Longrightarrow> fti_stat_local lib d (f', x)"
  unfolding lib_ok_def by blast

lemma io_try_Inr_iff [simp]: "io_try b k = Inr x \<longleftrightarrow> b \<and> k = Inr x"
  by (simp add: io_try_def)

lemma update_local:
  "update_metadata lib cid level w = Inr w' \<Longrightarrow> lib_ok lib \<Longrightarrow>
     fti_stat_local lib d w' = (level = IO_STORAGE_L1 \<and> d = cid \<or> fti_stat_local lib d w)"
  using lib_okD(1) [of lib d cid "case fti_level level of Some l \<Rightarrow> l | None \<Rightarrow> 0" w]
  by (cases level) (auto simp: update_metadata_def io_try_def fti_level_def split: prod.splits if_splits)

lemma remove_local:
  assumes "io_remove lib c s level w = Inr w'" "lib_ok lib"
  shows "fti_stat_local lib d w' = (fti_stat_local lib d w \<and> (level = IO_STORAGE_L1 \<longrightarrow> to_ckpt_id s \<noteq> Inr d))"
proof (cases level)
  case IO_STORAGE_L1
  then obtain cid where "to_ckpt_id s = Inr cid" "fst (fti_remove lib cid 1 w)" "w' = snd (fti_remove lib cid 1 w)"
    using assms(1) by (auto simp: io_remove_def and_then_Inr_iff case_prod_beta)
  then show ?thesis using lib_okD(2) [OF assms(2)] IO_STORAGE_L1 by auto
next
  case IO_STORAGE_L2
  have "fti_stat_local lib d w' = fti_stat_local lib d w"
  proof (cases "master_global c")
    case True
    then obtain cid f where "w' = snd (fti_remove_ckpt_metadata lib cid 4 (f, snd w))"
      using assms(1) IO_STORAGE_L2 by (auto simp: io_remove_def and_then_Inr_iff case_prod_beta)
    then show ?thesis using lib_okD(3) [OF assms(2)] local_files [OF assms(2)] by (metis prod.collapse)
  next
    case False
    then show ?thesis using assms(1) IO_STORAGE_L2 by (simp add: io_remove_def)
  qed
  with IO_STORAGE_L2 show ?thesis by simp
qed (use assms(1) in \<open>auto simp: io_remove_def\<close>)

text \<open>Staging ends by noting the checkpoint, or leaves the library's record alone.\<close>

definition staged :: "'f fti_lib \<Rightarrow> 'f world \<Rightarrow> 'f world \<Rightarrow> bool" where
  "staged lib w w' \<longleftrightarrow> (\<exists>f. w' = (f, snd w) \<or> (\<exists>cid level. update_metadata lib cid level (f, snd w) = Inr w'))"

lemma stage_l1l2_staged: "stage_l1l2 lib c cid tmp w = Inr w' \<Longrightarrow> staged lib w w'"
  unfolding stage_l1l2_def staged_def Let_def and_then_Inr_iff io_try_Inr_iff case_prod_beta
  by (cases "master_global c") (auto simp: and_then_Inr_iff)

lemma stage_l2l1_staged:
  assumes "stage_l2l1 indet lib c cid tmp mtmp w = Inr w'"
  shows "staged lib w w'"
proof -
  have "\<exists>r. (if fst r \<and> master_global c
      then and_then (try_rename mtmp (l1_meta_ckpt c cid) (snd r)) (\<lambda>f.
           and_then (try_rename tmp (l1_ckpt c cid) f) (\<lambda>f. update_metadata lib cid IO_STORAGE_L1 (f, snd w)))
      else Inr (snd r, snd w)) = Inr w'"
    using assms unfolding stage_l2l1_def Let_def and_then_Inr_iff [of "master_mkdir c f p" for f p]
      and_then_Inr_iff [of "if b then m else n" for b m n] and_then_Inr_iff [of "pull_procs i c cid s t m ips pf" for i s t m ips pf]
      io_try_Inr_iff case_prod_beta by (elim exE conjE) (rule exI)
  then show ?thesis by (auto simp: staged_def and_then_Inr_iff split: if_splits)
qed

lemma stage_local:
  assumes "io_stage indet lib c us s lfrom lto w = Inr w'" "lib_ok lib" "fti_stat_local lib d w"
  shows "fti_stat_local lib d w'"
proof -
  have keep: "fti_stat_local lib d (f, snd w)" for f using assms(3) local_files [OF assms(2)] by (metis prod.collapse)
  have "staged lib w w'"
    using assms(1) by (auto simp: io_stage_def and_then_Inr_iff case_prod_beta split: if_splits
        intro: stage_l1l2_staged stage_l2l1_staged)
  then obtain f where "w' = (f, snd w) \<or> (\<exists>cid level. update_metadata lib cid level (f, snd w) = Inr w')"
    unfolding staged_def by blast
  then show ?thesis using keep [of f] update_local [OF _ assms(2), of _ _ "(f, snd w)" w' d] by auto
qed

section \<open>Refinement of a bounded cache\<close>

text \<open>The specification: a set of at most so many states, into which states are put and evicted.\<close>

inductive cache_step :: "nat \<Rightarrow> io_state_id set \<Rightarrow> io_state_id set \<Rightarrow> bool" for cap where
  put: "s \<notin> S \<Longrightarrow> card S < cap \<Longrightarrow> cache_step cap S (insert s S)"
| evict: "s \<in> S \<Longrightarrow> cache_step cap S (S - {s})"

definition cache_of :: "'f worker \<Rightarrow> io_state_id set" where
  "cache_of w = snd ` set (cached_states w)"

text \<open>\<open>n\<close> slots are taken without a cached state of their own.\<close>

definition worker_inv :: "nat \<Rightarrow> 'f env \<Rightarrow> 'f worker \<Rightarrow> bool" where
  "worker_inv n e w \<longleftrightarrow> om_wf (cached_states w) \<and> pool_range (pool w) \<and>
     pool_used (pool w) = int (length (cached_states w) + n) \<and>
     (\<forall>p \<in> set (cached_states w). to_ckpt_id (snd p) = Inr (fst p) \<and> fti_stat_local (env_lib e) (fst p) (files w))"

text \<open>
  What a run takes the server to have answered so far: a request to delete names states, and one of
  them is deleted; the answer to a request to prefetch dumps no state; a message without content
  gets no answer. To a runner it holds to be faulty, the server answers otherwise.
\<close>

fun reply_ok :: "message \<Rightarrow> message \<Rightarrow> bool" where
  "reply_ok (Delete_request r ss) m = (\<exists>s \<in> set ss. m = Delete_response s)"
| "reply_ok (Prefetch_request r ss c f) m = (dump_states m = [])"
| "reply_ok (No_content r) m = False"
| "reply_ok _ m = True"

definition served :: "'f env \<Rightarrow> message list \<Rightarrow> bool" where
  "served e rs \<longleftrightarrow>
     (\<forall>k \<in> {0..<length rs}. case env_server e (take (Suc k) rs) of None \<Rightarrow> True | Some m \<Rightarrow> reply_ok (rs ! k) m)"

lemma served_prefix:
  assumes "served e rs'" "prefix rs rs'"
  shows "served e rs"
proof -
  obtain t where rs': "rs' = rs @ t" using assms(2) by (auto simp: prefix_def)
  have "case env_server e (take (Suc k) rs) of None \<Rightarrow> True | Some m \<Rightarrow> reply_ok (rs ! k) m" if "k < length rs" for k
  proof -
    have "rs' ! k = rs ! k" "take (Suc k) rs' = take (Suc k) rs" "k \<in> {0..<length rs'}"
      using that by (simp_all add: rs' nth_append)
    then show ?thesis using assms(1) unfolding served_def by metis
  qed
  then show ?thesis by (simp add: served_def)
qed

lemma served_last: "served e (rs @ [q]) \<Longrightarrow> env_server e (rs @ [q]) = Some m \<Longrightarrow> reply_ok q m"
  by (auto simp: served_def dest!: bspec [of _ _ "length rs"])

lemma served_all:
  assumes "\<And>h q m. env_server e (h @ [q]) = Some m \<Longrightarrow> reply_ok q m"
  shows "served e rs"
  using assms by (auto simp: served_def take_Suc_conv_app_nth split: option.splits)

lemma ask_server_Inr:
  "ask_server e q w = Inr (m, w') \<longleftrightarrow> env_server e (requests w @ [q]) = Some m \<and> w' = w\<lparr>requests := requests w @ [q]\<rparr>"
  by (auto simp: ask_server_def split: option.splits)

definition simulates :: "nat \<Rightarrow> 'f env \<Rightarrow> 'f worker \<Rightarrow> 'f worker \<Rightarrow> bool" where
  "simulates n e w w' \<longleftrightarrow> worker_inv n e w' \<and> pool_capacity (pool w') = pool_capacity (pool w) \<and>
     (cache_step (pool_capacity (pool w)))\<^sup>*\<^sup>* (cache_of w) (cache_of w')"

lemma simulates_trans: "simulates m e u v \<Longrightarrow> simulates n e v w \<Longrightarrow> simulates n e u w"
  unfolding simulates_def by (metis rtranclp_trans)

lemma simulates_same:
  "worker_inv n e w \<Longrightarrow> cached_states w' = cached_states w \<Longrightarrow> pool w' = pool w \<Longrightarrow>
     (\<And>d. fti_stat_local (env_lib e) d (files w) \<Longrightarrow> fti_stat_local (env_lib e) d (files w')) \<Longrightarrow> simulates n e w w'"
  by (auto simp: simulates_def worker_inv_def cache_of_def)

lemma om_wf_distinct: "om_wf m \<Longrightarrow> distinct (map fst m)"
  by (auto simp: om_wf_def strict_sorted_iff)

lemma worker_inv_ids_inj:
  assumes "worker_inv n e w" "p \<in> set (cached_states w)" "q \<in> set (cached_states w)" "snd p = snd q"
  shows "p = q"
  using assms by (auto simp: worker_inv_def prod_eq_iff) (metis sum.inject(2))

lemma card_cache: "worker_inv n e w \<Longrightarrow> card (cache_of w) = length (cached_states w)"
proof -
  assume w: "worker_inv n e w"
  have "inj_on snd (set (cached_states w))" by (rule inj_onI) (rule worker_inv_ids_inj [OF w])
  then have "card (cache_of w) = card (set (cached_states w))" unfolding cache_of_def by (rule card_image)
  also have "\<dots> = length (cached_states w)"
    using w om_wf_distinct [of "cached_states w"] by (simp add: worker_inv_def distinct_map distinct_card)
  finally show ?thesis .
qed

lemma length_om_erase: "om_wf m \<Longrightarrow> (k, v) \<in> set m \<Longrightarrow> length (om_erase k m) = length m - 1"
proof (induction m)
  case (Cons p m)
  show ?case
  proof (cases "fst p = k")
    case True
    then have "\<forall>q \<in> set m. fst q \<noteq> k" using Cons.prems(1) by (auto simp: om_wf_Cons)
    then have "filter (\<lambda>q. fst q \<noteq> k) m = m" by simp
    with True show ?thesis by (simp add: om_erase_def)
  next
    case False
    then have "(k, v) \<in> set m" using Cons.prems(2) by auto
    then have "length m \<noteq> 0" by auto
    then show ?thesis using Cons False \<open>(k, v) \<in> set m\<close> by (auto simp: om_wf_Cons om_erase_def)
  qed
qed simp

lemma length_om_emplace: "map_of m k = None \<Longrightarrow> om_wf m \<Longrightarrow> length (om_emplace k v m) = Suc (length m)"
  by (induction k v m rule: om_emplace.induct) (auto simp: om_wf_Cons split: if_splits)

lemma set_om_put: "map_of m k = None \<Longrightarrow> set (om_emplace k v m) = insert (k, v) (set m)"
  by (induction k v m rule: om_emplace.induct) (auto split: if_splits)

text \<open>Putting a state that is local and not cached.\<close>

lemma put_simulates:
  assumes w: "worker_inv n e w" and id: "to_ckpt_id s = Inr cid" and new: "map_of (cached_states w) cid = None"
    and loc: "fti_stat_local (env_lib e) cid (files w)" and p: "pool_inc (pool w) = Inr p"
  shows "simulates n e w (w\<lparr>cached_states := om_emplace cid s (cached_states w), pool := p\<rparr>)"
proof -
  let ?w' = "w\<lparr>cached_states := om_emplace cid s (cached_states w), pool := p\<rparr>"
  have inv: "om_wf (cached_states w)" "pool_range (pool w)" "pool_used (pool w) = int (length (cached_states w) + n)"
    using w by (simp_all add: worker_inv_def)
  then have p': "pool_used (pool w) < int (pool_capacity (pool w))" "p = pool w\<lparr>pool_used := pool_used (pool w) + 1\<rparr>"
    using p pool_inc_iff [of "pool w" p] by (simp_all add: pool_range_def)
  have "s \<notin> cache_of w"
  proof
    assume "s \<in> cache_of w"
    then obtain k where "(k, s) \<in> set (cached_states w)" by (auto simp: cache_of_def)
    then show False using w id new unfolding worker_inv_def map_of_eq_None_iff by force
  qed
  then have "cache_step (pool_capacity (pool w)) (cache_of w) (insert s (cache_of w))"
    using p'(1) inv(3) card_cache [OF w] by (auto intro: put)
  moreover have "cache_of ?w' = insert s (cache_of w)"
    by (simp add: cache_of_def set_om_put [OF new])
  moreover have "worker_inv n e ?w'"
    using w id loc inv p' by (auto simp: worker_inv_def om_wf_emplace pool_range_def length_om_emplace [OF new]
        set_om_put [OF new])
  ultimately show ?thesis using p'(2) by (simp add: simulates_def)
qed

text \<open>The steps that concern only the files.\<close>

lemma on_files_Inr:
  "on_files g w = Inr w' \<Longrightarrow> g (files w) = Inr (files w') \<and> cached_states w' = cached_states w \<and> pool w' = pool w \<and>
     requests w' = requests w"
  unfolding on_files_def and_then_Inr_iff sum.inject by (elim exE conjE) (hypsubst, simp)

lemma stage_state_Inr:
  "stage_state e s lfrom lto w = Inr w' \<Longrightarrow>
     io_stage (env_indet e (stagings w)) (env_lib e) (env_conf e) (env_uuid e (stagings w)) s lfrom lto (files w) = Inr (files w') \<and>
     cached_states w' = cached_states w \<and> pool w' = pool w \<and> requests w' = requests w"
  unfolding stage_state_def and_then_Inr_iff [of "on_files g w" for g] sum.inject
  by (elim exE conjE) (hypsubst, drule on_files_Inr, simp)

lemma update_simulates:
  assumes "worker_inv n e w" "lib_ok (env_lib e)" "on_files (update_metadata (env_lib e) cid level) w = Inr w'"
  shows "simulates n e w w'"
  using on_files_Inr [OF assms(3)] update_local [OF _ assms(2)] by (intro simulates_same [OF assms(1)]) blast+

lemma stage_simulates:
  assumes "worker_inv n e w" "lib_ok (env_lib e)" "stage_state e s lfrom lto w = Inr w'"
  shows "simulates n e w w'"
  using stage_state_Inr [OF assms(3)] stage_local [OF _ assms(2)] by (intro simulates_same [OF assms(1)]) blast+

lemma remove_global_simulates:
  assumes "worker_inv n e w" "lib_ok (env_lib e)" "remove_state e s IO_STORAGE_L2 w = Inr w'"
  shows "simulates n e w w'"
  using on_files_Inr [OF assms(3) [unfolded remove_state_def]]
    remove_local [OF _ assms(2), of "env_conf e" s IO_STORAGE_L2 "files w" "files w'"]
  by (intro simulates_same [OF assms(1)]) simp_all

section \<open>What the worker asks\<close>

lemma delete_request_asks:
  "delete_request e w = Inr w' \<Longrightarrow> requests w' = requests w @ [delete_message (env_runner_id e) (map snd (cached_states w))]"
  by (auto simp: delete_request_def and_then_Inr_iff ask_server_Inr remove_state_def on_files_def on_pool_def Let_def)

lemma make_room_asks: "make_room e w = Inr w' \<Longrightarrow> prefix (requests w) (requests w')"
proof (induction e w rule: make_room.induct)
  case (1 e w)
  show ?case
  proof (cases "pool_free (pool w) \<le> 1")
    case True
    then obtain v where v: "delete_request e w = Inr v" "make_room e v = Inr w'"
      using "1.prems" by (subst (asm) make_room.simps) (auto simp: and_then_Inr_iff)
    then show ?thesis using "1.IH" [OF True v] delete_request_asks [OF v(1)] by (auto simp: prefix_def)
  next
    case False
    then show ?thesis using "1.prems" by (subst (asm) make_room.simps) simp
  qed
qed

lemma pull_head_asks: "pull_head e s w = Inr w' \<Longrightarrow> prefix (requests w) (requests w')"
  by (auto simp: pull_head_def and_then_Inr_iff cache_state_def on_pool_def simp del: split_paired_Ex
      split: if_splits dest!: stage_state_Inr make_room_asks)

lemma dump_all_asks: "dump_all e ss w = Inr w' \<Longrightarrow> requests w' = requests w"
proof (induction e ss w rule: dump_all.induct)
  case (2 e s ss w)
  then obtain u p where u: "remove_state e s IO_STORAGE_L1 w = Inr u" "pool_dec (pool u) = Inr p"
      "dump_all e ss (u\<lparr>pool := p\<rparr>) = Inr w'"
    by (auto simp: and_then_Inr_iff on_pool_def simp del: split_paired_Ex)
  have "on_pool pool_dec u = Inr (u\<lparr>pool := p\<rparr>)" using u(2) by (simp add: on_pool_def)
  from "2.IH" [OF u(1) this u(3)] show ?case using on_files_Inr [OF u(1) [unfolded remove_state_def]] by simp
qed simp

lemma prefetch_request_asks:
  "prefetch_request e w = Inr w' \<Longrightarrow> requests w' = requests w @ [Prefetch_request (env_runner_id e)
     (map snd (cached_states w)) (pool_capacity (pool w)) (pool_free (pool w))]"
  by (auto simp: prefetch_request_def and_then_Inr_iff ask_server_Inr dest!: dump_all_asks)

lemma delete_simulates:
  assumes w: "worker_inv n e w" and lib: "lib_ok (env_lib e)" and srv: "served e (requests w')"
    and d: "delete_request e w = Inr w'"
  shows "simulates n e w w'"
proof -
  obtain m w1 w2 p cid where m: "ask_server e (delete_message (env_runner_id e) (map snd (cached_states w))) w = Inr (m, w1)"
      and rm: "remove_state e (to_delete m) IO_STORAGE_L1 w1 = Inr w2" and cid: "to_ckpt_id (to_delete m) = Inr cid"
      and p: "pool_dec (pool w2) = Inr p"
      and w': "w' = w2\<lparr>pool := p, cached_states := om_erase cid (cached_states w2)\<rparr>"
    using d by (auto simp: delete_request_def and_then_Inr_iff Let_def on_pool_def)
  have w1: "cached_states w1 = cached_states w" "pool w1 = pool w" "files w1 = files w"
    using m by (simp_all add: ask_server_Inr)
  have "reply_ok (delete_message (env_runner_id e) (map snd (cached_states w))) m"
    using m srv delete_request_asks [OF d] by (auto simp: ask_server_Inr intro: served_last)
  then obtain s where s: "s \<in> snd ` set (cached_states w)" "m = Delete_response s"
    by (auto simp: delete_message_def split: if_splits)
  from s(1) obtain k where k: "(k, s) \<in> set (cached_states w)" by auto
  have "k = cid" using k w cid s(2) by (force simp: worker_inv_def to_delete_def)
  with k have k: "(cid, s) \<in> set (cached_states w)" by simp
  have w2: "cached_states w2 = cached_states w" "pool w2 = pool w"
      "\<And>d. fti_stat_local (env_lib e) d (files w2) = (fti_stat_local (env_lib e) d (files w) \<and> d \<noteq> cid)"
    using on_files_Inr [OF rm [unfolded remove_state_def]] w1 cid
    by (simp_all add: remove_local [OF _ lib, of "env_conf e" "to_delete m" IO_STORAGE_L1 "files w"]) blast
  have set': "set (om_erase cid (cached_states w)) = {q \<in> set (cached_states w). fst q \<noteq> cid}"
    by (auto simp: om_erase_def)
  have "(q \<in> set (cached_states w) \<and> snd q = s) \<longleftrightarrow> q = (cid, s)" for q
    using worker_inv_ids_inj [OF w _ k, of q] k by auto
  moreover have "q = (cid, s)" if "q \<in> set (cached_states w)" "fst q = cid" for q
    using that k w om_wf_distinct [of "cached_states w"] eq_key_imp_eq_value [of "cached_states w" cid s "snd q"]
    by (cases q) (auto simp: worker_inv_def)
  ultimately have abs: "cache_of w' = cache_of w - {s}"
    unfolding cache_of_def w' using w2(1) by (auto simp: set' image_iff) blast+
  have "int (length (cached_states w) - Suc 0) = int (length (cached_states w)) - 1"
    using k by (cases "cached_states w") simp_all
  then have "worker_inv n e w'"
    using w w2 p k length_om_erase [of "cached_states w" cid s]
    by (auto simp: w' worker_inv_def om_wf_erase pool_dec_iff pool_range_def set')
  moreover have "cache_step (pool_capacity (pool w)) (cache_of w) (cache_of w')"
    unfolding abs by (rule evict) (use s(1) in \<open>simp add: cache_of_def\<close>)
  ultimately show ?thesis using p w2(2) by (auto simp: simulates_def w' pool_dec_iff)
qed

lemma delete_request_cached: "delete_request e w = Inr w' \<Longrightarrow> set (cached_states w') \<subseteq> set (cached_states w)"
  by (auto simp: delete_request_def and_then_Inr_iff ask_server_def remove_state_def on_files_def on_pool_def
      Let_def om_erase_def split: if_splits option.splits)

lemma make_room_simulates:
  "make_room e w = Inr w' \<Longrightarrow> worker_inv n e w \<Longrightarrow> lib_ok (env_lib e) \<Longrightarrow> served e (requests w') \<Longrightarrow>
     simulates n e w w' \<and> set (cached_states w') \<subseteq> set (cached_states w)"
proof (induction e w rule: make_room.induct)
  case (1 e w)
  show ?case
  proof (cases "pool_free (pool w) \<le> 1")
    case True
    then obtain v where v: "delete_request e w = Inr v" "make_room e v = Inr w'"
      using "1.prems"(1) by (subst (asm) make_room.simps) (auto simp: and_then_Inr_iff)
    have "served e (requests v)" using "1.prems"(4) make_room_asks [OF v(2)] by (rule served_prefix)
    from delete_simulates [OF "1.prems"(2,3) this v(1)] have sim: "simulates n e w v" .
    then have "worker_inv n e v" by (simp add: simulates_def)
    from "1.IH" [OF True v this "1.prems"(3,4)] show ?thesis
      using simulates_trans [OF sim] delete_request_cached [OF v(1)] by blast
  next
    case False
    then have "w' = w" using "1.prems"(1) by (subst (asm) make_room.simps) simp
    then show ?thesis using "1.prems"(2) by (simp add: simulates_def)
  qed
qed

lemma local_state_iff: "local_state e s w = Inr b \<longleftrightarrow> (\<exists>cid. to_ckpt_id s = Inr cid \<and> b = fti_stat_local (env_lib e) cid (files w))"
  by (auto simp: local_state_def is_local_def and_then_Inr_iff)

lemma simulates_refl: "worker_inv n e w \<Longrightarrow> simulates n e w w"
  by (simp add: simulates_def)

lemma simulates_inv: "simulates n e w w' \<Longrightarrow> worker_inv n e w'"
  by (simp add: simulates_def)

lemma not_local_not_cached:
  "worker_inv n e w \<Longrightarrow> \<not> fti_stat_local (env_lib e) cid (files w) \<Longrightarrow> map_of (cached_states w) cid = None"
  by (auto simp: worker_inv_def map_of_eq_None_iff)

lemma pull_head_simulates:
  assumes w: "worker_inv n e w" and lib: "lib_ok (env_lib e)" and srv: "served e (requests w')"
    and p: "pull_head e s w = Inr w'"
  shows "simulates n e w w'"
proof -
  obtain cid where cid: "to_ckpt_id s = Inr cid"
    using p by (auto simp: pull_head_def and_then_Inr_iff local_state_iff)
  show ?thesis
  proof (cases "fti_stat_local (env_lib e) cid (files w)")
    case True
    then have "w' = w" using p cid by (simp add: pull_head_def local_state_def is_local_def)
    then show ?thesis using simulates_refl [OF w] by simp
  next
    case False
    let ?loc = "\<lambda>w. fti_stat_local (env_lib e) cid (files w)"
    obtain w1 w2 pl where w1: "make_room e w = Inr w1"
        and w2: "(if ?loc w1 then Inr w1 else stage_state e s IO_STORAGE_L2 IO_STORAGE_L1 w1) = Inr w2"
        and l: "?loc w2" and pl: "pool_inc (pool w2) = Inr pl"
        and w': "w' = w2\<lparr>cached_states := om_emplace cid s (cached_states w2), pool := pl\<rparr>"
      using p False cid
      by (auto simp: pull_head_def and_then_Inr_iff local_state_def is_local_def cache_state_def on_pool_def
          simp del: split_paired_Ex)
    have "requests w' = requests w1" using w2 w' by (auto split: if_splits dest!: stage_state_Inr)
    then have "served e (requests w1)" using srv by simp
    then have s1: "simulates n e w w1" "set (cached_states w1) \<subseteq> set (cached_states w)"
      using make_room_simulates [OF w1 w lib] by blast+
    have s2: "simulates n e w1 w2 \<and> cached_states w2 = cached_states w1"
    proof (cases "?loc w1")
      case True
      then show ?thesis using w2 simulates_refl [OF simulates_inv [OF s1(1)]] by simp
    next
      case False
      then show ?thesis using w2 stage_simulates [OF simulates_inv [OF s1(1)] lib] stage_state_Inr by fastforce
    qed
    have "map_of (cached_states w2) cid = None"
      using not_local_not_cached [OF w False] s1(2) s2 by (auto simp: map_of_eq_None_iff)
    then have "simulates n e w2 w'"
      unfolding w' using put_simulates [OF simulates_inv cid _ l pl] s2 by blast
    then show ?thesis using simulates_trans s1(1) s2 by blast
  qed
qed

lemma prefetch_simulates:
  assumes w: "worker_inv n e w" and srv: "served e (requests w')" and p: "prefetch_request e w = Inr w'"
  shows "simulates n e w w'"
proof -
  obtain m where m: "env_server e (requests w @ [Prefetch_request (env_runner_id e) (map snd (cached_states w))
        (pool_capacity (pool w)) (pool_free (pool w))]) = Some m"
    and w': "dump_all e (dump_states m) (w\<lparr>requests := requests w @ [Prefetch_request (env_runner_id e)
        (map snd (cached_states w)) (pool_capacity (pool w)) (pool_free (pool w))],
        pull_requests := pull_requests w @ pull_states m\<rparr>) = Inr w'"
    using p by (auto simp: prefetch_request_def and_then_Inr_iff ask_server_def split: option.splits)
  have "dump_states m = []" using served_last [OF srv [unfolded prefetch_request_asks [OF p]] m] by simp
  then show ?thesis using w' w by (auto intro!: simulates_same)
qed

text \<open>
  The next turn takes the weight of a state that is cached already. Then the entry of the cached
  state stays as it is, but one more slot is taken.
\<close>

definition posted_again :: "'f worker \<Rightarrow> bool" where
  "posted_again w \<longleftrightarrow> (case posts w of
     Weight r s x # ms \<Rightarrow>
       (case to_ckpt_id s of Inr cid \<Rightarrow> map_of (cached_states w) cid \<noteq> None | Inl err \<Rightarrow> False)
   | _ \<Rightarrow> False)"

definition slots_lost :: "'f worker \<Rightarrow> nat" where
  "slots_lost w = (if posted_again w then 1 else 0)"

lemma om_emplace_present: "om_wf m \<Longrightarrow> map_of m k \<noteq> None \<Longrightarrow> om_emplace k v m = m"
  by (induction k v m rule: om_emplace.induct) (fastforce simp: om_wf_Cons dest: map_of_SomeD split: if_splits)+

lemma put_again_simulates:
  assumes w: "worker_inv n e w" and again: "map_of (cached_states w) cid \<noteq> None" and p: "pool_inc (pool w) = Inr p"
  shows "simulates (n + 1) e w (w\<lparr>cached_states := om_emplace cid s (cached_states w), pool := p\<rparr>)"
proof -
  have inv: "om_wf (cached_states w)" "pool_range (pool w)" using w by (simp_all add: worker_inv_def)
  then have "p = pool w\<lparr>pool_used := pool_used (pool w) + 1\<rparr>" "pool_used (pool w) < int (pool_capacity (pool w))"
    using p pool_inc_iff [of "pool w" p] by (simp_all add: pool_range_def)
  then show ?thesis
    using w by (simp add: om_emplace_present [OF inv(1) again] simulates_def worker_inv_def pool_range_def cache_of_def)
qed

lemma request_post_simulates:
  assumes w: "worker_inv n e w" and lib: "lib_ok (env_lib e)" and srv: "served e (requests w')"
    and p: "request_post e w = Inr w'"
  shows "simulates (n + slots_lost w) e w w'"
proof -
  obtain r s x ms where m: "posts w = Weight r s x # ms"
    using p by (auto simp: request_post_def split: list.splits message.splits)
  obtain cid w1 w2 w3 pl w4 where cid: "to_ckpt_id s = Inr cid"
    and w1: "on_files (update_metadata (env_lib e) cid IO_STORAGE_L1) (w\<lparr>posts := ms\<rparr>) = Inr w1"
    and l: "fti_stat_local (env_lib e) cid (files w1)"
    and w2: "stage_state e s IO_STORAGE_L1 IO_STORAGE_L2 w1 = Inr w2"
    and w3: "push_weight_to_server e s (Weight r s x) (w2\<lparr>ckpted_states := om_emplace cid s (ckpted_states w2)\<rparr>) = Inr w3"
    and pl: "pool_inc (pool w3) = Inr pl"
    and w4: "(if pool_free pl = 0 then delete_request e (w3\<lparr>cached_states := om_emplace cid s (cached_states w3), pool := pl\<rparr>)
        else Inr (w3\<lparr>cached_states := om_emplace cid s (cached_states w3), pool := pl\<rparr>)) = Inr w4"
    and w': "prefetch_request e w4 = Inr w'"
    using p by (auto simp: request_post_def m and_then_Inr_iff Let_def local_state_def is_local_def cache_state_def on_pool_def
        simp del: split_paired_Ex)
  have inv0: "worker_inv n e (w\<lparr>posts := ms\<rparr>)" using w by (simp add: worker_inv_def)
  have s1: "simulates n e (w\<lparr>posts := ms\<rparr>) w1" using update_simulates [OF inv0 lib w1] .
  have s2: "simulates n e w1 w2" using stage_simulates [OF simulates_inv [OF s1] lib w2] .
  have w3': "cached_states w3 = cached_states w2" "pool w3 = pool w2" "files w3 = files w2"
    using w3 by (auto simp: push_weight_to_server_def and_then_Inr_iff ask_server_def split: option.splits)
  have s3: "simulates n e w2 w3" using simulates_same [OF simulates_inv [OF s2]] w3' by simp
  have l3: "fti_stat_local (env_lib e) cid (files w3)"
    using stage_local [OF conjunct1 [OF stage_state_Inr [OF w2]] lib l] w3' by simp
  have "cached_states w3 = cached_states w"
    using w3'(1) stage_state_Inr [OF w2] on_files_Inr [OF w1] by simp
  then have again: "posted_again w \<longleftrightarrow> map_of (cached_states w3) cid \<noteq> None" by (simp add: posted_again_def m cid)
  have s4: "simulates (n + slots_lost w) e w3 (w3\<lparr>cached_states := om_emplace cid s (cached_states w3), pool := pl\<rparr>)"
    using put_simulates [OF simulates_inv [OF s3] cid _ l3 pl] put_again_simulates [OF simulates_inv [OF s3] _ pl, of cid s] again
    by (auto simp: slots_lost_def)
  have "served e (requests w4)" using srv prefetch_request_asks [OF w'] served_prefix by fastforce
  then have s5: "simulates (n + slots_lost w) e (w3\<lparr>cached_states := om_emplace cid s (cached_states w3), pool := pl\<rparr>) w4"
    using w4 delete_simulates [OF simulates_inv [OF s4] lib] simulates_refl [OF simulates_inv [OF s4]]
    by (auto split: if_splits)
  have s6: "simulates (n + slots_lost w) e w4 w'" using prefetch_simulates [OF simulates_inv [OF s5] srv w'] .
  have "simulates n e w (w\<lparr>posts := ms\<rparr>)" using w by (rule simulates_same) simp_all
  then show ?thesis using s1 s2 s3 s4 s5 s6 by (blast intro: simulates_trans)
qed

lemma auto_delete_simulates:
  "auto_delete e q w = Inr w' \<Longrightarrow> worker_inv n e w \<Longrightarrow> lib_ok (env_lib e) \<Longrightarrow> simulates n e w w'"
proof (induction e q w rule: auto_delete.induct)
  case (1 e w)
  then show ?case by (auto intro!: simulates_same)
next
  case (2 e s q w)
  show ?case
  proof (cases "st_t s < last_assimilation_cycle w - 1")
    case True
    then obtain v where v: "remove_state e s IO_STORAGE_L2 w = Inr v" "auto_delete e q v = Inr w'"
      using "2.prems"(1) by (auto simp: and_then_Inr_iff simp del: split_paired_Ex)
    have sim: "simulates n e w v" using remove_global_simulates [OF "2.prems"(2,3) v(1)] .
    show ?thesis using simulates_trans [OF sim "2.IH" [OF True v(1,2) simulates_inv [OF sim] "2.prems"(3)]] .
  next
    case False
    then show ?thesis using "2.prems" by (auto intro!: simulates_same)
  qed
qed

lemma simulates_wrap:
  "simulates n e v v' \<Longrightarrow> cached_states v = cached_states w \<Longrightarrow> pool v = pool w \<Longrightarrow> files v = files w \<Longrightarrow>
     cached_states w' = cached_states v' \<Longrightarrow> pool w' = pool v' \<Longrightarrow> files w' = files v' \<Longrightarrow> simulates n e w w'"
  by (simp add: simulates_def worker_inv_def cache_of_def)

lemma worker_inv_same:
  "worker_inv n e w \<Longrightarrow> cached_states v = cached_states w \<Longrightarrow> pool v = pool w \<Longrightarrow> files v = files w \<Longrightarrow> worker_inv n e v"
  by (simp add: worker_inv_def)

end
