(* ===== verification/StorageProps.thy ===== *)
theory StorageProps
  imports StorageInv
begin

text \<open>
  The properties of the worker process: a load is served, every turn of its loop refines a bounded
  cache, and what dumping and automatic deletion do.
\<close>

section \<open>A load that is served\<close>

definition can_serve :: "'f env \<Rightarrow> io_state_id \<Rightarrow> int \<Rightarrow> string list \<Rightarrow> 'f worker \<Rightarrow> bool" where
  "can_serve e s cid parts w \<longleftrightarrow> lib_ok (env_lib e) \<and> to_ckpt_id s = Inr cid \<and> pool_range (pool w) \<and> 1 < pool_free (pool w) \<and>
     can_pull (env_conf e) cid (fst (snd (env_uuid e (stagings w)))) (snd (snd (env_uuid e (stagings w)))) (fst (files w)) \<and>
     proc_sizes (env_conf e) = map length parts \<and> length (app_body (env_conf e)) = length parts \<and>
     read_file (l2_ckpt (env_conf e) cid @ [serialized_file ''Ckpt'' cid]) (fst (files w)) = Some (concat parts)"

lemma pull_head_serves:
  assumes c: "can_serve e s cid parts w" and nl: "\<not> fti_stat_local (env_lib e) cid (files w)"
  shows "\<exists>w'. pull_head e s w = Inr w' \<and> fti_stat_local (env_lib e) cid (files w') \<and>
     holds (l1_ckpt (env_conf e) cid) cid (app_body (env_conf e)) parts (fst (files w')) \<and>
     loads w' = loads w \<and> posts w' = posts w \<and> loads_answered w' = loads_answered w"
proof -
  have h: "lib_ok (env_lib e)" "to_ckpt_id s = Inr cid" "pool_range (pool w)" "1 < pool_free (pool w)"
      "proc_sizes (env_conf e) = map length parts" "length (app_body (env_conf e)) = length parts"
      "read_file (l2_ckpt (env_conf e) cid @ [serialized_file ''Ckpt'' cid]) (fst (files w)) = Some (concat parts)"
    using c by (simp_all add: can_serve_def)
  obtain u u' u'' where u: "env_uuid e (stagings w) = (u, u', u'')" by (cases "env_uuid e (stagings w)") auto
  have cp: "can_pull (env_conf e) cid u' u'' (fst (files w))" using c u by (simp add: can_serve_def)
  have noted: "notes_checkpoints (env_lib e)" using h(1) by (simp add: lib_ok_def)
  obtain f1 x1 where st: "io_stage (env_indet e (stagings w)) (env_lib e) (env_conf e) (env_uuid e (stagings w)) s
        IO_STORAGE_L2 IO_STORAGE_L1 (files w) = Inr (f1, x1)"
      "update_metadata (env_lib e) cid IO_STORAGE_L1 (f1, snd (files w)) = Inr (f1, x1)"
      "holds (l1_ckpt (env_conf e) cid) cid (app_body (env_conf e)) parts f1"
    using pull_ok [OF cp h(5,6,7) noted, of "env_indet e (stagings w)" "snd (files w)"]
    unfolding u io_stage_pull [OF h(2)] prod.collapse by blast
  have loc: "fti_stat_local (env_lib e) cid (f1, x1)" using update_local [OF st(2) h(1)] by simp
  have "make_room e w = Inr w" using h(4) by (subst make_room.simps) simp
  moreover have "pool_inc (pool w) = Inr (pool w\<lparr>pool_used := pool_used (pool w) + 1\<rparr>)"
    using h(3,4) pool_free_nonneg [of "pool w"] pool_inc_iff [of "pool w"] by (auto simp: pool_range_def)
  ultimately show ?thesis
    using st(1,3) nl loc h(2)
    by (simp add: pull_head_def local_state_def is_local_def stage_state_def on_files_def cache_state_def on_pool_def)
qed

text \<open>
  The loop of m\_load\_user over a worker: \<open>ok k\<close> is what the library's load reports when \<open>k\<close>
  requests have been answered, which any sequence of outcomes is.
\<close>

definition ask_worker :: "'f env \<Rightarrow> int \<Rightarrow> nat \<Rightarrow> io_state_id \<Rightarrow> 'f worker \<Rightarrow> 'f worker res" where
  "ask_worker e now n s v = worker_callback e now (v\<lparr>loads := loads v @ [replicate n s]\<rparr>)"

definition try_load :: "(nat \<Rightarrow> bool) \<Rightarrow> 'f worker \<Rightarrow> bool \<times> 'f worker" where
  "try_load ok v = (ok (loads_answered v), v)"

text \<open>A worker that has the state and nothing to do answers and changes nothing else.\<close>

definition has_state :: "'f env \<Rightarrow> int \<Rightarrow> 'f worker \<Rightarrow> bool" where
  "has_state e cid v \<longleftrightarrow> posts v = [] \<and> loads v = [] \<and> fti_stat_local (env_lib e) cid (files v)"

lemma ask_again:
  assumes "has_state e cid v" "to_ckpt_id s = Inr cid" "0 < n"
  shows "ask_worker e now n s v = Inr (v\<lparr>loads_answered := loads_answered v + 1\<rparr>)"
  using assms
  by (cases n) (simp_all add: has_state_def ask_worker_def worker_callback_def request_load_def pull_head_def
      local_state_def is_local_def)

lemma has_state_answered: "has_state e cid (v\<lparr>loads_answered := k\<rparr>) = has_state e cid v"
  by (simp add: has_state_def)

lemma load_loop_ends:
  assumes "has_state e cid v" "to_ckpt_id s = Inr cid" "0 < n"
    and "ok (loads_answered v + k)" "\<forall>j < k. \<not> ok (loads_answered v + j)"
  shows "load_loop (ask_worker e now n s) (try_load ok) v = Some (Inr (v\<lparr>loads_answered := loads_answered v + k\<rparr>))"
  using assms
proof (induction k arbitrary: v)
  case 0
  then show ?case by (simp add: load_loop.simps try_load_def)
next
  case (Suc k)
  let ?v = "v\<lparr>loads_answered := loads_answered v + 1\<rparr>"
  have "\<not> ok (loads_answered v)" using Suc.prems(5) by (metis add.right_neutral zero_less_Suc)
  then have "load_loop (ask_worker e now n s) (try_load ok) v = load_loop (ask_worker e now n s) (try_load ok) ?v"
    using ask_again [OF Suc.prems(1-3)] by (subst load_loop.simps) (simp add: try_load_def)
  also have "\<dots> = Some (Inr (?v\<lparr>loads_answered := loads_answered ?v + k\<rparr>))"
    using Suc.prems by (intro Suc.IH) (auto simp: has_state_answered)
  finally show ?case by simp
qed

text \<open>If no attempt succeeds, the loop does not return.\<close>

lemma load_loop_diverges:
  assumes "has_state e cid v" "to_ckpt_id s = Inr cid" "0 < n" "\<forall>j. \<not> ok (loads_answered v + j)"
  shows "load_loop (ask_worker e now n s) (try_load ok) v = None"
proof -
  have no: "ask = ask_worker e now n s \<longrightarrow> load = try_load ok \<longrightarrow> has_state e cid v \<longrightarrow>
      (\<exists>j. ok (loads_answered v + j))" if l: "load_loop ask load v = Some r" for ask load v r
  proof (rule load_loop.raw_induct [OF _ l, where P = "\<lambda>ask load v r. ask = ask_worker e now n s \<longrightarrow>
      load = try_load ok \<longrightarrow> has_state e cid v \<longrightarrow> (\<exists>j. ok (loads_answered v + j))"], intro impI)
    fix loop ask load r and v :: "'a worker"
    let ?v = "v\<lparr>loads_answered := loads_answered v + 1\<rparr>"
    assume ih: "\<And>ask load v r. loop ask load v = Some r \<Longrightarrow> ask = ask_worker e now n s \<longrightarrow>
        load = try_load ok \<longrightarrow> has_state e cid v \<longrightarrow> (\<exists>j. ok (loads_answered v + j))"
      and body: "(case load v of (ok, w) \<Rightarrow> if ok then Some (Inr w)
        else (case ask w of Inl err \<Rightarrow> Some (Inl err) | Inr w \<Rightarrow> loop ask load w)) = Some r"
      and eqs: "ask = ask_worker e now n s" "load = try_load ok" and has: "has_state e cid v"
    show "\<exists>j. ok (loads_answered v + j)"
    proof (cases "ok (loads_answered v)")
      case True
      then show ?thesis by (intro exI [of _ 0]) simp
    next
      case False
      then have run: "loop ask load ?v = Some r"
        using body ask_again [OF has assms(2,3), of now] by (simp add: eqs try_load_def)
      have "has_state e cid ?v" using has by (simp add: has_state_answered)
      then obtain j where "ok (loads_answered ?v + j)" using ih [OF run] eqs by blast
      then show ?thesis by (intro exI [of _ "1 + j"]) simp
    qed
  qed
  show ?thesis
  proof (rule ccontr)
    assume "load_loop (ask_worker e now n s) (try_load ok) v \<noteq> None"
    then obtain r where "load_loop (ask_worker e now n s) (try_load ok) v = Some r" by auto
    from no [OF this] show False using assms(1,4) by blast
  qed
qed

text \<open>
  C17. An application process needs a state that is not on the node. The state is in the global file
  system with the sizes of the node's processes, the library keeps its contract, the worker has two
  free slots, free directories to pull into, and nothing else to do, then or while the load goes on.
  Then the request makes one turn of the worker's loop pull the state, the files of all processes
  are on the node, and m\_load\_user tries to load it. It returns exactly if some attempt of the
  library's load succeeds, after one request and a further one for every failed attempt, which the
  worker answers without pulling again. If no attempt succeeds, it never returns.
\<close>

theorem load_is_served:
  assumes "can_serve e s cid parts w" "\<not> fti_stat_local (env_lib e) cid (files w)" "posts w = []" "loads w = []" "0 < n"
  shows "if \<exists>k. ok (loads_answered w + 1 + k)
     then \<exists>w'. load_user (local_state e s) (ask_worker e now n s) (try_load ok) w = Some (Inr w') \<and>
       loads_answered w' = loads_answered w + 1 + (LEAST k. ok (loads_answered w + 1 + k)) \<and>
       fti_stat_local (env_lib e) cid (files w') \<and>
       holds (l1_ckpt (env_conf e) cid) cid (app_body (env_conf e)) parts (fst (files w'))
     else load_user (local_state e s) (ask_worker e now n s) (try_load ok) w = None"
proof -
  have "can_serve e s cid parts (w\<lparr>loads := []\<rparr>)" "\<not> fti_stat_local (env_lib e) cid (files (w\<lparr>loads := []\<rparr>))"
    using assms(1,2) by (simp_all add: can_serve_def)
  from pull_head_serves [OF this] obtain v where v: "pull_head e s (w\<lparr>loads := []\<rparr>) = Inr v"
      "fti_stat_local (env_lib e) cid (files v)" "loads_answered v = loads_answered w" "posts v = []" "loads v = []"
      "holds (l1_ckpt (env_conf e) cid) cid (app_body (env_conf e)) parts (fst (files v))"
    using assms(3) by auto
  have cid: "to_ckpt_id s = Inr cid" using assms(1) by (simp add: can_serve_def)
  let ?v = "v\<lparr>loads_answered := loads_answered v + 1\<rparr>"
  have has: "has_state e cid ?v" using v by (simp add: has_state_def)
  have "ask_worker e now n s w = Inr ?v"
    using assms(3,4,5) v(1) by (cases n) (simp_all add: ask_worker_def worker_callback_def request_load_def)
  then have eq: "load_user (local_state e s) (ask_worker e now n s) (try_load ok) w =
      load_loop (ask_worker e now n s) (try_load ok) ?v"
    using assms(2) v(2) cid by (simp add: load_user_def local_state_def is_local_def)
  show ?thesis
  proof (cases "\<exists>k. ok (loads_answered w + 1 + k)")
    case True
    let ?k = "LEAST k. ok (loads_answered w + 1 + k)"
    have "ok (loads_answered ?v + ?k)" "\<forall>j < ?k. \<not> ok (loads_answered ?v + j)"
      using LeastI_ex [OF True] not_less_Least v(3) by auto
    from load_loop_ends [OF has cid assms(5) this, of now] show ?thesis
      using True v eq by auto
  next
    case False
    then have "\<forall>j. \<not> ok (loads_answered ?v + j)" using v(3) by simp
    from load_loop_diverges [OF has cid assms(5) this, of now] show ?thesis using False eq by simp
  qed
qed

text \<open>A library with a plain record of the local checkpoints, and a server that deletes the first state it is offered.\<close>

definition list_lib :: "int list fti_lib" where
  "list_lib = \<lparr>fti_stat_local = (\<lambda>cid w. cid \<in> set (snd w)), fti_stat_global = (\<lambda>_ _. False),
     fti_update_ckpt_metadata = (\<lambda>cid l w. (True, fst w, if l = 1 then cid # snd w else snd w)),
     fti_remove_ckpt_metadata = (\<lambda>_ _ w. (True, w)),
     fti_remove = (\<lambda>cid l w. (True, fst w, removeAll cid (snd w)))\<rparr>"

definition plain_server :: "message list \<Rightarrow> message option" where
  "plain_server h = (case last h of
     Delete_request r ss \<Rightarrow> if ss = [] then None else Some (Delete_response (hd ss))
   | Prefetch_request r ss c f \<Rightarrow> Some (Prefetch_response [] [])
   | Weight r s x \<Rightarrow> Some Other_message
   | _ \<Rightarrow> None)"

definition list_env :: "int list env" where
  "list_env = \<lparr>env_lib = list_lib, env_conf = node_conf ''n2'', env_uuid = (\<lambda>_. (''u'', ''uuid'', ''uuid2'')),
     env_indet = (\<lambda>_ _. 0), env_runner_id = 3, env_server = plain_server\<rparr>"

lemma list_env_ok: "lib_ok (env_lib list_env)" "served list_env rs"
proof -
  show "lib_ok (env_lib list_env)" by (auto simp: lib_ok_def notes_checkpoints_def list_env_def list_lib_def)
  have "reply_ok q m" if "env_server list_env (h @ [q]) = Some m" for h q m
    using that by (cases q) (auto simp: list_env_def plain_server_def dump_states_def split: if_splits)
  then show "served list_env rs" by (rule served_all)
qed

lemma example_serve:
  "can_serve list_env \<lparr>st_t = 0, st_id = 7\<rparr> 7 [''abc'', ''de''] (fresh_worker 4 (pfs_with_state ''n2'', []))"
  "\<not> fti_stat_local (env_lib list_env) 7 (files (fresh_worker 4 (pfs_with_state ''n2'', [])))"
proof -
  have "env_conf list_env = node_conf ''n2''" "env_uuid list_env 0 = (''u'', ''uuid'', ''uuid2'')"
      "proc_sizes (node_conf ''n2'') = map length [''abc'', ''de'']"
    by (simp_all add: list_env_def node_conf_def)
  then show "can_serve list_env \<lparr>st_t = 0, st_id = 7\<rparr> 7 [''abc'', ''de''] (fresh_worker 4 (pfs_with_state ''n2'', []))"
    unfolding can_serve_def using list_env_ok(1) example_id example_pull(1,4,5)
    by (simp add: fresh_worker_def pool_range_def pool_free_def size64_def)
  show "\<not> fti_stat_local (env_lib list_env) 7 (files (fresh_worker 4 (pfs_with_state ''n2'', [])))"
    by (simp add: list_env_def list_lib_def fresh_worker_def)
qed

text \<open>A load that fails twice is answered three times; one that always fails does not return.\<close>

theorem load_is_served_witness:
  "(\<exists>w'. load_user (local_state list_env \<lparr>st_t = 0, st_id = 7\<rparr>) (ask_worker list_env 0 2 \<lparr>st_t = 0, st_id = 7\<rparr>)
       (try_load (\<lambda>k. 3 \<le> k)) (fresh_worker 4 (pfs_with_state ''n2'', [])) = Some (Inr w') \<and>
     loads_answered w' = 3 \<and> fti_stat_local (env_lib list_env) 7 (files w') \<and>
     holds (l1_ckpt (env_conf list_env) 7) 7 (app_body (env_conf list_env)) [''abc'', ''de''] (fst (files w'))) \<and>
   load_user (local_state list_env \<lparr>st_t = 0, st_id = 7\<rparr>) (ask_worker list_env 0 2 \<lparr>st_t = 0, st_id = 7\<rparr>)
     (try_load (\<lambda>k. False)) (fresh_worker 4 (pfs_with_state ''n2'', [])) = None"
proof -
  have w: "posts (fresh_worker 4 (pfs_with_state ''n2'', [] :: int list)) = []"
      "loads (fresh_worker 4 (pfs_with_state ''n2'', [] :: int list)) = []"
      "loads_answered (fresh_worker 4 (pfs_with_state ''n2'', [] :: int list)) = 0" and two: "0 < (2::nat)"
    by (simp_all add: fresh_worker_def)
  have "\<exists>k. 3 \<le> Suc k" "(LEAST k. 3 \<le> Suc k) = 2" by (auto intro!: Least_equality)
  then show ?thesis
    using load_is_served [OF example_serve w(1,2) two, of "\<lambda>k. 3 \<le> k" 0]
      load_is_served [OF example_serve w(1,2) two, of "\<lambda>k. False" 0] w(3) by (simp add: numeral_3_eq_3)
qed

section \<open>The worker refines a bounded cache\<close>

lemma auto_delete_asks: "auto_delete e q w = Inr w' \<Longrightarrow> requests w' = requests w"
proof (induction e q w rule: auto_delete.induct)
  case (2 e s q w)
  show ?case
  proof (cases "st_t s < last_assimilation_cycle w - 1")
    case True
    then obtain v where v: "remove_state e s IO_STORAGE_L2 w = Inr v" "auto_delete e q v = Inr w'"
      using "2.prems" by (auto simp: and_then_Inr_iff simp del: split_paired_Ex)
    then show ?thesis using "2.IH" [OF True v] on_files_Inr [OF v(1) [unfolded remove_state_def]] by simp
  qed (use "2.prems" in auto)
qed auto

lemma request_post_asks: "request_post e w = Inr w' \<Longrightarrow> prefix (requests w) (requests w')"
  by (auto simp: request_post_def push_weight_to_server_def and_then_Inr_iff ask_server_Inr Let_def cache_state_def on_pool_def
      prefix_def simp del: split_paired_Ex split: list.splits message.splits if_splits
      dest!: stage_state_Inr on_files_Inr prefetch_request_asks delete_request_asks)

lemma worker_callback_asks: "worker_callback e now w = Inr w' \<Longrightarrow> prefix (requests w) (requests w')"
  by (auto simp: worker_callback_def request_load_def request_pull_def request_fini_def and_then_Inr_iff simp del: split_paired_Ex
      split: if_splits list.splits dest!: request_post_asks pull_head_asks auto_delete_asks)

lemma worker_turn_simulates:
  assumes w: "worker_inv n e w" and lib: "lib_ok (env_lib e)" and srv: "served e (requests w')"
    and c: "worker_callback e now w = Inr w'"
  shows "simulates (n + slots_lost w) e w w'"
proof -
  consider (post) "posts w \<noteq> []" | (load) "posts w = []" "loads w \<noteq> []"
    | (pull) "posts w = []" "loads w = []" "pull_requests w \<noteq> []"
    | (rest) "posts w = []" "loads w = []" "pull_requests w = []" by blast
  then show ?thesis
  proof cases
    case post
    then show ?thesis using c request_post_simulates [OF w lib srv] by (simp add: worker_callback_def)
  next
    case load
    then obtain ids ls where ls: "loads w = ids # ls" by (cases "loads w") auto
    then obtain v where v: "pull_head e (hd ids) (w\<lparr>loads := ls\<rparr>) = Inr v" "w' = v\<lparr>loads_answered := loads_answered v + 1\<rparr>"
      using c load by (auto simp: worker_callback_def request_load_def and_then_Inr_iff split: if_splits)
    have inv: "worker_inv n e (w\<lparr>loads := ls\<rparr>)" using w by (rule worker_inv_same) simp_all
    have "served e (requests v)" using srv v(2) by simp
    from pull_head_simulates [OF inv lib this v(1)] have "simulates n e w w'"
      by (rule simulates_wrap) (simp_all add: v(2))
    then show ?thesis using load(1) by (simp add: slots_lost_def posted_again_def)
  next
    case pull
    then obtain s ss where ss: "pull_requests w = s # ss" by (cases "pull_requests w") auto
    then obtain loc v where v: "(if loc then Inr w else pull_head e s w) = Inr v" "w' = v\<lparr>pull_requests := tl (pull_requests v)\<rparr>"
      using c pull by (auto simp: worker_callback_def request_pull_def and_then_Inr_iff)
    have "served e (requests v)" using srv v(2) by simp
    then have "simulates n e w v"
      using v(1) simulates_refl [OF w] pull_head_simulates [OF w lib] by (auto split: if_splits)
    then have "simulates n e w w'" by (rule simulates_wrap) (simp_all add: v(2))
    then show ?thesis using pull(1) by (simp add: slots_lost_def posted_again_def)
  next
    case rest
    have inv: "worker_inv n e (w\<lparr>next_try_delete := now + 10\<rparr>)" using w by (rule worker_inv_same) simp_all
    have "simulates n e w w'"
    proof (cases "finis w = 0 \<and> next_try_delete w < now")
      case True
      then have "auto_delete e (del_q w) (w\<lparr>next_try_delete := now + 10\<rparr>) = Inr w'"
        using c rest by (simp add: worker_callback_def)
      from auto_delete_simulates [OF this inv lib] show ?thesis by (rule simulates_wrap) simp_all
    next
      case False
      then have "cached_states w' = cached_states w \<and> pool w' = pool w \<and> files w' = files w"
        using c rest by (auto simp: worker_callback_def request_fini_def split: if_splits)
      then show ?thesis using simulates_same [OF w] by simp
    qed
    then show ?thesis using rest(1) by (simp add: slots_lost_def posted_again_def)
  qed
qed

text \<open>
  Every turn of the worker's loop refines a bounded cache: with a library that keeps its
  contract and the server's answers as asked, a turn that succeeds keeps the invariant that the
  cached states are local and fit into the pool, changes their set by putting new states while
  there is room and evicting cached ones, and takes a slot too many exactly if it takes the weight
  of a state that is cached already.
\<close>

theorem worker_refines_bounded_cache:
  assumes w: "worker_inv n e w" and lib: "lib_ok (env_lib e)" and srv: "served e (requests w')"
    and c: "worker_callback e now w = Inr w'"
  shows "worker_inv (n + slots_lost w) e w' \<and>
     pool_used (pool w') = int (card (cache_of w') + n + slots_lost w) \<and>
     (cache_step (pool_capacity (pool w)))\<^sup>*\<^sup>* (cache_of w) (cache_of w')"
  using worker_turn_simulates [OF assms] card_cache [of "n + slots_lost w" e w'] by (auto simp: simulates_def worker_inv_def)

definition waiting_worker :: "int list worker" where
  "waiting_worker = (fresh_worker 4 (pfs_with_state ''n2'', []))\<lparr>loads := [[\<lparr>st_t = 0, st_id = 7\<rparr>]]\<rparr>"

theorem worker_refines_bounded_cache_witness:
  "\<exists>w'. worker_callback list_env 0 waiting_worker = Inr w' \<and> worker_inv 0 list_env w' \<and>
     pool_used (pool w') = int (card (cache_of w')) \<and> (cache_step 4)\<^sup>*\<^sup>* {} (cache_of w')"
proof -
  let ?s = "\<lparr>st_t = 0, st_id = 7\<rparr>"
  obtain v where "pull_head list_env ?s (fresh_worker 4 (pfs_with_state ''n2'', [])) = Inr v"
    using pull_head_serves [OF example_serve] by blast
  then have c: "worker_callback list_env 0 waiting_worker = Inr (v\<lparr>loads_answered := loads_answered v + 1\<rparr>)"
    by (simp add: worker_callback_def waiting_worker_def request_load_def fresh_worker_def)
  have "worker_inv 0 list_env waiting_worker" "slots_lost waiting_worker = 0" "cache_of waiting_worker = {}"
      "pool_capacity (pool waiting_worker) = 4"
    by (simp_all add: worker_inv_def waiting_worker_def fresh_worker_def pool_range_def slots_lost_def posted_again_def
        cache_of_def)
  then show ?thesis using worker_refines_bounded_cache [OF _ list_env_ok c] c by auto
qed

text \<open>
  Why the answers must be as asked: a server that holds the runner to be faulty answers with an
  empty message (handle\_general\_purpose in server-p2p/server.py), whose state to delete is the
  state 0 of the cycle 0. Unless that is cached, a request to delete that succeeds frees a slot and
  leaves the cached states, one more than the pool counts.
\<close>

lemma empty_answer_frees_a_slot:
  assumes "delete_request e w = Inr w'" "worker_inv n e w" "map_of (cached_states w) 0 = None"
    and "env_server e (requests w @ [delete_message (env_runner_id e) (map snd (cached_states w))]) = Some (No_content r)"
  shows "cached_states w' = cached_states w \<and> pool_used (pool w') = int (card (cache_of w') + n) - 1"
proof -
  let ?s = "\<lparr>st_t = 0, st_id = 0\<rparr>"
  have cid: "to_ckpt_id ?s = Inr 0" by (simp add: to_ckpt_id_def int_value_def)
  obtain w2 p where rm: "remove_state e ?s IO_STORAGE_L1 (w\<lparr>requests := requests w @
          [delete_message (env_runner_id e) (map snd (cached_states w))]\<rparr>) = Inr w2"
      and p: "pool_dec (pool w2) = Inr p"
      and w': "w' = w2\<lparr>pool := p, cached_states := om_erase 0 (cached_states w2)\<rparr>"
    using assms(1,4) cid by (auto simp: delete_request_def and_then_Inr_iff ask_server_Inr Let_def on_pool_def to_delete_def)
  have w2: "cached_states w2 = cached_states w" "pool w2 = pool w"
    using on_files_Inr [OF rm [unfolded remove_state_def]] by simp_all
  have "\<forall>q \<in> set (cached_states w). fst q \<noteq> 0" using assms(3) by (force simp: map_of_eq_None_iff)
  then have "cached_states w' = cached_states w" by (auto simp: w' w2 om_erase_def intro!: filter_True)
  then show ?thesis
    using card_cache [OF assms(2)] assms(2) p w2 by (auto simp: w' worker_inv_def cache_of_def pool_dec_iff)
qed

section \<open>Dumped and deleted states\<close>

lemma dump_all_result:
  "dump_all e ss w = Inr w' \<Longrightarrow> lib_ok (env_lib e) \<Longrightarrow>
     cached_states w' = cached_states w \<and> pool_used (pool w') = pool_used (pool w) - int (length ss) \<and>
     (\<forall>d. fti_stat_local (env_lib e) d (files w') =
        (fti_stat_local (env_lib e) d (files w) \<and> (\<forall>s \<in> set ss. to_ckpt_id s \<noteq> Inr d)))"
proof (induction e ss w rule: dump_all.induct)
  case (2 e s ss w)
  then obtain u p where u: "remove_state e s IO_STORAGE_L1 w = Inr u" "pool_dec (pool u) = Inr p"
      "dump_all e ss (u\<lparr>pool := p\<rparr>) = Inr w'"
    by (auto simp: and_then_Inr_iff on_pool_def simp del: split_paired_Ex)
  have on: "on_pool pool_dec u = Inr (u\<lparr>pool := p\<rparr>)" using u(2) by (simp add: on_pool_def)
  note ih = "2.IH" [OF u(1) on u(3) "2.prems"(2)]
  have l: "fti_stat_local (env_lib e) d (files u) = (fti_stat_local (env_lib e) d (files w) \<and> to_ckpt_id s \<noteq> Inr d)" for d
    using on_files_Inr [OF u(1) [unfolded remove_state_def]]
      remove_local [OF _ "2.prems"(2), of "env_conf e" s IO_STORAGE_L1 "files w" "files u" d] by simp
  show ?case using ih l on_files_Inr [OF u(1) [unfolded remove_state_def]] u(2) by (auto simp: pool_dec_iff)
qed simp

text \<open>
  A dump leaves stale entries: prefetch\_request removes every state the server names from the
  node and frees a slot for each, but the states stay in the list of cached states, so the next
  request tells the server that the node still holds them, and the pool counts fewer states than
  the list has.
\<close>

theorem dumped_states_stay_listed:
  assumes "lib_ok (env_lib e)" "pool_used (pool w) = int (length (cached_states w))"
    and "prefetch_request e w = Inr w'"
    and "env_server e (requests w @ [Prefetch_request (env_runner_id e) (map snd (cached_states w))
           (pool_capacity (pool w)) (pool_free (pool w))]) = Some (Prefetch_response ps ds)"
    and "ds \<noteq> []"
  shows "(\<forall>s \<in> set ds. \<forall>cid. to_ckpt_id s = Inr cid \<longrightarrow> \<not> fti_stat_local (env_lib e) cid (files w')) \<and>
     cached_states w' = cached_states w \<and> pool_used (pool w') < int (length (cached_states w'))"
proof -
  have "dump_all e ds (w\<lparr>requests := requests w @ [Prefetch_request (env_runner_id e) (map snd (cached_states w))
        (pool_capacity (pool w)) (pool_free (pool w))], pull_requests := pull_requests w @ ps\<rparr>) = Inr w'"
    using assms(3,4) by (simp add: prefetch_request_def ask_server_def dump_states_def pull_states_def)
  from dump_all_result [OF this assms(1)] show ?thesis using assms(2,5) by auto
qed

definition dumping_env :: "int list env" where
  "dumping_env = list_env\<lparr>env_server := (\<lambda>_. Some (Prefetch_response [] [\<lparr>st_t = 0, st_id = 7\<rparr>]))\<rparr>"

definition caching_worker :: "int list worker" where
  "caching_worker = (fresh_worker 4 ([], [7]))\<lparr>cached_states := [(7, \<lparr>st_t = 0, st_id = 7\<rparr>)],
     pool := \<lparr>pool_capacity = 4, pool_used = 1\<rparr>\<rparr>"

theorem dumped_states_stay_listed_witness:
  "\<exists>w'. prefetch_request dumping_env caching_worker = Inr w' \<and>
     \<not> fti_stat_local (env_lib dumping_env) 7 (files w') \<and> map fst (cached_states w') = [7] \<and> pool_used (pool w') < 1"
proof -
  have srv: "env_server dumping_env h = Some (Prefetch_response [] [\<lparr>st_t = 0, st_id = 7\<rparr>])" for h
    by (simp add: dumping_env_def)
  have lib: "lib_ok (env_lib dumping_env)" using list_env_ok(1) by (simp add: dumping_env_def)
  have used: "pool_used (pool caching_worker) = int (length (cached_states caching_worker))" by (simp add: caching_worker_def)
  have "\<exists>w'. prefetch_request dumping_env caching_worker = Inr w'"
    by (simp add: prefetch_request_def ask_server_def srv dump_states_def remove_state_def on_files_def io_remove_def
        example_id io_try_def on_pool_def pool_dec_def caching_worker_def case_prod_beta)
       (simp add: dumping_env_def list_env_def list_lib_def)
  then obtain w' where w': "prefetch_request dumping_env caching_worker = Inr w'" by blast
  show ?thesis using dumped_states_stay_listed [OF lib used w' srv] w' example_id by (auto simp: caching_worker_def)
qed

text \<open>What the removal of a state from the global file system leaves.\<close>

definition keeps_files :: "'f fti_lib \<Rightarrow> bool" where
  "keeps_files lib \<longleftrightarrow> (\<forall>cid w. fst (snd (fti_remove_ckpt_metadata lib cid 4 w)) = fst w)"

lemma remove_global_files:
  assumes "remove_state e s IO_STORAGE_L2 w = Inr w'" "master_global (env_conf e)" "keeps_files (env_lib e)"
    and "to_ckpt_id s = Inr cid"
  shows "entry q (fst (files w')) = (if below (l2_ckpt (env_conf e) cid) q then None else entry q (fst (files w))) \<or>
     entry (l2_ckpt (env_conf e) cid) (fst (files w)) = None \<and> entry q (fst (files w')) = entry q (fst (files w))"
proof -
  obtain f where f: "(case remove_tree (l2_ckpt (env_conf e) cid) (fst (files w)) of
        None \<Rightarrow> merr (io_rank (env_conf e)) (Inr (fst (files w))) | Some f \<Rightarrow> Inr f) = Inr f"
      "fst (files w') = f"
    using on_files_Inr [OF assms(1) [unfolded remove_state_def]] assms(2-4)
    by (auto simp: io_remove_def and_then_Inr_iff case_prod_beta keeps_files_def l2_ckpt_def dest: sym)
  show ?thesis
    using f entry_filter [of q "\<lambda>p. \<not> below (l2_ckpt (env_conf e) cid) p" "fst (files w)"]
    by (auto simp: remove_tree_def merr_def split: if_splits)
qed

definition id_ok :: "io_state_id \<Rightarrow> bool" where
  "id_ok s \<longleftrightarrow> (\<exists>cid. to_ckpt_id s = Inr cid)"

lemma remove_global_clears:
  assumes "remove_state e s IO_STORAGE_L2 w = Inr w'" "master_global (env_conf e)" "keeps_files (env_lib e)"
    and "to_ckpt_id s = Inr cid"
  shows "entry (l2_ckpt (env_conf e) cid) (fst (files w')) = None"
    "entry q (fst (files w)) = None \<Longrightarrow> entry q (fst (files w')) = None"
    "\<not> below (l2_ckpt (env_conf e) cid) q \<Longrightarrow> entry q (fst (files w')) = entry q (fst (files w))"
  using remove_global_files [OF assms, of "l2_ckpt (env_conf e) cid"] remove_global_files [OF assms, of q]
  by (auto split: if_splits)

lemma remove_state_rest:
  "remove_state e s level w = Inr w' \<Longrightarrow> last_assimilation_cycle w' = last_assimilation_cycle w \<and> del_q w' = del_q w"
  unfolding remove_state_def on_files_def and_then_Inr_iff sum.inject by (elim exE conjE) (hypsubst, simp)

lemma remove_global_id:
  "remove_state e s IO_STORAGE_L2 w = Inr w' \<Longrightarrow> master_global (env_conf e) \<Longrightarrow> id_ok s"
  by (auto simp: remove_state_def on_files_def and_then_Inr_iff io_remove_def id_ok_def simp del: split_paired_Ex)

lemma auto_delete_result:
  "auto_delete e q w = Inr w' \<Longrightarrow> master_global (env_conf e) \<Longrightarrow> keeps_files (env_lib e) \<Longrightarrow>
     (let old = (\<lambda>s. st_t s < last_assimilation_cycle w - 1) in
      del_q w' = dropWhile old q \<and> (\<forall>s \<in> set (takeWhile old q). id_ok s) \<and>
      (\<forall>s cid. s \<in> set (takeWhile old q) \<and> to_ckpt_id s = Inr cid \<longrightarrow>
         entry (l2_ckpt (env_conf e) cid) (fst (files w')) = None) \<and>
      (\<forall>p. entry p (fst (files w)) = None \<longrightarrow> entry p (fst (files w')) = None) \<and>
      (\<forall>p. (\<forall>s cid. s \<in> set (takeWhile old q) \<and> to_ckpt_id s = Inr cid \<longrightarrow> \<not> below (l2_ckpt (env_conf e) cid) p) \<longrightarrow>
         entry p (fst (files w')) = entry p (fst (files w))))"
proof (induction e q w rule: auto_delete.induct)
  case (1 e w)
  then show ?case by auto
next
  case (2 e s q w)
  show ?case
  proof (cases "st_t s < last_assimilation_cycle w - 1")
    case True
    then obtain v where v: "remove_state e s IO_STORAGE_L2 w = Inr v" "auto_delete e q v = Inr w'"
      using "2.prems"(1) by (auto simp: and_then_Inr_iff simp del: split_paired_Ex)
    obtain cid where cid: "to_ckpt_id s = Inr cid"
      using remove_global_id [OF v(1) "2.prems"(2)] by (auto simp: id_ok_def)
    note clears = remove_global_clears [OF v(1) "2.prems"(2,3) cid]
    note ih = "2.IH" [OF True v(1,2) "2.prems"(2,3), unfolded Let_def conjunct1 [OF remove_state_rest [OF v(1)]]]
    let ?old = "\<lambda>s. st_t s < last_assimilation_cycle w - 1"
    have "entry p (fst (files w')) = entry p (fst (files w))"
      if "\<forall>s' cid. s' \<in> set (takeWhile ?old (s # q)) \<and> to_ckpt_id s' = Inr cid \<longrightarrow> \<not> below (l2_ckpt (env_conf e) cid) p" for p
    proof -
      have "\<not> below (l2_ckpt (env_conf e) cid) p" using that [rule_format, of s cid] cid True by simp
      moreover have "\<forall>s' cid. s' \<in> set (takeWhile ?old q) \<and> to_ckpt_id s' = Inr cid \<longrightarrow> \<not> below (l2_ckpt (env_conf e) cid) p"
      proof (intro allI impI)
        fix s' cid assume "s' \<in> set (takeWhile ?old q) \<and> to_ckpt_id s' = Inr cid"
        then show "\<not> below (l2_ckpt (env_conf e) cid) p" using that [rule_format, of s' cid] True by simp
      qed
      ultimately show ?thesis using ih clears(3) [of p] by simp
    qed
    moreover have "del_q w' = dropWhile ?old (s # q)" "\<forall>s \<in> set (takeWhile ?old (s # q)). id_ok s"
        "\<forall>p. entry p (fst (files w)) = None \<longrightarrow> entry p (fst (files w')) = None"
      using ih clears(2) True cid by (auto simp: id_ok_def)
    moreover have "entry (l2_ckpt (env_conf e) cid') (fst (files w')) = None"
      if "s' \<in> set (takeWhile ?old (s # q))" "to_ckpt_id s' = Inr cid'" for s' cid'
      using that ih clears(1) True cid by auto
    ultimately show ?thesis unfolding Let_def by blast
  next
    case False
    then show ?thesis using "2.prems" by (auto simp: Let_def)
  qed
qed

text \<open>
  C30. The automatic deletion removes from the global file system exactly the states at the front of
  the queue that are older than the cycle before the last one: their directories are gone, every
  other file stays, and the queue goes on with the first state of a recent cycle.
\<close>

theorem auto_delete_keeps_recent:
  assumes "auto_delete e (del_q w) w = Inr w'" "master_global (env_conf e)" "keeps_files (env_lib e)"
    and "old = takeWhile (\<lambda>s. st_t s < last_assimilation_cycle w - 1) (del_q w)"
  shows "del_q w = old @ del_q w' \<and> (\<forall>s. del_q w' \<noteq> [] \<and> s = hd (del_q w') \<longrightarrow> last_assimilation_cycle w - 1 \<le> st_t s) \<and>
     (\<forall>s cid. s \<in> set old \<and> to_ckpt_id s = Inr cid \<longrightarrow> entry (l2_ckpt (env_conf e) cid) (fst (files w')) = None) \<and>
     (\<forall>p. (\<forall>s cid. s \<in> set old \<and> to_ckpt_id s = Inr cid \<longrightarrow> \<not> below (l2_ckpt (env_conf e) cid) p) \<longrightarrow>
        entry p (fst (files w')) = entry p (fst (files w)))"
proof -
  let ?old = "\<lambda>s. st_t s < last_assimilation_cycle w - 1"
  note r = auto_delete_result [OF assms(1-3), unfolded Let_def]
  have "\<not> ?old (hd (del_q w'))" if "del_q w' \<noteq> []" using hd_dropWhile [of ?old "del_q w"] that r by metis
  then have "\<forall>s. del_q w' \<noteq> [] \<and> s = hd (del_q w') \<longrightarrow> last_assimilation_cycle w - 1 \<le> st_t s" by auto
  moreover have "del_q w = old @ del_q w'" using r by (simp add: assms(4))
  ultimately show ?thesis using r unfolding assms(4) by blast
qed

definition deleting_worker :: "int list worker" where
  "deleting_worker = (fresh_worker 4 (pfs_with_state ''n2'', []))\<lparr>last_assimilation_cycle := 2,
     del_q := [\<lparr>st_t = 0, st_id = 7\<rparr>, \<lparr>st_t = 1, st_id = 7\<rparr>]\<rparr>"

theorem auto_delete_keeps_recent_witness:
  "\<exists>w'. auto_delete list_env (del_q deleting_worker) deleting_worker = Inr w' \<and> del_q w' = [\<lparr>st_t = 1, st_id = 7\<rparr>] \<and>
     entry (l2_ckpt (env_conf list_env) 7) (fst (files w')) = None"
proof -
  have cf: "env_conf list_env = node_conf ''n2''" by (simp add: list_env_def)
  have "remove_tree (l2_ckpt (node_conf ''n2'') 7) (pfs_with_state ''n2'') \<noteq> None"
    by (simp add: remove_tree_def pfs_with_state_def l2_ckpt_def node_conf_def Let_def)
  then obtain f where "remove_tree (global_dir (node_conf ''n2'') @ [dec 7]) (pfs_with_state ''n2'') = Some f"
    by (auto simp: l2_ckpt_def)
  then have "\<exists>w'. auto_delete list_env (del_q deleting_worker) deleting_worker = Inr w'"
    by (simp add: deleting_worker_def fresh_worker_def remove_state_def on_files_def io_remove_def example_id cf io_try_def
        case_prod_beta) (simp add: list_env_def list_lib_def node_conf_def)
  then obtain w' where w': "auto_delete list_env (del_q deleting_worker) deleting_worker = Inr w'" by blast
  have m: "master_global (env_conf list_env)" "keeps_files (env_lib list_env)"
    by (simp_all add: cf node_conf_def keeps_files_def list_env_def list_lib_def)
  have old: "takeWhile (\<lambda>s. st_t s < last_assimilation_cycle deleting_worker - 1) (del_q deleting_worker) = [\<lparr>st_t = 0, st_id = 7\<rparr>]"
    by (simp add: deleting_worker_def)
  from auto_delete_keeps_recent [OF w' m old [symmetric]] w' example_id show ?thesis
    by (auto simp: deleting_worker_def)
qed

end
