(* ===== verification/FtiCore.thy ===== *)
theory FtiCore
  imports Staging
begin

text \<open>
  The other part of the FTI controller (api/p2p/StorageController/fti\_controller.cxx): what init\_core
  takes from the library, the protected buffers, and the messages between the application processes
  and the head of a node, as calls of the library.
\<close>

section \<open>init\_core\<close>

text \<open>The path before the first occurrence of a slash with the execution id.\<close>

fun strip_id :: "string \<Rightarrow> string \<Rightarrow> string" where
  "strip_id eid [] = []"
| "strip_id eid (x # xs) = (if take (length eid + 1) (x # xs) = CHR 0x2F # eid then [] else x # strip_id eid xs)"

record fti_topology =
  nbNodes :: int
  nodeSize :: int
  nbHeads :: int
  nbProc :: int
  masterLocal :: bool
  masterGlobal :: bool

record fti_directories =
  glbalDir :: string
  localDir :: string
  metadDir :: string
  tmpDir :: string
  execution_id :: string

record fti_core =
  dict_int :: "string \<rightharpoonup> int"
  dict_bool :: "string \<rightharpoonup> bool"
  dict_string :: "string \<rightharpoonup> string"
  tmp_dir :: string
  m_id_counter :: int
  m_var_id_map :: "int \<rightharpoonup> int"
  fti_protected :: "(int \<times> nat \<times> int) list"

text \<open>The entries of the maps from the types and tags of the program to those of FTI.\<close>

datatype io_type = IO_DOUBLE | IO_BYTE | IO_INT | IO_USER1 | IO_USER2 | IO_USER3
datatype io_tag = IO_TAG_LOAD | IO_TAG_PEER | IO_TAG_PULL | IO_TAG_PUSH | IO_TAG_POST | IO_TAG_DUMP | IO_TAG_FINI
datatype io_msg = IO_MSG_ALL | IO_MSG_ONE

definition io_type_known :: "io_type \<Rightarrow> bool" where
  "io_type_known ty \<longleftrightarrow> ty \<in> {IO_DOUBLE, IO_BYTE, IO_INT}"

definition io_type_number :: "io_type \<Rightarrow> int" where
  "io_type_number ty = (case ty of IO_DOUBLE \<Rightarrow> 0 | IO_BYTE \<Rightarrow> 1 | IO_INT \<Rightarrow> 2 | IO_USER1 \<Rightarrow> 3 | IO_USER2 \<Rightarrow> 4 | IO_USER3 \<Rightarrow> 5)"

text \<open>A tag that is not in the map becomes 0.\<close>

definition fti_tag :: "io_tag \<Rightarrow> int" where
  "fti_tag t =
     (case t of
        IO_TAG_LOAD \<Rightarrow> 1000000
      | IO_TAG_PEER \<Rightarrow> 0
      | IO_TAG_PULL \<Rightarrow> 1000002
      | IO_TAG_PUSH \<Rightarrow> 1000003
      | IO_TAG_POST \<Rightarrow> 1000004
      | IO_TAG_DUMP \<Rightarrow> 1000005
      | IO_TAG_FINI \<Rightarrow> 1000006)"

definition init_core :: "nat \<Rightarrow> bool \<Rightarrow> fti_topology \<Rightarrow> fti_directories \<Rightarrow> fti_core" where
  "init_core FTI_BUFS head topo dirs =
     \<lparr>dict_int = [''nodes'' \<mapsto> nbNodes topo, ''procs_node'' \<mapsto> nodeSize topo,
                  ''app_procs_node'' \<mapsto> nodeSize topo - nbHeads topo, ''procs_total'' \<mapsto> nbProc topo],
      dict_bool = [''master_local'' \<mapsto> masterLocal topo, ''master_global'' \<mapsto> masterGlobal topo],
      dict_string = [''global_dir'' \<mapsto> strip_id (execution_id dirs) (glbalDir dirs),
                     ''local_dir'' \<mapsto> strip_id (execution_id dirs) (localDir dirs),
                     ''meta_dir'' \<mapsto> strip_id (execution_id dirs) (metadDir dirs),
                     ''exec_id'' \<mapsto> execution_id dirs],
      tmp_dir = take (FTI_BUFS - 1) (tmpDir dirs @ (if head then ''.head'' else ''.app'')),
      m_id_counter = 0, m_var_id_map = Map.empty, fti_protected = []\<rparr>"

text \<open>A directory of the library is a base directory with the execution id, which does not occur before.\<close>

lemma strip_id_prefix:
  "(\<forall>k < length d. take (length eid + 1) (drop k (d @ CHR 0x2F # eid @ rest)) \<noteq> CHR 0x2F # eid) \<Longrightarrow>
     strip_id eid (d @ CHR 0x2F # eid @ rest) = d"
proof (induction d)
  case (Cons x d)
  have "take (length eid + 1) (x # d @ CHR 0x2F # eid @ rest) \<noteq> CHR 0x2F # eid" using Cons.prems by (auto dest: spec [of _ 0])
  moreover have "\<forall>k < length d. take (length eid + 1) (drop k (d @ CHR 0x2F # eid @ rest)) \<noteq> CHR 0x2F # eid"
    using Cons.prems by (auto dest: spec [of _ "Suc _"])
  ultimately show ?case using Cons.IH by simp
qed simp

lemma strip_id_absent:
  "(\<forall>k < length d. take (length eid + 1) (drop k d) \<noteq> CHR 0x2F # eid) \<Longrightarrow> strip_id eid d = d"
proof (induction d)
  case (Cons x d)
  have "take (length eid + 1) (x # d) \<noteq> CHR 0x2F # eid" using Cons.prems by (auto dest: spec [of _ 0])
  moreover have "\<forall>k < length d. take (length eid + 1) (drop k d) \<noteq> CHR 0x2F # eid"
    using Cons.prems by (auto dest: spec [of _ "Suc _"])
  ultimately show ?case using Cons.IH by simp
qed simp

section \<open>Protected buffers\<close>

definition io_protect :: "nat \<Rightarrow> io_type \<Rightarrow> fti_core \<Rightarrow> (int \<times> fti_core) res" where
  "io_protect n ty c =
     assert_then (io_type_known ty)
      (Inr (m_id_counter c,
        c\<lparr>fti_protected := fti_protected c @ [(m_id_counter c, n, io_type_number ty)],
          m_var_id_map := (case m_var_id_map c (m_id_counter c) of
             None \<Rightarrow> (m_var_id_map c)(m_id_counter c \<mapsto> io_type_number ty) | Some _ \<Rightarrow> m_var_id_map c),
          m_id_counter := m_id_counter c + 1\<rparr>))"

definition io_update :: "int \<Rightarrow> nat \<Rightarrow> fti_core \<Rightarrow> fti_core res" where
  "io_update i n c =
     (case m_var_id_map c i of
        None \<Rightarrow> Inl Assertion_failed
      | Some ty \<Rightarrow> Inr (c\<lparr>fti_protected := fti_protected c @ [(i, n, ty)]\<rparr>))"

text \<open>The ids below the counter are those of protected buffers.\<close>

definition core_inv :: "fti_core \<Rightarrow> bool" where
  "core_inv c \<longleftrightarrow> 0 \<le> m_id_counter c \<and> (\<forall>i. m_var_id_map c i = None \<longleftrightarrow> i < 0 \<or> m_id_counter c \<le> i)"

lemma core_inv_None: "core_inv c \<Longrightarrow> m_var_id_map c i = None \<longleftrightarrow> i < 0 \<or> m_id_counter c \<le> i"
  by (simp add: core_inv_def)

lemma init_core_inv: "core_inv (init_core b h t d)"
  by (auto simp: core_inv_def init_core_def)

lemma io_protect_inv:
  assumes "io_protect n ty c = Inr (i, c')" "core_inv c"
  shows "core_inv c'" "m_var_id_map c i = None" "m_var_id_map c' i = Some (io_type_number ty)"
proof -
  have f: "m_var_id_map c (m_id_counter c) = None" using core_inv_None [OF assms(2)] by simp
  have c': "i = m_id_counter c" "m_var_id_map c' = (m_var_id_map c)(i \<mapsto> io_type_number ty)" "m_id_counter c' = i + 1"
    using assms(1) f by (auto simp: io_protect_def)
  show "m_var_id_map c i = None" "m_var_id_map c' i = Some (io_type_number ty)" using f c' by simp_all
  show "core_inv c'" using assms(2) by (auto simp: core_inv_def c')
qed

lemma io_update_protected:
  assumes "core_inv c" shows "(\<exists>c'. io_update i n c = Inr c') \<longleftrightarrow> 0 \<le> i \<and> i < m_id_counter c"
  using core_inv_None [OF assms, of i] by (cases "m_var_id_map c i") (auto simp: io_update_def)

section \<open>Loading and storing\<close>

text \<open>Only the levels in the map are known; \<open>FTI\_Load\<close> tells whether it succeeds.\<close>

definition io_load :: "(int \<Rightarrow> int \<Rightarrow> bool) \<Rightarrow> io_state_id \<Rightarrow> io_level \<Rightarrow> bool res" where
  "io_load FTI_Load s level =
     (case fti_level level of
        None \<Rightarrow> Inl Assertion_failed
      | Some l \<Rightarrow> and_then (to_ckpt_id s) (\<lambda>cid. Inr (FTI_Load cid l)))"

definition io_store :: "(int \<Rightarrow> int \<Rightarrow> 'f \<Rightarrow> 'f) \<Rightarrow> io_state_id \<Rightarrow> io_level \<Rightarrow> 'f \<Rightarrow> 'f res" where
  "io_store FTI_Checkpoint s level w =
     (case fti_level level of
        None \<Rightarrow> Inl Assertion_failed
      | Some l \<Rightarrow> and_then (to_ckpt_id s) (\<lambda>cid. Inr (FTI_Checkpoint cid l w)))"

section \<open>Messages\<close>

datatype fti_message = HeadSend nat int io_msg | HeadRecv nat int io_msg | AppSend nat int io_msg | AppRecv nat int io_msg

definition io_send :: "bool \<Rightarrow> nat \<Rightarrow> io_tag \<Rightarrow> io_msg \<Rightarrow> fti_message list" where
  "io_send head n t m = [if head then HeadSend n (fti_tag t) m else AppSend n (fti_tag t) m]"

definition io_recv :: "bool \<Rightarrow> nat \<Rightarrow> io_tag \<Rightarrow> io_msg \<Rightarrow> fti_message list" where
  "io_recv head n t m = [if head then HeadRecv n (fti_tag t) m else AppRecv n (fti_tag t) m]"

definition io_sendrecv :: "bool \<Rightarrow> nat \<Rightarrow> nat \<Rightarrow> io_tag \<Rightarrow> io_msg \<Rightarrow> fti_message list" where
  "io_sendrecv head send_size recv_size t m =
     (if head then [HeadRecv recv_size (fti_tag t) m, HeadSend send_size (fti_tag t) m]
      else [AppSend send_size (fti_tag t) m, AppRecv recv_size (fti_tag t) m])"

text \<open>On a head the queues of requests stand for three of the tags; \<open>waiting\<close> is the probe of the library.\<close>

definition io_probe :: "bool \<Rightarrow> 'a list \<Rightarrow> 'a list \<Rightarrow> 'b list \<Rightarrow> (int \<Rightarrow> bool) \<Rightarrow> io_tag \<Rightarrow> bool" where
  "io_probe head pulls pushes dumps waiting t =
     (if head then
        (case t of
           IO_TAG_PULL \<Rightarrow> pulls \<noteq> []
         | IO_TAG_PUSH \<Rightarrow> pushes \<noteq> []
         | IO_TAG_DUMP \<Rightarrow> dumps \<noteq> []
         | _ \<Rightarrow> waiting (fti_tag t))
      else waiting (fti_tag t))"

text \<open>Two calls meet when one receives what the other sends.\<close>

fun meets :: "fti_message \<Rightarrow> fti_message \<Rightarrow> bool" where
  "meets (AppSend n t m) (HeadRecv n' t' m') \<longleftrightarrow> n = n' \<and> t = t' \<and> m = m'"
| "meets (AppRecv n t m) (HeadSend n' t' m') \<longleftrightarrow> n = n' \<and> t = t' \<and> m = m'"
| "meets _ _ \<longleftrightarrow> False"

text \<open>
  The exchanges of the storage controller meet: a load and the end of the application with
  sendrecv on the application's side, receive and send on the head's side; the capacity, the state
  size and a weight with one message each.
\<close>

lemma exchanges_meet:
  "list_all2 meets (io_sendrecv False 8 4 IO_TAG_LOAD IO_MSG_ALL) (io_recv True 8 IO_TAG_LOAD IO_MSG_ALL @ io_send True 4 IO_TAG_LOAD IO_MSG_ALL)"
  "list_all2 meets (io_sendrecv False 4 4 IO_TAG_FINI IO_MSG_ONE) (io_recv True 4 IO_TAG_FINI IO_MSG_ONE @ io_send True 4 IO_TAG_FINI IO_MSG_ONE)"
  "list_all2 meets (io_sendrecv False n k t m) (io_sendrecv True k n t m)"
  "list_all2 meets (io_send False n t m) (io_recv True n t m)"
  by (simp_all add: io_sendrecv_def io_send_def io_recv_def)

text \<open>Different tags of the map stay different.\<close>

lemma fti_tag_inj: "inj fti_tag"
  by (rule injI) (auto simp: fti_tag_def split: io_tag.splits)

end
