(* ===== verification/AppCore.thy ===== *)
theory AppCore
  imports Storage FtiCore
begin

text \<open>
  The application processes of the peer-to-peer mode (app\_core.cxx): which runner a process
  belongs to, and melissa\_p2p\_expose, with which a runner hands over the state it computed and
  takes the next job.
\<close>

section \<open>Runner ids and groups\<close>

text \<open>Reading lines up to a separator: a string without one is one field, also an empty string.\<close>

fun split_on :: "char \<Rightarrow> string \<Rightarrow> string list" where
  "split_on c [] = [[]]"
| "split_on c (x # xs) =
     (if x = c then [] # split_on c xs
      else (case split_on c xs of [] \<Rightarrow> [[x]] | y # ys \<Rightarrow> (x # y) # ys))"

text \<open>std::stoi of digits; of nothing it throws invalid\_argument.\<close>

definition stoi :: "string \<Rightarrow> int res" where
  "stoi s =
     (if s = [] then Inl Invalid_argument
      else if 2 ^ 31 \<le> digits_value s then Inl Out_of_range
      else Inr (int (digits_value s)))"

fun read_ids :: "string list \<Rightarrow> int list res" where
  "read_ids [] = Inr []"
| "read_ids (s # ss) =
     assert_then (list_all is_digit s)
      (and_then (stoi s) (\<lambda>i. and_then (read_ids ss) (\<lambda>is. Inr (i # is))))"

definition runner_ids :: "string \<Rightarrow> int list res" where
  "runner_ids env = read_ids (split_on CHR '','' env)"

text \<open>MPI\_Comm\_split with the old rank as key: size and rank in the part of one's colour.\<close>

definition comm_split :: "(int \<Rightarrow> int) \<Rightarrow> int \<Rightarrow> int \<Rightarrow> int \<times> int" where
  "comm_split colour n r =
     (int (length (filter (\<lambda>q. colour q = colour r) (map int [0..<nat n]))),
      int (length (filter (\<lambda>q. colour q = colour r) (map int [0..<nat r]))))"

text \<open>Runner id, size and rank of the runner's communicator of the process \<open>r\<close> of \<open>n\<close>.\<close>

definition comm_init :: "string option \<Rightarrow> int \<Rightarrow> int \<Rightarrow> (int \<times> int \<times> int) res" where
  "comm_init env n r =
     (case env of
        None \<Rightarrow> Inl Assertion_failed
      | Some envstr \<Rightarrow>
          and_then (runner_ids envstr) (\<lambda>ids.
          let size = int (length ids) in
          if size > 1 then
            assert_then (n - size * cdiv n size = 0)
             (let split_size = cdiv n size; group = cdiv r split_size in
              Inr (ids ! nat group, comm_split (\<lambda>q. cdiv q split_size) n r))
          else Inr (ids ! 0, n, r)))"

section \<open>The application process\<close>

datatype io_call =
    Io_update nat
  | Io_store io_state_id
  | Io_post message
  | Io_load io_state_id
  | Io_fini
  | Io_send_capacity nat
  | Io_send_size nat
  | Io_protect nat

text \<open>The job a server offers: a parent and the new state, or no parent yet.\<close>

record job_response =
  job :: io_state_id
  parent :: "io_state_id option"
  nsteps :: int

record app_proc =
  ap_rank :: int
  ap_runner_id :: int
  ap_current_step :: int
  ap_state_id :: int
  ap_vect_size :: nat
  ap_index_map :: "(int \<times> int) list"
  ap_index_map_hidden :: "(int \<times> int) list"
  ap_core :: fti_core
  ap_protect_id :: int
  ap_job_socket :: bool
  ap_calls :: "io_call list"

definition called :: "io_call \<Rightarrow> app_proc \<Rightarrow> app_proc" where
  "called x a = a\<lparr>ap_calls := ap_calls a @ [x]\<rparr>"

text \<open>
  What the source leaves to the compiler. StorageController::protect and update are declared to
  return an int and have no return statement: when the call of the FTI controller inside has
  returned, the caller of protect gets some value, \<open>protect_result\<close> of the id the controller gave,
  or the behaviour is undefined; after update control returns to the caller or it does not. And the
  arguments of a timing event are evaluated on the ranks for which events are compiled in and
  recorded: none without REPORT\_TIMING, rank 0 or all ranks with it.
\<close>

record build =
  protect_result :: "int \<Rightarrow> int res"
  update_returns :: bool
  timed_rank :: "int \<Rightarrow> bool"

definition storage_protect :: "build \<Rightarrow> nat \<Rightarrow> io_type \<Rightarrow> fti_core \<Rightarrow> (int \<times> fti_core) res" where
  "storage_protect build n ty c =
     and_then (io_protect n ty c) (\<lambda>(i, c). and_then (protect_result build i) (\<lambda>v. Inr (v, c)))"

definition storage_update :: "build \<Rightarrow> int \<Rightarrow> nat \<Rightarrow> fti_core \<Rightarrow> fti_core res" where
  "storage_update build i n c =
     and_then (io_update i n c) (\<lambda>c. if update_returns build then Inr c else Inl Undefined_behaviour)"

text \<open>
  The index maps are copied if they are given; the hidden one is copied into a vector that only
  the other one's presence resizes. \<open>connects\<close> tells whether the server's address is set.
\<close>

definition p2p_init :: "build \<Rightarrow> nat \<Rightarrow> nat \<Rightarrow> (int \<times> int) list option \<Rightarrow> (int \<times> int) list option \<Rightarrow> bool \<Rightarrow> app_proc \<Rightarrow> app_proc res" where
  "p2p_init build vect hidden imap imap_hidden connects a =
     (let a = a\<lparr>ap_state_id := ap_runner_id a\<rparr> in
      and_then (case imap of None \<Rightarrow> Inr a
                | Some m \<Rightarrow> if length m < vect then Inl Undefined_behaviour
                            else Inr (a\<lparr>ap_index_map := take vect m,
                                        ap_index_map_hidden := resize hidden (0, 0) (ap_index_map_hidden a)\<rparr>)) (\<lambda>a.
      and_then (case imap_hidden of None \<Rightarrow> Inr a
                | Some m \<Rightarrow> if length m < hidden \<or> length (ap_index_map_hidden a) < hidden then Inl Undefined_behaviour
                            else Inr (a\<lparr>ap_index_map_hidden := copy_into 0 (take hidden m) (ap_index_map_hidden a)\<rparr>)) (\<lambda>a.
         assert_then (hidden = 0)
          (let a = called (Io_send_capacity (50 * 1024 * 1024 * 1024)) a;
               a = called (Io_send_size vect) a
           in and_then (storage_protect build vect IO_BYTE (ap_core a)) (\<lambda>(v, core).
              let a = (called (Io_protect vect) a)\<lparr>ap_core := core, ap_protect_id := v\<rparr>
              in if ap_rank a = 0 then assert_then connects (Inr (a\<lparr>ap_job_socket := True\<rparr>)) else Inr a)))))"

text \<open>Rank 0 asks until the answer names a parent.\<close>

fun request_work :: "job_response list \<Rightarrow> (job_response \<times> job_response list) res" where
  "request_work [] = Inl Blocked"
| "request_work (r # rs) = (if parent r = None then request_work rs else Inr (r, rs))"

text \<open>What rank 0 broadcasts: parent, next state, number of steps (an uint32 read as an int).\<close>

definition rank0_job :: "job_response list \<Rightarrow> ((io_state_id \<times> io_state_id \<times> int) \<times> job_response list) res" where
  "rank0_job rs =
     and_then (request_work rs) (\<lambda>(r, rs). Inr ((the (parent r), job r, int32 (nsteps r)), rs))"

text \<open>Up to the weight: the state is protected and checkpointed, rank 0 posts the weight.\<close>

definition current_state :: "app_proc \<Rightarrow> io_state_id" where
  "current_state a = \<lparr>st_t = ap_current_step a, st_id = ap_state_id a\<rparr>"

definition hand_over :: "build \<Rightarrow> int \<Rightarrow> app_proc \<Rightarrow> app_proc res" where
  "hand_over build weight a =
     and_then (storage_update build (ap_protect_id a) (ap_vect_size a) (ap_core a)) (\<lambda>core.
      (let a = called (Io_update (ap_vect_size a)) (a\<lparr>ap_core := core\<rparr>);
           a = (if ap_current_step a = 0 then a\<lparr>ap_state_id := ap_runner_id a\<rparr> else a)
       in and_then (to_ckpt_id (current_state a)) (\<lambda>_.
          let a = called (Io_store (current_state a)) a
          in Inr (if ap_rank a = 0 then called (Io_post (Weight (ap_runner_id a) (current_state a) weight)) a else a))))"

text \<open>
  After the broadcast: the parent is loaded unless it is the state in memory. Its checkpoint id is
  asked for by the load, and as the argument of a timing event.
\<close>

definition take_job :: "build \<Rightarrow> io_state_id \<times> io_state_id \<times> int \<Rightarrow> app_proc \<Rightarrow> (int \<times> app_proc) res" where
  "take_job build b a =
     (case b of (par, nxt, n) \<Rightarrow>
        if n > 0 then
          and_then (if timed_rank build (ap_rank a) \<or> current_state a \<noteq> par then to_ckpt_id par else Inr 0) (\<lambda>_.
          let a = (if current_state a = par then a else called (Io_load par) a)
          in Inr (n, a\<lparr>ap_current_step := st_t nxt, ap_state_id := st_id nxt\<rparr>))
        else Inr (n, (called Io_fini (a\<lparr>ap_job_socket := False\<rparr>))\<lparr>ap_current_step := -1, ap_state_id := -1\<rparr>))"

text \<open>melissa\_p2p\_expose of one process; \<open>b\<close> is what it gets from the broadcast.\<close>

definition p2p_expose :: "build \<Rightarrow> int \<Rightarrow> io_state_id \<times> io_state_id \<times> int \<Rightarrow> app_proc \<Rightarrow> (int \<times> app_proc) res" where
  "p2p_expose build weight b a = and_then (hand_over build weight a) (take_job build b)"

text \<open>And of all processes of a runner.\<close>

fun expose_all ::
  "build \<Rightarrow> int \<Rightarrow> io_state_id \<times> io_state_id \<times> int \<Rightarrow> app_proc list \<Rightarrow> (int list \<times> app_proc list) res" where
  "expose_all build weight b [] = Inr ([], [])"
| "expose_all build weight b (a # as) =
     and_then (p2p_expose build weight b a) (\<lambda>(n, a').
     and_then (expose_all build weight b as) (\<lambda>(ns, as'). Inr (n # ns, a' # as')))"

definition runner_expose ::
  "build \<Rightarrow> int \<Rightarrow> job_response list \<Rightarrow> app_proc list \<Rightarrow> (int list \<times> app_proc list \<times> job_response list) res" where
  "runner_expose build weight rs as =
     and_then (rank0_job rs) (\<lambda>(b, rs). and_then (expose_all build weight b as) (\<lambda>(ns, as). Inr (ns, as, rs)))"

end
