(* ===== verification/AppProps.thy ===== *)
theory AppProps
  imports AppCore
begin

text \<open>
  What the application processes do together: they form one communicator per runner, and after an
  exchange all processes of a runner work on the same job.
\<close>

section \<open>Runner ids\<close>

text \<open>The list of runner ids in the environment variable, separated by commas.\<close>

fun join_ids :: "int list \<Rightarrow> string" where
  "join_ids [] = []"
| "join_ids [i] = dec i"
| "join_ids (i # j # is) = dec i @ CHR '','' # join_ids (j # is)"

lemma split_on_no_sep: "c \<notin> set xs \<Longrightarrow> split_on c xs = [xs]"
  by (induction xs) auto

lemma split_on_sep: "c \<notin> set xs \<Longrightarrow> split_on c (xs @ c # ys) = xs # split_on c ys"
  by (induction xs) auto

lemma dec_nat_read: "list_all is_digit (dec_nat n) \<and> digits_value (dec_nat n) = n"
  by (simp add: list_all_iff dec_nat_digits digits_value_dec)

lemma stoi_dec: "0 \<le> i \<Longrightarrow> i < 2 ^ 31 \<Longrightarrow> list_all is_digit (dec i) \<and> stoi (dec i) = Inr i"
  using dec_nat_read [of "nat i"] dec_nat_not_Nil [of "nat i"] by (simp add: dec_def stoi_def nat_less_iff)

lemma comma_not_digit: "list_all is_digit s \<Longrightarrow> CHR '','' \<notin> set s"
proof -
  have "\<not> is_digit CHR '',''" by code_simp
  then show "list_all is_digit s \<Longrightarrow> CHR '','' \<notin> set s" unfolding list_all_iff by blast
qed

lemma read_join_ids:
  "ids \<noteq> [] \<Longrightarrow> \<forall>i \<in> set ids. 0 \<le> i \<and> i < 2 ^ 31 \<Longrightarrow> runner_ids (join_ids ids) = Inr ids"
proof (induction ids rule: join_ids.induct)
  case (2 i)
  then have "list_all is_digit (dec i)" "stoi (dec i) = Inr i" using stoi_dec [of i] by auto
  then show ?case by (simp add: runner_ids_def split_on_no_sep comma_not_digit)
next
  case (3 i j "is")
  have i: "list_all is_digit (dec i)" "stoi (dec i) = Inr i" using stoi_dec [of i] "3.prems" by auto
  have "read_ids (split_on CHR '','' (join_ids (j # is))) = Inr (j # is)"
    using "3.IH" "3.prems"(2) unfolding runner_ids_def by simp
  then show ?case
    unfolding runner_ids_def join_ids.simps split_on_sep [OF comma_not_digit [OF i(1)]] by (simp add: i)
qed simp

section \<open>Groups\<close>

lemma length_filter_upt: "length (filter P (map int [0..<k])) = card {q. q < k \<and> P (int q)}"
proof -
  have "length (filter P (map int [0..<k])) = length (filter (P \<circ> int) [0..<k])" by (simp add: filter_map)
  also have "\<dots> = card (set (filter (P \<circ> int) [0..<k]))" by (rule distinct_card [symmetric]) simp
  also have "set (filter (P \<circ> int) [0..<k]) = {q. q < k \<and> P (int q)}" by auto
  finally show ?thesis .
qed

lemma same_group: "0 < m \<Longrightarrow> q div m = g \<longleftrightarrow> g * m \<le> q \<and> q < (g + 1) * (m::nat)"
  by (metis add.commute div_nat_eqI dividend_less_times_div div_times_less_eq_dividend mult.commute mult_Suc_right plus_1_eq_Suc)

lemma comm_split_blocks:
  assumes "0 < m" "r < k * m"
  shows "comm_split (\<lambda>q. cdiv q (int m)) (int (k * m)) (int r) = (int m, int (r mod m))"
proof -
  let ?g = "r div m"
  have eq: "cdiv (int q) (int m) = cdiv (int r) (int m) \<longleftrightarrow> ?g * m \<le> q \<and> q < (?g + 1) * m" for q
    using assms(1) same_group [of m q ?g] by (simp add: cdiv_nonneg flip: zdiv_int)
  have "?g + 1 \<le> k" using assms by (simp add: less_mult_imp_div_less Suc_leI)
  then have g: "(?g + 1) * m \<le> k * m" by (rule mult_le_mono1)
  have "{q. q < k * m \<and> ?g * m \<le> q \<and> q < (?g + 1) * m} = {?g * m..<(?g + 1) * m}" using g by auto
  then have n: "card {q. q < k * m \<and> ?g * m \<le> q \<and> q < (?g + 1) * m} = m" by simp
  have "r < (?g + 1) * m" using assms(1) by (simp add: dividend_less_div_times)
  then have "{q. q < r \<and> ?g * m \<le> q \<and> q < (?g + 1) * m} = {?g * m..<r}" by auto
  then have "card {q. q < r \<and> ?g * m \<le> q \<and> q < (?g + 1) * m} = r mod m"
    by (simp add: minus_div_mult_eq_mod)
  with n show ?thesis unfolding comm_split_def length_filter_upt nat_int eq by simp
qed

text \<open>
  A group of runners in one job: for a list of runner ids in the environment variable and a
  number of processes that is a multiple of its length, each process reads the list back, belongs
  to the runner of its block of consecutive ranks, and has its place in the block as its rank in
  the runner's communicator, which has the size of a block.
\<close>

theorem runner_groups_are_blocks:
  assumes "ids \<noteq> []" "\<forall>i \<in> set ids. 0 \<le> i \<and> i < 2 ^ 31" "0 < m" "r < length ids * m"
  shows "comm_init (Some (join_ids ids)) (int (length ids * m)) (int r) = Inr (ids ! (r div m), int m, int (r mod m))"
proof (cases "1 < length ids")
  case True
  have "cdiv (int (length ids * m)) (int (length ids)) = int m"
    using assms(1) by (simp add: cdiv_nonneg)
  moreover have "cdiv (int r) (int m) = int (r div m)" using assms(3) by (simp add: cdiv_nonneg flip: zdiv_int)
  ultimately show ?thesis
    using True comm_split_blocks [OF assms(3,4)] by (simp add: comm_init_def read_join_ids [OF assms(1,2)] Let_def)
next
  case False
  then obtain i where "ids = [i]" using assms(1) by (cases ids) auto
  then show ?thesis using assms read_join_ids [OF assms(1,2)] by (simp add: comm_init_def)
qed

theorem runner_groups_are_blocks_witness:
  "comm_init (Some (join_ids [4, 15])) 6 5 = Inr (15, 3, 2)"
  using runner_groups_are_blocks [of "[4, 15]" 3 5] by simp

section \<open>An exchange of the whole runner\<close>

text \<open>The state a process hands over: the initial one has the runner's id as its number.\<close>

definition handed_over :: "app_proc \<Rightarrow> io_state_id" where
  "handed_over a = \<lparr>st_t = ap_current_step a, st_id = (if ap_current_step a = 0 then ap_runner_id a else ap_state_id a)\<rparr>"

definition exchange_calls :: "int \<Rightarrow> io_state_id \<Rightarrow> app_proc \<Rightarrow> io_call list" where
  "exchange_calls weight par a =
     [Io_update (ap_vect_size a), Io_store (handed_over a)] @
     (if ap_rank a = 0 then [Io_post (Weight (ap_runner_id a) (handed_over a) weight)] else []) @
     (if handed_over a = par then [] else [Io_load par])"

text \<open>The buffer whose id the process holds is known to the FTI controller.\<close>

definition id_registered :: "app_proc \<Rightarrow> bool" where
  "id_registered a \<longleftrightarrow> m_var_id_map (ap_core a) (ap_protect_id a) \<noteq> None"

definition moved :: "int \<Rightarrow> io_state_id \<Rightarrow> io_state_id \<Rightarrow> app_proc \<Rightarrow> app_proc \<Rightarrow> bool" where
  "moved weight par nxt a a' \<longleftrightarrow> current_state a' = nxt \<and> ap_calls a' = ap_calls a @ exchange_calls weight par a \<and>
     ap_protect_id a' = ap_protect_id a \<and> m_var_id_map (ap_core a') = m_var_id_map (ap_core a)"

lemma p2p_expose_result:
  assumes "update_returns build" "id_registered a"
    and "to_ckpt_id (handed_over a) = Inr c" "to_ckpt_id par = Inr c'" "0 < n"
  shows "\<exists>a'. p2p_expose build weight (par, nxt, n) a = Inr (n, a') \<and> moved weight par nxt a a'"
proof -
  obtain ty where "m_var_id_map (ap_core a) (ap_protect_id a) = Some ty" using assms(2) by (auto simp: id_registered_def)
  then show ?thesis
    using assms
    by (cases "ap_current_step a = 0")
      (auto simp: p2p_expose_def hand_over_def take_job_def Let_def called_def current_state_def handed_over_def
        exchange_calls_def storage_update_def io_update_def moved_def)
qed

lemma expose_all_result:
  "update_returns build \<Longrightarrow> \<forall>a \<in> set as. id_registered a \<and> (\<exists>c. to_ckpt_id (handed_over a) = Inr c) \<Longrightarrow>
   to_ckpt_id par = Inr c' \<Longrightarrow> 0 < n \<Longrightarrow>
     \<exists>as'. expose_all build weight (par, nxt, n) as = Inr (replicate (length as) n, as') \<and>
       list_all2 (moved weight par nxt) as as'"
proof (induction as)
  case (Cons a as)
  obtain c where "id_registered a" "to_ckpt_id (handed_over a) = Inr c" using Cons.prems(2) by auto
  from p2p_expose_result [OF Cons.prems(1) this Cons.prems(3,4), of weight nxt] obtain a' where
    a': "p2p_expose build weight (par, nxt, n) a = Inr (n, a')" "moved weight par nxt a a'" by blast
  obtain as' where as': "expose_all build weight (par, nxt, n) as = Inr (replicate (length as) n, as')"
      "list_all2 (moved weight par nxt) as as'"
    using Cons by auto
  show ?case using a' as' by (intro exI [of _ "a' # as'"]) simp
qed simp

text \<open>An id that is not registered fails an assert; without a return of update nothing is defined.\<close>

lemma p2p_expose_fails:
  "\<not> id_registered a \<Longrightarrow> p2p_expose build weight b a = Inl Assertion_failed"
  "id_registered a \<Longrightarrow> \<not> update_returns build \<Longrightarrow> p2p_expose build weight b a = Inl Undefined_behaviour"
  by (auto simp: id_registered_def p2p_expose_def hand_over_def storage_update_def io_update_def)

lemma expose_all_fails:
  "\<forall>a \<in> set as. \<exists>c. to_ckpt_id (handed_over a) = Inr c \<Longrightarrow> to_ckpt_id par = Inr c' \<Longrightarrow> 0 < n \<Longrightarrow>
   update_returns build \<Longrightarrow> \<exists>a \<in> set as. \<not> id_registered a \<Longrightarrow>
     expose_all build weight (par, nxt, n) as = Inl Assertion_failed"
proof (induction as)
  case (Cons a as)
  show ?case
  proof (cases "id_registered a")
    case False
    then show ?thesis by (simp add: p2p_expose_fails)
  next
    case True
    obtain c where "to_ckpt_id (handed_over a) = Inr c" using Cons.prems(1) by auto
    from p2p_expose_result [OF Cons.prems(4) True this Cons.prems(2,3), of weight nxt] obtain a' where
      "p2p_expose build weight (par, nxt, n) a = Inr (n, a')" by blast
    then show ?thesis using Cons True by auto
  qed
qed simp

lemma expose_all_undefined:
  "\<not> update_returns build \<Longrightarrow> as \<noteq> [] \<Longrightarrow>
     expose_all build weight b as = Inl (if id_registered (hd as) then Undefined_behaviour else Assertion_failed)"
  by (cases as) (auto simp: p2p_expose_fails)

lemma request_work_skips:
  "\<forall>r \<in> set idle. parent r = None \<Longrightarrow> parent r \<noteq> None \<Longrightarrow> request_work (idle @ r # rs) = Inr (r, rs)"
  by (induction idle) auto

text \<open>
  The id a process holds after its initialisation is whatever the compiled protect left: it is
  registered exactly if that is the id the FTI controller gave, the first one of the process.
\<close>

lemma p2p_init_protects:
  assumes "p2p_init build vect hidden imap imap_hidden connects a = Inr a'"
  shows "storage_protect build vect IO_BYTE (ap_core a) = Inr (ap_protect_id a', ap_core a')"
proof -
  let ?a = "a\<lparr>ap_state_id := ap_runner_id a\<rparr>"
  obtain a1 a2 where 1: "(case imap of None \<Rightarrow> Inr ?a
        | Some m \<Rightarrow> if length m < vect then Inl Undefined_behaviour
                    else Inr (?a\<lparr>ap_index_map := take vect m,
                           ap_index_map_hidden := resize hidden (0, 0) (ap_index_map_hidden ?a)\<rparr>)) = Inr a1"
    and 2: "(case imap_hidden of None \<Rightarrow> Inr a1
        | Some m \<Rightarrow> if length m < hidden \<or> length (ap_index_map_hidden a1) < hidden then Inl Undefined_behaviour
                    else Inr (a1\<lparr>ap_index_map_hidden := copy_into 0 (take hidden m) (ap_index_map_hidden a1)\<rparr>)) = Inr a2"
    and 3: "assert_then (hidden = 0) (and_then (storage_protect build vect IO_BYTE
        (ap_core (called (Io_send_size vect) (called (Io_send_capacity (50 * 1024 * 1024 * 1024)) a2)))) (\<lambda>(v, core).
          let a = (called (Io_protect vect) (called (Io_send_size vect) (called (Io_send_capacity (50 * 1024 * 1024 * 1024)) a2)))
                    \<lparr>ap_core := core, ap_protect_id := v\<rparr>
          in if ap_rank a = 0 then assert_then connects (Inr (a\<lparr>ap_job_socket := True\<rparr>)) else Inr a)) = Inr a'"
    using assms unfolding p2p_init_def Let_def and_then_Inr_iff by blast
  have "ap_core a1 = ap_core a" using 1 by (auto split: option.splits if_splits)
  moreover have "ap_core a2 = ap_core a1" using 2 by (auto split: option.splits if_splits)
  moreover have "storage_protect build vect IO_BYTE (ap_core a2) = Inr (ap_protect_id a', ap_core a')"
    using 3 by (auto simp: assert_then_def and_then_Inr_iff called_def Let_def split: if_splits)
  ultimately show ?thesis by simp
qed

lemma io_protect_counter: "io_protect n ty c = Inr (i, c') \<Longrightarrow> m_id_counter c' = m_id_counter c + 1"
  by (auto simp: io_protect_def)

lemma p2p_init_id:
  assumes "p2p_init build vect hidden imap imap_hidden connects a = Inr a'" "core_inv (ap_core a)"
    and "m_id_counter (ap_core a) = 0"
  shows "protect_result build 0 = Inr (ap_protect_id a') \<and> (id_registered a' \<longleftrightarrow> ap_protect_id a' = 0)"
proof -
  have c: "io_protect vect IO_BYTE (ap_core a) = Inr (0, ap_core a')" "protect_result build 0 = Inr (ap_protect_id a')"
    using p2p_init_protects [OF assms(1)] assms(3)
    by (auto simp: storage_protect_def and_then_Inr_iff io_protect_def assert_then_def split: if_splits)
  have inv: "core_inv (ap_core a')" by (rule io_protect_inv(1) [OF c(1) assms(2)])
  have "m_id_counter (ap_core a') = 1" using io_protect_counter [OF c(1)] assms(3) by simp
  then show ?thesis using c(2) core_inv_None [OF inv, of "ap_protect_id a'"] by (auto simp: id_registered_def)
qed

text \<open>
  C18. What an exchange of a runner does rests on what the compiled StorageController makes of its
  missing return statements. Whatever number of answers without a job the server gave before, when
  it offers a job with a parent and steps to do: if update returns and every process holds the id of
  a registered buffer, all processes checkpoint the state they computed (the initial one under the
  runner's id), rank 0 alone posts its weight, each loads the parent unless it is this very state,
  then all have the step and the number of the new state and return the same number of steps, and
  their ids stay registered. If update returns and some process holds another id, the exchange fails
  the assert of FtiController::update. If update does not return, the behaviour is undefined or the
  assert failed before.
\<close>

theorem exchange_moves_all_processes:
  assumes "as \<noteq> []" "\<forall>a \<in> set as. handed_over a = s"
    and "to_ckpt_id s = Inr c" "to_ckpt_id par = Inr c'"
    and "\<forall>r \<in> set idle. parent r = None" "parent r = Some par" "0 < int32 (nsteps r)"
  shows "if update_returns build \<and> (\<forall>a \<in> set as. m_var_id_map (ap_core a) (ap_protect_id a) \<noteq> None)
     then \<exists>as'. runner_expose build weight (idle @ r # rs) as = Inr (replicate (length as) (int32 (nsteps r)), as', rs) \<and>
       length as' = length as \<and>
       (\<forall>k < length as. current_state (as' ! k) = job r \<and>
          ap_calls (as' ! k) = ap_calls (as ! k) @ [Io_update (ap_vect_size (as ! k)), Io_store s] @
            (if ap_rank (as ! k) = 0 then [Io_post (Weight (ap_runner_id (as ! k)) s weight)] else []) @
            (if s = par then [] else [Io_load par]) \<and>
          m_var_id_map (ap_core (as' ! k)) (ap_protect_id (as' ! k)) \<noteq> None)
     else if update_returns build
     then runner_expose build weight (idle @ r # rs) as = Inl Assertion_failed
     else runner_expose build weight (idle @ r # rs) as \<in> {Inl Undefined_behaviour, Inl Assertion_failed}"
proof -
  let ?b = "(par, job r, int32 (nsteps r))"
  have run: "runner_expose build weight (idle @ r # rs) as =
      and_then (expose_all build weight ?b as) (\<lambda>(ns, as). Inr (ns, as, rs))"
    using request_work_skips [OF assms(5), of r rs] assms(6) by (simp add: runner_expose_def rank0_job_def)
  have ids: "\<forall>a \<in> set as. \<exists>c. to_ckpt_id (handed_over a) = Inr c" using assms(2,3) by auto
  show ?thesis
  proof (cases "update_returns build \<and> (\<forall>a \<in> set as. id_registered a)")
    case True
    then have "\<forall>a \<in> set as. id_registered a \<and> (\<exists>c. to_ckpt_id (handed_over a) = Inr c)" using ids by blast
    from expose_all_result [OF _ this assms(4,7), of build weight "job r"] True obtain as' where
      as': "expose_all build weight ?b as = Inr (replicate (length as) (int32 (nsteps r)), as')"
        "list_all2 (moved weight par (job r)) as as'" by blast
    have "handed_over (as ! k) = s" "id_registered (as ! k)" if "k < length as" for k
      using assms(2) True that by simp_all
    then show ?thesis
      using True as' run by (auto simp: list_all2_conv_all_nth exchange_calls_def moved_def id_registered_def)
  next
    case False
    have "update_returns build \<Longrightarrow> expose_all build weight ?b as = Inl Assertion_failed"
      using expose_all_fails [OF ids assms(4,7)] False by blast
    moreover have "\<not> update_returns build \<Longrightarrow>
        expose_all build weight ?b as \<in> {Inl Undefined_behaviour, Inl Assertion_failed}"
      using expose_all_undefined [OF _ assms(1)] by simp
    ultimately show ?thesis using False run by (auto simp: id_registered_def)
  qed
qed

text \<open>
  Two processes of runner 4, initialised in a build that hands the id back, exchange their initial
  state; in a build that leaves 17 in its place the assert fails.
\<close>

definition example_build :: "int \<Rightarrow> build" where
  "example_build v = \<lparr>protect_result = (\<lambda>_. Inr v), update_returns = True, timed_rank = (\<lambda>r. r = 0)\<rparr>"

definition example_proc :: "int \<Rightarrow> int \<Rightarrow> app_proc" where
  "example_proc v r = \<lparr>ap_rank = r, ap_runner_id = 4, ap_current_step = 0, ap_state_id = 9, ap_vect_size = 3, ap_index_map = [],
     ap_index_map_hidden = [], ap_core = \<lparr>dict_int = Map.empty, dict_bool = Map.empty, dict_string = Map.empty,
       tmp_dir = [], m_id_counter = 1, m_var_id_map = [0 \<mapsto> 1], fti_protected = [(0, 3, 1)]\<rparr>,
     ap_protect_id = v, ap_job_socket = (r = 0), ap_calls = []\<rparr>"

theorem exchange_moves_all_processes_witness:
  "(\<exists>as'. runner_expose (example_build 0) 7 ([\<lparr>job = \<lparr>st_t = 0, st_id = 0\<rparr>, parent = None, nsteps = 0\<rparr>] @
       \<lparr>job = \<lparr>st_t = 1, st_id = 2\<rparr>, parent = Some \<lparr>st_t = 0, st_id = 1\<rparr>, nsteps = 5\<rparr> # [])
         [example_proc 0 0, example_proc 0 1] = Inr ([5, 5], as', []) \<and>
     current_state (as' ! 1) = \<lparr>st_t = 1, st_id = 2\<rparr> \<and>
     ap_calls (as' ! 1) = [Io_update 3, Io_store \<lparr>st_t = 0, st_id = 4\<rparr>, Io_load \<lparr>st_t = 0, st_id = 1\<rparr>]) \<and>
   runner_expose (example_build 17) 7 ([\<lparr>job = \<lparr>st_t = 0, st_id = 0\<rparr>, parent = None, nsteps = 0\<rparr>] @
       \<lparr>job = \<lparr>st_t = 1, st_id = 2\<rparr>, parent = Some \<lparr>st_t = 0, st_id = 1\<rparr>, nsteps = 5\<rparr> # [])
         [example_proc 17 0, example_proc 17 1] = Inl Assertion_failed"
proof -
  have as: "\<forall>a \<in> set [example_proc v 0, example_proc v 1]. handed_over a = \<lparr>st_t = 0, st_id = 4\<rparr>" for v
    by (simp add: example_proc_def handed_over_def)
  have ids: "to_ckpt_id \<lparr>st_t = 0, st_id = 4\<rparr> = Inr 4" "to_ckpt_id \<lparr>st_t = 0, st_id = 1\<rparr> = Inr 1"
    by (simp_all add: to_ckpt_id_def int_value_def)
  have n: "int32 5 = 5" by (simp add: int32_def)
  have reg: "m_var_id_map (ap_core (example_proc v r)) (ap_protect_id (example_proc v r)) \<noteq> None \<longleftrightarrow> v = 0" for v r
    by (simp add: example_proc_def)
  have returns: "update_returns (example_build v)" for v by (simp add: example_build_def)
  let ?idle = "[\<lparr>job = \<lparr>st_t = 0, st_id = 0\<rparr>, parent = None, nsteps = 0\<rparr>]"
  let ?r = "\<lparr>job = \<lparr>st_t = 1, st_id = 2\<rparr>, parent = Some \<lparr>st_t = 0, st_id = 1\<rparr>, nsteps = 5\<rparr>"
  show ?thesis
    using exchange_moves_all_processes [OF _ as [of 0] ids, of ?idle ?r "example_build 0" 7 "[]"]
      exchange_moves_all_processes [OF _ as [of 17] ids, of ?idle ?r "example_build 17" 7 "[]"] n
    unfolding list.set ball_simps reg by (auto simp: returns example_proc_def numeral_2_eq_2)
qed

end
