(* ===== verification/Messages.thy ===== *)
theory Messages
  imports Ckpt
begin

text \<open>
  The messages between the server and the launcher (common/melissa\_messages.c): a message is a block
  of bytes of a fixed size, into which numbers and C strings are written at offsets. A byte is a
  character, a double eight bytes. \<open>u\<close> gives the bytes of a block before anything is written.
\<close>

section \<open>Blocks of bytes\<close>

type_synonym block = "char list"

fun nat_bytes :: "nat \<Rightarrow> nat \<Rightarrow> block" where
  "nat_bytes 0 n = []"
| "nat_bytes (Suc k) n = char_of (n mod 256) # nat_bytes k (n div 256)"

fun bytes_nat :: "block \<Rightarrow> nat" where
  "bytes_nat [] = 0"
| "bytes_nat (c # cs) = of_char c + 256 * bytes_nat cs"

text \<open>An int has four bytes, the lowest first.\<close>

definition int_bytes :: "int \<Rightarrow> block" where
  "int_bytes i = nat_bytes 4 (nat (i mod 2 ^ 32))"

definition bytes_int :: "block \<Rightarrow> int" where
  "bytes_int bs = int32 (int (bytes_nat bs))"

definition msg_init :: "(nat \<Rightarrow> char) \<Rightarrow> nat \<Rightarrow> block" where
  "msg_init u n = map u [0..<n]"

definition put :: "nat \<Rightarrow> block \<Rightarrow> block \<Rightarrow> block res" where
  "put off bs buf = (if off + length bs \<le> length buf then Inr (copy_into off bs buf) else Inl Undefined_behaviour)"

definition get :: "nat \<Rightarrow> nat \<Rightarrow> block \<Rightarrow> block res" where
  "get off n buf = (if off + n \<le> length buf then Inr (subvec off n buf) else Inl Undefined_behaviour)"

definition get_int :: "nat \<Rightarrow> block \<Rightarrow> int res" where
  "get_int off buf = and_then (get off 4 buf) (\<lambda>bs. Inr (bytes_int bs))"

abbreviation NUL :: char where
  "NUL \<equiv> CHR 0x00"

text \<open>A C string in memory, and the string that starts at an offset.\<close>

definition c_str :: "string \<Rightarrow> block" where
  "c_str s = s @ [NUL]"

definition get_str :: "nat \<Rightarrow> block \<Rightarrow> string res" where
  "get_str off buf =
     (if off \<le> length buf \<and> NUL \<in> set (drop off buf) then Inr (takeWhile (\<lambda>x. x \<noteq> NUL) (drop off buf))
      else Inl Undefined_behaviour)"

text \<open>At most \<open>n\<close> bytes of such a string, as strncpy reads them.\<close>

definition get_strn :: "nat \<Rightarrow> nat \<Rightarrow> block \<Rightarrow> string res" where
  "get_strn off n buf =
     (let r = take n (drop off buf) in
      if NUL \<in> set r \<or> length r = n then Inr (takeWhile (\<lambda>x. x \<noteq> NUL) r) else Inl Undefined_behaviour)"

text \<open>And as it writes them: padded with zeros.\<close>

definition strncpy :: "nat \<Rightarrow> string \<Rightarrow> block" where
  "strncpy n s = take n s @ replicate (n - length s) NUL"

fun put_all :: "nat \<Rightarrow> block list \<Rightarrow> block \<Rightarrow> block res" where
  "put_all off [] buf = Inr buf"
| "put_all off (bs # bss) buf = and_then (put off bs buf) (put_all (off + length bs) bss)"

section \<open>Writing messages\<close>

definition HELLO :: int where "HELLO = 10"
definition JOB :: int where "JOB = 1"
definition DROP :: int where "DROP = 2"
definition STOP :: int where "STOP = 3"
definition MSG_TIMEOUT :: int where "MSG_TIMEOUT = 4"
definition SIMU_STATUS :: int where "SIMU_STATUS = 5"
definition SERVER :: int where "SERVER = 6"
definition ALIVE :: int where "ALIVE = 7"
definition CONFIDENCE_INTERVAL :: int where "CONFIDENCE_INTERVAL = 8"
definition OPTIONS :: int where "OPTIONS = 9"

definition MAX_FIELD_NAME_LEN :: nat where "MAX_FIELD_NAME_LEN = 128"

definition get_message_type :: "block \<Rightarrow> int res" where
  "get_message_type buf = get_int 0 buf"

definition message_hello :: "(nat \<Rightarrow> char) \<Rightarrow> block res" where
  "message_hello u = put 0 (int_bytes HELLO) (msg_init u 4)"

definition message_alive :: "(nat \<Rightarrow> char) \<Rightarrow> block res" where
  "message_alive u = put 0 (int_bytes ALIVE) (msg_init u 4)"

definition message_stop :: "(nat \<Rightarrow> char) \<Rightarrow> block res" where
  "message_stop u = put 0 (int_bytes STOP) (msg_init u 4)"

definition message_job :: "(nat \<Rightarrow> char) \<Rightarrow> int \<Rightarrow> string \<Rightarrow> block list \<Rightarrow> block res" where
  "message_job u simu_id job_id params =
     put_all 0 ([int_bytes JOB, int_bytes simu_id, c_str job_id] @ params)
       (msg_init u (2 * 4 + length params * 8 + length job_id + 1))"

definition message_drop :: "(nat \<Rightarrow> char) \<Rightarrow> int \<Rightarrow> string \<Rightarrow> block res" where
  "message_drop u simu_id job_id =
     put_all 0 [int_bytes DROP, int_bytes simu_id, c_str job_id] (msg_init u (2 * 4 + length job_id + 1))"

text \<open>The block of a timeout message has room for one int.\<close>

definition message_timeout :: "(nat \<Rightarrow> char) \<Rightarrow> int \<Rightarrow> block res" where
  "message_timeout u simu_id = put_all 0 [int_bytes MSG_TIMEOUT, int_bytes simu_id] (msg_init u 4)"

definition message_simu_status :: "(nat \<Rightarrow> char) \<Rightarrow> int \<Rightarrow> int \<Rightarrow> block res" where
  "message_simu_status u simu_id status =
     put_all 0 [int_bytes SIMU_STATUS, int_bytes simu_id, int_bytes status] (msg_init u (3 * 4))"

definition message_server_name :: "(nat \<Rightarrow> char) \<Rightarrow> string \<Rightarrow> int \<Rightarrow> block res" where
  "message_server_name u node_name rank =
     put_all 0 [int_bytes SERVER, int_bytes rank, c_str node_name] (msg_init u (2 * 4 + length node_name + 1))"

definition message_confidence_interval :: "(nat \<Rightarrow> char) \<Rightarrow> string \<Rightarrow> string \<Rightarrow> block \<Rightarrow> block res" where
  "message_confidence_interval u stat_name field_name v =
     put_all 0 [int_bytes CONFIDENCE_INTERVAL, c_str stat_name, c_str field_name, v]
       (msg_init u (4 + 8 + length stat_name + length field_name + 2))"

definition message_options :: "(nat \<Rightarrow> char) \<Rightarrow> block \<Rightarrow> block res" where
  "message_options u buff = put_all 0 [int_bytes OPTIONS, buff] (msg_init u (length buff + 4))"

text \<open>
  The field name takes MAX\_FIELD\_NAME\_LEN bytes and the memset one more; the vectors start before
  that last byte. The number of doubles is computed as an int.
\<close>

definition message_simu_data ::
  "(nat \<Rightarrow> char) \<Rightarrow> int \<Rightarrow> int \<Rightarrow> int \<Rightarrow> int \<Rightarrow> string \<Rightarrow> block list \<Rightarrow> block res" where
  "message_simu_data u time_stamp simu_id client_rank vect_size field_name vectors =
     and_then (int_value (int (length vectors) * vect_size)) (\<lambda>n.
     if n < 0 \<or> (\<exists>v \<in> set vectors. length v < nat vect_size * 8) then Inl Undefined_behaviour
     else
       and_then (put_all 0 [int_bytes time_stamp, int_bytes simu_id, int_bytes client_rank, int_bytes vect_size,
                   replicate (MAX_FIELD_NAME_LEN + 1) NUL]
                  (msg_init u (4 * 4 + MAX_FIELD_NAME_LEN + 1 + nat n * 8))) (\<lambda>buf.
       and_then (put 16 (strncpy MAX_FIELD_NAME_LEN field_name) buf)
         (put_all (16 + MAX_FIELD_NAME_LEN) (map (take (nat vect_size * 8)) vectors))))"

section \<open>Reading messages\<close>

text \<open>The readers get what follows the type of the message.\<close>

fun get_doubles :: "nat \<Rightarrow> nat \<Rightarrow> block \<Rightarrow> block list res" where
  "get_doubles off 0 buf = Inr []"
| "get_doubles off (Suc n) buf =
     and_then (get off 8 buf) (\<lambda>d. and_then (get_doubles (off + 8) n buf) (\<lambda>ds. Inr (d # ds)))"

definition read_message_job :: "nat \<Rightarrow> block \<Rightarrow> (int \<times> string \<times> block list) res" where
  "read_message_job nb_param buf =
     and_then (get_int 0 buf) (\<lambda>simu_id.
     and_then (get_str 4 buf) (\<lambda>job_id.
     and_then (get_doubles (4 + length job_id + 1) nb_param buf) (\<lambda>params. Inr (simu_id, job_id, params))))"

text \<open>The job id is cut at 255 characters.\<close>

definition read_message_drop :: "block \<Rightarrow> (int \<times> string) res" where
  "read_message_drop buf =
     and_then (get_int 0 buf) (\<lambda>simu_id. and_then (get_strn 4 255 buf) (\<lambda>job_id. Inr (simu_id, job_id)))"

definition read_message_timeout :: "block \<Rightarrow> int res" where
  "read_message_timeout buf = get_int 0 buf"

definition read_message_simu_status :: "block \<Rightarrow> (int \<times> int) res" where
  "read_message_simu_status buf = and_then (get_int 0 buf) (\<lambda>i. and_then (get_int 4 buf) (\<lambda>s. Inr (i, s)))"

definition read_message_server_name :: "block \<Rightarrow> (string \<times> int) res" where
  "read_message_server_name buf = and_then (get_int 0 buf) (\<lambda>rank. and_then (get_str 4 buf) (\<lambda>name. Inr (name, rank)))"

text \<open>The reader of intervals skips the names but not their terminators.\<close>

definition read_message_confidence_interval :: "block \<Rightarrow> (string \<times> string \<times> block) res" where
  "read_message_confidence_interval buf =
     and_then (get_str 0 buf) (\<lambda>stat_name.
     and_then (get_strn (length stat_name) MAX_FIELD_NAME_LEN buf) (\<lambda>field_name.
     and_then (get (length stat_name + length field_name) 8 buf) (\<lambda>v. Inr (stat_name, field_name, v))))"

text \<open>The name and the data are pointers into the message; the name is read as a C string.\<close>

definition read_message_simu_data :: "block \<Rightarrow> (int \<times> int \<times> int \<times> int \<times> string \<times> block) res" where
  "read_message_simu_data buf =
     and_then (get_int 0 buf) (\<lambda>time_stamp.
     and_then (get_int 4 buf) (\<lambda>simu_id.
     and_then (get_int 8 buf) (\<lambda>client_rank.
     and_then (get_int 12 buf) (\<lambda>vect_size.
     and_then (get_str 16 buf) (\<lambda>field_name.
     Inr (time_stamp, simu_id, client_rank, vect_size, field_name, drop (16 + MAX_FIELD_NAME_LEN) buf))))))"

end
