(* ===== verification/LauncherMessages.thy ===== *)
theory LauncherMessages
  imports Messages ServerState
begin

text \<open>
  The launcher's end of the messages (common/melissa\_comm4py.c), which turns each into a line of
  text for the Python code, and helpers of common/melissa\_utils.c.
\<close>

section \<open>Turning a message into text\<close>

text \<open>
  A received message of \<open>size\<close> bytes lies in a block that may have bytes behind it, \<open>slack\<close>: the code
  writes a zero at the index \<open>size\<close>. \<open>g\<close> formats a double.
\<close>

definition terminated :: "block \<Rightarrow> block \<Rightarrow> block res" where
  "terminated msg slack = put (length msg) [NUL] (msg @ slack)"

definition parse_message :: "(block \<Rightarrow> string) \<Rightarrow> nat \<Rightarrow> block \<Rightarrow> string res" where
  "parse_message g n buf =
     and_then (get_message_type buf) (\<lambda>t.
     if t = STOP then Inr ''stop ''
     else if t = SIMU_STATUS then
       and_then (get_int 4 buf) (\<lambda>a. and_then (get_int 8 buf) (\<lambda>b.
       Inr (''group_state '' @ dec a @ '' '' @ dec b)))
     else if t = SERVER then
       and_then (get_int 4 buf) (\<lambda>a. and_then (get_str 8 buf) (\<lambda>name. Inr (''server '' @ dec a @ '' '' @ name)))
     else if t = MSG_TIMEOUT then and_then (get_int 4 buf) (\<lambda>a. Inr (''timeout '' @ dec a))
     else if t = HELLO \<or> t = ALIVE then Inr ''alive''
     else if t = CONFIDENCE_INTERVAL then
       and_then (get_str 4 buf) (\<lambda>stat_name.
       and_then (get_str (4 + length stat_name + 1) buf) (\<lambda>field_name.
       and_then (if n < 8 then Inl Undefined_behaviour else get (n - 8) 8 buf) (\<lambda>v.
       Inr (''interval '' @ stat_name @ '' '' @ field_name @ '' '' @ g v))))
     else Inl (Exit 1))"

definition snprintf :: "nat \<Rightarrow> string \<Rightarrow> string" where
  "snprintf len s = take (len - 1) s"

text \<open>\<open>None\<close> for a failed or timed out receive.\<close>

definition received_text :: "(block \<Rightarrow> string) \<Rightarrow> block \<Rightarrow> block option \<Rightarrow> string res" where
  "received_text g slack m =
     (case m of
        None \<Rightarrow> Inr ''nothing ''
      | Some msg \<Rightarrow>
          if length msg < 1 then Inr ''nothing ''
          else and_then (terminated msg slack) (parse_message g (length msg)))"

definition wait_message :: "(block \<Rightarrow> string) \<Rightarrow> block \<Rightarrow> nat \<Rightarrow> block option \<Rightarrow> string res" where
  "wait_message g slack capacity m =
     and_then (received_text g slack m) (\<lambda>s. if length s < capacity then Inr s else Inl Undefined_behaviour)"

definition poll_message :: "(block \<Rightarrow> string) \<Rightarrow> block \<Rightarrow> nat \<Rightarrow> bool \<Rightarrow> block option \<Rightarrow> string res" where
  "poll_message g slack len pending m =
     (if \<not> pending then Inr (snprintf len ''null '')
      else and_then (received_text g slack m) (\<lambda>s. Inr (snprintf len s)))"

definition MELISSA_MESSAGE_LEN :: nat where "MELISSA_MESSAGE_LEN = 1024"

text \<open>zmq\_recv cuts a long message but returns its whole size, at which the terminator is written.\<close>

definition get_resp_message :: "block option \<Rightarrow> block res" where
  "get_resp_message m =
     (case m of
        None \<Rightarrow> Inr ''nothing''
      | Some msg \<Rightarrow>
          if length msg < 1 then Inr ''nothing''
          else if MELISSA_MESSAGE_LEN \<le> length msg then Inl Undefined_behaviour
          else get_str 0 (msg @ [NUL]))"

text \<open>A text is sent as a whole buffer less one byte, whatever is behind it.\<close>

definition send_text :: "(nat \<Rightarrow> char) \<Rightarrow> string \<Rightarrow> block res" where
  "send_text u s =
     and_then (put 0 (c_str s) (msg_init u MELISSA_MESSAGE_LEN)) (\<lambda>buf. Inr (take (MELISSA_MESSAGE_LEN - 1) buf))"

definition send_options :: "(nat \<Rightarrow> char) \<Rightarrow> string \<Rightarrow> block res" where
  "send_options u options = message_options u (c_str options)"

section \<open>What the server sends\<close>

definition status_value :: "runner_status \<Rightarrow> int" where
  "status_value st = (case st of RUNNING \<Rightarrow> 1 | TIMEOUT \<Rightarrow> 4)"

definition launcher_message :: "(nat \<Rightarrow> char) \<Rightarrow> string \<Rightarrow> action \<Rightarrow> block res option" where
  "launcher_message u hostname a =
     (case a of
        Launcher_notify r st \<Rightarrow> Some (message_simu_status u r (status_value st))
      | Launcher_name rank \<Rightarrow> Some (message_server_name u hostname rank)
      | Launcher_hello \<Rightarrow> Some (message_hello u)
      | Launcher_stop \<Rightarrow> Some (message_stop u)
      | _ \<Rightarrow> None)"

section \<open>Helpers\<close>

text \<open>An array of bits in 32 bit words; the index is an int.\<close>

definition bit_word :: "int \<Rightarrow> 32 word list \<Rightarrow> (nat \<times> nat) res" where
  "bit_word pos vect =
     (if pos < 0 \<or> int (length vect) \<le> pos div 32 then Inl Undefined_behaviour
      else Inr (nat (pos div 32), nat (pos mod 32)))"

unbundle bit_operations_syntax

definition set_bit :: "32 word list \<Rightarrow> int \<Rightarrow> 32 word list res" where
  "set_bit vect pos = and_then (bit_word pos vect) (\<lambda>(i, k). Inr (vect[i := vect ! i OR push_bit k 1]))"

definition clear_bit :: "32 word list \<Rightarrow> int \<Rightarrow> 32 word list res" where
  "clear_bit vect pos = and_then (bit_word pos vect) (\<lambda>(i, k). Inr (vect[i := vect ! i AND NOT (push_bit k 1)]))"

definition test_bit :: "32 word list \<Rightarrow> int \<Rightarrow> bool res" where
  "test_bit vect pos = and_then (bit_word pos vect) (\<lambda>(i, k). Inr (vect ! i AND push_bit k 1 \<noteq> 0))"

text \<open>melissa\_print builds the format in a block of a computed size; \<open>None\<close> when the level is too high.\<close>

definition print_prefix :: "int \<Rightarrow> int \<Rightarrow> string \<Rightarrow> string option" where
  "print_prefix verbose p f =
     (if p = 0 then Some (''ERROR:   '' @ f @ '':'')
      else if p = 1 then Some (''WARNING: '' @ f @ '':'')
      else if p = 2 then Some (if verbose > 2 then ''INFO:    '' @ f @ '':'' else [])
      else if p \<ge> 3 then Some (''DEBUG:   '' @ f @ '':'')
      else None)"

definition melissa_print :: "(nat \<Rightarrow> char) \<Rightarrow> int \<Rightarrow> int \<Rightarrow> string \<Rightarrow> string \<Rightarrow> string option res" where
  "melissa_print u verbose p func_name format =
     (if p > verbose then Inr None
      else
        (case print_prefix verbose p func_name of
           None \<Rightarrow> Inl Undefined_behaviour
         | Some pre \<Rightarrow>
             and_then (put 0 (c_str (pre @ '' '' @ format)) (msg_init u (length format + length func_name + 12))) (\<lambda>buf.
             and_then (get_str 0 buf) (\<lambda>s. Inr (Some s)))))"

end
