(* ===== verification/LauncherProps.thy ===== *)
theory LauncherProps
  imports LauncherMessages
begin

text \<open>
  What is written into a message is what is read from it: the blocks of the launcher's messages, and
  the two formats for which it does not hold.
\<close>

section \<open>Numbers and blocks\<close>

lemma length_nat_bytes [simp]: "length (nat_bytes k n) = k"
  by (induction k n rule: nat_bytes.induct) simp_all

lemma bytes_nat_bytes: "bytes_nat (nat_bytes k n) = n mod 256 ^ k"
proof (induction k n rule: nat_bytes.induct)
  case (2 k n)
  then show ?case by (simp add: mod_mult2_eq)
qed simp

lemma length_int_bytes [simp]: "length (int_bytes i) = 4"
  by (simp add: int_bytes_def)

lemma bytes_int_bytes: "- (2 ^ 31) \<le> i \<Longrightarrow> i < 2 ^ 31 \<Longrightarrow> bytes_int (int_bytes i) = i"
proof -
  assume "- (2 ^ 31) \<le> i" "i < 2 ^ 31"
  then have "int32 (i mod 2 ^ 32) = i" by (simp add: int32_def mod_simps)
  moreover have "nat (i mod 2 ^ 32) mod 256 ^ 4 = nat (i mod 2 ^ 32)" by (simp add: nat_less_iff)
  ultimately show ?thesis by (simp add: bytes_int_def int_bytes_def bytes_nat_bytes)
qed

lemma length_msg_init [simp]: "length (msg_init u n) = n"
  by (simp add: msg_init_def)

lemma length_c_str [simp]: "length (c_str s) = length s + 1"
  by (simp add: c_str_def)

lemma put_all_from:
  "off + length (concat bss) \<le> length buf \<Longrightarrow>
     put_all off bss buf = Inr (take off buf @ concat bss @ drop (off + length (concat bss)) buf)"
proof (induction bss arbitrary: off buf)
  case (Cons bs bss)
  let ?b = "copy_into off bs buf"
  have len: "length ?b = length buf" using Cons.prems by (simp add: length_copy_into)
  have "put off bs buf = Inr ?b" using Cons.prems by (simp add: put_def)
  moreover have "put_all (off + length bs) bss ?b =
      Inr (take (off + length bs) ?b @ concat bss @ drop (off + length bs + length (concat bss)) ?b)"
    using Cons.IH [of "off + length bs" ?b] Cons.prems len by simp
  moreover have "take (off + length bs) ?b = take off buf @ bs"
    "drop (off + length bs + k) ?b = drop (off + length bs + k) buf" for k
    using Cons.prems by (auto simp: copy_into_def ac_simps)
  ultimately show ?case by (simp add: add.assoc)
qed simp

text \<open>A message that fills its block.\<close>

lemma put_all_block: "length (concat bss) = n \<Longrightarrow> put_all 0 bss (msg_init u n) = Inr (concat bss)"
  using put_all_from [of 0 bss "msg_init u n"] by simp

lemma put_block: "length bs = n \<Longrightarrow> put 0 bs (msg_init u n) = Inr bs"
  using put_all_block [of "[bs]" n u] by (cases "put 0 bs (msg_init u n)") auto

lemma get_at: "length p = off \<Longrightarrow> length bs = n \<Longrightarrow> get off n (p @ bs @ q) = Inr bs"
  by (auto simp: get_def subvec_def)

lemma get_int_at:
  "length p = off \<Longrightarrow> - (2 ^ 31) \<le> i \<Longrightarrow> i < 2 ^ 31 \<Longrightarrow> get_int off (p @ int_bytes i @ q) = Inr i"
  by (simp add: get_int_def get_at bytes_int_bytes)

lemma takeWhile_str: "NUL \<notin> set s \<Longrightarrow> takeWhile (\<lambda>x. x \<noteq> NUL) (s @ NUL # q) = s"
  by (induction s) auto

lemma get_str_at: "length p = off \<Longrightarrow> NUL \<notin> set s \<Longrightarrow> get_str off (p @ s @ NUL # q) = Inr s"
  by (auto simp: get_str_def takeWhile_str)

definition int_ok :: "int \<Rightarrow> bool" where
  "int_ok i \<longleftrightarrow> - (2 ^ 31) \<le> i \<and> i < 2 ^ 31"

lemma get_int_first: "int_ok i \<Longrightarrow> get_int 0 (int_bytes i @ q) = Inr i"
  using get_int_at [of "[]" 0 i q] by (simp add: int_ok_def)

lemma get_int_second: "int_ok i \<Longrightarrow> length p = 4 \<Longrightarrow> get_int 4 (p @ int_bytes i @ q) = Inr i"
  by (simp add: get_int_at int_ok_def)

lemmas message_types = HELLO_def JOB_def DROP_def STOP_def MSG_TIMEOUT_def SIMU_STATUS_def SERVER_def ALIVE_def
  CONFIDENCE_INTERVAL_def OPTIONS_def

lemma type_ok [simp]: "int_ok HELLO" "int_ok STOP" "int_ok SIMU_STATUS" "int_ok SERVER" "int_ok CONFIDENCE_INTERVAL" "int_ok JOB"
  by (simp_all add: message_types int_ok_def)

section \<open>From the server to the launcher\<close>

lemma terminated_ok: "slack \<noteq> [] \<Longrightarrow> terminated msg slack = Inr (msg @ NUL # tl slack)"
  by (cases slack) (auto simp: terminated_def put_def copy_into_def)

text \<open>The line of text for each message of the server.\<close>

definition launcher_text :: "string \<Rightarrow> action \<Rightarrow> string" where
  "launcher_text hostname a =
     (case a of
        Launcher_notify r st \<Rightarrow> ''group_state '' @ dec r @ '' '' @ dec (case st of RUNNING \<Rightarrow> 1 | TIMEOUT \<Rightarrow> 4)
      | Launcher_name rank \<Rightarrow> ''server '' @ dec rank @ '' '' @ hostname
      | Launcher_hello \<Rightarrow> ''alive''
      | _ \<Rightarrow> ''stop '')"

definition action_ok :: "action \<Rightarrow> bool" where
  "action_ok a \<longleftrightarrow> (case a of Launcher_notify r st \<Rightarrow> int_ok r | Launcher_name rank \<Rightarrow> int_ok rank | _ \<Rightarrow> True)"

lemma server_message:
  assumes "launcher_message u hostname a = Some m"
  shows "\<exists>msg. m = Inr msg \<and> 1 \<le> length msg \<and>
     (NUL \<notin> set hostname \<longrightarrow> action_ok a \<longrightarrow> (\<forall>n q. parse_message g n (msg @ q) = Inr (launcher_text hostname a)))"
proof (cases a)
  case (Launcher_notify r st)
  let ?s = "status_value st"
  let ?msg = "int_bytes SIMU_STATUS @ int_bytes r @ int_bytes ?s"
  have m: "m = Inr ?msg"
    using assms put_all_block [of "[int_bytes SIMU_STATUS, int_bytes r, int_bytes ?s]" 12 u]
    by (simp add: Launcher_notify launcher_message_def message_simu_status_def)
  have s: "int_ok ?s" by (simp add: status_value_def int_ok_def split: runner_status.split)
  have "get_int 8 ((int_bytes SIMU_STATUS @ int_bytes r) @ int_bytes ?s @ q) = Inr ?s" for q
    by (rule get_int_at) (use s in \<open>simp_all add: int_ok_def\<close>)
  then have "parse_message g n (?msg @ q) = Inr (launcher_text hostname a)" if "int_ok r" for n q
    using that by (simp add: parse_message_def get_message_type_def get_int_first get_int_second launcher_text_def
        Launcher_notify status_value_def) (simp add: message_types)
  with m show ?thesis by (auto simp: Launcher_notify action_ok_def)
next
  case (Launcher_name rank)
  let ?msg = "int_bytes SERVER @ int_bytes rank @ c_str hostname"
  have m: "m = Inr ?msg"
    using assms put_all_block [of "[int_bytes SERVER, int_bytes rank, c_str hostname]" "2 * 4 + length hostname + 1" u]
    by (simp add: Launcher_name launcher_message_def message_server_name_def)
  have "get_str 8 ((int_bytes SERVER @ int_bytes rank) @ hostname @ NUL # q) = Inr hostname" if "NUL \<notin> set hostname" for q
    by (rule get_str_at) (use that in simp_all)
  then have "parse_message g n (?msg @ q) = Inr (launcher_text hostname a)" if "int_ok rank" "NUL \<notin> set hostname" for n q
    using that by (simp add: parse_message_def get_message_type_def get_int_first get_int_second launcher_text_def
        Launcher_name c_str_def) (simp add: message_types)
  with m show ?thesis by (auto simp: Launcher_name action_ok_def)
next
  case Launcher_hello
  have "m = Inr (int_bytes HELLO)"
    using assms put_block [of "int_bytes HELLO" 4 u] by (simp add: Launcher_hello launcher_message_def message_hello_def)
  moreover have "parse_message g n (int_bytes HELLO @ q) = Inr (launcher_text hostname a)" for n q
    by (simp add: parse_message_def get_message_type_def get_int_first launcher_text_def Launcher_hello)
      (simp add: message_types)
  ultimately show ?thesis by auto
next
  case Launcher_stop
  have "m = Inr (int_bytes STOP)"
    using assms put_block [of "int_bytes STOP" 4 u] by (simp add: Launcher_stop launcher_message_def message_stop_def)
  moreover have "parse_message g n (int_bytes STOP @ q) = Inr (launcher_text hostname a)" for n q
    by (simp add: parse_message_def get_message_type_def get_int_first launcher_text_def Launcher_stop)
  ultimately show ?thesis by auto
qed (use assms in \<open>simp_all add: launcher_message_def\<close>)

text \<open>
  C21. The launcher understands every message of the server: the first message with rank and host
  name, notifications of a runner's status, pings and the stop message are written without leaving
  their block, and poll\_message turns each into the line the Python code expects, cut to the
  length of its buffer; but only if the block of the received message has a byte more than the
  message, since the terminator is written behind it.
\<close>

theorem launcher_reads_server_messages:
  assumes "launcher_message u hostname a = Some m" "NUL \<notin> set hostname" "action_ok a"
  shows "\<exists>msg. m = Inr msg \<and>
     poll_message g slack len True (Some msg) =
       (if slack = [] then Inl Undefined_behaviour else Inr (take (len - 1) (launcher_text hostname a)))"
proof -
  obtain msg where msg: "m = Inr msg" "1 \<le> length msg"
      "parse_message g (length msg) (msg @ NUL # tl slack) = Inr (launcher_text hostname a)"
    using server_message [OF assms(1), of g] assms(2,3) by blast
  then have ne: "msg \<noteq> []" by auto
  with msg have "poll_message g slack len True (Some msg) = Inr (take (len - 1) (launcher_text hostname a))" if "slack \<noteq> []"
    using that by (simp add: poll_message_def received_text_def snprintf_def terminated_ok not_less)
  moreover have "poll_message g [] len True (Some msg) = Inl Undefined_behaviour"
    using ne by (simp add: poll_message_def received_text_def terminated_def put_def not_less)
  ultimately show ?thesis using msg(1) by auto
qed

theorem launcher_reads_server_messages_witness:
  "\<exists>msg. message_simu_status (\<lambda>_. CHR ''x'') 7 4 = Inr msg \<and>
     poll_message (\<lambda>_. []) [CHR ''y''] 1024 True (Some msg) = Inr (''group_state '' @ dec 7 @ '' '' @ dec 4)"
proof -
  have "length (''group_state '' @ dec 7 @ '' '' @ dec 4) \<le> 1023" by code_simp
  then show ?thesis
    using launcher_reads_server_messages [of "\<lambda>_. CHR ''x''" "''n1''" "Launcher_notify 7 TIMEOUT"
        "message_simu_status (\<lambda>_. CHR ''x'') 7 4" "\<lambda>_. []" "[CHR ''y'']" 1024]
    by (simp add: launcher_message_def status_value_def action_ok_def int_ok_def launcher_text_def)
qed

section \<open>Two formats that do not work\<close>

lemma interval_block:
  "length v = 8 \<Longrightarrow> message_confidence_interval u stat_name fname v =
     Inr (int_bytes CONFIDENCE_INTERVAL @ c_str stat_name @ c_str fname @ v)"
  using put_all_block [of "[int_bytes CONFIDENCE_INTERVAL, c_str stat_name, c_str fname, v]"
      "4 + 8 + length stat_name + length fname + 2" u]
  by (simp add: message_confidence_interval_def)

text \<open>
  C36. Two messages are broken. The block of a timeout message has room for its type only, so writing
  the number of the simulation leaves the block. And the reader of a confidence interval forgets the
  terminators of the names: from any message with names it takes an empty field name and, as the
  value, the terminator and the first bytes of what follows; the launcher's own parser reads the same
  message rightly.
\<close>

theorem broken_messages:
  assumes "length v = 8" "NUL \<notin> set stat_name" "NUL \<notin> set fname" "slack \<noteq> []"
  shows "message_timeout u simu_id = Inl Undefined_behaviour \<and>
     (\<exists>msg. message_confidence_interval u stat_name fname v = Inr msg \<and>
        poll_message g slack len True (Some msg) =
          Inr (take (len - 1) (''interval '' @ stat_name @ '' '' @ fname @ '' '' @ g v)) \<and>
        read_message_confidence_interval (drop 4 msg) =
          Inr (stat_name, [], NUL # take 7 (fname @ NUL # v)))"
proof -
  let ?msg = "int_bytes CONFIDENCE_INTERVAL @ c_str stat_name @ c_str fname @ v"
  have "put 0 (int_bytes MSG_TIMEOUT) (msg_init u 4) = Inr (int_bytes MSG_TIMEOUT)" by (rule put_block) simp
  then have t: "message_timeout u simu_id = Inl Undefined_behaviour"
    by (simp add: message_timeout_def put_def)
  have len: "length ?msg = 4 + (length stat_name + 1) + (length fname + 1) + 8" using assms(1) by simp
  let ?tail = "NUL # tl slack"
  have "get_str 4 (int_bytes CONFIDENCE_INTERVAL @ stat_name @ NUL # c_str fname @ v @ ?tail) = Inr stat_name"
    by (rule get_str_at) (use assms in simp_all)
  moreover have "get_str (4 + length stat_name + 1)
      ((int_bytes CONFIDENCE_INTERVAL @ c_str stat_name) @ fname @ NUL # v @ ?tail) = Inr fname"
    by (rule get_str_at) (use assms in simp_all)
  moreover have "get (length ?msg - 8)
      8 ((int_bytes CONFIDENCE_INTERVAL @ c_str stat_name @ c_str fname) @ v @ ?tail) = Inr v"
    by (rule get_at) (use assms in simp_all)
  ultimately have "parse_message g (length ?msg) (?msg @ ?tail) =
      Inr (''interval '' @ stat_name @ '' '' @ fname @ '' '' @ g v)"
    using len by (simp add: parse_message_def get_message_type_def get_int_first c_str_def) (simp add: message_types)
  then have p: "poll_message g slack len True (Some ?msg) =
      Inr (take (len - 1) (''interval '' @ stat_name @ '' '' @ fname @ '' '' @ g v))"
    using assms(4) len by (simp add: poll_message_def received_text_def snprintf_def terminated_ok c_str_def)
  let ?b = "stat_name @ NUL # fname @ NUL # v"
  have d: "drop 4 ?msg = ?b" by (simp add: c_str_def)
  have "get_str 0 ?b = Inr stat_name" using get_str_at [of "[]" 0 stat_name] assms(2) by simp
  moreover have "get_strn (length stat_name) MAX_FIELD_NAME_LEN ?b = Inr []"
    by (simp add: get_strn_def MAX_FIELD_NAME_LEN_def Let_def)
  moreover have "get (length stat_name) 8 ?b = Inr (NUL # take 7 (fname @ NUL # v))"
    using assms(1) by (simp add: get_def subvec_def)
  ultimately have "read_message_confidence_interval (drop 4 ?msg) = Inr (stat_name, [], NUL # take 7 (fname @ NUL # v))"
    unfolding d by (simp add: read_message_confidence_interval_def)
  with t p interval_block [OF assms(1)] show ?thesis by blast
qed

theorem broken_messages_witness:
  "message_timeout (\<lambda>_. NUL) 3 = Inl Undefined_behaviour \<and>
     (\<exists>msg. message_confidence_interval (\<lambda>_. NUL) ''mean'' ''T'' ''12345678'' = Inr msg \<and>
        read_message_confidence_interval (drop 4 msg) = Inr (''mean'', [], NUL # ''T'' @ NUL # ''12345''))"
  using broken_messages [of "''12345678''" "''mean''" "''T''" "''y''" "\<lambda>_. NUL" 3 "\<lambda>_. []" 100]
  by auto

section \<open>The other formats\<close>

lemma get_doubles_at:
  "\<forall>d \<in> set ds. length d = 8 \<Longrightarrow> length p = off \<Longrightarrow> get_doubles off (length ds) (p @ concat ds @ q) = Inr ds"
proof (induction ds arbitrary: p off)
  case (Cons d ds)
  have "get off 8 (p @ d @ concat ds @ q) = Inr d" using Cons.prems by (simp add: get_at)
  moreover have "get_doubles (off + 8) (length ds) ((p @ d) @ concat ds @ q) = Inr ds"
    by (rule Cons.IH) (use Cons.prems in simp_all)
  ultimately show ?case by simp
qed simp

lemma sum_length_doubles: "\<forall>d \<in> set ds. length d = k \<Longrightarrow> length (concat ds) = length ds * k"
  by (induction ds) auto

text \<open>Jobs, drops, status messages and server names are read as they were written.\<close>

theorem job_roundtrip:
  assumes "int_ok simu_id" "NUL \<notin> set job_id" "\<forall>d \<in> set params. length d = 8"
  shows "\<exists>msg. message_job u simu_id job_id params = Inr msg \<and> get_message_type msg = Inr JOB \<and>
     read_message_job (length params) (drop 4 msg) = Inr (simu_id, job_id, params)"
proof -
  let ?msg = "int_bytes JOB @ int_bytes simu_id @ c_str job_id @ concat params"
  have "message_job u simu_id job_id params = Inr ?msg"
    using put_all_block [of "[int_bytes JOB, int_bytes simu_id, c_str job_id] @ params"
        "2 * 4 + length params * 8 + length job_id + 1" u] sum_length_doubles [OF assms(3)]
    by (simp add: message_job_def)
  moreover have "get_str 4 (int_bytes simu_id @ job_id @ NUL # concat params) = Inr job_id"
    using assms(2) by (simp add: get_str_at)
  moreover have "get_doubles (4 + length job_id + 1) (length params)
      ((int_bytes simu_id @ c_str job_id) @ concat params @ []) = Inr params"
    by (rule get_doubles_at) (use assms(3) in simp_all)
  ultimately show ?thesis
    using assms(1) by (simp add: read_message_job_def get_message_type_def get_int_first c_str_def)
qed

theorem server_name_roundtrip:
  assumes "int_ok rank" "NUL \<notin> set node_name"
  shows "\<exists>msg. message_server_name u node_name rank = Inr msg \<and> get_message_type msg = Inr SERVER \<and>
     read_message_server_name (drop 4 msg) = Inr (node_name, rank)"
proof -
  have "message_server_name u node_name rank = Inr (int_bytes SERVER @ int_bytes rank @ c_str node_name)"
    using put_all_block [of "[int_bytes SERVER, int_bytes rank, c_str node_name]" "2 * 4 + length node_name + 1" u]
    by (simp add: message_server_name_def)
  moreover have "get_str 4 (int_bytes rank @ node_name @ NUL # []) = Inr node_name"
    using assms(2) by (rule get_str_at [rotated]) simp
  ultimately show ?thesis
    using assms(1) by (simp add: read_message_server_name_def get_message_type_def get_int_first c_str_def)
qed

section \<open>Bits and prints\<close>

lemma test_set_bit:
  assumes "set_bit vect pos = Inr vect'" "0 \<le> pos'" "pos' div 32 < int (length vect)"
  shows "test_bit vect' pos' = (if pos' = pos then Inr True else test_bit vect pos')"
proof -
  let ?i = "nat (pos div 32)" and ?k = "nat (pos mod 32)" and ?j = "nat (pos' div 32)" and ?l = "nat (pos' mod 32)"
  have pos: "0 \<le> pos" "?i < length vect" and v: "vect' = vect[?i := or (vect ! ?i) (push_bit ?k 1)]"
    using assms(1) by (auto simp: set_bit_def bit_word_def and_then_Inr_iff nat_less_iff pos_imp_zdiv_nonneg_iff split: if_splits)
  have kl: "?k < 32" "?l < 32" by (simp_all add: nat_less_iff)
  have eq: "pos' = pos \<longleftrightarrow> ?j = ?i \<and> ?l = ?k"
    using pos(1) assms(2) by (metis div_mult_mod_eq nat_eq_iff pos_imp_zdiv_nonneg_iff pos_mod_sign zero_less_numeral)
  show ?thesis
    using assms(2,3) pos kl eq
    by (auto simp: test_bit_def bit_word_def and_exp_eq_0_iff_not_bit v nth_list_update bit_or_iff bit_exp_iff nat_less_iff)
qed

text \<open>The block melissa\_print allocates is just large enough for the longest prefix.\<close>

theorem print_fits:
  assumes "0 \<le> p" "NUL \<notin> set func_name" "NUL \<notin> set format"
  shows "\<exists>s. melissa_print u verbose p func_name format = Inr s"
proof -
  obtain pre where pre: "print_prefix verbose p func_name = Some pre" "length pre \<le> length func_name + 10"
    using assms(1) by (cases "p = 0 \<or> p = 1 \<or> p = 2") (auto simp: print_prefix_def)
  have "put 0 (c_str (pre @ '' '' @ format)) (msg_init u (length format + length func_name + 12)) =
      Inr (copy_into 0 (c_str (pre @ '' '' @ format)) (msg_init u (length format + length func_name + 12)))"
    using pre(2) by (simp add: put_def)
  then show ?thesis using pre(1)
    by (auto simp: melissa_print_def get_str_def copy_into_def c_str_def)
qed

end
