(* ===== verification/Communicators.thy ===== *)
theory Communicators
  imports Prelude
begin

text \<open>
  The registries of communicators of the server (server/MpiManager.cxx) and of the peer-to-peer
  mode (api/p2p/StorageController/mpi\_controller.cxx), and its requests. What MPI answers is a
  record of functions.
\<close>

record 'c mpi =
  MPI_COMM_NULL :: 'c
  MPI_COMM_WORLD :: 'c
  MPI_THREAD_MULTIPLE :: int
  MPI_Comm_size :: "'c \<Rightarrow> int"
  MPI_Comm_rank :: "'c \<Rightarrow> int"

section \<open>The server\<close>

record 'c mpi_manager =
  m_comm_key :: string
  m_comms :: "string \<rightharpoonup> 'c"
  m_size :: int
  m_rank :: int

definition new_MpiManager :: "'c mpi \<Rightarrow> int \<Rightarrow> int \<Rightarrow> 'c mpi_manager" where
  "new_MpiManager lib size0 rank0 =
     \<lparr>m_comm_key = ''mpi_comm_world'', m_comms = [''mpi_comm_world'' \<mapsto> MPI_COMM_NULL lib],
      m_size = size0, m_rank = rank0\<rparr>"

text \<open>With the thread manager the library has to support threads, whose level is provided.\<close>

definition MpiManager_init :: "'c mpi \<Rightarrow> bool \<Rightarrow> int \<Rightarrow> 'c mpi_manager \<Rightarrow> 'c mpi_manager res" where
  "MpiManager_init lib with_threads provided m =
     (if with_threads \<and> provided < MPI_THREAD_MULTIPLE lib then Inl Aborted
      else Inr (m\<lparr>m_comms := (m_comms m)(m_comm_key m \<mapsto> MPI_COMM_WORLD lib),
       m_size := MPI_Comm_size lib (MPI_COMM_WORLD lib), m_rank := MPI_Comm_rank lib (MPI_COMM_WORLD lib)\<rparr>))"

definition register_comm :: "string \<Rightarrow> 'c \<Rightarrow> 'c mpi_manager \<Rightarrow> 'c mpi_manager" where
  "register_comm key c m = m\<lparr>m_comms := (m_comms m)(key \<mapsto> c)\<rparr>"

definition set_comm :: "'c mpi \<Rightarrow> string \<Rightarrow> 'c mpi_manager \<Rightarrow> 'c mpi_manager res" where
  "set_comm lib key m =
     (case m_comms m key of
        None \<Rightarrow> Inl Assertion_failed
      | Some c \<Rightarrow> Inr (m\<lparr>m_comm_key := key, m_size := MPI_Comm_size lib c, m_rank := MPI_Comm_rank lib c\<rparr>))"

definition current_comm :: "'c mpi_manager \<Rightarrow> 'c option" where
  "current_comm m = m_comms m (m_comm_key m)"

text \<open>The size and the rank are those of the current communicator.\<close>

definition manager_agrees :: "'c mpi \<Rightarrow> 'c mpi_manager \<Rightarrow> bool" where
  "manager_agrees lib m \<longleftrightarrow> (\<exists>c. current_comm m = Some c \<and> m_size m = MPI_Comm_size lib c \<and> m_rank m = MPI_Comm_rank lib c)"

lemma init_agrees: "MpiManager_init lib threads provided m = Inr m' \<Longrightarrow> manager_agrees lib m'"
  by (auto split: if_splits simp: manager_agrees_def MpiManager_init_def current_comm_def)

lemma register_agrees: "manager_agrees lib m \<Longrightarrow> key \<noteq> m_comm_key m \<Longrightarrow> manager_agrees lib (register_comm key c m)"
  by (auto simp: manager_agrees_def register_comm_def current_comm_def)

lemma set_comm_agrees: "set_comm lib key m = Inr m' \<Longrightarrow> manager_agrees lib m'"
  by (auto simp: manager_agrees_def set_comm_def current_comm_def split: option.splits)

section \<open>The peer-to-peer mode\<close>

record 'c mpi_comm_t =
  comm :: 'c
  size_of :: int
  rank_of :: int

text \<open>The selected key is a static member: all controllers of a process share it.\<close>

record 'c mpi_controller =
  m_comm_set :: string
  comms :: "string \<rightharpoonup> 'c mpi_comm_t"

definition comm_entry :: "'c mpi \<Rightarrow> 'c \<Rightarrow> 'c mpi_comm_t" where
  "comm_entry lib c = \<lparr>comm = c, size_of = MPI_Comm_size lib c, rank_of = MPI_Comm_rank lib c\<rparr>"

definition new_MpiController :: "'c mpi \<Rightarrow> string \<Rightarrow> 'c mpi_controller" where
  "new_MpiController lib set_key =
     \<lparr>m_comm_set = set_key, comms = [''global_comm'' \<mapsto> \<lparr>comm = MPI_COMM_NULL lib, size_of = -1, rank_of = -1\<rparr>]\<rparr>"

definition MpiController_init :: "'c mpi \<Rightarrow> 'c \<Rightarrow> 'c mpi_controller \<Rightarrow> 'c mpi_controller" where
  "MpiController_init lib c m = m\<lparr>comms := (comms m)(m_comm_set m \<mapsto> comm_entry lib c)\<rparr>"

text \<open>std::map::insert does not replace an entry.\<close>

definition controller_register_comm :: "'c mpi \<Rightarrow> string \<Rightarrow> 'c \<Rightarrow> 'c mpi_controller \<Rightarrow> 'c mpi_controller" where
  "controller_register_comm lib key c m =
     (case comms m key of
        None \<Rightarrow> m\<lparr>comms := (comms m)(key \<mapsto> comm_entry lib c)\<rparr>
      | Some _ \<Rightarrow> m)"

definition controller_set_comm :: "string \<Rightarrow> 'c mpi_controller \<Rightarrow> 'c mpi_controller res" where
  "controller_set_comm key m =
     (if comms m key = None then Inl Assertion_failed else Inr (m\<lparr>m_comm_set := key\<rparr>))"

text \<open>Looking up a key that is not there makes an entry of zeros.\<close>

definition controller_lookup :: "'c \<Rightarrow> string \<Rightarrow> 'c mpi_controller \<Rightarrow> 'c mpi_comm_t \<times> 'c mpi_controller" where
  "controller_lookup zero key m =
     (case comms m key of
        Some e \<Rightarrow> (e, m)
      | None \<Rightarrow> (\<lparr>comm = zero, size_of = 0, rank_of = 0\<rparr>,
                 m\<lparr>comms := (comms m)(key \<mapsto> \<lparr>comm = zero, size_of = 0, rank_of = 0\<rparr>)\<rparr>))"

lemma controller_roundtrip:
  assumes "comms m key = None"
  shows "\<exists>m'. controller_set_comm key (controller_register_comm lib key c m) = Inr m' \<and>
     controller_lookup zero (m_comm_set m') m' = (comm_entry lib c, m')"
  using assms by (simp add: controller_set_comm_def controller_register_comm_def controller_lookup_def)

lemma controller_register_twice:
  "controller_register_comm lib key c' (controller_register_comm lib key c m) = controller_register_comm lib key c m"
  by (simp add: controller_register_comm_def split: option.splits)

section \<open>Requests\<close>

text \<open>
  A request is MPI\_REQUEST\_NULL (None) or a handle. MPI\_Test and MPI\_Wait make it
  MPI\_REQUEST\_NULL when the operation is complete, and report its error in the status.
\<close>

record 'r mpi_request =
  mpi_request :: "'r option"
  errval :: int

definition request_test :: "('r \<Rightarrow> int option) \<Rightarrow> 'r mpi_request \<Rightarrow> bool \<times> 'r mpi_request" where
  "request_test MPI_Test q =
     (case mpi_request q of
        None \<Rightarrow> (False, q)
      | Some r \<Rightarrow> (case MPI_Test r of
                    None \<Rightarrow> (False, q)
                  | Some e \<Rightarrow> (True, q\<lparr>mpi_request := None, errval := e\<rparr>)))"

definition request_wait :: "('r \<Rightarrow> int) \<Rightarrow> 'r mpi_request \<Rightarrow> 'r mpi_request" where
  "request_wait MPI_Wait q =
     (case mpi_request q of None \<Rightarrow> q | Some r \<Rightarrow> q\<lparr>mpi_request := None, errval := MPI_Wait r\<rparr>)"

definition request_free :: "'r mpi_request \<Rightarrow> 'r mpi_request" where
  "request_free q = q\<lparr>mpi_request := None\<rparr>"

lemma request_test_once:
  "fst (request_test t q) \<Longrightarrow> \<not> fst (request_test t (snd (request_test t q)))"
  by (auto simp: request_test_def split: option.splits)

end
