(* ===== verification/ThreadManager.thy ===== *)
theory ThreadManager
  imports Prelude "HOL-Library.Multiset"
begin

text \<open>
  The thread manager of the fault tolerance module (server/FTthreadManager.cxx and .h): the main
  thread submits functions and waits for them, a scheduler thread takes them from the queue and
  starts a thread for each on a free slot, the threads run them. Every access to a shared variable
  is a step of its own; the steps of the threads interleave. The mutex is held by submit from its
  first step to its last, and by the scheduler while it takes the function from the queue.
\<close>

section \<open>State\<close>

text \<open>A thread object: not joinable, running its function, returned from it, or the promise set.\<close>

datatype 'f thread = No_thread | Started 'f | Returned 'f | Ready 'f

record 'f task_t =
  active :: bool
  th :: "'f thread"

datatype 'f main_pc = Outside | Counted 'f | Pushed 'f | Reads_pending | Reads_requests

datatype sched_pc = Loop | Scan nat | Joined nat | Inactive nat | Choose | Create nat | Pop nat | Activate nat
  | Uncount | Left

text \<open>The last two fields are the history: what was submitted and what has been run.\<close>

record 'f manager =
  m_online :: bool
  m_requests :: int
  m_pending :: int
  m_task_queue_pending :: "'f list"
  m_task_queue_running :: "'f task_t list"
  main_at :: "'f main_pc"
  sched_at :: sched_pc
  submitted :: "'f list"
  ran :: "'f list"

definition new_manager :: "nat \<Rightarrow> 'f manager" where
  "new_manager max_threads =
     \<lparr>m_online = True, m_requests = 0, m_pending = 0, m_task_queue_pending = [],
      m_task_queue_running = replicate max_threads \<lparr>active = False, th = No_thread\<rparr>,
      main_at = Outside, sched_at = Loop, submitted = [], ran = []\<rparr>"

section \<open>The threads\<close>

definition set_thread :: "nat \<Rightarrow> 'f thread \<Rightarrow> 'f manager \<Rightarrow> 'f manager" where
  "set_thread i t m = m\<lparr>m_task_queue_running :=
     (m_task_queue_running m)[i := (m_task_queue_running m ! i)\<lparr>th := t\<rparr>]\<rparr>"

definition set_active :: "nat \<Rightarrow> bool \<Rightarrow> 'f manager \<Rightarrow> 'f manager" where
  "set_active i b m = m\<lparr>m_task_queue_running :=
     (m_task_queue_running m)[i := (m_task_queue_running m ! i)\<lparr>active := b\<rparr>]\<rparr>"

definition is_ready :: "'f thread \<Rightarrow> bool" where
  "is_ready t = (case t of Ready _ \<Rightarrow> True | _ \<Rightarrow> False)"

text \<open>The first slot that is not active.\<close>

fun free_slot :: "'f task_t list \<Rightarrow> nat option" where
  "free_slot [] = None"
| "free_slot (t # ts) = (if \<not> active t then Some 0 else map_option Suc (free_slot ts))"

definition submitting :: "'f manager \<Rightarrow> bool" where
  "submitting m = (case main_at m of Counted _ \<Rightarrow> True | Pushed _ \<Rightarrow> True | _ \<Rightarrow> False)"

text \<open>
  start\_scheduler: one access of the scheduler thread. Taking the function from the queue waits
  for the mutex.
\<close>

definition sched_step :: "'f manager \<Rightarrow> 'f manager" where
  "sched_step m =
     (case sched_at m of
        Loop \<Rightarrow> m\<lparr>sched_at := if m_online m then Scan 0 else Left\<rparr>
      | Scan i \<Rightarrow>
          if i < length (m_task_queue_running m) then
            (let t = m_task_queue_running m ! i in
             if active t \<and> is_ready (th t) then (set_thread i No_thread m)\<lparr>sched_at := Joined i\<rparr>
             else m\<lparr>sched_at := Scan (Suc i)\<rparr>)
          else m\<lparr>sched_at := Choose\<rparr>
      | Joined i \<Rightarrow> (set_active i False m)\<lparr>sched_at := Inactive i\<rparr>
      | Inactive i \<Rightarrow> m\<lparr>m_requests := m_requests m - 1, sched_at := Scan (Suc i)\<rparr>
      | Choose \<Rightarrow>
          (case (if m_pending m > 0 then free_slot (m_task_queue_running m) else None) of
             None \<Rightarrow> m\<lparr>sched_at := Loop\<rparr>
           | Some j \<Rightarrow> m\<lparr>sched_at := Create j\<rparr>)
      | Create j \<Rightarrow> (set_thread j (Started (hd (m_task_queue_pending m))) m)\<lparr>sched_at := Pop j\<rparr>
      | Pop j \<Rightarrow>
          if submitting m then m
          else m\<lparr>m_task_queue_pending := tl (m_task_queue_pending m), sched_at := Activate j\<rparr>
      | Activate j \<Rightarrow> (set_active j True m)\<lparr>sched_at := Uncount\<rparr>
      | Uncount \<Rightarrow> m\<lparr>m_pending := m_pending m - 1, sched_at := Loop\<rparr>
      | Left \<Rightarrow> m)"

text \<open>task\_wrapper: the function runs, then the promise is set.\<close>

definition worker_step :: "nat \<Rightarrow> 'f manager \<Rightarrow> 'f manager" where
  "worker_step i m =
     (case th (m_task_queue_running m ! i) of
        Started f \<Rightarrow> (set_thread i (Returned f) m)\<lparr>ran := ran m @ [f]\<rparr>
      | Returned f \<Rightarrow> set_thread i (Ready f) m
      | _ \<Rightarrow> m)"

text \<open>submit and synchronize in the main thread.\<close>

definition begin_submit :: "'f \<Rightarrow> 'f manager \<Rightarrow> 'f manager" where
  "begin_submit f m = m\<lparr>m_requests := m_requests m + 1, main_at := Counted f\<rparr>"

definition main_step :: "'f manager \<Rightarrow> 'f manager" where
  "main_step m =
     (case main_at m of
        Outside \<Rightarrow> m
      | Counted f \<Rightarrow> m\<lparr>m_task_queue_pending := m_task_queue_pending m @ [f], submitted := submitted m @ [f],
                     main_at := Pushed f\<rparr>
      | Pushed f \<Rightarrow> m\<lparr>m_pending := m_pending m + 1, main_at := Outside\<rparr>
      | Reads_pending \<Rightarrow> m\<lparr>main_at := if m_pending m > 0 then Reads_pending else Reads_requests\<rparr>
      | Reads_requests \<Rightarrow> m\<lparr>main_at := if m_requests m > 0 then Reads_pending else Outside\<rparr>)"

inductive manager_step :: "'f manager \<Rightarrow> 'f manager \<Rightarrow> bool" where
  submits: "main_at m = Outside \<Longrightarrow> manager_step m (begin_submit f m)"
| synchronizes: "main_at m = Outside \<Longrightarrow> manager_step m (m\<lparr>main_at := Reads_pending\<rparr>)"
| stops: "main_at m = Outside \<Longrightarrow> manager_step m (m\<lparr>m_online := False\<rparr>)"
| main: "manager_step m (main_step m)"
| schedules: "manager_step m (sched_step m)"
| works: "i < length (m_task_queue_running m) \<Longrightarrow> manager_step m (worker_step i m)"

inductive reaches :: "nat \<Rightarrow> 'f manager \<Rightarrow> bool" for max_threads where
  starts: "reaches max_threads (new_manager max_threads)"
| continues: "reaches max_threads m \<Longrightarrow> manager_step m m' \<Longrightarrow> reaches max_threads m'"

section \<open>The invariant\<close>

text \<open>The functions no thread was started for yet, and those a thread was started for that has not run them.\<close>

definition waiting :: "'f manager \<Rightarrow> 'f list" where
  "waiting m = (case sched_at m of Pop _ \<Rightarrow> tl (m_task_queue_pending m) | _ \<Rightarrow> m_task_queue_pending m)"

definition not_run :: "'f task_t \<Rightarrow> 'f list" where
  "not_run t = (case th t of Started f \<Rightarrow> [f] | _ \<Rightarrow> [])"

definition started :: "'f task_t list \<Rightarrow> 'f list" where
  "started ts = concat (map not_run ts)"

definition occupied :: "'f task_t list \<Rightarrow> int" where
  "occupied ts = int (length (filter (\<lambda>t. th t \<noteq> No_thread) ts))"

definition tasks_kept :: "'f manager \<Rightarrow> bool" where
  "tasks_kept m \<longleftrightarrow> mset (submitted m) = mset (ran m) + mset (started (m_task_queue_running m)) + mset (waiting m) \<and>
     (length (m_task_queue_running m) = 1 \<longrightarrow> submitted m = ran m @ started (m_task_queue_running m) @ waiting m)"

definition requests_kept :: "'f manager \<Rightarrow> bool" where
  "requests_kept m \<longleftrightarrow> m_requests m = int (length (waiting m)) + occupied (m_task_queue_running m) +
     (case sched_at m of Joined _ \<Rightarrow> 1 | Inactive _ \<Rightarrow> 1 | _ \<Rightarrow> 0) + (case main_at m of Counted _ \<Rightarrow> 1 | _ \<Rightarrow> 0)"

definition pending_kept :: "'f manager \<Rightarrow> bool" where
  "pending_kept m \<longleftrightarrow> m_pending m = int (length (m_task_queue_pending m)) +
     (case sched_at m of Activate _ \<Rightarrow> 1 | Uncount \<Rightarrow> 1 | _ \<Rightarrow> 0) - (case main_at m of Pushed _ \<Rightarrow> 1 | _ \<Rightarrow> 0)"

text \<open>A slot is active exactly when it has a thread, but for the moments between the two stores.\<close>

definition slot_ok :: "sched_pc \<Rightarrow> nat \<Rightarrow> 'f task_t \<Rightarrow> bool" where
  "slot_ok pc i t \<longleftrightarrow>
     (if pc = Joined i then active t \<and> th t = No_thread
      else if pc = Pop i \<or> pc = Activate i then \<not> active t \<and> th t \<noteq> No_thread
      else active t \<longleftrightarrow> th t \<noteq> No_thread)"

definition slots_ok :: "'f manager \<Rightarrow> bool" where
  "slots_ok m \<longleftrightarrow> (\<forall>i < length (m_task_queue_running m). slot_ok (sched_at m) i (m_task_queue_running m ! i)) \<and>
     (case sched_at m of Joined i \<Rightarrow> i < length (m_task_queue_running m)
      | Create i \<Rightarrow> i < length (m_task_queue_running m) \<and> \<not> active (m_task_queue_running m ! i) \<and> m_task_queue_pending m \<noteq> []
      | Pop i \<Rightarrow> i < length (m_task_queue_running m) \<and> m_task_queue_pending m \<noteq> []
      | Activate i \<Rightarrow> i < length (m_task_queue_running m)
      | _ \<Rightarrow> True)"

definition manager_inv :: "'f manager \<Rightarrow> bool" where
  "manager_inv m \<longleftrightarrow> tasks_kept m \<and> requests_kept m \<and> pending_kept m \<and> slots_ok m"

lemmas kept_defs = tasks_kept_def requests_kept_def pending_kept_def waiting_def

lemma started_replicate: "started (replicate n \<lparr>active = False, th = No_thread\<rparr>) = []"
  by (induction n) (simp_all add: started_def not_run_def)

lemma new_manager_inv: "manager_inv (new_manager n)"
  by (simp add: manager_inv_def kept_defs new_manager_def slots_ok_def slot_ok_def occupied_def started_replicate
      del: replicate.simps)

lemma started_update:
  assumes "i < length ts"
  shows "mset (started (ts[i := t])) + mset (not_run (ts ! i)) = mset (started ts) + mset (not_run t)"
    "length ts = 1 \<Longrightarrow> started (ts[i := t]) = not_run t" "length ts = 1 \<Longrightarrow> started ts = not_run (ts ! i)"
proof -
  let ?a = "take i ts" and ?b = "drop (Suc i) ts"
  have u: "ts[i := t] = ?a @ t # ?b" by (rule upd_conv_take_nth_drop [OF assms])
  have "started ts = started (?a @ ts ! i # ?b)" using id_take_nth_drop [OF assms] by simp
  then show "mset (started (ts[i := t])) + mset (not_run (ts ! i)) = mset (started ts) + mset (not_run t)"
    unfolding u by (simp add: started_def)
  show "length ts = 1 \<Longrightarrow> started (ts[i := t]) = not_run t" "length ts = 1 \<Longrightarrow> started ts = not_run (ts ! i)"
    using assms by (cases ts; simp add: started_def)+
qed

lemma occupied_update:
  assumes "i < length ts"
  shows "occupied (ts[i := t]) + of_bool (th (ts ! i) \<noteq> No_thread) = occupied ts + of_bool (th t \<noteq> No_thread)"
proof -
  let ?a = "take i ts" and ?b = "drop (Suc i) ts"
  have u: "ts[i := t] = ?a @ t # ?b" by (rule upd_conv_take_nth_drop [OF assms])
  have "occupied ts = occupied (?a @ ts ! i # ?b)" using id_take_nth_drop [OF assms] by simp
  then show ?thesis unfolding u by (simp add: occupied_def)
qed

lemma free_slot_Some: "free_slot ts = Some j \<Longrightarrow> j < length ts \<and> \<not> active (ts ! j)"
  by (induction ts arbitrary: j) (auto split: if_splits)

section \<open>Every step keeps it\<close>

lemma set_simps [simp]:
  "main_at (set_thread i t m) = main_at m" "sched_at (set_thread i t m) = sched_at m"
  "m_pending (set_thread i t m) = m_pending m" "m_requests (set_thread i t m) = m_requests m"
  "m_task_queue_pending (set_thread i t m) = m_task_queue_pending m"
  "submitted (set_thread i t m) = submitted m" "ran (set_thread i t m) = ran m"
  "m_online (set_thread i t m) = m_online m"
  "main_at (set_active i b m) = main_at m" "sched_at (set_active i b m) = sched_at m"
  "m_pending (set_active i b m) = m_pending m" "m_requests (set_active i b m) = m_requests m"
  "m_task_queue_pending (set_active i b m) = m_task_queue_pending m"
  "submitted (set_active i b m) = submitted m" "ran (set_active i b m) = ran m"
  "m_online (set_active i b m) = m_online m"
  by (simp_all add: set_thread_def set_active_def)

lemma waiting_simps [simp]:
  "waiting (m\<lparr>m_task_queue_running := ts\<rparr>) = waiting m" "waiting (m\<lparr>m_task_queue_running := ts, ran := r\<rparr>) = waiting m"
  by (simp_all add: waiting_def cong: sched_pc.case_cong)

lemmas kept = manager_inv_def tasks_kept_def requests_kept_def pending_kept_def

lemma main_step_inv:
  assumes i: "manager_inv m" shows "manager_inv (main_step m)"
proof (cases "main_at m")
  case (Counted f)
  have "m_task_queue_pending m \<noteq> []" if "sched_at m = Pop j" for j
    using i that by (simp add: manager_inv_def slots_ok_def)
  with i Counted show ?thesis
    by (auto simp: manager_inv_def main_step_def kept_defs slots_ok_def neq_Nil_conv split: sched_pc.splits)
next
  case (Pushed f)
  with i show ?thesis by (simp add: manager_inv_def main_step_def kept_defs slots_ok_def split: sched_pc.splits)
qed (use i in \<open>simp_all add: manager_inv_def main_step_def kept_defs slots_ok_def split: sched_pc.splits\<close>)

lemma begin_submit_inv: "manager_inv m \<Longrightarrow> main_at m = Outside \<Longrightarrow> manager_inv (begin_submit f m)"
  by (simp add: manager_inv_def begin_submit_def kept_defs slots_ok_def split: sched_pc.splits)

lemma synchronizes_inv: "manager_inv m \<Longrightarrow> main_at m = Outside \<Longrightarrow> manager_inv (m\<lparr>main_at := Reads_pending\<rparr>)"
  by (simp add: manager_inv_def kept_defs slots_ok_def split: sched_pc.splits)

lemma stops_inv: "manager_inv m \<Longrightarrow> manager_inv (m\<lparr>m_online := b\<rparr>)"
  by (simp add: manager_inv_def kept_defs slots_ok_def split: sched_pc.splits)

lemma worker_step_inv:
  assumes m: "manager_inv m" and i: "i < length (m_task_queue_running m)"
  shows "manager_inv (worker_step i m)"
proof -
  let ?ts = "m_task_queue_running m"
  note u = started_update [OF i] occupied_update [OF i]
  have ok: "slot_ok (sched_at m) k ((?ts[i := (?ts ! i)\<lparr>th := t\<rparr>]) ! k)"
    if "k < length ?ts" "th (?ts ! i) \<noteq> No_thread" "t \<noteq> No_thread" for k t
    using m that i by (cases "k = i") (auto simp: manager_inv_def slots_ok_def slot_ok_def)
  show ?thesis
  proof (cases "th (?ts ! i)")
    case (Started f)
    let ?t = "(?ts ! i)\<lparr>th := Returned f\<rparr>"
    have n: "not_run (?ts ! i) = [f]" "not_run ?t = []" using Started by (simp_all add: not_run_def)
    have "mset (started (?ts[i := ?t])) + {#f#} = mset (started ?ts)" using u(1) [of ?t] n by simp
    moreover have "length ?ts = 1 \<Longrightarrow> started (?ts[i := ?t]) = [] \<and> started ?ts = [f]"
      using u(2) [of ?t] u(3) n by simp
    moreover have "occupied (?ts[i := ?t]) = occupied ?ts" using u(4) [of ?t] Started by simp
    moreover have "slots_ok (worker_step i m)"
      using m ok [of _ "Returned f"] Started i
      by (auto simp: worker_step_def set_thread_def slots_ok_def manager_inv_def nth_list_update split: sched_pc.splits)
    ultimately show ?thesis
      using m Started by (auto simp: kept worker_step_def set_thread_def)
  next
    case (Returned f)
    let ?t = "(?ts ! i)\<lparr>th := Ready f\<rparr>"
    have n: "not_run (?ts ! i) = []" "not_run ?t = []" using Returned by (simp_all add: not_run_def)
    have "mset (started (?ts[i := ?t])) = mset (started ?ts)" using u(1) [of ?t] n by simp
    moreover have "length ?ts = 1 \<Longrightarrow> started (?ts[i := ?t]) = started ?ts"
      using u(2) [of ?t] u(3) n by simp
    moreover have "occupied (?ts[i := ?t]) = occupied ?ts" using u(4) [of ?t] Returned by simp
    moreover have "slots_ok (worker_step i m)"
      using m ok [of _ "Ready f"] Returned i
      by (auto simp: worker_step_def set_thread_def slots_ok_def manager_inv_def nth_list_update split: sched_pc.splits)
    ultimately show ?thesis
      using m Returned by (auto simp: kept worker_step_def set_thread_def)
  qed (use m in \<open>simp_all add: worker_step_def\<close>)
qed

lemma slot_unchanged: "(\<And>i. pc \<noteq> Joined i \<and> pc \<noteq> Pop i \<and> pc \<noteq> Activate i) \<Longrightarrow>
     slot_ok pc i t = (active t \<longleftrightarrow> th t \<noteq> No_thread)"
  by (simp add: slot_ok_def)

lemma started_same:
  assumes "i < length ts" "not_run t = not_run (ts ! i)"
  shows "mset (started (ts[i := t])) = mset (started ts)" "length ts = 1 \<Longrightarrow> started (ts[i := t]) = started ts"
  using started_update(1) [OF assms(1), of t] started_update(2) [OF assms(1), of t] started_update(3) [OF assms(1)] assms(2)
  by auto

lemma sched_step_inv:
  assumes m: "manager_inv m" shows "manager_inv (sched_step m)"
proof -
  let ?ts = "m_task_queue_running m"
  have ok: "\<And>i. i < length ?ts \<Longrightarrow> slot_ok (sched_at m) i (?ts ! i)" using m by (simp add: manager_inv_def slots_ok_def)
  show ?thesis
  proof (cases "sched_at m")
    case Loop
    with m show ?thesis
      by (simp add: kept sched_step_def waiting_def slots_ok_def slot_unchanged)
  next
    case (Scan i)
    show ?thesis
    proof (cases "i < length ?ts \<and> active (?ts ! i) \<and> is_ready (th (?ts ! i))")
      case False
      then have "sched_step m = m\<lparr>sched_at := if i < length ?ts then Scan (Suc i) else Choose\<rparr>"
        using Scan by (auto simp: sched_step_def)
      with m Scan show ?thesis by (simp add: kept waiting_def slots_ok_def slot_unchanged)
    next
      case True
      let ?t = "(?ts ! i)\<lparr>th := No_thread\<rparr>"
      have n: "not_run ?t = not_run (?ts ! i)" using True by (simp add: not_run_def is_ready_def split: thread.splits)
      have oc: "occupied (?ts[i := ?t]) = occupied ?ts - 1"
        using occupied_update [of i ?ts ?t] True by (cases "th (?ts ! i)") (auto simp: is_ready_def)
      have "slot_ok (Joined i) k (?ts[i := ?t] ! k)" if "k < length ?ts" for k
        using ok [OF that] True Scan that by (cases "k = i") (auto simp: slot_ok_def)
      then show ?thesis
        using m Scan True started_same [of i ?ts ?t] n oc
        by (simp add: kept waiting_def sched_step_def Let_def set_thread_def slots_ok_def)
    qed
  next
    case (Joined i)
    let ?t = "(?ts ! i)\<lparr>active := False\<rparr>"
    have i: "i < length ?ts" using m Joined by (simp add: manager_inv_def slots_ok_def)
    have n: "not_run ?t = not_run (?ts ! i)" "th ?t = th (?ts ! i)" by (simp_all add: not_run_def)
    have "slot_ok (Inactive i) k (?ts[i := ?t] ! k)" if "k < length ?ts" for k
      using ok [OF that] Joined that by (cases "k = i") (auto simp: slot_ok_def)
    then show ?thesis
      using m Joined started_same [OF i n(1)] occupied_update [OF i, of ?t] n(2)
      by (simp add: kept waiting_def sched_step_def set_active_def slots_ok_def)
  next
    case (Inactive i)
    with m show ?thesis by (simp add: kept sched_step_def waiting_def slots_ok_def slot_unchanged)
  next
    case Choose
    have "m_task_queue_pending m \<noteq> []" if "m_pending m > 0"
      using m that Choose by (auto simp: kept split: main_pc.splits)
    with m Choose show ?thesis
      by (auto simp: kept sched_step_def waiting_def slots_ok_def slot_unchanged dest!: free_slot_Some split: option.splits)
  next
    case (Create j)
    obtain f fs where q: "m_task_queue_pending m = f # fs"
      using m Create by (cases "m_task_queue_pending m") (simp_all add: manager_inv_def slots_ok_def)
    let ?t = "(?ts ! j)\<lparr>th := Started f\<rparr>"
    have j: "j < length ?ts" "\<not> active (?ts ! j)" using m Create by (simp_all add: manager_inv_def slots_ok_def)
    then have free: "th (?ts ! j) = No_thread" using ok [OF j(1)] Create by (simp add: slot_ok_def)
    have n: "not_run ?t = [f]" "not_run (?ts ! j) = []" using free by (simp_all add: not_run_def)
    have st: "mset (started (?ts[j := ?t])) = mset (started ?ts) + {#f#}"
        "length ?ts = 1 \<Longrightarrow> started (?ts[j := ?t]) = [f] \<and> started ?ts = []"
      using started_update(1) [OF j(1), of ?t] started_update(2) [OF j(1), of ?t] started_update(3) [OF j(1)] n by auto
    have oc: "occupied (?ts[j := ?t]) = occupied ?ts + 1" using occupied_update [OF j(1), of ?t] free by simp
    have sl: "slot_ok (Pop j) k (?ts[j := ?t] ! k)" if "k < length ?ts" for k
      using ok [OF that] Create that j(2) by (cases "k = j") (auto simp: slot_ok_def)
    have w: "waiting m = f # fs" "waiting (sched_step m) = fs" using Create q by (simp_all add: waiting_def sched_step_def)
    have s: "m_task_queue_running (sched_step m) = ?ts[j := ?t]" "sched_at (sched_step m) = Pop j"
        "submitted (sched_step m) = submitted m" "ran (sched_step m) = ran m" "m_requests (sched_step m) = m_requests m"
        "m_pending (sched_step m) = m_pending m" "main_at (sched_step m) = main_at m"
        "m_task_queue_pending (sched_step m) = f # fs"
      using Create q by (simp_all add: sched_step_def set_thread_def)
    have "tasks_kept (sched_step m)" using m st w s by (auto simp: kept)
    moreover have "requests_kept (sched_step m)" using m oc w s Create by (simp add: kept)
    moreover have "pending_kept (sched_step m)" using m s Create q by (simp add: kept)
    moreover have "slots_ok (sched_step m)" using s sl j(1) by (simp add: slots_ok_def)
    ultimately show ?thesis by (simp add: manager_inv_def)
  next
    case (Pop j)
    show ?thesis
    proof (cases "submitting m")
      case True
      with m Pop show ?thesis by (simp add: sched_step_def)
    next
      case False
      have q: "m_task_queue_pending m \<noteq> []" "j < length ?ts" using m Pop by (simp_all add: manager_inv_def slots_ok_def)
      have "slot_ok (Activate j) k (?ts ! k)" if "k < length ?ts" for k
        using ok [OF that] Pop by (auto simp: slot_ok_def)
      with m Pop False q show ?thesis
        by (auto simp: kept sched_step_def waiting_def slots_ok_def neq_Nil_conv)
    qed
  next
    case (Activate j)
    let ?t = "(?ts ! j)\<lparr>active := True\<rparr>"
    have j: "j < length ?ts" using m Activate by (simp add: manager_inv_def slots_ok_def)
    have n: "not_run ?t = not_run (?ts ! j)" "th ?t = th (?ts ! j)" by (simp_all add: not_run_def)
    have "slot_ok Uncount k (?ts[j := ?t] ! k)" if "k < length ?ts" for k
      using ok [OF that] Activate that by (cases "k = j") (auto simp: slot_ok_def)
    then show ?thesis
      using m Activate started_same [OF j n(1)] occupied_update [OF j, of ?t] n(2)
      by (simp add: kept waiting_def sched_step_def set_active_def slots_ok_def)
  next
    case Uncount
    with m show ?thesis by (simp add: kept sched_step_def waiting_def slots_ok_def slot_unchanged)
  next
    case Left
    with m show ?thesis by (simp add: sched_step_def)
  qed
qed

lemma manager_step_inv: "manager_step m m' \<Longrightarrow> manager_inv m \<Longrightarrow> manager_inv m'"
  by (induction rule: manager_step.induct)
    (simp_all add: begin_submit_inv synchronizes_inv stops_inv main_step_inv sched_step_inv worker_step_inv)

lemma reaches_inv: "reaches n m \<Longrightarrow> manager_inv m"
  by (induction rule: reaches.induct) (auto intro: new_manager_inv manager_step_inv)

lemma steps_keep_slots:
  "length (m_task_queue_running (main_step m)) = length (m_task_queue_running m)"
  "length (m_task_queue_running (sched_step m)) = length (m_task_queue_running m)"
  "length (m_task_queue_running (worker_step i m)) = length (m_task_queue_running m)"
  "m_task_queue_running (begin_submit f m) = m_task_queue_running m"
  by (simp_all add: main_step_def sched_step_def worker_step_def begin_submit_def set_thread_def set_active_def Let_def
      split: main_pc.splits sched_pc.splits option.splits thread.splits)

lemma reaches_slots: "reaches n m \<Longrightarrow> length (m_task_queue_running m) = n"
proof (induction rule: reaches.induct)
  case starts
  show ?case by (simp add: new_manager_def)
next
  case (continues m m')
  from continues(2,3) show ?case by (cases rule: manager_step.cases) (simp_all add: steps_keep_slots)
qed

section \<open>synchronize\<close>

text \<open>With no request left everything that was submitted has been run, and no thread is left.\<close>

lemma occupied_zero: "occupied ts = 0 \<longleftrightarrow> (\<forall>t \<in> set ts. th t = No_thread)"
  by (simp add: occupied_def filter_empty_conv)

lemma started_idle: "\<forall>t \<in> set ts. th t = No_thread \<Longrightarrow> started ts = []"
  by (simp add: started_def not_run_def)

lemma no_requests:
  assumes m: "manager_inv m" and z: "m_requests m \<le> 0"
  shows "m_task_queue_pending m = []" "mset (ran m) = mset (submitted m)"
    "length (m_task_queue_running m) = 1 \<longrightarrow> ran m = submitted m"
    "\<forall>t \<in> set (m_task_queue_running m). \<not> active t \<and> th t = No_thread"
proof -
  let ?ts = "m_task_queue_running m"
  have occ: "0 \<le> occupied ?ts" by (simp add: occupied_def)
  have k: "requests_kept m" using m by (simp add: manager_inv_def)
  have "int (length (waiting m)) + occupied ?ts + (if \<exists>i. sched_at m = Joined i then 1 else 0) \<le> m_requests m"
    using k by (simp add: requests_kept_def split: sched_pc.splits main_pc.splits)
  moreover have "0 \<le> (if \<exists>i. sched_at m = Joined i then 1 else 0 :: int)" by simp
  ultimately have "int (length (waiting m)) \<le> 0" and o: "occupied ?ts = 0"
    and j': "(if \<exists>i. sched_at m = Joined i then 1 else 0 :: int) \<le> 0"
    using occ z by linarith+
  then have w: "waiting m = []" by simp
  from j' have j: "sched_at m \<noteq> Joined i" for i by (auto split: if_splits)
  have idle: "\<forall>t \<in> set ?ts. th t = No_thread" using o by (simp add: occupied_zero)
  have sl: "slot_ok (sched_at m) i (?ts ! i)" if "i < length ?ts" for i
    using m that by (simp add: manager_inv_def slots_ok_def)
  have pop: "sched_at m \<noteq> Pop i" "sched_at m \<noteq> Activate i" for i
  proof -
    have "i < length ?ts" if "sched_at m = Pop i \<or> sched_at m = Activate i"
      using m that by (auto simp: manager_inv_def slots_ok_def)
    with sl [of i] idle show "sched_at m \<noteq> Pop i" "sched_at m \<noteq> Activate i"
      by (auto simp: slot_ok_def)
  qed
  show "m_task_queue_pending m = []" using w pop(1) by (auto simp: waiting_def split: sched_pc.splits)
  show "mset (ran m) = mset (submitted m)" "length ?ts = 1 \<longrightarrow> ran m = submitted m"
    using m w started_idle [OF idle] by (simp_all add: manager_inv_def tasks_kept_def)
  show "\<forall>t \<in> set ?ts. \<not> active t \<and> th t = No_thread"
  proof
    fix t assume "t \<in> set ?ts"
    then obtain i where i: "i < length ?ts" "t = ?ts ! i" by (auto simp: in_set_conv_nth)
    then show "\<not> active t \<and> th t = No_thread" using sl [OF i(1)] idle j pop by (auto simp: slot_ok_def)
  qed
qed

text \<open>
  C19. When synchronize returns, every function that was submitted has been run once and its thread
  has been joined; with one slot, as the fault tolerance module has it, they ran in the order in
  which they were submitted. This holds for every interleaving of the three kinds of threads.
\<close>

theorem synchronize_waits_for_all:
  assumes "reaches n m" "main_at m = Reads_requests" "main_at (main_step m) = Outside"
  shows "mset (ran m) = mset (submitted m) \<and> (n = 1 \<longrightarrow> ran m = submitted m) \<and>
     m_task_queue_pending m = [] \<and> (\<forall>t \<in> set (m_task_queue_running m). \<not> active t \<and> th t = No_thread)"
proof -
  have "m_requests m \<le> 0" using assms(2,3) by (simp add: main_step_def split: if_splits)
  from no_requests [OF reaches_inv [OF assms(1)] this] reaches_slots [OF assms(1)] show ?thesis by blast
qed

text \<open>A run with one slot: a function is submitted, started, run and joined while synchronize waits.\<close>

lemma reaches_main: "reaches n m \<Longrightarrow> reaches n (main_step m)"
  by (rule continues [OF _ manager_step.main])

lemma reaches_sched: "reaches n m \<Longrightarrow> reaches n ((sched_step ^^ k) m)"
  by (induction k) (auto intro: continues [OF _ manager_step.schedules])

lemma reaches_worker: "reaches n m \<Longrightarrow> i < n \<Longrightarrow> reaches n (worker_step i m)"
  using reaches_slots by (auto intro: continues [OF _ manager_step.works])

definition example_run :: "int manager" where
  "example_run =
     (let m = main_step (main_step (begin_submit 7 (new_manager 1)));
          m = main_step (m\<lparr>main_at := Reads_pending\<rparr>);
          m = worker_step 0 (worker_step 0 ((sched_step ^^ 8) m))
      in main_step ((sched_step ^^ 5) m))"

lemma example_run_reached: "reaches 1 example_run"
proof -
  have "reaches 1 (main_step (main_step (begin_submit (7 :: int) (new_manager 1))))" (is "reaches 1 ?a")
    by (intro reaches_main continues [OF starts submits]) (simp add: new_manager_def)
  moreover have "main_at ?a = Outside" by (simp add: main_step_def begin_submit_def)
  ultimately have "reaches 1 (?a\<lparr>main_at := Reads_pending\<rparr>)" by (blast intro: continues synchronizes)
  then show ?thesis
    unfolding example_run_def Let_def by (intro reaches_main reaches_sched reaches_worker) simp_all
qed


text \<open>The states of this run, by what changes in them.\<close>

definition at_run :: "int \<Rightarrow> int \<Rightarrow> int list \<Rightarrow> bool \<Rightarrow> int thread \<Rightarrow> int main_pc \<Rightarrow> sched_pc \<Rightarrow> int list \<Rightarrow> int manager" where
  "at_run requests pending queue b t pc spc run =
     \<lparr>m_online = True, m_requests = requests, m_pending = pending, m_task_queue_pending = queue,
      m_task_queue_running = [\<lparr>active = b, th = t\<rparr>], main_at = pc, sched_at = spc, submitted = [7], ran = run\<rparr>"

lemmas run_simps = at_run_def sched_step_def Let_def set_thread_def set_active_def is_ready_def submitting_def

lemma example_run_stages:
  "main_step ((main_step (main_step (begin_submit 7 (new_manager 1))))\<lparr>main_at := Reads_pending\<rparr>) =
     at_run 1 1 [7] False No_thread Reads_pending Loop []"
  "(sched_step ^^ 4) (at_run 1 1 [7] False No_thread Reads_pending Loop []) =
     at_run 1 1 [7] False No_thread Reads_pending (Create 0) []"
  "(sched_step ^^ 4) (at_run 1 1 [7] False No_thread Reads_pending (Create 0) []) =
     at_run 1 0 [] True (Started 7) Reads_pending Loop []"
  "worker_step 0 (worker_step 0 (at_run 1 0 [] True (Started 7) Reads_pending Loop [])) =
     at_run 1 0 [] True (Ready 7) Reads_pending Loop [7]"
  "(sched_step ^^ 5) (at_run 1 0 [] True (Ready 7) Reads_pending Loop [7]) =
     at_run 0 0 [] False No_thread Reads_pending Choose [7]"
  "main_step (at_run 0 0 [] False No_thread Reads_pending Choose [7]) =
     at_run 0 0 [] False No_thread Reads_requests Choose [7]"
  by (simp_all add: run_simps main_step_def begin_submit_def new_manager_def worker_step_def
      eval_nat_numeral replicate_Suc [of 0, simplified])

lemma example_run_end: "example_run = at_run 0 0 [] False No_thread Reads_requests Choose [7]"
proof -
  have "(sched_step ^^ 8) m = (sched_step ^^ 4) ((sched_step ^^ 4) m)" for m :: "int manager"
    using funpow_add [of 4 4 "sched_step :: int manager \<Rightarrow> int manager"] by simp
  then show ?thesis unfolding example_run_def Let_def by (simp only: example_run_stages)
qed

lemma synchronize_waits_for_all_witness:
  "ran example_run = submitted example_run \<and> m_task_queue_pending example_run = [] \<and> submitted example_run = [7]"
  using synchronize_waits_for_all [OF example_run_reached]
  by (simp add: example_run_end at_run_def main_step_def)

end
