(* ===== verification/FaultTolerance.thy ===== *)
theory FaultTolerance
  imports Communicators Ckpt Field ThreadManager
begin

text \<open>
  The fault tolerance module of the server (server/FTmodule.cxx, compiled in with FTI): which
  buffers it registers with the FTI library, where in the global dataset each belongs, and the
  incremental checkpoint it writes during a time step. The calls of FTI are listed in the order of
  the program; with WITH\_FTI\_THREADS those of a checkpoint are submitted to the thread manager,
  which runs them in this order (theory ThreadManager).
\<close>

datatype buffer = Epoch_counter | Background nat nat

datatype fti_call = FTI_Init | FTI_DefineGlobalDataset int nat string | FTI_Protect int buffer nat
  | FTI_AddSubset int nat nat int | FTI_InitICP int | FTI_AddVarICP int | FTI_FinalizeICP
  | FTI_Recover | FTI_Finalize

record ft_module =
  with_threads :: bool
  m_checkpointing :: bool
  id_map :: "string \<rightharpoonup> int"
  m_restart :: bool
  m_id_offset :: int
  m_protected :: bool
  id_check :: "string set"
  ft_calls :: "fti_call list"

text \<open>The module is a global object: its members start as zero.\<close>

definition new_FTmodule :: "bool \<Rightarrow> ft_module" where
  "new_FTmodule threads =
     \<lparr>with_threads = threads, m_checkpointing = False, id_map = Map.empty, m_restart = False, m_id_offset = 0,
      m_protected = False, id_check = {}, ft_calls = []\<rparr>"

definition fti_do :: "fti_call list \<Rightarrow> ft_module \<Rightarrow> ft_module" where
  "fti_do cs m = m\<lparr>ft_calls := ft_calls m @ cs\<rparr>"

definition ft_init :: "'c mpi \<Rightarrow> 'c \<Rightarrow> int \<Rightarrow> 'c mpi_manager \<Rightarrow> ft_module \<Rightarrow> (ft_module \<times> 'c mpi_manager) res" where
  "ft_init lib fti_comm FTI_Status mpi m =
     (let m = fti_do [FTI_Init] (m\<lparr>m_checkpointing := False, id_check := {}\<rparr>);
          key = (if with_threads m then ''fti_comm_dup'' else ''fti_comm'')
      in and_then (set_comm lib key (register_comm key fti_comm mpi)) (\<lambda>mpi.
      let off = m_id_offset m;
          m = fti_do [FTI_DefineGlobalDataset off 1 ''epoch_counter'', FTI_Protect off Epoch_counter 1,
                    FTI_AddSubset off 0 1 off] m
      in Inr (m\<lparr>m_id_offset := off + 1, m_restart := FTI_Status \<noteq> 0, m_protected := False\<rparr>, mpi)))"

section \<open>protect\_background\<close>

text \<open>The bytes of the global dataset are split evenly over the server ranks.\<close>

definition ft_vect_sizes_server :: "nat \<Rightarrow> nat \<Rightarrow> nat list" where
  "ft_vect_sizes_server comm_size_server global_vect_size =
     map (\<lambda>i. let n_rest = global_vect_size - global_vect_size div comm_size_server * comm_size_server
              in global_vect_size div comm_size_server + (if i < n_rest then 1 else 0))
       [0..<comm_size_server]"

text \<open>One member: the parts of this rank, each as a subset of the dataset of the member.\<close>

definition dataset_name :: "string \<Rightarrow> int \<Rightarrow> string" where
  "dataset_name name state = name @ CHR ''_'' # dec state"

definition subset_name :: "string \<Rightarrow> int \<Rightarrow> int \<Rightarrow> string" where
  "subset_name name state runner_rank = dataset_name name state @ CHR ''_'' # dec runner_rank"

fun protect_parts :: "string \<Rightarrow> nat \<Rightarrow> int \<Rightarrow> part list \<Rightarrow> nat \<Rightarrow> int \<Rightarrow> ft_module \<Rightarrow> int \<times> ft_module" where
  "protect_parts name member dataset_id [] offset subset_id m = (subset_id, m)"
| "protect_parts name member dataset_id (p # ps) offset subset_id m =
     (let offset = size64 (int offset + int (local_offset_server p));
          m = fti_do [FTI_Protect subset_id (Background member (local_offset_server p)) (send_count p),
                    FTI_AddSubset subset_id offset (send_count p) dataset_id] m;
          m = m\<lparr>id_map := (id_map m)(name @ CHR ''_'' # dec (rank_runner p) \<mapsto> subset_id)\<rparr>
      in protect_parts name member dataset_id ps offset (subset_id + 1) m)"

fun protect_members :: "int \<Rightarrow> field \<Rightarrow> nat \<Rightarrow> nat \<Rightarrow> int \<Rightarrow> nat \<Rightarrow> ft_module \<Rightarrow> ft_module" where
  "protect_members rank f offset_base 0 subset_id member m = m"
| "protect_members rank f offset_base (Suc k) subset_id member m =
     (let dataset_id = int member + m_id_offset m;
          name = dataset_name (field_name f) (dataset_id - m_id_offset m);
          m = fti_do [FTI_DefineGlobalDataset dataset_id (globalVectSize f) name] m;
          (subset_id, m) = protect_parts name member dataset_id
             (filter (\<lambda>p. rank = rank_server p) (parts f)) offset_base subset_id m
      in protect_members rank f offset_base k subset_id (Suc member) m)"

definition protect_background :: "nat \<Rightarrow> nat \<Rightarrow> field \<Rightarrow> ft_module \<Rightarrow> ft_module" where
  "protect_background comm_size rank f m =
     (let offset_base = sum_list (take rank (ft_vect_sizes_server comm_size (globalVectSize f)))
      in (protect_members (int rank) f offset_base (length (ensemble_members f)) (m_id_offset m) 0 m)
           \<lparr>m_protected := True\<rparr>)"

section \<open>The checkpoint of a time step\<close>

text \<open>A name that is not in the map gets the id 0.\<close>

definition id_of :: "string \<Rightarrow> ft_module \<Rightarrow> int \<times> ft_module" where
  "id_of key m =
     (case id_map m key of Some i \<Rightarrow> (i, m) | None \<Rightarrow> (0, m\<lparr>id_map := (id_map m)(key \<mapsto> 0)\<rparr>))"

definition store_subset :: "string \<Rightarrow> int \<Rightarrow> int \<Rightarrow> ft_module \<Rightarrow> ft_module" where
  "store_subset name state_id runner_rank m =
     (if m_checkpointing m then
        let key = subset_name name state_id runner_rank in
        if key \<notin> id_check m then
          let (i, m) = id_of key m in (fti_do [FTI_AddVarICP i] m)\<lparr>id_check := insert key (id_check m)\<rparr>
        else m
      else m)"

definition initCP :: "int \<Rightarrow> ft_module \<Rightarrow> ft_module" where
  "initCP epoch m =
     (if \<not> m_checkpointing m then
        fti_do (FTI_InitICP epoch # map FTI_AddVarICP [0..m_id_offset m - 1])
          (m\<lparr>id_check := {}, m_checkpointing := True\<rparr>)
      else m)"

definition flushCP :: "ft_module \<Rightarrow> ft_module" where
  "flushCP m = (if with_threads m \<and> m_checkpointing m then fti_do [FTI_FinalizeICP] m else m)"

definition finalizeCP :: "ft_module \<Rightarrow> ft_module" where
  "finalizeCP m =
     (if m_checkpointing m then
        (if with_threads m then m else fti_do [FTI_FinalizeICP] m)\<lparr>m_checkpointing := False\<rparr>
      else m)"

definition ft_recover :: "ft_module \<Rightarrow> ft_module" where
  "ft_recover m = (if m_restart m \<and> m_protected m then (fti_do [FTI_Recover] m)\<lparr>m_restart := False\<rparr> else m)"

definition ft_finalize :: "ft_module \<Rightarrow> ft_module" where
  "ft_finalize m = fti_do [FTI_Finalize] m"

text \<open>What the server does with it: a response is stored, a time step ends.\<close>

datatype ft_event = Response_stored int int | Filter_update | Next_time_step int | Finished

definition ft_handle :: "string \<Rightarrow> ft_event \<Rightarrow> ft_module \<Rightarrow> ft_module" where
  "ft_handle name e m =
     (case e of
        Response_stored sid r \<Rightarrow> store_subset name sid r m
      | Finished \<Rightarrow> ft_recover m
      | Filter_update \<Rightarrow> finalizeCP (flushCP m)
      | Next_time_step epoch \<Rightarrow> initCP epoch m)"

section \<open>What is protected\<close>

lemma fti_do_simps [simp]:
  "ft_calls (fti_do cs m) = ft_calls m @ cs" "id_map (fti_do cs m) = id_map m" "m_id_offset (fti_do cs m) = m_id_offset m"
  "m_checkpointing (fti_do cs m) = m_checkpointing m" "id_check (fti_do cs m) = id_check m"
  "with_threads (fti_do cs m) = with_threads m" "m_restart (fti_do cs m) = m_restart m"
  "m_protected (fti_do cs m) = m_protected m"
  by (simp_all add: fti_do_def)

text \<open>What the loops leave alone.\<close>

definition same_module :: "ft_module \<Rightarrow> ft_module \<Rightarrow> bool" where
  "same_module m m' \<longleftrightarrow> m_id_offset m' = m_id_offset m \<and> m_checkpointing m' = m_checkpointing m \<and>
     id_check m' = id_check m \<and> with_threads m' = with_threads m \<and> m_restart m' = m_restart m \<and> set (ft_calls m) \<subseteq> set (ft_calls m')"

lemma same_module_trans: "same_module m m' \<Longrightarrow> same_module m' m'' \<Longrightarrow> same_module m m''"
  by (auto simp: same_module_def)

lemma protect_parts_frame:
  "protect_parts name i d ps offset sid m = (sid', m') \<Longrightarrow> sid' = sid + int (length ps) \<and> same_module m m' \<and>
     (\<forall>key. (\<forall>p \<in> set ps. key \<noteq> name @ CHR ''_'' # dec (rank_runner p)) \<longrightarrow> id_map m' key = id_map m key)"
proof (induction ps arbitrary: offset sid m)
  case Nil
  then show ?case by (simp add: same_module_def)
next
  case (Cons p ps)
  from Cons.IH [OF Cons.prems [unfolded protect_parts.simps Let_def]] show ?case
    by (auto simp: same_module_def)
qed

lemma protect_parts_calls:
  "protect_parts name i d ps offset sid m = (sid', m') \<Longrightarrow> k < length ps \<Longrightarrow>
     FTI_Protect (sid + int k) (Background i (local_offset_server (ps ! k))) (send_count (ps ! k)) \<in> set (ft_calls m') \<and>
     FTI_AddSubset (sid + int k) (size64 (int offset + int (sum_list (map local_offset_server (take (Suc k) ps)))))
       (send_count (ps ! k)) d \<in> set (ft_calls m')"
proof (induction ps arbitrary: offset sid m k)
  case (Cons p ps)
  let ?off = "size64 (int offset + int (local_offset_server p))"
  note rest = Cons.prems(1) [unfolded protect_parts.simps Let_def]
  show ?case
  proof (cases k)
    case 0
    from protect_parts_frame [OF rest] 0 show ?thesis by (auto simp: same_module_def)
  next
    case (Suc j)
    have "size64 (int ?off + x) = size64 (int offset + int (local_offset_server p) + x)" for x
      by (simp add: size64_def mod_simps)
    then show ?thesis using Cons.IH [OF rest, of j] Cons.prems(2) Suc by (simp add: algebra_simps)
  qed
qed simp

lemma protect_parts_ids:
  "protect_parts name i d ps offset sid m = (sid', m') \<Longrightarrow> distinct (map rank_runner ps) \<Longrightarrow> k < length ps \<Longrightarrow>
     id_map m' (name @ CHR ''_'' # dec (rank_runner (ps ! k))) = Some (sid + int k)"
proof (induction ps arbitrary: offset sid m k)
  case (Cons p ps)
  note rest = Cons.prems(1) [unfolded protect_parts.simps Let_def]
  show ?case
  proof (cases k)
    case 0
    have "\<forall>q \<in> set ps. rank_runner q \<noteq> rank_runner p" using Cons.prems(2) by (simp add: image_iff) metis
    then have "\<forall>q \<in> set ps. name @ CHR ''_'' # dec (rank_runner p) \<noteq> name @ CHR ''_'' # dec (rank_runner q)" by auto
    with 0 conjunct2 [OF conjunct2 [OF protect_parts_frame [OF rest]]] show ?thesis by simp
  next
    case (Suc j)
    with Cons.IH [OF rest, of j] Cons.prems(2,3) show ?thesis by simp
  qed
qed simp

text \<open>Names of subsets differ for different states or runner ranks.\<close>

lemma no_underscore_nat: "CHR ''_'' \<notin> set (dec_nat n)"
proof (induction n rule: dec_nat.induct)
  case (1 n)
  have d: "CHR ''_'' \<noteq> digit k" if "k < 10" for k
    unfolding digit_def using that by (intro notI, drule_tac arg_cong [of _ _ "of_char :: char \<Rightarrow> nat"]) simp
  show ?case using d [of n] d [of "n mod 10"] 1 by (subst dec_nat.simps) simp
qed

lemma no_underscore: "CHR ''_'' \<notin> set (dec i)"
  using no_underscore_nat by (simp add: dec_def)

lemma split_underscore:
  assumes "xs @ CHR ''_'' # us = ys @ CHR ''_'' # vs" "CHR ''_'' \<notin> set xs" "CHR ''_'' \<notin> set ys"
  shows "xs = ys \<and> us = vs"
proof -
  have "takeWhile (\<lambda>c. c \<noteq> CHR ''_'') (xs @ CHR ''_'' # us) = xs" "takeWhile (\<lambda>c. c \<noteq> CHR ''_'') (ys @ CHR ''_'' # vs) = ys"
    using assms(2,3) by (auto simp: takeWhile_append)
  with assms(1) show ?thesis by simp
qed

lemma subset_name_inj: "subset_name name i r = subset_name name j q \<longleftrightarrow> i = j \<and> r = q"
  using split_underscore [of "dec i" "dec r" "dec j" "dec q"] no_underscore
  by (auto simp: subset_name_def dataset_name_def)

definition own_parts :: "int \<Rightarrow> field \<Rightarrow> part list" where
  "own_parts rank f = filter (\<lambda>p. rank = rank_server p) (parts f)"

lemma protect_members_frame:
  "m' = protect_members rank f base cnt sid member m \<Longrightarrow> same_module m m' \<and>
     (\<forall>i r. i < int member \<longrightarrow> id_map m' (subset_name (field_name f) i r) = id_map m (subset_name (field_name f) i r))"
proof (induction cnt arbitrary: sid member m)
  case 0
  then show ?case by (simp add: same_module_def)
next
  case (Suc cnt)
  let ?name = "dataset_name (field_name f) (int member)"
  let ?m1 = "fti_do [FTI_DefineGlobalDataset (int member + m_id_offset m) (globalVectSize f) ?name] m"
  obtain sid2 m2 where p: "protect_parts ?name member (int member + m_id_offset m) (own_parts rank f) base sid ?m1 = (sid2, m2)"
    by fastforce
  note fr = protect_parts_frame [OF p]
  have m': "m' = protect_members rank f base cnt sid2 (Suc member) m2"
    using Suc.prems p by (simp add: own_parts_def)
  note IH = Suc.IH [OF m']
  have "same_module m m2" using fr by (auto simp: same_module_def)
  then have a: "same_module m m'" using IH same_module_trans by blast
  have "id_map m' (subset_name (field_name f) i r) = id_map m (subset_name (field_name f) i r)" if i: "i < int member" for i r
  proof -
    have "\<forall>p \<in> set (own_parts rank f). subset_name (field_name f) i r \<noteq> ?name @ CHR ''_'' # dec (rank_runner p)"
      using subset_name_inj [of "field_name f" i r "int member"] i by (auto simp: subset_name_def)
    then have "id_map m2 (subset_name (field_name f) i r) = id_map m (subset_name (field_name f) i r)" using fr by simp
    with IH i show ?thesis by simp
  qed
  with a show ?case by blast
qed

lemma protect_members_ok:
  "m' = protect_members rank f base cnt sid member m \<Longrightarrow> i < cnt \<Longrightarrow> k < length (own_parts rank f) \<Longrightarrow>
     (let p = own_parts rank f ! k; id = sid + int (i * length (own_parts rank f) + k) in
      FTI_Protect id (Background (member + i) (local_offset_server p)) (send_count p) \<in> set (ft_calls m') \<and>
      FTI_AddSubset id (size64 (int base + int (sum_list (map local_offset_server (take (Suc k) (own_parts rank f))))))
        (send_count p) (int (member + i) + m_id_offset m) \<in> set (ft_calls m') \<and>
      (distinct (map rank_runner (own_parts rank f)) \<longrightarrow>
         id_map m' (subset_name (field_name f) (int (member + i)) (rank_runner p)) = Some id))"
proof (induction cnt arbitrary: sid member m i)
  case (Suc cnt)
  let ?name = "dataset_name (field_name f) (int member)" and ?ps = "own_parts rank f"
  let ?m1 = "fti_do [FTI_DefineGlobalDataset (int member + m_id_offset m) (globalVectSize f) ?name] m"
  obtain sid2 m2 where p: "protect_parts ?name member (int member + m_id_offset m) ?ps base sid ?m1 = (sid2, m2)"
    by fastforce
  note fr = protect_parts_frame [OF p]
  have m': "m' = protect_members rank f base cnt sid2 (Suc member) m2"
    using Suc.prems(1) p by (simp add: own_parts_def)
  show ?case
  proof (cases i)
    case 0
    note later = protect_members_frame [OF m']
    have "id_map m' (subset_name (field_name f) (int member) (rank_runner (?ps ! k))) = Some (sid + int k)"
      if "distinct (map rank_runner ?ps)"
      using later protect_parts_ids [OF p that Suc.prems(3)] by (simp add: subset_name_def)
    with 0 protect_parts_calls [OF p Suc.prems(3)] later show ?thesis by (auto simp: same_module_def Let_def)
  next
    case (Suc j)
    have "m_id_offset m2 = m_id_offset m" "sid2 = sid + int (length ?ps)" using fr by (simp_all add: same_module_def)
    with Suc.IH [OF m', of j] Suc.prems(2,3) Suc show ?thesis by (simp add: Let_def algebra_simps)
  qed
qed simp

section \<open>A checkpoint is complete\<close>

lemma store_subset_known:
  assumes "m_checkpointing m" "id_map m (subset_name name s r) = Some i"
  shows "store_subset name s r m = (if subset_name name s r \<in> id_check m then m
     else (fti_do [FTI_AddVarICP i] m)\<lparr>id_check := insert (subset_name name s r) (id_check m)\<rparr>)"
  using assms by (simp add: store_subset_def id_of_def Let_def)

text \<open>Each subset is added when it is stored for the first time.\<close>

lemma stores_add_once:
  assumes "m_checkpointing m" "id_check m = {}"
    and "\<And>s r. (s, r) \<in> set rs \<Longrightarrow> id_map m (subset_name name s r) = Some (g (s, r))"
  shows "\<exists>ps. distinct ps \<and> set ps = set rs \<and>
     fold (\<lambda>(s, r). store_subset name s r) rs m = (fti_do (map (\<lambda>p. FTI_AddVarICP (g p)) ps) m)
       \<lparr>id_check := (\<lambda>(s, r). subset_name name s r) ` set rs\<rparr>"
  using assms(3)
proof (induction rs rule: rev_induct)
  case Nil
  show ?case using assms(2) by (intro exI [of _ "[]"]) (simp add: fti_do_def)
next
  case (snoc x rs)
  obtain s r where x: "x = (s, r)" by fastforce
  let ?keys = "(\<lambda>(s, r). subset_name name s r) ` set rs"
  obtain ps where ps: "distinct ps" "set ps = set rs"
      "fold (\<lambda>(s, r). store_subset name s r) rs m = (fti_do (map (\<lambda>p. FTI_AddVarICP (g p)) ps) m)\<lparr>id_check := ?keys\<rparr>"
    using snoc by auto
  let ?m = "(fti_do (map (\<lambda>p. FTI_AddVarICP (g p)) ps) m)\<lparr>id_check := ?keys\<rparr>"
  have k: "subset_name name s r \<in> ?keys \<longleftrightarrow> x \<in> set rs" by (auto simp: x subset_name_inj)
  have st: "store_subset name s r ?m = (if x \<in> set rs then ?m
      else (fti_do [FTI_AddVarICP (g x)] ?m)\<lparr>id_check := insert (subset_name name s r) ?keys\<rparr>)"
    using store_subset_known [of ?m name s r "g x"] assms(1) snoc.prems [of s r] k by (simp add: x)
  show ?case
  proof (cases "x \<in> set rs")
    case True
    then have "insert (subset_name name s r) ?keys = ?keys" using k by auto
    with True ps st show ?thesis by (intro exI [of _ ps]) (auto simp: x insert_absorb)
  next
    case False
    with ps st show ?thesis by (intro exI [of _ "ps @ [x]"]) (auto simp: x fti_do_def)
  qed
qed

lemma subset_ids:
  fixes off :: int
  assumes "0 < n"
  shows "inj_on (\<lambda>(s, k). off + s * int n + int k) ({0..<int N} \<times> {0..<n})"
    "(\<lambda>(s, k). off + s * int n + int k) ` ({0..<int N} \<times> {0..<n}) = {off..<off + int (N * n)}"
proof -
  show "inj_on (\<lambda>(s, k). off + s * int n + int k) ({0..<int N} \<times> {0..<n})"
  proof (rule inj_onI, clarify)
    fix s k t j assume a: "s \<in> {0..<int N}" "k \<in> {0..<n}" "t \<in> {0..<int N}" "j \<in> {0..<n}"
      and e: "off + s * int n + int k = off + t * int n + int j"
    have "(s * int n + int k) div int n = s" "(t * int n + int j) div int n = t" using a by simp_all
    with e have "s = t" by simp
    with e show "s = t \<and> k = j" by simp
  qed
  show "(\<lambda>(s, k). off + s * int n + int k) ` ({0..<int N} \<times> {0..<n}) = {off..<off + int (N * n)}"
  proof (rule set_eqI, rule iffI)
    fix x assume "x \<in> (\<lambda>(s, k). off + s * int n + int k) ` ({0..<int N} \<times> {0..<n})"
    then obtain s k where x: "x = off + s * int n + int k" "0 \<le> s" "s < int N" "k < n" by auto
    have "s * int n + int k < (s + 1) * int n" using x(4) by (simp add: algebra_simps)
    also have "\<dots> \<le> int N * int n" using x(3) by (intro mult_right_mono) auto
    finally show "x \<in> {off..<off + int (N * n)}" using x by simp
  next
    fix x assume x: "x \<in> {off..<off + int (N * n)}"
    let ?s = "(x - off) div int n" and ?k = "nat ((x - off) mod int n)"
    have e: "x - off = ?s * int n + (x - off) mod int n" "0 \<le> (x - off) mod int n" using assms by simp_all
    have "?s < int N"
    proof (rule ccontr)
      assume "\<not> ?s < int N"
      then have "int N * int n \<le> ?s * int n" by (intro mult_right_mono) auto
      moreover have "x - off < int N * int n" using x by simp
      ultimately show False using e by linarith
    qed
    moreover have "0 \<le> ?s" using x assms by (simp add: pos_imp_zdiv_nonneg_iff)
    moreover have "?k < n" using assms by (simp add: nat_less_iff)
    moreover have "x = off + ?s * int n + int ?k" using assms by simp
    ultimately show "x \<in> (\<lambda>(s, k). off + s * int n + int k) ` ({0..<int N} \<times> {0..<n})"
      by (intro image_eqI [of _ _ "(?s, ?k)"]) auto
  qed
qed

lemma image_second: "(\<lambda>(s, r). (s, h r)) ` (A \<times> B) = A \<times> h ` B"
  by force

lemma inj_on_second: "inj_on h B \<Longrightarrow> inj_on (\<lambda>(s, r). (s, h r)) (A \<times> B)"
  by (auto simp: inj_on_def)

text \<open>
  C22. The checkpoint of a time step is complete. Once the background states are protected and a
  restart is behind the server, a time
  step in which every part of every ensemble state is stored, in any order and with repetitions,
  writes one checkpoint between FTI\_InitICP and FTI\_FinalizeICP, which has every protected subset
  exactly once: first those of the globals, then each part of each member; with and without the
  scheduler thread.
\<close>

theorem checkpoint_is_complete:
  assumes "0 \<le> m_id_offset m0" "distinct (map rank_runner (own_parts (int rank) f))" "own_parts (int rank) f \<noteq> []"
    and "id_map m = id_map (protect_background c rank f m0)" "m_id_offset m = m_id_offset m0" "\<not> m_checkpointing m"
    and "set rs = {0..<int (length (ensemble_members f))} \<times> set (map rank_runner (own_parts (int rank) f))"
    and "es = Next_time_step epoch # map (\<lambda>(s, r). Response_stored s r) rs @ [Finished, Filter_update]"
    and "\<not> m_restart m"
  shows "\<exists>ids. ft_calls (fold (ft_handle (field_name f)) es m) =
       ft_calls m @ FTI_InitICP epoch # map FTI_AddVarICP ids @ [FTI_FinalizeICP] \<and> distinct ids \<and>
     set ids = {0..<m_id_offset m + int (length (ensemble_members f) * length (own_parts (int rank) f))} \<and>
     \<not> m_checkpointing (fold (ft_handle (field_name f)) es m)"
proof -
  let ?ps = "own_parts (int rank) f" and ?N = "length (ensemble_members f)" and ?off = "m_id_offset m"
  let ?n = "length ?ps" and ?name = "field_name f"
  let ?base = "sum_list (take rank (ft_vect_sizes_server c (globalVectSize f)))"
  define h where "h = (\<lambda>r. THE k. k < ?n \<and> rank_runner (?ps ! k) = r)"
  have h: "h (rank_runner (?ps ! k)) = k" if "k < ?n" for k
    unfolding h_def
  proof (rule the_equality)
    fix j assume "j < ?n \<and> rank_runner (?ps ! j) = rank_runner (?ps ! k)"
    then show "j = k" using nth_eq_iff_index_eq [OF assms(2), of j k] that by simp
  qed (use that in simp)
  let ?g = "\<lambda>(s, r). ?off + s * int ?n + int (h r)"
  have ids: "id_map m (subset_name ?name s r) = Some (?g (s, r))" if sr: "(s, r) \<in> set rs" for s r
  proof -
    obtain k where k: "k < ?n" "r = rank_runner (?ps ! k)" using sr assms(7) by (auto simp: in_set_conv_nth)
    have s: "0 \<le> s" "nat s < ?N" using sr assms(7) by auto
    have "id_map m (subset_name ?name (int (0 + nat s)) r) = Some (?off + int (nat s * ?n + k))"
      using protect_members_ok [OF refl s(2) k(1), where base = ?base and sid = ?off and member = 0 and m = m0] assms(2,4,5) k(2)
      by (simp add: protect_background_def Let_def)
    then show ?thesis using s h [OF k(1)] k(2) by (simp add: algebra_simps)
  qed
  let ?i = "initCP epoch m"
  have i: "?i = fti_do (FTI_InitICP epoch # map FTI_AddVarICP [0..?off - 1]) (m\<lparr>id_check := {}, m_checkpointing := True\<rparr>)"
    using assms(6) by (simp add: initCP_def)
  have f: "fold (ft_handle ?name) (map (\<lambda>(s, r). Response_stored s r) rs) t = fold (\<lambda>(s, r). store_subset ?name s r) rs t"
    for t
    by (induction rs arbitrary: t) (auto simp: ft_handle_def)
  obtain qs where qs: "distinct qs" "set qs = set rs"
      "fold (\<lambda>(s, r). store_subset ?name s r) rs ?i = (fti_do (map (\<lambda>p. FTI_AddVarICP (?g p)) qs) ?i)
         \<lparr>id_check := (\<lambda>(s, r). subset_name ?name s r) ` set rs\<rparr>"
    using stores_add_once [of ?i rs ?name ?g] ids i by auto
  let ?ids = "[0..?off - 1] @ map ?g qs"
  let ?last = "fold (ft_handle ?name) es m"
  have "?last = finalizeCP (flushCP (ft_recover (fold (\<lambda>(s, r). store_subset ?name s r) rs ?i)))"
    unfolding assms(8) by (simp add: f ft_handle_def)
  note this [unfolded qs(3)]
  then have e: "ft_calls ?last = ft_calls m @ FTI_InitICP epoch # map FTI_AddVarICP ?ids @ [FTI_FinalizeICP]"
      "\<not> m_checkpointing ?last"
    unfolding i by (simp_all add: ft_recover_def assms(9) finalizeCP_def flushCP_def comp_def)
  let ?P = "{0..<int ?N} \<times> {0..<?n}" and ?lin = "\<lambda>(s, k). ?off + s * int ?n + int k"
  let ?to = "\<lambda>(s, r). (s, h r)"
  have to: "?to ` set qs = ?P" "inj_on ?to (set qs)"
  proof -
    have hr: "h ` set (map rank_runner ?ps) = {0..<?n}" "inj_on h (set (map rank_runner ?ps))"
    proof -
      have "set (map rank_runner ?ps) = (\<lambda>k. rank_runner (?ps ! k)) ` {0..<?n}"
        using nth_image [of ?n ?ps] image_image [of rank_runner "(!) ?ps" "{0..<?n}"] by simp
      moreover have "(h \<circ> (\<lambda>k. rank_runner (?ps ! k))) ` {0..<?n} = {0..<?n}" using h by force
      ultimately show "h ` set (map rank_runner ?ps) = {0..<?n}" by (simp add: image_comp)
      show "inj_on h (set (map rank_runner ?ps))"
        by (rule inj_onI) (use h in \<open>auto simp: in_set_conv_nth\<close>)
    qed
    show "?to ` set qs = ?P" unfolding qs(2) assms(7) image_second hr(1) by (rule refl)
    show "inj_on ?to (set qs)" unfolding qs(2) assms(7) by (rule inj_on_second [OF hr(2)])
  qed
  have n: "0 < ?n" using assms(3) by simp
  have g: "?g p = ?lin (?to p)" for p by (simp add: split_def)
  have img: "?g ` set qs = {?off..<?off + int (?N * ?n)}"
    unfolding g image_image [symmetric, of ?lin ?to] to(1) by (rule subset_ids(2) [OF n])
  have inj: "inj_on ?g (set qs)"
    using comp_inj_on [OF to(2), of ?lin] subset_ids(1) [OF n, of ?off ?N] to(1) by (simp add: comp_def split_def)
  have off: "0 \<le> ?off" using assms(1,5) by simp
  have "set (map ?g qs) = {?off..<?off + int (?N * ?n)}" unfolding set_map by (rule img)
  moreover have "distinct (map ?g qs)" unfolding distinct_map using qs(1) inj by simp
  moreover have "set [0..?off - 1] = {0..<?off}" by auto
  moreover have "{0..<?off} \<union> {?off..<?off + int (?N * ?n)} = {0..<?off + int (?N * ?n)}"
    by (rule ivl_disj_un_two(3)) (use off in simp_all)
  ultimately have "distinct ?ids" "set ?ids = {0..<?off + int (?N * ?n)}"
    unfolding distinct_append set_append by simp_all
  with e assms(5) show ?thesis by (intro exI [of _ ?ids]) simp
qed

text \<open>On rank 0 of two, where runner rank 0 has one part and runner rank 1 the other, with the counter at id 0.\<close>

definition example_ft :: ft_module where
  "example_ft = protect_background 2 0 example_ready ((new_FTmodule False)\<lparr>m_id_offset := 1\<rparr>)"

definition example_stores :: "(int \<times> int) list" where
  "example_stores = [(0, 0), (1, 1), (0, 1), (0, 0), (1, 0)]"

definition example_events :: "ft_event list" where
  "example_events = Next_time_step 5 # map (\<lambda>(s, r). Response_stored s r) example_stores @ [Finished, Filter_update]"

lemma example_own: "map rank_runner (own_parts 0 example_ready) = [0, 1]" "length (own_parts 0 example_ready) = 2" "length (ensemble_members example_ready) = 2"
  by (simp_all add: own_parts_def example_ready_def example_parts_def)

lemma protect_background_keeps:
  "m_id_offset (protect_background c rank f m) = m_id_offset m"
  "m_checkpointing (protect_background c rank f m) = m_checkpointing m"
  "m_restart (protect_background c rank f m) = m_restart m"
  using protect_members_frame [OF refl] by (simp_all add: protect_background_def Let_def same_module_def)

lemma checkpoint_is_complete_witness:
  "\<exists>ids. ft_calls (fold (ft_handle ''state'') example_events example_ft) =
       ft_calls example_ft @ FTI_InitICP 5 # map FTI_AddVarICP ids @ [FTI_FinalizeICP] \<and> distinct ids \<and>
     set ids = {0..<5}"
proof -
  have n: "own_parts 0 example_ready \<noteq> []" using example_own(2) by auto
  have f: "field_name example_ready = ''state''" by (simp add: example_ready_def example_field_def)
  have "set example_stores = {0..<int 2} \<times> set [0, 1]" by (auto simp: example_stores_def)
  with checkpoint_is_complete [of "(new_FTmodule False)\<lparr>m_id_offset := 1\<rparr>" 0 example_ready example_ft 2 example_stores
      example_events 5] show ?thesis
    using n by (force simp: example_own f example_ft_def protect_background_keeps new_FTmodule_def example_events_def)
qed

section \<open>The place of a part in the global dataset\<close>

text \<open>
  The loop over the parts adds the offset of each part to the offset of the one before, where it
  should add it to the offset of the rank.
\<close>

lemma offsets_add_up:
  assumes "2 \<le> k" "k < length ps"
  shows "local_offset_server (ps ! 1) + local_offset_server (ps ! k) \<le> sum_list (map local_offset_server (take (Suc k) ps))"
proof -
  have "local_offset_server (ps ! 1) \<in> set (map local_offset_server (take k ps))"
    using assms nth_mem [of 1 "take k ps"] by (simp add: image_iff del: nth_mem) force
  then have "local_offset_server (ps ! 1) \<le> sum_list (map local_offset_server (take k ps))" by (rule member_le_sum_list) simp
  then show ?thesis using assms by (simp add: take_Suc_conv_app_nth)
qed

text \<open>
  C34. A server rank that has three parts or more registers every part from the third on at a wrong
  place of the global dataset: behind the place it has in the state vector.
\<close>

theorem third_part_misplaced:
  assumes "i < length (ensemble_members f)" "2 \<le> k" "k < length (own_parts (int rank) f)"
    and "0 < local_offset_server (own_parts (int rank) f ! 1)"
    and "base = sum_list (take rank (ft_vect_sizes_server c (globalVectSize f)))"
    and "base + sum_list (map local_offset_server (own_parts (int rank) f)) < 2 ^ 64"
  shows "\<exists>off. FTI_AddSubset (m_id_offset m + int (i * length (own_parts (int rank) f) + k)) off
       (send_count (own_parts (int rank) f ! k)) (int i + m_id_offset m) \<in> set (ft_calls (protect_background c rank f m)) \<and>
     base + local_offset_server (own_parts (int rank) f ! k) < off"
proof -
  let ?ps = "own_parts (int rank) f"
  let ?sum = "sum_list (map local_offset_server (take (Suc k) ?ps))"
  have "sum_list (map local_offset_server ?ps) = ?sum + sum_list (map local_offset_server (drop (Suc k) ?ps))"
    by (simp add: sum_list_append [symmetric] map_append [symmetric] del: sum_list_append map_append)
  then have "size64 (int base + int ?sum) = base + ?sum" using assms(6) by (intro size64_add) simp
  moreover have "FTI_AddSubset (m_id_offset m + int (i * length ?ps + k)) (size64 (int base + int ?sum)) (send_count (?ps ! k))
      (int i + m_id_offset m) \<in> set (ft_calls (protect_background c rank f m))"
    using protect_members_ok [OF refl assms(1,3), where base = base and sid = "m_id_offset m" and member = 0 and m = m] assms(5)
    by (simp add: protect_background_def Let_def)
  moreover have "base + local_offset_server (?ps ! k) < base + ?sum" using offsets_add_up [OF assms(2,3)] assms(4) by simp
  ultimately show ?thesis by (intro exI [of _ "base + ?sum"]) simp
qed

text \<open>Three runner ranks with one byte each and one server rank: the last byte is registered outside the dataset.\<close>

definition example_three :: field where
  "example_three = example_field\<lparr>ensemble_members := [empty_member], local_vect_sizes_runner := [1, 1, 1],
     parts := map (\<lambda>i. \<lparr>rank_runner = int i, local_offset_runner = 0, rank_server = 0, local_offset_server = i, send_count = 1\<rparr>)
       [0..<3]\<rparr>"

lemma example_three_own: "own_parts 0 example_three = parts example_three" "length (ensemble_members example_three) = 1"
  by (simp_all add: own_parts_def example_three_def)

lemma new_offset: "m_id_offset (new_FTmodule b) = 0"
  by (simp add: new_FTmodule_def)

lemma third_part_misplaced_witness:
  "\<exists>off. FTI_AddSubset 2 off 1 0 \<in> set (ft_calls (protect_background 1 0 example_three (new_FTmodule False))) \<and>
     globalVectSize example_three \<le> off"
proof -
  let ?ps = "own_parts (int 0) example_three"
  have p: "send_count (?ps ! 2) = 1" "local_offset_server (?ps ! 2) = 2" "local_offset_server (?ps ! 1) = 1"
      "length ?ps = 3" "sum_list (map local_offset_server ?ps) = 3"
    by (simp_all add: example_three_own) (simp_all add: example_three_def upt_rec numeral_eq_Suc)
  have "\<exists>off. FTI_AddSubset 2 off 1 0 \<in> set (ft_calls (protect_background 1 0 example_three (new_FTmodule False))) \<and> 2 < off"
    using third_part_misplaced [of 0 example_three 2 0 0 1 "new_FTmodule False", unfolded p]
    by (simp add: example_three_own(2) new_offset numeral_2_eq_2 [symmetric])
  moreover have "globalVectSize example_three = 3" by (simp add: globalVectSize_def example_three_def sum_vec_def size64_def)
  ultimately show ?thesis by auto
qed

text \<open>The ranks share the bytes of the dataset, where the state vector is shared by elements.\<close>

lemma bytes_not_elements: "ft_vect_sizes_server 2 24 = [12, 12]" "even_split 2 3 8 = [16, 8]"
  by code_simp+

end
