(* ===== verification/Python.thy ===== *)
theory Python
  imports Prelude
begin

text \<open>
  What the program uses of the CPython and numpy interfaces, for the Python assimilator
  (server/PythonAssimilator.cxx) and the weight calculation (api/p2p/PythonInterface.h): the start
  of the interpreter, arrays that are views of memory of the program, and the conversion of results.
  The interpreter and the imported function are parameters; memory of the interpreter never ends.
\<close>

section \<open>The interpreter\<close>

text \<open>\<open>import_function\<close> gives the state of the interpreter with the callable of a module, if there is one.\<close>

record 'w python =
  numpy_matches :: bool
  python_env :: "string \<Rightarrow> string option"
  import_function :: "string \<Rightarrow> string \<Rightarrow> 'w option"

definition LONG_MAX :: int where
  "LONG_MAX = 2 ^ 63 - 1"

text \<open>err: a failed call, or an error that is pending in the interpreter, ends the process.\<close>

definition py_err :: "bool \<Rightarrow> bool \<Rightarrow> 'b res \<Rightarrow> 'b res" where
  "py_err no_fail pending k = (if \<not> no_fail \<or> pending then Inl Interrupted else k)"

definition start_python :: "int \<Rightarrow> string \<Rightarrow> string \<Rightarrow> nat \<Rightarrow> 'w python \<Rightarrow> 'w res" where
  "start_python rank variable fn n py =
     and_then (if numpy_matches py then Inr () else merr rank (Inr ())) (\<lambda>_.
      case python_env py variable of
        None \<Rightarrow> Inl (Exit 1)
      | Some name \<Rightarrow>
          (case import_function py name fn of
             None \<Rightarrow> Inl Interrupted
           | Some w \<Rightarrow> if int n \<ge> LONG_MAX then merr rank (Inr w) else Inr w))"

text \<open>What a Python function returns: an integer, a float or something else.\<close>

datatype 'd py_object = Py_int int | Py_float 'd | Py_other

text \<open>A result that is no integer, or too large, gives -1 and leaves an error pending.\<close>

definition PyLong_AsLong :: "'d py_object \<Rightarrow> int \<times> bool" where
  "PyLong_AsLong v =
     (case v of
        Py_int n \<Rightarrow> if - LONG_MAX - 1 \<le> n \<and> n \<le> LONG_MAX then (n, False) else (-1, True)
      | _ \<Rightarrow> (-1, True))"

section \<open>Arrays\<close>

text \<open>
  An array of one dimension is a view: its item k is the item np\_first + k * np\_stride of the
  memory np\_base refers to.
\<close>

record 'm np_array =
  np_base :: 'm
  np_first :: nat
  np_dims :: int
  np_stride :: nat

definition npy_intp :: "nat \<Rightarrow> int" where
  "npy_intp n = (int n + 2 ^ 63) mod 2 ^ 64 - 2 ^ 63"

text \<open>PyArray\_SimpleNewFromData with NPY\_UINT8 fails for a negative dimension.\<close>

definition new_byte_array :: "'m \<Rightarrow> nat \<Rightarrow> 'm np_array res" where
  "new_byte_array b n =
     py_err (0 \<le> npy_intp n) False (Inr \<lparr>np_base = b, np_first = 0, np_dims = npy_intp n, np_stride = 1\<rparr>)"

text \<open>A column of an index map of n entries, which has two integers for each.\<close>

definition new_column_array :: "'m \<Rightarrow> nat \<Rightarrow> nat \<Rightarrow> 'm np_array" where
  "new_column_array b column n = \<lparr>np_base = b, np_first = column, np_dims = npy_intp n, np_stride = 2\<rparr>"

definition index_ints :: "(int \<times> int) list \<Rightarrow> int list" where
  "index_ints ms = concat (map (\<lambda>(i, v). [i, v]) ms)"

definition read_array :: "'a list \<Rightarrow> 'm np_array \<Rightarrow> 'a list" where
  "read_array mem x = map (\<lambda>k. mem ! (np_first x + k * np_stride x)) [0..<nat (np_dims x)]"

text \<open>Python may store into an array of bytes; it cannot change how long it is.\<close>

definition write_array :: "'m np_array \<Rightarrow> 'a list \<Rightarrow> 'a list \<Rightarrow> 'a list" where
  "write_array x new mem = copy_into (np_first x) (take (nat (np_dims x)) new) mem"

definition array_inside :: "'m np_array \<Rightarrow> 'a list \<Rightarrow> bool" where
  "array_inside x mem \<longleftrightarrow> np_first x + nat (np_dims x) \<le> length mem"

lemma npy_intp_small: "n < 2 ^ 63 \<Longrightarrow> npy_intp n = int n"
  by (simp add: npy_intp_def)

lemma read_all: "n < 2 ^ 63 \<Longrightarrow> length mem = n \<Longrightarrow> new_byte_array b n = Inr x \<Longrightarrow> read_array mem x = mem"
  by (auto simp: new_byte_array_def read_array_def npy_intp_small py_err_def intro: nth_equalityI)

lemma write_all: "n < 2 ^ 63 \<Longrightarrow> length mem = n \<Longrightarrow> length new = n \<Longrightarrow> new_byte_array b n = Inr x \<Longrightarrow>
    write_array x new mem = new"
  by (auto simp: new_byte_array_def write_array_def npy_intp_small copy_into_def py_err_def)

lemma write_array_length: "array_inside x mem \<Longrightarrow> length (write_array x new mem) = length mem"
  by (simp add: write_array_def array_inside_def length_copy_into)

lemma index_ints_nth:
  assumes "k < length ms"
  shows "index_ints ms ! (k * 2) = fst (ms ! k)" "index_ints ms ! Suc (k * 2) = snd (ms ! k)"
  using assms
proof (induction ms arbitrary: k)
  case (Cons m ms)
  { case 1 show ?case using Cons.IH(1) [of "k - 1"] 1 by (cases k) (auto simp: index_ints_def split: prod.splits) }
  { case 2 show ?case using Cons.IH(2) [of "k - 1"] 2 by (cases k) (auto simp: index_ints_def split: prod.splits) }
qed simp_all

lemma read_columns:
  assumes "length ms < 2 ^ 63"
  shows "read_array (index_ints ms) (new_column_array b 0 (length ms)) = map fst ms"
    "read_array (index_ints ms) (new_column_array b 1 (length ms)) = map snd ms"
  using assms by (auto simp: read_array_def new_column_array_def npy_intp_small index_ints_nth
      intro!: nth_equalityI)

end
