(* ===== verification/PythonAssimilator.thy ===== *)
theory PythonAssimilator
  imports Assimilator Python
begin

text \<open>
  The assimilator that calls a Python function (server/PythonAssimilator.cxx). Its arrays are views
  of the memory of the ensemble members and of the index map of the field, made once by py::init.
\<close>

section \<open>The objects\<close>

text \<open>The vectors of the field an array can be a view of.\<close>

datatype member_memory = Member_background nat | Member_analysis nat | Member_hidden nat

fun memory_of :: "field \<Rightarrow> member_memory \<Rightarrow> byte list" where
  "memory_of f (Member_background i) = state_background (ensemble_members f ! i)"
| "memory_of f (Member_analysis i) = state_analysis (ensemble_members f ! i)"
| "memory_of f (Member_hidden i) = state_hidden (ensemble_members f ! i)"

definition set_member :: "nat \<Rightarrow> (ensemble_member \<Rightarrow> ensemble_member) \<Rightarrow> field \<Rightarrow> field" where
  "set_member i g f = f\<lparr>ensemble_members := (ensemble_members f)[i := g (ensemble_members f ! i)]\<rparr>"

fun set_memory :: "member_memory \<Rightarrow> byte list \<Rightarrow> field \<Rightarrow> field" where
  "set_memory (Member_background i) xs f = set_member i (\<lambda>em. em\<lparr>state_background := xs\<rparr>) f"
| "set_memory (Member_analysis i) xs f = set_member i (\<lambda>em. em\<lparr>state_analysis := xs\<rparr>) f"
| "set_memory (Member_hidden i) xs f = set_member i (\<lambda>em. em\<lparr>state_hidden := xs\<rparr>) f"

fun member_index :: "member_memory \<Rightarrow> nat" where
  "member_index (Member_background i) = i"
| "member_index (Member_analysis i) = i"
| "member_index (Member_hidden i) = i"

text \<open>The globals of namespace py; the function and its interpreter are \<open>py_world\<close>.\<close>

record 'w py_assimilator =
  py_nsteps :: int
  py_total_steps :: int
  py_world :: 'w
  py_error :: bool
  pEnsemble_list_background :: "member_memory np_array list"
  pEnsemble_list_analysis :: "member_memory np_array list"
  pEnsemble_list_hidden_inout :: "member_memory np_array list"
  pArray_assimilated_index :: "unit np_array"
  pArray_assimilated_varid :: "unit np_array"

text \<open>The arrays of the members from i on.\<close>

fun member_arrays :: "nat \<Rightarrow> nat \<Rightarrow> nat \<Rightarrow> nat \<Rightarrow>
    (member_memory np_array \<times> member_memory np_array \<times> member_memory np_array) list res" where
  "member_arrays d dh i 0 = Inr []"
| "member_arrays d dh i (Suc k) =
     and_then (new_byte_array (Member_background i) d) (\<lambda>b.
     and_then (new_byte_array (Member_analysis i) d) (\<lambda>a.
     and_then (new_byte_array (Member_hidden i) dh) (\<lambda>h.
     and_then (member_arrays d dh (Suc i) k) (\<lambda>xs. Inr ((b, a, h) # xs)))))"

definition new_PythonAssimilator :: "int \<Rightarrow> 'w python \<Rightarrow> int \<Rightarrow> field \<Rightarrow> 'w py_assimilator res" where
  "new_PythonAssimilator rank py steps f =
     and_then (start_python rank ''MELISSA_DA_PYTHON_ASSIMILATOR_MODULE'' ''callback'' (local_vect_size f) py) (\<lambda>w.
     and_then (member_arrays (local_vect_size f) (local_vect_size_hidden f) 0 (length (ensemble_members f))) (\<lambda>xs.
     Inr \<lparr>py_nsteps = 1, py_total_steps = steps, py_world = w, py_error = False,
          pEnsemble_list_background = map fst xs, pEnsemble_list_analysis = map (fst \<circ> snd) xs,
          pEnsemble_list_hidden_inout = map (snd \<circ> snd) xs,
          pArray_assimilated_index = new_column_array () 0 (length (local_index_map f)),
          pArray_assimilated_varid = new_column_array () 1 (length (local_index_map f))\<rparr>))"

section \<open>The update step\<close>

text \<open>
  The imported function gets the time, the three lists and the columns of the index map. It gives
  its result, none for an exception, and what it left in the arrays.
\<close>

type_synonym 'w callback = "int \<Rightarrow> byte list list \<Rightarrow> byte list list \<Rightarrow> byte list list \<Rightarrow> int list \<Rightarrow> int list \<Rightarrow> 'w \<Rightarrow>
    unit py_object option \<times> byte list list \<times> byte list list \<times> byte list list \<times> 'w"

definition read_arrays :: "field \<Rightarrow> member_memory np_array list \<Rightarrow> byte list list" where
  "read_arrays f xs = map (\<lambda>x. read_array (memory_of f (np_base x)) x) xs"

fun write_arrays :: "member_memory np_array list \<Rightarrow> byte list list \<Rightarrow> field \<Rightarrow> field" where
  "write_arrays (x # xs) (c # cs) f =
     write_arrays xs cs (set_memory (np_base x) (write_array x c (memory_of f (np_base x))) f)"
| "write_arrays xs cs f = f"

definition arrays_inside :: "field \<Rightarrow> member_memory np_array list \<Rightarrow> bool" where
  "arrays_inside f xs \<longleftrightarrow> (\<forall>x \<in> set xs. member_index (np_base x) < length (ensemble_members f) \<and>
     array_inside x (memory_of f (np_base x)))"

definition py_callback :: "'w callback \<Rightarrow> int \<Rightarrow> 'w py_assimilator \<Rightarrow> field \<Rightarrow> (int \<times> 'w py_assimilator \<times> field) res" where
  "py_callback fn current_step a f =
     py_err True (py_error a)
      (if \<not> arrays_inside f (pEnsemble_list_background a @ pEnsemble_list_analysis a @ pEnsemble_list_hidden_inout a)
       then Inl Undefined_behaviour
       else
         let ints = index_ints (local_index_map f) in
         (case fn current_step (read_arrays f (pEnsemble_list_background a)) (read_arrays f (pEnsemble_list_analysis a))
             (read_arrays f (pEnsemble_list_hidden_inout a)) (read_array ints (pArray_assimilated_index a))
             (read_array ints (pArray_assimilated_varid a)) (py_world a) of
            (result, bg, an, hid, w) \<Rightarrow>
              let f = write_arrays (pEnsemble_list_background a) bg f;
                  f = write_arrays (pEnsemble_list_analysis a) an f;
                  f = write_arrays (pEnsemble_list_hidden_inout a) hid f
              in (case result of
                    None \<Rightarrow> Inl Interrupted
                  | Some v \<Rightarrow> (case PyLong_AsLong v of
                      (n, e) \<Rightarrow> Inr (int32 n, a\<lparr>py_world := w, py_error := e\<rparr>, f)))))"

definition python_do_update_step :: "'w callback \<Rightarrow> int \<Rightarrow> 'w py_assimilator \<Rightarrow> field \<Rightarrow>
    (int \<times> 'w py_assimilator \<times> field) res" where
  "python_do_update_step fn current_step a f =
     and_then (py_callback fn current_step a f) (\<lambda>(n, a, f).
     Inr (if current_step \<ge> py_total_steps a then -1 else n, a, f))"

text \<open>The first state is stored in every member, as the WRF assimilator does it for the state of runner 0.\<close>

definition python_on_init_state :: "int \<Rightarrow> part \<Rightarrow> byte list option \<Rightarrow> part \<Rightarrow> byte list option \<Rightarrow> 'w py_assimilator \<Rightarrow>
    field \<Rightarrow> ('w py_assimilator \<times> field) res" where
  "python_on_init_state r p v h vh a f =
     and_then (map_members (wrf_init_member p v h vh) (ensemble_members f)) (\<lambda>ems.
     Inr (a, f\<lparr>ensemble_members := ems\<rparr>))"

definition python_ops :: "'w callback \<Rightarrow> 'w py_assimilator assimilator_ops" where
  "python_ops fn = \<lparr>on_init_state = python_on_init_state, do_update_step = python_do_update_step fn,
     getNSteps = py_nsteps\<rparr>"

section \<open>The shape of the field\<close>

lemma set_memory_shape:
  assumes "length xs = length (memory_of f x)"
  shows "same_shape f (set_memory x xs f)"
  using assms by (cases x) (simp_all add: set_member_def member_shape_def map_list_update_id same_shape_members)

lemma same_shape_memory:
  assumes "same_shape f f'" "member_index x < length (ensemble_members f)"
  shows "length (memory_of f' x) = length (memory_of f x)"
proof -
  have "map member_shape (ensemble_members f') = map member_shape (ensemble_members f)"
    using assms(1) by (simp add: same_shape_def)
  then have "member_shape (ensemble_members f' ! i) = member_shape (ensemble_members f ! i)"
    if "i < length (ensemble_members f)" for i
    using that by (metis length_map nth_map)
  with assms(2) show ?thesis by (cases x) (auto simp: member_shape_def)
qed

lemma same_shape_length: "same_shape f f' \<Longrightarrow> length (ensemble_members f') = length (ensemble_members f)"
  unfolding same_shape_def by (metis length_map)

lemma arrays_inside_shape: "same_shape f f' \<Longrightarrow> arrays_inside f xs \<Longrightarrow> arrays_inside f' xs"
  by (auto simp: arrays_inside_def array_inside_def same_shape_length same_shape_memory)

lemma write_arrays_shape: "arrays_inside f xs \<Longrightarrow> same_shape f (write_arrays xs cs f)"
proof (induction xs cs f rule: write_arrays.induct)
  case (1 x xs c cs f)
  let ?f = "set_memory (np_base x) (write_array x c (memory_of f (np_base x))) f"
  have s: "same_shape f ?f" using 1(2) by (intro set_memory_shape) (simp add: arrays_inside_def write_array_length)
  moreover have "arrays_inside ?f xs" using arrays_inside_shape [OF s 1(2)] by (simp add: arrays_inside_def)
  ultimately show ?case using 1(1) same_shape_trans by simp
qed simp_all

lemma py_callback_shape:
  assumes "py_callback fn step a f = Inr (n, a', f')" shows "same_shape f f'"
proof -
  let ?b = "pEnsemble_list_background a" and ?a = "pEnsemble_list_analysis a" and ?h = "pEnsemble_list_hidden_inout a"
  have i: "arrays_inside f (?b @ ?a @ ?h)" using assms by (auto simp: py_callback_def py_err_def split: if_splits)
  then have ia: "arrays_inside f ?b" "arrays_inside f ?a" "arrays_inside f ?h" by (simp_all add: arrays_inside_def)
  obtain bg an hid where f': "f' = write_arrays ?h hid (write_arrays ?a an (write_arrays ?b bg f))"
    using assms i by (auto simp: py_callback_def py_err_def Let_def split: prod.splits option.splits if_splits)
  have s1: "same_shape f (write_arrays ?b bg f)" by (rule write_arrays_shape [OF ia(1)])
  have s2: "same_shape f (write_arrays ?a an (write_arrays ?b bg f))"
    by (rule same_shape_trans [OF s1 write_arrays_shape [OF arrays_inside_shape [OF s1 ia(2)]]])
  show ?thesis unfolding f'
    by (rule same_shape_trans [OF s2 write_arrays_shape [OF arrays_inside_shape [OF s2 ia(3)]]])
qed

interpretation python: assimilator "python_ops fn" for fn
proof
  fix r p v h vh a f a' f'
  assume "on_init_state (python_ops fn) r p v h vh a f = Inr (a', f')"
  then show "same_shape f f'"
    by (auto simp: python_ops_def python_on_init_state_def and_then_Inr_iff intro!: same_shape_members
        map_members_shape wrf_init_member_shape)
next
  fix step a f n a' f'
  assume "do_update_step (python_ops fn) step a f = Inr (n, a', f')"
  then show "same_shape f f'"
    by (auto simp: python_ops_def python_do_update_step_def and_then_Inr_iff dest: py_callback_shape)
qed

section \<open>The function works on the members in place\<close>

definition byte_view :: "'m \<Rightarrow> nat \<Rightarrow> 'm np_array" where
  "byte_view b n = \<lparr>np_base = b, np_first = 0, np_dims = int n, np_stride = 1\<rparr>"

lemma new_byte_array_ok: "n < 2 ^ 63 \<Longrightarrow> new_byte_array b n = Inr (byte_view b n)"
  by (simp add: new_byte_array_def byte_view_def py_err_def npy_intp_small)

lemma member_arrays_ok:
  "d < 2 ^ 63 \<Longrightarrow> dh < 2 ^ 63 \<Longrightarrow> member_arrays d dh i k =
     Inr (map (\<lambda>j. (byte_view (Member_background j) d, byte_view (Member_analysis j) d, byte_view (Member_hidden j) dh))
       [i..<i + k])"
  by (induction k arbitrary: i) (simp_all add: new_byte_array_ok upt_rec)

lemma byte_view_inside: "length mem = d \<Longrightarrow> array_inside (byte_view b d) mem"
  by (simp add: array_inside_def byte_view_def)

lemma read_byte_view: "length mem = d \<Longrightarrow> read_array mem (byte_view b d) = mem"
  by (auto simp: read_array_def byte_view_def intro: nth_equalityI)

lemma write_byte_view: "length mem = d \<Longrightarrow> length c = d \<Longrightarrow> write_array (byte_view b d) c mem = c"
  by (simp add: write_array_def byte_view_def copy_into_def)

text \<open>A list of views with one view for each member, of the same one of its vectors.\<close>

definition views :: "(nat \<Rightarrow> member_memory) \<Rightarrow> nat \<Rightarrow> nat \<Rightarrow> nat \<Rightarrow> member_memory np_array list" where
  "views K d i k = map (\<lambda>j. byte_view (K j) d) [i..<i + k]"

lemma np_base_view [simp]: "np_base (byte_view b d) = b"
  by (simp add: byte_view_def)

lemma views_Suc: "views K d i (Suc k) = byte_view (K i) d # views K d (Suc i) k"
  by (simp add: views_def upt_rec)

lemma read_views:
  assumes "\<forall>j < length (ensemble_members f). length (memory_of f (K j)) = d"
    and "\<And>j. memory_of f (K j) = part_of_member (ensemble_members f ! j)"
  shows "read_arrays f (views K d 0 (length (ensemble_members f))) = map part_of_member (ensemble_members f)"
  using assms(1) unfolding assms(2)
  by (intro nth_equalityI) (simp_all add: read_arrays_def views_def read_byte_view assms(2))

lemma write_views:
  assumes K: "\<And>j xs f. set_memory (K j) xs f = set_member j (u xs) f" "\<And>j. member_index (K j) = j"
    and "length cs = k" "i + k = length (ensemble_members f)" "\<forall>c \<in> set cs. length c = d"
    and "\<forall>j < length (ensemble_members f). length (memory_of f (K j)) = d"
  shows "write_arrays (views K d i k) cs f =
     f\<lparr>ensemble_members := take i (ensemble_members f) @ map2 u cs (drop i (ensemble_members f))\<rparr>"
  using assms(3-6)
proof (induction k arbitrary: i cs f)
  case 0
  then show ?case by (simp add: views_def)
next
  case (Suc k)
  obtain c cs' where cs: "cs = c # cs'" using Suc.prems(1) by (cases cs) simp_all
  let ?ems = "ensemble_members f" and ?f = "set_member i (u c) f"
  have i: "i < length ?ems" "length (memory_of f (K i)) = d" "length c = d" using Suc.prems cs by auto
  have st: "set_memory (K i) c f = ?f" by (rule K(1))
  then have sh: "same_shape f ?f" using set_memory_shape [of c f "K i"] i by simp
  have len: "length (ensemble_members ?f) = length ?ems" by (simp add: set_member_def)
  have "\<forall>j < length (ensemble_members ?f). length (memory_of ?f (K j)) = d"
    using same_shape_memory [OF sh] Suc.prems(4) len K(2) by simp
  with Suc.IH [of cs' "Suc i" ?f] Suc.prems cs len have "write_arrays (views K d (Suc i) k) cs' ?f =
      ?f\<lparr>ensemble_members := take (Suc i) (ensemble_members ?f) @ map2 u cs' (drop (Suc i) (ensemble_members ?f))\<rparr>"
    by simp
  moreover have "take (Suc i) (ensemble_members ?f) = take i ?ems @ [u c (?ems ! i)]"
      "drop (Suc i) (ensemble_members ?f) = drop (Suc i) ?ems" "drop i ?ems = ?ems ! i # drop (Suc i) ?ems"
    using i(1) by (simp_all add: set_member_def take_Suc_conv_app_nth Cons_nth_drop_Suc)
  moreover have "?f\<lparr>ensemble_members := xs\<rparr> = f\<lparr>ensemble_members := xs\<rparr>" for xs by (simp add: set_member_def)
  ultimately show ?case by (simp add: views_Suc cs write_byte_view i st)
qed

lemma members_views:
  assumes "members_sized f" "j < length (ensemble_members f)"
  shows "length (memory_of f (Member_background j)) = local_vect_size f"
    "length (memory_of f (Member_analysis j)) = local_vect_size f"
    "length (memory_of f (Member_hidden j)) = local_vect_size_hidden f"
  using assms by (simp_all add: members_sized_def)

text \<open>The three lists written one after the other give every member its new vectors.\<close>

lemma write_all_views:
  assumes f: "members_sized f" and n: "n = length (ensemble_members f)"
    and l: "length bg = n" "length an = n" "length hid = n"
    and c: "\<forall>c \<in> set bg. length c = local_vect_size f" "\<forall>c \<in> set an. length c = local_vect_size f"
      "\<forall>c \<in> set hid. length c = local_vect_size_hidden f"
  shows "write_arrays (views Member_hidden (local_vect_size_hidden f) 0 n) hid
       (write_arrays (views Member_analysis (local_vect_size f) 0 n) an
         (write_arrays (views Member_background (local_vect_size f) 0 n) bg f)) =
     f\<lparr>ensemble_members := map (\<lambda>i. \<lparr>state_analysis = an ! i, state_background = bg ! i, state_hidden = hid ! i\<rparr>) [0..<n]\<rparr>"
proof -
  let ?b = "\<lambda>xs em. em\<lparr>state_background := xs\<rparr>" and ?a = "\<lambda>xs em. em\<lparr>state_analysis := xs\<rparr>"
    and ?h = "\<lambda>xs em. em\<lparr>state_hidden := xs\<rparr>"
  let ?m1 = "map2 ?b bg (ensemble_members f)"
  let ?m2 = "map2 ?a an ?m1"
  let ?f1 = "f\<lparr>ensemble_members := ?m1\<rparr>" and ?f2 = "f\<lparr>ensemble_members := ?m2\<rparr>"
  have s: "members_sized f" "members_sized ?f1" "members_sized ?f2"
    using f c n l by (auto simp: members_sized_def set_zip)
  have "write_arrays (views Member_background (local_vect_size f) 0 n) bg f = ?f1"
    using write_views [of Member_background ?b bg n 0 f "local_vect_size f"] l(1) c(1) n members_views(1) [OF s(1)] by simp
  moreover have "write_arrays (views Member_analysis (local_vect_size f) 0 n) an ?f1 = ?f2"
    using write_views [of Member_analysis ?a an n 0 ?f1 "local_vect_size f"] l c(2) n members_views(2) [OF s(2)] by simp
  moreover have "write_arrays (views Member_hidden (local_vect_size_hidden f) 0 n) hid ?f2 =
      ?f2\<lparr>ensemble_members := map2 ?h hid ?m2\<rparr>"
    using write_views [of Member_hidden ?h hid n 0 ?f2 "local_vect_size_hidden f"] l c(3) n members_views(3) [OF s(3)] by simp
  moreover have "map2 ?h hid ?m2 =
      map (\<lambda>i. \<lparr>state_analysis = an ! i, state_background = bg ! i, state_hidden = hid ! i\<rparr>) [0..<n]"
    using l n by (intro nth_equalityI) simp_all
  ultimately show ?thesis by simp
qed

lemma new_PythonAssimilator_views:
  assumes "new_PythonAssimilator rank py steps f = Inr a" "local_vect_size f < 2 ^ 63" "local_vect_size_hidden f < 2 ^ 63"
  shows "pEnsemble_list_background a = views Member_background (local_vect_size f) 0 (length (ensemble_members f))"
    "pEnsemble_list_analysis a = views Member_analysis (local_vect_size f) 0 (length (ensemble_members f))"
    "pEnsemble_list_hidden_inout a = views Member_hidden (local_vect_size_hidden f) 0 (length (ensemble_members f))"
    "pArray_assimilated_index a = new_column_array () 0 (length (local_index_map f))"
    "pArray_assimilated_varid a = new_column_array () 1 (length (local_index_map f))"
    "py_total_steps a = steps" "\<not> py_error a"
  using assms by (auto simp: new_PythonAssimilator_def and_then_Inr_iff member_arrays_ok views_def comp_def)

text \<open>
  C23. The Python function works on the ensemble in place. Created for a prepared field, the
  assimilator hands the function the background, analysis and hidden states of all members as they
  are at the update step, and the two columns of the index map; whatever the function stores into
  its arrays is what the members hold afterwards, nothing else of the field changes, and the result
  of the function is the number of steps unless the last step is reached.
\<close>

theorem python_works_in_place:
  assumes "new_PythonAssimilator rank py steps f0 = Inr a" "same_shape f0 f" "field_ready r f0"
    and "length (local_index_map f0) < 2 ^ 63" "N = length (ensemble_members f)"
    and "fn t (map state_background (ensemble_members f)) (map state_analysis (ensemble_members f))
       (map state_hidden (ensemble_members f)) (map fst (local_index_map f)) (map snd (local_index_map f)) w =
       (Some (Py_int n), bg, an, hid, w')"
    and "length bg = N" "length an = N" "length hid = N" "\<forall>c \<in> set bg \<union> set an. length c = local_vect_size f"
    and "\<forall>c \<in> set hid. length c = local_vect_size_hidden f" "- (2 ^ 31) \<le> n" "n < 2 ^ 31"
  shows "do_update_step (python_ops fn) t (a\<lparr>py_world := w\<rparr>) f =
     Inr (if t \<ge> steps then -1 else n, a\<lparr>py_world := w', py_error := False\<rparr>,
       f\<lparr>ensemble_members := map (\<lambda>i. \<lparr>state_analysis = an ! i, state_background = bg ! i, state_hidden = hid ! i\<rparr>) [0..<N]\<rparr>)"
proof -
  have f: "f = f0\<lparr>ensemble_members := ensemble_members f\<rparr>" using assms(2) by (simp add: same_shape_def)
  have same: "local_vect_size f = local_vect_size f0" "local_vect_size_hidden f = local_vect_size_hidden f0"
      "local_index_map f = local_index_map f0"
    by (subst f, simp)+
  have N: "length (ensemble_members f0) = N" using same_shape_length [OF assms(2)] assms(5) by simp
  have "field_ready r f" using same_shape_fields(3) [OF assms(2)] assms(3) by blast
  then have ms: "members_sized f" and small: "local_vect_size f < 2 ^ 63" "local_vect_size_hidden f < 2 ^ 63"
    by (simp_all add: field_ready_def)
  note v = new_PythonAssimilator_views [OF assms(1) small [unfolded same], folded same, unfolded N]
  note mv = members_views [OF ms, folded assms(5)]
  have rd: "read_arrays f (pEnsemble_list_background a) = map state_background (ensemble_members f)"
      "read_arrays f (pEnsemble_list_analysis a) = map state_analysis (ensemble_members f)"
      "read_arrays f (pEnsemble_list_hidden_inout a) = map state_hidden (ensemble_members f)"
    unfolding v assms(5) by (rule read_views; use mv assms(5) in simp)+
  have cols: "read_array (index_ints (local_index_map f)) (pArray_assimilated_index a) = map fst (local_index_map f)"
      "read_array (index_ints (local_index_map f)) (pArray_assimilated_varid a) = map snd (local_index_map f)"
    using read_columns [OF assms(4)] by (simp_all add: v same)
  have ins: "arrays_inside f (pEnsemble_list_background a @ pEnsemble_list_analysis a @ pEnsemble_list_hidden_inout a)"
    using mv assms(5) by (auto simp: arrays_inside_def v views_def intro!: byte_view_inside)
  have wr: "write_arrays (pEnsemble_list_hidden_inout a) hid (write_arrays (pEnsemble_list_analysis a) an
        (write_arrays (pEnsemble_list_background a) bg f)) =
      f\<lparr>ensemble_members := map (\<lambda>i. \<lparr>state_analysis = an ! i, state_background = bg ! i, state_hidden = hid ! i\<rparr>) [0..<N]\<rparr>"
    unfolding v by (rule write_all_views [OF ms assms(5,7-9)]) (use assms(10,11) in auto)
  have "int32 n = n" by (rule int32_id) (rule assms)+
  moreover have "PyLong_AsLong (Py_int n :: unit py_object) = (n, False)"
    using assms(12,13) by (simp add: PyLong_AsLong_def LONG_MAX_def)
  ultimately show ?thesis
    using v(6,7) by (simp add: python_ops_def python_do_update_step_def py_callback_def py_err_def ins rd cols assms(6) wr)
qed

text \<open>A function that copies the background to the analysis, on the two members of the small field.\<close>

definition copy_background :: "unit callback" where
  "copy_background t bg an hid ix vr w = (Some (Py_int 1), bg, bg, hid, w)"

definition example_python :: "unit python" where
  "example_python = \<lparr>numpy_matches = True, python_env = (\<lambda>v. Some ''script''), import_function = (\<lambda>m f. Some ())\<rparr>"

lemma python_works_in_place_witness:
  "\<exists>a. new_PythonAssimilator 0 example_python 5 example_ready = Inr a \<and>
     do_update_step (python_ops copy_background) 2 (a\<lparr>py_world := ()\<rparr>) example_ready =
       Inr (1, a\<lparr>py_world := (), py_error := False\<rparr>, example_ready)"
proof -
  have sz: "local_vect_size example_ready = 2" "local_vect_size_hidden example_ready = 0"
      "length (local_index_map example_ready) = 2" "length (ensemble_members example_ready) = 2"
    by (simp_all add: example_ready_def example_field_def)
  have "\<exists>a. new_PythonAssimilator 0 example_python 5 example_ready = Inr a"
    by (simp add: new_PythonAssimilator_def start_python_def example_python_def LONG_MAX_def sz member_arrays_ok)
  then obtain a where a: "new_PythonAssimilator 0 example_python 5 example_ready = Inr a" by blast
  have ems: "ensemble_members example_ready =
      replicate 2 \<lparr>state_analysis = [0, 0], state_background = [0, 0], state_hidden = []\<rparr>"
    by (simp add: example_ready_def)
  have "do_update_step (python_ops copy_background) 2 (a\<lparr>py_world := ()\<rparr>) example_ready =
      Inr (if (2::int) \<ge> 5 then -1 else 1, a\<lparr>py_world := (), py_error := False\<rparr>,
        example_ready\<lparr>ensemble_members := map (\<lambda>i. \<lparr>state_analysis = (replicate 2 [0, 0]) ! i,
          state_background = (replicate 2 [0, 0]) ! i, state_hidden = (replicate 2 []) ! i\<rparr>) [0..<2]\<rparr>)"
    by (rule python_works_in_place [OF a same_shape_refl example_ready_field]) (simp_all add: sz ems copy_background_def)
  moreover have "example_ready\<lparr>ensemble_members := map (\<lambda>i. \<lparr>state_analysis = (replicate 2 [0, 0]) ! i,
          state_background = (replicate 2 [0, 0]) ! i, state_hidden = (replicate 2 []) ! i\<rparr>) [0..<2]\<rparr> = example_ready"
    using ems by (simp add: numeral_2_eq_2 example_ready_def)
  ultimately show ?thesis using a by auto
qed

text \<open>
  A function without a number as its result ends the assimilation: the conversion gives -1, and the
  error it leaves is looked at in the next update step only.
\<close>

lemma callback_without_number:
  assumes "arrays_inside f (pEnsemble_list_background a @ pEnsemble_list_analysis a @ pEnsemble_list_hidden_inout a)"
    and "\<not> py_error a" "\<And>bg an hid ix vr. fst (fn t bg an hid ix vr (py_world a)) = Some Py_other"
  shows "\<exists>a' f'. do_update_step (python_ops fn) t a f = Inr (-1, a', f')"
proof -
  let ?ints = "index_ints (local_index_map f)"
  obtain r bg an hid w where c: "fn t (read_arrays f (pEnsemble_list_background a)) (read_arrays f (pEnsemble_list_analysis a))
      (read_arrays f (pEnsemble_list_hidden_inout a)) (read_array ?ints (pArray_assimilated_index a))
      (read_array ?ints (pArray_assimilated_varid a)) (py_world a) = (r, bg, an, hid, w)"
    by (metis prod_cases5)
  then have "r = Some Py_other" using assms(3) by (metis fst_conv)
  with c assms(1,2) show ?thesis
    by (simp add: python_ops_def python_do_update_step_def py_callback_def py_err_def PyLong_AsLong_def int32_def Let_def)
qed

end
