(* ===== verification/Create.thy ===== *)
theory Create
  imports PythonAssimilator
begin

text \<open>
  Assimilator::create (server/Assimilator.cxx): the server chooses one of the assimilators and calls
  it through the virtual methods. Here is also the constructor of the PDAF assimilator
  (server/PDAFAssimilator.cxx), which needs the library before the first time step.
\<close>

section \<open>The constructor of the PDAF assimilator\<close>

text \<open>
  The library is initialised with the sizes in doubles, the number of members, the first columns of
  the index maps and the number of steps. It fills the hidden state of a member on request.
\<close>

record 'p pdaf_start =
  init_pdaf :: "int \<Rightarrow> int \<Rightarrow> int \<Rightarrow> int list \<Rightarrow> int \<Rightarrow> int list \<Rightarrow> int \<Rightarrow> 'p"
  init_ens_hidden :: "int \<Rightarrow> int \<Rightarrow> nat \<Rightarrow> 'p \<Rightarrow> byte list \<times> 'p"

definition fill_hidden :: "nat \<Rightarrow> byte list \<Rightarrow> ensemble_member \<Rightarrow> ensemble_member res" where
  "fill_hidden n written em =
     and_then (write_at 0 (8 * n) (Some (resize (8 * n) 0 written)) (state_hidden em)) (\<lambda>hid.
     Inr (em\<lparr>state_hidden := hid\<rparr>))"

fun init_hidden_members :: "'p pdaf_start \<Rightarrow> int \<Rightarrow> int \<Rightarrow> nat \<Rightarrow> 'p \<Rightarrow> ensemble_member list \<Rightarrow>
    ('p \<times> ensemble_member list) res" where
  "init_hidden_members st n ensemble_size member_id p [] = Inr (p, [])"
| "init_hidden_members st n ensemble_size member_id p (em # ems) =
     (case init_ens_hidden st n ensemble_size member_id p of (written, p) \<Rightarrow>
        and_then (fill_hidden (nat n) written em) (\<lambda>em'.
        and_then (init_hidden_members st n ensemble_size (Suc member_id) p ems) (\<lambda>(p, ems').
        Inr (p, em' # ems'))))"

definition new_PDAFAssimilator :: "'p pdaf \<Rightarrow> 'p pdaf_start \<Rightarrow> int \<Rightarrow> field \<Rightarrow> ('p pdaf_assimilator \<times> field) res" where
  "new_PDAFAssimilator pd st steps f =
     (let n_global = int32 (int (globalVectSize f div 8));
          n = int32 (int (local_vect_size f div 8));
          n_hidden = int32 (int (local_vect_size_hidden f div 8));
          ensemble_size = int32 (int (length (ensemble_members f)));
          p = init_pdaf st n_global n ensemble_size (map fst (local_index_map f)) n_hidden
                (map fst (local_index_map_hidden f)) steps
      in and_then (getAllEnsembleMembers pd (local_vect_size f div 8) (-1) p (ensemble_members f)) (\<lambda>(ns, p, ems).
         and_then (if n_hidden > 0 then init_hidden_members st n_hidden ensemble_size 0 p ems else Inr (p, ems))
          (\<lambda>(p, ems). Inr (\<lparr>pd_nsteps = ns, pd_state = p\<rparr>, f\<lparr>ensemble_members := ems\<rparr>))))"

lemma init_hidden_members_shape:
  "init_hidden_members st n k i p ems = Inr (p', ems') \<Longrightarrow> map member_shape ems' = map member_shape ems"
  by (induction st n k i p ems arbitrary: p' ems' rule: init_hidden_members.induct)
    (fastforce simp: and_then_Inr_iff fill_hidden_def member_shape_def split: prod.splits dest: write_at_length)+

lemma new_PDAFAssimilator_shape:
  assumes "new_PDAFAssimilator pd st steps f = Inr (a, f')" shows "same_shape f f'"
  using assms
  by (auto simp: new_PDAFAssimilator_def Let_def and_then_Inr_iff split: if_splits
      intro!: same_shape_members dest!: init_hidden_members_shape getAllEnsembleMembers_shape)

section \<open>create\<close>

datatype ('p, 'w) any_assimilator = Dummy stepper | Pdaf "'p pdaf_assimilator" | Empty stepper
  | Check_stateless check_stateless | Print_index_map stepper | Wrf stepper | Python "'w py_assimilator"

text \<open>The libraries of the assimilators: doubles, PDAF and Python.\<close>

record ('p, 'w) libraries =
  double_add :: "64 word \<Rightarrow> 64 word \<Rightarrow> 64 word"
  double_of_int :: "int \<Rightarrow> 64 word"
  the_pdaf :: "'p pdaf"
  the_pdaf_start :: "'p pdaf_start"
  the_python :: "'w python"
  the_callback :: "'w callback"

text \<open>The constructors of the assimilators that only set the members.\<close>

definition new_PrintIndexMapAssimilator :: "int \<Rightarrow> field \<Rightarrow> stepper \<times> field" where
  "new_PrintIndexMapAssimilator steps f = (\<lparr>nsteps = 1, total_steps = steps\<rparr>, update_members (map zero_analysis) f)"

definition create_assimilator :: "assimilator_type \<Rightarrow> ('p, 'w) libraries \<Rightarrow> int \<Rightarrow> int \<Rightarrow> field \<Rightarrow>
    (('p, 'w) any_assimilator \<times> field) res" where
  "create_assimilator ty lib steps rank f =
     (case ty of
        ASSIMILATOR_DUMMY \<Rightarrow> Inr (map_prod Dummy id (new_DummyAssimilator steps f))
      | ASSIMILATOR_PDAF \<Rightarrow>
          and_then (new_PDAFAssimilator (the_pdaf lib) (the_pdaf_start lib) steps f) (\<lambda>x. Inr (map_prod Pdaf id x))
      | ASSIMILATOR_EMPTY \<Rightarrow> Inr (map_prod Empty id (new_EmptyAssimilator steps f))
      | ASSIMILATOR_CHECK_STATELESS \<Rightarrow> Inr (Check_stateless (new_CheckStatelessAssimilator f), f)
      | ASSIMILATOR_PRINT_INDEX_MAP \<Rightarrow> Inr (map_prod Print_index_map id (new_PrintIndexMapAssimilator steps f))
      | ASSIMILATOR_WRF \<Rightarrow> Inr (map_prod Wrf id (new_WrfAssimilator steps f))
      | ASSIMILATOR_PYTHON \<Rightarrow>
          and_then (new_PythonAssimilator rank (the_python lib) steps f) (\<lambda>a. Inr (Python a, f)))"

section \<open>The virtual methods\<close>

text \<open>A method of a class, on the object in its place in the sum.\<close>

definition through_init :: "'a assimilator_ops \<Rightarrow> ('a \<Rightarrow> 'b) \<Rightarrow> int \<Rightarrow> part \<Rightarrow> byte list option \<Rightarrow> part \<Rightarrow>
    byte list option \<Rightarrow> 'a \<Rightarrow> field \<Rightarrow> ('b \<times> field) res" where
  "through_init ops c r p v h vh a f = and_then (on_init_state ops r p v h vh a f) (\<lambda>(a, f). Inr (c a, f))"

definition through_update :: "'a assimilator_ops \<Rightarrow> ('a \<Rightarrow> 'b) \<Rightarrow> int \<Rightarrow> 'a \<Rightarrow> field \<Rightarrow> (int \<times> 'b \<times> field) res" where
  "through_update ops c step a f = and_then (do_update_step ops step a f) (\<lambda>(n, a, f). Inr (n, c a, f))"

definition any_ops :: "('p, 'w) libraries \<Rightarrow> ('p, 'w) any_assimilator assimilator_ops" where
  "any_ops lib = \<lparr>
     on_init_state = (\<lambda>r p v h vh x f. case x of
         Dummy a \<Rightarrow> through_init (dummy_ops (double_add lib) (double_of_int lib)) Dummy r p v h vh a f
       | Pdaf a \<Rightarrow> through_init (pdaf_ops (the_pdaf lib)) Pdaf r p v h vh a f
       | Empty a \<Rightarrow> through_init empty_ops Empty r p v h vh a f
       | Check_stateless a \<Rightarrow> through_init check_ops Check_stateless r p v h vh a f
       | Print_index_map a \<Rightarrow> through_init print_ops Print_index_map r p v h vh a f
       | Wrf a \<Rightarrow> through_init wrf_ops Wrf r p v h vh a f
       | Python a \<Rightarrow> through_init (python_ops (the_callback lib)) Python r p v h vh a f),
     do_update_step = (\<lambda>step x f. case x of
         Dummy a \<Rightarrow> through_update (dummy_ops (double_add lib) (double_of_int lib)) Dummy step a f
       | Pdaf a \<Rightarrow> through_update (pdaf_ops (the_pdaf lib)) Pdaf step a f
       | Empty a \<Rightarrow> through_update empty_ops Empty step a f
       | Check_stateless a \<Rightarrow> through_update check_ops Check_stateless step a f
       | Print_index_map a \<Rightarrow> through_update print_ops Print_index_map step a f
       | Wrf a \<Rightarrow> through_update wrf_ops Wrf step a f
       | Python a \<Rightarrow> through_update (python_ops (the_callback lib)) Python step a f),
     getNSteps = (\<lambda>x. case x of
         Dummy a \<Rightarrow> nsteps a | Pdaf a \<Rightarrow> pd_nsteps a | Empty a \<Rightarrow> nsteps a | Check_stateless a \<Rightarrow> cs_nsteps a
       | Print_index_map a \<Rightarrow> nsteps a | Wrf a \<Rightarrow> nsteps a | Python a \<Rightarrow> py_nsteps a)\<rparr>"

lemma through_shape:
  assumes "assimilator ops"
  shows "through_init ops c r p v h vh a f = Inr (b, f') \<Longrightarrow> same_shape f f'"
    "through_update ops c step a f = Inr (n, b, f') \<Longrightarrow> same_shape f f'"
  using assimilator.init_shape [OF assms] assimilator.update_shape [OF assms]
  by (auto simp: through_init_def through_update_def and_then_Inr_iff)

interpretation any: assimilator "any_ops lib" for lib
proof
  fix r p v h vh a f a' f'
  assume "on_init_state (any_ops lib) r p v h vh a f = Inr (a', f')"
  then show "same_shape f f'"
    by (cases a) (simp_all add: any_ops_def through_shape(1) [OF dummy.assimilator_axioms]
      through_shape(1) [OF pdaf.assimilator_axioms] through_shape(1) [OF empty.assimilator_axioms]
      through_shape(1) [OF check.assimilator_axioms] through_shape(1) [OF print.assimilator_axioms]
      through_shape(1) [OF wrf.assimilator_axioms] through_shape(1) [OF python.assimilator_axioms])
next
  fix step a f n a' f'
  assume "do_update_step (any_ops lib) step a f = Inr (n, a', f')"
  then show "same_shape f f'"
    by (cases a) (simp_all add: any_ops_def through_shape(2) [OF dummy.assimilator_axioms]
      through_shape(2) [OF pdaf.assimilator_axioms] through_shape(2) [OF empty.assimilator_axioms]
      through_shape(2) [OF check.assimilator_axioms] through_shape(2) [OF print.assimilator_axioms]
      through_shape(2) [OF wrf.assimilator_axioms] through_shape(2) [OF python.assimilator_axioms])
qed

section \<open>create on a prepared field\<close>

definition python_available :: "'w python \<Rightarrow> bool" where
  "python_available py \<longleftrightarrow> numpy_matches py \<and>
     (case python_env py ''MELISSA_DA_PYTHON_ASSIMILATOR_MODULE'' of
        None \<Rightarrow> False
      | Some name \<Rightarrow> import_function py name ''callback'' \<noteq> None)"

lemma update_members_shape: "(\<And>em. member_shape (g em) = member_shape em) \<Longrightarrow> same_shape f (update_members (map g) f)"
  by (simp add: update_members_def same_shape_members comp_def)

text \<open>
  Every assimilator but the one of PDAF, which asks its library, asks for one step first; its
  constructor succeeds and keeps the shape of the field. A Python assimilator needs its module.
\<close>

lemma create_conforms:
  assumes "field_ready r f" "ty \<noteq> ASSIMILATOR_PDAF" "ty = ASSIMILATOR_PYTHON \<longrightarrow> python_available (the_python lib)"
  shows "\<exists>a f'. create_assimilator ty lib steps rank f = Inr (a, f') \<and> same_shape f f' \<and> getNSteps (any_ops lib) a = 1"
proof -
  have small: "local_vect_size f < 2 ^ 63" "local_vect_size_hidden f < 2 ^ 63" "int (local_vect_size f) < LONG_MAX"
    using assms(1) by (simp_all add: field_ready_def LONG_MAX_def)
  have z: "same_shape f (update_members (map zero_analysis) f)" "same_shape f (update_members (map zero_doubles) f)"
    by (rule update_members_shape; simp add: zero_analysis_def zero_doubles_def member_shape_def)+
  show ?thesis
  proof (cases ty)
    case ASSIMILATOR_PYTHON
    with assms(3) obtain name w where "python_env (the_python lib) ''MELISSA_DA_PYTHON_ASSIMILATOR_MODULE'' = Some name"
        "import_function (the_python lib) name ''callback'' = Some w" "numpy_matches (the_python lib)"
      by (auto simp: python_available_def split: option.splits)
    with ASSIMILATOR_PYTHON small show ?thesis
      by (simp add: create_assimilator_def new_PythonAssimilator_def start_python_def member_arrays_ok any_ops_def)
  qed (use assms(2) z in \<open>simp_all add: create_assimilator_def any_ops_def new_DummyAssimilator_def new_EmptyAssimilator_def
      new_PrintIndexMapAssimilator_def new_WrfAssimilator_def new_CheckStatelessAssimilator_def Let_def\<close>)
qed

text \<open>Libraries for examples: a Python function that copies the background.\<close>

definition example_libraries :: "(unit, unit) libraries" where
  "example_libraries = \<lparr>double_add = (+), double_of_int = word_of_int,
     the_pdaf = \<lparr>pdaf_set_current_step = (\<lambda>t p. p), pdaf_get_state = (\<lambda>p. (1, 0, 0, [], p)), pdaf_put_state = (\<lambda>xs p. (0, p))\<rparr>,
     the_pdaf_start = \<lparr>init_pdaf = (\<lambda>g l n ix h ixh t. ()), init_ens_hidden = (\<lambda>n k i p. ([], p))\<rparr>,
     the_python = example_python, the_callback = copy_background\<rparr>"

lemma example_libraries_python: "python_available (the_python example_libraries)"
  by (simp add: python_available_def example_libraries_def example_python_def)

end
