(* ===== verification/WeightCalculation.thy ===== *)
theory WeightCalculation
  imports Python
begin

text \<open>
  The weight of a state in the peer-to-peer mode (api/p2p/PythonInterface.h, called by
  calculate\_weight of api/p2p/app\_core.cxx): a Python function gets the state through arrays that
  are views of the buffers of the simulation. Buffers are named by their address; the memory maps
  addresses to contents. Doubles are a parameter type.
\<close>

type_synonym memory = "nat \<Rightarrow> byte list"

text \<open>The object and the static is\_first\_time of its method: without arrays it is the first time.\<close>

record 'w python_interface =
  pi_world :: 'w
  pi_error :: bool
  pi_arrays :: "(nat np_array \<times> nat np_array) option"
  pi_index :: "unit np_array"
  pi_varid :: "unit np_array"

definition new_PythonInterface :: "int \<Rightarrow> 'w python \<Rightarrow> nat \<Rightarrow> (int \<times> int) list \<Rightarrow> 'w python_interface res" where
  "new_PythonInterface rank py local_vect_size local_index_map =
     and_then (start_python rank ''MELISSA_DA_PYTHON_CALCULATE_WEIGHT_MODULE'' ''calculate_weight'' local_vect_size py) (\<lambda>w.
     Inr \<lparr>pi_world = w, pi_error = False, pi_arrays = None,
          pi_index = new_column_array () 0 (length local_index_map),
          pi_varid = new_column_array () 1 (length local_index_map)\<rparr>)"

text \<open>The result of the function as a double; something that is no number gives -1 and leaves an error.\<close>

definition PyFloat_AsDouble :: "(int \<Rightarrow> 'd) \<Rightarrow> 'd py_object \<Rightarrow> 'd \<times> bool" where
  "PyFloat_AsDouble dint v = (case v of Py_float d \<Rightarrow> (d, False) | Py_int n \<Rightarrow> (dint n, False) | Py_other \<Rightarrow> (dint (-1), True))"

type_synonym ('d, 'w) weight_function = "int \<Rightarrow> int \<Rightarrow> byte list \<Rightarrow> byte list \<Rightarrow> int list \<Rightarrow> int list \<Rightarrow> int \<Rightarrow> 'w \<Rightarrow>
    'd py_object option \<times> byte list \<times> byte list \<times> 'w"

text \<open>The sizes of the two vectors, the index map and the handle of the communicator come from the globals.\<close>

record api_globals =
  g_local_vect_size :: nat
  g_local_hidden_vect_size :: nat
  g_index_map :: "(int \<times> int) list"
  g_fcomm :: int

definition weight_arrays :: "api_globals \<Rightarrow> nat \<Rightarrow> nat \<Rightarrow> 'w python_interface \<Rightarrow> (nat np_array \<times> nat np_array) res" where
  "weight_arrays g vals hidden_vals p =
     (case pi_arrays p of
        Some xs \<Rightarrow> Inr xs
      | None \<Rightarrow>
          and_then (new_byte_array vals (g_local_vect_size g)) (\<lambda>b.
          and_then (new_byte_array hidden_vals (g_local_hidden_vect_size g)) (\<lambda>h. Inr (b, h))))"

definition pi_calculate_weight :: "(int \<Rightarrow> 'd) \<Rightarrow> ('d, 'w) weight_function \<Rightarrow> api_globals \<Rightarrow> int \<Rightarrow> int \<Rightarrow> nat \<Rightarrow> nat \<Rightarrow>
    memory \<Rightarrow> 'w python_interface \<Rightarrow> ('d \<times> memory \<times> 'w python_interface) res" where
  "pi_calculate_weight dint fn g current_step current_state_id vals hidden_vals mem p =
     and_then (weight_arrays g vals hidden_vals p) (\<lambda>(b, h).
     py_err True (pi_error p)
      (if \<not> array_inside b (mem (np_base b)) \<or> \<not> array_inside h (mem (np_base h)) then Inl Undefined_behaviour
       else
         (case fn current_step current_state_id (read_array (mem (np_base b)) b) (read_array (mem (np_base h)) h)
             (read_array (index_ints (g_index_map g)) (pi_index p)) (read_array (index_ints (g_index_map g)) (pi_varid p))
             (g_fcomm g) (pi_world p) of
            (result, bytes, hidden_bytes, w) \<Rightarrow>
              let mem = mem(np_base b := write_array b bytes (mem (np_base b)));
                  mem = mem(np_base h := write_array h hidden_bytes (mem (np_base h)))
              in (case result of
                    None \<Rightarrow> Inl Interrupted
                  | Some v \<Rightarrow>
                      (case PyFloat_AsDouble dint v of
                         (d, e) \<Rightarrow> Inr (d, mem, p\<lparr>pi_world := w, pi_error := e, pi_arrays := Some (b, h)\<rparr>))))))"

text \<open>calculate\_weight of the application makes the object for the first state.\<close>

definition calculate_weight :: "int \<Rightarrow> 'w python \<Rightarrow> (int \<Rightarrow> 'd) \<Rightarrow> ('d, 'w) weight_function \<Rightarrow> api_globals \<Rightarrow> int \<Rightarrow> int \<Rightarrow>
    nat \<Rightarrow> nat \<Rightarrow> memory \<Rightarrow> 'w python_interface option \<Rightarrow> ('d \<times> memory \<times> 'w python_interface) res" where
  "calculate_weight rank py dint fn g current_step current_state_id vals hidden_vals mem pi =
     and_then (case pi of None \<Rightarrow> new_PythonInterface rank py (g_local_vect_size g) (g_index_map g) | Some p \<Rightarrow> Inr p)
      (pi_calculate_weight dint fn g current_step current_state_id vals hidden_vals mem)"

section \<open>What the function is given\<close>

lemma new_PythonInterface_fields:
  "new_PythonInterface rank py n m = Inr p \<Longrightarrow> pi_error p = False \<and> pi_arrays p = None \<and>
     pi_index p = new_column_array () 0 (length m) \<and> pi_varid p = new_column_array () 1 (length m)"
  by (auto simp: new_PythonInterface_def and_then_Inr_iff)

text \<open>A Python interface whose arrays are views of the buffers b and h.\<close>

definition bound_to :: "api_globals \<Rightarrow> nat \<Rightarrow> nat \<Rightarrow> 'w python_interface \<Rightarrow> bool" where
  "bound_to g b h p \<longleftrightarrow> new_byte_array b (g_local_vect_size g) = Inr (fst (the (pi_arrays p))) \<and>
     new_byte_array h (g_local_hidden_vect_size g) = Inr (snd (the (pi_arrays p))) \<and> pi_arrays p \<noteq> None \<and>
     pi_index p = new_column_array () 0 (length (g_index_map g)) \<and>
     pi_varid p = new_column_array () 1 (length (g_index_map g))"

lemma new_byte_array_base: "new_byte_array b n = Inr x \<Longrightarrow> np_base x = b \<and> np_first x = 0 \<and> np_dims x = npy_intp n"
  by (auto simp: new_byte_array_def py_err_def split: if_splits)

lemma pi_calculate_weight_after:
  assumes "pi_calculate_weight dint fn g t sid b h mem q = Inr (d, mem', p)"
  shows "\<exists>xs w e. weight_arrays g b h q = Inr xs \<and> p = q\<lparr>pi_world := w, pi_error := e, pi_arrays := Some xs\<rparr>"
proof -
  obtain xb xh where x: "weight_arrays g b h q = Inr (xb, xh)"
    using assms by (auto simp: pi_calculate_weight_def and_then_Inr_iff)
  obtain r bs hs w where f: "fn t sid (read_array (mem (np_base xb)) xb) (read_array (mem (np_base xh)) xh)
      (read_array (index_ints (g_index_map g)) (pi_index q)) (read_array (index_ints (g_index_map g)) (pi_varid q))
      (g_fcomm g) (pi_world q) = (r, bs, hs, w)"
    by (metis prod_cases4)
  show ?thesis
    using assms unfolding pi_calculate_weight_def x and_then_simps prod.case f Let_def py_err_def
    by (auto simp: x split: if_splits option.splits prod.splits)
qed

lemma first_call_binds:
  assumes "calculate_weight rank py dint fn g t sid b h mem None = Inr (d, mem', p)"
  shows "bound_to g b h p"
proof -
  obtain q where q: "new_PythonInterface rank py (g_local_vect_size g) (g_index_map g) = Inr q"
      "pi_calculate_weight dint fn g t sid b h mem q = Inr (d, mem', p)"
    using assms by (auto simp: calculate_weight_def and_then_Inr_iff)
  note f = new_PythonInterface_fields [OF q(1)]
  obtain xs w e where p: "weight_arrays g b h q = Inr xs" "p = q\<lparr>pi_world := w, pi_error := e, pi_arrays := Some xs\<rparr>"
    using pi_calculate_weight_after [OF q(2)] by blast
  from p(1) show ?thesis by (auto simp: weight_arrays_def f p(2) bound_to_def and_then_Inr_iff)
qed

text \<open>
  C35. The arrays stay bound to the buffers of the first call. Whatever buffers a later call is
  given, the Python function gets the bytes that are then in the buffers of the first call, with the
  time and the id of the later one, and its result is the weight.
\<close>

theorem weight_of_first_buffers:
  assumes "calculate_weight rank py dint fn g t0 sid0 b h mem0 None = Inr (d0, mem1, p)" "\<not> pi_error p"
    and "length (mem b) = g_local_vect_size g" "length (mem h) = g_local_hidden_vect_size g"
    and "g_local_vect_size g < 2 ^ 63" "g_local_hidden_vect_size g < 2 ^ 63" "length (g_index_map g) < 2 ^ 63"
    and "fn t sid (mem b) (mem h) (map fst (g_index_map g)) (map snd (g_index_map g)) (g_fcomm g) (pi_world p) =
       (Some (Py_float d), bytes, hidden_bytes, w)"
  shows "\<exists>mem' p'. calculate_weight rank py dint fn g t sid b' h' mem (Some p) = Inr (d, mem', p') \<and>
     (\<forall>x. x \<noteq> b \<and> x \<noteq> h \<longrightarrow> mem' x = mem x) \<and> bound_to g b h p'"
proof -
  have bd: "bound_to g b h p" by (rule first_call_binds [OF assms(1)])
  then obtain xb xh where x: "pi_arrays p = Some (xb, xh)" "new_byte_array b (g_local_vect_size g) = Inr xb"
      "new_byte_array h (g_local_hidden_vect_size g) = Inr xh"
    by (auto simp: bound_to_def)
  note base = new_byte_array_base [OF x(2)] new_byte_array_base [OF x(3)]
  have rd: "read_array (mem b) xb = mem b" "read_array (mem h) xh = mem h"
    using read_all [OF assms(5,3) x(2)] read_all [OF assms(6,4) x(3)] by simp_all
  have ins: "array_inside xb (mem b)" "array_inside xh (mem h)"
    using base assms(3-6) by (simp_all add: array_inside_def npy_intp_small)
  have cols: "read_array (index_ints (g_index_map g)) (pi_index p) = map fst (g_index_map g)"
      "read_array (index_ints (g_index_map g)) (pi_varid p) = map snd (g_index_map g)"
    using bd read_columns [OF assms(7)] by (simp_all add: bound_to_def)
  let ?mem = "mem(b := write_array xb bytes (mem b))"
  let ?mem = "?mem(h := write_array xh hidden_bytes (?mem h))"
  have "calculate_weight rank py dint fn g t sid b' h' mem (Some p) =
      Inr (d, ?mem, p\<lparr>pi_world := w, pi_error := False, pi_arrays := Some (xb, xh)\<rparr>)"
    using assms(2) by (simp add: calculate_weight_def pi_calculate_weight_def weight_arrays_def x(1) base rd ins cols
        assms(8) py_err_def PyFloat_AsDouble_def Let_def)
  moreover have "bound_to g b h (p\<lparr>pi_world := w, pi_error := False, pi_arrays := Some (xb, xh)\<rparr>)"
    using bd x by (simp add: bound_to_def)
  ultimately show ?thesis by (intro exI [of _ ?mem] exI [of _ "p\<lparr>pi_world := w, pi_error := False, pi_arrays := Some (xb, xh)\<rparr>"]) simp
qed

text \<open>
  The weight is the first byte of the state. The second call is given the buffer at address 1, which
  holds 9, and the weight it returns is 5, the first byte of the buffer at address 0.
\<close>

definition first_byte_weight :: "(int, unit) weight_function" where
  "first_byte_weight t sid v hv ix vr c w = (Some (Py_float (uint (hd v))), v, hv, w)"

definition weight_python :: "unit python" where
  "weight_python = \<lparr>numpy_matches = True, python_env = (\<lambda>v. Some ''weights''), import_function = (\<lambda>m f. Some ())\<rparr>"

definition weight_globals :: api_globals where
  "weight_globals = \<lparr>g_local_vect_size = 1, g_local_hidden_vect_size = 0, g_index_map = [(0, 0)], g_fcomm = 0\<rparr>"

definition weight_memory :: memory where
  "weight_memory x = (if x = 0 then [5] else if x = 1 then [9] else [])"

lemma weight_of_first_buffers_witness:
  "\<exists>d mem' p mem'' p'. calculate_weight 0 weight_python id first_byte_weight weight_globals 1 0 0 2 weight_memory None =
       Inr (d, mem', p) \<and>
     calculate_weight 0 weight_python id first_byte_weight weight_globals 2 0 1 2 weight_memory (Some p) = Inr (5, mem'', p')"
proof -
  obtain mem' p where c: "calculate_weight 0 weight_python id first_byte_weight weight_globals 1 0 0 2 weight_memory None =
      Inr (5, mem', p)" "\<not> pi_error p" "pi_world p = ()"
    by (simp add: calculate_weight_def new_PythonInterface_def start_python_def weight_python_def weight_globals_def
        LONG_MAX_def pi_calculate_weight_def weight_arrays_def new_byte_array_def npy_intp_small py_err_def
        array_inside_def weight_memory_def read_array_def first_byte_weight_def PyFloat_AsDouble_def Let_def)
  have "\<exists>mem'' p'. calculate_weight 0 weight_python id first_byte_weight weight_globals 2 0 1 2 weight_memory (Some p) =
       Inr (5, mem'', p') \<and> (\<forall>x. x \<noteq> 0 \<and> x \<noteq> 2 \<longrightarrow> mem'' x = weight_memory x) \<and> bound_to weight_globals 0 2 p'"
    by (rule weight_of_first_buffers [OF c(1,2)])
      (simp_all add: weight_memory_def weight_globals_def first_byte_weight_def)
  with c(1) show ?thesis by blast
qed

end
