(* ===== verification/TimingReports.thy ===== *)
theory TimingReports
  imports Timing Complex_Main
begin

text \<open>
  The statistics that are computed from the events of a process: ApiTiming::report (api/ApiTiming.h)
  for a runner, ServerTiming::report (server/ServerTiming.h) for the server. Times are in
  nanoseconds; durations in milliseconds and the other doubles are exact rationals here. A division
  by zero has no result.
\<close>

definition diff_to_millis :: "int \<Rightarrow> int \<Rightarrow> rat" where
  "diff_to_millis a b = of_int (a - b) / 1000000"

definition is_event :: "string \<Rightarrow> timing_event \<Rightarrow> bool" where
  "is_event name e \<longleftrightarrow> event_type e = event_code name"

section \<open>A runner\<close>

text \<open>A line of runner-000.timing-information.csv, without the id of the runner.\<close>

record api_row =
  ro_iteration :: int
  ro_step :: int
  ro_state :: int
  ro_timesteps :: int
  ro_compute :: rat
  ro_idle :: rat
  ro_total :: rat

record api_report =
  propagation_start :: "int option"
  idle_start :: "int option"
  rep_step :: int
  rep_state :: int
  iterations :: int
  sum_runtime :: rat
  sum_runtime_iteration :: rat
  sum_runtime_idle :: rat
  last_idle_time :: rat
  sum_propagated_steps :: int
  last_propagated_steps :: int
  rows :: "api_row list"

definition no_api_report :: api_report where
  "no_api_report =
     \<lparr>propagation_start = None, idle_start = None, rep_step = -2, rep_state = -2, iterations = 0,
      sum_runtime = 0, sum_runtime_iteration = 0, sum_runtime_idle = 0, last_idle_time = 0,
      sum_propagated_steps = 0, last_propagated_steps = 0, rows = []\<rparr>"

text \<open>The times that were not taken are null pointers.\<close>

definition api_stop_propagation :: "timing_event \<Rightarrow> api_report \<Rightarrow> api_report res" where
  "api_stop_propagation e s =
     assert_then (parameter e = rep_state s)
      (case propagation_start s of
         None \<Rightarrow> Inl Undefined_behaviour
       | Some t \<Rightarrow>
           let wt = diff_to_millis (event_time e) t;
               row = \<lparr>ro_iteration = iterations s, ro_step = rep_step s, ro_state = rep_state s,
                      ro_timesteps = last_propagated_steps s, ro_compute = wt, ro_idle = last_idle_time s,
                      ro_total = last_idle_time s + wt\<rparr>
           in Inr (s\<lparr>sum_runtime := sum_runtime s + (last_idle_time s + wt),
                     sum_runtime_iteration := sum_runtime_iteration s + wt,
                     sum_runtime_idle := sum_runtime_idle s + last_idle_time s,
                     sum_propagated_steps := sum_propagated_steps s + last_propagated_steps s,
                     iterations := iterations s + 1, rows := rows s @ [row]\<rparr>))"

definition api_event :: "int \<Rightarrow> timing_event \<Rightarrow> api_report \<Rightarrow> api_report res" where
  "api_event runner_id e s =
     (if is_event ''START_ITERATION'' e then Inr (s\<lparr>rep_step := parameter e\<rparr>)
      else if is_event ''NSTEPS'' e then Inr (s\<lparr>last_propagated_steps := parameter e\<rparr>)
      else if is_event ''START_IDLE_RUNNER'' e then
        assert_then (runner_id = parameter e) (Inr (s\<lparr>last_idle_time := 0, idle_start := Some (event_time e)\<rparr>))
      else if is_event ''STOP_IDLE_RUNNER'' e then
        assert_then (last_idle_time s = 0)
         (assert_then (runner_id = parameter e)
          (case idle_start s of
             None \<Rightarrow> Inl Undefined_behaviour
           | Some t \<Rightarrow> Inr (s\<lparr>last_idle_time := diff_to_millis (event_time e) t\<rparr>)))
      else if is_event ''START_PROPAGATE_STATE'' e then
        Inr (s\<lparr>propagation_start := Some (event_time e), rep_state := parameter e\<rparr>)
      else if is_event ''STOP_PROPAGATE_STATE'' e then api_stop_propagation e s
      else Inr s)"

fun api_events :: "int \<Rightarrow> timing_event list \<Rightarrow> api_report \<Rightarrow> api_report res" where
  "api_events runner_id [] s = Inr s"
| "api_events runner_id (e # es) s = and_then (api_event runner_id e s) (api_events runner_id es)"

text \<open>runner-000.run-information.csv; with less than ten propagations the sums are cleared.\<close>

record run_information =
  mean_runtime :: "rat option"
  mean_runtime_iteration :: "rat option"
  mean_runtime_idle :: "rat option"
  mean_bandwidth :: "rat option"
  used_for_means :: int
  propagated :: int
  timesteps :: int

definition quotient :: "rat \<Rightarrow> rat \<Rightarrow> rat option" where
  "quotient a b = (if b = 0 then None else Some (a / b))"

definition api_run_information :: "nat \<Rightarrow> api_report \<Rightarrow> run_information" where
  "api_run_information state_size s =
     (let s = (if iterations s < 10 then s\<lparr>sum_runtime := 0, sum_runtime_idle := 0, sum_runtime_iteration := 0\<rparr> else s)
      in \<lparr>mean_runtime = quotient (sum_runtime s) (of_int (iterations s)),
          mean_runtime_iteration = quotient (sum_runtime s) (of_int (iterations s)),
          mean_runtime_idle = quotient (sum_runtime s) (of_int (iterations s)),
          mean_bandwidth = map_option (\<lambda>q. q * 1000 / 1024 / 1024)
            (quotient (8 * of_nat state_size * of_int (iterations s) * 2) (sum_runtime s)),
          used_for_means = (if sum_runtime s = 0 then 0 else iterations s),
          propagated = iterations s, timesteps = sum_propagated_steps s\<rparr>)"

definition api_timing_report :: "int \<Rightarrow> nat \<Rightarrow> timing \<Rightarrow> (api_row list \<times> run_information) res" where
  "api_timing_report runner_id state_size t =
     and_then (api_events runner_id (events t) no_api_report) (\<lambda>s.
     Inr (rows s, api_run_information state_size s))"

text \<open>The sums are those of the lines.\<close>

definition sums_of_rows :: "api_report \<Rightarrow> bool" where
  "sums_of_rows s \<longleftrightarrow> iterations s = int (length (rows s)) \<and> sum_runtime s = sum_list (map ro_total (rows s)) \<and>
     sum_runtime_iteration s = sum_list (map ro_compute (rows s)) \<and>
     sum_runtime_idle s = sum_list (map ro_idle (rows s)) \<and>
     sum_propagated_steps s = sum_list (map ro_timesteps (rows s)) \<and>
     (\<forall>r \<in> set (rows s). ro_total r = ro_idle r + ro_compute r)"

lemma api_stop_propagation_sums:
  "api_stop_propagation e s = Inr s' \<Longrightarrow> sums_of_rows s \<Longrightarrow> sums_of_rows s'"
  by (auto simp: api_stop_propagation_def sums_of_rows_def Let_def split: option.splits)

lemma api_event_sums:
  assumes "api_event runner_id e s = Inr s'" "sums_of_rows s" shows "sums_of_rows s'"
proof (cases "api_stop_propagation e s = Inr s'")
  case True
  then show ?thesis by (rule api_stop_propagation_sums [OF _ assms(2)])
next
  case False
  with assms show ?thesis
    by (simp add: api_event_def sums_of_rows_def split: if_splits option.splits)
       (auto simp: sums_of_rows_def)
qed

lemma api_events_sums: "api_events runner_id es s = Inr s' \<Longrightarrow> sums_of_rows s \<Longrightarrow> sums_of_rows s'"
  by (induction es arbitrary: s) (auto simp: and_then_Inr_iff dest: api_event_sums)

text \<open>
  The report of a runner. Each line is the idle time and the computation of one propagation;
  from ten propagations on the first mean is the mean of the lines. The columns for the mean
  computation and the mean idle time hold this same number, and their own means add up to it.
\<close>

theorem report_means:
  assumes "api_timing_report runner_id state_size t = Inr (rs, info)" "10 \<le> length rs"
  shows "mean_runtime info = Some (sum_list (map ro_total rs) / of_nat (length rs)) \<and>
     mean_runtime_iteration info = mean_runtime info \<and> mean_runtime_idle info = mean_runtime info \<and>
     mean_runtime info = Some (sum_list (map ro_compute rs) / of_nat (length rs) +
        sum_list (map ro_idle rs) / of_nat (length rs)) \<and>
     propagated info = int (length rs) \<and> timesteps info = sum_list (map ro_timesteps rs)"
proof -
  obtain s where s: "api_events runner_id (events t) no_api_report = Inr s" "rs = rows s"
      "info = api_run_information state_size s"
    using assms(1) by (auto simp: api_timing_report_def and_then_Inr_iff)
  have "sums_of_rows no_api_report" by (simp add: sums_of_rows_def no_api_report_def)
  then have k: "sums_of_rows s" by (rule api_events_sums [OF s(1)])
  have split: "sum_list (map ro_total rs) = sum_list (map ro_compute rs) + sum_list (map ro_idle rs)"
  proof -
    have eq: "map ro_total rs = map (\<lambda>r. ro_compute r + ro_idle r) rs" using k s(2) by (auto simp: sums_of_rows_def)
    show ?thesis unfolding eq by (rule sum_list_addf)
  qed
  have ne: "rs \<noteq> []" using assms(2) by auto
  have n: "\<not> iterations s < 10" "iterations s = int (length rs)" using k s(2) assms(2) by (simp_all add: sums_of_rows_def)
  have "mean_runtime info = Some (sum_list (map ro_total rs) / of_nat (length rs))"
    using k n ne s(2) by (simp add: s(3) api_run_information_def quotient_def sums_of_rows_def)
  moreover have "mean_runtime_iteration info = mean_runtime info" "mean_runtime_idle info = mean_runtime info"
    by (simp_all add: s(3) api_run_information_def Let_def)
  moreover have "propagated info = int (length rs)" "timesteps info = sum_list (map ro_timesteps rs)"
    using k n s(2) by (simp_all add: s(3) api_run_information_def sums_of_rows_def Let_def)
  ultimately show ?thesis by (simp add: split add_divide_distrib)
qed

text \<open>Ten propagations of 2 ms, each after 1 ms of idle time.\<close>

definition example_event :: "string \<Rightarrow> int \<Rightarrow> int \<Rightarrow> timing_event" where
  "example_event name t p = \<lparr>event_type = event_code name, event_time = t, parameter = p\<rparr>"

definition example_cycle :: "timing_event list" where
  "example_cycle =
     [example_event ''START_IDLE_RUNNER'' 0 3, example_event ''STOP_IDLE_RUNNER'' 1000000 3,
      example_event ''NSTEPS'' 1000000 1, example_event ''START_PROPAGATE_STATE'' 1000000 7,
      example_event ''STOP_PROPAGATE_STATE'' 3000000 7]"

definition example_timing :: timing where
  "example_timing = (new_timing 0 None False)\<lparr>events := concat (replicate 10 example_cycle)\<rparr>"

definition after_cycles :: "api_row list \<Rightarrow> api_report \<Rightarrow> bool" where
  "after_cycles rs s \<longleftrightarrow> last_idle_time s \<ge> 0 \<and> rows s = rs"

lemma api_events_append: "api_events i (as @ bs) s = and_then (api_events i as s) (api_events i bs)"
  by (induction as arbitrary: s) (simp_all add: and_then_def split: sum.splits)

lemmas example_simps = example_cycle_def example_event_def api_event_def is_event_def event_code_def TimingEventType_def
  api_stop_propagation_def diff_to_millis_def

text \<open>One cycle from a state in which the runner does not idle.\<close>

lemma example_cycle_step:
  "\<exists>s'. api_events 3 example_cycle s = Inr s' \<and>
     rows s' = rows s @ [\<lparr>ro_iteration = iterations s, ro_step = rep_step s, ro_state = 7, ro_timesteps = 1,
       ro_compute = 2, ro_idle = 1, ro_total = 3\<rparr>]"
  by (simp add: example_simps)

lemma example_cycles:
  "\<exists>s'. api_events 3 (concat (replicate n example_cycle)) s = Inr s' \<and>
     (\<exists>rs. rows s' = rows s @ rs \<and> length rs = n \<and> sum_list (map ro_total rs) = of_nat n * 3)"
proof (induction n arbitrary: s)
  case (Suc n)
  obtain t where t: "api_events 3 example_cycle s = Inr t" "rows t = rows s @ [\<lparr>ro_iteration = iterations s,
      ro_step = rep_step s, ro_state = 7, ro_timesteps = 1, ro_compute = 2, ro_idle = 1, ro_total = 3\<rparr>]"
    using example_cycle_step by blast
  from Suc.IH [of t] obtain s' rs where "api_events 3 (concat (replicate n example_cycle)) t = Inr s'"
      "rows s' = rows t @ rs" "length rs = n" "sum_list (map ro_total rs) = of_nat n * 3"
    by blast
  with t show ?case
    by (intro exI [of _ s'] conjI exI [of _ "drop (length (rows s)) (rows s')"]) (simp_all add: api_events_append algebra_simps)
qed simp

lemma report_means_witness:
  "\<exists>rs info. api_timing_report 3 100 example_timing = Inr (rs, info) \<and> mean_runtime_iteration info = Some 3"
proof -
  obtain s rs where s: "api_events 3 (concat (replicate 10 example_cycle)) no_api_report = Inr s"
      "rows s = rs" "length rs = 10" "sum_list (map ro_total rs) = of_nat 10 * 3"
    using example_cycles [of 10 no_api_report] by (auto simp: no_api_report_def)
  then have r: "api_timing_report 3 100 example_timing = Inr (rs, api_run_information 100 s)"
    by (simp add: api_timing_report_def example_timing_def)
  have "mean_runtime_iteration (api_run_information 100 s) = Some 3" using report_means [OF r] s(3,4) by simp
  with r show ?thesis by blast
qed

section \<open>The server\<close>

definition warmup :: int where "warmup = 30"

text \<open>The number of runners now, its least and greatest in an iteration; -1 before there is one.\<close>

definition calculate_runners :: "int \<Rightarrow> int \<times> int \<Rightarrow> int \<times> int" where
  "calculate_runners runners mm =
     (case mm of (least, greatest) \<Rightarrow>
       (if runners < least \<or> least = -1 then runners else least, if runners > greatest then runners else greatest))"

record server_row =
  sr_iteration :: int
  sr_walltime :: rat
  sr_update :: rat
  sr_max_job :: rat
  sr_min_runners :: int
  sr_max_runners :: int
  sr_idle :: rat
  sr_corresponding :: rat
  sr_slack :: "rat option"

record server_report =
  sv_iteration_start :: "int option"
  sv_update_start :: "int option"
  sv_update_walltime :: "rat option"
  sv_iterations :: int
  sv_sum_runtime :: rat
  sv_runners :: int
  sv_job_walltimes :: "rat list"
  sv_job_start :: "int list"
  sv_runners_max :: int
  sv_idle_time :: "(int \<times> rat) list"
  sv_idle_start :: "int \<Rightarrow> int"
  sv_min_max :: "int \<times> int"
  sv_job_max :: rat
  sv_rows :: "server_row list"

text \<open>A point in time that was not taken is the epoch.\<close>

definition no_server_report :: "nat \<Rightarrow> server_report" where
  "no_server_report ensemble_members =
     \<lparr>sv_iteration_start = None, sv_update_start = None, sv_update_walltime = None, sv_iterations = 0,
      sv_sum_runtime = 0, sv_runners = 0, sv_job_walltimes = replicate ensemble_members 0,
      sv_job_start = replicate ensemble_members 0, sv_runners_max = -1, sv_idle_time = [],
      sv_idle_start = (\<lambda>_. 0), sv_min_max = (-1, 0), sv_job_max = 0, sv_rows = []\<rparr>"

definition add_idle :: "int \<Rightarrow> rat \<Rightarrow> (int \<times> rat) list \<Rightarrow> (int \<times> rat) list" where
  "add_idle r d xs = om_assign r ((case map_of xs r of None \<Rightarrow> 0 | Some x \<Rightarrow> x) + d) xs"

text \<open>The end of an iteration; the walltime of the update is not initialised before the first update.\<close>

definition stop_iteration :: "nat \<Rightarrow> timing_event \<Rightarrow> server_report \<Rightarrow> server_report res" where
  "stop_iteration ensemble_members e s =
     (case (sv_iteration_start s, sv_update_walltime s) of
        (Some start, Some update) \<Rightarrow>
          let idle = sum_list (map snd (sv_idle_time s));
              corresponding = sum_list (map (\<lambda>w. sv_job_max s - w) (sv_job_walltimes s))
                + update * of_int (int ensemble_members - 1);
              (least, greatest) = sv_min_max s;
              wt = diff_to_millis (event_time e) start;
              row = \<lparr>sr_iteration = sv_iterations s, sr_walltime = wt, sr_update = update, sr_max_job = sv_job_max s,
                     sr_min_runners = least, sr_max_runners = greatest, sr_idle = idle, sr_corresponding = corresponding,
                     sr_slack = quotient corresponding idle\<rparr>
          in assert_then (idle > update * of_int least)
              (Inr (s\<lparr>sv_sum_runtime := (if sv_iterations s \<ge> warmup then sv_sum_runtime s + wt else sv_sum_runtime s),
                      sv_iterations := sv_iterations s + 1, sv_idle_time := [], sv_min_max := (-1, 0),
                      sv_job_max := 0, sv_rows := sv_rows s @ [row]\<rparr>))
      | _ \<Rightarrow> Inl Undefined_behaviour)"

definition server_event :: "nat \<Rightarrow> timing_event \<Rightarrow> server_report \<Rightarrow> server_report res" where
  "server_event ensemble_members e s =
     (let p = parameter e; t = event_time e; inside = (0 \<le> p \<and> p < int ensemble_members) in
      if is_event ''ADD_RUNNER'' e then
        let n = sv_runners s + 1
        in Inr (s\<lparr>sv_runners := n, sv_runners_max := max (sv_runners_max s) n,
                  sv_min_max := calculate_runners n (sv_min_max s)\<rparr>)
      else if is_event ''REMOVE_RUNNER'' e then
        Inr (s\<lparr>sv_runners := sv_runners s - 1, sv_min_max := calculate_runners (sv_runners s - 1) (sv_min_max s)\<rparr>)
      else if is_event ''START_IDLE_RUNNER'' e then Inr (s\<lparr>sv_idle_start := (sv_idle_start s)(p := t)\<rparr>)
      else if is_event ''STOP_IDLE_RUNNER'' e then
        Inr (s\<lparr>sv_idle_time := add_idle p (diff_to_millis t (sv_idle_start s p)) (sv_idle_time s)\<rparr>)
      else if is_event ''START_PROPAGATE_STATE'' e then
        (if inside then Inr (s\<lparr>sv_job_start := (sv_job_start s)[nat p := t]\<rparr>) else Inl Undefined_behaviour)
      else if is_event ''STOP_PROPAGATE_STATE'' e then
        (if inside then
           let wt = diff_to_millis t (sv_job_start s ! nat p)
           in Inr (s\<lparr>sv_job_walltimes := (sv_job_walltimes s)[nat p := wt], sv_job_max := max wt (sv_job_max s)\<rparr>)
         else Inl Undefined_behaviour)
      else if is_event ''START_FILTER_UPDATE'' e then Inr (s\<lparr>sv_update_start := Some t\<rparr>)
      else if is_event ''STOP_FILTER_UPDATE'' e then
        (case sv_update_start s of
           None \<Rightarrow> Inl Undefined_behaviour
         | Some t0 \<Rightarrow> Inr (s\<lparr>sv_update_walltime := Some (diff_to_millis t t0)\<rparr>))
      else if is_event ''START_ITERATION'' e then
        Inr (s\<lparr>sv_iteration_start := Some t, sv_min_max := calculate_runners (sv_runners s) (sv_min_max s)\<rparr>)
      else if is_event ''STOP_ITERATION'' e then stop_iteration ensemble_members e s
      else Inr s)"

fun server_events :: "nat \<Rightarrow> timing_event list \<Rightarrow> server_report \<Rightarrow> server_report res" where
  "server_events n [] s = Inr s"
| "server_events n (e # es) s = and_then (server_event n e s) (server_events n es)"

text \<open>The mean of the iterations after the warm-up; it needs ten of them, and 31 iterations to have a divisor.\<close>

definition server_mean_runtime :: "server_report \<Rightarrow> rat option" where
  "server_mean_runtime s =
     (let total = (if sv_iterations s - warmup < 10 then 0 else sv_sum_runtime s)
      in quotient total (of_int (sv_iterations s - warmup)))"

definition server_timing_report :: "nat \<Rightarrow> timing \<Rightarrow> (server_row list \<times> rat option) res" where
  "server_timing_report ensemble_members t =
     and_then (server_events ensemble_members (events t) (no_server_report ensemble_members)) (\<lambda>s.
     Inr (sv_rows s, server_mean_runtime s))"

text \<open>The lines are numbered, and the mean is over those of the iterations after the warm-up.\<close>

definition sums_of_server_rows :: "server_report \<Rightarrow> bool" where
  "sums_of_server_rows s \<longleftrightarrow> sv_iterations s = int (length (sv_rows s)) \<and>
     sv_sum_runtime s = sum_list (map sr_walltime (drop (nat warmup) (sv_rows s)))"

lemma server_event_sums:
  assumes "server_event n e s = Inr s'" "sums_of_server_rows s" shows "sums_of_server_rows s'"
proof (cases "stop_iteration n e s = Inr s'")
  case True
  then show ?thesis using assms(2)
    by (auto simp: stop_iteration_def sums_of_server_rows_def Let_def warmup_def split: option.splits prod.splits)
next
  case False
  with assms show ?thesis
    by (auto simp: server_event_def sums_of_server_rows_def Let_def split: if_splits option.splits)
qed

lemma server_events_sums: "server_events n es s = Inr s' \<Longrightarrow> sums_of_server_rows s \<Longrightarrow> sums_of_server_rows s'"
  by (induction es arbitrary: s) (auto simp: and_then_Inr_iff dest: server_event_sums)

lemma server_report_mean:
  assumes "server_timing_report n t = Inr (rs, mean)"
  shows "mean = (if length rs = 30 then None
     else if length rs < 40 then Some 0
     else Some (sum_list (map sr_walltime (drop 30 rs)) / (of_nat (length rs) - 30)))"
proof -
  obtain s where s: "server_events n (events t) (no_server_report n) = Inr s" "rs = sv_rows s" "mean = server_mean_runtime s"
    using assms by (auto simp: server_timing_report_def and_then_Inr_iff)
  have "sums_of_server_rows (no_server_report n)" by (simp add: sums_of_server_rows_def no_server_report_def)
  then have "sums_of_server_rows s" by (rule server_events_sums [OF s(1)])
  then show ?thesis
    by (simp add: s(2,3) server_mean_runtime_def quotient_def sums_of_server_rows_def warmup_def Let_def)
qed

end
