(* ===== verification/ServerMain.thy ===== *)
theory ServerMain
  imports Cluster Create AppProps LauncherMessages
begin

text \<open>
  main of the server (server/server.cxx) around its loop: the arguments, the addresses the ranks
  exchange, the loop of one rank in the simulation phase and the end of the process.
\<close>

section \<open>The arguments\<close>

text \<open>atoi reads what looks like a number; its result is undefined when it does not fit.\<close>

definition atoi :: "string \<Rightarrow> int res" where
  "atoi s =
     (let t = dropWhile is_space s;
          negative = (t \<noteq> [] \<and> hd t = CHR ''-'');
          t = (if t \<noteq> [] \<and> (hd t = CHR ''-'' \<or> hd t = CHR ''+'') then tl t else t);
          n = int (digits_value (takeWhile is_digit t));
          i = (if negative then - n else n)
      in if - (2 ^ 31) \<le> i \<and> i < 2 ^ 31 then Inr i else Inl Undefined_behaviour)"

record server_arguments =
  param_total_steps :: int
  param_ensemble_size :: int
  param_assimilator :: int
  param_runner_timeout :: int
  server_slowdown_factor :: int
  launcher_host :: string

definition main_arguments :: "string list \<Rightarrow> server_arguments res" where
  "main_arguments argv =
     assert_then (length argv = 7)
      (and_then (atoi (argv ! 1)) (\<lambda>steps.
       and_then (atoi (argv ! 2)) (\<lambda>ensemble.
       and_then (atoi (argv ! 3)) (\<lambda>ty.
       and_then (atoi (argv ! 4)) (\<lambda>timeout.
       and_then (atoi (argv ! 5)) (\<lambda>slowdown.
       assert_then (ensemble > 0)
        (Inr \<lparr>param_total_steps = steps, param_ensemble_size = ensemble, param_assimilator = ty,
              param_runner_timeout = timeout, server_slowdown_factor = slowdown, launcher_host = argv ! 6\<rparr>)))))))"

text \<open>The cast of the number of the assimilator; create fails an assert for another number.\<close>

definition assimilator_of :: "int \<Rightarrow> assimilator_type option" where
  "assimilator_of i =
     map_of [(0, ASSIMILATOR_DUMMY), (1, ASSIMILATOR_PDAF), (2, ASSIMILATOR_EMPTY), (3, ASSIMILATOR_CHECK_STATELESS),
       (4, ASSIMILATOR_PRINT_INDEX_MAP), (5, ASSIMILATOR_WRF), (6, ASSIMILATOR_PYTHON)] i"

definition create_chosen :: "('p, 'w) libraries \<Rightarrow> server_arguments \<Rightarrow> int \<Rightarrow> field \<Rightarrow> (('p, 'w) any_assimilator \<times> field) res" where
  "create_chosen lib args rank f =
     (case assimilator_of (param_assimilator args) of
        None \<Rightarrow> Inl Assertion_failed
      | Some ty \<Rightarrow> create_assimilator ty lib (param_total_steps args) rank f)"

lemma atoi_dec:
  assumes "- (2 ^ 31) \<le> i" "i < 2 ^ 31" shows "atoi (dec i) = Inr i"
proof -
  have d: "list_all is_digit (dec_nat n)" "digits_value (dec_nat n) = n" "dec_nat n \<noteq> []" for n
    using dec_nat_read dec_nat_not_Nil by auto
  have tw: "takeWhile is_digit (dec_nat n) = dec_nat n" for n
    using d(1) by (simp add: takeWhile_eq_all_conv list_all_iff)
  have hd: "is_digit (hd (dec_nat n))" for n using d(1) [of n] d(3) [of n] by (metis list.pred_inject(2) list.exhaust_sel)
  have dw: "dropWhile is_space (dec_nat n) = dec_nat n" for n
    using not_digits(2) [OF hd [of n]] d(3) by (cases "dec_nat n") auto
  have minus: "\<not> is_space CHR ''-''" by (simp add: is_space_def)
  show ?thesis
  proof (cases "i < 0")
    case True
    with assms show ?thesis by (simp add: atoi_def dec_def minus tw d Let_def)
  next
    case False
    with assms show ?thesis
      using not_digits(2) [OF hd [of "nat i"]] by (simp add: atoi_def dec_def dw tw d Let_def)
  qed
qed

lemma main_arguments_read:
  assumes "\<forall>i \<in> {steps, ensemble, ty, timeout, slowdown}. - (2 ^ 31) \<le> i \<and> i < 2 ^ 31"
  shows "main_arguments [prog, dec steps, dec ensemble, dec ty, dec timeout, dec slowdown, host] =
     (if ensemble > 0 then
        Inr \<lparr>param_total_steps = steps, param_ensemble_size = ensemble, param_assimilator = ty,
             param_runner_timeout = timeout, server_slowdown_factor = slowdown, launcher_host = host\<rparr>
      else Inl Assertion_failed)"
  using assms by (simp add: main_arguments_def atoi_dec)

section \<open>Addresses\<close>

text \<open>ZMQ\_CHECK ends rank 0; the socket of the configuration may be bound a second time.\<close>

definition zmq_check :: "int \<Rightarrow> 'b res \<Rightarrow> 'b res" where
  "zmq_check rc k = (if rc = -1 then Inl Interrupted else k)"

definition bind_configuration :: "int \<Rightarrow> int \<Rightarrow> int \<Rightarrow> unit res" where
  "bind_configuration rc errno rc_again = zmq_check (if rc \<noteq> 0 \<and> errno = 98 then rc_again else rc) (Inr ())"

text \<open>
  The name of the data port of a rank, as snprintf leaves it in a buffer of MPI\_MAX\_PROCESSOR\_NAME
  + 32 bytes; MPI\_Gather sends the first MPI\_MAX\_PROCESSOR\_NAME of them.
\<close>

definition data_response_port_name :: "string \<Rightarrow> nat \<Rightarrow> string" where
  "data_response_port_name hostname rank = ''tcp://'' @ hostname @ '':'' @ dec (5000 + int rank)"

definition port_slot :: "nat \<Rightarrow> string \<Rightarrow> block" where
  "port_slot max_name name = take max_name (take (max_name + 31) name @ replicate (max_name + 32) NUL)"

definition gather_port_names :: "nat \<Rightarrow> string list \<Rightarrow> block" where
  "gather_port_names max_name hosts =
     concat (map (\<lambda>r. port_slot max_name (data_response_port_name (hosts ! r) r)) [0..<length hosts])"

text \<open>A runner reads the name of a server rank at its place in the gathered block.\<close>

definition server_port_name :: "nat \<Rightarrow> block \<Rightarrow> nat \<Rightarrow> string res" where
  "server_port_name max_name names server_rank = get_str (server_rank * max_name) names"

lemma drop_slots: "\<forall>x \<in> set xs. length x = n \<Longrightarrow> r \<le> length xs \<Longrightarrow> drop (r * n) (concat xs) = concat (drop r xs)"
proof (induction r arbitrary: xs)
  case (Suc r)
  then obtain x ys where xs: "xs = x # ys" by (cases xs) auto
  have "drop (Suc r * n) (concat xs) = drop (r * n) (concat ys)" using Suc.prems by (simp add: xs)
  with Suc show ?case by (simp add: xs)
qed simp

lemma length_port_slot: "length (port_slot n s) = n"
  by (simp add: port_slot_def)

lemma port_slot_short: "length s < n \<Longrightarrow> \<exists>zs. port_slot n s = s @ NUL # zs"
  by (rule exI [of _ "replicate (n - length s - 1) NUL"]) (simp add: port_slot_def replicate_Suc [symmetric] del: replicate_Suc)

lemma c_string_found: "NUL \<notin> set s \<Longrightarrow> takeWhile (\<lambda>x. x \<noteq> NUL) (s @ NUL # t) = s"
  by (simp add: takeWhile_append)

lemma no_NUL_dec: "NUL \<notin> set (dec i)"
proof -
  have "\<not> is_digit NUL" by code_simp
  then have "NUL \<notin> set (dec_nat n)" for n using dec_nat_read [of n] by (auto simp: list_all_iff)
  then show ?thesis by (simp add: dec_def)
qed

text \<open>
  Every runner reads the address of every server rank: the ranks gather the names of their data
  ports in slots of MPI\_MAX\_PROCESSOR\_NAME bytes, and the string at the slot of a rank is the name
  this rank gave, as long as the name and its terminating zero fit into the slot.
\<close>

theorem port_names_arrive:
  assumes "r < length hosts" "NUL \<notin> set (hosts ! r)"
    and "length (data_response_port_name (hosts ! r) r) < max_name"
  shows "server_port_name max_name (gather_port_names max_name hosts) r = Inr (data_response_port_name (hosts ! r) r)"
proof -
  let ?name = "\<lambda>r. data_response_port_name (hosts ! r) r"
  let ?slots = "map (\<lambda>r. port_slot max_name (?name r)) [0..<length hosts]"
  have "drop (r * max_name) (concat ?slots) = concat (drop r ?slots)"
    using assms(1) by (intro drop_slots) (auto simp: length_port_slot)
  also have "drop r ?slots = port_slot max_name (?name r) # drop (Suc r) ?slots"
    using assms(1) by (simp add: Cons_nth_drop_Suc [symmetric])
  finally obtain zs where d: "drop (r * max_name) (concat ?slots) = ?name r @ NUL # zs"
    using port_slot_short [OF assms(3)] by auto
  have nz: "NUL \<notin> set (?name r)" using assms(2) no_NUL_dec by (simp add: data_response_port_name_def)
  have slots: "gather_port_names max_name hosts = concat ?slots" by (simp only: gather_port_names_def)
  have "length (concat ?slots) = length hosts * max_name"
    by (simp add: length_concat comp_def length_port_slot sum_list_triv)
  then have "r * max_name \<le> length (concat ?slots)" using assms(1) by simp
  moreover have "NUL \<in> set (drop (r * max_name) (concat ?slots))" unfolding d by simp
  ultimately show ?thesis
    unfolding server_port_name_def get_str_def slots d c_string_found [OF nz] by simp
qed

lemma port_names_arrive_witness:
  "server_port_name 256 (gather_port_names 256 [''node1'', ''node2'']) 1 = Inr ''tcp://node2:5001''"
proof -
  have "digit 5 = CHR ''5''" "digit 0 = CHR ''0''" "digit (Suc 0) = CHR ''1''" by code_simp+
  then have "data_response_port_name ''node2'' 1 = ''tcp://node2:5001''"
    by (simp add: data_response_port_name_def dec_def dec_nat.simps)
  then show ?thesis using port_names_arrive [of 1 "[''node1'', ''node2'']" 256] by simp
qed

text \<open>The sockets of the launcher: what the server pushes, subscribes to and asks, in the order they are connected.\<close>

definition launcher_addresses :: "string \<Rightarrow> string \<Rightarrow> string list" where
  "launcher_addresses launcher hostname =
     (let host = (if launcher = hostname then ''127.0.0.1'' else launcher)
      in map (\<lambda>port. ''tcp://'' @ host @ '':'' @ port) [''5555'', ''5556'', ''5554''])"

section \<open>The loop and the end\<close>

text \<open>One rank in the simulation phase, with what arrives from outside in each iteration.\<close>

fun main_loop :: "'a assimilator_ops \<Rightarrow> (int \<times> events \<times> ('a server \<Rightarrow> 'a server)) list \<Rightarrow> 'a server \<Rightarrow>
    ('a, bool \<times> 'a server) sres" where
  "main_loop ops [] s = Inr (False, s)"
| "main_loop ops ((bcast, ev, arrive) # es) s =
     and_then (server_iteration ops bcast ev (arrive s)) (\<lambda>(ended, s).
     if ended then Inr (True, s) else main_loop ops es s)"

text \<open>At the end rank 0 deletes the connection to the launcher, whose destructor sends the stop.\<close>

definition end_server :: "'a server \<Rightarrow> 'a server" where
  "end_server s = (if comm_rank s = 0 then emit Launcher_stop s else s)"

definition server_main :: "'a assimilator_ops \<Rightarrow> (int \<times> events \<times> ('a server \<Rightarrow> 'a server)) list \<Rightarrow> 'a server \<Rightarrow>
    ('a, bool \<times> 'a server) sres" where
  "server_main ops es s =
     and_then (main_loop ops es s) (\<lambda>(ended, s). Inr (ended, if ended then end_server s else s))"

lemma server_main_stops_launcher:
  assumes "server_main ops es s = Inr (True, s')" "comm_rank s' = 0" shows "last (out s') = Launcher_stop"
proof -
  obtain ended t where "s' = (if ended then end_server t else t)" "ended"
    using assms(1) by (auto simp: server_main_def and_then_Inr_iff)
  then obtain t where "s' = end_server t" by simp
  with assms(2) show ?thesis by (auto simp: end_server_def emit_def emits_def split: if_splits)
qed

end
