(* ===== verification/ApiWrappers.thy ===== *)
theory ApiWrappers
  imports Start
begin

text \<open>
  The other entry points of the runner API (api/melissa\_da\_api.cxx): without an index map, without
  MPI, and for Fortran, where sizes are counts of doubles. The sizes given are those of all ranks.
\<close>

definition melissa_init where
  "melissa_init gatherv name sizes sizes_hidden bpe bpe_hidden root root_bpe root_bpe_hidden s =
     melissa_init_with_index_map gatherv name sizes sizes_hidden bpe bpe_hidden None None
       root root_bpe root_bpe_hidden s"

text \<open>A count of doubles times eight, as a size\_t.\<close>

definition doubles_size :: "nat \<Rightarrow> nat" where
  "doubles_size n_doubles = size64 (int n_doubles * 8)"

definition melissa_init_no_mpi where
  "melissa_init_no_mpi gatherv name counts counts_hidden root s =
     melissa_init gatherv name (map doubles_size counts) (map doubles_size counts_hidden) 8 8 root 8 8 s"

text \<open>A Fortran integer is converted to size\_t before the multiplication: a negative count becomes huge.\<close>

definition fortran_size :: "int \<Rightarrow> nat" where
  "fortran_size n_doubles = size64 (int (size64 n_doubles) * 8)"

definition melissa_init_f where
  "melissa_init_f gatherv name counts counts_hidden root s =
     melissa_init gatherv name (map fortran_size counts) (map fortran_size counts_hidden) 8 8 root 8 8 s"

text \<open>Without hidden values the hidden vector of the runner has to be empty: there is nothing behind the null pointer.\<close>

definition melissa_expose_f :: "string \<Rightarrow> byte list \<Rightarrow> runner_rank \<Rightarrow> (int \<times> byte list \<times> byte list \<times> runner_rank) res" where
  "melissa_expose_f name vals s = melissa_expose name vals [] s"

definition melissa_expose_d :: "string \<Rightarrow> byte list \<Rightarrow> byte list \<Rightarrow> runner_rank \<Rightarrow> (int \<times> byte list \<times> byte list \<times> runner_rank) res" where
  "melissa_expose_d name vals hidden s = melissa_expose name vals hidden s"

lemma doubles_size_small: "n_doubles < 2 ^ 61 \<Longrightarrow> doubles_size n_doubles = 8 * n_doubles"
  by (simp add: doubles_size_def size64_def)

lemma fortran_size_small: "0 \<le> n_doubles \<Longrightarrow> n_doubles < 2 ^ 31 \<Longrightarrow> fortran_size n_doubles = 8 * nat n_doubles"
  by (simp add: fortran_size_def size64_def nat_mult_distrib)

lemma fortran_size_negative: "fortran_size (- 1) = 2 ^ 64 - 8"
  by (simp add: fortran_size_def size64_def)

text \<open>Whole doubles: the elements of eight bytes are the counts.\<close>

lemma global_elements_doubles:
  assumes "sum_list counts < 2 ^ 61"
  shows "global_elements (map doubles_size counts) 8 = Inr (sum_list counts)"
proof -
  have le: "n \<le> sum_list counts" if "n \<in> set counts" for n using that by (rule member_le_sum_list) simp
  have eq: "map doubles_size counts = map (\<lambda>n. 8 * n) counts"
  proof (rule map_cong [OF refl])
    fix n assume "n \<in> set counts"
    then have "n < 2 ^ 61" using le assms by (meson le_less_trans)
    then show "doubles_size n = 8 * n" by (rule doubles_size_small)
  qed
  have "sum_list (map doubles_size counts) = 8 * sum_list counts" unfolding eq by (rule sum_list_const_mult [of 8 "\<lambda>n. n", simplified])
  then have "sum_vec (map doubles_size counts) = 8 * sum_list counts"
    using assms by (simp only: sum_vec_def) (intro size64_of_nat, simp)
  moreover have "size64 8 = 8" by (simp add: size64_def)
  ultimately show ?thesis by (simp add: global_elements_def)
qed

end
