(* ===== verification/LauncherSockets.thy ===== *)
theory LauncherSockets
  imports LauncherMessages Complex_Main
begin

text \<open>
  The sockets of the launcher (common/melissa\_comm4py.c) and the name of a node (also
  common/melissa\_utils.c). An address is formatted into a buffer of fixed size: some of the
  functions cut it, the others write behind the buffer.
\<close>

section \<open>Names of nodes\<close>

text \<open>The interfaces with their addresses; only those with an IPv4 address are looked at.\<close>

record interface =
  ifa_name :: string
  inet_address :: "string option"

definition tofu_address :: "interface list \<Rightarrow> string option" where
  "tofu_address ifs =
     map_option (\<lambda>i. the (inet_address i)) (find (\<lambda>i. inet_address i \<noteq> None \<and> ifa_name i = ''tofu1'') ifs)"

text \<open>strncpy into the buffer: zeros behind a short name, no terminator for a long one. \<open>None\<close>: getifaddrs failed.\<close>

definition strncpy :: "string \<Rightarrow> nat \<Rightarrow> block" where
  "strncpy s n = take n s @ replicate (n - length s) NUL"

definition melissa_get_node_name :: "interface list option \<Rightarrow> block \<Rightarrow> nat \<Rightarrow> block res" where
  "melissa_get_node_name ifap hostname buf_len =
     assert_then (buf_len > 0)
      (case ifap of
         None \<Rightarrow> Inl (Exit 1)
       | Some ifs \<Rightarrow> Inr (case tofu_address ifs of Some a \<Rightarrow> strncpy a buf_len | None \<Rightarrow> hostname))"

text \<open>The launcher's version prints the address into a buffer of unknown size.\<close>

definition get_node_name :: "interface list \<Rightarrow> nat \<Rightarrow> block \<Rightarrow> block res" where
  "get_node_name ifs capacity hostname =
     (case tofu_address ifs of
        Some a \<Rightarrow> if length a < capacity then Inr (c_str a) else Inl Undefined_behaviour
      | None \<Rightarrow> Inr hostname)"

lemma node_name_read:
  assumes "tofu_address ifs = Some a" "NUL \<notin> set a" "length a < n"
  shows "\<exists>buf. melissa_get_node_name (Some ifs) hostname n = Inr buf \<and> get_str 0 buf = Inr a"
proof -
  have "replicate (n - length a) NUL = NUL # replicate (n - length a - 1) NUL"
    using assms(3) by (cases "n - length a") simp_all
  then have s: "strncpy a n = a @ NUL # replicate (n - length a - 1) NUL" using assms(3) by (simp add: strncpy_def)
  have "takeWhile (\<lambda>x. x \<noteq> NUL) (strncpy a n) = a" unfolding s using assms(2) by (simp add: takeWhile_append)
  moreover have "NUL \<in> set (strncpy a n)" unfolding s by simp
  ultimately have "get_str 0 (strncpy a n) = Inr a" by (simp add: get_str_def)
  then show ?thesis using assms(1,3) by (simp add: melissa_get_node_name_def)
qed

section \<open>Sockets\<close>

datatype socket_kind = ZMQ_PULL | ZMQ_PUB | ZMQ_PUSH | ZMQ_REP

text \<open>An open socket: its kind, whether it is bound or connected, the address.\<close>

record launcher_sockets =
  message_puller :: "(socket_kind \<times> bool \<times> string) option"
  message_pusher :: "(socket_kind \<times> bool \<times> string) option"
  message_resp :: "(socket_kind \<times> bool \<times> string) option"

definition sprintf_name :: "nat \<Rightarrow> string \<Rightarrow> string res" where
  "sprintf_name capacity s = (if length s < capacity then Inr s else Inl Undefined_behaviour)"

text \<open>melissa\_bind and melissa\_connect end the process when the library fails.\<close>

definition open_socket :: "(bool \<Rightarrow> string \<Rightarrow> bool) \<Rightarrow> bool \<Rightarrow> string \<Rightarrow> 'b res \<Rightarrow> 'b res" where
  "open_socket zmq_ok bound name k = (if zmq_ok bound name then k else Inl (Exit 1))"

definition bind_message_rcv :: "(bool \<Rightarrow> string \<Rightarrow> bool) \<Rightarrow> string \<Rightarrow> launcher_sockets \<Rightarrow> launcher_sockets res" where
  "bind_message_rcv ok port s =
     (let name = snprintf 256 (''tcp://*:'' @ port)
      in open_socket ok True name (Inr (s\<lparr>message_puller := Some (ZMQ_PULL, True, name)\<rparr>)))"

definition connect_message_rcv :: "(bool \<Rightarrow> string \<Rightarrow> bool) \<Rightarrow> string \<Rightarrow> string \<Rightarrow> launcher_sockets \<Rightarrow> launcher_sockets res" where
  "connect_message_rcv ok node port s =
     (let name = snprintf 256 (''tcp://'' @ node @ '':'' @ port)
      in open_socket ok False name (Inr (s\<lparr>message_puller := Some (ZMQ_PULL, False, name)\<rparr>)))"

definition bind_message_snd :: "(bool \<Rightarrow> string \<Rightarrow> bool) \<Rightarrow> string \<Rightarrow> launcher_sockets \<Rightarrow> launcher_sockets res" where
  "bind_message_snd ok port s =
     and_then (sprintf_name 255 (''tcp://*:'' @ port)) (\<lambda>name.
     open_socket ok True name (Inr (s\<lparr>message_pusher := Some (ZMQ_PUB, True, name)\<rparr>)))"

definition connect_message_snd :: "(bool \<Rightarrow> string \<Rightarrow> bool) \<Rightarrow> string \<Rightarrow> string \<Rightarrow> launcher_sockets \<Rightarrow> launcher_sockets res" where
  "connect_message_snd ok node port s =
     and_then (sprintf_name 255 (''tcp://'' @ node @ '':'' @ port)) (\<lambda>name.
     open_socket ok False name (Inr (s\<lparr>message_pusher := Some (ZMQ_PUSH, False, name)\<rparr>)))"

definition bind_message_resp :: "(bool \<Rightarrow> string \<Rightarrow> bool) \<Rightarrow> string \<Rightarrow> launcher_sockets \<Rightarrow> launcher_sockets res" where
  "bind_message_resp ok port s =
     and_then (sprintf_name 255 (''tcp://*:'' @ port)) (\<lambda>name.
     open_socket ok True name (Inr (s\<lparr>message_resp := Some (ZMQ_REP, True, name)\<rparr>)))"

definition close_message :: "launcher_sockets \<Rightarrow> launcher_sockets" where
  "close_message s = s\<lparr>message_puller := None, message_pusher := None, message_resp := None\<rparr>"

text \<open>Short names fit everywhere; a long one is cut by two of the functions and overflows in the others.\<close>

lemma short_names_open:
  assumes "\<And>b name. ok b name" "length node + length port \<le> 246"
  shows "bind_message_rcv ok port s = Inr (s\<lparr>message_puller := Some (ZMQ_PULL, True, ''tcp://*:'' @ port)\<rparr>)"
    "connect_message_rcv ok node port s = Inr (s\<lparr>message_puller := Some (ZMQ_PULL, False, ''tcp://'' @ node @ '':'' @ port)\<rparr>)"
    "bind_message_snd ok port s = Inr (s\<lparr>message_pusher := Some (ZMQ_PUB, True, ''tcp://*:'' @ port)\<rparr>)"
    "connect_message_snd ok node port s = Inr (s\<lparr>message_pusher := Some (ZMQ_PUSH, False, ''tcp://'' @ node @ '':'' @ port)\<rparr>)"
    "bind_message_resp ok port s = Inr (s\<lparr>message_resp := Some (ZMQ_REP, True, ''tcp://*:'' @ port)\<rparr>)"
  using assms by (simp_all add: bind_message_rcv_def connect_message_rcv_def bind_message_snd_def connect_message_snd_def
      bind_message_resp_def sprintf_name_def open_socket_def snprintf_def Let_def)

lemma long_node_overflows:
  "250 \<le> length node + length port \<Longrightarrow> connect_message_snd ok node port s = Inl Undefined_behaviour"
  by (simp add: connect_message_snd_def sprintf_name_def)

section \<open>Wrappers of the system\<close>

text \<open>
  The wrappers of common/melissa\_utils.c: a failure ends the process, one to allocate with the status 0
  of success. \<open>None\<close> is the null pointer.
\<close>

definition melissa_malloc :: "(nat \<Rightarrow> 'w \<Rightarrow> 'p option \<times> 'w) \<Rightarrow> nat \<Rightarrow> 'w \<Rightarrow> ('p \<times> 'w) res" where
  "melissa_malloc malloc n w = (case malloc n w of (None, _) \<Rightarrow> Inl (Exit 0) | (Some p, w) \<Rightarrow> Inr (p, w))"

definition melissa_calloc :: "(nat \<Rightarrow> nat \<Rightarrow> 'w \<Rightarrow> 'p option \<times> 'w) \<Rightarrow> nat \<Rightarrow> nat \<Rightarrow> 'w \<Rightarrow> ('p \<times> 'w) res" where
  "melissa_calloc calloc num n w = (case calloc num n w of (None, _) \<Rightarrow> Inl (Exit 0) | (Some p, w) \<Rightarrow> Inr (p, w))"

definition melissa_realloc ::
  "('p option \<Rightarrow> nat \<Rightarrow> 'w \<Rightarrow> 'p option \<times> 'w) \<Rightarrow> 'p option \<Rightarrow> nat \<Rightarrow> 'w \<Rightarrow> ('p \<times> 'w) res" where
  "melissa_realloc realloc ptr n w = (case realloc ptr n w of (None, _) \<Rightarrow> Inl (Exit 0) | (Some p, w) \<Rightarrow> Inr (p, w))"

text \<open>The pointer is an argument: the caller's one is not cleared.\<close>

definition melissa_free :: "('p \<Rightarrow> 'w \<Rightarrow> 'w) \<Rightarrow> 'p option \<Rightarrow> 'w \<Rightarrow> 'w" where
  "melissa_free free ptr w = (case ptr of None \<Rightarrow> w | Some p \<Rightarrow> free p w)"

definition melissa_bind :: "(string \<Rightarrow> int) \<Rightarrow> string \<Rightarrow> unit res" where
  "melissa_bind zmq_bind port_name = (if zmq_bind port_name < 0 then Inl (Exit 1) else Inr ())"

definition melissa_connect :: "(string \<Rightarrow> int) \<Rightarrow> string \<Rightarrow> unit res" where
  "melissa_connect zmq_connect port_name = (if zmq_connect port_name < 0 then Inl (Exit 1) else Inr ())"

text \<open>Seconds and nanoseconds of the clock, here as an exact rational.\<close>

definition melissa_get_time :: "(int \<times> int) option \<Rightarrow> rat res" where
  "melissa_get_time tp =
     (case tp of None \<Rightarrow> Inl (Exit 1) | Some (sec, nsec) \<Rightarrow> Inr (of_int sec + of_int nsec / 1000000000))"

lemma melissa_get_time_mono:
  "0 \<le> n \<Longrightarrow> n < 1000000000 \<Longrightarrow> 0 \<le> n' \<Longrightarrow> n' < 1000000000 \<Longrightarrow> s < s' \<or> s = s' \<and> n \<le> n' \<Longrightarrow>
     melissa_get_time (Some (s, n)) = Inr a \<Longrightarrow> melissa_get_time (Some (s', n')) = Inr b \<Longrightarrow> a \<le> b"
proof -
  assume h: "0 \<le> n" "n < 1000000000" "0 \<le> n'" "n' < 1000000000" "s < s' \<or> s = s' \<and> n \<le> n'"
    "melissa_get_time (Some (s, n)) = Inr a" "melissa_get_time (Some (s', n')) = Inr b"
  then have "s * 1000000000 + n \<le> s' * 1000000000 + n'" by auto
  then have "(of_int (s * 1000000000 + n) :: rat) \<le> of_int (s' * 1000000000 + n')" by (simp only: of_int_le_iff)
  with h(6,7) show "a \<le> b" by (auto simp: melissa_get_time_def field_simps)
qed

end
