(* ===== verification/StorageEntry.thy ===== *)
theory StorageEntry
  imports StorageProps FtiCore Api
begin

text \<open>
  The entry points of the storage controller (storage\_controller.cxx): its start on an application
  process and on the head of a node, the choice between the worker and the application side, the
  first turn of the head, and the end. The turns of a head from its start keep the refinement of a
  bounded cache.
\<close>

section \<open>Start and end of an application process\<close>

text \<open>The stream pads with zeros on the left.\<close>

definition setw :: "nat \<Rightarrow> string \<Rightarrow> string" where
  "setw n s = replicate (n - length s) CHR ''0'' @ s"

definition config_file :: "int \<Rightarrow> string" where
  "config_file rid = ''config-'' @ setw 3 (dec rid) @ ''.fti''"

record controller =
  m_runner_id :: int
  m_worker_thread :: bool
  m_request_counter :: nat
  m_request_interval :: int
  zmq_context :: bool

definition new_controller :: controller where
  "new_controller =
     \<lparr>m_runner_id = 0, m_worker_thread = True, m_request_counter = 1, m_request_interval = 10000, zmq_context = False\<rparr>"

datatype controller_call =
    Register_callback
  | Fti_init string
  | Init_core
  | Fti_message fti_message
  | Barrier string
  | Fti_finalize
  | Destroy_context bool

text \<open>A head does not return from FTI\_Init: the calls after it are those of an application process.\<close>

definition storage_io_init :: "bool \<Rightarrow> int \<Rightarrow> controller \<Rightarrow> controller_call list \<times> controller" where
  "storage_io_init head rid c =
     ([Register_callback, Fti_init (config_file rid)] @ (if head then [] else [Init_core]),
      c\<lparr>m_runner_id := rid\<rparr>)"

definition storage_init :: "controller \<Rightarrow> controller_call list \<times> controller" where
  "storage_init c =
     (map Fti_message (io_send False 8 IO_TAG_POST IO_MSG_ONE @ io_send False 8 IO_TAG_POST IO_MSG_ALL),
      c\<lparr>m_worker_thread := False\<rparr>)"

text \<open>The context of an application process was never set.\<close>

definition storage_fini :: "controller \<Rightarrow> controller_call list" where
  "storage_fini c =
     map Fti_message (io_sendrecv False 4 4 IO_TAG_FINI IO_MSG_ONE) @
     [Barrier ''fti_comm_world'', Fti_finalize, Destroy_context (zmq_context c)]"

text \<open>What the application processes send at the start and at the end is what the head receives.\<close>

definition calls_meet :: "controller_call list \<Rightarrow> fti_message list \<Rightarrow> bool" where
  "calls_meet cs ms \<longleftrightarrow> list_all2 (\<lambda>c m. case c of Fti_message x \<Rightarrow> meets x m | _ \<Rightarrow> False) cs ms"

lemma start_and_end_meet:
  "calls_meet (fst (storage_init c)) (io_recv True 8 IO_TAG_POST IO_MSG_ONE @ io_recv True 8 IO_TAG_POST IO_MSG_ALL)"
  "calls_meet (take 2 (storage_fini c)) (io_recv True 4 IO_TAG_FINI IO_MSG_ONE @ io_send True 4 IO_TAG_FINI IO_MSG_ONE)"
  by (simp_all add: calls_meet_def storage_init_def storage_fini_def io_send_def io_recv_def io_sendrecv_def)

section \<open>The choice of the side\<close>

definition storage_load ::
  "controller \<Rightarrow> ('w \<Rightarrow> bool res) \<Rightarrow> ('w \<Rightarrow> 'w res) \<Rightarrow> ('w \<Rightarrow> bool \<times> 'w) \<Rightarrow> 'w \<Rightarrow> 'w res option" where
  "storage_load c loc ask load w = (if m_worker_thread c then Some (Inl Assertion_failed) else load_user loc ask load w)"

definition storage_pull :: "controller \<Rightarrow> 'f env \<Rightarrow> io_state_id \<Rightarrow> 'f step" where
  "storage_pull c e s w = (if m_worker_thread c then pull_head e s w else Inl Assertion_failed)"

definition storage_store :: "controller \<Rightarrow> (int \<Rightarrow> int \<Rightarrow> 'w \<Rightarrow> 'w) \<Rightarrow> io_state_id \<Rightarrow> 'w \<Rightarrow> 'w res" where
  "storage_store c FTI_Checkpoint s w =
     (if m_worker_thread c then Inl Assertion_failed else io_store FTI_Checkpoint s IO_STORAGE_L1 w)"

text \<open>An application process stores and loads after init, and only a head pulls.\<close>

lemma sides:
  "storage_load (snd (storage_init c)) loc ask load w = load_user loc ask load w"
  "storage_store (snd (storage_init c)) ck s w = io_store ck s IO_STORAGE_L1 w"
  "storage_pull (snd (storage_init c)) e s v = Inl Assertion_failed"
  "storage_pull (snd (storage_io_init True i new_controller)) e s v = pull_head e s v"
  by (simp_all add: storage_init_def storage_load_def storage_store_def storage_pull_def storage_io_init_def
      new_controller_def)

section \<open>The periodic query\<close>

text \<open>The remainder of the interval by the counter, both as size\_t; nothing calls m\_query\_server.\<close>

definition trigger_query :: "controller \<Rightarrow> (bool \<times> controller) res" where
  "trigger_query c =
     (if m_request_counter c = 0 then Inl Undefined_behaviour
      else Inr (size64 (m_request_interval c) mod m_request_counter c = 0,
                c\<lparr>m_request_counter := size64 (int (m_request_counter c) + 1)\<rparr>))"

definition query_server :: "'f env \<Rightarrow> controller \<Rightarrow> 'f worker \<Rightarrow> (controller \<times> 'f worker) res" where
  "query_server e c w =
     and_then (trigger_query c) (\<lambda>(b, c).
     and_then (if b then prefetch_request e w else Inr w) (\<lambda>w. Inr (c, w)))"

text \<open>The operands are swapped: the query is due when the counter divides the interval, never after it.\<close>

lemma trigger_query_due:
  assumes "0 \<le> m_request_interval c" "m_request_interval c < 2 ^ 31" "m_request_counter c \<noteq> 0"
  shows "(\<exists>c'. trigger_query c = Inr (True, c')) \<longleftrightarrow> int (m_request_counter c) dvd m_request_interval c"
proof -
  have "size64 (m_request_interval c) = nat (m_request_interval c)"
    using assms(1,2) by (simp add: size64_def)
  moreover have "nat (m_request_interval c) mod m_request_counter c = 0 \<longleftrightarrow> int (m_request_counter c) dvd m_request_interval c"
    using assms(1) by (simp add: dvd_eq_mod_eq_0 [symmetric] int_dvd_int_iff [symmetric])
  ultimately show ?thesis using assms(3) by (simp add: trigger_query_def)
qed

lemma trigger_query_stops:
  assumes "0 < m_request_interval c" "m_request_interval c < 2 ^ 31" "m_request_interval c < int (m_request_counter c)"
  shows "\<exists>c'. trigger_query c = Inr (False, c')"
proof -
  have "\<not> int (m_request_counter c) dvd m_request_interval c" using assms zdvd_not_zless by auto
  moreover have "m_request_counter c \<noteq> 0" using assms by auto
  ultimately show ?thesis using trigger_query_due [of c] assms
    by (cases "trigger_query c") (auto simp: trigger_query_def)
qed

section \<open>Symbolic links\<close>

definition symlinks :: "fti_conf \<Rightarrow> int \<Rightarrow> (path \<times> path) list" where
  "symlinks c cid =
     [(global_dir c @ [exec_id c, ''l4'', dec cid], global_dir c @ [dec cid]),
      (meta_dir c @ [exec_id c, ''l4'', dec cid], meta_dir c @ [dec cid])]"

definition create_symlink :: "(path \<Rightarrow> path \<Rightarrow> 'w \<Rightarrow> 'w) \<Rightarrow> fti_conf \<Rightarrow> io_state_id \<Rightarrow> 'w \<Rightarrow> 'w res" where
  "create_symlink sys_symlink c s w =
     and_then (to_ckpt_id s) (\<lambda>cid. Inr (foldl (\<lambda>w (target, link). sys_symlink target link w) w (symlinks c cid)))"

text \<open>ENOENT is 2; \<open>sys\_remove\<close> gives the error number of a failure.\<close>

fun remove_links :: "(path \<Rightarrow> 'w \<Rightarrow> int option \<times> 'w) \<Rightarrow> int \<Rightarrow> path list \<Rightarrow> 'w \<Rightarrow> 'w res" where
  "remove_links sys_remove rank [] w = Inr w"
| "remove_links sys_remove rank (p # ps) w =
     (case sys_remove p w of (err, w) \<Rightarrow>
        if err = None \<or> err = Some 2 then remove_links sys_remove rank ps w
        else merr rank (remove_links sys_remove rank ps w))"

definition remove_symlink :: "(path \<Rightarrow> 'w \<Rightarrow> int option \<times> 'w) \<Rightarrow> fti_conf \<Rightarrow> int \<Rightarrow> 'w \<Rightarrow> 'w res" where
  "remove_symlink sys_remove c cid = remove_links sys_remove (io_rank c) [global_dir c @ [dec cid], meta_dir c @ [dec cid]]"

text \<open>The links would stand where staging puts the directory of the checkpoint.\<close>

lemma symlink_is_checkpoint: "snd (hd (symlinks c cid)) = l2_ckpt c cid"
  by (simp add: symlinks_def l2_ckpt_def)

lemma remove_created_links: "remove_symlink r c cid = remove_links r (io_rank c) (map snd (symlinks c cid))"
  by (rule ext) (simp add: remove_symlink_def symlinks_def)

section \<open>The head of a node\<close>

text \<open>What the first turn takes from outside: the address of the weight server, the library's topology.\<close>

record head_start =
  hs_gp_node :: "string option"
  hs_host :: string
  hs_connect :: "string \<Rightarrow> int"
  hs_bufs :: nat
  hs_topology :: fti_topology
  hs_directories :: fti_directories

text \<open>
  \<open>hd\_init\<close> is the static flag of callback; \<open>hd\_capacity\<close> and \<open>hd\_sizes\<close> are what the application
  processes sent and the head has not received yet.
\<close>

record 'f head =
  hd_init :: bool
  hd_worker :: "'f worker"
  hd_core :: "fti_core option"
  hd_socket :: "string option"
  hd_capacity :: "nat list"
  hd_sizes :: "nat list"
  hd_proc_sizes :: "nat list"

definition server_init :: "head_start \<Rightarrow> 'f head \<Rightarrow> 'f head res" where
  "server_init st h =
     (case hs_gp_node st of
        None \<Rightarrow> Inl Assertion_failed
      | Some name \<Rightarrow>
          let port_name = fix_port_name (hs_host st) name
          in io_try (hs_connect st port_name = 0) (Inr (h\<lparr>hd_socket := Some port_name\<rparr>)))"

text \<open>One size of each application process of the node; a negative number of them is a vector too long.\<close>

definition receive_sizes :: "int \<Rightarrow> 'f head \<Rightarrow> (nat \<times> nat list \<times> 'f head) res" where
  "receive_sizes n h =
     (case hd_capacity h of
        [] \<Rightarrow> Inl Blocked
      | c # cs \<Rightarrow>
          if n < 0 then Inl Length_error
          else if length (hd_sizes h) < nat n then Inl Blocked
          else Inr (c, take (nat n) (hd_sizes h), h\<lparr>hd_capacity := cs, hd_sizes := drop (nat n) (hd_sizes h)\<rparr>))"

definition first_turn :: "head_start \<Rightarrow> 'f env \<Rightarrow> 'f head \<Rightarrow> 'f head res" where
  "first_turn st e h =
     and_then (server_init st h) (\<lambda>h.
     let core = init_core (hs_bufs st) True (hs_topology st) (hs_directories st) in
     and_then (filelist_local (env_conf e) \<lparr>st_t = 0, st_id = 1\<rparr>) (\<lambda>_.
     and_then (receive_sizes (the (dict_int core ''app_procs_node'')) h) (\<lambda>(capacity, sizes, h).
     and_then (init_pool capacity sizes) (\<lambda>p.
     Inr (h\<lparr>hd_init := True, hd_core := Some core, hd_proc_sizes := sizes,
            hd_worker := (hd_worker h)\<lparr>pool := (pool (hd_worker h))\<lparr>pool_capacity := pool_capacity p\<rparr>\<rparr>\<rparr>)))))"

text \<open>The sizes the controller keeps are those staging works with.\<close>

definition head_env :: "'f env \<Rightarrow> 'f head \<Rightarrow> 'f env" where
  "head_env e h = e\<lparr>env_conf := (env_conf e)\<lparr>proc_sizes := hd_proc_sizes h\<rparr>\<rparr>"

text \<open>A turn; answering the end of the application closes the socket to the server.\<close>

definition head_turn :: "head_start \<Rightarrow> 'f env \<Rightarrow> int \<Rightarrow> 'f head \<Rightarrow> 'f head res" where
  "head_turn st e clock h =
     and_then (if hd_init h then Inr h else first_turn st e h) (\<lambda>h.
     and_then (worker_callback (head_env e h) clock (hd_worker h)) (\<lambda>w.
     if hd_socket h = None \<and> requests w \<noteq> requests (hd_worker h) then Inl Undefined_behaviour
     else Inr (h\<lparr>hd_worker := w,
                 hd_socket := (if finis_answered w = finis_answered (hd_worker h) then hd_socket h else None)\<rparr>)))"

text \<open>A head when FTI enters its loop; the capacity of the pool is not set.\<close>

definition new_head :: "nat \<Rightarrow> 'f world \<Rightarrow> 'f head" where
  "new_head capacity fs =
     \<lparr>hd_init = False, hd_worker = fresh_worker capacity fs, hd_core = None, hd_socket = None, hd_capacity = [],
      hd_sizes = [], hd_proc_sizes = []\<rparr>"

text \<open>
  The messages of the application processes: capacity and sizes (storage\_init), weights, loads and
  the end; they arrive in any order with the turns of the head. The library may change the
  files as long as the cached states stay local. A step is labelled with the number of weights it
  takes of states that are cached already.
\<close>

inductive head_step :: "head_start \<Rightarrow> 'f env \<Rightarrow> nat \<Rightarrow> 'f head \<Rightarrow> 'f head \<Rightarrow> bool" for st e where
  capacity: "head_step st e 0 h (h\<lparr>hd_capacity := hd_capacity h @ [c]\<rparr>)"
| proc_size: "head_step st e 0 h (h\<lparr>hd_sizes := hd_sizes h @ [n]\<rparr>)"
| post: "head_step st e 0 h (h\<lparr>hd_worker := (hd_worker h)\<lparr>posts := posts (hd_worker h) @ [m]\<rparr>\<rparr>)"
| load: "head_step st e 0 h (h\<lparr>hd_worker := (hd_worker h)\<lparr>loads := loads (hd_worker h) @ [ids]\<rparr>\<rparr>)"
| fini: "head_step st e 0 h (h\<lparr>hd_worker := (hd_worker h)\<lparr>finis := finis (hd_worker h) + 1\<rparr>\<rparr>)"
| checkpoint: "(\<And>d. fti_stat_local (env_lib e) d (files (hd_worker h)) \<Longrightarrow> fti_stat_local (env_lib e) d fs) \<Longrightarrow>
    head_step st e 0 h (h\<lparr>hd_worker := (hd_worker h)\<lparr>files := fs\<rparr>\<rparr>)"
| turn: "head_turn st e clock h = Inr h' \<Longrightarrow> head_step st e (slots_lost (hd_worker h)) h h'"

text \<open>The heads reached from the start, with the number of weights that came again.\<close>

inductive head_reaches :: "head_start \<Rightarrow> 'f env \<Rightarrow> nat \<Rightarrow> 'f world \<Rightarrow> nat \<Rightarrow> 'f head \<Rightarrow> bool" for st e cap fs where
  start: "head_reaches st e cap fs 0 (new_head cap fs)"
| step: "head_reaches st e cap fs n h \<Longrightarrow> head_step st e m h h' \<Longrightarrow> head_reaches st e cap fs (n + m) h'"

section \<open>The head refines a bounded cache from its start\<close>

lemma init_pool_bound: "init_pool c sizes = Inr p \<Longrightarrow> pool_capacity p \<le> 4"
  by (auto simp: init_pool_def Let_def STORAGE_MAX_PREFETCH_def split: if_splits)

lemma receive_sizes_Inr: "receive_sizes n h = Inr (c, sizes, h') \<Longrightarrow> hd_worker h' = hd_worker h \<and> hd_socket h' = hd_socket h"
  by (auto simp: receive_sizes_def split: list.splits if_splits)

lemma server_init_Inr: "server_init st h = Inr h' \<Longrightarrow> hd_worker h' = hd_worker h \<and> hd_socket h' \<noteq> None"
  by (auto simp: server_init_def Let_def split: option.splits)

lemma first_turn_Inr:
  assumes "first_turn st e h = Inr h'"
  shows "hd_init h' \<and> hd_socket h' \<noteq> None \<and>
     (\<exists>c. c \<le> 4 \<and> hd_worker h' = (hd_worker h)\<lparr>pool := (pool (hd_worker h))\<lparr>pool_capacity := c\<rparr>\<rparr>)"
  using assms unfolding first_turn_def Let_def
  by (auto simp: and_then_Inr_iff dest!: receive_sizes_Inr server_init_Inr init_pool_bound)

definition head_inv :: "nat \<Rightarrow> 'f env \<Rightarrow> 'f head \<Rightarrow> bool" where
  "head_inv n e h \<longleftrightarrow>
     (if hd_init h then worker_inv n e (hd_worker h) \<and> pool_capacity (pool (hd_worker h)) \<le> 4 \<and>
        (cache_step (pool_capacity (pool (hd_worker h))))\<^sup>*\<^sup>* {} (cache_of (hd_worker h))
      else n = 0 \<and> cached_states (hd_worker h) = [] \<and> pool_used (pool (hd_worker h)) = 0)"

lemma first_turn_inv: "first_turn st e h = Inr h' \<Longrightarrow> head_inv n e h \<Longrightarrow> \<not> hd_init h \<Longrightarrow> head_inv n e h'"
  by (auto simp: head_inv_def worker_inv_def pool_range_def cache_of_def dest!: first_turn_Inr)

lemma head_env_simps [simp]: "env_lib (head_env e h) = env_lib e" "env_server (head_env e h) = env_server e"
  by (simp_all add: head_env_def)

lemma head_env_inv [simp]: "worker_inv n (head_env e h) w = worker_inv n e w" "served (head_env e h) rs = served e rs"
  by (simp_all add: worker_inv_def served_def)

text \<open>A turn is a turn of the worker, on what the first turn has set up.\<close>

lemma head_turn_Inr:
  assumes "head_turn st e clock h = Inr h'"
  obtains v where "(if hd_init h then Inr h else first_turn st e h) = Inr v"
    "worker_callback (head_env e v) clock (hd_worker v) = Inr (hd_worker h')" "hd_init h' = hd_init v" "hd_init v"
    "posts (hd_worker v) = posts (hd_worker h)" "cached_states (hd_worker v) = cached_states (hd_worker h)"
    "requests (hd_worker v) = requests (hd_worker h)"
proof -
  obtain v where v: "(if hd_init h then Inr h else first_turn st e h) = Inr v"
      and w: "worker_callback (head_env e v) clock (hd_worker v) = Inr (hd_worker h')" "hd_init h' = hd_init v"
    using assms by (auto simp: head_turn_def and_then_Inr_iff split: if_splits)
  then show thesis using first_turn_Inr [of st e h v] that by (auto split: if_splits)
qed

lemma head_turn_inv:
  assumes t: "head_turn st e clock h = Inr h'" and i: "head_inv n e h" and lib: "lib_ok (env_lib e)"
    and srv: "served e (requests (hd_worker h'))"
  shows "head_inv (n + slots_lost (hd_worker h)) e h'"
  using t
proof (rule head_turn_Inr)
  fix v assume v: "(if hd_init h then Inr h else first_turn st e h) = Inr v"
    "worker_callback (head_env e v) clock (hd_worker v) = Inr (hd_worker h')" "hd_init h' = hd_init v" "hd_init v"
    "posts (hd_worker v) = posts (hd_worker h)" "cached_states (hd_worker v) = cached_states (hd_worker h)"
  have iv: "head_inv n e v" using v(1) i first_turn_inv [of st e h v n] by (auto split: if_splits)
  have "simulates (n + slots_lost (hd_worker v)) (head_env e v) (hd_worker v) (hd_worker h')"
    by (rule worker_turn_simulates [OF _ _ _ v(2)]) (use iv lib srv v(4) in \<open>simp_all add: head_inv_def\<close>)
  moreover have "slots_lost (hd_worker v) = slots_lost (hd_worker h)"
    unfolding slots_lost_def posted_again_def v(5,6) ..
  ultimately show ?thesis using iv v(3,4) by (auto simp: head_inv_def simulates_def)
qed

lemma head_inv_same:
  assumes "head_inv n e h" "hd_init h' = hd_init h" "cached_states (hd_worker h') = cached_states (hd_worker h)"
    "pool (hd_worker h') = pool (hd_worker h)"
    "\<And>d. fti_stat_local (env_lib e) d (files (hd_worker h)) \<Longrightarrow> fti_stat_local (env_lib e) d (files (hd_worker h'))"
  shows "head_inv n e h'"
proof (cases "hd_init h")
  case True
  then have "worker_inv n e (hd_worker h)" using assms(1) by (simp add: head_inv_def)
  then have "simulates n e (hd_worker h) (hd_worker h')" using assms(3-5) by (rule simulates_same)
  then show ?thesis using assms True by (simp add: head_inv_def simulates_def cache_of_def)
next
  case False
  then show ?thesis using assms by (simp add: head_inv_def)
qed

lemma head_step_asks: "head_step st e m h h' \<Longrightarrow> prefix (requests (hd_worker h)) (requests (hd_worker h'))"
proof (induction rule: head_step.induct)
  case (turn clock h h')
  obtain v where "worker_callback (head_env e v) clock (hd_worker v) = Inr (hd_worker h')"
      "requests (hd_worker v) = requests (hd_worker h)"
    using head_turn_Inr [OF turn] by blast
  then show ?case using worker_callback_asks by fastforce
qed simp_all

lemma head_step_inv:
  assumes "head_step st e m h h'" "head_inv n e h" "lib_ok (env_lib e)" "served e (requests (hd_worker h'))"
  shows "head_inv (n + m) e h'"
  using assms
proof cases
  case (turn clock)
  then show ?thesis using assms(2-) head_turn_inv by blast
qed (auto intro: head_inv_same)

lemma head_reaches_inv:
  assumes "head_reaches st e cap fs n h" "lib_ok (env_lib e)" "served e (requests (hd_worker h))"
  shows "head_inv n e h"
  using assms
proof induction
  case start
  then show ?case by (simp add: head_inv_def new_head_def fresh_worker_def)
next
  case (step n h m h')
  then have "served e (requests (hd_worker h))" using head_step_asks [OF step.hyps(2)] served_prefix by blast
  then show ?case using step head_step_inv by blast
qed

text \<open>
  C9. From the start of a head on, whatever its application processes send and in whatever order
  the messages and the turns of the head come. The library keeps its contract: which checkpoints are
  local is its own record, which noting and removing a checkpoint change at that checkpoint only.
  The server has so far answered as to a runner it does not hold to be faulty: it has deleted one of
  the states it was offered and dumped none. Then, once the head has taken the capacity and the
  sizes: the pool has at most four slots; the cached states are at most as many as it has slots;
  every one is local under its own id; their set came about by putting states while there was room
  and evicting cached ones; and the used slots are the cached states and one more for every weight
  that came of a state when it was cached already, since the pool counts it again.
\<close>

theorem head_refines_bounded_cache:
  assumes "head_reaches st e cap fs n h" "hd_init h" "lib_ok (env_lib e)" "served e (requests (hd_worker h))"
  shows "pool_used (pool (hd_worker h)) = int (card (cache_of (hd_worker h)) + n) \<and>
     card (cache_of (hd_worker h)) + n \<le> pool_capacity (pool (hd_worker h)) \<and> pool_capacity (pool (hd_worker h)) \<le> 4 \<and>
     (\<forall>s \<in> cache_of (hd_worker h). \<exists>cid. to_ckpt_id s = Inr cid \<and> fti_stat_local (env_lib e) cid (files (hd_worker h))) \<and>
     (cache_step (pool_capacity (pool (hd_worker h))))\<^sup>*\<^sup>* {} (cache_of (hd_worker h))"
proof -
  have i: "head_inv n e h" using head_reaches_inv [OF assms(1,3,4)] .
  then have "worker_inv n e (hd_worker h)" using assms(2) by (simp add: head_inv_def)
  then show ?thesis using card_cache [of n e "hd_worker h"] i assms(2)
    by (auto simp: head_inv_def worker_inv_def pool_range_def cache_of_def)
qed

definition example_start :: head_start where
  "example_start =
     \<lparr>hs_gp_node = Some ''tcp://n1:4000'', hs_host = ''n2'', hs_connect = (\<lambda>_. 0), hs_bufs = 256,
      hs_topology = \<lparr>nbNodes = 1, nodeSize = 3, nbHeads = 1, nbProc = 3, masterLocal = True, masterGlobal = True\<rparr>,
      hs_directories = \<lparr>glbalDir = ''g/x'', localDir = ''l/x'', metadDir = ''m/x'', tmpDir = ''t'', execution_id = ''x''\<rparr>\<rparr>"

definition told_head :: "int list head" where
  "told_head = (new_head 0 (pfs_with_state ''n2'', []))\<lparr>hd_capacity := [1000], hd_sizes := [3, 2],
     hd_worker := (fresh_worker 0 (pfs_with_state ''n2'', []))\<lparr>loads := [[\<lparr>st_t = 0, st_id = 7\<rparr>]]\<rparr>\<rparr>"

lemma told_head_reached: "head_reaches example_start list_env 0 (pfs_with_state ''n2'', []) 0 told_head"
proof -
  let ?h = "new_head 0 (pfs_with_state ''n2'', []) :: int list head"
    and ?R = "head_reaches example_start list_env 0 (pfs_with_state ''n2'', []) 0"
  let ?a = "?h\<lparr>hd_capacity := [1000]\<rparr>" let ?b = "?a\<lparr>hd_sizes := [3]\<rparr>" let ?c = "?b\<lparr>hd_sizes := [3, 2]\<rparr>"
  have one: "?R h'" if "?R h" "head_step example_start list_env 0 h h'" for h h'
    using head_reaches.step [OF that] by simp
  have "?R ?h" by (rule head_reaches.start)
  then have "?R ?a" by (rule one) (use head_step.capacity [of _ _ ?h 1000] in \<open>simp add: new_head_def\<close>)
  then have "?R ?b" by (rule one) (use head_step.proc_size [of _ _ ?a 3] in \<open>simp add: new_head_def\<close>)
  then have "?R ?c" by (rule one) (use head_step.proc_size [of _ _ ?b 2] in \<open>simp add: new_head_def\<close>)
  then show ?thesis
    by (rule one) (use head_step.load [of _ _ ?c "[\<lparr>st_t = 0, st_id = 7\<rparr>]"] in \<open>simp add: told_head_def new_head_def fresh_worker_def\<close>)
qed

theorem head_refines_bounded_cache_witness:
  "\<exists>h. head_reaches example_start list_env 0 (pfs_with_state ''n2'', []) 0 h \<and> hd_init h \<and>
     pool_used (pool (hd_worker h)) = int (card (cache_of (hd_worker h))) \<and>
     (cache_step 4)\<^sup>*\<^sup>* {} (cache_of (hd_worker h))"
proof -
  let ?s = "\<lparr>st_t = 0, st_id = 7\<rparr>" and ?core = "init_core 256 True (hs_topology example_start) (hs_directories example_start)"
  obtain v where v: "pull_head list_env ?s (fresh_worker 4 (pfs_with_state ''n2'', [])) = Inr v"
    using pull_head_serves [OF example_serve] by blast
  let ?f = "told_head\<lparr>hd_socket := Some ''tcp://n1:4000'', hd_init := True, hd_core := Some ?core, hd_capacity := [], hd_sizes := [],
    hd_proc_sizes := [3, 2], hd_worker := waiting_worker\<rparr>"
  have port: "fix_port_name ''n2'' ''tcp://n1:4000'' = ''tcp://n1:4000''" by code_simp
  obtain fl where fl: "filelist_local (env_conf list_env) \<lparr>st_t = 0, st_id = 1\<rparr> = Inr fl"
    by (simp add: filelist_local_def to_ckpt_id_def int_value_def)
  have pool: "init_pool 1000 [3, 2] = Inr \<lparr>pool_capacity = 4, pool_used = 0\<rparr>"
    by (simp add: init_pool_def node_size_def size64_def size_minus_def io_try_def STORAGE_MAX_PREFETCH_def)
  have f: "first_turn example_start list_env told_head = Inr ?f"
    by (simp add: first_turn_def server_init_def port fl receive_sizes_def pool told_head_def new_head_def Let_def io_try_def
        example_start_def init_core_def waiting_worker_def fresh_worker_def)
  have e: "head_env list_env ?f = list_env"
    by (simp add: head_env_def list_env_def node_conf_def)
  have w: "worker_callback list_env 0 waiting_worker = Inr (v\<lparr>loads_answered := loads_answered v + 1\<rparr>)"
    using v by (simp add: worker_callback_def waiting_worker_def request_load_def fresh_worker_def)
  have "\<exists>h. head_turn example_start list_env 0 told_head = Inr h \<and> hd_init h \<and>
      hd_worker h = v\<lparr>loads_answered := loads_answered v + 1\<rparr>"
    using f e w by (simp add: head_turn_def told_head_def new_head_def)
  then obtain h where h: "head_turn example_start list_env 0 told_head = Inr h" "hd_init h"
      "hd_worker h = v\<lparr>loads_answered := loads_answered v + 1\<rparr>" by blast
  have lost: "slots_lost (hd_worker told_head) = 0"
    by (simp add: told_head_def fresh_worker_def slots_lost_def posted_again_def)
  have r: "head_reaches example_start list_env 0 (pfs_with_state ''n2'', []) 0 h"
    using head_reaches.step [OF told_head_reached head_step.turn [OF h(1)]] lost by simp
  have "pool_capacity (pool (hd_worker h)) = 4"
    using worker_turn_simulates [OF _ list_env_ok w, of 0] h(3)
    by (simp add: simulates_def worker_inv_def waiting_worker_def fresh_worker_def pool_range_def)
  with head_refines_bounded_cache [OF r h(2) list_env_ok] h(2) r show ?thesis by auto
qed

end
