(* ===== verification/AppReporting.thy ===== *)
theory AppReporting
  imports AppCore TimingReports StorageEntry
begin

text \<open>
  What rank 0 of a runner of the peer-to-peer mode sends besides its requests (app\_core.cxx): the
  weight of a state to the head of its node, through a buffer that is used again, and the timing
  report.
\<close>

section \<open>The weight\<close>

text \<open>
  The static variables of push\_weight\_to\_head. An isend reads the buffer at the latest when it is
  waited for: \<open>pw\_pending\<close> is the number of bytes a pending send will take from the buffer.
\<close>

record push_state =
  pw_buf :: "byte list"
  pw_wait :: bool
  pw_pending :: "nat option"
  pw_delivered :: "byte list list"

definition new_push :: push_state where
  "new_push = \<lparr>pw_buf = [0], pw_wait = False, pw_pending = None, pw_delivered = []\<rparr>"

definition req_wait :: "push_state \<Rightarrow> push_state" where
  "req_wait p =
     (case pw_pending p of
        None \<Rightarrow> p
      | Some n \<Rightarrow> p\<lparr>pw_pending := None, pw_delivered := pw_delivered p @ [take n (pw_buf p)]\<rparr>)"

definition req_isend :: "nat \<Rightarrow> push_state \<Rightarrow> push_state" where
  "req_isend n p = p\<lparr>pw_pending := Some n\<rparr>"

text \<open>\<open>serialize\<close> is that of the protocol buffers.\<close>

definition push_weight_to_head ::
  "(message \<Rightarrow> byte list) \<Rightarrow> int \<Rightarrow> message \<Rightarrow> push_state \<Rightarrow> push_state res" where
  "push_weight_to_head serialize rank m p =
     assert_then (rank = 0)
      (let p = (if pw_wait p then req_wait p else p);
           bytes = serialize m; bs = length bytes;
           p = (if bs > length (pw_buf p) then p\<lparr>pw_buf := resize bs 0 (pw_buf p)\<rparr> else p);
           p = p\<lparr>pw_buf := copy_into 0 bytes (pw_buf p)\<rparr>
       in Inr ((req_wait (req_isend bs p))\<lparr>pw_wait := True\<rparr>))"

fun push_weights :: "(message \<Rightarrow> byte list) \<Rightarrow> int \<Rightarrow> message list \<Rightarrow> push_state \<Rightarrow> push_state res" where
  "push_weights serialize rank [] p = Inr p"
| "push_weights serialize rank (m # ms) p =
     and_then (push_weight_to_head serialize rank m p) (push_weights serialize rank ms)"

lemma push_weight_delivers:
  assumes "pw_pending p = None"
  shows "\<exists>p'. push_weight_to_head serialize 0 m p = Inr p' \<and> pw_pending p' = None \<and>
     pw_delivered p' = pw_delivered p @ [serialize m] \<and> length (pw_buf p') = max (length (pw_buf p)) (length (serialize m))"
  using assms
  by (auto simp: push_weight_to_head_def req_wait_def req_isend_def copy_into_def resize_def Let_def max_def)

text \<open>
  Every weight reaches the head with exactly the bytes of its message, whatever the lengths of
  the messages before it left in the buffer, and no send is pending when the buffer changes.
\<close>

lemma weights_are_delivered:
  "pw_pending p = None \<Longrightarrow> \<exists>p'. push_weights serialize 0 ms p = Inr p' \<and> pw_pending p' = None \<and>
     pw_delivered p' = pw_delivered p @ map serialize ms"
proof (induction ms arbitrary: p)
  case (Cons m ms)
  obtain v where v: "push_weight_to_head serialize 0 m p = Inr v" "pw_pending v = None"
      "pw_delivered v = pw_delivered p @ [serialize m]"
    using push_weight_delivers [OF Cons.prems] by blast
  show ?case using Cons.IH [OF v(2)] v by auto
qed simp

section \<open>The timing report\<close>

definition p2p_region :: "string \<Rightarrow> string \<Rightarrow> event_type_translation" where
  "p2p_region ev name =
     \<lparr>enter_type = event_code (''START_'' @ ev), leave_type = event_code (''STOP_'' @ ev), region_name = name\<rparr>"

definition p2p_regions :: "event_type_translation list" where
  "p2p_regions =
     [p2p_region ''ITERATION'' ''Iteration'', p2p_region ''PROPAGATE_STATE'' ''Propagation'',
      p2p_region ''IDLE_RUNNER'' ''Runner idle''] @
     map (\<lambda>ev. p2p_region ev (''_'' @ ev))
      [''INIT'', ''JOB_REQUEST'', ''LOAD'', ''FTI_LOAD'', ''MODEL_MESSAGE'', ''M_LOAD_USER'', ''CHECK_LOCAL'', ''WAIT_HEAD'',
       ''CALC_WEIGHT'', ''LOAD_OBS'', ''PUSH_WEIGHT_TO_HEAD'', ''STORE'', ''IDLE_FTI_HEAD'', ''PUSH_STATE_TO_PFS'',
       ''PREFETCH'', ''PREFETCH_REQ'', ''REQ_RUNNER'', ''COPY_STATE_FROM_RUNNER'', ''COPY_STATE_TO_RUNNER'',
       ''COPY_STATE_FROM_PFS'', ''DELETE'', ''DELETE_REQ'', ''DELETE_LOCAL'', ''DELETE_PFS'', ''REQ_RUNNER_LIST'',
       ''REQ_STATE_FROM_RUNNER'', ''HANDLE_AVAIL_REQ'', ''HANDLE_STATE_REQ'', ''PUSH_WEIGHT_TO_SERVER'']"

text \<open>The regions have different names, so the trace tells them apart.\<close>

lemma p2p_regions_named: "length p2p_regions = 32 \<and> distinct (map region_name p2p_regions)"
  by (simp add: p2p_regions_def p2p_region_def)

record p2p_report =
  pr_runner :: "(api_row list \<times> run_information) option"
  pr_file :: string
  pr_hostinfo :: string
  pr_regions :: "region list"

definition report_file :: "bool \<Rightarrow> int \<Rightarrow> string" where
  "report_file head rid = ''runner-'' @ setw 3 (dec rid) @ (if head then ''-head'' else ''-app'')"

definition hostinfo_file :: "int \<Rightarrow> string" where
  "hostinfo_file rid = ''runner-'' @ setw 5 (dec rid) @ ''.hostinfo.csv''"

text \<open>maybe\_report; the runner id is not negative.\<close>

definition p2p_maybe_report ::
  "int \<Rightarrow> int \<Rightarrow> bool \<Rightarrow> int \<Rightarrow> nat \<Rightarrow> bool \<Rightarrow> timing \<Rightarrow> (p2p_report option \<times> timing) res" where
  "p2p_maybe_report clock rank head rid state_size p2p t =
     (case is_time_to_write clock t of (due, t) \<Rightarrow>
        if due \<and> rank = 0 then
          and_then (if head then Inr None else and_then (api_timing_report rid state_size t) (\<lambda>r. Inr (Some r))) (\<lambda>r.
          Inr (Some \<lparr>pr_runner = r, pr_file = report_file head rid, pr_hostinfo = hostinfo_file rid,
                     pr_regions = write_region_csv p2p p2p_regions t\<rparr>, t))
        else Inr (None, t))"

text \<open>There is one report at most.\<close>

lemma p2p_report_once:
  assumes "p2p_maybe_report clock rank head rid n p2p t = Inr (r, t')" "r \<noteq> None"
  shows "p2p_maybe_report clock' rank head rid n p2p t' = Inr (None, t')"
proof -
  have "wrote t'" using assms
    by (auto simp: p2p_maybe_report_def is_time_to_write_def and_then_Inr_iff split: if_splits)
  then show ?thesis by (simp add: p2p_maybe_report_def is_time_to_write_def)
qed

end
