(* ===== verification/Halo.thy ===== *)
theory Halo
  imports Prelude
begin

text \<open>
  The simulation examples/lorenz/lorenz.cxx, part one: the blocks of the ranks, and the exchange of
  ghost cells between the ranks as MPI messages, which never blocks.
\<close>

section \<open>The blocks\<close>

definition MPI_MIN_BLK :: nat where
  "MPI_MIN_BLK = 1"

text \<open>One pass over the ranks; what is left of the remainder.\<close>

fun spread_pass :: "int list \<Rightarrow> nat \<Rightarrow> int list \<times> nat" where
  "spread_pass [] m = ([], m)"
| "spread_pass (x # xs) m =
     (if m > MPI_MIN_BLK
      then (case spread_pass xs (m - MPI_MIN_BLK) of (ys, m') \<Rightarrow> ((x + int MPI_MIN_BLK) # ys, m'))
      else (int32 (x + int m) # xs, 0))"

lemma spread_pass_less: "m > 0 \<Longrightarrow> xs \<noteq> [] \<Longrightarrow> snd (spread_pass xs m) < m"
proof (induction xs arbitrary: m)
  case (Cons x xs)
  then show ?case
  proof (cases "xs = [] \<or> m \<le> 1")
    case False
    then show ?thesis using Cons.IH [of "m - 1"] by (auto simp: MPI_MIN_BLK_def split: prod.splits)
  qed (auto simp: MPI_MIN_BLK_def)
qed simp

text \<open>There is at least one rank.\<close>

function spread :: "int list \<Rightarrow> nat \<Rightarrow> int list" where
  "spread xs m = (if m > 0 \<and> xs \<noteq> [] then (case spread_pass xs m of (ys, m') \<Rightarrow> spread ys m') else xs)"
  by pat_completeness auto

termination
proof (relation "measure snd")
  fix xs m x y assume "0 < m \<and> xs \<noteq> []" "(x, y) = spread_pass xs m"
  then show "((x, y), xs, m) \<in> measure snd" using spread_pass_less [of m xs] by (metis in_measure snd_conv)
qed simp

declare spread.simps [simp del]

definition nl_all :: "nat \<Rightarrow> nat \<Rightarrow> int list" where
  "nl_all NG comm_size = spread (replicate comm_size (int32 (int (NG div comm_size)))) (NG mod comm_size)"

definition mpi_left :: "nat \<Rightarrow> nat \<Rightarrow> nat" where
  "mpi_left comm_size r = (if r = 0 then comm_size - 1 else r - 1)"

definition mpi_right :: "nat \<Rightarrow> nat \<Rightarrow> nat" where
  "mpi_right comm_size r = (if r = 0 then r + 1 else if r = comm_size - 1 then 0 else r + 1)"

record lorenz_rank =
  lo_nl :: nat
  lo_nlt :: nat
  state_min_p :: nat
  state_max_p :: nat

definition init_parallel :: "nat \<Rightarrow> nat \<Rightarrow> nat \<Rightarrow> lorenz_rank" where
  "init_parallel NG comm_size r =
     (let nls = nl_all NG comm_size; nl = size64 (nls ! r);
          nl_off = foldl (\<lambda>off i. size64 (int off + nls ! i)) 0 [0..<r]
      in \<lparr>lo_nl = nl, lo_nlt = size64 (int nl + 3), state_min_p = nl_off, state_max_p = size64 (int nl_off + int nl - 1)\<rparr>)"

text \<open>The first ranks have one cell more.\<close>

lemma spread_pass_blocks:
  "m < length xs \<Longrightarrow> \<forall>x \<in> set xs. 0 \<le> x \<and> x + int m < 2 ^ 31 \<Longrightarrow>
     spread_pass xs m = (map (\<lambda>i. xs ! i + (if i < m then 1 else 0)) [0..<length xs], 0)"
proof (induction xs arbitrary: m)
  case (Cons x xs)
  have tl: "map (\<lambda>i. (x # xs) ! i + (if i < m then 1 else 0)) [0..<length (x # xs)] =
      (x + (if 0 < m then 1 else 0)) # map (\<lambda>i. xs ! i + (if i < m - 1 then 1 else 0)) [0..<length xs]"
    by (simp add: map_upt_Suc del: upt_Suc) (auto intro: map_cong)
  show ?case
  proof (cases "m \<le> 1")
    case True
    then have "m = 0 \<or> m = 1" by auto
    moreover have "map ((!) xs) [0..<length xs] = xs" by (simp add: map_nth)
    moreover have "int32 (x + int m) = x + int m" using Cons.prems(2) by (auto intro: int32_id)
    ultimately show ?thesis unfolding tl by (auto simp: MPI_MIN_BLK_def)
  next
    case False
    then have "spread_pass xs (m - 1) = (map (\<lambda>i. xs ! i + (if i < m - 1 then 1 else 0)) [0..<length xs], 0)"
      using Cons.prems by (intro Cons.IH) auto
    with False show ?thesis unfolding tl by (simp add: MPI_MIN_BLK_def)
  qed
qed simp

lemma nl_all_blocks:
  assumes "0 < n" "NG < 2 ^ 31"
  shows "nl_all NG n = map (\<lambda>r. int (NG div n + (if r < NG mod n then 1 else 0))) [0..<n]"
proof -
  have d: "int32 (int (NG div n)) = int (NG div n)"
    using assms(2) div_le_dividend [of NG n] by (intro int32_id) (auto simp del: div_le_dividend)
  have "NG div n + NG mod n \<le> NG" using assms(1) by (metis add.commute div_mult_mod_eq le_add1 mult.commute nat_mult_1 add_le_mono1 mult_le_mono1 Suc_leI One_nat_def)
  then have "spread_pass (replicate n (int (NG div n))) (NG mod n) =
      (map (\<lambda>i. int (NG div n) + (if i < NG mod n then 1 else 0)) [0..<n], 0)"
    using assms spread_pass_blocks [of "NG mod n" "replicate n (int (NG div n))"] by (auto cong: map_cong)
  then show ?thesis
    using assms(1) unfolding nl_all_def d
    by (subst spread.simps) (auto simp: spread.simps [of _ 0] map_replicate_const [symmetric] intro!: nth_equalityI)
qed

section \<open>The exchange of ghost cells\<close>

text \<open>
  A send takes some cells from an offset, a receive puts what it gets at an offset. The vector of a
  rank has two ghost cells of the left neighbour, the own cells, and one of the right neighbour.
\<close>

datatype halo_op =
    Halo_send nat nat nat
  | Halo_recv nat nat nat

definition exchange_ops :: "nat \<Rightarrow> nat \<Rightarrow> nat \<Rightarrow> halo_op list" where
  "exchange_ops n r nlt =
     (if r mod 2 = 0
      then [Halo_send (mpi_right n r) (nlt - 3) 2, Halo_recv (mpi_left n r) 0 2,
            Halo_send (mpi_left n r) 2 1, Halo_recv (mpi_right n r) (nlt - 1) 1]
      else [Halo_recv (mpi_left n r) 0 2, Halo_send (mpi_right n r) (nlt - 3) 2,
            Halo_recv (mpi_right n r) (nlt - 1) 1, Halo_send (mpi_left n r) 2 1])"

definition exchange_one :: "'a list \<Rightarrow> 'a list" where
  "exchange_one x =
     (let nlt = length x; x = x[0 := x ! (nlt - 3)]; x = x[1 := x ! (nlt - 2)] in x[nlt - 1 := x ! 2])"

text \<open>
  A step of two ranks: MPI\_Send may wait for the receiver, so here it does. \<open>pc\<close> counts the calls a rank
  has finished.
\<close>

inductive halo_step :: "nat \<Rightarrow> nat list \<times> 'a list list \<Rightarrow> nat list \<times> 'a list list \<Rightarrow> bool" for n where
  "a < n \<Longrightarrow> b < n \<Longrightarrow> pc ! a < 4 \<Longrightarrow> pc ! b < 4 \<Longrightarrow>
   exchange_ops n a (length (xs ! a)) ! (pc ! a) = Halo_send b off c \<Longrightarrow>
   exchange_ops n b (length (xs ! b)) ! (pc ! b) = Halo_recv a off' c' \<Longrightarrow> c \<le> c' \<Longrightarrow>
   halo_step n (pc, xs)
     (pc[a := Suc (pc ! a), b := Suc (pc ! b)], xs[b := copy_into off' (take c (drop off (xs ! a))) (xs ! b)])"

text \<open>The positions of the calls; 1 and 2 are the two rounds, to the right and to the left.\<close>

definition s1 :: "nat \<Rightarrow> nat" where "s1 r = r mod 2"
definition r1 :: "nat \<Rightarrow> nat" where "r1 r = 1 - r mod 2"
definition s2 :: "nat \<Rightarrow> nat" where "s2 r = 2 + r mod 2"
definition r2 :: "nat \<Rightarrow> nat" where "r2 r = 3 - r mod 2"

lemmas positions = s1_def r1_def s2_def r2_def

lemma less4: "(k::nat) < 4 \<longleftrightarrow> k = 0 \<or> k = 1 \<or> k = 2 \<or> k = 3" by auto

lemma send_iff:
  "k < 4 \<Longrightarrow> exchange_ops n r m ! k = Halo_send b off c \<longleftrightarrow>
     k = s1 r \<and> b = mpi_right n r \<and> off = m - 3 \<and> c = 2 \<or> k = s2 r \<and> b = mpi_left n r \<and> off = 2 \<and> c = 1"
  by (cases "r mod 2 = 0") (auto simp: less4 exchange_ops_def positions)

lemma recv_iff:
  "k < 4 \<Longrightarrow> exchange_ops n r m ! k = Halo_recv b off c \<longleftrightarrow>
     k = r1 r \<and> b = mpi_left n r \<and> off = 0 \<and> c = 2 \<or> k = r2 r \<and> b = mpi_right n r \<and> off = m - 1 \<and> c = 1"
  by (cases "r mod 2 = 0") (auto simp: less4 exchange_ops_def positions)

lemma neighbours:
  assumes "2 \<le> n" "r < n"
  shows "mpi_left n r < n" "mpi_right n r < n" "mpi_left n (mpi_right n r) = r" "mpi_right n (mpi_left n r) = r"
    "mpi_right n r \<noteq> r" "mpi_left n r \<noteq> r"
  using assms by (auto simp: mpi_left_def mpi_right_def)

lemma neighbour_eq:
  assumes "2 \<le> n" "r < n" "q < n"
  shows "mpi_right n r = q \<longleftrightarrow> r = mpi_left n q" "mpi_left n r = q \<longleftrightarrow> r = mpi_right n q"
  using neighbours [OF assms(1)] assms(2,3) by metis+

lemma s_less4: "s1 r < 4" "r1 r < 4" "s2 r < 4" "r2 r < 4" "s1 r < s2 r" "s1 r < r2 r" "r1 r < s2 r" "r1 r < r2 r" "s1 r \<noteq> r1 r" "s2 r \<noteq> r2 r"
  by (cases "r mod 2 = 0"; simp add: positions)+

text \<open>After any steps every call has its partner, and the vectors hold what was received.\<close>

definition halo_vec :: "nat \<Rightarrow> 'a list list \<Rightarrow> nat \<Rightarrow> bool \<Rightarrow> bool \<Rightarrow> 'a list" where
  "halo_vec n xs r b1 b2 =
     (let x = xs ! r; l = xs ! mpi_left n r;
          x = (if b1 then copy_into 0 (take 2 (drop (length l - 3) l)) x else x)
      in if b2 then copy_into (length x - 1) (take 1 (drop 2 (xs ! mpi_right n r))) x else x)"

definition exchange_all :: "nat \<Rightarrow> 'a list list \<Rightarrow> 'a list list" where
  "exchange_all n xs = (if n = 1 then [exchange_one (hd xs)] else map (\<lambda>r. halo_vec n xs r True True) [0..<n])"

definition halo_inv :: "nat \<Rightarrow> 'a list list \<Rightarrow> nat list \<times> 'a list list \<Rightarrow> bool" where
  "halo_inv n xs s \<longleftrightarrow>
     length (fst s) = n \<and> length (snd s) = n \<and>
     (\<forall>r < n. fst s ! r \<le> 4 \<and>
        (s1 r < fst s ! r) = (r1 (mpi_right n r) < fst s ! mpi_right n r) \<and>
        (s2 r < fst s ! r) = (r2 (mpi_left n r) < fst s ! mpi_left n r) \<and>
        snd s ! r = halo_vec n xs r (r1 r < fst s ! r) (r2 r < fst s ! r))"

definition halo_ok :: "nat \<Rightarrow> 'a list list \<Rightarrow> bool" where
  "halo_ok n xs \<longleftrightarrow> length xs = n \<and> (\<forall>x \<in> set xs. 5 \<le> length x)"

lemma halo_vec_length:
  assumes "2 \<le> n" "halo_ok n xs" "r < n" shows "length (halo_vec n xs r b1 b2) = length (xs ! r)"
proof -
  have "5 \<le> length (xs ! r)" "5 \<le> length (xs ! mpi_left n r)" "5 \<le> length (xs ! mpi_right n r)"
    using assms neighbours [OF assms(1,3)] by (auto simp: halo_ok_def)
  then show ?thesis by (auto simp: halo_vec_def copy_into_def Let_def min_def)
qed

text \<open>The own cells do not change.\<close>

lemma halo_vec_own:
  assumes "2 \<le> n" "halo_ok n xs" "r < n"
  shows "take 2 (drop (length (xs ! r) - 3) (halo_vec n xs r b1 b2)) = take 2 (drop (length (xs ! r) - 3) (xs ! r))"
    "take 1 (drop 2 (halo_vec n xs r b1 b2)) = take 1 (drop 2 (xs ! r))"
proof -
  have l: "5 \<le> length (xs ! r)" "5 \<le> length (xs ! mpi_left n r)" "5 \<le> length (xs ! mpi_right n r)"
    using assms neighbours [OF assms(1,3)] by (auto simp: halo_ok_def)
  have nth: "halo_vec n xs r b1 b2 ! k = xs ! r ! k" if "2 \<le> k" "k < length (xs ! r) - 1" for k
  proof -
    have "Suc (Suc (k - 2)) = k" using that(1) by simp
    then show ?thesis using that l by (auto simp: halo_vec_def copy_into_def Let_def nth_append min_def)
  qed
  note len = halo_vec_length [OF assms, of b1 b2]
  show "take 2 (drop (length (xs ! r) - 3) (halo_vec n xs r b1 b2)) = take 2 (drop (length (xs ! r) - 3) (xs ! r))"
    using l len nth by (intro nth_equalityI) auto
  show "take 1 (drop 2 (halo_vec n xs r b1 b2)) = take 1 (drop 2 (xs ! r))"
    using l len nth by (intro nth_equalityI) auto
qed

lemma halo_inv_begin: "2 \<le> n \<Longrightarrow> length xs = n \<Longrightarrow> halo_inv n xs (replicate n 0, xs)"
  using neighbours by (auto simp: halo_inv_def halo_vec_def)

lemma pc_after:
  assumes "length pc = n" "a < n" "r < n"
  shows "pc ! a = s1 a \<Longrightarrow> pc' = pc[a := Suc (s1 a)] \<Longrightarrow>
      (s1 r < pc' ! r) = (r = a \<or> s1 r < pc ! r) \<and> (r1 r < pc' ! r) = (r1 r < pc ! r) \<and>
      (s2 r < pc' ! r) = (s2 r < pc ! r) \<and> (r2 r < pc' ! r) = (r2 r < pc ! r) \<and> (pc ! r \<le> 4 \<longrightarrow> pc' ! r \<le> 4)"
    "pc ! a = r1 a \<Longrightarrow> pc' = pc[a := Suc (r1 a)] \<Longrightarrow>
      (r1 r < pc' ! r) = (r = a \<or> r1 r < pc ! r) \<and> (s1 r < pc' ! r) = (s1 r < pc ! r) \<and>
      (s2 r < pc' ! r) = (s2 r < pc ! r) \<and> (r2 r < pc' ! r) = (r2 r < pc ! r) \<and> (pc ! r \<le> 4 \<longrightarrow> pc' ! r \<le> 4)"
    "pc ! a = s2 a \<Longrightarrow> pc' = pc[a := Suc (s2 a)] \<Longrightarrow>
      (s2 r < pc' ! r) = (r = a \<or> s2 r < pc ! r) \<and> (s1 r < pc' ! r) = (s1 r < pc ! r) \<and>
      (r1 r < pc' ! r) = (r1 r < pc ! r) \<and> (r2 r < pc' ! r) = (r2 r < pc ! r) \<and> (pc ! r \<le> 4 \<longrightarrow> pc' ! r \<le> 4)"
    "pc ! a = r2 a \<Longrightarrow> pc' = pc[a := Suc (r2 a)] \<Longrightarrow>
      (r2 r < pc' ! r) = (r = a \<or> r2 r < pc ! r) \<and> (s1 r < pc' ! r) = (s1 r < pc ! r) \<and>
      (r1 r < pc' ! r) = (r1 r < pc ! r) \<and> (s2 r < pc' ! r) = (s2 r < pc ! r) \<and> (pc ! r \<le> 4 \<longrightarrow> pc' ! r \<le> 4)"
  by (cases "r mod 2 = 0"; use assms in \<open>auto simp: positions nth_list_update\<close>)+

text \<open>A message of the first round.\<close>

lemma round1_inv:
  assumes n: "2 \<le> n" and ok: "halo_ok n xs" and i: "halo_inv n xs (pc, ys)" and a: "a < n" and b: "b = mpi_right n a"
    and pa: "pc ! a = s1 a" and pb: "pc ! b = r1 b"
  shows "halo_inv n xs (pc[a := Suc (pc ! a), b := Suc (pc ! b)],
     ys[b := copy_into 0 (take 2 (drop (length (ys ! a) - 3) (ys ! a))) (ys ! b)])"
proof -
  let ?q = "pc[a := Suc (pc ! a)]" let ?p = "?q[b := Suc (pc ! b)]"
  have len: "length pc = n" "length ys = n" using i by (simp_all add: halo_inv_def)
  have bn: "b < n" "b \<noteq> a" "mpi_left n b = a" using neighbours [OF n a] b by simp_all
  have q: "?q ! b = r1 b" using pb bn by simp
  have st: "(s1 r < ?p ! r) = (r = a \<or> s1 r < pc ! r) \<and> (r1 r < ?p ! r) = (r = b \<or> r1 r < pc ! r) \<and>
      (s2 r < ?p ! r) = (s2 r < pc ! r) \<and> (r2 r < ?p ! r) = (r2 r < pc ! r) \<and> (pc ! r \<le> 4 \<longrightarrow> ?p ! r \<le> 4)" if "r < n" for r
    using pc_after(1) [OF len(1) a that pa, of ?q] pc_after(2) [of ?q n b r, OF _ bn(1) that q, of ?p] len pa pb by auto
  have v: "ys ! r = halo_vec n xs r (r1 r < pc ! r) (r2 r < pc ! r)" if "r < n" for r
    using i that by (simp add: halo_inv_def)
  have "length (ys ! a) = length (xs ! a)" using v [OF a] halo_vec_length [OF n ok a] by simp
  then have m: "take 2 (drop (length (ys ! a) - 3) (ys ! a)) = take 2 (drop (length (xs ! a) - 3) (xs ! a))"
    using v [OF a] halo_vec_own(1) [OF n ok a] by simp
  have "ys ! b = xs ! b" using v [OF bn(1)] pb s_less4(8) [of b] by (simp add: halo_vec_def)
  then have vb: "copy_into 0 (take 2 (drop (length (ys ! a) - 3) (ys ! a))) (ys ! b) = halo_vec n xs b True False"
    unfolding m by (simp add: halo_vec_def bn Let_def)
  have r2b: "\<not> r2 b < pc ! b" using pb s_less4(8) [of b] by simp
  show ?thesis unfolding halo_inv_def fst_conv snd_conv
  proof (intro conjI allI impI)
    fix r assume r: "r < n"
    note nb = neighbours(1,2) [OF n r]
    have old: "pc ! r \<le> 4" "(s1 r < pc ! r) = (r1 (mpi_right n r) < pc ! mpi_right n r)"
        "(s2 r < pc ! r) = (r2 (mpi_left n r) < pc ! mpi_left n r)" using i r by (simp_all add: halo_inv_def)
    show "?p ! r \<le> 4" using st [OF r] old by simp
    show "(s1 r < ?p ! r) = (r1 (mpi_right n r) < ?p ! mpi_right n r)"
      using st [OF r] st [OF nb(2)] old neighbour_eq(1) [OF n r bn(1)] bn(3) by auto
    show "(s2 r < ?p ! r) = (r2 (mpi_left n r) < ?p ! mpi_left n r)" using st [OF r] st [OF nb(1)] old by simp
    show "ys[b := copy_into 0 (take 2 (drop (length (ys ! a) - 3) (ys ! a))) (ys ! b)] ! r =
        halo_vec n xs r (r1 r < ?p ! r) (r2 r < ?p ! r)"
      using st [OF r] v [OF r] r2b vb bn(1) len by (cases "r = b") auto
  qed (use len in simp_all)
qed

text \<open>And one of the second round.\<close>

lemma round2_inv:
  assumes n: "2 \<le> n" and ok: "halo_ok n xs" and i: "halo_inv n xs (pc, ys)" and a: "a < n" and b: "b = mpi_left n a"
    and pa: "pc ! a = s2 a" and pb: "pc ! b = r2 b"
  shows "halo_inv n xs (pc[a := Suc (pc ! a), b := Suc (pc ! b)],
     ys[b := copy_into (length (ys ! b) - 1) (take 1 (drop 2 (ys ! a))) (ys ! b)])"
proof -
  let ?q = "pc[a := Suc (pc ! a)]" let ?p = "?q[b := Suc (pc ! b)]"
  have len: "length pc = n" "length ys = n" using i by (simp_all add: halo_inv_def)
  have bn: "b < n" "b \<noteq> a" "mpi_right n b = a" using neighbours [OF n a] b by simp_all
  have q: "?q ! b = r2 b" using pb bn by simp
  have st: "(s2 r < ?p ! r) = (r = a \<or> s2 r < pc ! r) \<and> (r2 r < ?p ! r) = (r = b \<or> r2 r < pc ! r) \<and>
      (s1 r < ?p ! r) = (s1 r < pc ! r) \<and> (r1 r < ?p ! r) = (r1 r < pc ! r) \<and> (pc ! r \<le> 4 \<longrightarrow> ?p ! r \<le> 4)" if "r < n" for r
    using pc_after(3) [OF len(1) a that pa, of ?q] pc_after(4) [of ?q n b r, OF _ bn(1) that q, of ?p] len pa pb by auto
  have v: "ys ! r = halo_vec n xs r (r1 r < pc ! r) (r2 r < pc ! r)" if "r < n" for r
    using i that by (simp add: halo_inv_def)
  have m: "take 1 (drop 2 (ys ! a)) = take 1 (drop 2 (xs ! a))"
    using v [OF a] halo_vec_own(2) [OF n ok a] by simp
  have r1b: "r1 b < pc ! b" using pb s_less4(8) [of b] by simp
  have "ys ! b = halo_vec n xs b True False" using v [OF bn(1)] r1b pb by simp
  then have vb: "copy_into (length (ys ! b) - 1) (take 1 (drop 2 (ys ! a))) (ys ! b) = halo_vec n xs b True True"
    unfolding m by (simp add: halo_vec_def bn Let_def)
  show ?thesis unfolding halo_inv_def fst_conv snd_conv
  proof (intro conjI allI impI)
    fix r assume r: "r < n"
    note nb = neighbours(1,2) [OF n r]
    have old: "pc ! r \<le> 4" "(s1 r < pc ! r) = (r1 (mpi_right n r) < pc ! mpi_right n r)"
        "(s2 r < pc ! r) = (r2 (mpi_left n r) < pc ! mpi_left n r)" using i r by (simp_all add: halo_inv_def)
    show "?p ! r \<le> 4" using st [OF r] old by simp
    show "(s1 r < ?p ! r) = (r1 (mpi_right n r) < ?p ! mpi_right n r)" using st [OF r] st [OF nb(2)] old by simp
    show "(s2 r < ?p ! r) = (r2 (mpi_left n r) < ?p ! mpi_left n r)"
      using st [OF r] st [OF nb(1)] old neighbour_eq(2) [OF n r bn(1)] bn(3) by auto
    show "ys[b := copy_into (length (ys ! b) - 1) (take 1 (drop 2 (ys ! a))) (ys ! b)] ! r =
        halo_vec n xs r (r1 r < ?p ! r) (r2 r < ?p ! r)"
      using st [OF r] v [OF r] r1b vb bn(1) len by (cases "r = b") auto
  qed (use len in simp_all)
qed

lemma halo_step_inv:
  assumes "halo_step n s s'" and n: "2 \<le> n" and ok: "halo_ok n xs" and i: "halo_inv n xs s"
  shows "halo_inv n xs s'"
  using assms(1)
proof cases
  case (1 a b pc ys off c off' c')
  have i': "halo_inv n xs (pc, ys)" using i 1 by simp
  have S: "pc ! a = s1 a \<and> b = mpi_right n a \<and> off = length (ys ! a) - 3 \<and> c = 2 \<or>
      pc ! a = s2 a \<and> b = mpi_left n a \<and> off = 2 \<and> c = 1"
    using 1(7) unfolding send_iff [OF 1(5)] .
  have R: "pc ! b = r1 b \<and> a = mpi_left n b \<and> off' = 0 \<and> c' = 2 \<or>
      pc ! b = r2 b \<and> a = mpi_right n b \<and> off' = length (ys ! b) - 1 \<and> c' = 1"
    using 1(8) unfolding recv_iff [OF 1(6)] .
  from S R consider (one) "pc ! a = s1 a" "b = mpi_right n a" "off = length (ys ! a) - 3" "c = 2" "pc ! b = r1 b" "off' = 0"
    | (two) "pc ! a = s2 a" "b = mpi_left n a" "off = 2" "c = 1" "pc ! b = r2 b" "off' = length (ys ! b) - 1"
    | (x1) "pc ! a = s1 a" "b = mpi_right n a" "pc ! b = r2 b"
    | (x2) "pc ! a = s2 a" "b = mpi_left n a" "pc ! b = r1 b" "a = mpi_left n b"
    by blast
  then show ?thesis
  proof cases
    case one
    then show ?thesis using round1_inv [OF n ok i' 1(3) one(2,1,5)] unfolding 1(2) one(3,4,6) by simp
  next
    case two
    then show ?thesis using round2_inv [OF n ok i' 1(3) two(2,1,5)] unfolding 1(2) two(3,4,6) by simp
  next
    case x1
    have "(s1 a < pc ! a) = (r1 b < pc ! b)" using i' 1(3) unfolding x1(2) halo_inv_def fst_conv by blast
    then show ?thesis unfolding x1(1,3) using s_less4(8) [of b] by simp
  next
    case x2
    have "(s1 a < pc ! a) = (r1 b < pc ! b)"
      using i' 1(3) neighbours(4) [OF n 1(4)] unfolding x2(4) [symmetric] halo_inv_def fst_conv by metis
    then show ?thesis unfolding x2(1,3) using s_less4(5) [of a] by simp
  qed
qed

text \<open>
  While some rank has not finished, two ranks can go on: around the ring from the first call to the
  last, a rank that waits at a call is waited for by nobody further behind.
\<close>

definition waits :: "nat \<Rightarrow> nat list \<Rightarrow> bool" where
  "waits n pc \<longleftrightarrow>
     (\<forall>a < n. pc ! a = s1 a \<longrightarrow> pc ! mpi_right n a \<noteq> r1 (mpi_right n a)) \<and>
     (\<forall>a < n. pc ! a = s2 a \<longrightarrow> pc ! mpi_left n a \<noteq> r2 (mpi_left n a))"

lemma even_odd_neighbours:
  assumes "2 \<le> n" "r < n"
  shows "odd r \<Longrightarrow> even (mpi_left n r)" "odd r \<Longrightarrow> even (mpi_right n r)"
    "even r \<Longrightarrow> odd (mpi_left n r) \<or> r = 0 \<and> mpi_left n 0 = n - 1 \<and> even (n - 1)"
    "even r \<Longrightarrow> odd (mpi_right n r) \<or> r = n - 1 \<and> mpi_right n (n - 1) = 0 \<and> even (n - 1)"
  using assms by (auto simp: mpi_left_def mpi_right_def even_diff_nat intro!: odd_pos)

lemma position_values:
  "even q \<Longrightarrow> s1 q = 0 \<and> r1 q = 1 \<and> s2 q = 2 \<and> r2 q = 3" "odd q \<Longrightarrow> s1 q = 1 \<and> r1 q = 0 \<and> s2 q = 3 \<and> r2 q = 2"
  by (simp_all add: positions odd_iff_mod_2_eq_one even_iff_mod_2_eq_zero)

lemma halo_inv_links:
  assumes "halo_inv n xs (pc, ys)" "q < n"
  shows "pc ! q \<le> 4" "(s1 q < pc ! q) = (r1 (mpi_right n q) < pc ! mpi_right n q)"
    "(s2 q < pc ! q) = (r2 (mpi_left n q) < pc ! mpi_left n q)"
  using assms by (simp_all add: halo_inv_def)

lemma waits_links:
  assumes "waits n pc" "q < n"
  shows "pc ! q = s1 q \<Longrightarrow> pc ! mpi_right n q \<noteq> r1 (mpi_right n q)" "pc ! q = s2 q \<Longrightarrow> pc ! mpi_left n q \<noteq> r2 (mpi_left n q)"
  using assms by (simp_all add: waits_def)

lemma last_rank:
  "2 \<le> n \<Longrightarrow> even (n - 1) \<Longrightarrow> n - 1 < n \<and> odd (n - 2) \<and> mpi_left n (n - 1) = n - 2 \<and> n - 2 < n \<and> odd (mpi_right n 0)"
  by (auto simp: mpi_left_def mpi_right_def)

lemma past_round1:
  assumes n: "2 \<le> n" and i: "halo_inv n xs (pc, ys)" and w: "waits n pc" and r: "r < n"
  shows "pc ! r \<noteq> 0 \<and> pc ! r \<noteq> 1"
proof -
  note pos = position_values and nb = neighbours(1-4) [OF n] and par = even_odd_neighbours [OF n]
    and I = halo_inv_links [OF i] and W = waits_links [OF w] and last = last_rank [OF n]
  have o0: "pc ! q \<noteq> 0" if q: "q < n" "odd q" for q
  proof
    assume z: "pc ! q = 0"
    have a: "mpi_left n q < n" "even (mpi_left n q)" "mpi_right n (mpi_left n q) = q" using nb [OF q(1)] par(1) [OF q] by auto
    have "pc ! mpi_left n q = 0" using I(2) [OF a(1)] unfolding a(3) using pos(1) [OF a(2)] pos(2) [OF q(2)] z by simp
    then show False using W(1) [OF a(1)] unfolding a(3) using pos(1) [OF a(2)] pos(2) [OF q(2)] z by simp
  qed
  have e0': "pc ! q \<noteq> 0" if q: "q < n" "even q" "odd (mpi_right n q)" for q
    using I(2) [OF q(1)] pos(1) [OF q(2)] pos(2) [OF q(3)] o0 [OF nb(2) [OF q(1)] q(3)] by auto
  have e0: "pc ! q \<noteq> 0" if q: "q < n" "even q" for q
  proof (cases "odd (mpi_right n q)")
    case False
    then have e: "q = n - 1" "mpi_right n q = 0" "even (n - 1)" using par(4) [OF q] by auto
    have "pc ! 0 \<noteq> 0" using e0' [of 0] last [OF e(3)] n by simp
    then show ?thesis using I(2) [OF q(1)] W(1) [OF q(1)] unfolding e(2) using pos(1) [OF q(2)] pos(1) [of 0] by auto
  qed (rule e0' [OF q])
  have o1: "pc ! q \<noteq> 1" if q: "q < n" "odd q" for q
  proof
    assume z: "pc ! q = 1"
    have a: "mpi_right n q < n" "even (mpi_right n q)" using nb [OF q(1)] par(2) [OF q] by auto
    show False using I(2) [OF q(1)] W(1) [OF q(1)] e0 [OF a] pos(1) [OF a(2)] pos(2) [OF q(2)] z by auto
  qed
  have e1: "pc ! q \<noteq> 1" if q: "q < n" "even q" for q
  proof
    assume z: "pc ! q = 1"
    have a: "mpi_left n q < n" "mpi_right n (mpi_left n q) = q" using nb [OF q(1)] by auto
    have "\<not> s1 (mpi_left n q) < pc ! mpi_left n q" using I(2) [OF a(1)] unfolding a(2) using pos(1) [OF q(2)] z by simp
    then show False using o0 [OF a(1)] o1 [OF a(1)] e0 [OF a(1)] pos [of "mpi_left n q"] by (cases "even (mpi_left n q)") auto
  qed
  show ?thesis using o0 [OF r] e0 [OF r] o1 [OF r] e1 [OF r] by blast
qed

lemma halo_all_finished:
  assumes n: "2 \<le> n" and i: "halo_inv n xs (pc, ys)" and w: "waits n pc" and r: "r < n"
  shows "pc ! r = 4"
proof -
  note pos = position_values and nb = neighbours(1-4) [OF n] and par = even_odd_neighbours [OF n]
    and I = halo_inv_links [OF i] and W = waits_links [OF w] and last = last_rank [OF n]
    and p1 = past_round1 [OF n i w]
  have o2: "pc ! q \<noteq> 2" if q: "q < n" "odd q" for q
  proof
    assume z: "pc ! q = 2"
    have a: "mpi_right n q < n" "even (mpi_right n q)" "mpi_left n (mpi_right n q) = q" using nb [OF q(1)] par(2) [OF q] by auto
    have "\<not> 2 < pc ! mpi_right n q" using I(3) [OF a(1)] unfolding a(3) using pos(1) [OF a(2)] pos(2) [OF q(2)] z by simp
    then have "pc ! mpi_right n q = 2" using p1 [OF a(1)] by linarith
    then show False using W(2) [OF a(1)] unfolding a(3) using pos(1) [OF a(2)] pos(2) [OF q(2)] z by simp
  qed
  have e2: "pc ! q \<noteq> 2" if q: "q < n" "even q" for q
  proof
    assume z: "pc ! q = 2"
    have a: "mpi_left n q < n" using nb [OF q(1)] by auto
    have u: "\<not> r2 (mpi_left n q) < pc ! mpi_left n q" "pc ! mpi_left n q \<noteq> r2 (mpi_left n q)"
      using I(3) [OF q(1)] W(2) [OF q(1)] pos(1) [OF q(2)] z by auto
    show False
    proof (cases "odd (mpi_left n q)")
      case True
      then show ?thesis using u p1 [OF a] pos(2) [OF True] by linarith
    next
      case False
      then have e: "mpi_left n q = n - 1" "even (n - 1)" using par(3) [OF q] by auto
      have c: "n - 2 < n" "odd (n - 2)" "mpi_left n (n - 1) = n - 2" "n - 1 < n" using last [OF e(2)] by auto
      have v: "pc ! (n - 1) = 2" using u pos(1) [OF e(2)] p1 [OF c(4)] unfolding e(1) by linarith
      have "\<not> 2 < pc ! (n - 2)"
        using I(3) [OF c(4)] unfolding c(3) using v pos(1) [OF e(2)] pos(2) [OF c(2)] by simp
      then show ?thesis using p1 [OF c(1)] o2 [OF c(1,2)] by linarith
    qed
  qed
  have o3: "pc ! q \<noteq> 3" if q: "q < n" "odd q" for q
  proof
    assume z: "pc ! q = 3"
    have a: "mpi_left n q < n" "even (mpi_left n q)" using nb [OF q(1)] par(1) [OF q] by auto
    have "\<not> 3 < pc ! mpi_left n q" "pc ! mpi_left n q \<noteq> 3"
      using I(3) [OF q(1)] W(2) [OF q(1)] pos(1) [OF a(2)] pos(2) [OF q(2)] z by auto
    then show False using p1 [OF a(1)] e2 [OF a] by linarith
  qed
  have e3: "pc ! q \<noteq> 3" if q: "q < n" "even q" for q
  proof
    assume z: "pc ! q = 3"
    have a: "mpi_right n q < n" "mpi_left n (mpi_right n q) = q" using nb [OF q(1)] by auto
    have "\<not> s2 (mpi_right n q) < pc ! mpi_right n q" using I(3) [OF a(1)] unfolding a(2) using pos(1) [OF q(2)] z by simp
    then show False using p1 [OF a(1)] o2 [OF a(1)] o3 [OF a(1)] e2 [OF a(1)] pos [of "mpi_right n q"]
      by (cases "even (mpi_right n q)") auto
  qed
  have "pc ! r = 2 \<or> pc ! r = 3 \<or> pc ! r = 4" using I(1) [OF r] p1 [OF r] by linarith
  then show ?thesis using o2 [OF r] e2 [OF r] o3 [OF r] e3 [OF r] by blast
qed

lemma halo_progress:
  assumes n: "2 \<le> n" and i: "halo_inv n xs (pc, ys)" and u: "pc \<noteq> replicate n 4"
  shows "\<exists>s. halo_step n (pc, ys) s"
proof -
  have len: "length pc = n" using i by (simp add: halo_inv_def)
  have "\<not> waits n pc"
  proof
    assume "waits n pc"
    then have "pc = replicate n 4" using halo_all_finished [OF n i] len by (intro nth_equalityI) auto
    with u show False by simp
  qed
  then consider (one) a where "a < n" "pc ! a = s1 a" "pc ! mpi_right n a = r1 (mpi_right n a)"
    | (two) a where "a < n" "pc ! a = s2 a" "pc ! mpi_left n a = r2 (mpi_left n a)"
    unfolding waits_def by blast
  then show ?thesis
  proof cases
    case one
    have "halo_step n (pc, ys) (pc[a := Suc (pc ! a), mpi_right n a := Suc (pc ! mpi_right n a)],
        ys[mpi_right n a := copy_into 0 (take 2 (drop (length (ys ! a) - 3) (ys ! a))) (ys ! mpi_right n a)])"
      by (rule halo_step.intros [of a n "mpi_right n a" pc ys "length (ys ! a) - 3" 2 0 2])
        (use one neighbours [OF n one(1)] s_less4 in \<open>simp_all add: send_iff recv_iff\<close>)
    then show ?thesis by blast
  next
    case two
    have "halo_step n (pc, ys) (pc[a := Suc (pc ! a), mpi_left n a := Suc (pc ! mpi_left n a)],
        ys[mpi_left n a := copy_into (length (ys ! mpi_left n a) - 1) (take 1 (drop 2 (ys ! a))) (ys ! mpi_left n a)])"
      by (rule halo_step.intros [of a n "mpi_left n a" pc ys 2 1 "length (ys ! mpi_left n a) - 1" 1])
        (use two neighbours [OF n two(1)] s_less4 in \<open>simp_all add: send_iff recv_iff\<close>)
    then show ?thesis by blast
  qed
qed

text \<open>Every step finishes two calls of the four of each rank.\<close>

lemma halo_step_count:
  assumes "halo_step n s s'" "2 \<le> n" "halo_inv n xs s"
  shows "sum_list (fst s') = sum_list (fst s) + 2"
  using assms(1)
proof cases
  case (1 a b pc ys off c off' c')
  have len: "length pc = n" using assms(3) 1(1) by (simp add: halo_inv_def)
  have "b = mpi_right n a \<or> b = mpi_left n a" using send_iff [OF 1(5)] 1(7) by auto
  then have "b \<noteq> a" using neighbours(5,6) [OF assms(2) 1(3)] by auto
  then show ?thesis using 1 len by (simp add: sum_list_update)
qed

lemma halo_reach_inv:
  assumes "(halo_step n)\<^sup>*\<^sup>* (replicate n 0, xs) s" "2 \<le> n" "halo_ok n xs" shows "halo_inv n xs s"
  using assms(1)
proof induction
  case base
  then show ?case using halo_inv_begin assms(2,3) by (auto simp: halo_ok_def)
qed (auto intro: halo_step_inv [OF _ assms(2,3)])

lemma halo_inv_count: "halo_inv n xs s \<Longrightarrow> sum_list (fst s) \<le> 4 * n"
proof -
  assume i: "halo_inv n xs s"
  then have "\<forall>k \<in> set (fst s). k \<le> 4" by (auto simp: halo_inv_def in_set_conv_nth)
  then have "sum_list (fst s) \<le> sum_list (map (\<lambda>_. 4) (fst s))" by (simp add: sum_list_mono [of _ id, simplified])
  then show ?thesis using i by (simp add: halo_inv_def sum_list_triv)
qed

lemma halo_finished: "2 \<le> n \<Longrightarrow> halo_inv n xs (replicate n 4, ys) \<Longrightarrow> ys = exchange_all n xs"
  by (rule nth_equalityI) (auto simp: halo_inv_def exchange_all_def s_less4)

text \<open>
  C29. The exchange of ghost cells between any number of ranks never blocks, even when every send waits
  for its receiver: in every state that is reached either two ranks can go on, and no more than
  twice as many steps are possible as there are ranks, or all calls of all ranks are finished and the
  vectors have the neighbours' cells at both ends and their own cells unchanged.
\<close>

theorem halo_exchange_completes:
  assumes "2 \<le> n" "halo_ok n xs" "(halo_step n)\<^sup>*\<^sup>* (replicate n 0, xs) (pc, ys)"
  shows "(if pc = replicate n 4 then ys = exchange_all n xs else \<exists>s. halo_step n (pc, ys) s) \<and>
     sum_list pc \<le> 4 * n \<and> (\<forall>s. halo_step n (pc, ys) s \<longrightarrow> sum_list (fst s) = sum_list pc + 2)"
proof -
  have i: "halo_inv n xs (pc, ys)" by (rule halo_reach_inv [OF assms(3,1,2)])
  then show ?thesis
    using halo_finished [OF assms(1)] halo_progress [OF assms(1) i] halo_inv_count [OF i] halo_step_count [OF _ assms(1) i] by auto
qed

definition two_ranks :: "int list list" where
  "two_ranks = [[9, 9, 1, 2, 9], [9, 9, 3, 4, 9]]"

theorem halo_exchange_completes_witness:
  "(\<exists>s. halo_step 2 (replicate 2 0, two_ranks) s) \<and> exchange_all 2 two_ranks = [[3, 4, 1, 2, 3], [1, 2, 3, 4, 1]]"
proof -
  have "halo_ok 2 two_ranks" by (simp add: halo_ok_def two_ranks_def)
  from halo_exchange_completes [OF _ this rtranclp.rtrancl_refl]
  have "\<exists>s. halo_step 2 (replicate 2 0, two_ranks) s" by (simp add: numeral_2_eq_2)
  moreover have "exchange_all 2 two_ranks = [[3, 4, 1, 2, 3], [1, 2, 3, 4, 1]]" by code_simp
  ultimately show ?thesis by blast
qed

text \<open>So the exchange has a run that finishes.\<close>

lemma halo_run_from:
  "2 \<le> n \<Longrightarrow> halo_ok n xs \<Longrightarrow> halo_inv n xs s \<Longrightarrow> (halo_step n)\<^sup>*\<^sup>* s (replicate n 4, exchange_all n xs)"
proof (induction "4 * n - sum_list (fst s)" arbitrary: s rule: less_induct)
  case less
  obtain pc ys where s: "s = (pc, ys)" by (cases s)
  show ?case
  proof (cases "pc = replicate n 4")
    case True
    then have "ys = exchange_all n xs" using halo_finished [OF less.prems(1), of xs ys] less.prems(3) s by simp
    with s True show ?thesis by simp
  next
    case False
    then obtain t where t: "halo_step n s t" using halo_progress less.prems s by blast
    have it: "halo_inv n xs t" using halo_step_inv [OF t less.prems] .
    have "sum_list (fst t) = sum_list (fst s) + 2" "sum_list (fst t) \<le> 4 * n"
      using halo_step_count [OF t less.prems(1,3)] halo_inv_count [OF it] by simp_all
    then have "(halo_step n)\<^sup>*\<^sup>* t (replicate n 4, exchange_all n xs)"
      by (intro less.hyps [OF _ less.prems(1,2) it]) linarith
    with t show ?thesis by (rule converse_rtranclp_into_rtranclp)
  qed
qed

end
