(* ===== verification/Lorenz.thy ===== *)
theory Lorenz
  imports Halo
begin

text \<open>
  The simulation examples/lorenz/lorenz.cxx, part two: the Runge-Kutta integration of the Lorenz-96
  model by all ranks is the serial one. Double arithmetic is a parameter, so that the results agree
  bit by bit.
\<close>

section \<open>The integration\<close>

text \<open>Double arithmetic: any operations and constants, so that no law of them is used.\<close>

record 'd double_ops =
  plus_d :: "'d \<Rightarrow> 'd \<Rightarrow> 'd"
  minus_d :: "'d \<Rightarrow> 'd \<Rightarrow> 'd"
  times_d :: "'d \<Rightarrow> 'd \<Rightarrow> 'd"
  divide_d :: "'d \<Rightarrow> 'd \<Rightarrow> 'd"
  literal_d :: "nat \<Rightarrow> 'd"

definition RK_step :: "'d double_ops \<Rightarrow> 'd list \<Rightarrow> 'd list \<Rightarrow> 'd list \<Rightarrow> nat \<Rightarrow> 'd \<Rightarrow> 'd list" where
  "RK_step D x k1 k2 w dt =
     map (\<lambda>i. plus_d D (k1 ! i) (divide_d D (times_d D dt (k2 ! i)) (literal_d D w))) [0..<length x]"

definition lorenz_rhs :: "'d double_ops \<Rightarrow> 'd \<Rightarrow> 'd \<Rightarrow> 'd \<Rightarrow> 'd \<Rightarrow> 'd \<Rightarrow> 'd" where
  "lorenz_rhs D F r ll l x = plus_d D (minus_d D (times_d D (minus_d D r ll) l) x) F"

definition d96 :: "'d double_ops \<Rightarrow> 'd list \<Rightarrow> 'd list \<Rightarrow> 'd \<Rightarrow> 'd list" where
  "d96 D x_in x_out F =
     map (\<lambda>i. if 2 \<le> i \<and> i < length x_in - 1
              then lorenz_rhs D F (x_in ! (i + 1)) (x_in ! (i - 2)) (x_in ! (i - 1)) (x_in ! i) else x_out ! i)
       [0..<length x_out]"

text \<open>
  One step of all ranks: each rank runs the same code, and \<open>ex\<close> is what an exchange of all ranks makes
  of their vectors.
\<close>

definition all_d96 :: "'d double_ops \<Rightarrow> 'd list list \<Rightarrow> 'd list list \<Rightarrow> 'd \<Rightarrow> 'd list list" where
  "all_d96 D x_in x_out F = map (\<lambda>r. d96 D (x_in ! r) (x_out ! r) F) [0..<length x_in]"

definition all_RK :: "'d double_ops \<Rightarrow> 'd list list \<Rightarrow> 'd list list \<Rightarrow> 'd list list \<Rightarrow> nat \<Rightarrow> 'd \<Rightarrow> 'd list list" where
  "all_RK D x k1 k2 w dt = map (\<lambda>r. RK_step D (x ! r) (k1 ! r) (k2 ! r) w dt) [0..<length x]"

definition integrate :: "('d list list \<Rightarrow> 'd list list) \<Rightarrow> 'd double_ops \<Rightarrow> 'd \<Rightarrow> 'd \<Rightarrow> 'd list list \<Rightarrow> 'd list list" where
  "integrate ex D F dt x =
     (let x_old = x; ki = x; kj = map (\<lambda>v. replicate (length v) (literal_d D 0)) x;
          kj = all_d96 D ki kj F;
          x = all_RK D x x kj 6 dt;
          ki = all_RK D ki x_old kj 2 dt;
          ki = ex ki;
          kj = all_d96 D ki kj F;
          x = all_RK D x x kj 3 dt;
          ki = all_RK D ki x_old kj 2 dt;
          ki = ex ki;
          kj = all_d96 D ki kj F;
          x = all_RK D x x kj 3 dt;
          ki = all_RK D ki x_old kj 1 dt;
          ki = ex ki;
          kj = all_d96 D ki kj F;
          x = all_RK D x x kj 6 dt
      in ex x)"

text \<open>The function of the index starts at the first ghost cell of a rank.\<close>

definition init_state :: "('d list list \<Rightarrow> 'd list list) \<Rightarrow> 'd double_ops \<Rightarrow> 'd \<Rightarrow> (nat \<Rightarrow> 'd) \<Rightarrow> lorenz_rank list \<Rightarrow> 'd list list" where
  "init_state ex D F index_function rs =
     ex (map (\<lambda>r. map (\<lambda>i. plus_d D F (index_function (state_min_p r + i))) [0..<lo_nlt r]) rs)"

text \<open>What an exchange makes of the vectors is where its messages lead.\<close>

definition exchanges :: "nat \<Rightarrow> ('d list list \<Rightarrow> 'd list list) \<Rightarrow> bool" where
  "exchanges n ex \<longleftrightarrow>
     (\<forall>xs. halo_ok n xs \<longrightarrow>
        (if n = 1 then ex xs = [exchange_one (hd xs)]
         else (halo_step n)\<^sup>*\<^sup>* (replicate n 0, xs) (replicate n 4, ex xs)))"

lemma exchanges_eq:
  assumes "exchanges n ex" "halo_ok n xs" "0 < n" shows "ex xs = exchange_all n xs"
proof (cases "n = 1")
  case True
  then show ?thesis using assms by (simp add: exchanges_def exchange_all_def)
next
  case False
  then have n: "2 \<le> n" using assms(3) by simp
  have "(halo_step n)\<^sup>*\<^sup>* (replicate n 0, xs) (replicate n 4, ex xs)" using assms False by (simp add: exchanges_def)
  from halo_finished [OF n halo_reach_inv [OF this n assms(2)]] show ?thesis .
qed

lemma exchanges_exist: "0 < n \<Longrightarrow> exchanges n (exchange_all n)"
  using halo_run_from [of n] halo_inv_begin [of n]
  by (cases "n = 1") (auto simp: exchanges_def exchange_all_def halo_ok_def)

section \<open>The serial model\<close>

text \<open>The whole state is a ring of cells.\<close>

definition serial_d96 :: "'d double_ops \<Rightarrow> 'd \<Rightarrow> 'd list \<Rightarrow> 'd list" where
  "serial_d96 D F g =
     (let N = length g in
      map (\<lambda>i. lorenz_rhs D F (g ! ((i + 1) mod N)) (g ! ((i + N - 2) mod N)) (g ! ((i + N - 1) mod N)) (g ! i)) [0..<N])"

definition serial_integrate :: "'d double_ops \<Rightarrow> 'd \<Rightarrow> 'd \<Rightarrow> 'd list \<Rightarrow> 'd list" where
  "serial_integrate D F dt g =
     (let k1 = serial_d96 D F g; x = RK_step D g g k1 6 dt;
          k2 = serial_d96 D F (RK_step D g g k1 2 dt); x = RK_step D x x k2 3 dt;
          k3 = serial_d96 D F (RK_step D g g k2 2 dt); x = RK_step D x x k3 3 dt;
          k4 = serial_d96 D F (RK_step D g g k3 1 dt)
      in RK_step D x x k4 6 dt)"

text \<open>The cells of the ranks are those of the ring; with the ghost cells, each at its place around it.\<close>

definition offset :: "nat list \<Rightarrow> nat \<Rightarrow> nat" where
  "offset nls r = sum_list (take r nls)"

definition owns :: "nat list \<Rightarrow> 'd list \<Rightarrow> 'd list list \<Rightarrow> bool" where
  "owns nls g xs \<longleftrightarrow> length xs = length nls \<and> length g = sum_list nls \<and>
     (\<forall>r < length nls. length (xs ! r) = nls ! r + 3 \<and> (\<forall>j < nls ! r. xs ! r ! (j + 2) = g ! (offset nls r + j)))"

definition haloed :: "nat list \<Rightarrow> 'd list \<Rightarrow> 'd list list \<Rightarrow> bool" where
  "haloed nls g xs \<longleftrightarrow> owns nls g xs \<and>
     (\<forall>r < length nls.
        xs ! r ! 0 = g ! ((offset nls r + sum_list nls - 2) mod sum_list nls) \<and>
        xs ! r ! 1 = g ! ((offset nls r + sum_list nls - 1) mod sum_list nls) \<and>
        xs ! r ! (nls ! r + 2) = g ! ((offset nls r + nls ! r) mod sum_list nls))"

lemma offset_Suc: "r < length nls \<Longrightarrow> offset nls (Suc r) = offset nls r + nls ! r"
  by (simp add: offset_def take_Suc_conv_app_nth)

lemma offset_le: "r < length nls \<Longrightarrow> offset nls r + nls ! r \<le> sum_list nls"
  unfolding offset_Suc [symmetric] unfolding offset_def by (metis append_take_drop_id le_add1 sum_list_append)

lemma ownsD:
  assumes "owns nls g xs" "r < length nls"
  shows "length (xs ! r) = nls ! r + 3" "j < nls ! r \<Longrightarrow> xs ! r ! (j + 2) = g ! (offset nls r + j)" "length xs = length nls"
    "length g = sum_list nls"
  using assms by (simp_all add: owns_def)

lemma stage_lengths [simp]:
  "length (d96 D x y F) = length y" "length (RK_step D x k1 k2 w dt) = length x" "length (serial_d96 D F g) = length g"
  "length (all_d96 D xs ys F) = length xs" "length (all_RK D xs k1s k2s w dt) = length xs"
  by (simp_all add: d96_def RK_step_def serial_d96_def all_d96_def all_RK_def Let_def)

lemma all_nth [simp]:
  "r < length xs \<Longrightarrow> all_d96 D xs ys F ! r = d96 D (xs ! r) (ys ! r) F"
  "r < length xs \<Longrightarrow> all_RK D xs k1s k2s w dt ! r = RK_step D (xs ! r) (k1s ! r) (k2s ! r) w dt"
  by (simp_all add: all_d96_def all_RK_def)

lemma cell_nth:
  "i < length x \<Longrightarrow> RK_step D x k1 k2 w dt ! i = plus_d D (k1 ! i) (divide_d D (times_d D dt (k2 ! i)) (literal_d D w))"
  "i + 2 < length y \<Longrightarrow> i + 3 < length x \<Longrightarrow>
     d96 D x y F ! (i + 2) = lorenz_rhs D F (x ! (i + 3)) (x ! i) (x ! (i + 1)) (x ! (i + 2))"
  "i < length g \<Longrightarrow> serial_d96 D F g ! i =
     lorenz_rhs D F (g ! ((i + 1) mod length g)) (g ! ((i + length g - 2) mod length g)) (g ! ((i + length g - 1) mod length g)) (g ! i)"
  by (auto simp: RK_step_def d96_def serial_d96_def Let_def numeral_3_eq_3 less_diff_conv simp del: upt_Suc)

text \<open>A Runge-Kutta combination works cell by cell.\<close>

lemma owns_RK:
  assumes "owns nls z xs" "owns nls k1 k1s" "owns nls k2 k2s" "length x = sum_list nls"
  shows "owns nls (RK_step D x k1 k2 w dt) (all_RK D xs k1s k2s w dt)"
proof -
  have "length xs = length nls" using assms(1) by (simp add: owns_def)
  moreover have "offset nls r + j < sum_list nls" if "r < length nls" "j < nls ! r" for r j
    using offset_le [OF that(1)] that(2) by simp
  ultimately show ?thesis using assms by (simp add: owns_def cell_nth)
qed

lemma owns_length: "owns nls g xs \<Longrightarrow> owns nls g' ys \<Longrightarrow> r < length nls \<Longrightarrow> length (xs ! r) = length (ys ! r)"
  by (simp add: owns_def)

text \<open>With the ghost cells in place, every rank computes its part of the right-hand side.\<close>

lemma haloed_cell:
  assumes h: "haloed nls g xs" and r: "r < length nls" and k: "k < nls ! r + 3"
  shows "xs ! r ! k = g ! ((offset nls r + k + sum_list nls - 2) mod sum_list nls)"
proof -
  let ?N = "sum_list nls"
  have le: "offset nls r + nls ! r \<le> ?N" by (rule offset_le [OF r])
  have H: "xs ! r ! 0 = g ! ((offset nls r + ?N - 2) mod ?N)" "xs ! r ! 1 = g ! ((offset nls r + ?N - 1) mod ?N)"
      "xs ! r ! (nls ! r + 2) = g ! ((offset nls r + nls ! r) mod ?N)" and o: "owns nls g xs"
    using h r by (auto simp: haloed_def)
  have "k = 0 \<or> k = 1 \<or> k = nls ! r + 2 \<or> k = (k - 2) + 2 \<and> k - 2 < nls ! r" using k by linarith
  then consider "k = 0" | "k = 1" | (right) "k = nls ! r + 2" | (own) j where "k = j + 2" "j < nls ! r" by blast
  then show ?thesis
  proof cases
    case own
    have "offset nls r + k + ?N - 2 = offset nls r + j + ?N" using own by simp
    moreover have "(offset nls r + j + ?N) mod ?N = offset nls r + j" using own le by simp
    ultimately show ?thesis using ownsD(2) [OF o r own(2)] own(1) by simp
  next
    case right
    have "offset nls r + k + ?N - 2 = offset nls r + nls ! r + ?N" using right by simp
    then show ?thesis using H(3) right by simp
  qed (use H in simp_all)
qed

lemma owns_d96:
  assumes h: "haloed nls g xs" and l: "length kjs = length nls" "\<forall>r < length nls. length (kjs ! r) = nls ! r + 3"
  shows "owns nls (serial_d96 D F g) (all_d96 D xs kjs F)"
proof -
  let ?N = "sum_list nls"
  have o: "owns nls g xs" using h by (simp add: haloed_def)
  have "all_d96 D xs kjs F ! r ! (j + 2) = serial_d96 D F g ! (offset nls r + j)" if r: "r < length nls" and j: "j < nls ! r" for r j
  proof -
    have i: "offset nls r + j < ?N" using offset_le [OF r] j by simp
    have c: "xs ! r ! (j + 3) = g ! ((offset nls r + j + 1) mod ?N)" "xs ! r ! j = g ! ((offset nls r + j + ?N - 2) mod ?N)"
        "xs ! r ! (j + 1) = g ! ((offset nls r + j + ?N - 1) mod ?N)" "xs ! r ! (j + 2) = g ! (offset nls r + j)"
      using haloed_cell [OF h r, of "j + 3"] haloed_cell [OF h r, of j] haloed_cell [OF h r, of "j + 1"]
        ownsD(2) [OF o r j] j mod_add_self2 [of "offset nls r + j + 1" ?N] by (simp_all add: add.assoc)
    have lr: "length xs = length nls" "length (xs ! r) = nls ! r + 3" using ownsD [OF o r] by simp_all
    have "all_d96 D xs kjs F ! r ! (j + 2) =
        lorenz_rhs D F (xs ! r ! (j + 3)) (xs ! r ! j) (xs ! r ! (j + 1)) (xs ! r ! (j + 2))"
      using r j l lr cell_nth(2) [of j "kjs ! r" "xs ! r"] by simp
    also have "\<dots> = serial_d96 D F g ! (offset nls r + j)"
      unfolding c using i ownsD(4) [OF o r] cell_nth(3) [of "offset nls r + j" g] by simp
    finally show ?thesis .
  qed
  then show ?thesis using o l unfolding owns_def by simp
qed

section \<open>All ranks together are the serial model\<close>

definition ring_right :: "nat \<Rightarrow> nat \<Rightarrow> nat" where
  "ring_right n r = (if n = 1 then 0 else mpi_right n r)"

lemma halo_vec_nth:
  assumes l: "5 \<le> length (xs ! r)" "5 \<le> length (xs ! mpi_left n r)" "5 \<le> length (xs ! mpi_right n r)" and k: "k < length (xs ! r)"
  shows "halo_vec n xs r True True ! k =
     (if k < 2 then xs ! mpi_left n r ! (length (xs ! mpi_left n r) - 3 + k)
      else if k = length (xs ! r) - 1 then xs ! mpi_right n r ! 2 else xs ! r ! k)"
proof -
  let ?l = "xs ! mpi_left n r" and ?q = "xs ! mpi_right n r"
  define ls where "ls = take 2 (drop (length ?l - 3) ?l)"
  define qs where "qs = take 1 (drop 2 ?q)"
  define x where "x = copy_into 0 ls (xs ! r)"
  have ls: "length ls = 2" "\<And>i. i < 2 \<Longrightarrow> ls ! i = ?l ! (length ?l - 3 + i)" using l(2) by (simp_all add: ls_def min_def)
  have qs: "length qs = 1" "qs ! 0 = ?q ! 2" using l(3) by (simp_all add: qs_def min_def)
  have x: "length x = length (xs ! r)" "\<And>i. i < length (xs ! r) \<Longrightarrow> x ! i = (if i < 2 then ls ! i else xs ! r ! i)"
    using l(1) ls(1) by (simp_all add: x_def nth_copy_into length_copy_into)
  have "halo_vec n xs r True True = copy_into (length x - 1) qs x"
    by (simp add: halo_vec_def Let_def ls_def qs_def x_def)
  also have "\<dots> ! k = (if k = length x - 1 then qs ! 0 else x ! k)"
    using x(1) qs(1) l(1) k by (auto simp: nth_copy_into)
  moreover have "\<not> length (xs ! r) - 1 < 2" using l(1) by linarith
  ultimately show ?thesis using k by (auto simp: x ls qs)
qed

lemma exchange_cells:
  assumes "0 < n" "halo_ok n xs" "r < n"
  defines "y \<equiv> exchange_all n xs ! r" and "l \<equiv> xs ! mpi_left n r" and "m \<equiv> length (xs ! r)"
  shows "length y = m" "y ! 0 = l ! (length l - 3)" "y ! 1 = l ! (length l - 2)"
    "y ! (m - 1) = xs ! ring_right n r ! 2" "2 \<le> k \<Longrightarrow> k < m - 1 \<Longrightarrow> y ! k = xs ! r ! k"
proof -
  have five: "5 \<le> length (xs ! q)" if "q < n" for q using assms(2) that by (simp add: halo_ok_def)
  have "length y = m \<and> y ! 0 = l ! (length l - 3) \<and> y ! 1 = l ! (length l - 2) \<and> y ! (m - 1) = xs ! ring_right n r ! 2 \<and>
      (2 \<le> k \<longrightarrow> k < m - 1 \<longrightarrow> y ! k = xs ! r ! k)"
  proof (cases "n = 1")
    case True
    then obtain x where x: "xs = [x]" using assms(2) by (cases xs) (auto simp: halo_ok_def)
    have "5 \<le> length x" "x \<noteq> []" using five [of 0] True x by auto
    then show ?thesis using True assms(3) x
      by (simp add: y_def l_def m_def exchange_all_def exchange_one_def mpi_left_def ring_right_def Let_def nth_list_update)
  next
    case False
    then have n: "2 \<le> n" using assms(1) by simp
    have f: "5 \<le> length (xs ! r)" "5 \<le> length (xs ! mpi_left n r)" "5 \<le> length (xs ! mpi_right n r)"
      using five neighbours [OF n assms(3)] assms(3) by simp_all
    have y: "y = halo_vec n xs r True True" using False assms(3) by (simp add: y_def exchange_all_def)
    have c: "0 < m" "1 < m" "m - 1 < m" "\<not> m - 1 < 2" "length l - 3 + 1 = length l - 2"
      using f unfolding m_def l_def by linarith+
    note nth = halo_vec_nth [OF f, folded y m_def l_def]
    show ?thesis
      using nth [OF c(1)] nth [OF c(2)] nth [OF c(3)] nth [of k] c halo_vec_length [OF n assms(2,3), of True True] False
      by (simp add: y m_def ring_right_def)
  qed
  then show "length y = m" "y ! 0 = l ! (length l - 3)" "y ! 1 = l ! (length l - 2)"
    "y ! (m - 1) = xs ! ring_right n r ! 2" "2 \<le> k \<Longrightarrow> k < m - 1 \<Longrightarrow> y ! k = xs ! r ! k" by blast+
qed

lemma left_end:
  assumes "r < length nls"
  shows "offset nls (mpi_left (length nls) r) + nls ! mpi_left (length nls) r = (if r = 0 then sum_list nls else offset nls r)"
proof -
  have l: "mpi_left (length nls) r < length nls" using assms by (auto simp: mpi_left_def)
  show ?thesis unfolding offset_Suc [OF l, symmetric] using assms by (auto simp: mpi_left_def offset_def)
qed

lemma right_start:
  assumes "r < length nls" "\<forall>m \<in> set nls. 2 \<le> m"
  shows "offset nls (ring_right (length nls) r) = (offset nls r + nls ! r) mod sum_list nls"
proof (cases "r = length nls - 1")
  case True
  then have "offset nls r + nls ! r = sum_list nls" using offset_Suc [OF assms(1)] assms(1) by (simp add: offset_def)
  moreover have "ring_right (length nls) r = 0" using True assms(1) by (auto simp: ring_right_def mpi_right_def)
  ultimately show ?thesis by (simp add: offset_def)
next
  case False
  then have s: "Suc r < length nls" "ring_right (length nls) r = Suc r" using assms(1) by (auto simp: ring_right_def mpi_right_def)
  have "2 \<le> nls ! Suc r" using assms(2) s(1) by simp
  then have "offset nls (Suc r) < sum_list nls" using offset_le [OF s(1)] by linarith
  then show ?thesis using s(2) offset_Suc [OF assms(1)] by simp
qed

lemma owns_halo_ok: "owns nls g xs \<Longrightarrow> \<forall>m \<in> set nls. 2 \<le> m \<Longrightarrow> halo_ok (length nls) xs"
  by (force simp: owns_def halo_ok_def in_set_conv_nth)

lemma ring_minus:
  fixes A :: nat
  assumes "A = (if z then N else a)" "z \<Longrightarrow> a = 0" "0 < c" "c \<le> A" "a < N"
  shows "A - c = (a + N - c) mod N"
proof (cases z)
  case True
  then show ?thesis using assms by simp
next
  case False
  then have e: "a + N - c = (a - c) + N" and l: "a - c < N" using assms by simp_all
  show ?thesis unfolding e using l False assms(1) by (simp only: mod_add_self2 mod_less if_False)
qed

lemma exchange_haloed_rank:
  assumes o: "owns nls g xs" and two: "\<forall>m \<in> set nls. 2 \<le> m" and r: "r < length nls"
  defines "y \<equiv> exchange_all (length nls) xs ! r" and "N \<equiv> sum_list nls"
  shows "length y = nls ! r + 3" "j < nls ! r \<Longrightarrow> y ! (j + 2) = g ! (offset nls r + j)"
    "y ! 0 = g ! ((offset nls r + N - 2) mod N)" "y ! 1 = g ! ((offset nls r + N - 1) mod N)"
    "y ! (nls ! r + 2) = g ! ((offset nls r + nls ! r) mod N)"
proof -
  let ?n = "length nls"
  define l where "l = mpi_left ?n r"
  define q where "q = ring_right ?n r"
  have lq: "l < ?n" "q < ?n" using r by (auto simp: l_def q_def mpi_left_def ring_right_def mpi_right_def)
  have len: "length (xs ! r) = nls ! r + 3" "length (xs ! l) = nls ! l + 3" using ownsD(1) [OF o] r lq by simp_all
  have two': "2 \<le> nls ! l" "2 \<le> nls ! q" "2 \<le> nls ! r" using two lq r by simp_all
  have "0 < ?n" using r by linarith
  note C = exchange_cells [OF this owns_halo_ok [OF o two] r, folded l_def q_def y_def]
  have e: "offset nls l + nls ! l = (if r = 0 then N else offset nls r)" using left_end [OF r] by (simp add: l_def N_def)
  have z: "r = 0 \<Longrightarrow> offset nls r = 0" by (simp add: offset_def)
  have rN: "offset nls r < N" using offset_le [OF r] two'(3) by (simp add: N_def)
  have own: "xs ! p ! (k + 2) = g ! (offset nls p + k)" if "p < ?n" "k < nls ! p" for p k by (rule ownsD(2) [OF o that])
  show "length y = nls ! r + 3" using C(1) len by simp
  show "y ! (j + 2) = g ! (offset nls r + j)" if "j < nls ! r" using C(5) [of "j + 2"] own [OF r that] that len by simp
  have m: "offset nls l + (nls ! l - c) = (offset nls r + N - c) mod N" if "0 < c" "c \<le> 2" for c
    using ring_minus [OF e z that(1) _ rN] that(2) two'(1) by simp
  have "length (xs ! l) - 3 = (nls ! l - 2) + 2" using two'(1) len by simp
  then show "y ! 0 = g ! ((offset nls r + N - 2) mod N)"
    using C(2) own [OF lq(1), of "nls ! l - 2"] two'(1) m [of 2] by simp
  have "length (xs ! l) - 2 = (nls ! l - 1) + 2" using two'(1) len by simp
  then show "y ! 1 = g ! ((offset nls r + N - 1) mod N)"
    using C(3) own [OF lq(1), of "nls ! l - 1"] two'(1) m [of 1] by simp
  have "xs ! q ! 2 = g ! offset nls q" using own [OF lq(2), of 0] two'(2) by (simp add: numeral_2_eq_2)
  then show "y ! (nls ! r + 2) = g ! ((offset nls r + nls ! r) mod N)"
    using C(4) len right_start [OF r two] by (simp add: q_def N_def)
qed

lemma exchange_haloed:
  assumes o: "owns nls g xs" and two: "\<forall>m \<in> set nls. 2 \<le> m"
  shows "haloed nls g (exchange_all (length nls) xs)"
proof -
  have "length (exchange_all (length nls) xs) = length nls" by (auto simp: exchange_all_def)
  then show ?thesis using exchange_haloed_rank [OF o two] o unfolding haloed_def owns_def by simp
qed

text \<open>One step of the integration.\<close>

lemma integrate_haloed:
  assumes h: "haloed nls g xs" and two: "\<forall>m \<in> set nls. 2 \<le> m" and ne: "nls \<noteq> []" and ex: "exchanges (length nls) ex"
  shows "haloed nls (serial_integrate D F dt g) (integrate ex D F dt xs)"
proof -
  have o: "owns nls g xs" using h by (simp add: haloed_def)
  have E: "haloed nls v (ex vs)" if "owns nls v vs" for v vs
    using exchange_haloed [OF that two] exchanges_eq [OF ex owns_halo_ok [OF that two]] ne by simp
  have d: "owns nls (serial_d96 D F v) (all_d96 D vs kjs F)" if "haloed nls v vs" "owns nls w kjs" for v vs w kjs
    by (rule owns_d96 [OF that(1)]) (use that(2) in \<open>simp_all add: owns_def\<close>)
  have k0: "length (map (\<lambda>v. replicate (length v) (literal_d D 0)) xs) = length nls"
      "\<forall>r < length nls. length (map (\<lambda>v. replicate (length v) (literal_d D 0)) xs ! r) = nls ! r + 3"
    using ownsD [OF o] o by (auto simp: owns_def)
  let ?Z = "map (\<lambda>v. replicate (length v) (literal_d D 0)) xs"
  have g: "length g = sum_list nls" using o by (simp add: owns_def)
  have hx: "haloed nls v vs \<Longrightarrow> owns nls v vs" for v vs by (simp add: haloed_def)
  let ?K1 = "serial_d96 D F g" let ?Y1 = "RK_step D g g ?K1 2 dt" let ?X1 = "RK_step D g g ?K1 6 dt"
  let ?K2 = "serial_d96 D F ?Y1" let ?Y2 = "RK_step D g g ?K2 2 dt" let ?X2 = "RK_step D ?X1 ?X1 ?K2 3 dt"
  let ?K3 = "serial_d96 D F ?Y2" let ?Y3 = "RK_step D g g ?K3 1 dt" let ?X3 = "RK_step D ?X2 ?X2 ?K3 3 dt"
  note k1 = owns_d96 [OF h k0]
  note x1 = owns_RK [OF o o k1 g, where D = D and w = 6 and dt = dt] and y1 = E [OF owns_RK [OF o o k1 g, where D = D and w = 2 and dt = dt]]
  note k2 = d [OF y1 k1]
  note x2 = owns_RK [OF x1 x1 k2, where x = ?X1 and D = D and w = 3 and dt = dt] and y2 = E [OF owns_RK [OF hx [OF y1] o k2 g, where D = D and w = 2 and dt = dt]]
  note k3 = d [OF y2 k2]
  have "length ?X1 = sum_list nls" "length ?X2 = sum_list nls" "length ?X3 = sum_list nls" by (simp_all add: g)
  note x2' = x2 [OF this(1)] and len = this
  note x3 = owns_RK [OF x2' x2' k3 len(2), where D = D and w = 3 and dt = dt]
    and y3 = E [OF owns_RK [OF hx [OF y2] o k3 g, where D = D and w = 1 and dt = dt]]
  note k4 = d [OF y3 k3]
  show ?thesis unfolding integrate_def serial_integrate_def Let_def by (rule E [OF owns_RK [OF x3 x3 k4 len(3)]])
qed

section \<open>The blocks of the ranks and the start\<close>

definition blocks :: "nat \<Rightarrow> nat \<Rightarrow> nat list" where
  "blocks NG n = map (\<lambda>r. NG div n + (if r < NG mod n then 1 else 0)) [0..<n]"

lemma blocks_sum:
  assumes "0 < n" shows "sum_list (blocks NG n) = NG"
proof -
  have "sum_list (map (\<lambda>r. q + (if r < m then 1 else 0)) [0..<k]) = k * q + min k m" for q m k :: nat
    by (induction k) (auto simp: min_def)
  then have "sum_list (blocks NG n) = n * (NG div n) + min n (NG mod n)" by (simp add: blocks_def)
  also have "min n (NG mod n) = NG mod n" using assms by (simp add: min_absorb2 less_imp_le)
  finally show ?thesis by simp
qed

lemma blocks_length [simp]: "length (blocks NG n) = n"
  by (simp add: blocks_def)

lemma blocks_two: "0 < n \<Longrightarrow> 2 * n \<le> NG \<Longrightarrow> \<forall>m \<in> set (blocks NG n). 2 \<le> m"
proof -
  assume "0 < n" "2 * n \<le> NG"
  then have "2 \<le> NG div n" by (simp add: less_eq_div_iff_mult_less_eq)
  then show ?thesis by (auto simp: blocks_def)
qed

lemma nl_all_eq: "0 < n \<Longrightarrow> NG < 2 ^ 31 \<Longrightarrow> nl_all NG n = map int (blocks NG n)"
  by (simp add: nl_all_blocks blocks_def)

lemma state_min_offset:
  assumes "0 < n" "NG < 2 ^ 31" "r \<le> n"
  shows "foldl (\<lambda>off i. size64 (int off + nl_all NG n ! i)) 0 [0..<r] = offset (blocks NG n) r"
  using assms(3)
proof (induction r)
  case (Suc r)
  have "offset (blocks NG n) r + blocks NG n ! r \<le> NG"
    using offset_le [of r "blocks NG n"] Suc.prems blocks_sum [OF assms(1), of NG] by simp
  then show ?case
    using Suc nl_all_eq [OF assms(1,2)] offset_Suc [of r "blocks NG n"] assms(2) by (simp add: size64_id)
qed (simp add: offset_def)

lemma init_parallel_eq:
  assumes "0 < n" "NG < 2 ^ 31" "r < n"
  shows "lo_nlt (init_parallel NG n r) = blocks NG n ! r + 3" "state_min_p (init_parallel NG n r) = offset (blocks NG n) r"
    "lo_nl (init_parallel NG n r) = blocks NG n ! r"
proof -
  have "blocks NG n ! r \<le> NG"
    using offset_le [of r "blocks NG n"] assms(3) blocks_sum [OF assms(1), of NG] by simp
  then show "lo_nlt (init_parallel NG n r) = blocks NG n ! r + 3" "state_min_p (init_parallel NG n r) = offset (blocks NG n) r"
    "lo_nl (init_parallel NG n r) = blocks NG n ! r"
    using assms nl_all_eq [OF assms(1,2)] state_min_offset [OF assms(1,2), of r]
    by (simp_all add: init_parallel_def Let_def size64_id)
qed

definition serial_init :: "'d double_ops \<Rightarrow> 'd \<Rightarrow> (nat \<Rightarrow> 'd) \<Rightarrow> nat \<Rightarrow> 'd list" where
  "serial_init D F index_function NG = map (\<lambda>i. plus_d D F (index_function (i + 2))) [0..<NG]"

lemma init_owns:
  assumes "0 < n" "NG < 2 ^ 31"
  shows "owns (blocks NG n) (serial_init D F f NG)
     (map (\<lambda>r. map (\<lambda>i. plus_d D F (f (state_min_p r + i))) [0..<lo_nlt r]) (map (init_parallel NG n) [0..<n]))"
proof -
  have "offset (blocks NG n) r + j < NG" if "r < n" "j < blocks NG n ! r" for r j
    using offset_le [of r "blocks NG n"] that blocks_sum [OF assms(1), of NG] by simp
  then show ?thesis
    by (simp add: owns_def serial_init_def blocks_sum [OF assms(1)] init_parallel_eq [OF assms] nth_append add.assoc del: upt_Suc)
qed

text \<open>The own cells of all ranks, one after the other.\<close>

definition gather :: "'d list list \<Rightarrow> 'd list" where
  "gather xs = concat (map (\<lambda>x. take (length x - 3) (drop 2 x)) xs)"

lemma gather_take:
  assumes "owns nls g xs" "r \<le> length nls"
  shows "concat (map (\<lambda>x. take (length x - 3) (drop 2 x)) (take r xs)) = take (offset nls r) g"
  using assms(2)
proof (induction r)
  case (Suc r)
  then have r: "r < length nls" by simp
  note o = ownsD [OF assms(1) r]
  have "take (length (xs ! r) - 3) (drop 2 (xs ! r)) = take (nls ! r) (drop (offset nls r) g)"
    using o(1,4) offset_le [OF r] ownsD(2) [OF assms(1) r] by (intro nth_equalityI) (simp_all add: add.commute)
  then show ?case using Suc r o(3) by (simp add: take_Suc_conv_app_nth offset_Suc take_add)
qed (simp add: offset_def)

lemma owns_gather: "owns nls g xs \<Longrightarrow> gather xs = g"
  using gather_take [of nls g xs "length nls"] by (simp add: gather_def offset_def owns_def)

lemma integrate_many:
  assumes "owns nls g xs" "\<forall>m \<in> set nls. 2 \<le> m" "nls \<noteq> []" "exchanges (length nls) ex"
  shows "gather ((integrate ex D F dt ^^ k) (ex xs)) = (serial_integrate D F dt ^^ k) g"
proof -
  have h: "haloed nls g (ex xs)"
    using exchange_haloed [OF assms(1,2)] exchanges_eq [OF assms(4) owns_halo_ok [OF assms(1,2)]] assms(3) by simp
  have "haloed nls ((serial_integrate D F dt ^^ k) g) ((integrate ex D F dt ^^ k) (ex xs))"
    by (induction k) (simp_all add: h integrate_haloed [OF _ assms(2-4)])
  then show ?thesis by (auto simp: haloed_def dest: owns_gather)
qed

text \<open>
  An iteration of main: \<open>steps\<close> integrations (DT divided by dt), the state handed to the API and taken
  from it, noise, and an exchange.
\<close>

definition lorenz_cycle ::
  "('d list list \<Rightarrow> 'd list list) \<Rightarrow> 'd double_ops \<Rightarrow> 'd \<Rightarrow> 'd \<Rightarrow> nat \<Rightarrow> ('d list list \<Rightarrow> int \<times> 'd list list) \<Rightarrow>
     ('d list list \<Rightarrow> 'd list list) \<Rightarrow> 'd list list \<Rightarrow> int \<times> 'd list list" where
  "lorenz_cycle ex D F dt steps expose add_noise x =
     (case expose ((integrate ex D F dt ^^ steps) x) of (nsteps, y) \<Rightarrow> (nsteps, ex (add_noise y)))"

lemma lorenz_cycle_haloed:
  assumes "\<forall>m \<in> set nls. 2 \<le> m" "nls \<noteq> []" "exchanges (length nls) ex"
    "lorenz_cycle ex D F dt steps expose add_noise x = (nsteps, z)"
    "expose ((integrate ex D F dt ^^ steps) x) = (nsteps, y)" "owns nls g (add_noise y)"
  shows "haloed nls g z"
  using assms(4-6) exchange_haloed [OF assms(6,1)] exchanges_eq [OF assms(3) owns_halo_ok [OF assms(6,1)]] assms(2)
  by (simp add: lorenz_cycle_def)

text \<open>
  C28. However many ranks share the state, with at least two cells each, they compute the state of the
  serial model bit by bit: from the initial state and from every state that was exchanged (the one
  the runner got from the server, with its noise), any number of steps on all ranks, with their
  messages in any order, gives the cells that the serial Runge-Kutta step gives, for any arithmetic.
\<close>

theorem lorenz_ranks_are_serial:
  assumes "0 < n" "2 * n \<le> NG" "NG < 2 ^ 31" "exchanges n ex"
  shows "gather ((integrate ex D F dt ^^ k) (init_state ex D F f (map (init_parallel NG n) [0..<n]))) =
       (serial_integrate D F dt ^^ k) (serial_init D F f NG) \<and>
     (\<forall>g xs. owns (blocks NG n) g xs \<longrightarrow>
        gather ((integrate ex D F dt ^^ k) (ex xs)) = (serial_integrate D F dt ^^ k) g)"
proof -
  have b: "\<forall>m \<in> set (blocks NG n). 2 \<le> m" "blocks NG n \<noteq> []" using blocks_two [OF assms(1,2)] assms(1) by (auto simp: blocks_def)
  have "exchanges (length (blocks NG n)) ex" using assms(4) by simp
  note many = integrate_many [OF _ b this]
  show ?thesis unfolding init_state_def using many [OF init_owns [OF assms(1,3)]] many by blast
qed

definition int_ops :: "int double_ops" where
  "int_ops = \<lparr>plus_d = (+), minus_d = (-), times_d = (*), divide_d = (div), literal_d = int\<rparr>"

theorem lorenz_ranks_are_serial_witness:
  "gather ((integrate (exchange_all 2) int_ops 5 6 ^^ 1) (init_state (exchange_all 2) int_ops 5 int (map (init_parallel 5 2) [0..<2]))) =
     (serial_integrate int_ops 5 6 ^^ 1) (serial_init int_ops 5 int 5)"
  by (rule conjunct1 [OF lorenz_ranks_are_serial [OF _ _ _ exchanges_exist]]) simp_all

end
