(* ===== verification/Spec2Isabelle.thy ===== *)
theory Spec2Isabelle
  imports ClusterProps Chunks StorageProps AppProps LauncherProps FaultTolerance Create WeightCalculation
    TimingReports ServerMain ApiWrappers FtiCore LauncherSockets AppReporting Lorenz
begin

text \<open>
  Melissa-DA couples an ensemble of simulations (the runners, linked against the code of api/) with
  a parallel assimilation server (server/): every runner rank sends its part of the state vector to
  the server ranks that store it, the server assimilates all members once they have arrived, and
  sends the members out again. In the peer-to-peer mode (api/p2p/) there is no such server: the
  runners keep the states as checkpoints on their nodes and on the global file system, and a weight
  server hands out jobs. The theories model the C++ code of both modes.

  \<^bold>\<open>Conventions.\<close> Prelude holds what the components share: conversions between the integer widths
  (int32, size64, the subtraction of two size\_t that may wrap), the results of operations (error
  values for a failed assert, exit, abort, a thrown exception, the signal of MERR, blocking for ever,
  undefined behaviour), ordered maps for std::map with an interface locale, and vectors. Names of
  definitions follow the functions of the code; every record is a class or the globals of a file.
  A function that can fail returns a sum; where what happened before the failure matters, as in the
  server, the error carries the state. Effects (frames sent, MPI messages, calls of the storage
  library, closed sockets) are lists in the state, in the order in which they happen. Time is a
  field of the state.

  \<^bold>\<open>Redistribution of the state vector.\<close> Part models common/Part.cxx: the sizes of the server
  ranks' vectors and the list of parts between M runner ranks and N server ranks, with the
  specification as a layout that lists every byte. Field models server/Field.cxx and
  server/EnsembleMember.cxx: the ensemble members of a server rank, its parts, and the store of a
  part. Lemmas: the parts cover both layouts once, keep elements whole, fit the ranks' vectors.

  \<^bold>\<open>The server.\<close> ServerState has the globals of server/server.cxx for one rank, the messages and the
  effects; Scheduler the sub tasks and how they are scheduled, launched, killed and scheduled again;
  ServerLoop the handlers and one iteration of the main loop; Assimilator the classes behind the
  assimilator interface (a locale, with the code's classes as interpretations), PythonAssimilator the
  one that calls a Python function through views of the members' memory (theory Python), Create the
  choice of the class and its virtual methods as one more interpretation; Timing the events
  and region traces; Collectives the exchange of index maps (common/utils.cxx); Config the
  registration of runners and of the field and the start of the simulation phase. ServerInv and
  ServerHandlers prove the invariant of the scheduler for every handler: each state is unscheduled
  or has one sub task for each connected runner rank, all on one runner that was not killed for it.
  Failures counts the failures of a time step, a specification of late tasks beside the code's own
  search for them: a kill that leaves failures to spare returns, the sixth failure ends the server.
  Responses composes the receipt of a state, its hidden frames included, with the storing and the
  answer. ServerProps states what the handlers do on each branch, and what goes wrong.

  \<^bold>\<open>All ranks of the server.\<close> Protocol is the abstract specification of the messages between rank 0
  and the other ranks: a leader that owns the assignment of states to runners, followers that
  receive it in order, kill on their own and report; its invariant says that they agree on the tasks
  and that a report counts only for the latest task. RankSteps, LeaderSteps and FollowerSteps prove
  of each handler of server.cxx that it is a sequence of steps of the leader (on rank 0) or of a
  follower, and sends the messages of these steps. Cluster has one iteration of the main loop and
  the update step in these terms; ClusterInv the state of all ranks with the messages under way, its
  steps (an iteration on one rank, arrival of frames, delivery of a message, the update step of all
  ranks) and the forward simulation; ClusterRun a complete run of two ranks; ClusterProps the
  results: the refinement, that no rank ever fails the assert of the main loop, that the ranks agree
  on the tasks, that the update step begins only when everything is finished everywhere, that
  finishing is reached, and what happens where the update step does not make the ranks wait.

  \<^bold>\<open>Fault tolerance of the server.\<close> Communicators models the registries of communicators
  (server/MpiManager.cxx, api/p2p/StorageController/mpi\_controller.cxx); ThreadManager the threads of
  server/FTthreadManager.cxx as interleaved accesses to their shared variables, with an invariant of
  all reachable states, from which synchronize has waited for everything that was submitted;
  FaultTolerance server/FTmodule.cxx as the list of its calls of FTI: the checkpoint of a time step
  has every protected buffer once, and parts after the second are registered at the wrong place.

  ServerMain has the rest of main: arguments, addresses, the loop and the end of a rank. Timing has
  the events, TimingReports what the reports compute from them (doubles as exact rationals).

  \<^bold>\<open>The runner and the protocol.\<close> Api models api/api\_common.cxx and api/melissa\_da\_api.cxx for one
  rank of a runner, ApiWrappers its other entry points, Chunks the chunk interface (api/chunk\_based.cxx). ApiInv, Exchange, Start,
  Startup and Shutdown compose runner and server: frames sent by one side are accepted by the other
  side and mean the same, a state sent to all server ranks and back arrives unchanged, registration
  and the start establish the invariant of the scheduler, a runner ends when it is told to.

  \<^bold>\<open>The peer-to-peer mode.\<close> Ckpt names states as checkpoints; Files models the POSIX calls on a
  file system that maps paths to directories and files; Streams the input streams of the C++ library,
  open and closed, with getline and sscanf; Staging models fti\_controller.cxx: the push
  of a checkpoint from a node to the global file system and the pull back, with the FTI library as a
  record of functions; FtiCore its start, protected buffers and messages. StagingInv proves that what was pushed is what is pulled, and that the
  metadata is not: the stream is closed before the loop that reads it, and the count of the lines is
  an uninitialised variable, which the model reads as any value (a parameter). Storage models storage\_controller.cxx: the worker process of a node with its pool
  of slots, its events, its requests to the weight server (a function of the history of requests) and
  the load of an application process. StorageInv and StorageProps prove that it refines a bounded
  cache, that a load is served, what is deleted, and for which sizes the pool cannot work. StorageEntry
  has the start and the end of the controller on both sides and the first turn of the head, and extends
  the refinement to every run of a head from its start. Two contracts are hypotheses there: lib\_ok, that
  FTI's record of local checkpoints changes only at the checkpoint that is noted or removed, and served,
  that the server has so far answered a request to delete with an offered state and dumped none. The
  code does not check the second, and a server that holds a runner to be faulty breaks it
  (empty\_answer\_frees\_a\_slot). A weight that comes again for a cached state takes a slot of its own;
  the steps of a head count these. AppCore
  and AppProps model app\_core.cxx: the processes of a runner and their exchange of a state for a job.
  StorageController::protect and update end without a return statement: what protect returns, and
  whether the return of update goes on, are parameters (the record build), with timing or not;
  AppReporting the buffer through which a weight is posted and the timing report of a runner;
  WeightCalculation the weight of a state (api/p2p/PythonInterface.h), with memory as a map from
  addresses to buffers, and that the arrays stay bound to the buffers of the first call.

  \<^bold>\<open>The launcher.\<close> Messages models the byte formats of common/melissa\_messages.c, LauncherMessages the
  launcher's end of them (common/melissa\_comm4py.c) and helpers of common/melissa\_utils.c,
  LauncherSockets its addresses, the names of nodes and the wrappers of the system.
  LauncherProps proves that the launcher reads what the server sends, and which formats are broken.

  \<^bold>\<open>The Lorenz simulation.\<close> Halo and Lorenz model examples/lorenz/lorenz.cxx, the simulation the tests run
  as a runner: the blocks of its ranks, the exchange of ghost cells as blocking MPI messages, which
  never blocks for ever, and the Runge-Kutta integration, which is the serial one for any arithmetic.

  \<^bold>\<open>Bounds and termination.\<close> All recursions of the model terminate by structure or by a measure that
  is proved to decrease (the copy loops by the bytes left, making room by the used slots, rescheduling
  by the unscheduled states); no fuel is used. The two loops that wait for another process, the load
  of an application process and the request for work, are a partial function whose result is proved
  to be defined exactly where some attempt succeeds, and a recursion over the answers, which
  blocks when they end. Sizes are bounded by hypotheses that name the width (below 2 to the 64, or to
  the 31 for an int), and the wrap-around beyond is part of the definitions.

  \<^bold>\<open>Assumed.\<close> ZeroMQ delivers the frames of a message in order and MPI messages of one sender in
  order for each receiver and tag; the collective operations of an update step make every rank wait
  until all have entered it (property early\_new\_task\_kills\_runner shows what happens otherwise);
  MPI\_Gatherv and MPI\_Scatterv do what their documentation says; the assimilator keeps the
  shape of the field; FTI notes a checkpoint without touching its files and keeps the records of
  other checkpoints; the weight server answers a head as described above. All are parameters or hypotheses, with an instance in the witness of each
  property that has one.

  \<^bold>\<open>Not modelled.\<close> The CPython interpreter and the PDAF library with its Fortran wrapper, which are
  parameters; the functions of FTI, MPI and ZeroMQ themselves; reference counts, the allocator and the printing of logs and files; the other
  examples, the Python launcher and tests. The peer connections of the peer-to-peer mode are commented out in the code.
\<close>

end
